(* ===== verification/Prelude.thy ===== *)
theory Prelude
  imports Main "HOL-Library.Word" "HOL-Library.Monad_Syntax"
begin

text \<open>
  What the components share: the fixed-width integer types of \<^verbatim>\<open>stdint.h\<close>, buffers as lists of
  bytes with bounds-checked \<open>memcpy\<close>, the little-endian image of an integer in memory, the
  arithmetic of \<^verbatim>\<open>size_t\<close>, and the development's collections of simplification rules.

  A C function that can fault (an access outside its buffer, a dereferenced null pointer) or that
  can run forever returns an \<open>option\<close>: \<open>None\<close> says that the C program has no defined
  result there, \<open>Some\<close> carries the value it returns. Addresses and \<^verbatim>\<open>size_t\<close> values are
  natural numbers, \<open>0\<close> is \<^verbatim>\<open>NULL\<close>, and wrap-around is written out where it can happen.
\<close>

unbundle bit_operations_syntax

type_synonym u8 = "8 word"
type_synonym u16 = "16 word"
type_synonym u32 = "32 word"
type_synonym u64 = "64 word"
type_synonym addr = nat
type_synonym bytes = "u8 list"

named_theorems buf_simps
named_theorems wire_simps

section \<open>size\_t arithmetic\<close>

definition sz_add :: "nat \<Rightarrow> nat \<Rightarrow> nat" where
  "sz_add a b = (a + b) mod 2 ^ 64"

definition sz_sub :: "nat \<Rightarrow> nat \<Rightarrow> nat" where
  "sz_sub a b = (a + 2 ^ 64 - b) mod 2 ^ 64"

lemma sz_add_exact: "a + b < 2 ^ 64 \<Longrightarrow> sz_add a b = a + b"
  by (simp add: sz_add_def)

lemma sz_sub_exact: "b \<le> a \<Longrightarrow> a < 2 ^ 64 \<Longrightarrow> sz_sub a b = a - b"
  by (auto simp: sz_sub_def le_iff_add)

section \<open>Buffers\<close>

text \<open>\<^verbatim>\<open>memcpy (buf + off, bs, length bs)\<close> and reads of \<open>n\<close> bytes at an offset.\<close>

definition buf_write :: "bytes \<Rightarrow> nat \<Rightarrow> bytes \<Rightarrow> bytes option" where
  "buf_write buf off bs =
     (if off + length bs \<le> length buf
      then Some (take off buf @ bs @ drop (off + length bs) buf) else None)"

definition buf_read :: "bytes \<Rightarrow> nat \<Rightarrow> nat \<Rightarrow> bytes option" where
  "buf_read buf off n =
     (if off + n \<le> length buf then Some (take n (drop off buf)) else None)"

lemma buf_write_fits [buf_simps]:
  "off + length bs \<le> length buf \<Longrightarrow>
   buf_write buf off bs = Some (take off buf @ bs @ drop (off + length bs) buf)"
  by (simp add: buf_write_def)

lemma buf_write_Some_length: "buf_write buf off bs = Some buf' \<Longrightarrow> length buf' = length buf"
  by (auto simp: buf_write_def split: if_splits)

lemma buf_write_append:
  "length pre = off \<Longrightarrow> length bs \<le> length rest \<Longrightarrow>
   buf_write (pre @ rest) off bs = Some (pre @ bs @ drop (length bs) rest)"
  by (simp add: buf_write_def)

lemma buf_write_None: "buf_write buf off bs = None \<longleftrightarrow> length buf < off + length bs"
  by (auto simp: buf_write_def)

lemma buf_read_append [buf_simps]:
  "length pre = off \<Longrightarrow> length bs = n \<Longrightarrow> buf_read (pre @ bs @ post) off n = Some bs"
  by (simp add: buf_read_def)

section \<open>Integers in memory\<close>

text \<open>The little-endian image of an integer, as \<^verbatim>\<open>memcpy\<close> from its address copies it.\<close>

definition le16 :: "u16 \<Rightarrow> bytes" where
  "le16 v = [ucast v, ucast (drop_bit 8 v)]"

definition le32 :: "u32 \<Rightarrow> bytes" where
  "le32 v = [ucast v, ucast (drop_bit 8 v), ucast (drop_bit 16 v), ucast (drop_bit 24 v)]"

fun of_le16 :: "bytes \<Rightarrow> u16" where
  "of_le16 [a, b] = ucast a OR push_bit 8 (ucast b)"
| "of_le16 _ = 0"

fun of_le32 :: "bytes \<Rightarrow> u32" where
  "of_le32 [a, b, c, d] =
     ucast a OR push_bit 8 (ucast b) OR push_bit 16 (ucast c) OR push_bit 24 (ucast d)"
| "of_le32 _ = 0"

lemma le16_length [simp]: "length (le16 v) = 2"
  by (simp add: le16_def)

lemma le32_length [simp]: "length (le32 v) = 4"
  by (simp add: le32_def)

lemma of_le16_le16 [simp]: "of_le16 (le16 v) = v"
  unfolding le16_def of_le16.simps
  by (rule bit_word_eqI) (auto simp: bit_simps)

lemma of_le32_le32 [simp]: "of_le32 (le32 v) = v"
  unfolding le32_def of_le32.simps
proof (rule bit_word_eqI)
  fix n
  assume "n < LENGTH(32)"
  then consider "n < 8" | "8 \<le> n" "n < 16" | "16 \<le> n" "n < 24" | "24 \<le> n" "n < 32"
    by force
  then show "bit (ucast (ucast v :: u8) OR push_bit 8 (ucast (ucast (drop_bit 8 v) :: u8)) OR
      push_bit 16 (ucast (ucast (drop_bit 16 v) :: u8)) OR
      push_bit 24 (ucast (ucast (drop_bit 24 v) :: u8)) :: u32) n = bit v n"
    by cases (auto simp: bit_simps)
qed

lemma u8_bit_high [simp]: "8 \<le> n \<Longrightarrow> \<not> bit (a :: u8) n"
  using bit_imp_le_length [of a n] by auto

lemma u8_less: "unat (a :: u8) < 256"
  using unsigned_less [of a, where ?'a = nat] by simp

lemma u16_less: "unat (a :: u16) < 2 ^ 16"
  using unsigned_less [of a, where ?'a = nat] by simp

lemma u32_less: "unat (a :: u32) < 2 ^ 32"
  using unsigned_less [of a, where ?'a = nat] by simp

lemma u64_less: "unat (a :: u64) < 2 ^ 64"
  using unsigned_less [of a, where ?'a = nat] by simp

lemma u16_bit_high [simp]: "16 \<le> n \<Longrightarrow> \<not> bit (a :: u16) n"
  using bit_imp_le_length [of a n] by auto

lemma u32_bit_high [simp]: "32 \<le> n \<Longrightarrow> \<not> bit (a :: u32) n"
  using bit_imp_le_length [of a n] by auto

lemma le16_of_le16: "length bs = 2 \<Longrightarrow> le16 (of_le16 bs) = bs"
  by (cases bs rule: of_le16.cases)
    (auto simp: le16_def bit_simps intro!: bit_word_eqI)

lemma le32_of_le32: "length bs = 4 \<Longrightarrow> le32 (of_le32 bs) = bs"
  by (cases bs rule: of_le32.cases)
    (auto simp: le32_def bit_simps intro!: bit_word_eqI)

end
