(* ===== verification/Link_List.thy ===== *)
theory Link_List
  imports Prelude
begin

text \<open>
  The intrusive circular lists of \<^verbatim>\<open>lib/source/link_list.c\<close> and the queue and stack built on
  them (\<^verbatim>\<open>lib/source/queue.c\<close>, \<^verbatim>\<open>lib/source/stack.c\<close>), at the level of pointers: a memory maps
  the address of each \<^verbatim>\<open>struct list_node\<close> to its two links, and an access to an address that
  holds no node is a fault. Every statement of the source reads the links it mentions again, in its
  order, so aliasing between the arguments is part of the model.

  \<open>dlist m h xs\<close> says that \<open>h\<close> heads a circular list of the nodes \<open>xs\<close>. The lemmas show
  that the C operations insert and remove at exactly one place of that sequence and touch no other
  node; the locales \<open>node_container\<close>, \<open>fifo\<close> and \<open>lifo\<close> state the contract of a queue
  and of a stack over it.
\<close>

section \<open>Nodes and operations\<close>

record list_node =
  nxt :: addr
  prv :: addr

type_synonym list_mem = "addr \<rightharpoonup> list_node"

definition set_nxt :: "list_mem \<Rightarrow> addr \<Rightarrow> addr \<Rightarrow> list_mem option" where
  "set_nxt m p v = do { n \<leftarrow> m p; Some (m(p \<mapsto> n\<lparr>nxt := v\<rparr>)) }"

definition set_prv :: "list_mem \<Rightarrow> addr \<Rightarrow> addr \<Rightarrow> list_mem option" where
  "set_prv m p v = do { n \<leftarrow> m p; Some (m(p \<mapsto> n\<lparr>prv := v\<rparr>)) }"

definition list_node_init :: "list_mem \<Rightarrow> addr \<Rightarrow> list_mem option" where
  "list_node_init m node = do { n \<leftarrow> m node; Some (m(node \<mapsto> \<lparr>nxt = node, prv = node\<rparr>)) }"

definition list_empty :: "list_mem \<Rightarrow> addr \<Rightarrow> bool option" where
  "list_empty m node = do { n \<leftarrow> m node; Some (nxt n = node \<or> prv n = node) }"

definition list_add_prev :: "list_mem \<Rightarrow> addr \<Rightarrow> addr \<Rightarrow> list_mem option" where
  "list_add_prev m next prev = do {
     n \<leftarrow> m next;
     m \<leftarrow> set_prv m prev (prv n);
     m \<leftarrow> set_nxt m prev next;
     n \<leftarrow> m next;
     m \<leftarrow> set_nxt m (prv n) prev;
     set_prv m next prev }"

definition list_add_next :: "list_mem \<Rightarrow> addr \<Rightarrow> addr \<Rightarrow> list_mem option" where
  "list_add_next m prev next = do {
     m \<leftarrow> set_prv m next prev;
     p \<leftarrow> m prev;
     m \<leftarrow> set_nxt m next (nxt p);
     p \<leftarrow> m prev;
     m \<leftarrow> set_prv m (nxt p) next;
     set_nxt m prev next }"

definition list_remove :: "list_mem \<Rightarrow> addr \<Rightarrow> list_mem option" where
  "list_remove m node = do {
     n \<leftarrow> m node;
     m \<leftarrow> set_nxt m (prv n) (nxt n);
     n \<leftarrow> m node;
     set_prv m (nxt n) (prv n) }"

definition queue_enqueue :: "list_mem \<Rightarrow> addr \<Rightarrow> addr \<Rightarrow> list_mem option" where
  "queue_enqueue m head node = list_add_prev m head node"

definition queue_dequeue :: "list_mem \<Rightarrow> addr \<Rightarrow> (addr \<times> list_mem) option" where
  "queue_dequeue m head = do {
     e \<leftarrow> list_empty m head;
     if e then Some (0, m)
     else do {
       h \<leftarrow> m head;
       m \<leftarrow> list_remove m (nxt h);
       Some (nxt h, m) } }"

definition stack_push :: "list_mem \<Rightarrow> addr \<Rightarrow> addr \<Rightarrow> list_mem option" where
  "stack_push m head node = list_add_next m head node"

definition stack_pop :: "list_mem \<Rightarrow> addr \<Rightarrow> (addr \<times> list_mem) option" where
  "stack_pop m head = do {
     e \<leftarrow> list_empty m head;
     if e then Some (0, m)
     else do {
       h \<leftarrow> m head;
       m \<leftarrow> list_remove m (nxt h);
       Some (nxt h, m) } }"

section \<open>The sequence a head stands for\<close>

definition nx :: "list_mem \<Rightarrow> addr \<Rightarrow> addr option" where
  "nx m p = map_option nxt (m p)"

definition pv :: "list_mem \<Rightarrow> addr \<Rightarrow> addr option" where
  "pv m p = map_option prv (m p)"

fun chain :: "(addr \<Rightarrow> addr option) \<Rightarrow> (addr \<Rightarrow> addr option) \<Rightarrow> addr list \<Rightarrow> bool" where
  "chain f g (x # y # zs) \<longleftrightarrow> f x = Some y \<and> g y = Some x \<and> chain f g (y # zs)"
| "chain f g _ \<longleftrightarrow> True"

definition dlist :: "list_mem \<Rightarrow> addr \<Rightarrow> addr list \<Rightarrow> bool" where
  "dlist m h xs \<longleftrightarrow> distinct (h # xs) \<and> chain (nx m) (pv m) (h # xs @ [h])"

lemma in_set_tlD: "x \<in> set (tl xs) \<Longrightarrow> x \<in> set xs"
  by (cases xs) auto

lemma chain_append:
  "chain f g (xs @ y # zs) \<longleftrightarrow> chain f g (xs @ [y]) \<and> chain f g (y # zs)"
  by (induction f g xs rule: chain.induct) auto

lemma chain_appendD: "chain f g (xs @ y # zs) \<Longrightarrow> chain f g (y # zs)"
  using chain_append [of f g xs y zs] by simp

lemma chain_upd_nxt [simp]:
  "p \<notin> set (butlast xs) \<Longrightarrow> chain (f(p := v)) g xs \<longleftrightarrow> chain f g xs"
  by (induction f g xs rule: chain.induct) auto

lemma chain_upd_prv [simp]:
  "p \<notin> set (tl xs) \<Longrightarrow> chain f (g(p := v)) xs \<longleftrightarrow> chain f g xs"
  by (induction f g xs rule: chain.induct) auto


section \<open>What each operation does to the links\<close>

lemmas link_defs = set_nxt_def set_prv_def nx_def pv_def

lemma list_add_next_links:
  assumes "nx m p = Some q" "q \<in> dom m" "n \<in> dom m" "n \<noteq> p" "n \<noteq> q"
  obtains m' where "list_add_next m p n = Some m'"
    "nx m' = (nx m)(n := Some q, p := Some n)" "pv m' = (pv m)(n := Some p, q := Some n)"
    "dom m' = dom m" "\<forall>a. a \<notin> {n, p, q} \<longrightarrow> m' a = m a"
proof -
  from assms obtain np nq nn where cells: "m p = Some np" "nxt np = q" "m q = Some nq" "m n = Some nn"
    by (auto simp: pv_def nx_def)
  show thesis
  proof (cases "p = q")
    case True
    with cells assms have "list_add_next m p n = Some (m(n \<mapsto> nn\<lparr>prv := p, nxt := q\<rparr>, q \<mapsto> nq\<lparr>prv := n, nxt := n\<rparr>))"
      by (simp add: link_defs list_add_next_def)
    then show thesis
      by (rule that) (use cells assms True in \<open>auto simp: nx_def pv_def\<close>)
  next
    case False
    with cells assms have "list_add_next m p n = Some (m(n \<mapsto> nn\<lparr>prv := p, nxt := q\<rparr>, q \<mapsto> nq\<lparr>prv := n\<rparr>, p \<mapsto> np\<lparr>nxt := n\<rparr>))"
      by (simp add: link_defs list_add_next_def fun_upd_twist)
    then show thesis
      by (rule that) (use cells assms False in \<open>auto simp: nx_def pv_def\<close>)
  qed
qed

lemma list_add_prev_links:
  assumes "pv m q = Some p" "p \<in> dom m" "n \<in> dom m" "n \<noteq> p" "n \<noteq> q"
  obtains m' where "list_add_prev m q n = Some m'"
    "nx m' = (nx m)(n := Some q, p := Some n)" "pv m' = (pv m)(n := Some p, q := Some n)"
    "dom m' = dom m" "\<forall>a. a \<notin> {n, p, q} \<longrightarrow> m' a = m a"
proof -
  from assms obtain np nq nn where cells: "m q = Some nq" "prv nq = p" "m p = Some np" "m n = Some nn"
    by (auto simp: pv_def nx_def)
  show thesis
  proof (cases "p = q")
    case True
    with cells assms have "list_add_prev m q n = Some (m(n \<mapsto> nn\<lparr>prv := p, nxt := q\<rparr>, q \<mapsto> nq\<lparr>nxt := n, prv := n\<rparr>))"
      by (simp add: link_defs list_add_prev_def)
    then show thesis
      by (rule that) (use cells assms True in \<open>auto simp: nx_def pv_def\<close>)
  next
    case False
    with cells assms have "list_add_prev m q n = Some (m(n \<mapsto> nn\<lparr>prv := p, nxt := q\<rparr>, p \<mapsto> np\<lparr>nxt := n\<rparr>, q \<mapsto> nq\<lparr>prv := n\<rparr>))"
      by (simp add: link_defs list_add_prev_def fun_upd_twist)
    then show thesis
      by (rule that) (use cells assms False in \<open>auto simp: nx_def pv_def\<close>)
  qed
qed

lemma list_remove_links:
  assumes "nx m n = Some q" "pv m n = Some p" "p \<in> dom m" "q \<in> dom m" "n \<noteq> p" "n \<noteq> q"
  obtains m' where "list_remove m n = Some m'"
    "nx m' = (nx m)(p := Some q)" "pv m' = (pv m)(q := Some p)"
    "dom m' = dom m" "\<forall>a. a \<notin> {p, q} \<longrightarrow> m' a = m a"
proof -
  from assms obtain np nq nn where cells: "m q = Some nq" "prv nn = p" "nxt nn = q" "m p = Some np" "m n = Some nn"
    by (auto simp: pv_def nx_def)
  show thesis
  proof (cases "p = q")
    case True
    with cells assms have "list_remove m n = Some (m(q \<mapsto> nq\<lparr>nxt := q, prv := p\<rparr>))"
      by (simp add: link_defs list_remove_def)
    then show thesis
      by (rule that) (use cells assms True in \<open>auto simp: nx_def pv_def\<close>)
  next
    case False
    with cells assms have "list_remove m n = Some (m(p \<mapsto> np\<lparr>nxt := q\<rparr>, q \<mapsto> nq\<lparr>prv := p\<rparr>))"
      by (simp add: link_defs list_remove_def fun_upd_twist)
    then show thesis
      by (rule that) (use cells assms False in \<open>auto simp: nx_def pv_def\<close>)
  qed
qed

section \<open>What each operation does to the sequence\<close>

text \<open>
  A new node linked between two neighbours of the cycle: \<open>a\<close> before and \<open>c\<close> after them, read
  as one open sequence that starts and ends at the head.
\<close>

lemma chain_insert:
  assumes "chain f g (a @ p # q # c)" "distinct (a @ [p])" "distinct (q # c)"
    "p \<notin> set (butlast (q # c))" "q \<notin> set (tl (a @ [p]))" "n \<notin> set (a @ p # q # c)"
  shows "chain (f(n := Some q, p := Some n)) (g(n := Some p, q := Some n)) (a @ p # n # q # c)"
proof -
  have "chain f g (a @ [p])" "chain f g (q # c)"
    using assms(1) chain_append [of f g a p "q # c"] by auto
  moreover have "n \<notin> set (butlast (a @ [p]))" "n \<notin> set (tl (a @ [p]))"
    "n \<notin> set (butlast (q # c))" "n \<notin> set (tl (q # c))"
    using assms(6) by (auto dest: in_set_butlastD in_set_tlD)
  moreover have "p \<notin> set (butlast (a @ [p]))" "q \<notin> set (tl (q # c))"
    using assms(2,3) by auto
  ultimately show ?thesis
    using assms(4-6) by (subst chain_append) auto
qed

lemma chain_delete:
  assumes "chain f g (a @ p # n # q # c)" "distinct (a @ [p])" "distinct (q # c)"
    "p \<notin> set (butlast (q # c))" "q \<notin> set (tl (a @ [p]))"
  shows "chain (f(p := Some q)) (g(q := Some p)) (a @ p # q # c)"
proof -
  have "chain f g (a @ [p])" "chain f g (q # c)"
    using assms(1) chain_append [of f g a p "n # q # c"] by auto
  moreover have "p \<notin> set (butlast (a @ [p]))" "q \<notin> set (tl (q # c))"
    using assms(2,3) by auto
  ultimately show ?thesis
    using assms(4,5) by (subst chain_append) auto
qed


text \<open>The place between two consecutive parts \<open>ys\<close> and \<open>zs\<close> of the cycle.\<close>

lemma cycle_gap:
  assumes "distinct (h # ys @ zs)"
  obtains a p q c where "h # ys @ zs @ [h] = a @ p # q # c" "h # ys = a @ [p]" "zs @ [h] = q # c"
    "p = last (h # ys)" "q = hd (zs @ [h])" "distinct (a @ [p])" "distinct (q # c)"
    "p \<notin> set (butlast (q # c))" "q \<notin> set (tl (a @ [p]))"
proof -
  define a p q c where "a = butlast (h # ys)" "p = last (h # ys)" "q = hd (zs @ [h])" "c = tl (zs @ [h])"
  note defs = this
  have ap: "h # ys = a @ [p]" unfolding defs by (metis append_butlast_last_id list.distinct(1))
  have qc: "zs @ [h] = q # c" unfolding defs by (cases zs) auto
  show thesis
  proof (rule that [OF _ ap qc defs(2,3)])
    show "h # ys @ zs @ [h] = a @ p # q # c"
      using ap qc by (metis append.assoc append_Cons append_Nil)
    show "distinct (a @ [p])" "distinct (q # c)"
      using assms by (auto simp flip: ap qc)
    have "p \<in> set (h # ys)" using ap by simp
    then show "p \<notin> set (butlast (q # c))"
      using assms by (auto simp: butlast_append simp flip: qc)
    have "q \<in> set zs \<or> zs = [] \<and> q = h" using qc by (cases zs) auto
    then show "q \<notin> set (tl (a @ [p]))"
      using assms by (auto simp flip: ap)
  qed
qed

lemma dlist_gap:
  assumes "dlist m h (ys @ zs)"
  obtains p q where "p = last (h # ys)" "q = hd (zs @ [h])" "nx m p = Some q" "pv m q = Some p"
    "p \<in> dom m" "q \<in> dom m" "p \<in> set (h # ys @ zs)" "q \<in> set (h # ys @ zs)"
    "\<And>m' n. n \<notin> set (h # ys @ zs) \<Longrightarrow> nx m' = (nx m)(n := Some q, p := Some n) \<Longrightarrow>
       pv m' = (pv m)(n := Some p, q := Some n) \<Longrightarrow> dlist m' h (ys @ n # zs)"
proof -
  from assms have d: "distinct (h # ys @ zs)" and c: "chain (nx m) (pv m) (h # ys @ zs @ [h])"
    by (simp_all add: dlist_def)
  from d obtain a p q c where g: "h # ys @ zs @ [h] = a @ p # q # c" "h # ys = a @ [p]"
    "zs @ [h] = q # c" "p = last (h # ys)" "q = hd (zs @ [h])" "distinct (a @ [p])"
    "distinct (q # c)" "p \<notin> set (butlast (q # c))" "q \<notin> set (tl (a @ [p]))"
    by (rule cycle_gap)
  from c g(1) have ch: "chain (nx m) (pv m) (a @ p # q # c)" by simp
  have s: "set (a @ p # q # c) = set (h # ys @ zs)" using arg_cong [OF g(1), of set] by auto
  show thesis
  proof (rule that [OF g(4,5)])
    show "nx m p = Some q" "pv m q = Some p" "p \<in> dom m" "q \<in> dom m"
      using ch by (auto dest!: chain_appendD simp: nx_def pv_def)
    show "p \<in> set (h # ys @ zs)" "q \<in> set (h # ys @ zs)" using s by auto
    fix m' n
    assume n: "n \<notin> set (h # ys @ zs)" and m': "nx m' = (nx m)(n := Some q, p := Some n)"
      "pv m' = (pv m)(n := Some p, q := Some n)"
    have "a @ p # n # q # c = (a @ [p]) @ n # (q # c)" by simp
    also have "\<dots> = h # (ys @ n # zs) @ [h]" unfolding g(2) [symmetric] g(3) [symmetric] by simp
    finally have e: "a @ p # n # q # c = h # (ys @ n # zs) @ [h]" .
    from n s have "n \<notin> set (a @ p # q # c)" by blast
    from chain_insert [OF ch g(6-9) this] have "chain (nx m') (pv m') (h # (ys @ n # zs) @ [h])"
      unfolding e m' .
    with n d show "dlist m' h (ys @ n # zs)" unfolding dlist_def by auto
  qed
qed

lemma dlist_add_next:
  assumes "dlist m h (ys @ zs)" "n \<in> dom m" "n \<notin> set (h # ys @ zs)"
  obtains m' where "list_add_next m (last (h # ys)) n = Some m'" "dlist m' h (ys @ n # zs)"
    "dom m' = dom m" "\<forall>a. a \<notin> set (h # n # ys @ zs) \<longrightarrow> m' a = m a"
proof (rule dlist_gap [OF assms(1)])
  fix p q
  assume g: "p = last (h # ys)" "nx m p = Some q" "q \<in> dom m"
    "p \<in> set (h # ys @ zs)" "q \<in> set (h # ys @ zs)"
    "\<And>m' n. n \<notin> set (h # ys @ zs) \<Longrightarrow> nx m' = (nx m)(n := Some q, p := Some n) \<Longrightarrow>
       pv m' = (pv m)(n := Some p, q := Some n) \<Longrightarrow> dlist m' h (ys @ n # zs)"
  with assms(3) have n: "n \<noteq> p" "n \<noteq> q" by blast+
  obtain m' where
    m': "list_add_next m p n = Some m'"
      "nx m' = (nx m)(n := Some q, p := Some n)" "pv m' = (pv m)(n := Some p, q := Some n)"
      "dom m' = dom m" "\<forall>a. a \<notin> {n, p, q} \<longrightarrow> m' a = m a"
    by (rule list_add_next_links [OF g(2,3) assms(2) n])
  show thesis
  proof (rule that)
    show "list_add_next m (last (h # ys)) n = Some m'" using m'(1) unfolding g(1) .
    show "dlist m' h (ys @ n # zs)" by (rule g(6) [OF assms(3) m'(2,3)])
    show "dom m' = dom m" by (rule m'(4))
    show "\<forall>a. a \<notin> set (h # n # ys @ zs) \<longrightarrow> m' a = m a"
      using m'(5) g(4,5) by (auto simp del: set_append)
  qed
qed

lemma dlist_add_prev:
  assumes "dlist m h (ys @ zs)" "n \<in> dom m" "n \<notin> set (h # ys @ zs)"
  obtains m' where "list_add_prev m (hd (zs @ [h])) n = Some m'" "dlist m' h (ys @ n # zs)"
    "dom m' = dom m" "\<forall>a. a \<notin> set (h # n # ys @ zs) \<longrightarrow> m' a = m a"
proof (rule dlist_gap [OF assms(1)])
  fix p q
  assume g: "q = hd (zs @ [h])" "pv m q = Some p" "p \<in> dom m"
    "p \<in> set (h # ys @ zs)" "q \<in> set (h # ys @ zs)"
    "\<And>m' n. n \<notin> set (h # ys @ zs) \<Longrightarrow> nx m' = (nx m)(n := Some q, p := Some n) \<Longrightarrow>
       pv m' = (pv m)(n := Some p, q := Some n) \<Longrightarrow> dlist m' h (ys @ n # zs)"
  with assms(3) have n: "n \<noteq> p" "n \<noteq> q" by blast+
  obtain m' where
    m': "list_add_prev m q n = Some m'"
      "nx m' = (nx m)(n := Some q, p := Some n)" "pv m' = (pv m)(n := Some p, q := Some n)"
      "dom m' = dom m" "\<forall>a. a \<notin> {n, p, q} \<longrightarrow> m' a = m a"
    by (rule list_add_prev_links [OF g(2,3) assms(2) n])
  show thesis
  proof (rule that)
    show "list_add_prev m (hd (zs @ [h])) n = Some m'" using m'(1) unfolding g(1) .
    show "dlist m' h (ys @ n # zs)" by (rule g(6) [OF assms(3) m'(2,3)])
    show "dom m' = dom m" by (rule m'(4))
    show "\<forall>a. a \<notin> set (h # n # ys @ zs) \<longrightarrow> m' a = m a"
      using m'(5) g(4,5) by (auto simp del: set_append)
  qed
qed

lemma dlist_remove:
  assumes "dlist m h (ys @ n # zs)"
  obtains m' where "list_remove m n = Some m'" "dlist m' h (ys @ zs)"
    "dom m' = dom m" "\<forall>a. a \<notin> set (h # ys @ zs) \<longrightarrow> m' a = m a"
proof -
  from assms have d: "distinct (h # ys @ zs)" "n \<notin> set (h # ys @ zs)"
    and c: "chain (nx m) (pv m) (h # ys @ n # zs @ [h])"
    by (auto simp: dlist_def)
  from d(1) obtain a p q c where g: "h # ys @ zs @ [h] = a @ p # q # c" "h # ys = a @ [p]"
    "zs @ [h] = q # c" "distinct (a @ [p])" "distinct (q # c)"
    "p \<notin> set (butlast (q # c))" "q \<notin> set (tl (a @ [p]))"
    by (rule cycle_gap)
  have "h # ys @ n # zs @ [h] = (h # ys) @ n # (zs @ [h])" by simp
  also have "\<dots> = a @ p # n # q # c" unfolding g(2,3) by simp
  finally have ch: "chain (nx m) (pv m) (a @ p # n # q # c)" using c by simp
  then have l: "nx m n = Some q" "pv m n = Some p" "p \<in> dom m" "q \<in> dom m"
    by (auto dest!: chain_appendD simp: nx_def pv_def)
  have s: "set (a @ p # q # c) = set (h # ys @ zs)" using arg_cong [OF g(1), of set] by auto
  then have pq: "p \<in> set (h # ys @ zs)" "q \<in> set (h # ys @ zs)" by auto
  with d(2) have n: "n \<noteq> p" "n \<noteq> q" by blast+
  obtain m' where m': "list_remove m n = Some m'"
    "nx m' = (nx m)(p := Some q)" "pv m' = (pv m)(q := Some p)"
    "dom m' = dom m" "\<forall>a. a \<notin> {p, q} \<longrightarrow> m' a = m a"
    by (rule list_remove_links [OF l n])
  show thesis
  proof (rule that)
    show "list_remove m n = Some m'" "dom m' = dom m" by fact+
    have "chain (nx m') (pv m') (h # ys @ zs @ [h])"
      unfolding m'(2,3) g(1) by (rule chain_delete [OF ch g(4-7)])
    with d(1) show "dlist m' h (ys @ zs)" unfolding dlist_def by simp
    show "\<forall>a. a \<notin> set (h # ys @ zs) \<longrightarrow> m' a = m a"
      using m'(5) pq by (auto simp del: set_append)
  qed
qed


lemma dlist_unfold:
  "dlist m h [] \<Longrightarrow> \<exists>n. m h = Some n \<and> nxt n = h \<and> prv n = h"
  "dlist m h (x # xs) \<Longrightarrow> \<exists>n. m h = Some n \<and> nxt n = x \<and> prv n = last (x # xs) \<and> h \<notin> set (x # xs)"
proof -
  assume "dlist m h []"
  then show "\<exists>n. m h = Some n \<and> nxt n = h \<and> prv n = h" by (auto simp: dlist_def nx_def pv_def)
next
  assume d: "dlist m h (x # xs)"
  then have "dlist m h ((x # xs) @ [])" by simp
  then obtain q where "pv m h = Some (last (h # x # xs))"
    by (rule dlist_gap) auto
  with d show "\<exists>n. m h = Some n \<and> nxt n = x \<and> prv n = last (x # xs) \<and> h \<notin> set (x # xs)"
    by (auto simp: dlist_def nx_def pv_def)
qed

lemma list_empty_dlist: "dlist m h xs \<Longrightarrow> list_empty m h = Some (xs = [])"
proof (cases xs)
  case (Cons y ys)
  moreover assume "dlist m h xs"
  ultimately obtain n where "m h = Some n" "nxt n = y" "prv n = last (y # ys)" "h \<notin> set (y # ys)"
    by (auto dest: dlist_unfold)
  moreover from this have "prv n \<noteq> h" by (metis last_in_set list.distinct(1))
  ultimately show ?thesis using Cons by (auto simp: list_empty_def)
qed (auto simp: list_empty_def dest: dlist_unfold)

lemma dlist_push_back:
  assumes "dlist m h xs" "n \<in> dom m" "n \<notin> set (h # xs)"
  shows "\<exists>m'. list_add_prev m h n = Some m' \<and> dlist m' h (xs @ [n]) \<and> dom m' = dom m"
  by (rule dlist_add_prev [of m h xs "[]" n]) (use assms in auto)

lemma dlist_push_front:
  assumes "dlist m h xs" "n \<in> dom m" "n \<notin> set (h # xs)"
  shows "\<exists>m'. list_add_next m h n = Some m' \<and> dlist m' h (n # xs) \<and> dom m' = dom m"
  by (rule dlist_add_next [of m h "[]" xs n]) (use assms in auto)

lemma chain_cong: "\<forall>a \<in> set xs. f' a = f a \<and> g' a = g a \<Longrightarrow> chain f' g' xs = chain f g xs"
  by (induction f g xs rule: chain.induct) auto

lemma dlist_cong: "\<forall>a \<in> set (h # xs). m' a = m a \<Longrightarrow> dlist m' h xs = dlist m h xs"
  unfolding dlist_def using chain_cong [of "h # xs @ [h]" "nx m'" "nx m" "pv m'" "pv m"] by (simp add: nx_def pv_def)

section \<open>Queue and stack as containers of nodes\<close>

primrec put_all :: "('m \<Rightarrow> addr \<Rightarrow> addr \<Rightarrow> 'm option) \<Rightarrow> 'm \<Rightarrow> addr \<Rightarrow> addr list \<Rightarrow> 'm option" where
  "put_all put m h [] = Some m"
| "put_all put m h (n # ns) = do { m \<leftarrow> put m h n; put_all put m h ns }"

primrec get_all :: "('m \<Rightarrow> addr \<Rightarrow> (addr \<times> 'm) option) \<Rightarrow> nat \<Rightarrow> 'm \<Rightarrow> addr \<Rightarrow> (addr list \<times> 'm) option" where
  "get_all get 0 m h = Some ([], m)"
| "get_all get (Suc k) m h = do { (x, m) \<leftarrow> get m h; (xs, m) \<leftarrow> get_all get k m h; Some (x # xs, m) }"

locale node_container =
  fixes put :: "'m \<Rightarrow> addr \<Rightarrow> addr \<Rightarrow> 'm option"
    and get :: "'m \<Rightarrow> addr \<Rightarrow> (addr \<times> 'm) option"
    and content :: "'m \<Rightarrow> addr \<Rightarrow> addr list \<Rightarrow> bool"
    and nodes :: "'m \<Rightarrow> addr set"
    and ins :: "addr \<Rightarrow> addr list \<Rightarrow> addr list"
  assumes put_content: "content m h xs \<Longrightarrow> n \<in> nodes m \<Longrightarrow> n \<notin> set (h # xs) \<Longrightarrow>
      \<exists>m'. put m h n = Some m' \<and> content m' h (ins n xs) \<and> nodes m' = nodes m"
    and get_empty: "content m h [] \<Longrightarrow> get m h = Some (0, m)"
    and get_content: "content m h (x # xs) \<Longrightarrow>
      \<exists>m'. get m h = Some (x, m') \<and> content m' h xs \<and> nodes m' = nodes m"
    and set_ins: "set (ins n xs) = insert n (set xs)"
begin

lemma put_all_content:
  "content m h xs \<Longrightarrow> distinct ns \<Longrightarrow> set ns \<subseteq> nodes m \<Longrightarrow> set ns \<inter> set (h # xs) = {} \<Longrightarrow>
   \<exists>m'. put_all put m h ns = Some m' \<and> content m' h (fold ins ns xs)"
proof (induction ns arbitrary: m xs)
  case (Cons n ns)
  then obtain m1 where m1: "put m h n = Some m1" "content m1 h (ins n xs)" "nodes m1 = nodes m"
    using put_content [of m h xs n] by auto
  with Cons.prems have "\<exists>m'. put_all put m1 h ns = Some m' \<and> content m' h (fold ins ns (ins n xs))"
    by (intro Cons.IH) (auto simp: set_ins)
  with m1 show ?case by simp
qed simp

lemma get_all_content:
  "content m h xs \<Longrightarrow> \<exists>m'. get_all get (length xs) m h = Some (xs, m') \<and> content m' h []"
proof (induction xs arbitrary: m)
  case (Cons x xs)
  then obtain m1 where "get m h = Some (x, m1)" "content m1 h xs" using get_content by blast
  with Cons.IH [of m1] show ?case by auto
qed auto

lemma put_then_get:
  assumes "content m h []" "distinct ns" "set ns \<subseteq> nodes m" "h \<notin> set ns"
  shows "\<exists>m1 m2. put_all put m h ns = Some m1 \<and>
    get_all get (length (fold ins ns [])) m1 h = Some (fold ins ns [], m2) \<and>
    get m2 h = Some (0, m2)"
proof -
  from put_all_content [OF assms(1-3)] assms(4) obtain m1 where
    "put_all put m h ns = Some m1" "content m1 h (fold ins ns [])" by auto
  with get_all_content [of m1 h "fold ins ns []"] get_empty show ?thesis by blast
qed

end

locale fifo = node_container put get content nodes "\<lambda>n xs. xs @ [n]"
  for put :: "'m \<Rightarrow> addr \<Rightarrow> addr \<Rightarrow> 'm option" and get content nodes
begin

lemma fold_snoc: "fold (\<lambda>n xs. xs @ [n]) ns xs = xs @ ns"
  by (induction ns arbitrary: xs) auto

lemmas first_in_first_out = put_then_get [unfolded fold_snoc append_Nil]

end

locale lifo = node_container put get content nodes "\<lambda>n xs. n # xs"
  for put :: "'m \<Rightarrow> addr \<Rightarrow> addr \<Rightarrow> 'm option" and get content nodes
begin

lemma fold_push: "fold (\<lambda>n xs. n # xs) ns xs = rev ns @ xs"
  by (induction ns arbitrary: xs) auto

lemmas last_in_first_out = put_then_get [unfolded fold_push append_Nil2 length_rev]

end

interpretation queue: fifo queue_enqueue queue_dequeue dlist dom
proof
  fix m h xs n
  assume "dlist m h xs" "n \<in> dom m" "n \<notin> set (h # xs)"
  then show "\<exists>m'. queue_enqueue m h n = Some m' \<and> dlist m' h (xs @ [n]) \<and> dom m' = dom m"
    using dlist_push_back by (auto simp: queue_enqueue_def)
next
  fix m h x xs
  assume d: "dlist m h (x # xs)"
  moreover obtain m' where "list_remove m x = Some m'" "dlist m' h xs" "dom m' = dom m"
    by (rule dlist_remove [of m h "[]" x xs]) (use d in auto)
  ultimately show "\<exists>m'. queue_dequeue m h = Some (x, m') \<and> dlist m' h xs \<and> dom m' = dom m"
    by (auto simp: queue_dequeue_def list_empty_dlist dest!: dlist_unfold)
qed (auto simp: queue_dequeue_def list_empty_dlist)

interpretation stack: lifo stack_push stack_pop dlist dom
proof
  fix m h xs n
  assume "dlist m h xs" "n \<in> dom m" "n \<notin> set (h # xs)"
  then show "\<exists>m'. stack_push m h n = Some m' \<and> dlist m' h (n # xs) \<and> dom m' = dom m"
    using dlist_push_front by (auto simp: stack_push_def)
next
  fix m h x xs
  assume d: "dlist m h (x # xs)"
  moreover obtain m' where "list_remove m x = Some m'" "dlist m' h xs" "dom m' = dom m"
    by (rule dlist_remove [of m h "[]" x xs]) (use d in auto)
  ultimately show "\<exists>m'. stack_pop m h = Some (x, m') \<and> dlist m' h xs \<and> dom m' = dom m"
    by (auto simp: stack_pop_def list_empty_dlist dest!: dlist_unfold)
qed (auto simp: stack_pop_def list_empty_dlist)


section \<open>Properties\<close>

text \<open>C39. The list operations edit the sequence of a circular list at exactly one place: linking a node
  after its predecessor or before its successor inserts it there, every node outside the list is
  untouched, and removing the node again gives back the sequence. The empty test says before, between and
  after whether the sequence is empty.
\<close>

theorem link_list_refines:
  assumes "dlist m h (ys @ zs)" "n \<in> dom m" "n \<notin> set (h # ys @ zs)"
  shows "\<exists>ma mp. list_add_next m (last (h # ys)) n = Some ma \<and>
    list_add_prev m (hd (zs @ [h])) n = Some mp \<and>
    list_empty m h = Some (ys @ zs = []) \<and>
    (\<forall>m' \<in> {ma, mp}. dlist m' h (ys @ n # zs) \<and> list_empty m' h = Some False \<and>
      (\<forall>a. a \<notin> set (h # n # ys @ zs) \<longrightarrow> m' a = m a) \<and>
      (\<exists>mr. list_remove m' n = Some mr \<and> dlist mr h (ys @ zs) \<and> list_empty mr h = Some (ys @ zs = [])))"
proof -
  obtain ma where "list_add_next m (last (h # ys)) n = Some ma" "dlist ma h (ys @ n # zs)"
    "\<forall>a. a \<notin> set (h # n # ys @ zs) \<longrightarrow> ma a = m a"
    by (rule dlist_add_next [OF assms])
  moreover obtain mp where "list_add_prev m (hd (zs @ [h])) n = Some mp" "dlist mp h (ys @ n # zs)"
    "\<forall>a. a \<notin> set (h # n # ys @ zs) \<longrightarrow> mp a = m a"
    by (rule dlist_add_prev [OF assms])
  moreover have "\<exists>mr. list_remove m' n = Some mr \<and> dlist mr h (ys @ zs) \<and> list_empty mr h = Some (ys @ zs = [])"
    if "dlist m' h (ys @ n # zs)" for m'
    by (rule dlist_remove [OF that]) (blast intro: list_empty_dlist)
  moreover have "list_empty m' h = Some False" if "dlist m' h (ys @ n # zs)" for m'
    using list_empty_dlist [OF that] by simp
  ultimately show ?thesis using list_empty_dlist [OF assms(1)] by (intro exI [of _ ma] exI [of _ mp]) auto
qed

definition demo_nodes :: list_mem where
  "demo_nodes = [1 \<mapsto> \<lparr>nxt = 2, prv = 2\<rparr>, 2 \<mapsto> \<lparr>nxt = 1, prv = 1\<rparr>, 3 \<mapsto> \<lparr>nxt = 0, prv = 0\<rparr>,
     4 \<mapsto> \<lparr>nxt = 4, prv = 4\<rparr>]"

theorem link_list_refines_witness:
  "dlist demo_nodes 1 [2] \<and>
   (\<exists>ma. list_add_next demo_nodes 2 3 = Some ma \<and> dlist ma 1 [2, 3])"
proof -
  have d: "dlist demo_nodes 1 ([2] @ [])" "3 \<in> dom demo_nodes" "3 \<notin> set (1 # [2] @ ([] :: addr list))"
    by (simp_all add: dlist_def demo_nodes_def nx_def pv_def)
  from link_list_refines [OF d] d(1) show ?thesis by auto
qed

text \<open>C40. A queue returns its nodes first in, first out: after any distinct nodes are enqueued on an
  empty head, that many dequeues return them in the same order and the next one returns NULL.
\<close>

theorem queue_first_in_first_out:
  assumes "dlist m h []" "distinct ns" "set ns \<subseteq> dom m" "h \<notin> set ns"
  shows "\<exists>m1 m2. put_all queue_enqueue m h ns = Some m1 \<and>
    get_all queue_dequeue (length ns) m1 h = Some (ns, m2) \<and> queue_dequeue m2 h = Some (0, m2)"
  using assms by (rule queue.first_in_first_out)

theorem queue_first_in_first_out_witness:
  "\<exists>m1 m2. put_all queue_enqueue demo_nodes 4 [3, 2, 1] = Some m1 \<and>
    get_all queue_dequeue 3 m1 4 = Some ([3, 2, 1], m2)"
proof -
  have d: "dlist demo_nodes 4 []" "distinct [3, 2, 1 :: addr]" "set [3, 2, 1] \<subseteq> dom demo_nodes"
    "4 \<notin> set [3, 2, 1 :: addr]"
    by (simp_all add: dlist_def demo_nodes_def nx_def pv_def)
  from queue_first_in_first_out [OF d] show ?thesis by (auto simp: numeral_3_eq_3)
qed

text \<open>A stack returns its nodes last in, first out: after any distinct nodes are pushed on an
  empty head, that many pops return them in reverse order and the next one returns NULL.
\<close>

theorem stack_last_in_first_out:
  assumes "dlist m h []" "distinct ns" "set ns \<subseteq> dom m" "h \<notin> set ns"
  shows "\<exists>m1 m2. put_all stack_push m h ns = Some m1 \<and>
    get_all stack_pop (length ns) m1 h = Some (rev ns, m2) \<and> stack_pop m2 h = Some (0, m2)"
  using assms by (rule stack.last_in_first_out)

theorem stack_last_in_first_out_witness:
  "\<exists>m1 m2. put_all stack_push demo_nodes 4 [3, 2, 1] = Some m1 \<and>
    get_all stack_pop 3 m1 4 = Some ([1, 2, 3], m2)"
proof -
  have d: "dlist demo_nodes 4 []" "distinct [3, 2, 1 :: addr]" "set [3, 2, 1] \<subseteq> dom demo_nodes"
    "4 \<notin> set [3, 2, 1 :: addr]"
    by (simp_all add: dlist_def demo_nodes_def nx_def pv_def)
  from stack_last_in_first_out [OF d] show ?thesis by (auto simp: numeral_3_eq_3)
qed

end
