(* ===== verification/Heap_Alloc.thy ===== *)
theory Heap_Alloc
  imports Prelude
begin

text \<open>
  The allocator of \<^verbatim>\<open>mg/source/heap.c\<close> (with \<^verbatim>\<open>HEAP_TRACKING\<close> 0, as the header sets it), at the
  level of its headers in memory: \<open>hmem\<close> gives the \<^verbatim>\<open>struct heap_node\<close> at an address, and the
  record \<open>heap\<close> holds the static \<^verbatim>\<open>the_heap\<close> (its head node lives at the address \<open>the_head\<close>)
  and the address of \<^verbatim>\<open>all_heap\<close>. A dereferenced null pointer is a fault, and the two list
  walks are \<open>partial_function\<close>s, so that neither a fault nor an endless walk has a result.

  The abstract view is the list of blocks that tile the arena, each free or used. \<open>heap_inv\<close>
  relates a heap to it; \<open>spec_malloc\<close> (first fit with splitting) and \<open>spec_free\<close> (with
  coalescing) are the contract, and the refinement lemmas show that the C code implements them.
\<close>

section \<open>State and operations\<close>

definition CONFIG_HEAP :: nat where "CONFIG_HEAP = 1024 * 1024"

text \<open>\<^verbatim>\<open>sizeof (struct heap_node)\<close> rounded up to 8 bytes, and \<^verbatim>\<open>MIN_SIZE\<close>.\<close>

definition heap_struct_size :: nat where "heap_struct_size = 16"
definition MIN_SIZE :: nat where "MIN_SIZE = 2 * heap_struct_size"

record heap_node =
  nd_next :: addr
  nd_size :: nat

record heap =
  hmem :: "addr \<Rightarrow> heap_node"
  the_head :: addr
  tail :: addr
  all_size :: nat
  all_heap :: addr

definition node_at :: "heap \<Rightarrow> addr \<Rightarrow> heap_node option" where
  "node_at h p = (if p = 0 then None else Some (hmem h p))"

definition put_next :: "heap \<Rightarrow> addr \<Rightarrow> addr \<Rightarrow> heap" where
  "put_next h p v = h\<lparr>hmem := (hmem h)(p := (hmem h p)\<lparr>nd_next := v\<rparr>)\<rparr>"

definition put_size :: "heap \<Rightarrow> addr \<Rightarrow> nat \<Rightarrow> heap" where
  "put_size h p v = h\<lparr>hmem := (hmem h)(p := (hmem h p)\<lparr>nd_size := v\<rparr>)\<rparr>"

text \<open>The heap before its first use: \<^verbatim>\<open>the_heap.tail\<close> is NULL.\<close>

definition heap_static :: "addr \<Rightarrow> addr \<Rightarrow> heap" where
  "heap_static head base =
     \<lparr>hmem = (\<lambda>_. \<lparr>nd_next = 0, nd_size = 0\<rparr>), the_head = head, tail = 0, all_size = CONFIG_HEAP,
      all_heap = base\<rparr>"

definition heap_init :: "heap \<Rightarrow> heap" where
  "heap_init h =
     (let start = all_heap h;
          (start, all) =
            (if start mod 8 \<noteq> 0
             then let start' = (start + 7) div 8 * 8 in (start', sz_sub (all_size h) (start' - start))
             else (start, all_size h));
          h = put_size (put_next h (the_head h) start) (the_head h) 0;
          endp = start + all mod 2 ^ 32 - heap_struct_size;
          (endp, all) =
            (if endp mod 8 \<noteq> 0 then let endp' = endp div 8 * 8 in (endp', endp' - start) else (endp, all));
          h = put_next (put_size (h\<lparr>tail := endp\<rparr>) endp 0) endp 0
      in (put_size (put_next h start endp) start all)\<lparr>all_size := all\<rparr>)"

partial_function (option) malloc_search :: "heap \<Rightarrow> nat \<Rightarrow> addr \<Rightarrow> addr \<Rightarrow> (addr \<times> addr) option option" where
  "malloc_search h sz prev use = do {
     u \<leftarrow> node_at h use;
     if nd_size u < sz
     then (if nd_next u = 0 then Some None else malloc_search h sz use (nd_next u))
     else Some (Some (prev, use)) }"

definition malloc_round :: "nat \<Rightarrow> nat" where
  "malloc_round sz =
     (let sz = sz_add sz heap_struct_size
      in if sz mod 8 \<noteq> 0 then sz_add sz (8 - sz mod 8) else sz)"

definition real_heap_malloc :: "heap \<Rightarrow> nat \<Rightarrow> (addr \<times> heap) option" where
  "real_heap_malloc h sz =
     (let sz = malloc_round sz;
          h = (if tail h = 0 then heap_init h else h)
      in do {
        found \<leftarrow> malloc_search h sz (the_head h) (nd_next (hmem h (the_head h)));
        case found of
          None \<Rightarrow> Some (0, h)
        | Some (prev, use) \<Rightarrow>
            let ret = use + heap_struct_size;
                h = put_next h prev (nd_next (hmem h use));
                h = (if nd_size (hmem h use) - sz > MIN_SIZE
                     then let new = use + sz;
                              h = put_size h new (nd_size (hmem h use) - sz);
                              h = put_size h use sz;
                              h = put_next h new (nd_next (hmem h prev))
                          in put_next h prev new
                     else h);
                h = h\<lparr>all_size := sz_sub (all_size h) (nd_size (hmem h use))\<rparr>
            in Some (ret, put_next h use 0) })"

partial_function (option) free_search :: "heap \<Rightarrow> addr \<Rightarrow> addr \<Rightarrow> addr option" where
  "free_search h node iter = do {
     i \<leftarrow> node_at h iter;
     if nd_next i < node then free_search h node (nd_next i) else Some iter }"

definition insert_free_block :: "heap \<Rightarrow> addr \<Rightarrow> heap option" where
  "insert_free_block h node = do {
     iter \<leftarrow> free_search h node (the_head h);
     let h = put_next h node (nd_next (hmem h iter));
         h = put_next h iter node;
         nxt = nd_next (hmem h node);
         h = (if node + nd_size (hmem h node) = nxt
              then if nxt \<noteq> tail h
                   then let h = put_size h node (sz_add (nd_size (hmem h node)) (nd_size (hmem h nxt)))
                        in put_next h node (nd_next (hmem h nxt))
                   else put_next h node (tail h)
              else h)
     in Some (if iter + nd_size (hmem h iter) = node
              then let h = put_size h iter (sz_add (nd_size (hmem h iter)) (nd_size (hmem h node)))
                   in put_next h iter (nd_next (hmem h node))
              else h) }"

definition real_heap_free :: "heap \<Rightarrow> addr \<Rightarrow> heap option" where
  "real_heap_free h ptr =
     (if ptr = 0 then Some h
      else let node = sz_sub ptr heap_struct_size;
               h = h\<lparr>all_size := sz_add (all_size h) (nd_size (hmem h node))\<rparr>
           in insert_free_block h node)"

text \<open>\<^verbatim>\<open>heap_malloc\<close> and \<^verbatim>\<open>heap_free\<close> hold \<^verbatim>\<open>mem_lock\<close> around the whole call.\<close>

definition heap_malloc :: "heap \<Rightarrow> nat \<Rightarrow> (addr \<times> heap) option" where
  "heap_malloc h sz = real_heap_malloc h sz"

definition heap_free :: "heap \<Rightarrow> addr \<Rightarrow> heap option" where
  "heap_free h ptr = real_heap_free h ptr"

record heap_stats =
  remain_size :: nat
  free_size_iter :: nat
  max_free_block :: nat
  free_blocks :: nat

partial_function (option) stats_loop :: "heap \<Rightarrow> heap_stats \<Rightarrow> addr \<Rightarrow> heap_stats option" where
  "stats_loop h st node =
     (if node = 0 then Some st
      else let b = hmem h node;
               st = st\<lparr>free_size_iter := sz_add (free_size_iter st) (nd_size b),
                       max_free_block := (if nd_size b > max_free_block st then nd_size b
                                          else max_free_block st),
                       free_blocks := free_blocks st + 1\<rparr>
           in stats_loop h st (nd_next b))"

definition heap_get_stats :: "heap \<Rightarrow> heap_stats option" where
  "heap_get_stats h =
     stats_loop h \<lparr>remain_size = all_size h, free_size_iter = 0, max_free_block = 0, free_blocks = 0\<rparr>
       (nd_next (hmem h (the_head h)))"


section \<open>The arena as a list of blocks\<close>

datatype blk = Blk (b_addr: addr) (b_size: nat) (b_free: bool)

fun tiles :: "addr \<Rightarrow> blk list \<Rightarrow> addr \<Rightarrow> bool" where
  "tiles a [] e \<longleftrightarrow> a = e"
| "tiles a (b # bs) e \<longleftrightarrow>
     b_addr b = a \<and> 16 \<le> b_size b \<and> b_size b mod 8 = 0 \<and> tiles (a + b_size b) bs e"

fun coalesced :: "blk list \<Rightarrow> bool" where
  "coalesced (b # c # bs) \<longleftrightarrow> \<not> (b_free b \<and> b_free c) \<and> coalesced (c # bs)"
| "coalesced _ \<longleftrightarrow> True"

definition frees :: "blk list \<Rightarrow> addr list" where
  "frees bs = map b_addr (filter b_free bs)"

definition free_size :: "blk list \<Rightarrow> nat" where
  "free_size bs = sum_list (map b_size (filter b_free bs))"

fun fpath :: "(addr \<Rightarrow> heap_node) \<Rightarrow> addr \<Rightarrow> addr list \<Rightarrow> addr \<Rightarrow> bool" where
  "fpath m p [] t \<longleftrightarrow> nd_next (m p) = t"
| "fpath m p (a # as) t \<longleftrightarrow> nd_next (m p) = a \<and> fpath m a as t"

text \<open>The arena that \<open>heap_init\<close> lays out in \<^verbatim>\<open>all_heap\<close>, and where it puts the sentinel.\<close>

definition heap_lo :: "heap \<Rightarrow> addr" where
  "heap_lo h = (all_heap h + 7) div 8 * 8"

definition heap_hi :: "heap \<Rightarrow> addr" where
  "heap_hi h = (if all_heap h mod 8 = 0 then all_heap h + CONFIG_HEAP
                else (all_heap h + CONFIG_HEAP - 16) div 8 * 8)"

definition heap_tail :: "heap \<Rightarrow> addr" where
  "heap_tail h = (if all_heap h mod 8 = 0 then heap_hi h - 16 else heap_hi h)"

definition layout :: "heap \<Rightarrow> bool" where
  "layout h \<longleftrightarrow> 0 < all_heap h \<and> all_heap h + CONFIG_HEAP < 2 ^ 64 \<and> 0 < the_head h \<and>
     (the_head h < all_heap h \<or> all_heap h + CONFIG_HEAP \<le> the_head h)"

definition heap_shape :: "heap \<Rightarrow> blk list \<Rightarrow> bool" where
  "heap_shape h bs \<longleftrightarrow> layout h \<and> tail h = heap_tail h \<and>
     tiles (heap_lo h) bs (heap_hi h) \<and> (\<forall>b \<in> set bs. b_addr b < tail h) \<and>
     fpath (hmem h) (the_head h) (frees bs) (tail h) \<and>
     (\<forall>b \<in> set bs. nd_size (hmem h (b_addr b)) = b_size b) \<and>
     hmem h (tail h) = \<lparr>nd_next = 0, nd_size = 0\<rparr> \<and> nd_size (hmem h (the_head h)) = 0"

definition heap_inv :: "heap \<Rightarrow> blk list \<Rightarrow> bool" where
  "heap_inv h bs \<longleftrightarrow> heap_shape h bs \<and> coalesced bs \<and> all_size h = free_size bs"

section \<open>The contract\<close>

definition carve :: "addr \<Rightarrow> nat \<Rightarrow> nat \<Rightarrow> blk list" where
  "carve a s sz =
     (if s - sz > MIN_SIZE then [Blk a sz False, Blk (a + sz) (s - sz) True]
      else [Blk a s False])"

fun spec_malloc :: "blk list \<Rightarrow> nat \<Rightarrow> (addr \<times> blk list) option" where
  "spec_malloc [] sz = None"
| "spec_malloc (b # bs) sz =
     (if b_free b \<and> sz \<le> b_size b then Some (b_addr b, carve (b_addr b) (b_size b) sz @ bs)
      else map_option (\<lambda>(a, bs'). (a, b # bs')) (spec_malloc bs sz))"

fun join :: "blk list \<Rightarrow> blk list" where
  "join (b # c # bs) =
     (if b_free b \<and> b_free c then Blk (b_addr b) (b_size b + b_size c) True # bs else b # c # bs)"
| "join bs = bs"

fun spec_free :: "blk list \<Rightarrow> addr \<Rightarrow> blk list" where
  "spec_free [] a = []"
| "spec_free (b # bs) a =
     (if b_addr b = a then join (Blk a (b_size b) True # bs) else join (b # spec_free bs a))"

section \<open>Blocks\<close>

lemma tiles_append: "tiles a (bs @ cs) e \<longleftrightarrow> (\<exists>m. tiles a bs m \<and> tiles m cs e)"
  by (induction bs arbitrary: a) auto

lemma tiles_le: "tiles a bs e \<Longrightarrow> a \<le> e"
  by (induction bs arbitrary: a) (auto, fastforce)

lemma tiles_bounds: "tiles a bs e \<Longrightarrow> b \<in> set bs \<Longrightarrow>
    a \<le> b_addr b \<and> b_addr b + b_size b \<le> e \<and> 16 \<le> b_size b \<and> b_size b mod 8 = 0"
  by (induction bs arbitrary: a) (auto dest: tiles_le, fastforce+)

lemma tiles_aligned: "tiles a bs e \<Longrightarrow> a mod 8 = 0 \<Longrightarrow> b \<in> set bs \<Longrightarrow> b_addr b mod 8 = 0"
  by (induction bs arbitrary: a) (auto simp: mod_add_eq [symmetric] mod_eq_0_iff_dvd)

lemma tiles_split:
  assumes "tiles a (pre @ b # post) e"
  shows "tiles a pre (b_addr b)" "tiles (b_addr b + b_size b) post e"
    "16 \<le> b_size b" "b_size b mod 8 = 0"
  using assms by (auto simp: tiles_append)

lemma frees_simps [simp]:
  "frees [] = []" "frees (bs @ cs) = frees bs @ frees cs"
  "frees (b # bs) = (if b_free b then b_addr b # frees bs else frees bs)"
  by (simp_all add: frees_def)

lemma free_size_simps [simp]:
  "free_size [] = 0" "free_size (bs @ cs) = free_size bs + free_size cs"
  "free_size (b # bs) = (if b_free b then b_size b + free_size bs else free_size bs)"
  by (simp_all add: free_size_def)

lemma frees_in: "x \<in> set (frees bs) \<Longrightarrow> \<exists>b \<in> set bs. b_free b \<and> b_addr b = x"
  by (auto simp: frees_def)

lemma tiles_frees_before: "tiles a bs e \<Longrightarrow> x \<in> set (frees bs) \<Longrightarrow> a \<le> x \<and> x < e"
  by (drule frees_in) (auto dest!: tiles_bounds)

lemma tiles_distinct: "tiles a bs e \<Longrightarrow> distinct (map b_addr bs)"
proof (induction bs arbitrary: a)
  case (Cons b bs)
  then have t: "tiles (b_addr b + b_size b) bs e" "16 \<le> b_size b" by auto
  have "b_addr b \<noteq> b_addr c" if "c \<in> set bs" for c
    using tiles_bounds [OF t(1) that] t(2) by linarith
  with Cons.IH [OF t(1)] show ?case by auto
qed simp

lemma distinct_frees: "tiles a bs e \<Longrightarrow> distinct (frees bs)"
  using tiles_distinct distinct_filter by (auto simp: frees_def distinct_map inj_on_def)

section \<open>Paths\<close>

lemma fpath_append: "fpath m p (xs @ y # ys) t \<longleftrightarrow> fpath m p xs y \<and> fpath m y ys t"
  by (induction xs arbitrary: p) auto

lemma fpath_cong:
  "(\<And>x. x \<in> set (p # xs) \<Longrightarrow> nd_next (m' x) = nd_next (m x)) \<Longrightarrow> fpath m' p xs t \<longleftrightarrow> fpath m p xs t"
  by (induction xs arbitrary: p) auto

lemma fpath_next: "fpath m p xs t \<Longrightarrow> nd_next (m (last (p # xs))) = t"
  by (induction xs arbitrary: p) auto

lemma fpath_hd: "fpath m p xs t \<Longrightarrow> nd_next (m p) = hd (xs @ [t])"
  by (cases xs) auto

lemma fpath_redirect:
  assumes "fpath m p xs t" "distinct (p # xs)"
    "nd_next (m' (last (p # xs))) = t'"
    "\<And>x. x \<in> set (p # xs) \<Longrightarrow> x \<noteq> last (p # xs) \<Longrightarrow> nd_next (m' x) = nd_next (m x)"
  shows "fpath m' p xs t'"
  using assms
proof (induction xs arbitrary: p)
  case (Cons a xs)
  have p: "p \<noteq> last (a # xs)" using Cons.prems(2) by (metis distinct.simps(2) last_in_set list.distinct(1))
  have "fpath m' a xs t'"
  proof (rule Cons.IH)
    show "fpath m a xs t" "distinct (a # xs)" "nd_next (m' (last (a # xs))) = t'"
      using Cons.prems(1-3) by simp_all
    show "nd_next (m' x) = nd_next (m x)" if "x \<in> set (a # xs)" "x \<noteq> last (a # xs)" for x
      using Cons.prems(4) [of x] that by simp
  qed
  moreover have "nd_next (m' p) = a" using Cons.prems(1) Cons.prems(4) [of p] p by simp
  ultimately show ?case by simp
qed simp


section \<open>Shape-preserving edits of the headers\<close>

lemma layout_bounds:
  assumes "layout h"
  shows "heap_lo h mod 8 = 0" "0 < heap_lo h" "heap_lo h + 1048000 < heap_hi h"
    "heap_lo h < heap_tail h" "heap_tail h \<le> heap_hi h" "heap_hi h \<le> heap_tail h + 16"
    "heap_hi h < 2 ^ 64" "heap_tail h + 16 < 2 ^ 64"
    "the_head h < heap_lo h \<or> heap_hi h \<le> the_head h" "the_head h \<noteq> heap_tail h"
proof -
  have lo: "all_heap h \<le> heap_lo h" "heap_lo h < all_heap h + 8"
    unfolding heap_lo_def by linarith+
  have hi: "heap_hi h \<le> all_heap h + 1048576" "all_heap h + 1048552 < heap_hi h"
    "all_heap h mod 8 \<noteq> 0 \<Longrightarrow> heap_hi h + 16 \<le> all_heap h + 1048576"
    unfolding heap_hi_def CONFIG_HEAP_def by (simp, linarith?)+
  from assms have l: "0 < all_heap h" "all_heap h + 1048576 < 2 ^ 64"
    "the_head h < all_heap h \<or> all_heap h + 1048576 \<le> the_head h"
    by (simp_all add: layout_def CONFIG_HEAP_def)
  show "heap_lo h mod 8 = 0" by (simp add: heap_lo_def)
  show "0 < heap_lo h" "heap_lo h + 1048000 < heap_hi h" "heap_hi h < 2 ^ 64"
    "the_head h < heap_lo h \<or> heap_hi h \<le> the_head h"
    using lo hi l by linarith+
  have t: "heap_tail h \<le> heap_hi h" "heap_hi h \<le> heap_tail h + 16"
    "heap_tail h + 16 \<le> all_heap h + 1048576"
    using hi unfolding heap_tail_def by auto
  then show "heap_tail h \<le> heap_hi h" "heap_hi h \<le> heap_tail h + 16" by blast+
  show "heap_lo h < heap_tail h" "heap_tail h + 16 < 2 ^ 64" "the_head h \<noteq> heap_tail h"
    using t lo hi l by linarith+
qed

lemma shape_all_size [simp]: "heap_shape (h\<lparr>all_size := x\<rparr>) bs \<longleftrightarrow> heap_shape h bs"
  by (simp add: heap_shape_def layout_def heap_lo_def heap_hi_def heap_tail_def)

lemma layout_hmem [simp]:
  "layout (h\<lparr>hmem := m\<rparr>) = layout h" "heap_lo (h\<lparr>hmem := m\<rparr>) = heap_lo h"
  "heap_hi (h\<lparr>hmem := m\<rparr>) = heap_hi h" "heap_tail (h\<lparr>hmem := m\<rparr>) = heap_tail h"
  by (simp_all add: layout_def heap_lo_def heap_hi_def heap_tail_def)

lemma shape_nodes:
  assumes "heap_shape h bs"
  shows "distinct (the_head h # map b_addr bs)" "tail h \<notin> set (the_head h # map b_addr bs)"
    "0 \<notin> set (tail h # the_head h # map b_addr bs)"
proof -
  from assms have l: "layout h" and t: "tiles (heap_lo h) bs (heap_hi h)" "tail h = heap_tail h"
    and bt: "\<forall>b \<in> set bs. b_addr b < tail h" by (auto simp: heap_shape_def)
  note lb = layout_bounds [OF l]
  have "heap_lo h \<le> b_addr b \<and> b_addr b < heap_hi h" if "b \<in> set bs" for b
    using tiles_bounds [OF t(1) that] by linarith
  then have b: "\<forall>x \<in> set (map b_addr bs). x \<noteq> the_head h \<and> x \<noteq> 0"
    using lb(2,9) by fastforce
  then have "the_head h \<notin> set (map b_addr bs)" by blast
  then show "distinct (the_head h # map b_addr bs)" using tiles_distinct [OF t(1)] by simp
  show "tail h \<notin> set (the_head h # map b_addr bs)" using bt lb(10) t(2) by auto
  show "0 \<notin> set (tail h # the_head h # map b_addr bs)"
    using b l lb(4) t(2) by (auto simp: layout_def simp del: set_map)
qed

lemma frees_subset: "set (frees bs) \<subseteq> set (map b_addr bs)"
  by (auto simp: frees_def)

lemma shape_sizeD: "heap_shape h bs \<Longrightarrow> b \<in> set bs \<Longrightarrow> nd_size (hmem h (b_addr b)) = b_size b"
  by (simp add: heap_shape_def)

text \<open>A path cut in two: what the first part leads to, and the rest read from its first node.\<close>

definition fsuffix :: "(addr \<Rightarrow> heap_node) \<Rightarrow> addr list \<Rightarrow> addr \<Rightarrow> bool" where
  "fsuffix m ys t \<longleftrightarrow> (case ys of [] \<Rightarrow> True | y # ys' \<Rightarrow> fpath m y ys' t)"

lemma fpath_cut: "fpath m p (xs @ ys) t \<longleftrightarrow> fpath m p xs (hd (ys @ [t])) \<and> fsuffix m ys t"
  by (cases ys) (auto simp: fsuffix_def fpath_append)

lemma fsuffix_cong:
  "(\<And>x. x \<in> set ys \<Longrightarrow> nd_next (m' x) = nd_next (m x)) \<Longrightarrow> fsuffix m' ys t \<longleftrightarrow> fsuffix m ys t"
  by (cases ys) (auto simp: fsuffix_def intro!: fpath_cong)

lemma fpath_from: "fpath m a ys t \<longleftrightarrow> nd_next (m a) = hd (ys @ [t]) \<and> fsuffix m ys t"
  by (cases ys) (auto simp: fsuffix_def)

lemma fpath_frame: "fpath m p xs t \<Longrightarrow> \<forall>x \<in> set (p # xs). m' x = m x \<Longrightarrow> fpath m' p xs t"
  by (induction xs arbitrary: p) auto

lemma fsuffix_frame: "fsuffix m ys t \<Longrightarrow> \<forall>x \<in> set ys. m' x = m x \<Longrightarrow> fsuffix m' ys t"
  by (cases ys) (auto simp: fsuffix_def elim!: fpath_frame)

text \<open>
  The free list around one block of the arena: \<open>p\<close> is the last free node before it (or the
  head), \<open>q\<close> the first free node after it (or the sentinel).
\<close>

lemma shape_gap:
  assumes "heap_shape h (pre @ Blk a s f # post)"
  defines "p \<equiv> last (the_head h # frees pre)" and "q \<equiv> hd (frees post @ [tail h])"
  shows "p \<in> set (the_head h # frees pre)" "distinct (the_head h # frees pre @ a # frees post)"
    "tail h \<notin> set (the_head h # frees pre @ a # frees post)"
    "0 \<notin> set (the_head h # frees pre @ a # frees post)" "p \<noteq> a"
    "fpath (hmem h) (the_head h) (frees pre) (if f then a else q)"
    "f \<Longrightarrow> nd_next (hmem h a) = q" "fsuffix (hmem h) (frees post) (tail h)"
proof -
  note n = shape_nodes [OF assms(1)]
  show p: "p \<in> set (the_head h # frees pre)" unfolding p_def by (rule last_in_set) simp
  have t: "tiles (heap_lo h) (pre @ Blk a s f # post) (heap_hi h)"
    using assms(1) by (simp add: heap_shape_def)
  have "distinct (frees pre)" "distinct (frees post)"
    using tiles_split [OF t] distinct_frees by auto
  then show d: "distinct (the_head h # frees pre @ a # frees post)"
    using n(1) frees_subset [of pre] frees_subset [of post] by auto
  with p show "p \<noteq> a" by auto
  show "tail h \<notin> set (the_head h # frees pre @ a # frees post)"
    "0 \<notin> set (the_head h # frees pre @ a # frees post)"
    using n(2,3) frees_subset [of pre] frees_subset [of post] by auto
  have path: "fpath (hmem h) (the_head h) (frees (pre @ Blk a s f # post)) (tail h)"
    using assms(1) unfolding heap_shape_def by blast
  have "fpath (hmem h) (the_head h) (frees pre) (if f then a else q) \<and>
    (f \<longrightarrow> nd_next (hmem h a) = q) \<and> fsuffix (hmem h) (frees post) (tail h)"
  proof (cases f)
    case True
    with path have "fpath (hmem h) (the_head h) (frees pre) a \<and> fpath (hmem h) a (frees post) (tail h)"
      by (simp add: fpath_append)
    with True show ?thesis unfolding q_def by (simp add: fpath_from [of "hmem h" a])
  next
    case False
    with path have "fpath (hmem h) (the_head h) (frees pre @ frees post) (tail h)" by simp
    with False show ?thesis unfolding q_def fpath_cut by simp
  qed
  then show "fpath (hmem h) (the_head h) (frees pre) (if f then a else q)"
    "f \<Longrightarrow> nd_next (hmem h a) = q" "fsuffix (hmem h) (frees post) (tail h)"
    by blast+
qed

text \<open>Changing whether one block is on the free list, by redirecting the node before it.\<close>

lemma shape_relink:
  assumes h: "heap_shape h (pre @ Blk a s f # post)"
  defines "p \<equiv> last (the_head h # frees pre)" and "q \<equiv> hd (frees post @ [tail h])"
  assumes nx: "nd_next (m' p) = (if f' then a else q)" "f' \<Longrightarrow> nd_next (m' a) = q"
    and sz: "\<And>x. nd_size (m' x) = nd_size (hmem h x)"
    and same: "\<And>x. x \<noteq> p \<Longrightarrow> x \<noteq> a \<Longrightarrow> m' x = hmem h x"
  shows "heap_shape (h\<lparr>hmem := m'\<rparr>) (pre @ Blk a s f' # post)"
proof -
  note g = shape_gap [OF h, folded p_def q_def]
  have "fpath m' (the_head h) (frees pre) (if f' then a else q)"
  proof (rule fpath_redirect)
    show "fpath (hmem h) (the_head h) (frees pre) (if f then a else q)" by (rule g)
    show "distinct (the_head h # frees pre)" using g(2) by simp
    show "nd_next (m' (last (the_head h # frees pre))) = (if f' then a else q)"
      using nx(1) unfolding p_def .
    show "nd_next (m' x) = nd_next (hmem h x)"
      if x: "x \<in> set (the_head h # frees pre)" "x \<noteq> last (the_head h # frees pre)" for x
    proof -
      have "x \<noteq> a" using x(1) g(2) by auto
      with x(2) same [of x] show ?thesis unfolding p_def by simp
    qed
  qed
  moreover have "fsuffix m' (frees post) (tail h)"
    using g(1,2,8) same by (subst fsuffix_cong [of _ _ "hmem h"]) (metis Un_iff distinct.simps(2)
        distinct_append disjoint_iff list.set_intros set_append set_ConsD list.set_intros)+
  ultimately have "fpath m' (the_head h) (frees (pre @ Blk a s f' # post)) (tail h)"
    using nx(2) by (cases f') (simp add: fpath_append fpath_from [of m' a] q_def, simp add: fpath_cut q_def)
  moreover have "m' (tail h) = hmem h (tail h)"
    using g(1,3) by (intro same) auto
  ultimately show ?thesis
    using h sz unfolding heap_shape_def by (auto simp: tiles_append)
qed


text \<open>Fusing two neighbouring free blocks into the first one.\<close>

lemma shape_merge:
  assumes h: "heap_shape h (pre @ Blk a s True # Blk b s' True # post)"
    and a: "m' a = \<lparr>nd_next = nd_next (hmem h b), nd_size = s + s'\<rparr>"
    and same: "\<And>x. x \<noteq> a \<Longrightarrow> m' x = hmem h x"
  shows "heap_shape (h\<lparr>hmem := m'\<rparr>) (pre @ Blk a (s + s') True # post)"
proof -
  note g = shape_gap [OF h]
  have b: "heap_shape h ((pre @ [Blk a s True]) @ Blk b s' True # post)" using h by simp
  note gb = shape_gap [OF b]
  have n: "a \<notin> set (map b_addr (pre @ Blk b s' True # post))" "the_head h \<noteq> a" "tail h \<noteq> a"
    using shape_nodes [OF h] by auto
  have "\<forall>x \<in> set (the_head h # frees pre) \<union> set (frees post). m' x = hmem h x"
  proof
    fix x assume "x \<in> set (the_head h # frees pre) \<union> set (frees post)"
    then have "x \<noteq> a" using g(2) by auto
    then show "m' x = hmem h x" by (rule same)
  qed
  then have "fpath m' (the_head h) (frees pre) a" "fsuffix m' (frees post) (tail h)"
    using fpath_frame [OF g(6)] fsuffix_frame [OF gb(8)] by auto
  moreover from this have "fpath m' a (frees post) (tail h)"
    using gb(7) a by (subst fpath_from) simp
  ultimately have "fpath m' (the_head h) (frees (pre @ Blk a (s + s') True # post)) (tail h)"
    by (simp add: fpath_append)
  moreover have "\<forall>c \<in> set (pre @ post). nd_size (m' (b_addr c)) = b_size c"
  proof
    fix c assume c: "c \<in> set (pre @ post)"
    with n(1) have "b_addr c \<noteq> a" by auto
    with c same shape_sizeD [OF h, of c] show "nd_size (m' (b_addr c)) = b_size c" by auto
  qed
  moreover have "tiles (heap_lo h) (pre @ Blk a (s + s') True # post) (heap_hi h)"
    using h unfolding heap_shape_def by (auto simp: tiles_append add.assoc)
  ultimately show ?thesis
    using h n a same unfolding heap_shape_def by auto
qed

text \<open>Splitting a used block in two used blocks, before the second is linked.\<close>

lemma shape_carve:
  assumes h: "heap_shape h (pre @ Blk a s False # post)"
    and sz: "16 \<le> sz" "sz mod 8 = 0" "sz + 32 < s"
    and m': "nd_size (m' a) = sz" "nd_size (m' (a + sz)) = s - sz"
      "\<And>x. x \<noteq> a \<Longrightarrow> x \<noteq> a + sz \<Longrightarrow> m' x = hmem h x"
  shows "heap_shape (h\<lparr>hmem := m'\<rparr>) (pre @ Blk a sz False # Blk (a + sz) (s - sz) False # post)"
proof -
  note g = shape_gap [OF h]
  have t: "tiles (heap_lo h) (pre @ Blk a s False # post) (heap_hi h)" and l: "layout h"
    and tl: "tail h = heap_tail h"
    using h by (auto simp: heap_shape_def)
  note ts = tiles_split [OF t, simplified]
  have inside: "heap_lo h \<le> a" "a + s \<le> heap_hi h"
    using tiles_bounds [OF t, of "Blk a s False"] by auto
  have new: "a + sz \<notin> set (the_head h # tail h # map b_addr (pre @ post))" "a + sz < tail h"
  proof -
    have "\<forall>b \<in> set pre. b_addr b \<noteq> a + sz"
      using tiles_bounds [OF ts(1)] by fastforce
    moreover have "\<forall>b \<in> set post. b_addr b \<noteq> a + sz"
      using tiles_bounds [OF ts(2)] sz by fastforce
    moreover show "a + sz < tail h" using layout_bounds(6) [OF l] inside sz tl by linarith
    moreover have "a + sz \<noteq> the_head h" using layout_bounds(9) [OF l] inside sz by linarith
    ultimately show "a + sz \<notin> set (the_head h # tail h # map b_addr (pre @ post))" by auto
  qed
  have old: "a \<notin> set (the_head h # tail h # map b_addr (pre @ post))"
    using shape_nodes [OF h] by auto
  have "fpath m' (the_head h) (frees pre @ frees post) (tail h)"
  proof (rule fpath_frame)
    show "fpath (hmem h) (the_head h) (frees pre @ frees post) (tail h)"
      using h by (auto simp: heap_shape_def)
    show "\<forall>x \<in> set (the_head h # frees pre @ frees post). m' x = hmem h x"
    proof
      fix x assume "x \<in> set (the_head h # frees pre @ frees post)"
      then have "x \<in> set (the_head h # tail h # map b_addr (pre @ post))"
        using frees_subset [of "pre @ post"] by auto
      with new(1) old have "x \<noteq> a" "x \<noteq> a + sz" by blast+
      then show "m' x = hmem h x" by (rule m'(3))
    qed
  qed
  moreover have "\<forall>c \<in> set (pre @ post). nd_size (m' (b_addr c)) = b_size c"
  proof
    fix c assume c: "c \<in> set (pre @ post)"
    then have "b_addr c \<in> set (map b_addr (pre @ post))" by auto
    then have "b_addr c \<noteq> a" "b_addr c \<noteq> a + sz" using new(1) old by (metis list.set_intros(2))+
    with c m'(3) shape_sizeD [OF h, of c] show "nd_size (m' (b_addr c)) = b_size c" by auto
  qed
  moreover have "s mod 8 = 0" using ts by simp
  then have "(s - sz) mod 8 = 0" using sz(2) by (simp add: mod_eq_0_iff_dvd)
  ultimately show ?thesis
    using h new old sz m' unfolding heap_shape_def by (auto simp: tiles_append)
qed


section \<open>Allocation\<close>

lemma malloc_round_eq:
  assumes "n + 24 \<le> 2 ^ 64"
  shows "malloc_round n = (n + 23) div 8 * 8"
proof -
  define q r where "q = (n + 16) div 8" "r = (n + 16) mod 8"
  then have n: "n + 16 = q * 8 + r" "r < 8" by simp_all
  have "sz_add n 16 = n + 16" using assms by (intro sz_add_exact) simp
  moreover have "sz_add (q * 8 + r) (8 - r) = q * 8 + 8" if "r \<noteq> 0"
  proof -
    have "q * 8 + r + (8 - r) < 2 ^ 64" using assms n that by simp
    with n(2) show ?thesis by (simp add: sz_add_exact)
  qed
  moreover have "n + 23 = q * 8 + (r + 7)" using n(1) by simp
  then have "(n + 23) div 8 = q + (r + 7) div 8" by simp
  moreover have "(r + 7) div 8 = (if r = 0 then 0 else 1)"
    using n(2) by (auto intro!: div_nat_eqI)
  ultimately show ?thesis using n by (simp add: malloc_round_def heap_struct_size_def)
qed

lemma malloc_round_bounds:
  assumes "n + 24 \<le> 2 ^ 64"
  shows "n + 16 \<le> malloc_round n" "malloc_round n < n + 24" "malloc_round n mod 8 = 0"
proof -
  have "(n + 23) div 8 * 8 + (n + 23) mod 8 = n + 23" "(n + 23) mod 8 < 8" by simp_all
  then show "n + 16 \<le> malloc_round n" "malloc_round n < n + 24"
    unfolding malloc_round_eq [OF assms] by linarith+
  show "malloc_round n mod 8 = 0" unfolding malloc_round_eq [OF assms] by simp
qed

lemma malloc_search_first:
  assumes "fpath (hmem h) p xs t" "t \<noteq> 0" "0 \<notin> set xs"
    "hmem h t = \<lparr>nd_next = 0, nd_size = 0\<rparr>" "0 < sz"
  shows "malloc_search h sz p (hd (xs @ [t])) =
    Some (case dropWhile (\<lambda>a. nd_size (hmem h a) < sz) xs of [] \<Rightarrow> None
          | u # _ \<Rightarrow> Some (last (p # takeWhile (\<lambda>a. nd_size (hmem h a) < sz) xs), u))"
  using assms(1,3)
proof (induction xs arbitrary: p)
  case Nil
  with assms show ?case by (simp add: malloc_search.simps [of h sz p t] node_at_def)
next
  case (Cons a xs)
  have "nd_next (hmem h a) = hd (xs @ [t])" using Cons.prems by (simp add: fpath_hd)
  moreover have "hd (xs @ [t]) \<noteq> 0" using Cons.prems assms(2) by (cases xs) auto
  moreover have "a \<noteq> 0" using Cons.prems by simp
  ultimately show ?case
    using Cons.IH [of a] Cons.prems
    by (cases "nd_size (hmem h a) < sz")
      (simp_all add: malloc_search.simps [of h sz p a] node_at_def cong: list.case_cong)
qed

lemma spec_malloc_None: "spec_malloc bs sz = None \<Longrightarrow> \<forall>b \<in> set bs. b_free b \<longrightarrow> b_size b < sz"
  by (induction bs) (auto split: if_splits)

lemma spec_malloc_Some:
  "spec_malloc bs sz = Some (a, bs') \<Longrightarrow>
   \<exists>pre s post. bs = pre @ Blk a s True # post \<and> sz \<le> s \<and> bs' = pre @ carve a s sz @ post \<and>
     (\<forall>b \<in> set pre. b_free b \<longrightarrow> b_size b < sz)"
proof (induction bs arbitrary: bs')
  case (Cons b bs)
  show ?case
  proof (cases "b_free b \<and> sz \<le> b_size b")
    case True
    with Cons.prems have "a = b_addr b" "bs' = [] @ carve a (b_size b) sz @ bs" by auto
    moreover have "b = Blk (b_addr b) (b_size b) True" using True by (cases b) auto
    ultimately show ?thesis
      using True by (metis append_Nil empty_iff empty_set)
  next
    case False
    with Cons.prems obtain cs where cs: "spec_malloc bs sz = Some (a, cs)" "bs' = b # cs" by auto
    from Cons.IH [OF cs(1)] obtain pre s post where
      "bs = pre @ Blk a s True # post" "sz \<le> s" "cs = pre @ carve a s sz @ post"
      "\<forall>b \<in> set pre. b_free b \<longrightarrow> b_size b < sz" by blast
    with False cs(2) show ?thesis
      by (intro exI [of _ "b # pre"] exI [of _ s] exI [of _ post]) auto
  qed
qed simp

lemma coalesced_append:
  "coalesced (xs @ ys) \<longleftrightarrow> coalesced xs \<and> coalesced ys \<and>
     (xs \<noteq> [] \<longrightarrow> ys \<noteq> [] \<longrightarrow> \<not> (b_free (last xs) \<and> b_free (hd ys)))"
  by (induction xs rule: coalesced.induct) (auto, (cases ys; auto)+)

lemma coalesced_carve:
  "coalesced (pre @ Blk a s True # post) \<Longrightarrow> coalesced (pre @ carve a s sz @ post)"
  by (cases post) (auto simp: coalesced_append carve_def)

lemma free_size_le: "tiles a bs e \<Longrightarrow> a + free_size bs \<le> e"
  by (induction bs arbitrary: a) (auto, fastforce+)


lemma search_result:
  assumes h: "heap_shape h bs" and sz: "0 < sz"
  shows "spec_malloc bs sz = None \<Longrightarrow>
      malloc_search h sz (the_head h) (nd_next (hmem h (the_head h))) = Some None"
    and "bs = pre @ Blk a s True # post \<Longrightarrow> sz \<le> s \<Longrightarrow>
      \<forall>b \<in> set pre. b_free b \<longrightarrow> b_size b < sz \<Longrightarrow>
      malloc_search h sz (the_head h) (nd_next (hmem h (the_head h))) =
        Some (Some (last (the_head h # frees pre), a))"
proof -
  have f: "fpath (hmem h) (the_head h) (frees bs) (tail h)"
    "hmem h (tail h) = \<lparr>nd_next = 0, nd_size = 0\<rparr>"
    using h by (auto simp: heap_shape_def)
  have z: "tail h \<noteq> 0" "0 \<notin> set (frees bs)"
    using shape_nodes(3) [OF h] frees_subset [of bs] by auto
  note search = malloc_search_first [OF f(1) z f(2) sz] fpath_hd [OF f(1)]
  have size: "nd_size (hmem h (b_addr b)) = b_size b" if "b \<in> set bs" for b
    using h that by (simp add: heap_shape_def)
  show "malloc_search h sz (the_head h) (nd_next (hmem h (the_head h))) = Some None"
    if "spec_malloc bs sz = None"
  proof -
    have "\<forall>x \<in> set (frees bs). nd_size (hmem h x) < sz"
      using spec_malloc_None [OF that] size by (auto dest: frees_in)
    then have "dropWhile (\<lambda>x. nd_size (hmem h x) < sz) (frees bs) = []" by simp
    with search show ?thesis by simp
  qed
  show "malloc_search h sz (the_head h) (nd_next (hmem h (the_head h))) =
      Some (Some (last (the_head h # frees pre), a))"
    if bs: "bs = pre @ Blk a s True # post" "sz \<le> s" "\<forall>b \<in> set pre. b_free b \<longrightarrow> b_size b < sz"
  proof -
    have "\<forall>x \<in> set (frees pre). nd_size (hmem h x) < sz"
    proof
      fix x assume "x \<in> set (frees pre)"
      then obtain b where "b \<in> set pre" "b_free b" "b_addr b = x" using frees_in by blast
      with bs size [of b] show "nd_size (hmem h x) < sz" by auto
    qed
    moreover have "\<not> nd_size (hmem h a) < sz" using size [of "Blk a s True"] bs by simp
    ultimately show ?thesis using search bs(1) by (simp add: dropWhile_append2 takeWhile_append2)
  qed
qed

text \<open>Taking the block found: the state after the call, with and without a split.\<close>

lemma take_block_shape:
  assumes h: "heap_shape h (pre @ Blk a s True # post)"
    and sz: "16 \<le> sz" "sz mod 8 = 0" "sz \<le> s"
  defines "p \<equiv> last (the_head h # frees pre)"
  shows "s - sz > MIN_SIZE \<Longrightarrow>
      heap_shape (h\<lparr>hmem := (hmem h)(a := \<lparr>nd_next = 0, nd_size = sz\<rparr>,
        a + sz := \<lparr>nd_next = nd_next (hmem h a), nd_size = s - sz\<rparr>,
        p := (hmem h p)\<lparr>nd_next := a + sz\<rparr>)\<rparr>) (pre @ carve a s sz @ post)"
    and "\<not> s - sz > MIN_SIZE \<Longrightarrow>
      heap_shape (h\<lparr>hmem := (hmem h)(p := (hmem h p)\<lparr>nd_next := nd_next (hmem h a)\<rparr>,
        a := (hmem h a)\<lparr>nd_next := 0\<rparr>)\<rparr>) (pre @ carve a s sz @ post)"
proof -
  note g = shape_gap [OF h, folded p_def]
  define m1 where "m1 = (hmem h)(p := (hmem h p)\<lparr>nd_next := nd_next (hmem h a)\<rparr>,
    a := (hmem h a)\<lparr>nd_next := 0\<rparr>)"
  have s1: "heap_shape (h\<lparr>hmem := m1\<rparr>) (pre @ Blk a s False # post)"
    by (rule shape_relink [OF h, where f' = False and m' = m1, folded p_def])
      (use g(5,7) in \<open>auto simp: m1_def\<close>)
  show "heap_shape (h\<lparr>hmem := (hmem h)(p := (hmem h p)\<lparr>nd_next := nd_next (hmem h a)\<rparr>,
        a := (hmem h a)\<lparr>nd_next := 0\<rparr>)\<rparr>) (pre @ carve a s sz @ post)"
    if "\<not> s - sz > MIN_SIZE" using s1 that by (simp add: m1_def carve_def)
  assume split: "s - sz > MIN_SIZE"
  define m2 where "m2 = m1(a := \<lparr>nd_next = 0, nd_size = sz\<rparr>,
    a + sz := \<lparr>nd_next = nd_next (hmem h a), nd_size = s - sz\<rparr>)"
  have s2: "heap_shape (h\<lparr>hmem := m2\<rparr>) ((pre @ [Blk a sz False]) @ Blk (a + sz) (s - sz) False # post)"
    using shape_carve [OF s1 sz(1,2), of m2] split sz
    by (simp add: m2_def MIN_SIZE_def heap_struct_size_def)
  have p: "last (the_head h # frees (pre @ [Blk a sz False])) = p" by (simp add: p_def)
  have new: "p \<noteq> a + sz" using shape_gap(5) [OF s2] p by simp
  have "nd_next (hmem h a) = hd (frees post @ [tail h])" using g(7) by simp
  with new have "heap_shape (h\<lparr>hmem := m2(p := (m2 p)\<lparr>nd_next := a + sz\<rparr>)\<rparr>)
      ((pre @ [Blk a sz False]) @ Blk (a + sz) (s - sz) True # post)"
    using shape_relink [OF s2, where f' = True and m' = "m2(p := (m2 p)\<lparr>nd_next := a + sz\<rparr>)"] p
    by (simp add: m2_def)
  moreover have "m2(p := (m2 p)\<lparr>nd_next := a + sz\<rparr>) = (hmem h)(a := \<lparr>nd_next = 0, nd_size = sz\<rparr>,
        a + sz := \<lparr>nd_next = nd_next (hmem h a), nd_size = s - sz\<rparr>,
        p := (hmem h p)\<lparr>nd_next := a + sz\<rparr>)"
    using g(5) new by (auto simp: m2_def m1_def fun_eq_iff)
  ultimately show "heap_shape (h\<lparr>hmem := (hmem h)(a := \<lparr>nd_next = 0, nd_size = sz\<rparr>,
        a + sz := \<lparr>nd_next = nd_next (hmem h a), nd_size = s - sz\<rparr>,
        p := (hmem h p)\<lparr>nd_next := a + sz\<rparr>)\<rparr>) (pre @ carve a s sz @ post)"
    using split by (simp add: carve_def)
qed


lemma heap_node_upd [simp]:
  "(n :: heap_node)\<lparr>nd_next := v, nd_size := z\<rparr> = \<lparr>nd_next = v, nd_size = z\<rparr>"
  "(n :: heap_node)\<lparr>nd_size := z, nd_next := v\<rparr> = \<lparr>nd_next = v, nd_size = z\<rparr>"
  by (cases n; simp)+

lemma malloc_found:
  assumes h: "heap_shape h (pre @ Blk a s True # post)"
    and sz: "16 \<le> sz" "sz mod 8 = 0" "sz \<le> s" "sz = malloc_round n"
    and small: "\<forall>b \<in> set pre. b_free b \<longrightarrow> b_size b < sz"
  shows "\<exists>h'. real_heap_malloc h n = Some (a + 16, h') \<and> heap_shape h' (pre @ carve a s sz @ post) \<and>
    all_size h' = sz_sub (all_size h) (if s - sz > MIN_SIZE then sz else s) \<and>
    all_heap h' = all_heap h \<and> the_head h' = the_head h"
proof -
  define p where "p = last (the_head h # frees pre)"
  note g = shape_gap [OF h, folded p_def]
  note t = take_block_shape [OF h sz(1-3), folded p_def]
  have tl: "tail h \<noteq> 0" using shape_nodes(3) [OF h] by simp
  have search: "malloc_search h sz (the_head h) (nd_next (hmem h (the_head h))) = Some (Some (p, a))"
    using search_result(2) [OF h, of sz] sz small unfolding p_def by simp
  have size: "nd_size (hmem h a) = s" using shape_sizeD [OF h, of "Blk a s True"] by simp
  show ?thesis
  proof (cases "s - sz > MIN_SIZE")
    case True
    let ?M = "(hmem h)(a := \<lparr>nd_next = 0, nd_size = sz\<rparr>,
        a + sz := \<lparr>nd_next = nd_next (hmem h a), nd_size = s - sz\<rparr>,
        p := (hmem h p)\<lparr>nd_next := a + sz\<rparr>)"
    have sh: "heap_shape (h\<lparr>hmem := ?M\<rparr>) (pre @ carve a s sz @ post)" by (rule t(1) [OF True])
    have "heap_shape (h\<lparr>hmem := ?M\<rparr>) ((pre @ [Blk a sz False]) @ Blk (a + sz) (s - sz) True # post)"
      using sh True by (simp add: carve_def)
    then have new: "p \<noteq> a + sz" using shape_gap(5) unfolding p_def by fastforce
    have "real_heap_malloc h n =
        Some (a + 16, h\<lparr>hmem := ?M, all_size := sz_sub (all_size h) sz\<rparr>)"
      using True tl search size g(5) new sz(1)
      by (auto simp: real_heap_malloc_def sz(4) [symmetric] put_next_def put_size_def
          heap_struct_size_def Let_def fun_eq_iff intro!: heap.equality)
    with sh True show ?thesis by auto
  next
    case False
    let ?M = "(hmem h)(p := (hmem h p)\<lparr>nd_next := nd_next (hmem h a)\<rparr>,
        a := (hmem h a)\<lparr>nd_next := 0\<rparr>)"
    have "real_heap_malloc h n =
        Some (a + 16, h\<lparr>hmem := ?M, all_size := sz_sub (all_size h) s\<rparr>)"
      using False tl search size g(5)
      by (auto simp: real_heap_malloc_def sz(4) [symmetric] put_next_def put_size_def
          heap_struct_size_def Let_def fun_eq_iff intro!: heap.equality)
    with t(2) [OF False] False show ?thesis by auto
  qed
qed

lemma malloc_refines:
  assumes h: "heap_inv h bs" and n: "n + 24 \<le> 2 ^ 64"
  shows "spec_malloc bs (malloc_round n) = None \<Longrightarrow> real_heap_malloc h n = Some (0, h)"
    and "spec_malloc bs (malloc_round n) = Some (a, bs') \<Longrightarrow>
      \<exists>h'. real_heap_malloc h n = Some (a + 16, h') \<and> heap_inv h' bs' \<and>
        all_heap h' = all_heap h \<and> the_head h' = the_head h"
proof -
  from h have s: "heap_shape h bs" "coalesced bs" "all_size h = free_size bs"
    by (auto simp: heap_inv_def)
  note r = malloc_round_bounds [OF n]
  have tl: "tail h \<noteq> 0" using shape_nodes(3) [OF s(1)] by simp
  show "real_heap_malloc h n = Some (0, h)" if "spec_malloc bs (malloc_round n) = None"
    using search_result(1) [OF s(1) _ that] r(1) tl by (simp add: real_heap_malloc_def)
  assume "spec_malloc bs (malloc_round n) = Some (a, bs')"
  then obtain pre sa post where b: "bs = pre @ Blk a sa True # post" "malloc_round n \<le> sa"
    "bs' = pre @ carve a sa (malloc_round n) @ post"
    "\<forall>b \<in> set pre. b_free b \<longrightarrow> b_size b < malloc_round n"
    by (metis spec_malloc_Some)
  from s(1) b(1) have sh: "heap_shape h (pre @ Blk a sa True # post)" by simp
  have "heap_lo h + free_size bs \<le> heap_hi h"
    using s(1) free_size_le by (auto simp: heap_shape_def)
  then have fs: "free_size bs < 2 ^ 64"
    using layout_bounds(7) [of h] s(1) by (auto simp: heap_shape_def)
  have "sz_sub (all_size h) (if sa - malloc_round n > MIN_SIZE then malloc_round n else sa) =
      free_size bs'"
    using s(3) b(1-3) fs by (auto simp: sz_sub_exact carve_def)
  with malloc_found [OF sh _ r(3) b(2) refl b(4)] r(1) b s(2) coalesced_carve
  show "\<exists>h'. real_heap_malloc h n = Some (a + 16, h') \<and> heap_inv h' bs' \<and>
        all_heap h' = all_heap h \<and> the_head h' = the_head h"
    unfolding heap_inv_def by fastforce
qed

section \<open>Freeing\<close>

lemma free_search_stop:
  assumes "fpath (hmem h) p (xs @ ys) t" "0 \<notin> set (p # xs)" "\<forall>x \<in> set xs. x < a"
    "a \<le> hd (ys @ [t])"
  shows "free_search h a p = Some (last (p # xs))"
  using assms
proof (induction xs arbitrary: p)
  case Nil
  then have "nd_next (hmem h p) = hd (ys @ [t])" by (simp add: fpath_hd)
  with Nil show ?case by (simp add: free_search.simps [of h a p] node_at_def)
next
  case (Cons x xs)
  then show ?case by (simp add: free_search.simps [of h a p] node_at_def)
qed


lemma join_free: "\<exists>s' post'. join (Blk a s True # post) = Blk a s' True # post'"
  by (cases post) auto

lemma free_size_join [simp]: "free_size (join bs) = free_size bs"
  by (induction bs rule: join.induct) auto

lemma spec_free_eq:
  assumes "coalesced (pre @ Blk a s False # post)" "\<forall>b \<in> set pre. b_addr b \<noteq> a"
  shows "spec_free (pre @ Blk a s False # post) a =
    (let R = join (Blk a s True # post) in
     if pre \<noteq> [] \<and> b_free (last pre)
     then butlast pre @ Blk (b_addr (last pre)) (b_size (last pre) + b_size (hd R)) True # tl R
     else pre @ R)"
  using assms
proof (induction pre)
  case (Cons b pre)
  have c: "coalesced (pre @ Blk a s False # post)"
    using Cons.prems(1) coalesced_append [of "[b]" "pre @ Blk a s False # post"] by simp
  obtain s' post' where R: "join (Blk a s True # post) = Blk a s' True # post'"
    using join_free by blast
  have IH: "spec_free (pre @ Blk a s False # post) a =
     (if pre \<noteq> [] \<and> b_free (last pre)
      then butlast pre @ Blk (b_addr (last pre)) (b_size (last pre) + s') True # post'
      else pre @ Blk a s' True # post')"
    using Cons.IH [OF c] Cons.prems(2) R by (simp add: Let_def)
  show ?case
  proof (cases pre)
    case Nil
    then show ?thesis using IH R Cons.prems by simp
  next
    case (Cons c cs)
    then have "\<not> (b_free b \<and> b_free c)" using Cons.prems by simp
    then show ?thesis using Cons IH R Cons.prems by (cases cs) auto
  qed
qed (simp add: Let_def)

lemma spec_free_coalesced:
  assumes "coalesced (pre @ Blk a s False # post)" "\<forall>b \<in> set pre. b_addr b \<noteq> a"
  shows "coalesced (spec_free (pre @ Blk a s False # post) a)"
proof -
  have c: "coalesced pre" "coalesced post" using assms(1) by (cases post; auto simp: coalesced_append)+
  have R: "coalesced (join (Blk a s True # post))"
    using c(2) by (induction post rule: coalesced.induct) auto
  obtain s' post' where e: "join (Blk a s True # post) = Blk a s' True # post'"
    using join_free by blast
  have "coalesced (butlast pre @ Blk x y True # post')" if "pre \<noteq> []" "b_free (last pre)" for x y
  proof -
    have "coalesced (butlast pre) \<and> (butlast pre \<noteq> [] \<longrightarrow> \<not> b_free (last (butlast pre)))"
      using c(1) that coalesced_append [of "butlast pre" "[last pre]"] by simp
    with R e that show ?thesis by (cases post') (auto simp: coalesced_append)
  qed
  then show ?thesis
    using c R unfolding spec_free_eq [OF assms] e by (auto simp: coalesced_append Let_def)
qed

lemma free_size_spec_free:
  assumes "coalesced (pre @ Blk a s False # post)" "\<forall>b \<in> set pre. b_addr b \<noteq> a"
  shows "free_size (spec_free (pre @ Blk a s False # post) a) = free_size (pre @ post) + s"
proof -
  obtain s' post' where e: "join (Blk a s True # post) = Blk a s' True # post'"
    using join_free by blast
  then have "s' + free_size post' = free_size (Blk a s True # post)"
    by (metis blk.sel free_size_join free_size_simps(3))
  moreover have "free_size pre = free_size (butlast pre) + b_size (last pre)"
    if "pre \<noteq> []" "b_free (last pre)"
    using that free_size_simps(2) [of "butlast pre" "[last pre]"] by simp
  ultimately show ?thesis
    unfolding spec_free_eq [OF assms] e by (auto simp: Let_def)
qed

text \<open>When the code finds a neighbour adjacent, it is the neighbouring free block of the arena.\<close>

lemma adjacent_next:
  assumes "tiles e post hi" "e = hd (frees post @ [t])" "e \<noteq> t"
  shows "\<exists>s' post'. post = Blk e s' True # post'"
proof (cases post)
  case (Cons c cs)
  have "b_addr b \<noteq> e" if "b \<in> set cs" for b
    using assms(1) Cons tiles_bounds [OF _ that] by fastforce
  then have "e \<notin> set (frees cs)" by (auto dest: frees_in)
  moreover have "e \<in> set (frees post)" using assms(2,3) by (cases "frees post") auto
  ultimately have "b_free c" "b_addr c = e" using Cons by (auto split: if_splits)
  with Cons show ?thesis by (cases c) auto
qed (use assms in auto)

lemma adjacent_prev:
  assumes "tiles lo pre a" "b \<in> set pre" "b_addr b + b_size b = a"
  shows "pre \<noteq> []" "last pre = b"
proof -
  from assms(2) obtain u v where uv: "pre = u @ b # v" by (metis split_list)
  with assms(1,3) have "tiles a v a" by (auto simp: tiles_append)
  then have "v = []" by (cases v) (auto dest: tiles_le)
  with uv show "pre \<noteq> []" "last pre = b" by auto
qed


text \<open>The three steps of \<open>insert_free_block\<close>, on the headers.\<close>

definition fuse :: "heap \<Rightarrow> addr \<Rightarrow> addr \<Rightarrow> heap" where
  "fuse h a b = (let h = put_size h a (sz_add (nd_size (hmem h a)) (nd_size (hmem h b)))
                 in put_next h a (nd_next (hmem h b)))"

lemma fuse_shape:
  assumes "heap_shape h (pre @ Blk a s True # Blk b s' True # post)"
  shows "heap_shape (fuse h a b) (pre @ Blk a (s + s') True # post)"
proof -
  have "a \<noteq> b" using shape_nodes(1) [OF assms] by auto
  moreover have "nd_size (hmem h a) = s" "nd_size (hmem h b) = s'"
    using shape_sizeD [OF assms, of "Blk a s True"] shape_sizeD [OF assms, of "Blk b s' True"] by auto
  moreover have "sz_add s s' = s + s'"
  proof -
    have "layout h" "tiles (heap_lo h) (pre @ Blk a s True # Blk b s' True # post) (heap_hi h)"
      using assms by (auto simp: heap_shape_def)
    then show ?thesis using layout_bounds(7) [of h]
      by (auto simp: tiles_append sz_add_exact dest!: tiles_le)
  qed
  ultimately have "fuse h a b = h\<lparr>hmem := (hmem h)(a := \<lparr>nd_next = nd_next (hmem h b), nd_size = s + s'\<rparr>)\<rparr>"
    by (simp add: fuse_def put_size_def put_next_def)
  then show ?thesis using shape_merge [OF assms] by simp
qed

lemma fuse_fields [simp]:
  "all_size (fuse h a b) = all_size h" "all_heap (fuse h a b) = all_heap h"
  "the_head (fuse h a b) = the_head h" "tail (fuse h a b) = tail h"
  "x \<noteq> a \<Longrightarrow> hmem (fuse h a b) x = hmem h x"
  by (simp_all add: fuse_def put_size_def put_next_def)

lemma fuse_next_shape:
  assumes h: "heap_shape h (pre @ Blk a s True # post)"
  defines "h' \<equiv> (if a + s = nd_next (hmem h a)
      then if nd_next (hmem h a) \<noteq> tail h then fuse h a (nd_next (hmem h a)) else put_next h a (tail h)
      else h)"
  shows "heap_shape h' (pre @ join (Blk a s True # post))"
proof -
  have q: "nd_next (hmem h a) = hd (frees post @ [tail h])" using shape_gap(7) [OF h] by simp
  have t: "tiles (a + s) post (heap_hi h)" "\<forall>b \<in> set post. b_addr b < tail h"
    using h by (auto simp: heap_shape_def tiles_append)
  show ?thesis
  proof (cases "a + s = nd_next (hmem h a) \<and> a + s \<noteq> tail h")
    case True
    with q have "a + s = hd (frees post @ [tail h])" "a + s \<noteq> tail h" by auto
    from adjacent_next [OF t(1) this] obtain s' post' where
      post: "post = Blk (a + s) s' True # post'" by blast
    have "h' = fuse h a (a + s)" using True by (auto simp: h'_def)
    then show ?thesis using fuse_shape [of h pre a s "a + s" s' post'] h post by simp
  next
    case False
    have "\<not> b_free c" if "post = c # cs" for c cs
    proof
      assume "b_free c"
      then have "nd_next (hmem h a) = b_addr c" using q that by simp
      moreover have "b_addr c = a + s" "b_addr c < tail h" using t that by auto
      ultimately show False using False by simp
    qed
    then have "join (Blk a s True # post) = Blk a s True # post" by (cases post) auto
    moreover have "h' = h"
      using False by (auto simp: h'_def put_next_def intro!: heap.equality)
    ultimately show ?thesis using h by simp
  qed
qed

lemma prev_adjacent_iff:
  assumes h: "heap_shape h (pre @ Blk a s f # post)"
  defines "p \<equiv> last (the_head h # frees pre)"
  shows "p + nd_size (hmem h p) = a \<longleftrightarrow> pre \<noteq> [] \<and> b_free (last pre)"
    and "pre \<noteq> [] \<Longrightarrow> b_free (last pre) \<Longrightarrow> p = b_addr (last pre)"
proof -
  have t: "tiles (heap_lo h) pre a" using h by (auto simp: heap_shape_def tiles_append)
  have size: "nd_size (hmem h (b_addr b)) = b_size b" if "b \<in> set pre" for b
    using shape_sizeD [OF h, of b] that by simp
  show p: "p = b_addr (last pre)" if "pre \<noteq> []" "b_free (last pre)"
  proof -
    have "frees pre = frees (butlast pre) @ [b_addr (last pre)]"
      using that frees_simps(2) [of "butlast pre" "[last pre]"] by simp
    then show ?thesis by (simp add: p_def)
  qed
  show "p + nd_size (hmem h p) = a \<longleftrightarrow> pre \<noteq> [] \<and> b_free (last pre)"
  proof
    assume e: "p + nd_size (hmem h p) = a"
    have "frees pre \<noteq> []"
    proof
      assume "frees pre = []"
      then have "p = the_head h" by (simp add: p_def)
      with e h shape_nodes(1) [OF h] show False by (auto simp: heap_shape_def)
    qed
    then have "p \<in> set (frees pre)" by (simp add: p_def)
    then obtain b where b: "b \<in> set pre" "b_free b" "b_addr b = p" using frees_in by blast
    with e size have "b_addr b + b_size b = a" by auto
    from adjacent_prev [OF t b(1) this] b(2) show "pre \<noteq> [] \<and> b_free (last pre)" by simp
  next
    assume l: "pre \<noteq> [] \<and> b_free (last pre)"
    then have "tiles (heap_lo h) (butlast pre @ [last pre]) a" using t by simp
    then have "b_addr (last pre) + b_size (last pre) = a" unfolding tiles_append by auto
    with l p size [of "last pre"] show "p + nd_size (hmem h p) = a" by simp
  qed
qed

lemma insert_free_block_shape:
  assumes h: "heap_shape h (pre @ Blk a s False # post)" and c: "coalesced (pre @ Blk a s False # post)"
  shows "\<exists>h'. insert_free_block h a = Some h' \<and> heap_shape h' (spec_free (pre @ Blk a s False # post) a) \<and>
    all_size h' = all_size h \<and> all_heap h' = all_heap h \<and> the_head h' = the_head h"
proof -
  define p where "p = last (the_head h # frees pre)"
  define q where "q = hd (frees post @ [tail h])"
  note g = shape_gap [OF h, folded p_def q_def]
  have t: "tiles (heap_lo h) (pre @ Blk a s False # post) (heap_hi h)" "a < tail h"
    using h by (auto simp: heap_shape_def)
  note ts = tiles_split [OF t(1), simplified]
  have ne: "\<forall>b \<in> set pre. b_addr b \<noteq> a" using tiles_bounds [OF ts(1)] by fastforce
  have q: "nd_next (hmem h p) = q" using fpath_next [OF g(6)] by (simp add: p_def)
  have "free_search h a (the_head h) = Some p" unfolding p_def
  proof (rule free_search_stop)
    show "fpath (hmem h) (the_head h) (frees pre @ frees post) (tail h)"
      using h by (auto simp: heap_shape_def)
    show "0 \<notin> set (the_head h # frees pre)" using g(4) by simp
    show "\<forall>x \<in> set (frees pre). x < a" using tiles_frees_before [OF ts(1)] by blast
    show "a \<le> hd (frees post @ [tail h])"
      using tiles_frees_before [OF ts(2)] t(2) by (cases "frees post") fastforce+
  qed
  moreover define h1 where "h1 = put_next (put_next h a q) p a"
  moreover define h2 where "h2 = (if a + s = nd_next (hmem h1 a)
      then if nd_next (hmem h1 a) \<noteq> tail h1 then fuse h1 a (nd_next (hmem h1 a))
           else put_next h1 a (tail h1)
      else h1)"
  moreover have size1: "nd_size (hmem h1 a) = s"
    using shape_sizeD [OF h, of "Blk a s False"] g(5) by (simp add: h1_def put_next_def)
  ultimately have run: "insert_free_block h a =
      Some (if p + nd_size (hmem h2 p) = a then fuse h2 p a else h2)"
    using q by (simp add: insert_free_block_def Let_def fuse_def)
  have "heap_shape h1 (pre @ Blk a s True # post)"
    using shape_relink [OF h, where f' = True and m' = "hmem h1", folded p_def q_def] g(5)
    by (simp add: h1_def put_next_def)
  then have s2: "heap_shape h2 (pre @ join (Blk a s True # post))"
    unfolding h2_def by (rule fuse_next_shape)
  obtain s' post' where R: "join (Blk a s True # post) = Blk a s' True # post'"
    using join_free by blast
  have f2: "the_head h2 = the_head h" "all_size h2 = all_size h" "all_heap h2 = all_heap h"
    by (auto simp: h2_def h1_def put_next_def)
  note pa = prev_adjacent_iff [OF s2 [unfolded R], unfolded f2, folded p_def]
  show ?thesis
  proof (cases "pre \<noteq> [] \<and> b_free (last pre)")
    case True
    then have "pre = butlast pre @ [Blk p (b_size (last pre)) True]"
      using pa(2) by (metis append_butlast_last_id blk.exhaust_sel)
    then have "heap_shape h2 (butlast pre @ Blk p (b_size (last pre)) True # Blk a s' True # post')"
      using s2 R by (metis append.assoc append_Cons append_Nil)
    from fuse_shape [OF this] show ?thesis
      using True pa run f2 spec_free_eq [OF c ne] R by (auto simp: Let_def)
  next
    case False
    then show ?thesis using pa(1) run f2 s2 spec_free_eq [OF c ne] R by (auto simp: Let_def)
  qed
qed

lemma free_refines:
  assumes h: "heap_inv h bs" and b: "Blk a s False \<in> set bs"
  shows "\<exists>h'. real_heap_free h (a + 16) = Some h' \<and> heap_inv h' (spec_free bs a) \<and>
    all_heap h' = all_heap h \<and> the_head h' = the_head h"
proof -
  from b obtain pre post where bs: "bs = pre @ Blk a s False # post" by (metis split_list)
  from h bs have sh: "heap_shape h (pre @ Blk a s False # post)"
    "coalesced (pre @ Blk a s False # post)" "all_size h = free_size bs" by (auto simp: heap_inv_def)
  have t: "tiles (heap_lo h) (pre @ Blk a s False # post) (heap_hi h)" and l: "layout h"
    using sh(1) by (auto simp: heap_shape_def)
  note lb = layout_bounds [OF l] and ts = tiles_split [OF t, simplified]
  have ne: "\<forall>b \<in> set pre. b_addr b \<noteq> a" using tiles_bounds [OF ts(1)] by fastforce
  have tot: "free_size (pre @ post) + s < 2 ^ 64"
    using free_size_le [OF ts(1)] free_size_le [OF ts(2)] lb(7) by simp
  have "a + s \<le> heap_hi h" using tiles_bounds [OF t, of "Blk a s False"] by simp
  then have "sz_sub (a + 16) 16 = a" using ts(3) lb(7) by (simp add: sz_sub_exact)
  moreover have "nd_size (hmem h a) = s" using shape_sizeD [OF sh(1), of "Blk a s False"] by simp
  moreover have "sz_add (all_size h) s = free_size (spec_free bs a)"
    using tot sh(3) free_size_spec_free [OF sh(2) ne] bs by (simp add: sz_add_exact)
  ultimately show ?thesis
    using insert_free_block_shape [of "h\<lparr>all_size := free_size (spec_free bs a)\<rparr>" pre a s post]
      sh bs spec_free_coalesced [OF sh(2) ne]
    by (auto simp: real_heap_free_def heap_struct_size_def heap_inv_def)
qed

end
