(* ===== verification/Allocator.thy ===== *)
theory Allocator
  imports Heap_Alloc
begin

text \<open>
  The heap as its clients see it. \<open>heap_init\<close> establishes the invariant of
  \<^verbatim>\<open>Heap_Alloc\<close>; the locale \<open>allocator\<close> states what \<^verbatim>\<open>heap_malloc\<close> and \<^verbatim>\<open>heap_free\<close>
  promise about the set of live payload regions, and is interpreted on them. The last section
  has the properties of the component.
\<close>

section \<open>Initialisation\<close>

definition heap_fresh :: "heap \<Rightarrow> bool" where
  "heap_fresh h \<longleftrightarrow> layout h \<and> tail h = 0 \<and> all_size h = CONFIG_HEAP"

lemma heap_init_fields [simp]:
  "all_heap (heap_init h) = all_heap h" "the_head (heap_init h) = the_head h"
  by (simp_all add: heap_init_def Let_def put_next_def put_size_def case_prod_beta)

lemma layout_cong:
  assumes "all_heap h' = all_heap h" "the_head h' = the_head h"
  shows "layout h' = layout h" "heap_lo h' = heap_lo h" "heap_hi h' = heap_hi h"
    "heap_tail h' = heap_tail h"
  using assms by (simp_all add: layout_def heap_lo_def heap_hi_def heap_tail_def)

lemma heap_init_eq:
  assumes "layout h" "all_size h = CONFIG_HEAP"
  shows "heap_init h = h\<lparr>hmem := (hmem h)
      (the_head h := \<lparr>nd_next = heap_lo h, nd_size = 0\<rparr>,
       heap_tail h := \<lparr>nd_next = 0, nd_size = 0\<rparr>,
       heap_lo h := \<lparr>nd_next = heap_tail h, nd_size = heap_hi h - heap_lo h\<rparr>),
      tail := heap_tail h, all_size := heap_hi h - heap_lo h\<rparr>"
proof -
  let ?init = "\<lambda>s e n. (put_size (put_next (put_next (put_size
      ((put_size (put_next h (the_head h) s) (the_head h) 0)\<lparr>tail := e\<rparr>) e 0) e 0) s e) s n)\<lparr>all_size := n\<rparr>"
  have "heap_init h = ?init (heap_lo h) (heap_tail h) (heap_hi h - heap_lo h)"
  proof (cases "all_heap h mod 8 = 0")
    case True
    then obtain k where k: "all_heap h = 8 * k" by auto
    have "heap_lo h = all_heap h" by (simp add: heap_lo_def k)
    moreover have "(all_heap h + CONFIG_HEAP - 16) mod 8 = 0"
      by (simp add: k CONFIG_HEAP_def mod_eq_0_iff_dvd)
    ultimately show ?thesis using True assms
      by (simp add: heap_init_def Let_def heap_hi_def heap_tail_def heap_struct_size_def CONFIG_HEAP_def)
  next
    case False
    let ?b = "all_heap h"
    have b: "?b \<le> heap_lo h" "heap_lo h - ?b < 8" unfolding heap_lo_def by linarith+
    then have sub: "sz_sub (all_size h) (heap_lo h - ?b) = CONFIG_HEAP - (heap_lo h - ?b)"
      using assms(2) by (simp add: sz_sub_exact CONFIG_HEAP_def)
    then have e: "heap_lo h + sz_sub (all_size h) (heap_lo h - ?b) mod 2 ^ 32 - heap_struct_size
        = ?b + CONFIG_HEAP - 16"
      using b by (simp add: CONFIG_HEAP_def heap_struct_size_def)
    have "(?b + CONFIG_HEAP - 16) mod 8 = ?b mod 8"
    proof -
      have "?b + CONFIG_HEAP - 16 = ?b + 8 * 131070" by (simp add: CONFIG_HEAP_def)
      then show ?thesis by (metis mod_mult_self2)
    qed
    then show ?thesis using False e unfolding heap_init_def Let_def heap_lo_def [symmetric]
      by (simp add: heap_hi_def heap_tail_def)
  qed
  then show ?thesis
    by (auto simp: put_next_def put_size_def fun_eq_iff intro!: heap.equality)
qed

lemma heap_init_inv:
  assumes "heap_fresh h"
  shows "heap_inv (heap_init h) [Blk (heap_lo h) (heap_hi h - heap_lo h) True]"
proof -
  from assms have l: "layout h" "all_size h = CONFIG_HEAP" by (auto simp: heap_fresh_def)
  note lb = layout_bounds [OF l(1)]
  have "heap_hi h mod 8 = 0"
    by (auto simp: heap_hi_def CONFIG_HEAP_def mod_add_eq [symmetric])
  then have "(heap_hi h - heap_lo h) mod 8 = 0"
    using lb(1,3) by (simp add: mod_eq_0_iff_dvd)
  moreover have "hmem (heap_init h) (heap_lo h) = \<lparr>nd_next = heap_tail h, nd_size = heap_hi h - heap_lo h\<rparr>"
    "hmem (heap_init h) (heap_tail h) = \<lparr>nd_next = 0, nd_size = 0\<rparr>"
    "hmem (heap_init h) (the_head h) = \<lparr>nd_next = heap_lo h, nd_size = 0\<rparr>"
    "tail (heap_init h) = heap_tail h" "all_size (heap_init h) = heap_hi h - heap_lo h"
    using lb(3-5,9,10) unfolding heap_init_eq [OF l] by auto
  ultimately show ?thesis
    using lb(3,4) l(1) layout_cong [of "heap_init h" h]
    by (simp add: heap_inv_def heap_shape_def)
qed


section \<open>Statistics\<close>

definition stat_add :: "heap_stats \<Rightarrow> nat \<Rightarrow> heap_stats" where
  "stat_add st s = st\<lparr>free_size_iter := free_size_iter st + s,
     max_free_block := max (max_free_block st) s, free_blocks := free_blocks st + 1\<rparr>"

lemma stats_loop_path:
  assumes "fpath (hmem h) p xs t" "0 \<notin> set (t # xs)" "hmem h t = \<lparr>nd_next = 0, nd_size = 0\<rparr>"
    "\<forall>x \<in> set xs. nd_size (hmem h x) = g x" "free_size_iter st + sum_list (map g xs) < 2 ^ 64"
  shows "stats_loop h st (nd_next (hmem h p)) = Some (stat_add (foldl stat_add st (map g xs)) 0)"
  using assms
proof (induction xs arbitrary: p st)
  case Nil
  then have t: "nd_next (hmem h p) = t" "t \<noteq> 0" by auto
  then have "stats_loop h st (nd_next (hmem h p)) = stats_loop h (stat_add st 0) 0"
    using Nil(3,5) by (subst stats_loop.simps) (simp add: stat_add_def sz_add_exact)
  then show ?case by (simp add: stats_loop.simps [of _ _ 0])
next
  case (Cons x xs)
  then have x: "nd_next (hmem h p) = x" "x \<noteq> 0" "nd_size (hmem h x) = g x"
    "free_size_iter st + g x < 2 ^ 64" by auto
  then have "stats_loop h st (nd_next (hmem h p)) = stats_loop h (stat_add st (g x)) (nd_next (hmem h x))"
    by (subst stats_loop.simps) (auto simp: stat_add_def sz_add_exact Let_def max_def intro!: arg_cong [where f = "\<lambda>s. stats_loop h s _"])
  also have "\<dots> = Some (stat_add (foldl stat_add (stat_add st (g x)) (map g xs)) 0)"
    using Cons.prems by (intro Cons.IH) (auto simp: stat_add_def)
  finally show ?case by simp
qed

lemma foldl_stat_add:
  "foldl stat_add st ss = st\<lparr>free_size_iter := free_size_iter st + sum_list ss,
     max_free_block := foldr max ss (max_free_block st), free_blocks := free_blocks st + length ss\<rparr>"
proof (induction ss arbitrary: st)
  case Nil
  show ?case by simp
next
  case (Cons s ss)
  have "foldr max ss (max a s) = max s (foldr max ss a)" for a
    by (induction ss) (auto simp: max.left_commute max.commute)
  then show ?case unfolding foldl_Cons Cons by (simp add: stat_add_def)
qed

lemma stats_exact:
  assumes "heap_inv h bs"
  shows "heap_get_stats h = Some
    \<lparr>remain_size = free_size bs, free_size_iter = free_size bs,
     max_free_block = foldr max (map b_size (filter b_free bs)) 0,
     free_blocks = length (filter b_free bs) + 1\<rparr>"
proof -
  from assms have s: "heap_shape h bs" "all_size h = free_size bs" by (auto simp: heap_inv_def)
  then have t: "tiles (heap_lo h) bs (heap_hi h)" "layout h" by (auto simp: heap_shape_def)
  let ?g = "\<lambda>x. nd_size (hmem h x)"
  have g: "map ?g (frees bs) = map b_size (filter b_free bs)"
    using shape_sizeD [OF s(1)] by (simp add: frees_def)
  have "free_size bs < 2 ^ 64" using free_size_le [OF t(1)] layout_bounds(7) [OF t(2)] by simp
  moreover have "0 \<notin> set (tail h # frees bs)"
    using shape_nodes(3) [OF s(1)] frees_subset [of bs] by auto
  ultimately show ?thesis
    using s unfolding heap_get_stats_def heap_shape_def
    by (subst stats_loop_path [where xs = "frees bs" and t = "tail h" and g = ?g])
      (auto simp: g foldl_stat_add stat_add_def free_size_def)
qed


section \<open>Live regions\<close>

text \<open>The payload regions (address and length) that a heap has handed out.\<close>

definition used_regions :: "blk list \<Rightarrow> (addr \<times> nat) set" where
  "used_regions bs = {(b_addr b + 16, b_size b - 16) | b. b \<in> set bs \<and> \<not> b_free b}"

definition heap_live :: "heap \<Rightarrow> (addr \<times> nat) set \<Rightarrow> bool" where
  "heap_live h L \<longleftrightarrow> heap_fresh h \<and> L = {} \<or> (\<exists>bs. heap_inv h bs \<and> L = used_regions bs)"

lemma used_regions_simps [simp]:
  "used_regions [] = {}"
  "used_regions (bs @ cs) = used_regions bs \<union> used_regions cs"
  "used_regions (b # bs) =
     (if b_free b then used_regions bs else insert (b_addr b + 16, b_size b - 16) (used_regions bs))"
  by (auto simp: used_regions_def)

lemma used_regions_addr: "p \<in> fst ` used_regions bs \<Longrightarrow> \<exists>b \<in> set bs. p = b_addr b + 16"
  by (auto simp: used_regions_def)

lemma used_regions_apart:
  assumes "distinct (map b_addr (pre @ b # post))"
  shows "b_addr b + 16 \<notin> fst ` used_regions (pre @ post)"
  using assms used_regions_addr [of "b_addr b + 16" "pre @ post"] by auto

lemma spec_malloc_used:
  assumes "spec_malloc bs sz = Some (a, bs')" "tiles lo bs hi" "16 \<le> sz"
  shows "\<exists>m. sz \<le> m + 16 \<and> used_regions bs' = insert (a + 16, m) (used_regions bs) \<and>
    a + 16 \<notin> fst ` used_regions bs"
proof -
  from spec_malloc_Some [OF assms(1)] obtain pre s post where
    bs: "bs = pre @ Blk a s True # post" "sz \<le> s" "bs' = pre @ carve a s sz @ post" by blast
  define m where "m = (if s - sz > MIN_SIZE then sz else s) - 16"
  have "used_regions (carve a s sz) = {(a + 16, m)}" by (simp add: carve_def m_def)
  moreover have "a + 16 \<notin> fst ` used_regions (pre @ post)"
    using used_regions_apart [of pre "Blk a s True" post] tiles_distinct [OF assms(2)] bs(1) by simp
  ultimately show ?thesis using bs assms(3) by (intro exI [of _ m]) (auto simp: m_def)
qed

lemma used_join [simp]: "used_regions (join bs) = used_regions bs"
  by (cases bs rule: join.cases) auto

lemma used_spec_free_other: "a \<notin> b_addr ` set bs \<Longrightarrow> used_regions (spec_free bs a) = used_regions bs"
  by (induction bs) auto

lemma used_spec_free_at:
  "a \<notin> b_addr ` set pre \<Longrightarrow>
   used_regions (spec_free (pre @ Blk a s False # post) a) = used_regions (pre @ post)"
  by (induction pre) auto

lemma spec_free_used:
  assumes "tiles lo bs hi" "Blk a s False \<in> set bs"
  shows "used_regions (spec_free bs a) = used_regions bs - {(a + 16, s - 16)}"
proof -
  from assms(2) obtain pre post where bs: "bs = pre @ Blk a s False # post" by (metis split_list)
  then have d: "distinct (map b_addr (pre @ Blk a s False # post))" using tiles_distinct [OF assms(1)] by simp
  then have "used_regions (spec_free bs a) = used_regions (pre @ post)"
    using bs used_spec_free_at [of a pre s post] by auto
  moreover have "(a + 16, s - 16) \<notin> used_regions (pre @ post)"
    using used_regions_apart [OF d] by force
  ultimately show ?thesis using bs by auto
qed

lemma tiles_disjoint:
  assumes "tiles lo bs hi" "b \<in> set bs" "c \<in> set bs" "b_addr b \<noteq> b_addr c"
  shows "b_addr b + b_size b \<le> b_addr c \<or> b_addr c + b_size c \<le> b_addr b"
  using assms
proof (induction bs arbitrary: lo)
  case (Cons d bs)
  have "\<forall>c \<in> set bs. b_addr d + b_size d \<le> b_addr c"
    using tiles_bounds [of "b_addr d + b_size d" bs hi] Cons.prems(1) by simp
  then show ?case
  proof (cases "b \<in> set bs \<and> c \<in> set bs")
    case True
    then show ?thesis using Cons.IH [of "lo + b_size d"] Cons.prems by simp
  next
    case False
    then have "b = d \<and> c \<in> set bs \<or> b \<in> set bs \<and> c = d" using Cons.prems(2-4) by auto
    with \<open>\<forall>c \<in> set bs. b_addr d + b_size d \<le> b_addr c\<close> show ?thesis by auto
  qed
qed simp

lemma used_region_block:
  assumes "(p, m) \<in> used_regions bs" "tiles lo bs hi"
  shows "Blk (p - 16) (m + 16) False \<in> set bs" "16 \<le> p"
proof -
  from assms(1) obtain b where b: "b \<in> set bs" "\<not> b_free b" "p = b_addr b + 16" "m = b_size b - 16"
    by (auto simp: used_regions_def)
  have "16 \<le> b_size b" using tiles_bounds [OF assms(2) b(1)] by simp
  then have "b = Blk (p - 16) (m + 16) False" using b(2-4) by (intro blk.expand) simp
  then show "Blk (p - 16) (m + 16) False \<in> set bs" "16 \<le> p" using b(1,3) by simp_all
qed

lemma heap_inv_tiles: "heap_inv h bs \<Longrightarrow> tiles (heap_lo h) bs (heap_hi h)"
  by (simp add: heap_inv_def heap_shape_def)


section \<open>The interface\<close>

text \<open>
  Two views of the heap: \<open>allocator\<close> speaks of the live regions, \<open>address_space\<close> only of the
  addresses handed out, which is all that clients which keep typed objects at those addresses need.
\<close>

primrec release_list :: "('s \<Rightarrow> addr \<Rightarrow> 's option) \<Rightarrow> 's \<Rightarrow> addr list \<Rightarrow> 's option" where
  "release_list release s [] = Some s"
| "release_list release s (p # ps) = (case release s p of None \<Rightarrow> None | Some s' \<Rightarrow> release_list release s' ps)"

lemma release_list_append:
  "release_list f s (xs @ ys) = Option.bind (release_list f s xs) (\<lambda>s. release_list f s ys)"
  by (induction xs arbitrary: s) (auto split: option.splits)

locale address_space =
  fixes owns :: "'s \<Rightarrow> addr set \<Rightarrow> bool"
    and alloc :: "'s \<Rightarrow> nat \<Rightarrow> (addr \<times> 's) option"
    and release :: "'s \<Rightarrow> addr \<Rightarrow> 's option"
  assumes alloc_owns: "owns s A \<Longrightarrow> n < 2 ^ 63 \<Longrightarrow>
      \<exists>p s'. alloc s n = Some (p, s') \<and>
        (p = 0 \<and> owns s' A \<or> p \<noteq> 0 \<and> p \<notin> A \<and> owns s' (insert p A))"
    and release_owns: "owns s A \<Longrightarrow> p \<in> A \<Longrightarrow> \<exists>s'. release s p = Some s' \<and> owns s' (A - {p})"
    and release_null: "release s 0 = Some s"
    and owns_nonnull: "owns s A \<Longrightarrow> 0 \<notin> A"
begin

lemma alloc_cases:
  assumes "owns s A" "n < 2 ^ 63"
  obtains (null) s' where "alloc s n = Some (0, s')" "owns s' A"
  | (fresh) p s' where "alloc s n = Some (p, s')" "p \<noteq> 0" "p \<notin> A" "owns s' (insert p A)"
  using alloc_owns [OF assms] by blast

lemma release_list_owns:
  "owns s A \<Longrightarrow> distinct ps \<Longrightarrow> set ps \<subseteq> A \<Longrightarrow>
   \<exists>s'. release_list release s ps = Some s' \<and> owns s' (A - set ps)"
proof (induction ps arbitrary: s A)
  case (Cons p ps)
  then obtain s1 where s1: "release s p = Some s1" "owns s1 (A - {p})" using release_owns by force
  have "\<exists>s'. release_list release s1 ps = Some s' \<and> owns s' (A - {p} - set ps)"
    using Cons.prems s1(2) by (intro Cons.IH) auto
  moreover have "A - {p} - set ps = A - set (p # ps)" by auto
  ultimately show ?case using s1(1) by simp
qed simp

lemma alloc_release:
  assumes "owns s A" "n < 2 ^ 63" "alloc s n = Some (p, s')"
  shows "\<exists>s''. release s' p = Some s'' \<and> owns s'' A"
proof (cases "p = 0")
  case True
  then show ?thesis using alloc_owns [OF assms(1,2)] assms(3) release_null [of s'] owns_nonnull by auto
next
  case False
  then have "p \<notin> A" "owns s' (insert p A)" using alloc_owns [OF assms(1,2)] assms(3) by auto
  with release_owns [of s' "insert p A" p] show ?thesis by simp
qed

end

locale allocator =
  fixes live :: "'s \<Rightarrow> (addr \<times> nat) set \<Rightarrow> bool"
    and alloc :: "'s \<Rightarrow> nat \<Rightarrow> (addr \<times> 's) option"
    and release :: "'s \<Rightarrow> addr \<Rightarrow> 's option"
  assumes alloc_live: "live s L \<Longrightarrow> n < 2 ^ 63 \<Longrightarrow>
      \<exists>p s'. alloc s n = Some (p, s') \<and>
        (p = 0 \<and> live s' L \<or>
         p \<noteq> 0 \<and> p \<notin> fst ` L \<and> (\<exists>m \<ge> n. live s' (insert (p, m) L)))"
    and release_live: "live s L \<Longrightarrow> (p, m) \<in> L \<Longrightarrow> \<exists>s'. release s p = Some s' \<and> live s' (L - {(p, m)})"
    and release_zero: "release s 0 = Some s"
    and live_aligned: "live s L \<Longrightarrow> (p, m) \<in> L \<Longrightarrow> p \<noteq> 0 \<and> p mod 8 = 0"
    and live_disjoint: "live s L \<Longrightarrow> (p, m) \<in> L \<Longrightarrow> (q, k) \<in> L \<Longrightarrow> (p, m) \<noteq> (q, k) \<Longrightarrow>
      p \<noteq> q \<and> (p + m \<le> q \<or> q + k \<le> p)"

sublocale allocator \<subseteq> address_space "\<lambda>s A. \<exists>L. live s L \<and> A = fst ` L" alloc release
proof
  fix s A n
  assume "\<exists>L. live s L \<and> A = fst ` L" "n < (2::nat) ^ 63"
  then obtain L where L: "live s L" "A = fst ` L" "n < 2 ^ 63" by blast
  from alloc_live [OF L(1,3)] obtain p s' where p: "alloc s n = Some (p, s')"
    "p = 0 \<and> live s' L \<or> p \<noteq> 0 \<and> p \<notin> fst ` L \<and> (\<exists>m \<ge> n. live s' (insert (p, m) L))" by blast
  have "\<exists>L. live s' L \<and> insert p A = fst ` L" if "live s' (insert (p, m) L)" for m
    using that L(2) by (intro exI [of _ "insert (p, m) L"]) simp
  with p L(1,2) show "\<exists>p s'. alloc s n = Some (p, s') \<and>
      (p = 0 \<and> (\<exists>L. live s' L \<and> A = fst ` L) \<or>
       p \<noteq> 0 \<and> p \<notin> A \<and> (\<exists>L. live s' L \<and> insert p A = fst ` L))" by blast
next
  fix s A p
  assume "\<exists>L. live s L \<and> A = fst ` L" "p \<in> A"
  then obtain L m where L: "live s L" "A = fst ` L" "(p, m) \<in> L" by force
  have "\<forall>q k. (q, k) \<in> L \<and> q = p \<longrightarrow> k = m"
  proof (intro allI impI)
    fix q k assume "(q, k) \<in> L \<and> q = p"
    then show "k = m" using live_disjoint [OF L(1,3), of q k] by blast
  qed
  then have "x \<in> fst ` L \<and> x \<noteq> p \<longleftrightarrow> x \<in> fst ` (L - {(p, m)})" for x by (force simp: image_iff)
  then have "A - {p} = fst ` (L - {(p, m)})" unfolding L(2) by blast
  with release_live [OF L(1,3)] show "\<exists>s'. release s p = Some s' \<and> (\<exists>L. live s' L \<and> A - {p} = fst ` L)"
    by blast
next
  fix s A
  show "release s 0 = Some s" by (rule release_zero)
  show "0 \<notin> A" if "\<exists>L. live s L \<and> A = fst ` L" using that live_aligned by force
qed


section \<open>The heap provides the interface\<close>

lemma malloc_fresh:
  assumes "heap_fresh h"
  shows "real_heap_malloc h n = real_heap_malloc (heap_init h) n"
proof -
  have "tail (heap_init h) \<noteq> 0"
    using shape_nodes(3) heap_init_inv [OF assms] by (fastforce simp: heap_inv_def)
  then show ?thesis using assms by (simp add: real_heap_malloc_def heap_fresh_def)
qed

lemma heap_live_inv:
  assumes "heap_live h L"
  obtains bs h0 where "heap_inv h0 bs" "L = used_regions bs" "all_heap h0 = all_heap h"
    "\<forall>n. real_heap_malloc h n = real_heap_malloc h0 n" "L \<noteq> {} \<Longrightarrow> h0 = h"
proof (cases "heap_fresh h \<and> L = {}")
  case True
  then show ?thesis
    using that [of "heap_init h" "[Blk (heap_lo h) (heap_hi h - heap_lo h) True]"]
      heap_init_inv [of h] malloc_fresh [of h] by simp
next
  case False
  with assms show ?thesis using that [of h] by (auto simp: heap_live_def)
qed

lemma heap_inv_live: "heap_inv h bs \<Longrightarrow> heap_live h (used_regions bs)"
  by (auto simp: heap_live_def)

lemma malloc_live:
  assumes "heap_live h L" "n < 2 ^ 63"
  shows "\<exists>p h'. heap_malloc h n = Some (p, h') \<and>
    (p = 0 \<and> heap_live h' L \<or>
     p \<noteq> 0 \<and> p \<notin> fst ` L \<and> (\<exists>m \<ge> n. heap_live h' (insert (p, m) L)))"
proof -
  from assms(1) obtain bs h0 where h0: "heap_inv h0 bs" "L = used_regions bs"
    "\<forall>n. real_heap_malloc h n = real_heap_malloc h0 n" by (rule heap_live_inv) blast
  have n: "n + 24 \<le> 2 ^ 64" using assms(2) by simp
  note r = malloc_round_bounds [OF n]
  show ?thesis
  proof (cases "spec_malloc bs (malloc_round n)")
    case None
    then have "heap_malloc h n = Some (0, h0)" "heap_live h0 L"
      using malloc_refines(1) [OF h0(1) n] h0(2,3) heap_inv_live [OF h0(1)]
      by (simp_all add: heap_malloc_def)
    then show ?thesis by blast
  next
    case (Some x)
    obtain a bs' where x: "x = (a, bs')" by fastforce
    from malloc_refines(2) [OF h0(1) n Some [unfolded x]] obtain h' where
      h': "heap_malloc h n = Some (a + 16, h')" "heap_inv h' bs'"
      using h0(3) by (auto simp: heap_malloc_def)
    from spec_malloc_used [OF Some [unfolded x] heap_inv_tiles [OF h0(1)]] r(1) obtain m where
      m: "malloc_round n \<le> m + 16" "used_regions bs' = insert (a + 16, m) L" "a + 16 \<notin> fst ` L"
      using h0(2) by auto
    then have "n \<le> m" using r(1) by simp
    moreover have "heap_live h' (insert (a + 16, m) L)" using heap_inv_live [OF h'(2)] m(2) by simp
    ultimately show ?thesis using h'(1) m(3) by (intro exI [of _ "a + 16"] exI [of _ h']) auto
  qed
qed

lemma free_live:
  assumes "heap_live h L" "(p, m) \<in> L"
  shows "\<exists>h'. heap_free h p = Some h' \<and> heap_live h' (L - {(p, m)})"
proof -
  from assms obtain bs where bs: "heap_inv h bs" "L = used_regions bs" by (auto simp: heap_live_def)
  note t = heap_inv_tiles [OF bs(1)]
  note b = used_region_block [OF assms(2) [unfolded bs(2)] t]
  from free_refines [OF bs(1) b(1)] b(2) obtain h' where
    h': "heap_free h p = Some h'" "heap_inv h' (spec_free bs (p - 16))" by (auto simp: heap_free_def)
  have "used_regions (spec_free bs (p - 16)) = L - {(p, m)}"
    using spec_free_used [OF t b(1)] bs(2) b(2) by simp
  then show ?thesis using h' heap_inv_live [OF h'(2)] by auto
qed

interpretation heap: allocator heap_live heap_malloc heap_free
proof
  show "heap_free s 0 = Some s" for s by (simp add: heap_free_def real_heap_free_def)
next
  fix s L p m
  assume "heap_live s L" "(p, m) \<in> L"
  then obtain bs where bs: "heap_inv s bs" "L = used_regions bs" by (auto simp: heap_live_def)
  note t = heap_inv_tiles [OF bs(1)]
  note b = used_region_block [OF \<open>(p, m) \<in> L\<close> [unfolded bs(2)] t]
  have "layout s" using bs(1) by (simp add: heap_inv_def heap_shape_def)
  then have "(p - 16) mod 8 = 0" using tiles_aligned [OF t _ b(1)] layout_bounds(1) by simp
  with b(2) show "p \<noteq> 0 \<and> p mod 8 = 0" by presburger
next
  fix s L p m q k
  assume a: "heap_live s L" "(p, m) \<in> L" "(q, k) \<in> L" "(p, m) \<noteq> (q, k)"
  then obtain bs where bs: "heap_inv s bs" "L = used_regions bs" by (auto simp: heap_live_def)
  note t = heap_inv_tiles [OF bs(1)]
  note b = used_region_block [OF a(2) [unfolded bs(2)] t] used_region_block [OF a(3) [unfolded bs(2)] t]
  have inj: "inj_on b_addr (set bs)" using tiles_distinct [OF t] by (simp add: distinct_map)
  have "p - 16 \<noteq> q - 16" using inj_onD [OF inj _ b(1,3)] a(4) b(2,4) by auto
  then show "p \<noteq> q \<and> (p + m \<le> q \<or> q + k \<le> p)"
    using tiles_disjoint [OF t b(1,3)] b(2,4) by auto
qed (use malloc_live free_live in blast)+

text \<open>The view of the clients: the set of addresses that are allocated.\<close>

definition heap_owns :: "heap \<Rightarrow> addr set \<Rightarrow> bool" where
  "heap_owns h A \<longleftrightarrow> (\<exists>L. heap_live h L \<and> A = fst ` L)"

interpretation hp: address_space heap_owns heap_malloc heap_free
  unfolding heap_owns_def [abs_def] by (rule heap.address_space_axioms)

lemma heap_owns_fresh: "heap_fresh h \<Longrightarrow> heap_owns h {}"
  by (auto simp: heap_owns_def heap_live_def)


lemma live_in_arena:
  assumes "heap_live h L" "(p, m) \<in> L"
  shows "all_heap h \<le> p \<and> p + m \<le> all_heap h + CONFIG_HEAP"
proof -
  from assms obtain bs where bs: "heap_inv h bs" "L = used_regions bs" by (auto simp: heap_live_def)
  note t = heap_inv_tiles [OF bs(1)]
  note b = used_region_block [OF assms(2) [unfolded bs(2)] t]
  have "all_heap h \<le> heap_lo h" unfolding heap_lo_def by linarith
  moreover have "heap_hi h \<le> all_heap h + CONFIG_HEAP" by (auto simp: heap_hi_def)
  ultimately show ?thesis using tiles_bounds [OF t b(1)] b(2) by auto
qed

lemma heap_owns_card:
  assumes "heap_owns h A"
  shows "finite A" "card A \<le> 2 ^ 21"
proof -
  from assms obtain L where L: "heap_live h L" "A = fst ` L" by (auto simp: heap_owns_def)
  have sub: "A \<subseteq> {all_heap h .. all_heap h + CONFIG_HEAP}"
    using live_in_arena [OF L(1)] L(2) by fastforce
  then show "finite A" by (rule finite_subset) simp
  have "card A \<le> card {all_heap h .. all_heap h + CONFIG_HEAP}" using sub by (intro card_mono) auto
  also have "\<dots> \<le> 2 ^ 21" by (simp add: CONFIG_HEAP_def)
  finally show "card A \<le> 2 ^ 21" .
qed

section \<open>Room for further requests\<close>

text \<open>A free block of at least \<open>n\<close> bytes: enough for requests whose rounded sizes add up to less.\<close>

definition heap_room :: "heap \<Rightarrow> nat \<Rightarrow> bool" where
  "heap_room h n \<longleftrightarrow> heap_fresh h \<and> n \<le> heap_hi h - heap_lo h \<or>
     (\<exists>bs. heap_inv h bs \<and> (\<exists>b \<in> set bs. b_free b \<and> n \<le> b_size b))"

lemma heap_room_inv:
  assumes "heap_room h n"
  obtains bs b h0 where "heap_inv h0 bs" "b \<in> set bs" "b_free b" "n \<le> b_size b"
    "\<forall>k. heap_malloc h k = heap_malloc h0 k"
proof (cases "heap_fresh h \<and> n \<le> heap_hi h - heap_lo h")
  case True
  then show ?thesis
    using that [of "heap_init h" "[Blk (heap_lo h) (heap_hi h - heap_lo h) True]"
        "Blk (heap_lo h) (heap_hi h - heap_lo h) True"]
      heap_init_inv [of h] malloc_fresh [of h] by (simp add: heap_malloc_def)
next
  case False
  with assms show ?thesis using that [of h] unfolding heap_room_def by blast
qed

lemma malloc_room:
  assumes "heap_room h n" "k + 64 \<le> n"
  shows "\<exists>p h'. heap_malloc h k = Some (p, h') \<and> p \<noteq> 0 \<and> heap_room h' (n - (k + 24))"
proof -
  from assms(1) obtain bs b h0 where b: "heap_inv h0 bs" "b \<in> set bs" "b_free b" "n \<le> b_size b"
    "\<forall>k. heap_malloc h k = heap_malloc h0 k" by (rule heap_room_inv)
  have "layout h0" using b(1) by (simp add: heap_inv_def heap_shape_def)
  then have "b_size b < 2 ^ 64"
    using tiles_bounds [OF heap_inv_tiles [OF b(1)] b(2)] layout_bounds(7) by fastforce
  then have k: "k + 24 \<le> 2 ^ 64" using assms(2) b(4) by simp
  note r = malloc_round_bounds [OF k]
  have "spec_malloc bs (malloc_round k) \<noteq> None"
    using spec_malloc_None [of bs "malloc_round k"] b r(2) assms(2) by fastforce
  then obtain a bs' where sm: "spec_malloc bs (malloc_round k) = Some (a, bs')" by auto
  from malloc_refines(2) [OF b(1) k sm] obtain h' where
    h': "heap_malloc h k = Some (a + 16, h')" "heap_inv h' bs'" using b(5) by (auto simp: heap_malloc_def)
  from spec_malloc_Some [OF sm] obtain pre s post where
    sp: "bs = pre @ Blk a s True # post" "bs' = pre @ carve a s (malloc_round k) @ post" by blast
  have "\<exists>c \<in> set bs'. b_free c \<and> n - (k + 24) \<le> b_size c"
  proof (cases "b = Blk a s True")
    case True
    then have "s - malloc_round k > MIN_SIZE" using b(4) r(2) assms(2) by (simp add: MIN_SIZE_def heap_struct_size_def)
    then have "Blk (a + malloc_round k) (s - malloc_round k) True \<in> set bs'" using sp(2) by (simp add: carve_def)
    moreover have "n - (k + 24) \<le> s - malloc_round k" using True b(4) r(2) by simp
    ultimately show ?thesis by force
  next
    case False
    then have "b \<in> set bs'" using b(2) sp by auto
    moreover have "n - (k + 24) \<le> b_size b" using b(4) by simp
    ultimately show ?thesis using b(3) by blast
  qed
  then have "heap_room h' (n - (k + 24))" using h'(2) unfolding heap_room_def by blast
  then show ?thesis using h'(1) by simp
qed

lemma heap_room_mono: "heap_room h n \<Longrightarrow> m \<le> n \<Longrightarrow> heap_room h m"
  unfolding heap_room_def by (meson le_trans)

text \<open>A release keeps the room that there is: a free block may grow, and none disappears.\<close>

lemma join_keeps: "c \<in> set bs \<Longrightarrow> b_free c \<Longrightarrow> \<exists>d \<in> set (join bs). b_free d \<and> b_size c \<le> b_size d"
  by (cases bs rule: join.cases) auto

lemma spec_free_keeps: "c \<in> set bs \<Longrightarrow> b_free c \<Longrightarrow> \<exists>d \<in> set (spec_free bs a). b_free d \<and> b_size c \<le> b_size d"
proof (induction bs)
  case (Cons b bs)
  show ?case
  proof (cases "b_addr b = a")
    case True
    have "\<exists>c' \<in> set (Blk a (b_size b) True # bs). b_free c' \<and> b_size c \<le> b_size c'" using Cons.prems by auto
    then obtain c' where c': "c' \<in> set (Blk a (b_size b) True # bs)" "b_free c'" "b_size c \<le> b_size c'" by blast
    from join_keeps [OF c'(1,2)] c'(3) show ?thesis using True by fastforce
  next
    case False
    have "\<exists>c' \<in> set (b # spec_free bs a). b_free c' \<and> b_size c \<le> b_size c'" using Cons by fastforce
    then obtain c' where c': "c' \<in> set (b # spec_free bs a)" "b_free c'" "b_size c \<le> b_size c'" by blast
    from join_keeps [OF c'(1,2)] c'(3) show ?thesis using False by fastforce
  qed
qed simp

lemma fpath_unique: "fpath m p xs t \<Longrightarrow> fpath m p ys t \<Longrightarrow> t \<notin> set xs \<Longrightarrow> t \<notin> set ys \<Longrightarrow> xs = ys"
proof (induction xs arbitrary: p ys)
  case Nil
  then show ?case by (cases ys) auto
next
  case (Cons x xs)
  then show ?case by (cases ys) auto
qed

lemma tiles_unique:
  assumes "tiles a bs e" "tiles a cs e" "\<forall>b \<in> set bs. f (b_addr b) = b_size b" "\<forall>b \<in> set cs. f (b_addr b) = b_size b"
  shows "map (\<lambda>b. (b_addr b, b_size b)) bs = map (\<lambda>b. (b_addr b, b_size b)) cs"
  using assms
proof (induction bs arbitrary: a cs)
  case Nil
  then show ?case using tiles_le [of "a + b_size (hd cs)" "tl cs" e] by (cases cs) auto
next
  case (Cons b bs)
  obtain c cs' where c: "cs = c # cs'" using Cons.prems(1,2) tiles_le [of "a + b_size b" bs e] by (cases cs) auto
  then have bc: "b_addr b = a" "b_addr c = a" "b_size b = b_size c" using Cons.prems by auto
  have "tiles (a + b_size b) bs e" "tiles (a + b_size b) cs' e" using Cons.prems(1,2) c bc by auto
  from Cons.IH [OF this] Cons.prems(3,4) c bc show ?case by auto
qed

lemma heap_inv_block:
  assumes "heap_inv h bs" "heap_inv h cs" "Blk a s False \<in> set bs"
  shows "Blk a s False \<in> set cs"
proof -
  have sh: "heap_shape h bs" "heap_shape h cs" using assms(1,2) by (simp_all add: heap_inv_def)
  have eq: "map (\<lambda>b. (b_addr b, b_size b)) bs = map (\<lambda>b. (b_addr b, b_size b)) cs"
    by (rule tiles_unique [of "heap_lo h" bs "heap_hi h" cs "\<lambda>x. nd_size (hmem h x)"]) (use sh in \<open>simp_all add: heap_shape_def\<close>)
  have fr: "frees bs = frees cs"
    by (rule fpath_unique [of "hmem h" "the_head h" _ "tail h"]) (use sh in \<open>auto simp: heap_shape_def frees_def\<close>)
  have "(a, s) \<in> set (map (\<lambda>b. (b_addr b, b_size b)) bs)" using assms(3) by force
  then obtain c where c: "c \<in> set cs" "b_addr c = a" "b_size c = s" unfolding eq by auto
  have "distinct (map b_addr bs)" using tiles_distinct [OF heap_inv_tiles [OF assms(1)]] .
  then have inj: "inj_on b_addr (set bs)" by (simp add: distinct_map)
  have "\<not> b_free x" if "x \<in> set bs" "b_addr x = a" for x using inj_onD [OF inj _ that(1) assms(3)] that(2) by simp
  then have "a \<notin> set (frees bs)" by (auto simp: frees_def)
  then have "\<not> b_free c" using c unfolding fr by (auto simp: frees_def)
  then show ?thesis using c by (cases c) simp
qed

lemma free_room:
  assumes "heap_owns h A" "p \<in> A" "heap_room h n" "heap_free h p = Some h'"
  shows "heap_room h' n"
proof -
  from assms(1,2) obtain L m where L: "heap_live h L" "(p, m) \<in> L" by (auto simp: heap_owns_def)
  then obtain bs where bs: "heap_inv h bs" "L = used_regions bs" by (auto simp: heap_live_def)
  note b = used_region_block [OF L(2) [unfolded bs(2)] heap_inv_tiles [OF bs(1)]]
  have nf: "\<not> heap_fresh h" using shape_nodes(3) bs(1) by (fastforce simp: heap_inv_def heap_fresh_def)
  with assms(3) obtain cs c where cs: "heap_inv h cs" "c \<in> set cs" "b_free c" "n \<le> b_size c" unfolding heap_room_def by blast
  have "p - 16 + 16 = p" using b(2) by simp
  with free_refines [OF cs(1) heap_inv_block [OF bs(1) cs(1) b(1)]] assms(4) have "heap_inv h' (spec_free cs (p - 16))"
    by (auto simp: heap_free_def)
  moreover obtain d where "d \<in> set (spec_free cs (p - 16))" "b_free d" "n \<le> b_size d"
    using spec_free_keeps [OF cs(2,3)] cs(4) le_trans by blast
  ultimately show ?thesis unfolding heap_room_def by blast
qed

section \<open>Properties\<close>

text \<open>A heap for the examples: the head at 8, an aligned arena at 64.\<close>

definition demo_heap :: heap where
  "demo_heap = heap_init (heap_static 8 64)"

lemma demo_heap_fresh: "heap_fresh (heap_static 8 64)"
  by (simp add: heap_fresh_def heap_static_def layout_def CONFIG_HEAP_def)

lemma demo_heap_inv: "heap_inv demo_heap [Blk 64 1048576 True]"
  using heap_init_inv [OF demo_heap_fresh]
  by (simp add: demo_heap_def heap_lo_def heap_hi_def heap_static_def CONFIG_HEAP_def)

lemma demo_heap_room: "heap_room demo_heap 1048576"
  using demo_heap_inv unfolding heap_room_def by fastforce

lemma demo_heap_live: "heap_live demo_heap {}"
  using heap_inv_live [OF demo_heap_inv] by simp

lemma demo_heap_owns: "heap_owns demo_heap {}"
  using demo_heap_live by (auto simp: heap_owns_def)

lemma malloc_round_100: "malloc_round 100 = 120"
  by (simp add: malloc_round_def heap_struct_size_def sz_add_def)

lemma demo_malloc:
  "\<exists>h'. heap_malloc demo_heap 100 = Some (80, h') \<and> heap_inv h' [Blk 64 120 False, Blk 184 1048456 True]"
  using malloc_refines(2) [OF demo_heap_inv, of 100 64 "[Blk 64 120 False, Blk 184 1048456 True]"]
  by (auto simp: malloc_round_100 carve_def MIN_SIZE_def heap_struct_size_def heap_malloc_def)

text \<open>C21. \<^verbatim>\<open>heap_malloc\<close> implements first fit with splitting: it returns NULL and leaves the
  heap as it is when no free block is large enough, and otherwise hands out the first free block
  that is, keeping the rest of it as a free block when more than \<^verbatim>\<open>MIN_SIZE\<close> bytes are left.\<close>

theorem heap_malloc_first_fit:
  assumes "heap_inv h bs" "n + 24 \<le> 2 ^ 64"
  shows "case spec_malloc bs (malloc_round n) of
      None \<Rightarrow> heap_malloc h n = Some (0, h)
    | Some (a, bs') \<Rightarrow> \<exists>h'. heap_malloc h n = Some (a + 16, h') \<and> heap_inv h' bs'"
  using malloc_refines [OF assms] by (auto simp: heap_malloc_def split: option.split)

theorem heap_malloc_first_fit_witness:
  "\<exists>h'. heap_malloc demo_heap 100 = Some (80, h') \<and> heap_inv h' [Blk 64 120 False, Blk 184 1048456 True]"
  using heap_malloc_first_fit [OF demo_heap_inv, of 100]
  by (simp add: malloc_round_100 carve_def MIN_SIZE_def heap_struct_size_def)

text \<open>C22. \<^verbatim>\<open>heap_free\<close> of a block that is in use returns, and makes the block free again, merged
  with the free blocks next to it on either side, so that no two adjacent blocks are ever free.\<close>

theorem heap_free_coalesces:
  assumes "heap_inv h bs" "Blk a s False \<in> set bs"
  shows "\<exists>h'. heap_free h (a + 16) = Some h' \<and> heap_inv h' (spec_free bs a)"
  using free_refines [OF assms] by (auto simp: heap_free_def)

theorem heap_free_coalesces_witness:
  "\<exists>h h'. heap_malloc demo_heap 100 = Some (80, h) \<and> heap_free h 80 = Some h' \<and>
    heap_inv h' [Blk 64 1048576 True]"
  using demo_malloc heap_free_coalesces [of _ "[Blk 64 120 False, Blk 184 1048456 True]" 64 120] by fastforce

lemma malloc_all_heap:
  assumes "heap_live h L" "n < 2 ^ 63" "heap_malloc h n = Some (p, h')"
  shows "all_heap h' = all_heap h"
proof -
  from assms(1) obtain bs h0 where h0: "heap_inv h0 bs" "all_heap h0 = all_heap h"
    "\<forall>n. real_heap_malloc h n = real_heap_malloc h0 n" by (rule heap_live_inv) blast
  have n: "n + 24 \<le> 2 ^ 64" using assms(2) by simp
  show ?thesis
    using malloc_refines [OF h0(1) n] h0 assms(3)
    by (cases "spec_malloc bs (malloc_round n)") (auto simp: heap_malloc_def)
qed

text \<open>A pointer that \<^verbatim>\<open>heap_malloc\<close> returns is 8-byte aligned and starts a region of at least
  the requested size that lies inside \<^verbatim>\<open>all_heap\<close> and overlaps no region handed out before.\<close>

theorem heap_malloc_fresh_region:
  assumes "heap_live h L" "n < 2 ^ 63" "heap_malloc h n = Some (p, h')" "p \<noteq> 0"
  shows "\<exists>m \<ge> n. heap_live h' (insert (p, m) L) \<and> p mod 8 = 0 \<and>
    all_heap h \<le> p \<and> p + m \<le> all_heap h + CONFIG_HEAP \<and>
    (\<forall>(q, k) \<in> L. p + m \<le> q \<or> q + k \<le> p)"
proof -
  from malloc_live [OF assms(1,2)] assms(3,4) obtain m where
    m: "n \<le> m" "heap_live h' (insert (p, m) L)" "p \<notin> fst ` L" by auto
  moreover have "p + m \<le> q \<or> q + k \<le> p" if "(q, k) \<in> L" for q k
    using heap.live_disjoint [OF m(2), of p m q k] that m(3) by force
  ultimately show ?thesis
    using heap.live_aligned [OF m(2), of p m] live_in_arena [OF m(2), of p m] malloc_all_heap [OF assms(1-3)]
    by auto
qed

theorem heap_malloc_fresh_region_witness:
  "\<exists>h' m. heap_malloc demo_heap 100 = Some (80, h') \<and> 100 \<le> m \<and> heap_live h' {(80, m)}"
  using demo_malloc heap_malloc_fresh_region [OF demo_heap_live, of 100 80] by auto

lemma spec_free_malloc:
  assumes "coalesced bs" "tiles lo bs hi" "spec_malloc bs sz = Some (a, bs')"
  shows "spec_free bs' a = bs" "\<exists>s. Blk a s False \<in> set bs'"
proof -
  from spec_malloc_Some [OF assms(3)] obtain pre s post where
    bs: "bs = pre @ Blk a s True # post" "sz \<le> s" "bs' = pre @ carve a s sz @ post" by blast
  have pre: "\<forall>b \<in> set pre. b_addr b \<noteq> a" using tiles_distinct [OF assms(2)] bs(1) by auto
  have c: "pre \<noteq> [] \<Longrightarrow> \<not> b_free (last pre)" "post \<noteq> [] \<Longrightarrow> \<not> b_free (hd post)"
    using assms(1) unfolding bs(1) coalesced_append by (cases post; auto)+
  show "\<exists>s. Blk a s False \<in> set bs'" using bs(3) by (auto simp: carve_def)
  have bs': "coalesced bs'" using coalesced_carve assms(1) bs by simp
  show "spec_free bs' a = bs"
  proof (cases "s - sz > MIN_SIZE")
    case True
    then have "bs' = pre @ Blk a sz False # Blk (a + sz) (s - sz) True # post" using bs(3) by (simp add: carve_def)
    with spec_free_eq [of pre a sz "Blk (a + sz) (s - sz) True # post"] bs' pre show ?thesis
      using c(1) bs(1,2) by (auto simp: Let_def)
  next
    case False
    then have "bs' = pre @ Blk a s False # post" using bs(3) by (simp add: carve_def)
    moreover have "join (Blk a s True # post) = Blk a s True # post" using c(2) by (cases post) auto
    ultimately show ?thesis using spec_free_eq [of pre a s post] bs' pre c(1) bs(1) by (auto simp: Let_def)
  qed
qed


text \<open>Freeing what \<^verbatim>\<open>heap_malloc\<close> has just returned undoes the allocation: the arena is tiled
  as before, with the same blocks free, and \<^verbatim>\<open>all_size\<close> is the same again.\<close>

theorem heap_malloc_free_restores:
  assumes "heap_inv h bs" "n + 24 \<le> 2 ^ 64" "heap_malloc h n = Some (p, h')"
  shows "\<exists>h''. heap_free h' p = Some h'' \<and> heap_inv h'' bs \<and> all_size h'' = all_size h"
proof (cases "spec_malloc bs (malloc_round n)")
  case None
  then have "p = 0" "h' = h" using malloc_refines(1) [OF assms(1,2)] assms(3) by (auto simp: heap_malloc_def)
  then show ?thesis using assms(1) heap.release_zero [of h] by simp
next
  case (Some x)
  obtain a bs' where x: "x = (a, bs')" by fastforce
  from malloc_refines(2) [OF assms(1,2) Some [unfolded x]] assms(3)
  have h': "p = a + 16" "heap_inv h' bs'" by (auto simp: heap_malloc_def)
  have "coalesced bs" using assms(1) by (simp add: heap_inv_def)
  note sf = spec_free_malloc [OF this heap_inv_tiles [OF assms(1)] Some [unfolded x]]
  from sf(2) obtain s where "Blk a s False \<in> set bs'" by blast
  from free_refines [OF h'(2) this] sf(1) obtain h'' where
    "heap_free h' p = Some h''" "heap_inv h'' bs" using h'(1) by (auto simp: heap_free_def)
  then show ?thesis using assms(1) by (auto simp: heap_inv_def)
qed

theorem heap_malloc_free_restores_witness:
  "\<exists>h' h''. heap_malloc demo_heap 100 = Some (80, h') \<and> heap_free h' 80 = Some h'' \<and>
    heap_inv h'' [Blk 64 1048576 True]"
  using demo_malloc heap_malloc_free_restores [OF demo_heap_inv, of 100 80] by auto

text \<open>\<^verbatim>\<open>heap_get_stats\<close> terminates, and what it reports is exact: the free bytes it counts on
  its walk are \<^verbatim>\<open>all_size\<close>, the maximum is that of the free blocks, and \<^verbatim>\<open>free_blocks\<close> is their
  number plus one, because the walk also counts the sentinel.\<close>

theorem heap_get_stats_exact:
  assumes "heap_inv h bs"
  shows "heap_get_stats h = Some
    \<lparr>remain_size = all_size h, free_size_iter = all_size h,
     max_free_block = foldr max (map b_size (filter b_free bs)) 0,
     free_blocks = length (filter b_free bs) + 1\<rparr>"
  using stats_exact [OF assms] assms by (simp add: heap_inv_def)

theorem heap_get_stats_exact_witness:
  "heap_get_stats demo_heap = Some
    \<lparr>remain_size = 1048576, free_size_iter = 1048576, max_free_block = 1048576, free_blocks = 2\<rparr>"
  using heap_get_stats_exact [OF demo_heap_inv] demo_heap_inv by (simp add: heap_inv_def)

lemma CONFIG_HEAP_request: "CONFIG_HEAP - 16 + 24 \<le> 2 ^ 64"
  by (simp add: CONFIG_HEAP_def)

text \<open>When \<^verbatim>\<open>all_heap\<close> is 8-byte aligned, \<^verbatim>\<open>heap_init\<close> does not take the sentinel out of the
  first block: a request for all of the arena succeeds on a fresh heap, and the region it returns
  contains the header of the sentinel.\<close>

theorem heap_sentinel_in_payload:
  assumes "heap_fresh h" "all_heap h mod 8 = 0"
  shows "\<exists>h' m. heap_malloc h (CONFIG_HEAP - 16) = Some (all_heap h + 16, h') \<and>
    heap_live h' {(all_heap h + 16, m)} \<and>
    all_heap h + 16 \<le> tail h' \<and> tail h' + 16 \<le> all_heap h + 16 + m"
proof -
  let ?n = "CONFIG_HEAP - 16" and ?B = "\<lambda>f. [Blk (all_heap h) CONFIG_HEAP f]"
  have "heap_lo h = all_heap h" "heap_hi h = all_heap h + CONFIG_HEAP"
    using assms(2) by (auto simp: heap_lo_def heap_hi_def)
  then have inv: "heap_inv (heap_init h) (?B True)" using heap_init_inv [OF assms(1)] by simp
  have r: "malloc_round ?n = CONFIG_HEAP" by (simp add: malloc_round_def heap_struct_size_def sz_add_def CONFIG_HEAP_def)
  then have "spec_malloc (?B True) (malloc_round ?n) = Some (all_heap h, ?B False)"
    by (simp add: carve_def MIN_SIZE_def)
  from malloc_refines(2) [OF inv CONFIG_HEAP_request this] obtain h' where
    h': "real_heap_malloc (heap_init h) ?n = Some (all_heap h + 16, h')"
    "heap_inv h' (?B False)" "all_heap h' = all_heap h" by auto
  have "tail h' = heap_tail h'" using h'(2) unfolding heap_inv_def heap_shape_def by blast
  then have "tail h' = all_heap h + CONFIG_HEAP - 16"
    using h'(3) assms(2) unfolding heap_tail_def heap_hi_def by simp
  moreover have "heap_live h' {(all_heap h + 16, ?n)}" using heap_inv_live [OF h'(2)] by simp
  ultimately show ?thesis using h'(1) malloc_fresh [OF assms(1)]
    by (intro exI [of _ h'] exI [of _ ?n]) (simp add: heap_malloc_def CONFIG_HEAP_def)
qed

theorem heap_sentinel_in_payload_witness:
  "\<exists>h' m. heap_malloc (heap_static 8 64) (CONFIG_HEAP - 16) = Some (80, h') \<and>
    heap_live h' {(80, m)} \<and> 80 \<le> tail h' \<and> tail h' + 16 \<le> 80 + m"
  using heap_sentinel_in_payload [OF demo_heap_fresh] by (simp add: heap_static_def)

end
