(* ===== verification/Bits.thy ===== *)
theory Bits
  imports Prelude
begin

text \<open>
  The header-only helpers: byte order and checksum of \<^verbatim>\<open>ccrpc/include/common.h\<close>, the wrapping
  comparisons of \<^verbatim>\<open>lib/include/compare.h\<close>, and the logarithms and powers of two of
  \<^verbatim>\<open>lib/include/math.h\<close>. A shift by the full width or \<^verbatim>\<open>__builtin_clz (0)\<close> is undefined
  in C and gives \<open>None\<close>.
\<close>

section \<open>Byte order\<close>

definition swap16 :: "u16 \<Rightarrow> u16" where
  "swap16 v = ucast (drop_bit 8 (ucast v :: u32) OR push_bit 8 (ucast v :: u32))"

definition swap32 :: "u32 \<Rightarrow> u32" where
  "swap32 v = (drop_bit 24 v AND 0x000000FF) OR (drop_bit 8 v AND 0x0000FF00) OR
     (push_bit 8 v AND 0x00FF0000) OR (push_bit 24 v AND 0xFF000000)"

definition htons :: "u16 \<Rightarrow> u16" where "htons v = swap16 v"
definition ntohs :: "u16 \<Rightarrow> u16" where "ntohs v = swap16 v"
definition htonl :: "u32 \<Rightarrow> u32" where "htonl v = swap32 v"
definition ntohl :: "u32 \<Rightarrow> u32" where "ntohl v = swap32 v"

section \<open>The Internet checksum\<close>

text \<open>
  The buffer is the \<open>len\<close> bytes at \<open>b\<close>; \<^verbatim>\<open>sum\<close> is a 64-bit \<^verbatim>\<open>long\<close> that stays far below
  its range. \<open>bit s 31\<close> is the test \<^verbatim>\<open>sum & 0x80000000\<close>.
\<close>

definition fold_carry :: "nat \<Rightarrow> nat" where
  "fold_carry s = s mod 2 ^ 16 + s div 2 ^ 16"

lemma fold_carry_less:
  assumes "s div 2 ^ 16 \<noteq> 0"
  shows "fold_carry s < s"
proof -
  have "s div 65536 * 65536 + s mod 65536 = s" by (rule div_mult_mod_eq)
  moreover have "fold_carry s = s mod 65536 + s div 65536" "0 < s div 65536"
    using assms by (simp_all add: fold_carry_def)
  ultimately show ?thesis by linarith
qed

fun in_checksum_words :: "nat \<Rightarrow> bytes \<Rightarrow> nat" where
  "in_checksum_words s (a # b # rest) =
     (let s = s + unat (of_le16 [a, b]);
          s = (if bit s 31 then fold_carry s else s)
      in in_checksum_words s rest)"
| "in_checksum_words s [a] = s + unat a"
| "in_checksum_words s [] = s"

function in_checksum_fold :: "nat \<Rightarrow> nat" where
  "in_checksum_fold s =
     (if s div 2 ^ 16 \<noteq> 0 then in_checksum_fold (fold_carry s) else s)"
  by pat_completeness auto
termination
  by (relation "measure id") (auto simp: fold_carry_less)

declare in_checksum_fold.simps [simp del]

definition in_checksum :: "bytes \<Rightarrow> u16" where
  "in_checksum b = NOT (word_of_nat (in_checksum_fold (in_checksum_words 0 b)))"

section \<open>Wrapping comparisons\<close>

definition compare_before :: "u32 \<Rightarrow> u32 \<Rightarrow> bool" where
  "compare_before a b \<longleftrightarrow> sint (a - b) < 0"

definition compare_before_eq :: "u32 \<Rightarrow> u32 \<Rightarrow> bool" where
  "compare_before_eq a b \<longleftrightarrow> sint (a - b) \<le> 0"

definition compare_after :: "u32 \<Rightarrow> u32 \<Rightarrow> bool" where
  "compare_after a b \<longleftrightarrow> sint (a - b) > 0"

definition compare_after_eq :: "u32 \<Rightarrow> u32 \<Rightarrow> bool" where
  "compare_after_eq a b \<longleftrightarrow> sint (a - b) \<ge> 0"

section \<open>Logarithms and powers of two\<close>

fun bit_width :: "nat \<Rightarrow> nat" where
  "bit_width n = (if n = 0 then 0 else Suc (bit_width (n div 2)))"

declare bit_width.simps [simp del]

definition clz32 :: "u32 \<Rightarrow> nat option" where
  "clz32 v = (if v = 0 then None else Some (32 - bit_width (unat v)))"

definition clz64 :: "u64 \<Rightarrow> nat option" where
  "clz64 v = (if v = 0 then None else Some (64 - bit_width (unat v)))"

definition log2_clz32 :: "u32 \<Rightarrow> nat option" where
  "log2_clz32 v = do { c \<leftarrow> clz32 v; Some (31 - c) }"

definition log2_clz64 :: "u64 \<Rightarrow> nat option" where
  "log2_clz64 v = do { c \<leftarrow> clz64 v; Some (63 - c) }"

definition next_power_of_two_u32 :: "u32 \<Rightarrow> u32 option" where
  "next_power_of_two_u32 x =
     (if x \<le> 1 then Some 1
      else do { l \<leftarrow> log2_clz32 (x - 1);
                if l + 1 < 32 then Some (push_bit (l + 1) 1) else None })"

definition next_power_of_two_u64 :: "u64 \<Rightarrow> u64 option" where
  "next_power_of_two_u64 x =
     (if x \<le> 1 then Some 1
      else do { l \<leftarrow> log2_clz64 (x - 1);
                if l + 1 < 64 then Some (push_bit (l + 1) 1) else None })"

definition next_power_of_two_index_u32 :: "u32 \<Rightarrow> nat option" where
  "next_power_of_two_index_u32 x =
     (if x \<le> 1 then Some 0 else do { l \<leftarrow> log2_clz32 (x - 1); Some (l + 1) })"

definition next_power_of_two_index_u64 :: "u64 \<Rightarrow> nat option" where
  "next_power_of_two_index_u64 x =
     (if x \<le> 1 then Some 0 else do { l \<leftarrow> log2_clz64 (x - 1); Some (l + 1) })"

definition math_log_partition_height_u32 :: "u32 \<Rightarrow> u8 \<Rightarrow> nat option" where
  "math_log_partition_height_u32 x part_bits =
     (if x = 0 then Some 1
      else if part_bits = 0 then None
      else do { l \<leftarrow> log2_clz32 x; Some (l div unat part_bits + 1) })"

definition math_log_partition_height_u64 :: "u64 \<Rightarrow> u8 \<Rightarrow> nat option" where
  "math_log_partition_height_u64 x part_bits =
     (if x = 0 then Some 1
      else if part_bits = 0 then None
      else do { l \<leftarrow> log2_clz64 x; Some (l div unat part_bits + 1) })"

section \<open>Byte order lemmas\<close>

lemma swap32_masks:
  "swap32 v = (drop_bit 24 v AND mask 8) OR (drop_bit 8 v AND push_bit 8 (mask 8)) OR
     (push_bit 8 v AND push_bit 16 (mask 8)) OR (push_bit 24 v AND push_bit 24 (mask 8))"
  by (simp add: swap32_def mask_eq_exp_minus_1 push_bit_eq_mult)

lemma le16_swap16 [wire_simps]: "le16 (swap16 v) = rev (le16 v)"
  by (auto simp: le16_def swap16_def bit_simps intro!: bit_word_eqI)

lemma le32_swap32 [wire_simps]: "le32 (swap32 v) = rev (le32 v)"
  by (auto simp: le32_def swap32_masks bit_simps intro!: bit_word_eqI)

lemma le16_inject: "le16 v = le16 w \<longleftrightarrow> v = w"
  by (metis of_le16_le16)

lemma le32_inject: "le32 v = le32 w \<longleftrightarrow> v = w"
  by (metis of_le32_le32)

lemma swap16_swap16 [simp]: "swap16 (swap16 v) = v"
  by (simp add: wire_simps flip: le16_inject)

lemma swap32_swap32 [simp]: "swap32 (swap32 v) = v"
  by (simp add: wire_simps flip: le32_inject)

lemma ntoh_hton [simp]: "ntohs (htons v) = v" "ntohl (htonl w) = w"
  by (simp_all add: ntohs_def htons_def ntohl_def htonl_def)

section \<open>Checksum lemmas\<close>

lemma fold_carry_mod: "fold_carry s mod 65535 = s mod 65535"
proof -
  have "s = s div 65536 * 65536 + s mod 65536" by simp
  also have "\<dots> = 65535 * (s div 65536) + (s mod 65536 + s div 65536)" by linarith
  finally have "s mod 65535 = (65535 * (s div 65536) + fold_carry s) mod 65535"
    by (simp add: fold_carry_def)
  then show ?thesis by simp
qed

lemma fold_carry_eq_0: "fold_carry s = 0 \<longleftrightarrow> s = 0"
  using div_mult_mod_eq [of s "2 ^ 16"] unfolding fold_carry_def by auto

lemma in_checksum_fold_props:
  "in_checksum_fold s < 65536 \<and> in_checksum_fold s mod 65535 = s mod 65535 \<and>
   (in_checksum_fold s = 0 \<longleftrightarrow> s = 0)"
proof (induction s rule: in_checksum_fold.induct)
  case (1 s)
  show ?case
  proof (cases "s div 2 ^ 16 = 0")
    case True
    then show ?thesis by (simp add: in_checksum_fold.simps [of s] div_eq_0_iff)
  next
    case False
    with 1 show ?thesis
      by (simp add: in_checksum_fold.simps [of s] fold_carry_mod fold_carry_eq_0)
  qed
qed

fun word_sum :: "bytes \<Rightarrow> nat" where
  "word_sum (a # b # rest) = unat (of_le16 [a, b]) + word_sum rest"
| "word_sum [a] = unat a"
| "word_sum [] = 0"

lemma in_checksum_words_sum:
  "in_checksum_words s b mod 65535 = (s + word_sum b) mod 65535 \<and>
   (in_checksum_words s b = 0 \<longleftrightarrow> s + word_sum b = 0)"
proof (induction s b rule: in_checksum_words.induct)
  case (1 s a b rest)
  let ?t = "s + unat (of_le16 [a, b])"
  have "(fold_carry ?t + word_sum rest) mod 65535 = (?t + word_sum rest) mod 65535"
    by (metis fold_carry_mod mod_add_left_eq)
  with 1 show ?case
    by (simp add: Let_def fold_carry_eq_0 add.assoc split del: if_split split: if_split)
qed simp_all

lemma word_sum_append: "even (length xs) \<Longrightarrow> word_sum (xs @ ys) = word_sum xs + word_sum ys"
  by (induction xs rule: word_sum.induct) auto

lemma unat_not_u16: "unat (NOT w :: u16) = 65535 - unat w"
proof -
  have "NOT w = 65535 - w" by (simp add: not_eq_complement)
  moreover have "w \<le> 65535" using u16_less [of w] by (simp add: word_le_nat_alt)
  ultimately show ?thesis by (simp add: unat_sub)
qed

text \<open>The value of the checksum: the complement of the folded sum \<open>r\<close>.\<close>

lemma in_checksum_value:
  obtains r where "unat (in_checksum b) = 65535 - r" "r < 65536"
    "r mod 65535 = word_sum b mod 65535" "r = 0 \<longleftrightarrow> word_sum b = 0"
proof
  let ?r = "in_checksum_fold (in_checksum_words 0 b)"
  show "?r < 65536" "?r mod 65535 = word_sum b mod 65535" "?r = 0 \<longleftrightarrow> word_sum b = 0"
    using in_checksum_fold_props [of "in_checksum_words 0 b"] in_checksum_words_sum [of 0 b]
    by auto
  then show "unat (in_checksum b) = 65535 - ?r"
    by (simp add: in_checksum_def unat_not_u16 unat_of_nat)
qed

lemma in_checksum_zeroI:
  assumes "word_sum b mod 65535 = 0" "word_sum b \<noteq> 0"
  shows "in_checksum b = 0"
proof -
  obtain r where r: "unat (in_checksum b) = 65535 - r" "r < 65536"
    "r mod 65535 = word_sum b mod 65535" "r = 0 \<longleftrightarrow> word_sum b = 0"
    by (rule in_checksum_value)
  with assms have "\<not> r < 65535" by (metis mod_less)
  with r(2) have "r = 65535" by simp
  with r show ?thesis by (simp add: unat_eq_zero)
qed


section \<open>Power of two lemmas\<close>

lemma bit_width_bounds: "0 < n \<Longrightarrow> 2 ^ (bit_width n - 1) \<le> n \<and> n < 2 ^ bit_width n"
proof (induction n rule: bit_width.induct)
  case (1 n)
  show ?case
  proof (cases "n div 2 = 0")
    case True
    with 1 have "n = 1" by linarith
    then show ?thesis by (simp add: bit_width.simps)
  next
    case False
    with 1 have IH: "2 ^ (bit_width (n div 2) - 1) \<le> n div 2" "n div 2 < 2 ^ bit_width (n div 2)"
      by auto
    have "0 < bit_width (n div 2)" using False by (simp add: bit_width.simps [of "n div 2"])
    then have "2 ^ bit_width (n div 2) = (2 :: nat) * 2 ^ (bit_width (n div 2) - 1)"
      by (simp flip: power_Suc)
    with IH 1 show ?thesis by (simp add: bit_width.simps [of n]) linarith
  qed
qed

lemma bit_width_le_iff: "bit_width n \<le> k \<longleftrightarrow> n < 2 ^ k"
proof (cases "n = 0")
  case True
  then show ?thesis by (simp add: bit_width.simps)
next
  case False
  then have b: "2 ^ (bit_width n - 1) \<le> n" "n < 2 ^ bit_width n" "0 < bit_width n"
    using bit_width_bounds [of n] by (auto simp: bit_width.simps [of n])
  show ?thesis
  proof
    assume "bit_width n \<le> k"
    then have "(2 :: nat) ^ bit_width n \<le> 2 ^ k" by simp
    with b show "n < 2 ^ k" by linarith
  next
    assume "n < 2 ^ k"
    with b have "(2 :: nat) ^ (bit_width n - 1) < 2 ^ k" by linarith
    then have "bit_width n - 1 < k" by simp
    with b show "bit_width n \<le> k" by linarith
  qed
qed

lemma bit_width_u32: "bit_width (unat (v :: u32)) \<le> 32"
  using u32_less [of v] by (simp add: bit_width_le_iff)

lemma bit_width_u64: "bit_width (unat (v :: u64)) \<le> 64"
  using u64_less [of v] by (simp add: bit_width_le_iff)

lemma bit_width_pos: "0 < n \<Longrightarrow> 0 < bit_width n"
  by (simp add: bit_width.simps [of n])

lemma log2_clz32_eq: "v \<noteq> 0 \<Longrightarrow> log2_clz32 v = Some (bit_width (unat v) - 1)"
  using bit_width_u32 [of v] bit_width_pos [of "unat v"]
  by (simp add: log2_clz32_def clz32_def unat_gt_0)

lemma log2_clz64_eq: "v \<noteq> 0 \<Longrightarrow> log2_clz64 v = Some (bit_width (unat v) - 1)"
  using bit_width_u64 [of v] bit_width_pos [of "unat v"]
  by (simp add: log2_clz64_def clz64_def unat_gt_0)

lemma unat_minus_one_u32: "1 < (x :: u32) \<Longrightarrow> unat (x - 1) = unat x - 1 \<and> x - 1 \<noteq> 0"
  by (auto simp: unat_sub word_le_nat_alt word_less_nat_alt)

lemma unat_minus_one_u64: "1 < (x :: u64) \<Longrightarrow> unat (x - 1) = unat x - 1 \<and> x - 1 \<noteq> 0"
  by (auto simp: unat_sub word_le_nat_alt word_less_nat_alt)

lemma next_power_of_two_u32_eq:
  "1 < x \<Longrightarrow> next_power_of_two_u32 x =
     (if unat x \<le> 2 ^ 31 then Some (2 ^ bit_width (unat x - 1)) else None)"
  using bit_width_le_iff [of "unat x - 1" 31] unat_minus_one_u32 [of x] bit_width_pos [of "unat x - 1"]
  by (auto simp: next_power_of_two_u32_def log2_clz32_eq push_bit_eq_mult word_less_nat_alt
      word_le_nat_alt)

lemma next_power_of_two_u64_eq:
  "1 < x \<Longrightarrow> next_power_of_two_u64 x =
     (if unat x \<le> 2 ^ 63 then Some (2 ^ bit_width (unat x - 1)) else None)"
  using bit_width_le_iff [of "unat x - 1" 63] unat_minus_one_u64 [of x] bit_width_pos [of "unat x - 1"]
  by (auto simp: next_power_of_two_u64_def log2_clz64_eq push_bit_eq_mult word_less_nat_alt
      word_le_nat_alt)

section \<open>Properties\<close>

text \<open>A message of even length followed by its own \<^verbatim>\<open>in_checksum\<close>, stored in memory order,
  has checksum zero: a receiver that recomputes it accepts what a sender protected.\<close>

theorem in_checksum_verifies:
  assumes "even (length b)"
  shows "in_checksum (b @ le16 (in_checksum b)) = 0"
proof (rule in_checksum_zeroI)
  obtain r where r: "unat (in_checksum b) = 65535 - r" "r < 65536"
    "r mod 65535 = word_sum b mod 65535" "r = 0 \<longleftrightarrow> word_sum b = 0"
    by (rule in_checksum_value)
  have s: "word_sum (b @ le16 (in_checksum b)) = word_sum b + (65535 - r)"
    using assms r(1) of_le16_le16 [of "in_checksum b"] by (simp add: word_sum_append le16_def)
  have "(word_sum b + (65535 - r)) mod 65535 = (r + (65535 - r)) mod 65535"
    using r(3) by (metis mod_add_left_eq)
  with s r(2) show "word_sum (b @ le16 (in_checksum b)) mod 65535 = 0" by simp
  from s r show "word_sum (b @ le16 (in_checksum b)) \<noteq> 0" by auto
qed

theorem in_checksum_verifies_witness:
  "even (length [0x12, 0x34, 0xab, 0xcd :: u8]) \<and>
   in_checksum ([0x12, 0x34, 0xab, 0xcd] @ le16 (in_checksum [0x12, 0x34, 0xab, 0xcd])) = 0"
  using in_checksum_verifies [of "[0x12, 0x34, 0xab, 0xcd]"] by simp

lemma sint_neg_iff: "sint (w :: u32) < 0 \<longleftrightarrow> 2 ^ 31 \<le> unat w"
proof -
  have "sint w < 0 \<longleftrightarrow> bit w 31" using bit_last_iff [of w] by simp
  also have "\<dots> \<longleftrightarrow> bit (unat w) 31" by (simp add: bit_simps)
  also have "\<dots> \<longleftrightarrow> odd (unat w div 2 ^ 31)" by (simp add: bit_iff_odd)
  also have "\<dots> \<longleftrightarrow> 2 ^ 31 \<le> unat w"
  proof (cases "unat w < 2 ^ 31")
    case False
    with u32_less [of w] have "unat w div 2 ^ 31 = 1" by (intro div_nat_eqI) simp_all
    with False show ?thesis by simp
  qed simp
  finally show ?thesis .
qed

lemma unat_minus_u32: "d \<noteq> 0 \<Longrightarrow> unat (- d :: u32) = 2 ^ 32 - unat d"
proof -
  assume "d \<noteq> 0"
  have "(unat (- d) + unat d) mod 2 ^ 32 = unat (- d + d)"
    by (simp only: unat_word_ariths) simp
  then obtain k where "unat (- d) + unat d = 2 ^ 32 * k" by (auto simp: mod_eq_0_iff_dvd)
  moreover from this have "k = 1"
    using \<open>d \<noteq> 0\<close> u32_less [of d] u32_less [of "- d"]
    by (cases k; cases "k - 1") (auto simp: unat_eq_zero)
  ultimately show ?thesis by simp
qed

text \<open>The wrapping comparisons order two 32-bit sequence numbers by the distance from one to the
  other, also across the wrap-around: \<open>a\<close> is before \<open>a + d\<close> exactly when \<open>d\<close> is non-zero and at
  most half of the range, and \<open>a + d\<close> is after \<open>a\<close> exactly when it is below half.\<close>

theorem compare_window:
  "(compare_before a (a + d) \<longleftrightarrow> 0 < unat d \<and> unat d \<le> 2 ^ 31) \<and>
   (compare_after (a + d) a \<longleftrightarrow> 0 < unat d \<and> unat d < 2 ^ 31)"
proof (cases "d = 0")
  case True
  then show ?thesis by (simp add: compare_before_def compare_after_def)
next
  case False
  have "sint d \<noteq> 0" using False by (metis signed_word_eqI signed_0)
  then have "0 < sint d \<longleftrightarrow> \<not> 2 ^ 31 \<le> unat d" using sint_neg_iff [of d] by linarith
  moreover have "0 < unat d" using False by (simp add: unat_gt_0)
  moreover have "sint (- d) < 0 \<longleftrightarrow> unat d \<le> 2 ^ 31"
    using unat_minus_u32 [OF False] sint_neg_iff [of "- d"] u32_less [of d] by (simp; linarith)
  ultimately show ?thesis
    by (simp add: compare_before_def compare_after_def not_le)
qed


lemma bit_width_least: "1 < n \<Longrightarrow> n \<le> 2 ^ bit_width (n - 1) \<and> (\<forall>j. n \<le> 2 ^ j \<longrightarrow> bit_width (n - 1) \<le> j)"
  using bit_width_bounds [of "n - 1"] by (auto simp: bit_width_le_iff)

lemma unat_pow_u64: "k < 64 \<Longrightarrow> unat ((2 :: u64) ^ k) = 2 ^ k"
  using unat_of_nat [of "2 ^ k", where ?'a = 64] power_strict_increasing [of k 64 "2 :: nat"] by simp

text \<open>\<^verbatim>\<open>next_power_of_two_u64\<close> returns the least power of two that is not below its argument
  for every argument up to \<open>2 ^ 63\<close>; above it the shift is undefined.\<close>

theorem next_power_of_two_least:
  "case next_power_of_two_u64 x of
     None \<Rightarrow> 2 ^ 63 < unat x
   | Some p \<Rightarrow> \<exists>k. unat p = 2 ^ k \<and> unat x \<le> 2 ^ k \<and> (\<forall>j. unat x \<le> 2 ^ j \<longrightarrow> k \<le> j)"
proof (cases "1 < x")
  case True
  then have x: "1 < unat x" by (simp add: word_less_nat_alt)
  have "bit_width (unat x - 1) < 64" if "unat x \<le> 2 ^ 63"
    using bit_width_le_iff [of "unat x - 1" 63] that x by auto
  then show ?thesis
    using next_power_of_two_u64_eq [OF True] bit_width_least [OF x]
    by (auto simp: unat_pow_u64 not_le)
next
  case False
  then have "unat x \<le> 1" by (simp add: word_less_nat_alt)
  then show ?thesis using False
    by (auto simp: next_power_of_two_u64_def not_less intro!: exI [of _ "0::nat"])
qed

theorem next_power_of_two_least_witness:
  "next_power_of_two_u64 100 = Some 128 \<and> unat (100 :: u64) \<le> 128 \<and>
   (\<exists>k. unat (128 :: u64) = 2 ^ k \<and> (\<forall>j. unat (100 :: u64) \<le> 2 ^ j \<longrightarrow> k \<le> j))"
proof -
  have "next_power_of_two_u64 100 = Some 128" by code_simp
  with next_power_of_two_least [of 100] show ?thesis by auto
qed

end
