(* ===== verification/Hashmap.thy ===== *)
theory Hashmap
  imports Allocator Bits "HOL-Library.Monad_Syntax"
begin

text \<open>
  The hash map of \<^verbatim>\<open>lib/source/hashmap.c\<close> on a 64-bit platform. A bucket, a circular list in
  C, is the list of its entries from \<^verbatim>\<open>bucket->next\<close> on (\<^verbatim>\<open>Link_List\<close> shows that
  \<^verbatim>\<open>list_add_next\<close> and \<^verbatim>\<open>list_remove\<close> do to it what is done here), and an entry is kept with
  the address that \<^verbatim>\<open>heap_malloc\<close> gave it. A key is the word that is passed as \<^verbatim>\<open>void *\<close>, with
  the characters before the NUL it points to, which only string maps read. Using a NULL from
  \<^verbatim>\<open>heap_malloc\<close> is a fault (\<open>None\<close>).
\<close>

section \<open>State and operations\<close>

record hm_key =
  k_word :: u64
  k_chars :: bytes

record hashmap_entry =
  e_addr :: addr
  e_key :: hm_key
  e_value :: addr

record hashmap =
  buckets_at :: addr
  bucket_count :: u64
  key_type :: int
  buckets :: "hashmap_entry list list"

definition HASHMAP_KEY_STRING :: int where "HASHMAP_KEY_STRING = 1"
definition HASHMAP_KEY_INT :: int where "HASHMAP_KEY_INT = 2"
definition HASHMAP_KEY_PTR :: int where "HASHMAP_KEY_PTR = 3"
definition GOLDEN_RATIO_PRIME :: u64 where "GOLDEN_RATIO_PRIME = 0x9e37fffffffc0001"

definition next_power_of_two :: "u64 \<Rightarrow> u64 option" where
  "next_power_of_two x =
     (if x \<le> 1 then Some 1
      else do { c \<leftarrow> clz64 (x - 1); if c = 0 then None else Some (push_bit (64 - c) 1) })"

definition hash_long :: "u64 \<Rightarrow> u64" where
  "hash_long val = val * GOLDEN_RATIO_PRIME"

primrec hash_chars :: "u64 \<Rightarrow> bytes \<Rightarrow> u64" where
  "hash_chars h [] = h"
| "hash_chars h (c # s) = hash_chars (h * GOLDEN_RATIO_PRIME + ucast c) s"

definition hashmap_hash :: "int \<Rightarrow> hm_key \<Rightarrow> u64" where
  "hashmap_hash ty key =
     (if ty = HASHMAP_KEY_STRING then hash_chars 0 (k_chars key)
      else if ty = HASHMAP_KEY_INT \<or> ty = HASHMAP_KEY_PTR then hash_long (k_word key)
      else 0)"

definition hashmap_key_equal :: "int \<Rightarrow> hm_key \<Rightarrow> hm_key \<Rightarrow> bool" where
  "hashmap_key_equal ty a b \<longleftrightarrow>
     (if ty = HASHMAP_KEY_STRING then k_chars a = k_chars b
      else if ty = HASHMAP_KEY_INT \<or> ty = HASHMAP_KEY_PTR then k_word a = k_word b
      else False)"

text \<open>\<^verbatim>\<open>sizeof (struct list_node)\<close> and \<^verbatim>\<open>sizeof (struct hashmap_entry)\<close>. The multiplication
  of \<^verbatim>\<open>hashmap_init\<close> wraps; when it does, its loop runs past the block.\<close>

definition hashmap_init :: "heap \<Rightarrow> u64 \<Rightarrow> int \<Rightarrow> (hashmap \<times> heap) option" where
  "hashmap_init h n ty = do {
     count \<leftarrow> next_power_of_two n;
     (p, h) \<leftarrow> heap_malloc h (unat (16 * count));
     if p = 0 \<or> unat (16 * count) \<noteq> 16 * unat count then None
     else Some (\<lparr>buckets_at = p, bucket_count = count, key_type = ty,
                 buckets = replicate (unat count) []\<rparr>, h) }"

definition bucket_index :: "hashmap \<Rightarrow> hm_key \<Rightarrow> nat" where
  "bucket_index m key = unat (hashmap_hash (key_type m) key AND (bucket_count m - 1))"

definition hashmap_bucket :: "hashmap \<Rightarrow> hm_key \<Rightarrow> hashmap_entry list option" where
  "hashmap_bucket m key =
     (if buckets_at m = 0 \<or> length (buckets m) \<le> bucket_index m key then None
      else Some (buckets m ! bucket_index m key))"

primrec find_entry :: "int \<Rightarrow> hm_key \<Rightarrow> hashmap_entry list \<Rightarrow> hashmap_entry option" where
  "find_entry ty key [] = None"
| "find_entry ty key (e # es) =
     (if hashmap_key_equal ty (e_key e) key then Some e else find_entry ty key es)"

primrec set_entry :: "int \<Rightarrow> hm_key \<Rightarrow> addr \<Rightarrow> hashmap_entry list \<Rightarrow> hashmap_entry list" where
  "set_entry ty key v [] = []"
| "set_entry ty key v (e # es) =
     (if hashmap_key_equal ty (e_key e) key then e\<lparr>e_value := v\<rparr> # es else e # set_entry ty key v es)"

primrec unlink_entry :: "int \<Rightarrow> hm_key \<Rightarrow> hashmap_entry list \<Rightarrow> hashmap_entry list" where
  "unlink_entry ty key [] = []"
| "unlink_entry ty key (e # es) =
     (if hashmap_key_equal ty (e_key e) key then es else e # unlink_entry ty key es)"

definition set_bucket :: "hashmap \<Rightarrow> hm_key \<Rightarrow> hashmap_entry list \<Rightarrow> hashmap" where
  "set_bucket m key b = m\<lparr>buckets := (buckets m)[bucket_index m key := b]\<rparr>"

definition hashmap_put :: "hashmap \<Rightarrow> heap \<Rightarrow> hm_key \<Rightarrow> addr \<Rightarrow> (hashmap \<times> heap) option" where
  "hashmap_put m h key value = do {
     bucket \<leftarrow> hashmap_bucket m key;
     case find_entry (key_type m) key bucket of
       Some e \<Rightarrow> Some (set_bucket m key (set_entry (key_type m) key value bucket), h)
     | None \<Rightarrow> do {
         (p, h) \<leftarrow> heap_malloc h 32;
         if p = 0 then None
         else Some (set_bucket m key (\<lparr>e_addr = p, e_key = key, e_value = value\<rparr> # bucket), h) } }"

definition hashmap_get :: "hashmap \<Rightarrow> hm_key \<Rightarrow> addr option" where
  "hashmap_get m key = do {
     bucket \<leftarrow> hashmap_bucket m key;
     Some (case find_entry (key_type m) key bucket of Some e \<Rightarrow> e_value e | None \<Rightarrow> 0) }"

definition hashmap_remove :: "hashmap \<Rightarrow> heap \<Rightarrow> hm_key \<Rightarrow> (bool \<times> hashmap \<times> heap) option" where
  "hashmap_remove m h key = do {
     bucket \<leftarrow> hashmap_bucket m key;
     case find_entry (key_type m) key bucket of
       Some e \<Rightarrow> do {
         h \<leftarrow> heap_free h (e_addr e);
         Some (True, set_bucket m key (unlink_entry (key_type m) key bucket), h) }
     | None \<Rightarrow> Some (False, m, h) }"

definition hashmap_contains :: "hashmap \<Rightarrow> hm_key \<Rightarrow> bool option" where
  "hashmap_contains m key = do {
     bucket \<leftarrow> hashmap_bucket m key;
     Some (find_entry (key_type m) key bucket \<noteq> None) }"

primrec free_bucket :: "heap \<Rightarrow> hashmap_entry list \<Rightarrow> heap option" where
  "free_bucket h [] = Some h"
| "free_bucket h (e # es) = do { h \<leftarrow> heap_free h (e_addr e); free_bucket h es }"

primrec free_buckets :: "heap \<Rightarrow> hashmap_entry list list \<Rightarrow> heap option" where
  "free_buckets h [] = Some h"
| "free_buckets h (b # bs) = do { h \<leftarrow> free_bucket h b; free_buckets h bs }"

definition hashmap_destroy :: "hashmap \<Rightarrow> heap \<Rightarrow> (hashmap \<times> heap) option" where
  "hashmap_destroy m h =
     (if buckets_at m = 0 then Some (m, h)
      else do {
        h \<leftarrow> free_buckets h (buckets m);
        h \<leftarrow> heap_free h (buckets_at m);
        Some (m\<lparr>buckets_at := 0, bucket_count := 0, buckets := []\<rparr>, h) })"

definition hashmap_clear :: "hashmap \<Rightarrow> heap \<Rightarrow> (hashmap \<times> heap) option" where
  "hashmap_clear m h = do {
     h \<leftarrow> free_buckets h (buckets m);
     Some (m\<lparr>buckets := map (\<lambda>_. []) (buckets m)\<rparr>, h) }"

section \<open>Representation\<close>

text \<open>What identifies a key in a map of a given type, and the abstract map.\<close>

definition key_id :: "hashmap \<Rightarrow> hm_key \<Rightarrow> u64 \<times> bytes" where
  "key_id m k = (if key_type m = HASHMAP_KEY_STRING then (0, k_chars k) else (k_word k, []))"

definition hm_entries :: "hashmap \<Rightarrow> hashmap_entry list" where
  "hm_entries m = concat (buckets m)"

definition pairs :: "hashmap \<Rightarrow> hashmap_entry list \<Rightarrow> ((u64 \<times> bytes) \<times> addr) list" where
  "pairs m es = map (\<lambda>e. (key_id m (e_key e), e_value e)) es"

definition hm_abs :: "hashmap \<Rightarrow> u64 \<times> bytes \<Rightarrow> addr option" where
  "hm_abs m = map_of (pairs m (hm_entries m))"

definition hm_addrs :: "hashmap \<Rightarrow> addr set" where
  "hm_addrs m = insert (buckets_at m) (e_addr ` set (hm_entries m))"

text \<open>Every entry is in the bucket that its key selects.\<close>

primrec placed :: "(hm_key \<Rightarrow> nat) \<Rightarrow> nat \<Rightarrow> hashmap_entry list list \<Rightarrow> bool" where
  "placed f i [] \<longleftrightarrow> True"
| "placed f i (b # bs) \<longleftrightarrow> (\<forall>e \<in> set b. f (e_key e) = i) \<and> placed f (Suc i) bs"

definition hm_inv :: "hashmap \<Rightarrow> bool" where
  "hm_inv m \<longleftrightarrow> key_type m \<in> {1, 2, 3} \<and> buckets_at m \<noteq> 0 \<and>
     (\<exists>k < 60. bucket_count m = 2 ^ k) \<and> length (buckets m) = unat (bucket_count m) \<and>
     placed (bucket_index m) 0 (buckets m) \<and>
     distinct (map fst (pairs m (hm_entries m))) \<and>
     distinct (buckets_at m # map e_addr (hm_entries m))"

text \<open>The map \<open>m\<close> in a heap that also holds the blocks of \<open>F\<close>.\<close>

definition hm_ok :: "addr set \<Rightarrow> hashmap \<Rightarrow> heap \<Rightarrow> bool" where
  "hm_ok F m h \<longleftrightarrow> hm_inv m \<and> heap_owns h (F \<union> hm_addrs m) \<and> F \<inter> hm_addrs m = {}"


section \<open>Lemmas on keys and buckets\<close>

lemma pairs_simps [simp]:
  "pairs m [] = []" "pairs m (e # es) = (key_id m (e_key e), e_value e) # pairs m es"
  "pairs m (es @ fs) = pairs m es @ pairs m fs"
  by (simp_all add: pairs_def)

lemma pairs_ids: "i \<in> fst ` set (pairs m es) \<longleftrightarrow> (\<exists>e \<in> set es. key_id m (e_key e) = i)"
  by (auto simp: pairs_def image_iff)

lemma key_equal_iff: "key_type m \<in> {1, 2, 3} \<Longrightarrow>
    hashmap_key_equal (key_type m) a b \<longleftrightarrow> key_id m a = key_id m b"
  by (auto simp: hashmap_key_equal_def key_id_def HASHMAP_KEY_STRING_def HASHMAP_KEY_INT_def
      HASHMAP_KEY_PTR_def)

lemma key_id_index: "key_id m a = key_id m b \<Longrightarrow> bucket_index m a = bucket_index m b"
  by (auto simp: bucket_index_def hashmap_hash_def key_id_def split: if_splits)

lemma key_fields [simp]:
  "key_id (m\<lparr>buckets := bs\<rparr>) k = key_id m k" "pairs (m\<lparr>buckets := bs\<rparr>) es = pairs m es" "bucket_index (m\<lparr>buckets := bs\<rparr>) k = bucket_index m k"
  by (simp_all add: key_id_def bucket_index_def pairs_def)

lemma unat_and_mask: "k < 64 \<Longrightarrow> unat ((w :: u64) AND (2 ^ k - 1)) < 2 ^ k"
proof -
  have "w AND (2 ^ k - 1) = take_bit k w" by (simp add: take_bit_eq_mask mask_eq_exp_minus_1)
  then show ?thesis by (simp add: unsigned_take_bit_eq)
qed

lemma bucket_index_less: "hm_inv m \<Longrightarrow> bucket_index m k < length (buckets m)"
  using unat_and_mask unat_pow_u64 by (auto simp: hm_inv_def bucket_index_def)

lemma find_entry_None: "find_entry ty k es = None \<longleftrightarrow> (\<forall>e \<in> set es. \<not> hashmap_key_equal ty (e_key e) k)"
  by (induction es) auto

lemma find_entry_Some:
  assumes "find_entry ty k es = Some e"
  shows "\<exists>b1 b2. es = b1 @ e # b2 \<and> hashmap_key_equal ty (e_key e) k \<and>
    set_entry ty k v es = b1 @ e\<lparr>e_value := v\<rparr> # b2 \<and> unlink_entry ty k es = b1 @ b2"
  using assms
proof (induction es)
  case (Cons x es)
  show ?case
  proof (cases "hashmap_key_equal ty (e_key x) k")
    case True
    with Cons.prems show ?thesis by (intro exI [of _ "[]"] exI [of _ es]) simp
  next
    case False
    with Cons obtain b1 b2 where "es = b1 @ e # b2" "hashmap_key_equal ty (e_key e) k"
      "set_entry ty k v es = b1 @ e\<lparr>e_value := v\<rparr> # b2" "unlink_entry ty k es = b1 @ b2" by auto
    with False show ?thesis by (intro exI [of _ "x # b1"] exI [of _ b2]) simp
  qed
qed simp

lemma hm_split:
  assumes "hm_inv m"
  obtains xs b ys where "buckets m = xs @ b # ys" "length xs = bucket_index m k"
    "hashmap_bucket m k = Some b" "\<forall>b'. set_bucket m k b' = m\<lparr>buckets := xs @ b' # ys\<rparr>"
proof
  let ?i = "bucket_index m k"
  have i: "?i < length (buckets m)" using bucket_index_less [OF assms] .
  show "buckets m = take ?i (buckets m) @ buckets m ! ?i # drop (Suc ?i) (buckets m)"
    using id_take_nth_drop [OF i] .
  show "length (take ?i (buckets m)) = ?i" using i by simp
  show "hashmap_bucket m k = Some (buckets m ! ?i)"
    using assms i by (auto simp: hashmap_bucket_def hm_inv_def)
  show "\<forall>b'. set_bucket m k b' = m\<lparr>buckets := take ?i (buckets m) @ b' # drop (Suc ?i) (buckets m)\<rparr>"
    using i by (simp add: set_bucket_def upd_conv_take_nth_drop)
qed

lemma placed_append: "placed f i (xs @ ys) \<longleftrightarrow> placed f i xs \<and> placed f (i + length xs) ys"
  by (induction xs arbitrary: i) auto

lemma placed_bounds:
  "placed f i bs \<Longrightarrow> e \<in> set (concat bs) \<Longrightarrow> i \<le> f (e_key e) \<and> f (e_key e) < i + length bs"
  by (induction bs arbitrary: i) fastforce+

lemma bucket_index_fun [simp]: "bucket_index (m\<lparr>buckets := bs\<rparr>) = bucket_index m"
  by (simp add: fun_eq_iff)

text \<open>The invariant and the abstract map, on the bucket that a key selects.\<close>

lemma hm_inv_bucket:
  "hm_inv (m\<lparr>buckets := xs @ b # ys\<rparr>) \<longleftrightarrow> key_type m \<in> {1, 2, 3} \<and> buckets_at m \<noteq> 0 \<and>
     (\<exists>k < 60. bucket_count m = 2 ^ k) \<and> Suc (length xs + length ys) = unat (bucket_count m) \<and>
     placed (bucket_index m) 0 xs \<and> (\<forall>e \<in> set b. bucket_index m (e_key e) = length xs) \<and>
     placed (bucket_index m) (Suc (length xs)) ys \<and>
     distinct (map fst (pairs m (concat xs @ b @ concat ys))) \<and>
     distinct (buckets_at m # map e_addr (concat xs @ b @ concat ys))"
  by (auto simp: hm_inv_def hm_entries_def placed_append)

lemma hm_same_bucket:
  assumes "hm_inv m" "buckets m = xs @ b # ys" "length xs = bucket_index m k"
    "e \<in> set (concat xs @ concat ys)"
  shows "key_id m (e_key e) \<noteq> key_id m k"
proof
  assume eq: "key_id m (e_key e) = key_id m k"
  have "hm_inv (m\<lparr>buckets := xs @ b # ys\<rparr>)" using assms(1,2) by (metis hashmap.surjective hashmap.update_convs(4))
  then have "placed (bucket_index m) 0 xs" "placed (bucket_index m) (Suc (length xs)) ys"
    unfolding hm_inv_bucket by blast+
  then have "bucket_index m (e_key e) \<noteq> length xs"
    using placed_bounds assms(4) by fastforce
  then show False using key_id_index [OF eq] assms(3) by simp
qed

lemma map_of_mid:
  "i \<notin> fst ` set X \<Longrightarrow> map_of (X @ (i, v) # Y) = (map_of (X @ Y))(i \<mapsto> v)"
  by (induction X) (auto simp: fun_eq_iff)

lemma map_of_drop:
  "i \<notin> fst ` set (X @ Y) \<Longrightarrow> map_of (X @ Y) = (map_of (X @ (i, v) # Y))(i := None)"
  by (induction X) (force simp: fun_eq_iff map_of_eq_None_iff)+


text \<open>The two outcomes of the search: the key is nowhere, or in one place.\<close>

lemma buckets_id: "buckets m = bs \<Longrightarrow> m\<lparr>buckets := bs\<rparr> = m"
  by auto

lemma hm_abs_assoc: "buckets m = xs @ b # ys \<Longrightarrow>
    hm_abs m = map_of (pairs m (concat xs @ b @ concat ys))"
  by (simp add: hm_abs_def hm_entries_def)

lemma hm_search:
  assumes inv: "hm_inv m" and b: "buckets m = xs @ b # ys" "length xs = bucket_index m k"
  shows "find_entry (key_type m) k b = None \<Longrightarrow>
      key_id m k \<notin> fst ` set (pairs m (concat xs @ b @ concat ys))"
    and "find_entry (key_type m) k b = Some e \<Longrightarrow>
      \<exists>b1 b2. b = b1 @ e # b2 \<and> key_id m (e_key e) = key_id m k \<and>
        set_entry (key_type m) k v b = b1 @ e\<lparr>e_value := v\<rparr> # b2 \<and>
        unlink_entry (key_type m) k b = b1 @ b2 \<and>
        key_id m k \<notin> fst ` set (pairs m (concat xs @ b1 @ b2 @ concat ys))"
proof -
  have ty: "key_type m \<in> {1, 2, 3}" using inv by (simp add: hm_inv_def)
  note eq = key_equal_iff [OF ty]
  have out: "key_id m k \<notin> fst ` set (pairs m (concat xs @ concat ys))"
    using hm_same_bucket [OF inv b] unfolding pairs_ids by blast
  show "key_id m k \<notin> fst ` set (pairs m (concat xs @ b @ concat ys))"
    if "find_entry (key_type m) k b = None"
    using that out unfolding pairs_ids find_entry_None eq by auto
  show "\<exists>b1 b2. b = b1 @ e # b2 \<and> key_id m (e_key e) = key_id m k \<and>
      set_entry (key_type m) k v b = b1 @ e\<lparr>e_value := v\<rparr> # b2 \<and> unlink_entry (key_type m) k b = b1 @ b2 \<and>
      key_id m k \<notin> fst ` set (pairs m (concat xs @ b1 @ b2 @ concat ys))"
    if "find_entry (key_type m) k b = Some e"
  proof -
    from find_entry_Some [OF that, of v] obtain b1 b2 where
      s: "b = b1 @ e # b2" "key_id m (e_key e) = key_id m k"
        "set_entry (key_type m) k v b = b1 @ e\<lparr>e_value := v\<rparr> # b2" "unlink_entry (key_type m) k b = b1 @ b2"
      unfolding eq by blast
    have "distinct (map fst (pairs m (concat xs @ (b1 @ e # b2) @ concat ys)))"
      using inv b(1) s(1) by (simp add: hm_inv_def hm_entries_def)
    then have "key_id m k \<notin> fst ` set (pairs m (b1 @ b2))" using s(2) by auto
    with out s show ?thesis by (intro exI [of _ b1] exI [of _ b2]) auto
  qed
qed

lemma hm_get_abs:
  assumes "hm_inv m"
  shows "hashmap_get m k = Some (case hm_abs m (key_id m k) of None \<Rightarrow> 0 | Some v \<Rightarrow> v)"
    "hashmap_contains m k = Some (hm_abs m (key_id m k) \<noteq> None)"
proof -
  obtain xs b ys where b: "buckets m = xs @ b # ys" "length xs = bucket_index m k"
    "hashmap_bucket m k = Some b" "\<forall>b'. set_bucket m k b' = m\<lparr>buckets := xs @ b' # ys\<rparr>"
    by (rule hm_split [OF assms, of k])
  have "hm_abs m (key_id m k) = map_option e_value (find_entry (key_type m) k b)"
  proof (cases "find_entry (key_type m) k b")
    case None
    then show ?thesis using hm_search(1) [OF assms b(1,2) None]
      unfolding hm_abs_assoc [OF b(1)] map_of_eq_None_iff [symmetric] by simp
  next
    case (Some e)
    from hm_search(2) [OF assms b(1,2) Some] obtain b1 b2 where
      "b = b1 @ e # b2" "key_id m (e_key e) = key_id m k"
      "key_id m k \<notin> fst ` set (pairs m (concat xs @ b1 @ b2 @ concat ys))" by blast
    then show ?thesis unfolding hm_abs_assoc [OF b(1)] Some
      using map_of_mid [of "key_id m k" "pairs m (concat xs @ b1)" "e_value e" "pairs m (b2 @ concat ys)"]
      by (simp add: image_Un del: map_of_append)
  qed
  then show "hashmap_get m k = Some (case hm_abs m (key_id m k) of None \<Rightarrow> 0 | Some v \<Rightarrow> v)"
    "hashmap_contains m k = Some (hm_abs m (key_id m k) \<noteq> None)"
    using b(3) by (auto simp: hashmap_get_def hashmap_contains_def split: option.splits)
qed


lemma hm_inv_at: "buckets m = xs @ b # ys \<Longrightarrow> hm_inv m = hm_inv (m\<lparr>buckets := xs @ b # ys\<rparr>)"
  by (metis buckets_id)

lemma hm_addrs_bucket:
  "hm_addrs (m\<lparr>buckets := xs @ b # ys\<rparr>) =
     insert (buckets_at m) (e_addr ` set (concat xs) \<union> e_addr ` set b \<union> e_addr ` set (concat ys))"
  by (auto simp: hm_addrs_def hm_entries_def)

lemma hm_abs_bucket:
  "hm_abs (m\<lparr>buckets := xs @ b # ys\<rparr>) = map_of (pairs m (concat xs @ b @ concat ys))"
  by (simp add: hm_abs_def hm_entries_def)

text \<open>The effect of each change of a bucket on the invariant, the footprint and the contents.\<close>

lemma hm_set_effect:
  fixes v :: addr
  assumes "hm_inv (m\<lparr>buckets := xs @ (b1 @ e # b2) # ys\<rparr>)" "key_id m (e_key e) = i"
    "i \<notin> fst ` set (pairs m (concat xs @ b1 @ b2 @ concat ys))"
  defines "m' \<equiv> m\<lparr>buckets := xs @ (b1 @ e\<lparr>e_value := v\<rparr> # b2) # ys\<rparr>"
  shows "hm_inv m'" "hm_addrs m' = hm_addrs (m\<lparr>buckets := xs @ (b1 @ e # b2) # ys\<rparr>)"
    "hm_abs m' = (hm_abs (m\<lparr>buckets := xs @ (b1 @ e # b2) # ys\<rparr>))(i \<mapsto> v)"
proof -
  show "hm_inv m'" using assms(1) unfolding m'_def hm_inv_bucket by simp
  show "hm_addrs m' = hm_addrs (m\<lparr>buckets := xs @ (b1 @ e # b2) # ys\<rparr>)"
    unfolding m'_def hm_addrs_bucket by simp
  show "hm_abs m' = (hm_abs (m\<lparr>buckets := xs @ (b1 @ e # b2) # ys\<rparr>))(i \<mapsto> v)"
    unfolding m'_def hm_abs_bucket
    using map_of_mid [of i "pairs m (concat xs @ b1)" _ "pairs m (b2 @ concat ys)"] assms(2,3)
    by (simp add: image_Un del: map_of_append)
qed

lemma hm_unlink_effect:
  assumes "hm_inv (m\<lparr>buckets := xs @ (b1 @ e # b2) # ys\<rparr>)" "key_id m (e_key e) = i"
    "i \<notin> fst ` set (pairs m (concat xs @ b1 @ b2 @ concat ys))"
  defines "m' \<equiv> m\<lparr>buckets := xs @ (b1 @ b2) # ys\<rparr>"
  shows "hm_inv m'" "hm_addrs m' = hm_addrs (m\<lparr>buckets := xs @ (b1 @ e # b2) # ys\<rparr>) - {e_addr e}"
    "e_addr e \<in> hm_addrs (m\<lparr>buckets := xs @ (b1 @ e # b2) # ys\<rparr>)"
    "hm_abs m' = (hm_abs (m\<lparr>buckets := xs @ (b1 @ e # b2) # ys\<rparr>))(i := None)"
proof -
  show "hm_inv m'" using assms(1) unfolding m'_def hm_inv_bucket by simp
  show "e_addr e \<in> hm_addrs (m\<lparr>buckets := xs @ (b1 @ e # b2) # ys\<rparr>)"
    unfolding hm_addrs_bucket by simp
  have "distinct (buckets_at m # map e_addr (concat xs @ (b1 @ e # b2) @ concat ys))"
    using assms(1) unfolding hm_inv_bucket by blast
  then have "e_addr e \<notin> insert (buckets_at m)
      (e_addr ` set (concat xs) \<union> e_addr ` set (b1 @ b2) \<union> e_addr ` set (concat ys))" by auto
  then show "hm_addrs m' = hm_addrs (m\<lparr>buckets := xs @ (b1 @ e # b2) # ys\<rparr>) - {e_addr e}"
    unfolding m'_def hm_addrs_bucket by auto
  show "hm_abs m' = (hm_abs (m\<lparr>buckets := xs @ (b1 @ e # b2) # ys\<rparr>))(i := None)"
    unfolding m'_def hm_abs_bucket
    using map_of_drop [of i "pairs m (concat xs @ b1)" "pairs m (b2 @ concat ys)" "e_value e"] assms(2,3)
    by (simp add: image_Un del: map_of_append)
qed

lemma hm_add_effect:
  fixes v :: addr
  assumes "hm_inv (m\<lparr>buckets := xs @ b # ys\<rparr>)" "length xs = bucket_index m k"
    "key_id m k \<notin> fst ` set (pairs m (concat xs @ b @ concat ys))"
    "p \<notin> hm_addrs (m\<lparr>buckets := xs @ b # ys\<rparr>)"
  defines "m' \<equiv> m\<lparr>buckets := xs @ (\<lparr>e_addr = p, e_key = k, e_value = v\<rparr> # b) # ys\<rparr>"
  shows "hm_inv m'" "hm_addrs m' = insert p (hm_addrs (m\<lparr>buckets := xs @ b # ys\<rparr>))"
    "hm_abs m' = (hm_abs (m\<lparr>buckets := xs @ b # ys\<rparr>))(key_id m k \<mapsto> v)"
proof -
  show "hm_inv m'"
    using assms(1-4) unfolding m'_def hm_inv_bucket hm_addrs_bucket by (auto simp: image_Un)
  show "hm_addrs m' = insert p (hm_addrs (m\<lparr>buckets := xs @ b # ys\<rparr>))"
    unfolding m'_def hm_addrs_bucket by auto
  show "hm_abs m' = (hm_abs (m\<lparr>buckets := xs @ b # ys\<rparr>))(key_id m k \<mapsto> v)"
    unfolding m'_def hm_abs_bucket
    using map_of_mid [of "key_id m k" "pairs m (concat xs)" v "pairs m (b @ concat ys)"] assms(3)
    by (simp add: image_Un del: map_of_append)
qed


section \<open>The operations\<close>

lemma hm_ok_owns: "hm_ok F m h \<longleftrightarrow> hm_inv m \<and> heap_owns h (F \<union> hm_addrs m) \<and> F \<inter> hm_addrs m = {}"
  by (simp add: hm_ok_def)

lemma hm_inv_id: "hm_inv m \<Longrightarrow> m' = m \<Longrightarrow> hm_inv m'"
  by simp

lemma hm_put:
  assumes ok: "hm_ok F m h"
  shows "(\<exists>m' h'. hashmap_put m h k v = Some (m', h') \<and> hm_ok F m' h' \<and>
      hm_abs m' = (hm_abs m)(key_id m k \<mapsto> v) \<and> key_type m' = key_type m) \<or>
    (hashmap_put m h k v = None \<and> hm_abs m (key_id m k) = None \<and> (\<exists>h'. heap_malloc h 32 = Some (0, h')))"
proof -
  from ok have inv: "hm_inv m" and own: "heap_owns h (F \<union> hm_addrs m)" "F \<inter> hm_addrs m = {}"
    by (auto simp: hm_ok_def)
  obtain xs b ys where b: "buckets m = xs @ b # ys" "length xs = bucket_index m k"
    "hashmap_bucket m k = Some b" "\<forall>b'. set_bucket m k b' = m\<lparr>buckets := xs @ b' # ys\<rparr>"
    by (rule hm_split [OF inv, of k])
  have m: "m\<lparr>buckets := xs @ b # ys\<rparr> = m" using buckets_id [OF b(1)] .
  show ?thesis
  proof (cases "find_entry (key_type m) k b")
    case None
    note out = hm_search(1) [OF inv b(1,2) None]
    have n: "(32 :: nat) < 2 ^ 63" by simp
    from own(1) n show ?thesis
    proof (cases rule: hp.alloc_cases)
      case (null h')
      have "hm_abs m (key_id m k) = None"
        unfolding hm_abs_assoc [OF b(1)] using out by (simp only: map_of_eq_None_iff) simp
      then show ?thesis using null b(3) None by (auto simp: hashmap_put_def)
    next
      case (fresh p h')
      have p: "p \<notin> hm_addrs (m\<lparr>buckets := xs @ b # ys\<rparr>)" using fresh(3) unfolding m by blast
      note eff = hm_add_effect [OF hm_inv_id [OF inv m] b(2) out p, of v, unfolded m]
      have "hashmap_put m h k v = Some (m\<lparr>buckets := xs @ (\<lparr>e_addr = p, e_key = k, e_value = v\<rparr> # b) # ys\<rparr>, h')"
        using fresh b(3,4) None by (simp add: hashmap_put_def)
      then show ?thesis using eff fresh(3,4) own(2) by (auto simp: hm_ok_def insert_commute)
    qed
  next
    case (Some e)
    from hm_search(2) [OF inv b(1,2) Some, of v] obtain b1 b2 where
      s: "b = b1 @ e # b2" "key_id m (e_key e) = key_id m k"
      "set_entry (key_type m) k v b = b1 @ e\<lparr>e_value := v\<rparr> # b2"
      "key_id m k \<notin> fst ` set (pairs m (concat xs @ b1 @ b2 @ concat ys))" by blast
    have m': "m\<lparr>buckets := xs @ (b1 @ e # b2) # ys\<rparr> = m" using m s(1) by simp
    note eff = hm_set_effect [OF hm_inv_id [OF inv m'] s(2,4), of v, unfolded m']
    have "hashmap_put m h k v = Some (m\<lparr>buckets := xs @ (b1 @ e\<lparr>e_value := v\<rparr> # b2) # ys\<rparr>, h)"
      using b(3,4) Some s(3) by (simp add: hashmap_put_def)
    then show ?thesis using eff own by (auto simp: hm_ok_def)
  qed
qed

lemma hm_remove:
  assumes ok: "hm_ok F m h"
  shows "\<exists>m' h'. hashmap_remove m h k = Some (hm_abs m (key_id m k) \<noteq> None, m', h') \<and> hm_ok F m' h' \<and>
    hm_abs m' = (hm_abs m)(key_id m k := None) \<and> key_type m' = key_type m"
proof -
  from ok have inv: "hm_inv m" and own: "heap_owns h (F \<union> hm_addrs m)" "F \<inter> hm_addrs m = {}"
    by (auto simp: hm_ok_def)
  obtain xs b ys where b: "buckets m = xs @ b # ys" "length xs = bucket_index m k"
    "hashmap_bucket m k = Some b" "\<forall>b'. set_bucket m k b' = m\<lparr>buckets := xs @ b' # ys\<rparr>"
    by (rule hm_split [OF inv, of k])
  have m: "m\<lparr>buckets := xs @ b # ys\<rparr> = m" using buckets_id [OF b(1)] .
  have c: "(hm_abs m (key_id m k) \<noteq> None) = (find_entry (key_type m) k b \<noteq> None)"
    using hm_get_abs(2) [OF inv, of k] b(3) by (simp add: hashmap_contains_def)
  show ?thesis
  proof (cases "find_entry (key_type m) k b")
    case None
    with c have "hm_abs m (key_id m k) = None" by simp
    then show ?thesis using ok None b(3) by (auto simp: hashmap_remove_def)
  next
    case (Some e)
    from hm_search(2) [OF inv b(1,2) Some] obtain b1 b2 where
      s: "b = b1 @ e # b2" "key_id m (e_key e) = key_id m k" "unlink_entry (key_type m) k b = b1 @ b2"
      "key_id m k \<notin> fst ` set (pairs m (concat xs @ b1 @ b2 @ concat ys))" by blast
    have m': "m\<lparr>buckets := xs @ (b1 @ e # b2) # ys\<rparr> = m" using m s(1) by simp
    note eff = hm_unlink_effect [OF hm_inv_id [OF inv m'] s(2,4), unfolded m']
    from hp.release_owns [OF own(1), of "e_addr e"] eff(3) obtain h' where
      h': "heap_free h (e_addr e) = Some h'" "heap_owns h' (F \<union> hm_addrs m - {e_addr e})" by blast
    have "F \<union> hm_addrs m - {e_addr e} = F \<union> (hm_addrs m - {e_addr e})" using eff(3) own(2) by blast
    moreover have "hashmap_remove m h k = Some (True, m\<lparr>buckets := xs @ (b1 @ b2) # ys\<rparr>, h')"
      using b(3,4) Some s(3) h'(1) by (simp add: hashmap_remove_def)
    ultimately show ?thesis using eff h'(2) own(2) c Some by (auto simp: hm_ok_def)
  qed
qed


lemma next_power_of_two_eq: "next_power_of_two x = next_power_of_two_u64 x"
proof (cases "x \<le> 1")
  case False
  then have "x - 1 \<noteq> 0" by auto
  then have "0 < bit_width (unat (x - 1))" using bit_width_pos by (simp add: unat_gt_0)
  then show ?thesis using False \<open>x - 1 \<noteq> 0\<close> bit_width_u64 [of "x - 1"]
    by (auto simp: next_power_of_two_def next_power_of_two_u64_def log2_clz64_def clz64_def)
qed (simp add: next_power_of_two_def next_power_of_two_u64_def)

lemma next_power_cap:
  assumes "unat n \<le> 2 ^ c" "c \<le> 63"
  shows "\<exists>k \<le> c. next_power_of_two n = Some (2 ^ k)"
proof (cases "1 < n")
  case True
  have "bit_width (unat n - 1) \<le> c" using assms True
    by (simp add: bit_width_le_iff word_less_nat_alt)
  moreover have "unat n \<le> 2 ^ 63" using assms power_increasing [of c 63 "2 :: nat"] by simp
  ultimately show ?thesis using next_power_of_two_u64_eq [OF True] by (auto simp: next_power_of_two_eq)
next
  case False
  then have "n \<le> 1" by (simp add: not_less)
  then show ?thesis by (intro exI [of _ 0]) (simp add: next_power_of_two_def)
qed

lemma placed_replicate: "placed f i (replicate n [])"
  by (induction n arbitrary: i) auto

lemma hm_entries_replicate [simp]: "concat (replicate n []) = []"
  by (induction n) auto

lemma hm_init:
  assumes own: "heap_owns h F" and n: "unat n \<le> 2 ^ 32" and ty: "ty \<in> {1, 2, 3}"
  shows "(\<exists>m h'. hashmap_init h n ty = Some (m, h') \<and> hm_ok F m h' \<and> hm_abs m = Map.empty \<and>
      key_type m = ty) \<or>
    (hashmap_init h n ty = None \<and>
     (\<exists>count h'. next_power_of_two n = Some count \<and> heap_malloc h (16 * unat count) = Some (0, h')))"
proof -
  from next_power_cap [OF n] obtain k where k: "k \<le> 32" "next_power_of_two n = Some (2 ^ k)" by auto
  have u: "unat ((2 :: u64) ^ k) = 2 ^ k" using k(1) by (simp add: unat_pow_u64)
  have "(2 :: nat) ^ k \<le> 2 ^ 32" using power_increasing [OF k(1), of "2 :: nat"] by simp
  then have u16: "unat (16 * (2 :: u64) ^ k) = 16 * 2 ^ k"
    using u by (simp add: unat_word_ariths)
  have lim: "16 * 2 ^ k < (2 :: nat) ^ 63" using \<open>(2 :: nat) ^ k \<le> 2 ^ 32\<close> by simp
  from own lim show ?thesis
  proof (cases rule: hp.alloc_cases)
    case (null h')
    then show ?thesis using k u u16 by (simp add: hashmap_init_def)
  next
    case (fresh p h')
    let ?m = "\<lparr>buckets_at = p, bucket_count = 2 ^ k, key_type = ty, buckets = replicate (2 ^ k) []\<rparr>"
    have "hashmap_init h n ty = Some (?m, h')" using fresh k u u16 by (simp add: hashmap_init_def)
    moreover have "hm_inv ?m" using ty fresh(2) k(1) u
      by (auto simp: hm_inv_def placed_replicate hm_entries_def intro!: exI [of _ k])
    moreover have "hm_addrs ?m = {p}" by (simp add: hm_addrs_def hm_entries_def)
    ultimately show ?thesis using fresh by (auto simp: hm_ok_def hm_abs_def hm_entries_def)
  qed
qed

lemma free_bucket_release: "free_bucket h es = release_list heap_free h (map e_addr es)"
  by (induction es arbitrary: h) (auto split: option.splits bind_splits)

lemma free_buckets_release: "free_buckets h bs = release_list heap_free h (map e_addr (concat bs))"
  by (induction bs arbitrary: h) (simp_all add: free_bucket_release release_list_append)

lemma concat_map_Nil [simp]: "concat (map (\<lambda>_. []) bs) = []"
  by (induction bs) auto

lemma hm_free_all:
  assumes "hm_ok F m h"
  shows "\<exists>h'. free_buckets h (buckets m) = Some h' \<and> heap_owns h' (insert (buckets_at m) F)"
proof -
  from assms have inv: "distinct (buckets_at m # map e_addr (hm_entries m))"
    and own: "heap_owns h (F \<union> hm_addrs m)" "F \<inter> hm_addrs m = {}" by (auto simp: hm_ok_def hm_inv_def)
  have "F \<union> hm_addrs m - set (map e_addr (hm_entries m)) = insert (buckets_at m) F"
    using inv own(2) by (auto simp: hm_addrs_def)
  with hp.release_list_owns [OF own(1), of "map e_addr (hm_entries m)"] inv show ?thesis
    unfolding free_buckets_release hm_entries_def by (auto simp: hm_addrs_def hm_entries_def)
qed

lemma placed_empty: "placed f i (map (\<lambda>_. []) bs)"
  by (induction bs arbitrary: i) auto

lemma hm_clear:
  assumes "hm_ok F m h"
  shows "\<exists>m' h'. hashmap_clear m h = Some (m', h') \<and> hm_ok F m' h' \<and> hm_abs m' = Map.empty"
proof -
  from hm_free_all [OF assms] obtain h' where h': "free_buckets h (buckets m) = Some h'"
    "heap_owns h' (insert (buckets_at m) F)" by blast
  let ?m = "m\<lparr>buckets := map (\<lambda>_. []) (buckets m)\<rparr>"
  have "hm_addrs ?m = {buckets_at m}" by (simp add: hm_addrs_def hm_entries_def)
  moreover have "hm_inv ?m"
    using assms by (simp add: hm_ok_def hm_inv_def hm_entries_def placed_empty)
  moreover have "buckets_at m \<notin> F" using assms by (auto simp: hm_ok_def hm_addrs_def)
  ultimately show ?thesis using h' by (simp add: hashmap_clear_def hm_ok_def hm_abs_def hm_entries_def)
qed

lemma hm_destroy:
  assumes "hm_ok F m h"
  shows "\<exists>m' h'. hashmap_destroy m h = Some (m', h') \<and> heap_owns h' F \<and> buckets m' = [] \<and> buckets_at m' = 0"
proof -
  from hm_free_all [OF assms] obtain h' where h': "free_buckets h (buckets m) = Some h'"
    "heap_owns h' (insert (buckets_at m) F)" by blast
  have b: "buckets_at m \<notin> F" "buckets_at m \<noteq> 0"
    using assms by (auto simp: hm_ok_def hm_addrs_def hm_inv_def)
  from hp.release_owns [OF h'(2), of "buckets_at m"] b(1) obtain h'' where
    "heap_free h' (buckets_at m) = Some h''" "heap_owns h'' F" by auto
  with h'(1) b(2) show ?thesis by (simp add: hashmap_destroy_def)
qed


section \<open>The interface: a dictionary in a shared heap\<close>

text \<open>\<open>ok F m h\<close>: the dictionary \<open>m\<close> lives in the heap \<open>h\<close>, beside the blocks of \<open>F\<close>.\<close>

locale dictionary =
  fixes ok :: "addr set \<Rightarrow> 'm \<Rightarrow> heap \<Rightarrow> bool"
    and contents :: "'m \<Rightarrow> 'i \<Rightarrow> addr option"
    and ident :: "'m \<Rightarrow> 'k \<Rightarrow> 'i"
    and put :: "'m \<Rightarrow> heap \<Rightarrow> 'k \<Rightarrow> addr \<Rightarrow> ('m \<times> heap) option"
    and get :: "'m \<Rightarrow> 'k \<Rightarrow> addr option"
    and remove :: "'m \<Rightarrow> heap \<Rightarrow> 'k \<Rightarrow> (bool \<times> 'm \<times> heap) option"
  assumes put_ok: "ok F m h \<Longrightarrow> put m h k v = Some (m', h') \<Longrightarrow>
      ok F m' h' \<and> contents m' = (contents m)(ident m k \<mapsto> v) \<and> ident m' = ident m"
    and get_ok: "ok F m h \<Longrightarrow>
      get m k = Some (case contents m (ident m k) of None \<Rightarrow> 0 | Some v \<Rightarrow> v)"
    and remove_ok: "ok F m h \<Longrightarrow>
      \<exists>m' h'. remove m h k = Some (contents m (ident m k) \<noteq> None, m', h') \<and> ok F m' h' \<and>
        contents m' = (contents m)(ident m k := None) \<and> ident m' = ident m"
begin

lemma get_put:
  assumes "ok F m h" "put m h k v = Some (m', h')"
  shows "get m' k' = (if ident m k' = ident m k then Some v else get m k')"
  using put_ok [OF assms] get_ok [of F m' h' k'] get_ok [OF assms(1), of k'] by auto

lemma get_remove:
  assumes "ok F m h" "remove m h k = Some (r, m', h')"
  shows "get m' k' = (if ident m k' = ident m k then Some 0 else get m k')"
  using remove_ok [OF assms(1), of k] assms(2) get_ok [of F m' h' k'] get_ok [OF assms(1), of k'] by auto

lemma put_remove:
  assumes "ok F m h" "put m h k v = Some (m', h')" "contents m (ident m k) = None"
  shows "\<exists>m'' h''. remove m' h' k = Some (True, m'', h'') \<and> ok F m'' h'' \<and> contents m'' = contents m"
proof -
  note p = put_ok [OF assms(1,2)]
  from remove_ok [of F m' h' k] p obtain m'' h'' where
    "remove m' h' k = Some (True, m'', h'')" "ok F m'' h''" "contents m'' = (contents m')(ident m k := None)"
    by auto
  moreover have "(contents m')(ident m k := None) = contents m" using p assms(3) by (simp add: fun_eq_iff)
  ultimately show ?thesis by simp
qed

end

interpretation hm: dictionary hm_ok hm_abs key_id hashmap_put hashmap_get hashmap_remove
proof
  fix F m h k v m' h'
  assume "hm_ok F m h" "hashmap_put m h k v = Some (m', h')"
  with hm_put [of F m h k v] show "hm_ok F m' h' \<and> hm_abs m' = (hm_abs m)(key_id m k \<mapsto> v) \<and> key_id m' = key_id m"
    by (auto simp: key_id_def [abs_def])
next
  fix F m h k
  assume ok: "hm_ok F m h"
  then show "hashmap_get m k = Some (case hm_abs m (key_id m k) of None \<Rightarrow> 0 | Some v \<Rightarrow> v)"
    using hm_get_abs by (simp add: hm_ok_def)
  show "\<exists>m' h'. hashmap_remove m h k = Some (hm_abs m (key_id m k) \<noteq> None, m', h') \<and> hm_ok F m' h' \<and>
      hm_abs m' = (hm_abs m)(key_id m k := None) \<and> key_id m' = key_id m"
    using hm_remove [OF ok, of k] by (fastforce simp: key_id_def [abs_def])
qed

section \<open>Properties\<close>

text \<open>An empty map with four buckets and integer keys, in the heap of the examples.\<close>

lemma demo_map:
  "\<exists>m h. hashmap_init demo_heap 4 2 = Some (m, h) \<and> hm_ok {} m h \<and> hm_abs m = Map.empty \<and> key_type m = 2 \<and>
     heap_inv h [Blk 64 80 False, Blk 144 1048496 True]"
proof -
  have r: "malloc_round 64 = 80" by (simp add: malloc_round_def heap_struct_size_def sz_add_def)
  then obtain h where h: "heap_malloc demo_heap 64 = Some (80, h)" "heap_inv h [Blk 64 80 False, Blk 144 1048496 True]"
    using malloc_refines(2) [OF demo_heap_inv, of 64 64 "[Blk 64 80 False, Blk 144 1048496 True]"]
    by (auto simp: carve_def MIN_SIZE_def heap_struct_size_def heap_malloc_def)
  have n: "next_power_of_two 4 = Some 4" by code_simp
  from hm_init [OF demo_heap_owns, of 4 2] h(1) n obtain m h' where
    m: "hashmap_init demo_heap 4 2 = Some (m, h')" "hm_ok {} m h'" "hm_abs m = Map.empty" "key_type m = 2" by auto
  moreover have "h' = h" using m(1) h(1) n by (simp add: hashmap_init_def)
  ultimately show ?thesis using h(2) by auto
qed

lemma demo_map_put:
  "\<exists>m h m' h'. hashmap_init demo_heap 4 2 = Some (m, h) \<and> hm_ok {} m h \<and> key_type m = 2 \<and>
     hashmap_put m h \<lparr>k_word = 5, k_chars = []\<rparr> 99 = Some (m', h')"
proof -
  from demo_map obtain m h where m: "hashmap_init demo_heap 4 2 = Some (m, h)" "hm_ok {} m h" "key_type m = 2"
    "heap_inv h [Blk 64 80 False, Blk 144 1048496 True]" by auto
  have r: "malloc_round 32 = 48" by (simp add: malloc_round_def heap_struct_size_def sz_add_def)
  then obtain h2 where "heap_malloc h 32 = Some (160, h2)"
    using malloc_refines(2) [OF m(4), of 32 144 "[Blk 64 80 False, Blk 144 48 False, Blk 192 1048448 True]"]
    by (auto simp: carve_def MIN_SIZE_def heap_struct_size_def heap_malloc_def)
  with hm_put [OF m(2), of "\<lparr>k_word = 5, k_chars = []\<rparr>" 99] m show ?thesis by auto
qed

text \<open>C38. The hash map is a dictionary. While it shares the heap with the blocks of \<open>F\<close>, a put
  either binds the key and changes no other binding, or faults because the key is new and
  \<^verbatim>\<open>heap_malloc\<close> returned NULL, which \<^verbatim>\<open>hashmap_put\<close> does not check; a get returns the value
  bound, or NULL.\<close>

theorem hashmap_put_get:
  assumes "hm_ok F m h"
  shows "case hashmap_put m h k v of
      Some (m', h') \<Rightarrow> hm_ok F m' h' \<and>
        hashmap_get m' k' = (if key_id m k' = key_id m k then Some v else hashmap_get m k')
    | None \<Rightarrow> hashmap_contains m k = Some False \<and> (\<exists>h'. heap_malloc h 32 = Some (0, h'))"
  using hm_put [OF assms, of k v] hm.get_put [OF assms, of k v] hm_get_abs(2) [of m k] assms
  by (auto simp: hm_ok_def)

theorem hashmap_put_get_witness:
  "\<exists>m h m' h'. hashmap_init demo_heap 4 2 = Some (m, h) \<and>
     hashmap_put m h \<lparr>k_word = 5, k_chars = []\<rparr> 99 = Some (m', h') \<and>
     hashmap_get m' \<lparr>k_word = 5, k_chars = []\<rparr> = Some 99 \<and>
     hashmap_get m' \<lparr>k_word = 6, k_chars = []\<rparr> = hashmap_get m \<lparr>k_word = 6, k_chars = []\<rparr>"
proof -
  from demo_map_put obtain m h m' h' where m: "hashmap_init demo_heap 4 2 = Some (m, h)" "hm_ok {} m h"
    "key_type m = 2" "hashmap_put m h \<lparr>k_word = 5, k_chars = []\<rparr> 99 = Some (m', h')" by blast
  then show ?thesis using hashmap_put_get [OF m(2), where k = "\<lparr>k_word = 5, k_chars = []\<rparr>" and v = 99]
    by (auto simp: key_id_def HASHMAP_KEY_STRING_def)
qed

text \<open>\<^verbatim>\<open>hashmap_remove\<close> always returns, reports whether the key was bound, unbinds it and no
  other key, and gives the entry back to the heap: what stays allocated is \<open>F\<close> and the map.\<close>

theorem hashmap_remove_unbinds:
  assumes "hm_ok F m h"
  shows "\<exists>m' h'. hashmap_remove m h k = Some (hashmap_contains m k = Some True, m', h') \<and> hm_ok F m' h' \<and>
    (\<forall>k'. hashmap_get m' k' = (if key_id m k' = key_id m k then Some 0 else hashmap_get m k'))"
proof -
  from hm_remove [OF assms, of k] obtain m' h' where
    r: "hashmap_remove m h k = Some (hm_abs m (key_id m k) \<noteq> None, m', h')" "hm_ok F m' h'" by blast
  have "(hashmap_contains m k = Some True) = (hm_abs m (key_id m k) \<noteq> None)"
    using hm_get_abs(2) [of m k] assms by (simp add: hm_ok_def)
  with r hm.get_remove [OF assms r(1)] show ?thesis by auto
qed

theorem hashmap_remove_unbinds_witness:
  "\<exists>m h m' h'. hashmap_init demo_heap 4 2 = Some (m, h) \<and>
     hashmap_remove m h \<lparr>k_word = 5, k_chars = []\<rparr> = Some (False, m', h') \<and> hm_ok {} m' h'"
proof -
  from demo_map obtain m h where m: "hashmap_init demo_heap 4 2 = Some (m, h)" "hm_ok {} m h"
    "hm_abs m = Map.empty" by blast
  have "hashmap_contains m \<lparr>k_word = 5, k_chars = []\<rparr> = Some False"
    using hm_get_abs(2) [of m] m by (simp add: hm_ok_def)
  then show ?thesis using hashmap_remove_unbinds [OF m(2), of "\<lparr>k_word = 5, k_chars = []\<rparr>"] m(1) by auto
qed

text \<open>\<^verbatim>\<open>hashmap_destroy\<close> frees every entry and the bucket array exactly once: it returns, and
  the heap then holds exactly the blocks \<open>F\<close> that do not belong to the map.\<close>

theorem hashmap_destroy_releases:
  assumes "hm_ok F m h"
  shows "\<exists>m' h'. hashmap_destroy m h = Some (m', h') \<and> heap_owns h' F \<and> buckets_at m' = 0"
  using hm_destroy [OF assms] by blast

theorem hashmap_destroy_releases_witness:
  "\<exists>m h m' h'. hashmap_init demo_heap 4 2 = Some (m, h) \<and> hashmap_destroy m h = Some (m', h') \<and>
     heap_owns h' {}"
  using demo_map hashmap_destroy_releases [of "{}"] by blast

end
