(* ===== verification/Tlv.thy ===== *)
theory Tlv
  imports Allocator "HOL-Library.Monad_Syntax"
begin

text \<open>
  The type-length-value records of \<^verbatim>\<open>ccrpc/source/rpc_tlv.c\<close>. A writer gets the whole buffer
  and the offset of the pointer it is given in C, and faults (\<open>None\<close>) when it would write past
  the end; a reader gets the \<^verbatim>\<open>buf_len\<close> bytes it may look at. A reader that returns 0 gives
  \<open>None\<close> in the inner option; using a NULL from \<^verbatim>\<open>heap_malloc\<close> is a fault.
\<close>

section \<open>Writers\<close>

definition tlv_write_u32 :: "bytes \<Rightarrow> nat \<Rightarrow> u32 \<Rightarrow> (bytes \<times> nat) option" where
  "tlv_write_u32 buf off v = do {
     buf \<leftarrow> buf_write buf off [0x01, 4, 0];
     buf \<leftarrow> buf_write buf (off + 3) (le32 v);
     Some (buf, 1 + 2 + 4) }"

definition tlv_write_bytes :: "bytes \<Rightarrow> nat \<Rightarrow> bytes \<Rightarrow> (bytes \<times> nat) option" where
  "tlv_write_bytes buf off data = (let len = length data in do {
     buf \<leftarrow> buf_write buf off [0x03, word_of_nat (len mod 256), word_of_nat (len div 256 mod 256)];
     buf \<leftarrow> buf_write buf (off + 3) data;
     Some (buf, 1 + 2 + len) })"

text \<open>A C string in memory: the bytes up to its NUL are what \<^verbatim>\<open>strlen\<close> counts.\<close>

definition c_str :: "bytes \<Rightarrow> bytes" where
  "c_str s = takeWhile (\<lambda>c. c \<noteq> 0) s"

definition tlv_write_string :: "bytes \<Rightarrow> nat \<Rightarrow> bytes \<Rightarrow> (bytes \<times> nat) option" where
  "tlv_write_string buf off s = (let len = length (c_str s) in do {
     buf \<leftarrow> buf_write buf off [0x02, word_of_nat (len mod 256), word_of_nat (len div 256 mod 256)];
     buf \<leftarrow> buf_write buf (off + 3) (c_str s);
     Some (buf, 1 + 2 + len) })"

section \<open>Readers\<close>

definition tlv_read :: "bytes \<Rightarrow> (nat \<times> u8 \<times> bytes \<times> u16) option" where
  "tlv_read buf =
     (if length buf < 3 then None
      else let type = buf ! 0;
               len = ucast (buf ! 1) OR push_bit 8 (ucast (buf ! 2))
           in if length buf < 3 + unat len then None
              else Some (3 + unat len, type, take (unat len) (drop 3 buf), len))"

definition tlv_read_string :: "heap \<Rightarrow> bytes \<Rightarrow> ((nat \<times> addr \<times> bytes) option \<times> heap) option" where
  "tlv_read_string h buf =
     (case tlv_read buf of
        None \<Rightarrow> Some (None, h)
      | Some (used, type, value, len) \<Rightarrow>
          if type \<noteq> 0x02 then Some (None, h)
          else do {
            (s, h) \<leftarrow> heap_malloc h (unat len + 1);
            if s = 0 then None else Some (Some (used, s, value), h) })"

definition tlv_read_u32 :: "bytes \<Rightarrow> (nat \<times> u32) option" where
  "tlv_read_u32 buf =
     (case tlv_read buf of
        None \<Rightarrow> None
      | Some (used, type, value, len) \<Rightarrow>
          if type \<noteq> 0x01 \<or> len \<noteq> 4 then None else Some (used, of_le32 value))"

definition tlv_read_i32 :: "bytes \<Rightarrow> (nat \<times> u32) option" where
  "tlv_read_i32 buf =
     (case tlv_read buf of
        None \<Rightarrow> None
      | Some (used, type, value, len) \<Rightarrow>
          if type \<noteq> 0x01 \<or> len \<noteq> 4 then None else Some (used, of_le32 value))"

definition tlv_read_bytes :: "heap \<Rightarrow> bytes \<Rightarrow> ((nat \<times> addr \<times> bytes) option \<times> heap) option" where
  "tlv_read_bytes h buf =
     (case tlv_read buf of
        None \<Rightarrow> Some (None, h)
      | Some (used, type, value, len) \<Rightarrow>
          if type \<noteq> 0x03 then Some (None, h)
          else do {
            (p, h) \<leftarrow> heap_malloc h (unat len);
            if p = 0 \<and> len \<noteq> 0 then None else Some (Some (used, p, value), h) })"

section \<open>Records on the wire\<close>

definition tlv :: "u8 \<Rightarrow> bytes \<Rightarrow> bytes" where
  "tlv t v = [t] @ le16 (word_of_nat (length v)) @ v"

lemma tlv_length [simp]: "length (tlv t v) = 3 + length v"
  by (simp add: tlv_def)

lemma tlv_len_bytes:
  "[word_of_nat (n mod 256), word_of_nat (n div 256 mod 256)] = le16 (word_of_nat n)"
proof -
  have t: "n mod 256 = take_bit 8 n" "n div 256 mod 256 = take_bit 8 (drop_bit 8 n)"
    by (simp_all add: take_bit_eq_mod drop_bit_eq_div)
  have "word_of_nat (n mod 256) = (ucast (word_of_nat n :: u16) :: u8)"
    unfolding t by (auto simp: bit_simps intro!: bit_word_eqI)
  moreover have "word_of_nat (n div 256 mod 256) = (ucast (drop_bit 8 (word_of_nat n :: u16)) :: u8)"
    unfolding t by (auto simp: bit_simps intro!: bit_word_eqI)
  ultimately show ?thesis by (simp add: le16_def)
qed

lemma buf_write_twice:
  "Option.bind (buf_write buf off xs) (\<lambda>b. Option.bind (buf_write b (off + length xs) ys) f) =
   Option.bind (buf_write buf off (xs @ ys)) f"
  by (auto simp: buf_write_def ac_simps)


lemma tlv_write_eq:
  "tlv_write_u32 buf off v = Option.bind (buf_write buf off (tlv 1 (le32 v))) (\<lambda>b. Some (b, 7))"
  "tlv_write_bytes buf off d = Option.bind (buf_write buf off (tlv 3 d)) (\<lambda>b. Some (b, 3 + length d))"
  "tlv_write_string buf off d =
     Option.bind (buf_write buf off (tlv 2 (c_str d))) (\<lambda>b. Some (b, 3 + length (c_str d)))"
proof -
  have h: "[t] @ le16 (word_of_nat n) @ v =
      [t, word_of_nat (n mod 256), word_of_nat (n div 256 mod 256)] @ v" for t :: u8 and n v
    unfolding tlv_len_bytes [symmetric] by simp
  have w: "Option.bind (buf_write buf off (tlv t v)) f = Option.bind
      (buf_write buf off [t, word_of_nat (length v mod 256), word_of_nat (length v div 256 mod 256)])
      (\<lambda>b. Option.bind (buf_write b (off + 3) v) f)" for t v and f :: "bytes \<Rightarrow> (bytes \<times> nat) option"
    unfolding tlv_def h buf_write_twice [symmetric] by (simp add: numeral_3_eq_3)
  show "tlv_write_u32 buf off v = Option.bind (buf_write buf off (tlv 1 (le32 v))) (\<lambda>b. Some (b, 7))"
    unfolding w by (simp add: tlv_write_u32_def)
  show "tlv_write_bytes buf off d = Option.bind (buf_write buf off (tlv 3 d)) (\<lambda>b. Some (b, 3 + length d))"
    unfolding w by (simp add: tlv_write_bytes_def Let_def numeral_3_eq_3)
  show "tlv_write_string buf off d =
     Option.bind (buf_write buf off (tlv 2 (c_str d))) (\<lambda>b. Some (b, 3 + length (c_str d)))"
    unfolding w by (simp add: tlv_write_string_def Let_def numeral_3_eq_3)
qed

text \<open>Every record that \<open>tlv_read\<close> accepts is a prefix of the bytes it was given.\<close>

lemma tlv_read_Some:
  "tlv_read buf = Some (used, t, v, len) \<longleftrightarrow>
     (\<exists>rest. buf = [t] @ le16 len @ v @ rest) \<and> length v = unat len \<and> used = 3 + unat len"
proof
  assume r: "tlv_read buf = Some (used, t, v, len)"
  then have "3 \<le> length buf" by (auto simp: tlv_read_def split: if_splits)
  then obtain x y z r where buf: "buf = x # y # z # r"
    by (auto simp: numeral_3_eq_3 Suc_le_length_iff)
  with r have l: "t = x" "len = of_le16 [y, z]" "unat len \<le> length r" "v = take (unat len) r" "used = 3 + unat len"
    by (auto simp: tlv_read_def Let_def split: if_splits)
  have "le16 len = [y, z]" unfolding l(2) by (rule le16_of_le16) simp
  then have "buf = [t] @ le16 len @ v @ drop (unat len) r" using buf l(1,4) by simp
  moreover have "length v = unat len" using l(3,4) by simp
  ultimately show "(\<exists>rest. buf = [t] @ le16 len @ v @ rest) \<and> length v = unat len \<and> used = 3 + unat len"
    using l(5) by blast
next
  assume "(\<exists>rest. buf = [t] @ le16 len @ v @ rest) \<and> length v = unat len \<and> used = 3 + unat len"
  then obtain rest where b: "buf = [t] @ le16 len @ v @ rest" "length v = unat len" "used = 3 + unat len" by blast
  obtain x y where xy: "le16 len = [x, y]" by (simp add: le16_def)
  have "ucast x OR push_bit 8 (ucast y) = len"
    using of_le16_le16 [of len] unfolding xy by simp
  then show "tlv_read buf = Some (used, t, v, len)" using b xy by (simp add: tlv_read_def Let_def)
qed

lemma tlv_read_tlv [wire_simps]:
  "length v < 65536 \<Longrightarrow>
   tlv_read (tlv t v @ rest) = Some (3 + length v, t, v, word_of_nat (length v))"
  by (subst tlv_read_Some) (auto simp: tlv_def unat_of_nat)

lemma tlv_read_drop:
  "tlv_read buf = Some (used, t, v, len) \<Longrightarrow> buf = tlv t v @ drop used buf \<and> used \<le> length buf \<and> length v < 65536"
  using u16_less [of len] by (auto simp: tlv_read_Some tlv_def le16_def numeral_3_eq_3)


lemma buf_write_drop: "buf_write buf off bs = Some buf' \<Longrightarrow> drop off buf' = bs @ drop (off + length bs) buf"
  by (auto simp: buf_write_def split: if_splits)

section \<open>Properties\<close>

text \<open>\<^verbatim>\<open>tlv_read\<close> never looks past the bytes it is given: what it accepts is the record of its
  type and value, byte for byte, followed by the rest of the buffer, and it reports the length of
  that record.\<close>

theorem tlv_read_exact:
  assumes "tlv_read buf = Some (used, t, v, len)"
  shows "buf = tlv t v @ drop used buf \<and> used = length (tlv t v) \<and> used \<le> length buf \<and> length v = unat len"
  using tlv_read_drop [OF assms] assms by (auto simp: tlv_read_Some)

theorem tlv_read_exact_witness:
  "tlv_read [2, 2, 0, 104, 105, 7] = Some (5, 2, [104, 105], 2) \<and>
   [2, 2, 0, 104, 105, 7] = tlv 2 [104, 105] @ drop 5 [2, 2, 0, 104, 105, 7 :: u8]"
proof -
  have "tlv_read [2, 2, 0, 104, 105, 7] = Some (5, 2, [104, 105], 2)" by code_simp
  with tlv_read_exact [OF this] show ?thesis by simp
qed

text \<open>Reading back what \<^verbatim>\<open>tlv_write_bytes\<close> wrote at an offset gives the data when it is shorter
  than 65536 bytes; the length field has 16 bits, so of longer data only the first
  \<open>length d mod 65536\<close> bytes come back, although the writer returns the full length.\<close>

theorem tlv_bytes_roundtrip:
  assumes "tlv_write_bytes buf off d = Some (buf', n)"
  shows "n = 3 + length d \<and>
    tlv_read (drop off buf') =
      Some (3 + length d mod 65536, 3, take (length d mod 65536) d, word_of_nat (length d))"
proof -
  from assms have b: "buf_write buf off (tlv 3 d) = Some buf'" "n = 3 + length d"
    by (auto simp: tlv_write_eq split: bind_splits)
  let ?r = "drop (length d mod 65536) d @ drop (off + length (tlv 3 d)) buf"
  have "drop off buf' = [3] @ le16 (word_of_nat (length d)) @ take (length d mod 65536) d @ ?r"
    using buf_write_drop [OF b(1)] by (simp add: tlv_def)
  moreover have "length (take (length d mod 65536) d) = length d mod 65536" by simp
  ultimately show ?thesis using b(2) by (subst tlv_read_Some) (auto simp: unat_of_nat)
qed

theorem tlv_bytes_roundtrip_witness:
  "tlv_write_bytes [0, 0, 0, 0, 0, 0] 1 [7, 8] = Some ([0, 3, 2, 0, 7, 8], 5) \<and>
   tlv_read (drop 1 [0, 3, 2, 0, 7, 8]) = Some (5, 3, [7, 8], 2)"
proof -
  have w: "tlv_write_bytes [0, 0, 0, 0, 0, 0] 1 [7, 8] = Some ([0, 3, 2, 0, 7, 8], 5)" by code_simp
  from tlv_bytes_roundtrip [OF w] show ?thesis using w by simp
qed

end
