(* ===== verification/Gen.thy ===== *)
theory Gen
  imports Tlv
begin

text \<open>
  The code that \<^verbatim>\<open>ccrpc/source/rpc_gen.c\<close> generates from the \<^verbatim>\<open>.xdef\<close> files, with the field
  list of a method as data: the \<^verbatim>\<open>FIELD\<close> macros expand to one statement per field, in order. A
  parameter or result struct is the list of its fields. A pointer field is kept with the memory
  it points to. \<^verbatim>\<open>tlv_write_i32\<close>, which the sources use and do not define, is a parameter.
\<close>

section \<open>Fields\<close>

datatype ftype = T_string | T_u32 | T_i32 | T_bytes

datatype field =
    F_string addr bytes
  | F_u32 u32
  | F_i32 u32
  | F_bytes addr bytes

text \<open>A field after \<^verbatim>\<open>memset (out, 0, sizeof *out)\<close>.\<close>

fun zero_field :: "ftype \<Rightarrow> field" where
  "zero_field T_string = F_string 0 []"
| "zero_field T_u32 = F_u32 0"
| "zero_field T_i32 = F_i32 0"
| "zero_field T_bytes = F_bytes 0 []"

section \<open>Parsers\<close>

text \<open>\<^verbatim>\<open>PARSE_FIELD_*\<close>: the field and the bytes used, or nothing when the macro returns \<^verbatim>\<open>-1\<close>.\<close>

fun parse_field :: "ftype \<Rightarrow> heap \<Rightarrow> bytes \<Rightarrow> ((field \<times> nat) option \<times> heap) option" where
  "parse_field T_string h p = do {
     (r, h) \<leftarrow> tlv_read_string h p;
     Some (map_option (\<lambda>(used, s, v). (F_string s v, used)) r, h) }"
| "parse_field T_u32 h p = Some (map_option (\<lambda>(used, v). (F_u32 v, used)) (tlv_read_u32 p), h)"
| "parse_field T_i32 h p = Some (map_option (\<lambda>(used, v). (F_i32 v, used)) (tlv_read_i32 p), h)"
| "parse_field T_bytes h p = do {
     (r, h) \<leftarrow> tlv_read_bytes h p;
     Some (map_option (\<lambda>(used, q, v). (F_bytes q v, used)) r, h) }"

text \<open>\<^verbatim>\<open>rpc_param_parse_*\<close> and \<^verbatim>\<open>rpc_result_parse_*\<close>: the status, the struct, the heap.\<close>

fun parse_fields :: "ftype list \<Rightarrow> heap \<Rightarrow> bytes \<Rightarrow> (int \<times> field list \<times> heap) option" where
  "parse_fields [] h p = Some (0, [], h)"
| "parse_fields (t # ts) h p = do {
     (r, h) \<leftarrow> parse_field t h p;
     case r of
       None \<Rightarrow> Some (-1, zero_field t # map zero_field ts, h)
     | Some (f, used) \<Rightarrow> do {
         (st, fs, h) \<leftarrow> parse_fields ts h (drop used p);
         Some (st, f # fs, h) } }"

section \<open>Encoders\<close>

fun estimate_field :: "field \<Rightarrow> nat" where
  "estimate_field (F_string s v) = 1 + 2 + (if s \<noteq> 0 then length (c_str v) else 0)"
| "estimate_field (F_u32 v) = 1 + 2 + 4"
| "estimate_field (F_i32 v) = 1 + 2 + 4"
| "estimate_field (F_bytes p v) = 1 + 2 + length v"

fun estimate_size :: "nat \<Rightarrow> field list \<Rightarrow> nat" where
  "estimate_size sz [] = sz"
| "estimate_size sz (f # fs) = estimate_size (sz + estimate_field f) fs"

type_synonym i32_writer = "bytes \<Rightarrow> nat \<Rightarrow> u32 \<Rightarrow> (bytes \<times> nat) option"

fun emit_field :: "i32_writer \<Rightarrow> bytes \<Rightarrow> nat \<Rightarrow> field \<Rightarrow> (bytes \<times> nat) option" where
  "emit_field w buf off (F_string s v) =
     (if s \<noteq> 0 then do { (buf, n) \<leftarrow> tlv_write_string buf off v; Some (buf, off + n) }
      else Some (buf, off))"
| "emit_field w buf off (F_u32 v) = do { (buf, n) \<leftarrow> tlv_write_u32 buf off v; Some (buf, off + n) }"
| "emit_field w buf off (F_i32 v) = do { (buf, n) \<leftarrow> w buf off v; Some (buf, off + n) }"
| "emit_field w buf off (F_bytes p v) = do { (buf, n) \<leftarrow> tlv_write_bytes buf off v; Some (buf, off + n) }"

fun emit_fields :: "i32_writer \<Rightarrow> bytes \<Rightarrow> nat \<Rightarrow> field list \<Rightarrow> (bytes \<times> nat) option" where
  "emit_fields w buf off [] = Some (buf, off)"
| "emit_fields w buf off (f # fs) = do {
     (buf, off) \<leftarrow> emit_field w buf off f;
     emit_fields w buf off fs }"

text \<open>\<^verbatim>\<open>encode_result_*\<close>: \<open>out_len\<close> is the value of \<^verbatim>\<open>*out_len\<close> on entry.\<close>

definition encode_result :: "i32_writer \<Rightarrow> field list \<Rightarrow> bytes \<Rightarrow> nat \<Rightarrow> (int \<times> bytes \<times> nat) option" where
  "encode_result w r buf out_len = do {
     buf \<leftarrow> (if out_len > 0 then buf_write buf 0 (replicate out_len 0) else Some buf);
     (buf, off) \<leftarrow> emit_fields w buf 0 r;
     Some (0, buf, off) }"

section \<open>Freeing\<close>

fun free_field :: "heap \<Rightarrow> field \<Rightarrow> heap option" where
  "free_field h (F_string s v) = (if s \<noteq> 0 then heap_free h s else Some h)"
| "free_field h (F_u32 v) = Some h"
| "free_field h (F_i32 v) = Some h"
| "free_field h (F_bytes p v) = (if p \<noteq> 0 then heap_free h p else Some h)"

text \<open>\<^verbatim>\<open>free_param_*\<close> and \<^verbatim>\<open>free_result_*\<close>.\<close>

primrec free_fields :: "heap \<Rightarrow> field list \<Rightarrow> heap option" where
  "free_fields h [] = Some h"
| "free_fields h (f # fs) = do { h \<leftarrow> free_field h f; free_fields h fs }"

section \<open>The methods\<close>

definition lit :: "string \<Rightarrow> bytes" where
  "lit s = map of_char s"

record rpc_schema =
  rpcname :: bytes
  params :: "ftype list"
  results :: "ftype list"

definition shell_exec_schema :: rpc_schema where
  "shell_exec_schema = \<lparr>rpcname = lit ''shell.exec'', params = [T_string], results = [T_string, T_u32]\<rparr>"

definition fs_read_schema :: rpc_schema where
  "fs_read_schema = \<lparr>rpcname = lit ''fs.read'', params = [T_string, T_u32, T_u32],
     results = [T_bytes, T_u32, T_u32]\<rparr>"

text \<open>The functions that are generated for a method.\<close>

definition rpc_param_parse :: "rpc_schema \<Rightarrow> heap \<Rightarrow> bytes \<Rightarrow> (int \<times> field list \<times> heap) option" where
  "rpc_param_parse m h tlvs = parse_fields (params m) h tlvs"

definition rpc_result_parse :: "rpc_schema \<Rightarrow> heap \<Rightarrow> bytes \<Rightarrow> (int \<times> field list \<times> heap) option" where
  "rpc_result_parse m h tlvs = parse_fields (results m) h tlvs"

definition free_param :: "heap \<Rightarrow> field list \<Rightarrow> heap option" where
  "free_param h p = free_fields h p"

definition free_result :: "heap \<Rightarrow> field list \<Rightarrow> heap option" where
  "free_result h r = free_fields h r"

section \<open>The wire format of a struct\<close>

text \<open>The values of a struct without its pointers, and the reference codec on them.\<close>

datatype fval = V_string bytes | V_u32 u32 | V_i32 u32 | V_bytes bytes

fun val_of :: "field \<Rightarrow> fval" where
  "val_of (F_string s v) = V_string v"
| "val_of (F_u32 v) = V_u32 v"
| "val_of (F_i32 v) = V_i32 v"
| "val_of (F_bytes p v) = V_bytes v"

fun encode_val :: "fval \<Rightarrow> bytes" where
  "encode_val (V_string v) = tlv 2 v"
| "encode_val (V_u32 v) = tlv 1 (le32 v)"
| "encode_val (V_i32 v) = tlv 1 (le32 v)"
| "encode_val (V_bytes v) = tlv 3 v"

fun type_of_val :: "fval \<Rightarrow> ftype" where
  "type_of_val (V_string v) = T_string"
| "type_of_val (V_u32 v) = T_u32"
| "type_of_val (V_i32 v) = T_i32"
| "type_of_val (V_bytes v) = T_bytes"

fun val_ok :: "fval \<Rightarrow> bool" where
  "val_ok (V_string v) \<longleftrightarrow> length v < 65536"
| "val_ok (V_bytes v) \<longleftrightarrow> length v < 65536"
| "val_ok _ \<longleftrightarrow> True"

fun decode_val :: "ftype \<Rightarrow> bytes \<Rightarrow> (fval \<times> bytes) option" where
  "decode_val t p =
     (case tlv_read p of
        None \<Rightarrow> None
      | Some (used, tag, v, len) \<Rightarrow>
          (case t of
             T_string \<Rightarrow> if tag = 2 then Some (V_string v, drop used p) else None
           | T_u32 \<Rightarrow> if tag = 1 \<and> len = 4 then Some (V_u32 (of_le32 v), drop used p) else None
           | T_i32 \<Rightarrow> if tag = 1 \<and> len = 4 then Some (V_i32 (of_le32 v), drop used p) else None
           | T_bytes \<Rightarrow> if tag = 3 then Some (V_bytes v, drop used p) else None))"


primrec decode_list :: "('t \<Rightarrow> bytes \<Rightarrow> ('v \<times> bytes) option) \<Rightarrow> 't list \<Rightarrow> bytes \<Rightarrow> ('v list \<times> bytes) option" where
  "decode_list dec [] p = Some ([], p)"
| "decode_list dec (t # ts) p = do {
     (v, p) \<leftarrow> dec t p;
     (vs, p) \<leftarrow> decode_list dec ts p;
     Some (v # vs, p) }"

definition encode_list :: "('v \<Rightarrow> bytes) \<Rightarrow> 'v list \<Rightarrow> bytes" where
  "encode_list enc vs = concat (map enc vs)"

lemma encode_list_simps [simp]:
  "encode_list enc [] = []" "encode_list enc (v # vs) = enc v @ encode_list enc vs"
  by (simp_all add: encode_list_def)

locale codec =
  fixes enc :: "'v \<Rightarrow> bytes" and dec :: "'t \<Rightarrow> bytes \<Rightarrow> ('v \<times> bytes) option"
    and tag :: "'v \<Rightarrow> 't" and valid :: "'v \<Rightarrow> bool"
  assumes dec_enc: "valid v \<Longrightarrow> dec (tag v) (enc v @ rest) = Some (v, rest)"
    and enc_dec: "dec t p = Some (v, rest) \<Longrightarrow> p = enc v @ rest \<and> tag v = t \<and> valid v"
begin

lemma decode_encode:
  "\<forall>v \<in> set vs. valid v \<Longrightarrow> decode_list dec (map tag vs) (encode_list enc vs @ rest) = Some (vs, rest)"
  by (induction vs) (simp_all add: dec_enc)

lemma encode_decode:
  "decode_list dec ts p = Some (vs, rest) \<Longrightarrow>
   p = encode_list enc vs @ rest \<and> map tag vs = ts \<and> (\<forall>v \<in> set vs. valid v)"
proof (induction ts arbitrary: p vs)
  case (Cons t ts)
  then obtain v q ws where d: "dec t p = Some (v, q)" "decode_list dec ts q = Some (ws, rest)" "vs = v # ws"
    by (auto split: bind_splits)
  from Cons.IH [OF d(2)] have "q = encode_list enc ws @ rest" "map tag ws = ts" "\<forall>v \<in> set ws. valid v"
    by blast+
  moreover from enc_dec [OF d(1)] have "p = enc v @ q" "tag v = t" "valid v" by blast+
  ultimately show ?case using d(3) by simp
qed simp

lemma encoding_unambiguous:
  assumes "\<forall>v \<in> set vs \<union> set ws. valid v" "map tag vs = map tag ws"
    "encode_list enc vs @ r = encode_list enc ws @ r'"
  shows "vs = ws \<and> r = r'"
proof -
  have "Some (vs, r) = decode_list dec (map tag ws) (encode_list enc ws @ r')"
    unfolding assms(2,3) [symmetric] by (rule decode_encode [symmetric]) (use assms(1) in blast)
  also have "\<dots> = Some (ws, r')" by (rule decode_encode) (use assms(1) in blast)
  finally show ?thesis by simp
qed

end

lemma decode_enc_val:
  assumes "val_ok v"
  shows "decode_val (type_of_val v) (encode_val v @ rest) = Some (v, rest)"
  using assms by (cases v) (simp_all add: tlv_read_tlv [of _ _ rest] drop_append)

lemma enc_decode_val:
  assumes "decode_val t p = Some (v, rest)"
  shows "p = encode_val v @ rest \<and> type_of_val v = t \<and> val_ok v"
proof -
  from assms obtain used tag val len where r: "tlv_read p = Some (used, tag, val, len)"
    by (auto split: option.splits)
  from tlv_read_drop [OF r] have d: "p = tlv tag val @ drop used p" "length val < 65536" by auto
  have "le32 (of_le32 val) = val" if "len = 4"
    using r that by (intro le32_of_le32) (simp add: tlv_read_Some)
  then show ?thesis using assms r d by (cases t) (auto split: if_splits)
qed

interpretation tlv_codec: codec encode_val decode_val type_of_val val_ok
  by unfold_locales (use decode_enc_val enc_decode_val in blast)+


section \<open>Parsing and the heap\<close>

text \<open>The blocks a struct owns.\<close>

fun field_ptrs :: "field \<Rightarrow> addr list" where
  "field_ptrs (F_string s v) = (if s = 0 then [] else [s])"
| "field_ptrs (F_bytes p v) = (if p = 0 then [] else [p])"
| "field_ptrs _ = []"

definition ptrs :: "field list \<Rightarrow> addr list" where
  "ptrs fs = concat (map field_ptrs fs)"

lemma ptrs_simps [simp]: "ptrs [] = []" "ptrs (f # fs) = field_ptrs f @ ptrs fs"
  by (simp_all add: ptrs_def)

lemma ptrs_zero [simp]: "ptrs (map zero_field ts) = []"
proof (induction ts)
  case (Cons t ts)
  then show ?case by (cases t) simp_all
qed simp

text \<open>\<open>fs\<close> is in the heap, beside the blocks of \<open>A\<close>.\<close>

definition fields_ok :: "addr set \<Rightarrow> field list \<Rightarrow> heap \<Rightarrow> bool" where
  "fields_ok A fs h \<longleftrightarrow> heap_owns h (A \<union> set (ptrs fs)) \<and> distinct (ptrs fs) \<and> A \<inter> set (ptrs fs) = {}"

lemma parse_field_decode:
  assumes own: "heap_owns h A"
  shows "decode_val t p = None \<Longrightarrow> parse_field t h p = Some (None, h)"
    and "decode_val t p = Some (v, rest) \<Longrightarrow>
      (\<exists>f used h'. parse_field t h p = Some (Some (f, used), h') \<and> val_of f = v \<and> rest = drop used p \<and>
        fields_ok A [f] h') \<or> parse_field t h p = None"
proof -
  show "parse_field t h p = Some (None, h)" if "decode_val t p = None"
    using that by (cases t) (auto simp: tlv_read_string_def tlv_read_bytes_def tlv_read_u32_def
        tlv_read_i32_def split: option.splits if_splits)
next
  assume d: "decode_val t p = Some (v, rest)"
  then obtain used tag val len where r: "tlv_read p = Some (used, tag, val, len)"
    by (auto split: option.splits)
  have len: "unat len < 65536" using u16_less [of len] by simp
  have lim: "unat len + 1 < 2 ^ 63" "unat len < 2 ^ 63" using len by simp_all
  show "(\<exists>f used h'. parse_field t h p = Some (Some (f, used), h') \<and> val_of f = v \<and> rest = drop used p \<and>
        fields_ok A [f] h') \<or> parse_field t h p = None"
  proof (cases t)
    case T_string
    with d r have s: "tag = 2" "v = V_string val" "rest = drop used p" by (auto split: if_splits)
    from own lim(1) show ?thesis
    proof (cases rule: hp.alloc_cases)
      case (null h')
      then show ?thesis using T_string r s by (simp add: tlv_read_string_def)
    next
      case (fresh q h')
      then show ?thesis using T_string r s by (simp add: tlv_read_string_def fields_ok_def)
    qed
  next
    case T_bytes
    with d r have s: "tag = 3" "v = V_bytes val" "rest = drop used p" by (auto split: if_splits)
    from own lim(2) show ?thesis
    proof (cases rule: hp.alloc_cases)
      case (null h')
      then show ?thesis using T_bytes r s
        by (auto simp add: tlv_read_bytes_def fields_ok_def)
    next
      case (fresh q h')
      then show ?thesis using T_bytes r s by (simp add: tlv_read_bytes_def fields_ok_def)
    qed
  qed (use d r own in \<open>auto simp: tlv_read_u32_def tlv_read_i32_def fields_ok_def split: if_splits\<close>)
qed

lemma fields_ok_Cons:
  assumes "fields_ok A [f] h" "fields_ok (A \<union> set (field_ptrs f)) fs h'"
  shows "fields_ok A (f # fs) h'"
  using assms by (auto simp: fields_ok_def Un_assoc)

lemma parse_fields_decode:
  assumes "heap_owns h A"
  shows "(\<exists>st fs h'. parse_fields ts h p = Some (st, fs, h') \<and> fields_ok A fs h' \<and>
      (case decode_list decode_val ts p of None \<Rightarrow> st = -1 | Some (vs, rest) \<Rightarrow> st = 0 \<and> map val_of fs = vs)) \<or>
    parse_fields ts h p = None"
  using assms
proof (induction ts arbitrary: h p A)
  case Nil
  then show ?case by (simp add: fields_ok_def)
next
  case (Cons t ts)
  show ?case
  proof (cases "decode_val t p")
    case None
    then show ?thesis using parse_field_decode(1) [OF Cons.prems None] Cons.prems
      ptrs_zero [of "t # ts"] by (simp add: fields_ok_def del: decode_val.simps)
  next
    case (Some vr)
    obtain v rest where vr: "vr = (v, rest)" by fastforce
    from parse_field_decode(2) [OF Cons.prems Some [unfolded vr]] show ?thesis
    proof
      assume "\<exists>f used h'. parse_field t h p = Some (Some (f, used), h') \<and> val_of f = v \<and>
          rest = drop used p \<and> fields_ok A [f] h'"
      then obtain f used h1 where f: "parse_field t h p = Some (Some (f, used), h1)" "val_of f = v"
        "rest = drop used p" "fields_ok A [f] h1" by blast
      from f(4) have "heap_owns h1 (A \<union> set (field_ptrs f))" by (simp add: fields_ok_def)
      from Cons.IH [OF this, of rest] show ?thesis
        using f Some vr fields_ok_Cons [OF f(4)]
        by (cases "decode_list decode_val ts rest") (auto simp del: decode_val.simps)
    qed simp
  qed
qed

text \<open>The heap a parse needs: a string of length \<open>n\<close> takes a block of less than \<open>n + 25\<close> bytes, for at
  least \<open>n + 3\<close> bytes of input.\<close>

lemma parse_field_room:
  assumes "heap_room h (9 * length p + 64 + e)"
  shows "\<exists>r h'. parse_field t h p = Some (r, h') \<and>
    (case r of None \<Rightarrow> heap_room h' (64 + e) | Some (f, used) \<Rightarrow> heap_room h' (9 * length (drop used p) + 64 + e))"
proof -
  have keep: "heap_room h (64 + e)" using heap_room_mono [OF assms] by simp
  show ?thesis
  proof (cases "tlv_read p")
    case None
    then show ?thesis using keep by (cases t) (simp_all add: tlv_read_string_def tlv_read_bytes_def tlv_read_u32_def
        tlv_read_i32_def)
  next
    case (Some q)
    obtain used tag v len where q: "q = (used, tag, v, len)" by (metis prod_cases4)
    have u: "used = 3 + unat len" "used \<le> length p"
      using tlv_read_drop [OF Some [unfolded q]] Some q by (auto simp: tlv_read_Some)
    have room: "\<exists>a h'. heap_malloc h k = Some (a, h') \<and> a \<noteq> 0 \<and> heap_room h' (9 * length (drop used p) + 64 + e)"
      if "k \<le> unat len + 1" for k
      using malloc_room [OF assms, of k] heap_room_mono [of _ "9 * length p + 64 + e - (k + 24)" "9 * length (drop used p) + 64 + e"]
        that u by fastforce
    have "heap_room h (9 * length (drop used p) + 64 + e)" using heap_room_mono [OF assms] by simp
    then show ?thesis using Some q keep room [of "unat len + 1"] room [of "unat len"]
      by (cases t) (auto simp: tlv_read_string_def tlv_read_bytes_def tlv_read_u32_def tlv_read_i32_def)
  qed
qed

lemma parse_fields_room_left:
  "heap_room h (9 * length p + 64 + e) \<Longrightarrow> \<exists>st fs h'. parse_fields ts h p = Some (st, fs, h') \<and> heap_room h' (64 + e)"
proof (induction ts arbitrary: h p)
  case Nil
  then show ?case using heap_room_mono [OF Nil, of "64 + e"] by simp
next
  case (Cons t ts)
  from parse_field_room [OF Cons.prems, of t] obtain r h' where r: "parse_field t h p = Some (r, h')"
    "case r of None \<Rightarrow> heap_room h' (64 + e) | Some (f, used) \<Rightarrow> heap_room h' (9 * length (drop used p) + 64 + e)" by blast
  show ?case
  proof (cases r)
    case None
    then show ?thesis using r by simp
  next
    case (Some fu)
    obtain f used where fu: "fu = (f, used)" by fastforce
    with Cons.IH [of h' "drop used p"] r(2) Some obtain st fs h2 where
      "parse_fields ts h' (drop used p) = Some (st, fs, h2)" "heap_room h2 (64 + e)" by auto
    then show ?thesis using r(1) Some fu by auto
  qed
qed

lemma parse_fields_room: "heap_room h (9 * length p + 64) \<Longrightarrow> parse_fields ts h p \<noteq> None"
  using parse_fields_room_left [of h p 0 ts] by auto

lemma free_field_ok:
  assumes "fields_ok A (f # fs) h"
  shows "\<exists>h'. free_field h f = Some h' \<and> fields_ok A fs h'"
proof -
  have own: "heap_owns h (A \<union> set (ptrs (f # fs)))" using assms by (simp add: fields_ok_def)
  have step: "\<exists>h'. heap_free h q = Some h' \<and> fields_ok A fs h'" if "field_ptrs f = [q]" for q
  proof -
    have "A \<union> set (ptrs (f # fs)) - {q} = A \<union> set (ptrs fs)" using assms that by (auto simp: fields_ok_def)
    with hp.release_owns [OF own, of q] that assms show ?thesis by (auto simp: fields_ok_def)
  qed
  show ?thesis using step assms by (cases f) (auto simp: fields_ok_def)
qed

lemma free_fields_ok:
  "fields_ok A fs h \<Longrightarrow> \<exists>h'. free_fields h fs = Some h' \<and> heap_owns h' A"
proof (induction fs arbitrary: h)
  case (Cons f fs)
  from free_field_ok [OF Cons.prems] obtain h1 where "free_field h f = Some h1" "fields_ok A fs h1" by blast
  with Cons.IH [of h1] show ?case by auto
qed (simp add: fields_ok_def)


section \<open>Emission\<close>

fun field_wire :: "field \<Rightarrow> bytes" where
  "field_wire (F_string s v) = (if s = 0 then [] else tlv 2 (c_str v))"
| "field_wire (F_u32 v) = tlv 1 (le32 v)"
| "field_wire (F_i32 v) = tlv 1 (le32 v)"
| "field_wire (F_bytes p v) = tlv 3 v"

definition wire :: "field list \<Rightarrow> bytes" where
  "wire fs = concat (map field_wire fs)"

lemma wire_simps' [simp]: "wire [] = []" "wire (f # fs) = field_wire f @ wire fs"
  by (simp_all add: wire_def)

text \<open>What the macros rely on of \<^verbatim>\<open>tlv_write_i32\<close>: the record that \<^verbatim>\<open>tlv_read_i32\<close> accepts, of the
  size that \<^verbatim>\<open>rpc_estimate_field_i32\<close> gives.\<close>

definition i32_writer_ok :: "i32_writer \<Rightarrow> bool" where
  "i32_writer_ok w \<longleftrightarrow> (\<forall>buf off v. w buf off v =
     (case buf_write buf off (tlv 1 (le32 v)) of None \<Rightarrow> None | Some buf \<Rightarrow> Some (buf, 7)))"

lemma i32_writer_okD:
  "i32_writer_ok w \<Longrightarrow> w buf off v = Option.bind (buf_write buf off (tlv 1 (le32 v))) (\<lambda>b. Some (b, 7))"
  by (simp add: i32_writer_ok_def split: option.splits bind_splits)

lemma emit_field_eq:
  assumes "i32_writer_ok w" "off \<le> length buf"
  shows "emit_field w buf off f =
    Option.bind (buf_write buf off (field_wire f)) (\<lambda>b. Some (b, off + length (field_wire f)))"
  using assms(2)
  by (cases f) (auto simp: tlv_write_eq i32_writer_okD [OF assms(1)] buf_write_def split: bind_splits)

lemma emit_fields_eq:
  assumes "i32_writer_ok w" "off \<le> length buf"
  shows "emit_fields w buf off fs =
    Option.bind (buf_write buf off (wire fs)) (\<lambda>b. Some (b, off + length (wire fs)))"
  using assms(2)
proof (induction fs arbitrary: buf off)
  case Nil
  then show ?case by (simp add: buf_write_def)
next
  case (Cons f fs)
  show ?case
  proof (cases "off + length (field_wire f) \<le> length buf")
    case True
    let ?b = "take off buf @ field_wire f @ drop (off + length (field_wire f)) buf"
    have f: "emit_field w buf off f = Some (?b, off + length (field_wire f))"
      using emit_field_eq [OF assms(1) Cons.prems] True by (simp add: buf_write_def)
    have "off + length (field_wire f) \<le> length ?b" using True by simp
    from Cons.IH [OF this] show ?thesis using f True
      by (auto simp: buf_write_def ac_simps split: bind_splits)
  next
    case False
    then show ?thesis using emit_field_eq [OF assms(1) Cons.prems, of f] by (simp add: buf_write_def)
  qed
qed

lemma estimate_size_add: "estimate_size sz fs = sz + estimate_size 0 fs"
  by (induction fs arbitrary: sz) (simp, metis add.assoc estimate_size.simps(2) add_0)

lemma wire_le_estimate: "length (wire fs) \<le> estimate_size 0 fs"
proof (induction fs)
  case (Cons f fs)
  have "length (field_wire f) \<le> estimate_field f" by (cases f) auto
  then show ?case using Cons estimate_size_add [of "estimate_field f" fs] by simp
qed simp

text \<open>A struct that the receiver can rebuild: strings are not NULL and fit the length field.\<close>

fun sendable :: "field \<Rightarrow> bool" where
  "sendable (F_string s v) \<longleftrightarrow> s \<noteq> 0 \<and> c_str v = v \<and> length v < 65536"
| "sendable (F_bytes p v) \<longleftrightarrow> length v < 65536"
| "sendable _ \<longleftrightarrow> True"

lemma sendable_wire: "sendable f \<Longrightarrow> field_wire f = encode_val (val_of f) \<and> val_ok (val_of f)"
  by (cases f) auto

lemma sendable_wires:
  "\<forall>f \<in> set fs. sendable f \<Longrightarrow>
   wire fs = encode_list encode_val (map val_of fs) \<and> (\<forall>v \<in> set (map val_of fs). val_ok v)"
  using sendable_wire by (induction fs) auto

section \<open>Properties\<close>

lemma i32_as_u32: "i32_writer_ok tlv_write_u32"
  by (simp add: i32_writer_ok_def tlv_write_eq split: option.splits)

text \<open>The buffer of \<^verbatim>\<open>rpc_call_*\<close>, which has the estimated size, always holds the encoded
  parameters: the writers never run past it, and what they write is the concatenation of the
  records of the fields.\<close>

theorem stub_buffer_suffices:
  assumes "i32_writer_ok w"
  shows "\<exists>buf. emit_fields w (replicate (estimate_size 0 fs) 0) 0 fs = Some (buf, length (wire fs)) \<and>
    take (length (wire fs)) buf = wire fs"
  using emit_fields_eq [OF assms, of 0 "replicate (estimate_size 0 fs) 0" fs] wire_le_estimate [of fs]
  by (simp add: buf_write_def)

theorem stub_buffer_suffices_witness:
  "\<exists>buf. emit_fields tlv_write_u32 (replicate (estimate_size 0 [F_bytes 1 [104, 105], F_u32 7]) 0) 0
      [F_bytes 1 [104, 105], F_u32 7] = Some (buf, 12) \<and> take 12 buf = [3, 2, 0, 104, 105, 1, 4, 0, 7, 0, 0, 0]"
proof -
  have w: "wire [F_bytes 1 [104, 105], F_u32 7] = [3, 2, 0, 104, 105, 1, 4, 0, 7, 0, 0, 0]" by code_simp
  have n: "length (wire [F_bytes 1 [104, 105], F_u32 7]) = 12" unfolding w by simp
  show ?thesis
    using stub_buffer_suffices [OF i32_as_u32, of "[F_bytes 1 [104, 105], F_u32 7]"] unfolding n unfolding w .
qed

text \<open>C26. What a stub encodes is what the parser on the other side returns: the writers put a struct, whose strings are
  not NULL and whose strings and byte arrays are shorter than 65536 bytes, into a buffer of the estimated size and return
  the number \<open>n\<close> of bytes, and parsing these \<open>n\<close> bytes, with anything after them, gives status 0 and the same values in
  newly allocated blocks, when the heap has room for them.\<close>

theorem parse_emit_roundtrip:
  assumes "i32_writer_ok w" "heap_owns h A" "\<forall>f \<in> set fs. sendable f"
    "heap_room h (9 * (estimate_size 0 fs + length rest) + 64)"
  shows "\<exists>buf n fs' h'. emit_fields w (replicate (estimate_size 0 fs) 0) 0 fs = Some (buf, n) \<and> n \<le> length buf \<and>
    parse_fields (map (type_of_val \<circ> val_of) fs) h (take n buf @ rest) = Some (0, fs', h') \<and>
    map val_of fs' = map val_of fs \<and> fields_ok A fs' h'"
proof -
  note s = sendable_wires [OF assms(3)]
  have "emit_fields w (replicate (estimate_size 0 fs) 0) 0 fs =
      Some (wire fs @ drop (length (wire fs)) (replicate (estimate_size 0 fs) 0), length (wire fs))"
    using emit_fields_eq [OF assms(1), of 0 "replicate (estimate_size 0 fs) 0" fs] wire_le_estimate [of fs] by (simp add: buf_write_def)
  moreover have "decode_list decode_val (map (type_of_val \<circ> val_of) fs) (wire fs @ rest) = Some (map val_of fs, rest)"
    using tlv_codec.decode_encode [of "map val_of fs" rest] s by simp
  moreover have "heap_room h (9 * length (wire fs @ rest) + 64)"
    by (rule heap_room_mono [OF assms(4)]) (use wire_le_estimate [of fs] in simp)
  ultimately show ?thesis
    using parse_fields_decode [OF assms(2), of "map (type_of_val \<circ> val_of) fs" "wire fs @ rest"] parse_fields_room by auto
qed

theorem parse_emit_roundtrip_witness:
  "\<exists>buf n fs' h'. emit_fields tlv_write_u32 (replicate 12 0) 0 [F_bytes 1 [104, 105], F_u32 7] = Some (buf, n) \<and>
     parse_fields [T_bytes, T_u32] demo_heap (take n buf) = Some (0, fs', h') \<and>
     map val_of fs' = [V_bytes [104, 105], V_u32 7]"
proof -
  have s: "\<forall>f \<in> set [F_bytes 1 [104, 105], F_u32 7]. sendable f" by simp
  have e: "estimate_size 0 [F_bytes 1 [104, 105], F_u32 7] = 12" by simp
  have ty: "map (type_of_val \<circ> val_of) [F_bytes 1 [104, 105], F_u32 7] = [T_bytes, T_u32]"
    "map val_of [F_bytes 1 [104, 105], F_u32 7] = [V_bytes [104, 105], V_u32 7]" by simp_all
  have "heap_room demo_heap (9 * (estimate_size 0 [F_bytes 1 [104, 105], F_u32 7] + length ([] :: bytes)) + 64)"
    unfolding e by (rule heap_room_mono [OF demo_heap_room]) simp
  from parse_emit_roundtrip [OF i32_as_u32 demo_heap_owns s this, unfolded e ty append_Nil2] show ?thesis
    by (elim exE conjE) (intro exI conjI)
qed

text \<open>A parse followed by the generated free function leaves the heap as it was, on success and
  when the parse stops at a malformed field: every block the parser allocated is freed exactly once.\<close>

theorem parse_free_no_leak:
  assumes "heap_owns h A" "parse_fields ts h p = Some (st, fs, h')"
  shows "\<exists>h''. free_fields h' fs = Some h'' \<and> heap_owns h'' A"
  using parse_fields_decode [OF assms(1), of ts p] assms(2) free_fields_ok by auto

theorem parse_free_no_leak_witness:
  "\<exists>fs h' h''. parse_fields [T_string, T_u32] demo_heap [2, 1, 0, 104, 9, 9] = Some (-1, fs, h') \<and>
     free_fields h' fs = Some h'' \<and> heap_owns h'' {}"
proof -
  have "heap_room demo_heap (9 * length [2, 1, 0, 104, 9, 9 :: u8] + 64)"
    using heap_room_mono [OF demo_heap_room] by simp
  from parse_fields_room [OF this, of "[T_string, T_u32]"] obtain st fs h' where
    r: "parse_fields [T_string, T_u32] demo_heap [2, 1, 0, 104, 9, 9] = Some (st, fs, h')" by auto
  have "decode_list decode_val [T_string, T_u32] [2, 1, 0, 104, 9, 9] = None" by code_simp
  then have "st = -1"
    using parse_fields_decode [OF demo_heap_owns, of "[T_string, T_u32]" "[2, 1, 0, 104, 9, 9]"] r by auto
  then show ?thesis using r parse_free_no_leak [OF demo_heap_owns r] by auto
qed

text \<open>C27. \<^verbatim>\<open>encode_result_*\<close> does not bound what it writes: with the 4096-byte buffer of the
  dispatcher it returns exactly when the records fit, and otherwise writes past the buffer.\<close>

theorem encode_result_overflow:
  assumes "i32_writer_ok w" "length buf = 4096"
  shows "encode_result w r buf 4096 = None \<longleftrightarrow> 4096 < length (wire r)"
  using emit_fields_eq [OF assms(1), of 0 "replicate 4096 0" r] assms(2)
  by (auto simp: encode_result_def buf_write_def)

theorem encode_result_overflow_witness:
  "encode_result tlv_write_u32 [F_bytes 1 (replicate 4096 0), F_u32 0, F_u32 0] (replicate 4096 0) 4096 = None"
  using encode_result_overflow [OF i32_as_u32, of "replicate 4096 0" "[F_bytes 1 (replicate 4096 0), F_u32 0, F_u32 0]"]
  by simp

end
