(* ===== verification/Reasm.thy ===== *)
theory Reasm
  imports Allocator "HOL-Library.Monad_Syntax"
begin

text \<open>
  Reassembly of the byte stream of a transport, from \<^verbatim>\<open>ccrpc/source/rpc.c\<close>: received segments
  are queued in \<^verbatim>\<open>struct rpc_buf\<close> blocks of the heap and consumed from the front. The queue, a
  circular list in C, is the list of its blocks from \<^verbatim>\<open>head.next\<close> on, each with its address.
\<close>

section \<open>State and operations\<close>

record rpc_buf =
  rb_addr :: addr
  rb_data :: bytes

record rpc_reasm =
  bufs :: "rpc_buf list"
  total_len :: nat

text \<open>\<^verbatim>\<open>sizeof (struct rpc_header)\<close>, a packed struct, and of the header of \<^verbatim>\<open>struct rpc_buf\<close>.\<close>

definition hdr_size :: nat where "hdr_size = 12"
definition rpc_buf_size :: nat where "rpc_buf_size = 24"

definition rpc_buf_alloc :: "heap \<Rightarrow> bytes \<Rightarrow> (rpc_buf option \<times> heap) option" where
  "rpc_buf_alloc h data = do {
     (b, h) \<leftarrow> heap_malloc h (rpc_buf_size + length data);
     if b = 0 then Some (None, h) else Some (Some \<lparr>rb_addr = b, rb_data = data\<rparr>, h) }"

definition rpc_reasm_append :: "rpc_reasm \<Rightarrow> heap \<Rightarrow> bytes \<Rightarrow> (rpc_reasm \<times> heap) option" where
  "rpc_reasm_append r h data =
     (if length data = 0 then Some (r, h)
      else do {
        (b, h) \<leftarrow> rpc_buf_alloc h data;
        case b of
          None \<Rightarrow> Some (r, h)
        | Some b \<Rightarrow> Some (r\<lparr>bufs := bufs r @ [b], total_len := sz_add (total_len r) (length data)\<rparr>, h) })"

fun peek_loop :: "rpc_buf list \<Rightarrow> bytes \<Rightarrow> bytes" where
  "peek_loop [] hdr = hdr"
| "peek_loop (b # bs) hdr =
     (if length hdr < hdr_size
      then let remain_size = hdr_size - length hdr;
               n = (if remain_size > length (rb_data b) then length (rb_data b) else remain_size)
           in peek_loop bs (hdr @ take n (rb_data b))
      else hdr)"

definition rpc_reasm_peek_header :: "rpc_reasm \<Rightarrow> bytes option" where
  "rpc_reasm_peek_header r =
     (if total_len r < hdr_size then None
      else let hdr = peek_loop (bufs r) []
           in if length hdr = hdr_size then Some hdr else None)"

fun consume_loop :: "rpc_buf list \<Rightarrow> heap \<Rightarrow> nat \<Rightarrow> (bytes \<times> rpc_buf list \<times> heap) option" where
  "consume_loop [] h len = Some ([], [], h)"
| "consume_loop (b # bs) h len =
     (if len = 0 then Some ([], b # bs, h)
      else let n = (if length (rb_data b) < len then length (rb_data b) else len)
           in if n = length (rb_data b)
              then do {
                h \<leftarrow> heap_free h (rb_addr b);
                (out, bs, h) \<leftarrow> consume_loop bs h (len - n);
                Some (rb_data b @ out, bs, h) }
              else Some (take n (rb_data b), b\<lparr>rb_data := drop n (rb_data b)\<rparr> # bs, h))"

text \<open>The bytes copied to \<^verbatim>\<open>out\<close> (discarded when it is NULL), and the queue left.\<close>

definition rpc_reasm_consume :: "rpc_reasm \<Rightarrow> heap \<Rightarrow> nat \<Rightarrow> (bytes \<times> rpc_reasm \<times> heap) option" where
  "rpc_reasm_consume r h len =
     (if len = 0 then Some ([], r, h)
      else do {
        (out, bs, h) \<leftarrow> consume_loop (bufs r) h len;
        Some (out, r\<lparr>bufs := bs, total_len := sz_sub (total_len r) (length out)\<rparr>, h) })"

section \<open>The stream\<close>

definition stream :: "rpc_reasm \<Rightarrow> bytes" where
  "stream r = concat (map rb_data (bufs r))"

definition reasm_addrs :: "rpc_reasm \<Rightarrow> addr set" where
  "reasm_addrs r = rb_addr ` set (bufs r)"

definition reasm_inv :: "rpc_reasm \<Rightarrow> bool" where
  "reasm_inv r \<longleftrightarrow> total_len r = length (stream r) \<and> length (stream r) < 2 ^ 64 \<and>
     distinct (map rb_addr (bufs r)) \<and>
     (\<forall>b \<in> set (bufs r). rb_data b \<noteq> [] \<and> length (rb_data b) \<le> 2 ^ 32)"

text \<open>The queue in a heap that also holds the blocks of \<open>F\<close>.\<close>

definition reasm_ok :: "addr set \<Rightarrow> rpc_reasm \<Rightarrow> heap \<Rightarrow> bool" where
  "reasm_ok F r h \<longleftrightarrow> reasm_inv r \<and> heap_owns h (F \<union> reasm_addrs r) \<and> F \<inter> reasm_addrs r = {}"

lemma stream_simps [simp]:
  "stream (r\<lparr>bufs := []\<rparr>) = []"
  "stream (r\<lparr>bufs := b # bs\<rparr>) = rb_data b @ stream (r\<lparr>bufs := bs\<rparr>)"
  "stream (r\<lparr>bufs := bs @ cs\<rparr>) = stream (r\<lparr>bufs := bs\<rparr>) @ stream (r\<lparr>bufs := cs\<rparr>)"
  "stream (r\<lparr>total_len := n\<rparr>) = stream r"
  by (simp_all add: stream_def)

lemma peek_loop_take:
  "length hdr \<le> 12 \<Longrightarrow> peek_loop bs hdr = hdr @ take (12 - length hdr) (concat (map rb_data bs))"
proof (induction bs arbitrary: hdr)
  case (Cons b bs)
  show ?case
  proof (cases "length hdr < 12")
    case True
    let ?n = "min (length (rb_data b)) (12 - length hdr)"
    have "peek_loop (b # bs) hdr = peek_loop bs (hdr @ take ?n (rb_data b))"
      using True by (auto simp: hdr_size_def Let_def min_def)
    also have "\<dots> = (hdr @ take ?n (rb_data b)) @ take (12 - length (hdr @ take ?n (rb_data b))) (concat (map rb_data bs))"
      using True by (intro Cons.IH) auto
    finally show ?thesis by (simp add: min_def)
  next
    case False
    then show ?thesis using Cons.prems by (simp add: hdr_size_def)
  qed
qed simp

lemma peek_header_stream:
  "reasm_inv r \<Longrightarrow> rpc_reasm_peek_header r = (if length (stream r) < 12 then None else Some (take 12 (stream r)))"
  using peek_loop_take [of "[]" "bufs r"]
  by (auto simp: rpc_reasm_peek_header_def reasm_inv_def hdr_size_def stream_def [symmetric])

lemma consume_loop_ok:
  assumes "heap_owns h (F \<union> rb_addr ` set bs)" "F \<inter> rb_addr ` set bs = {}" "distinct (map rb_addr bs)"
    "\<forall>b \<in> set bs. rb_data b \<noteq> [] \<and> length (rb_data b) \<le> 2 ^ 32"
  shows "\<exists>bs' h'. consume_loop bs h len = Some (take len (concat (map rb_data bs)), bs', h') \<and>
    concat (map rb_data bs') = drop len (concat (map rb_data bs)) \<and>
    heap_owns h' (F \<union> rb_addr ` set bs') \<and> set (map rb_addr bs') \<subseteq> set (map rb_addr bs) \<and>
    distinct (map rb_addr bs') \<and> (\<forall>b \<in> set bs'. rb_data b \<noteq> [] \<and> length (rb_data b) \<le> 2 ^ 32)"
  using assms
proof (induction bs arbitrary: h len)
  case (Cons b bs)
  consider "len = 0" | "0 < len" "length (rb_data b) \<le> len" | "0 < len" "len < length (rb_data b)" by linarith
  then show ?case
  proof cases
    case 2
    have "F \<union> rb_addr ` set (b # bs) - {rb_addr b} = F \<union> rb_addr ` set bs" using Cons.prems by auto
    with hp.release_owns [OF Cons.prems(1), of "rb_addr b"] obtain h1 where
      h1: "heap_free h (rb_addr b) = Some h1" "heap_owns h1 (F \<union> rb_addr ` set bs)" by auto
    have "\<exists>bs' h'. consume_loop bs h1 (len - length (rb_data b)) =
        Some (take (len - length (rb_data b)) (concat (map rb_data bs)), bs', h') \<and>
      concat (map rb_data bs') = drop (len - length (rb_data b)) (concat (map rb_data bs)) \<and>
      heap_owns h' (F \<union> rb_addr ` set bs') \<and> set (map rb_addr bs') \<subseteq> set (map rb_addr bs) \<and>
      distinct (map rb_addr bs') \<and> (\<forall>b \<in> set bs'. rb_data b \<noteq> [] \<and> length (rb_data b) \<le> 2 ^ 32)"
      using Cons.prems h1(2) by (intro Cons.IH) auto
    then obtain bs' h' where IH: "consume_loop bs h1 (len - length (rb_data b)) =
        Some (take (len - length (rb_data b)) (concat (map rb_data bs)), bs', h')"
      "concat (map rb_data bs') = drop (len - length (rb_data b)) (concat (map rb_data bs))"
      "heap_owns h' (F \<union> rb_addr ` set bs')" "set (map rb_addr bs') \<subseteq> set (map rb_addr bs)"
      "distinct (map rb_addr bs')" "\<forall>b \<in> set bs'. rb_data b \<noteq> [] \<and> length (rb_data b) \<le> 2 ^ 32" by blast
    then show ?thesis using h1(1) 2 by (intro exI [of _ bs'] exI [of _ h']) auto
  next
    case 3
    then show ?thesis using Cons.prems by auto
  qed (use Cons.prems in auto)
qed simp


lemma reasm_consume:
  assumes "reasm_ok F r h"
  shows "\<exists>r' h'. rpc_reasm_consume r h n = Some (take n (stream r), r', h') \<and> reasm_ok F r' h' \<and>
    stream r' = drop n (stream r) \<and> reasm_addrs r' \<subseteq> reasm_addrs r"
proof (cases "n = 0")
  case True
  then show ?thesis using assms by (simp add: rpc_reasm_consume_def)
next
  case False
  from assms have inv: "reasm_inv r" and own: "heap_owns h (F \<union> rb_addr ` set (bufs r))"
    "F \<inter> rb_addr ` set (bufs r) = {}" by (auto simp: reasm_ok_def reasm_addrs_def)
  from inv have "distinct (map rb_addr (bufs r))" "\<forall>b \<in> set (bufs r). rb_data b \<noteq> [] \<and> length (rb_data b) \<le> 2 ^ 32"
    by (auto simp: reasm_inv_def)
  from consume_loop_ok [OF own this, of n] obtain bs' h' where
    c: "consume_loop (bufs r) h n = Some (take n (stream r), bs', h')"
    "concat (map rb_data bs') = drop n (stream r)" "heap_owns h' (F \<union> rb_addr ` set bs')"
    "set (map rb_addr bs') \<subseteq> set (map rb_addr (bufs r))" "distinct (map rb_addr bs')"
    "\<forall>b \<in> set bs'. rb_data b \<noteq> [] \<and> length (rb_data b) \<le> 2 ^ 32" unfolding stream_def by blast
  let ?r = "r\<lparr>bufs := bs', total_len := sz_sub (total_len r) (length (take n (stream r)))\<rparr>"
  have s: "stream ?r = drop n (stream r)" using c(2) by (simp add: stream_def)
  have "total_len r = length (stream r)" "length (stream r) < 2 ^ 64" using inv by (simp_all add: reasm_inv_def)
  then have "reasm_inv ?r" using c(5,6) s by (auto simp: reasm_inv_def sz_sub_exact min_def)
  moreover have "reasm_addrs ?r \<subseteq> reasm_addrs r" using c(4) by (simp add: reasm_addrs_def)
  ultimately have "reasm_ok F ?r h'" using c(3) own(2) by (auto simp: reasm_ok_def reasm_addrs_def)
  moreover have "rpc_reasm_consume r h n = Some (take n (stream r), ?r, h')"
    using c(1) False by (simp add: rpc_reasm_consume_def)
  ultimately show ?thesis using s \<open>reasm_addrs ?r \<subseteq> reasm_addrs r\<close> by blast
qed

text \<open>Consuming only frees blocks.\<close>

lemma consume_loop_room:
  assumes "heap_owns h (F \<union> rb_addr ` set bs)" "distinct (map rb_addr bs)" "F \<inter> rb_addr ` set bs = {}"
    and "heap_room h k" "consume_loop bs h n = Some (out, bs', h')"
  shows "heap_room h' k"
  using assms
proof (induction bs arbitrary: h n out bs')
  case (Cons b bs)
  show ?case
  proof (cases "n \<noteq> 0 \<and> length (rb_data b) \<le> n")
    case True
    then obtain h1 out1 where 1: "heap_free h (rb_addr b) = Some h1"
      "consume_loop bs h1 (n - length (rb_data b)) = Some (out1, bs', h')"
      using Cons.prems(5) by (auto split: bind_splits if_splits)
    have "F \<union> rb_addr ` set (b # bs) - {rb_addr b} = F \<union> rb_addr ` set bs" using Cons.prems by auto
    with hp.release_owns [OF Cons.prems(1), of "rb_addr b"] 1(1) have "heap_owns h1 (F \<union> rb_addr ` set bs)" by auto
    moreover have "heap_room h1 k" by (rule free_room [OF Cons.prems(1) _ Cons.prems(4) 1(1)]) simp
    ultimately show ?thesis using Cons.IH [OF _ _ _ _ 1(2)] Cons.prems(2,3) by auto
  next
    case False
    then show ?thesis using Cons.prems(4,5) by (auto split: if_splits)
  qed
qed simp

lemma reasm_consume_room:
  assumes "reasm_ok F r h" "heap_room h k" "rpc_reasm_consume r h n = Some (out, r', h')"
  shows "heap_room h' k"
proof (cases "n = 0")
  case True
  then show ?thesis using assms(2,3) by (simp add: rpc_reasm_consume_def)
next
  case False
  from assms(1) have "heap_owns h (F \<union> rb_addr ` set (bufs r))" "distinct (map rb_addr (bufs r))" "F \<inter> rb_addr ` set (bufs r) = {}"
    by (auto simp: reasm_ok_def reasm_inv_def reasm_addrs_def)
  then show ?thesis using consume_loop_room [of h F "bufs r" k n] assms(2,3) False by (auto simp: rpc_reasm_consume_def split: bind_splits)
qed

text \<open>The blocks of the queue have different addresses in the arena, so the stream cannot overflow
  \<^verbatim>\<open>total_len\<close>.\<close>

lemma stream_bound:
  assumes "reasm_ok F r h"
  shows "length (stream r) \<le> 2 ^ 53"
proof -
  from assms have inv: "distinct (map rb_addr (bufs r))" "\<forall>b \<in> set (bufs r). length (rb_data b) \<le> 2 ^ 32"
    and own: "heap_owns h (F \<union> reasm_addrs r)" by (auto simp: reasm_ok_def reasm_inv_def)
  have "length (bufs r) = card (set (map rb_addr (bufs r)))" using distinct_card [OF inv(1)] by simp
  also have "\<dots> \<le> card (F \<union> reasm_addrs r)"
    using heap_owns_card(1) [OF own] by (intro card_mono) (auto simp: reasm_addrs_def)
  also have "\<dots> \<le> 2 ^ 21" by (rule heap_owns_card(2) [OF own])
  finally have n: "length (bufs r) \<le> 2 ^ 21" .
  have "length (concat (map rb_data bs)) \<le> length bs * 2 ^ 32"
    if "\<forall>b \<in> set bs. length (rb_data b) \<le> 2 ^ 32" for bs using that by (induction bs) auto
  then have "length (stream r) \<le> length (bufs r) * 2 ^ 32" using inv(2) unfolding stream_def by blast
  also have "\<dots> \<le> 2 ^ 21 * 2 ^ 32" using n by (intro mult_right_mono) auto
  finally show ?thesis by simp
qed

lemma reasm_append:
  assumes ok: "reasm_ok F r h" and lim': "length d \<le> 2 ^ 32"
  shows "\<exists>r' h'. rpc_reasm_append r h d = Some (r', h') \<and> reasm_ok F r' h' \<and>
    (stream r' = stream r @ d \<or> d \<noteq> [] \<and> r' = r \<and> heap_malloc h (24 + length d) = Some (0, h')) \<and>
    (\<exists>p. reasm_addrs r' \<subseteq> insert p (reasm_addrs r))"
proof (cases "d = []")
  case True
  then show ?thesis using ok by (auto simp: rpc_reasm_append_def)
next
  case False
  from ok have inv: "reasm_inv r" and own: "heap_owns h (F \<union> reasm_addrs r)" "F \<inter> reasm_addrs r = {}"
    by (auto simp: reasm_ok_def)
  have lim: "length (stream r) + length d < 2 ^ 62" using stream_bound [OF ok] lim' by simp
  then have n: "24 + length d < 2 ^ 63" by simp
  from own(1) n show ?thesis
  proof (cases rule: hp.alloc_cases)
    case (null h')
    then show ?thesis using False inv own(2)
      by (auto simp: rpc_reasm_append_def rpc_buf_alloc_def rpc_buf_size_def reasm_ok_def)
  next
    case (fresh p h')
    let ?b = "\<lparr>rb_addr = p, rb_data = d\<rparr>"
    let ?r = "r\<lparr>bufs := bufs r @ [?b], total_len := sz_add (total_len r) (length d)\<rparr>"
    have s: "stream ?r = stream r @ d" by (simp add: stream_def)
    have a: "reasm_addrs ?r = insert p (reasm_addrs r)" by (auto simp: reasm_addrs_def)
    have "total_len r = length (stream r)" using inv by (simp add: reasm_inv_def)
    then have "reasm_inv ?r" using inv s lim lim' fresh(3) False
      by (auto simp: reasm_inv_def sz_add_exact reasm_addrs_def)
    then have "reasm_ok F ?r h'" using a fresh(3,4) own(2) by (auto simp: reasm_ok_def)
    moreover have "rpc_reasm_append r h d = Some (?r, h')" using fresh(1,2) False
      by (simp add: rpc_reasm_append_def rpc_buf_alloc_def rpc_buf_size_def)
    ultimately show ?thesis using s a by blast
  qed
qed

section \<open>The interface: a byte queue\<close>

primrec consume_pieces :: "('r \<Rightarrow> heap \<Rightarrow> nat \<Rightarrow> (bytes \<times> 'r \<times> heap) option) \<Rightarrow> 'r \<Rightarrow> heap \<Rightarrow> nat list \<Rightarrow>
    (bytes list \<times> 'r \<times> heap) option" where
  "consume_pieces consume r h [] = Some ([], r, h)"
| "consume_pieces consume r h (n # ns) = do {
     (b, r, h) \<leftarrow> consume r h n;
     (bs, r, h) \<leftarrow> consume_pieces consume r h ns;
     Some (b # bs, r, h) }"

locale byte_queue =
  fixes ok :: "addr set \<Rightarrow> 'r \<Rightarrow> heap \<Rightarrow> bool"
    and contents :: "'r \<Rightarrow> bytes"
    and append :: "'r \<Rightarrow> heap \<Rightarrow> bytes \<Rightarrow> ('r \<times> heap) option"
    and peek :: "'r \<Rightarrow> bytes option"
    and consume :: "'r \<Rightarrow> heap \<Rightarrow> nat \<Rightarrow> (bytes \<times> 'r \<times> heap) option"
  assumes append_ok: "ok F r h \<Longrightarrow> length d \<le> 2 ^ 32 \<Longrightarrow>
      \<exists>r' h'. append r h d = Some (r', h') \<and> ok F r' h' \<and> (contents r' = contents r @ d \<or> contents r' = contents r)"
    and peek_ok: "ok F r h \<Longrightarrow>
      peek r = (if length (contents r) < 12 then None else Some (take 12 (contents r)))"
    and consume_ok: "ok F r h \<Longrightarrow>
      \<exists>r' h'. consume r h n = Some (take n (contents r), r', h') \<and> ok F r' h' \<and> contents r' = drop n (contents r)"
begin

lemma consume_pieces_ok:
  "ok F r h \<Longrightarrow> \<exists>bs r' h'. consume_pieces consume r h ns = Some (bs, r', h') \<and> ok F r' h' \<and>
     concat bs = take (sum_list ns) (contents r) \<and> contents r' = drop (sum_list ns) (contents r)"
proof (induction ns arbitrary: r h)
  case (Cons n ns)
  from consume_ok [OF Cons.prems, of n] obtain r1 h1 where
    c: "consume r h n = Some (take n (contents r), r1, h1)" "ok F r1 h1" "contents r1 = drop n (contents r)" by blast
  from Cons.IH [OF c(2)] obtain bs r' h' where
    "consume_pieces consume r1 h1 ns = Some (bs, r', h')" "ok F r' h'"
    "concat bs = take (sum_list ns) (contents r1)" "contents r' = drop (sum_list ns) (contents r1)" by blast
  then show ?case using c
    by (intro exI [of _ "take n (contents r) # bs"] exI [of _ r'] exI [of _ h']) (simp add: take_add add.commute)
qed simp

end

interpretation rq: byte_queue reasm_ok stream rpc_reasm_append rpc_reasm_peek_header rpc_reasm_consume
proof
  fix F r h d n
  assume ok: "reasm_ok F r h"
  show "\<exists>r' h'. rpc_reasm_append r h d = Some (r', h') \<and> reasm_ok F r' h' \<and>
      (stream r' = stream r @ d \<or> stream r' = stream r)" if "length d \<le> 2 ^ 32"
    using reasm_append [OF ok that] by auto
  show "rpc_reasm_peek_header r = (if length (stream r) < 12 then None else Some (take 12 (stream r)))"
    using ok by (simp add: reasm_ok_def peek_header_stream)
  show "\<exists>r' h'. rpc_reasm_consume r h n = Some (take n (stream r), r', h') \<and> reasm_ok F r' h' \<and>
      stream r' = drop n (stream r)"
    using reasm_consume [OF ok, of n] by blast
qed

section \<open>Properties\<close>

text \<open>C20. The reassembly queue is a byte queue: a segment that is accepted goes to the end of the
  stream whatever the sizes of the blocks before it, the header is read across block boundaries,
  consuming takes bytes from the front and frees the blocks it has emptied; a segment for which no
  block can be allocated is dropped.\<close>

theorem reasm_fifo:
  assumes "reasm_ok F r h" "length d \<le> 2 ^ 32"
  shows "\<exists>r' h'. rpc_reasm_append r h d = Some (r', h') \<and> reasm_ok F r' h' \<and>
    (stream r' = stream r @ d \<or> stream r' = stream r \<and> heap_malloc h (24 + length d) = Some (0, h')) \<and>
    rpc_reasm_peek_header r' = (if length (stream r') < 12 then None else Some (take 12 (stream r'))) \<and>
    (\<exists>r'' h''. rpc_reasm_consume r' h' n = Some (take n (stream r'), r'', h'') \<and> reasm_ok F r'' h'' \<and>
       stream r'' = drop n (stream r'))"
proof -
  from reasm_append [OF assms] obtain r' h' where a: "rpc_reasm_append r h d = Some (r', h')" "reasm_ok F r' h'"
    "stream r' = stream r @ d \<or> d \<noteq> [] \<and> r' = r \<and> heap_malloc h (24 + length d) = Some (0, h')" by blast
  have "rpc_reasm_peek_header r' = (if length (stream r') < 12 then None else Some (take 12 (stream r')))"
    by (rule rq.peek_ok [OF a(2)])
  then show ?thesis using a rq.consume_ok [OF a(2), of n] by auto
qed

definition demo_reasm :: rpc_reasm where
  "demo_reasm = \<lparr>bufs = [], total_len = 0\<rparr>"

lemma demo_reasm_ok: "heap_owns h F \<Longrightarrow> reasm_ok F demo_reasm h"
  by (simp add: reasm_ok_def reasm_inv_def reasm_addrs_def stream_def demo_reasm_def)

theorem reasm_fifo_witness:
  "\<exists>r' h'. rpc_reasm_append demo_reasm demo_heap [1, 2, 3] = Some (r', h') \<and> reasm_ok {} r' h'"
  using reasm_fifo [OF demo_reasm_ok [OF demo_heap_owns], of "[1, 2, 3]" 2]
  by (auto simp: demo_reasm_def stream_def)

end
