(* ===== verification/Port.thy ===== *)
theory Port
  imports Prelude
begin

text \<open>
  The waiters and the clock of \<^verbatim>\<open>ccrpc/source/rpc_port.c\<close>. What the operating system decides is
  an argument: whether \<^verbatim>\<open>malloc\<close> succeeds, the clock, and, for each time
  \<^verbatim>\<open>pthread_cond_timedwait\<close> returns, its result and the value of \<^verbatim>\<open>signaled\<close> at that moment,
  which other threads may have changed while the lock was released. A wait for which these
  events run out has not returned. The locks themselves only order the critical sections.
\<close>

record rpc_waiter =
  signaled :: bool

record timespec =
  tv_sec :: int
  tv_nsec :: int

definition rpc_waiter_create :: "bool \<Rightarrow> rpc_waiter option" where
  "rpc_waiter_create malloc_ok = (if malloc_ok then Some \<lparr>signaled = False\<rparr> else None)"

definition wait_deadline :: "timespec \<Rightarrow> u32 \<Rightarrow> timespec" where
  "wait_deadline ts timeout_ms =
     (let ts = ts\<lparr>tv_sec := tv_sec ts + uint (timeout_ms div 1000)\<rparr>;
          ts = ts\<lparr>tv_nsec := tv_nsec ts + uint ((timeout_ms mod 1000) * 1000000)\<rparr>
      in if tv_nsec ts \<ge> 1000000000
         then ts\<lparr>tv_sec := tv_sec ts + 1, tv_nsec := tv_nsec ts - 1000000000\<rparr>
         else ts)"

type_synonym wait_event = "int \<times> bool"

fun wait_loop :: "rpc_waiter \<Rightarrow> wait_event list \<Rightarrow> (int \<times> rpc_waiter) option" where
  "wait_loop w evs =
     (if signaled w then Some (0, w\<lparr>signaled := False\<rparr>)
      else case evs of
        [] \<Rightarrow> None
      | (r, s) # evs \<Rightarrow>
          let w = w\<lparr>signaled := s\<rparr>
          in if r \<noteq> 0 then Some (-1, w) else wait_loop w evs)"

declare wait_loop.simps [simp del]

text \<open>The events come from waiting until the deadline.\<close>

definition rpc_waiter_wait :: "(timespec \<Rightarrow> wait_event list) \<Rightarrow> timespec \<Rightarrow> rpc_waiter \<Rightarrow> u32 \<Rightarrow>
    (int \<times> rpc_waiter) option" where
  "rpc_waiter_wait events clock w timeout_ms = wait_loop w (events (wait_deadline clock timeout_ms))"

definition rpc_waiter_wake :: "rpc_waiter \<Rightarrow> rpc_waiter" where
  "rpc_waiter_wake w = w\<lparr>signaled := True\<rparr>"

definition rpc_now_ms :: "timespec \<Rightarrow> u32" where
  "rpc_now_ms ts = word_of_int (tv_sec ts * 1000 + tv_nsec ts div 1000000)"

lemma wait_loop_simps [simp]:
  "signaled w \<Longrightarrow> wait_loop w evs = Some (0, w\<lparr>signaled := False\<rparr>)"
  "\<not> signaled w \<Longrightarrow> wait_loop w [] = None"
  "\<not> signaled w \<Longrightarrow> wait_loop w ((r, s) # evs) =
     (if r \<noteq> 0 then Some (-1, w\<lparr>signaled := s\<rparr>) else wait_loop (w\<lparr>signaled := s\<rparr>) evs)"
  by (subst wait_loop.simps, simp add: Let_def)+

text \<open>Every spurious wake-up (result 0, flag not set) leads back to waiting.\<close>

lemma wait_loop_spurious:
  "\<not> signaled w \<Longrightarrow> wait_loop w (replicate n (0, False) @ evs) = wait_loop w evs"
proof (induction n)
  case (Suc n)
  then have e: "w\<lparr>signaled := False\<rparr> = w" by simp
  have "wait_loop w (replicate (Suc n) (0, False) @ evs) = wait_loop (w\<lparr>signaled := False\<rparr>) (replicate n (0, False) @ evs)"
    using Suc.prems by simp
  then show ?case unfolding e using Suc by simp
qed simp

lemma wait_loop_prefix:
  assumes "\<not> signaled w"
  obtains n e evs' where "evs = replicate n (0, False) @ e # evs'" "e \<noteq> (0, False)"
  | n where "evs = replicate n (0, False)"
proof (cases "\<exists>e \<in> set evs. e \<noteq> (0, False)")
  case True
  then obtain xs e ys where "evs = xs @ e # ys" "e \<noteq> (0, False)" "\<forall>x \<in> set xs. x = (0, False)"
    using split_list_first_prop [of evs "\<lambda>e. e \<noteq> (0, False)"] by auto
  then show ?thesis using that(1) by (metis replicate_length_same)
next
  case False
  then show ?thesis using that(2) by (metis replicate_length_same)
qed

section \<open>Properties\<close>

text \<open>A wait returns as soon as the flag is set or a timed wait reports an error, whatever the
  number of spurious wake-ups before it; it returns 0, with the flag cleared, exactly when the flag
  was found set, and -1 when the timed wait failed, even if the flag was set at that moment.\<close>

theorem waiter_wait_outcome:
  "wait_loop w evs =
     (if signaled w then Some (0, w\<lparr>signaled := False\<rparr>)
      else case dropWhile (\<lambda>e. e = (0, False)) evs of
        [] \<Rightarrow> None
      | (r, s) # _ \<Rightarrow> if r \<noteq> 0 then Some (-1, w\<lparr>signaled := s\<rparr>) else Some (0, w\<lparr>signaled := False\<rparr>))"
proof (cases "signaled w")
  case False
  then show ?thesis
  proof (cases rule: wait_loop_prefix [of w evs, case_names stop block])
    case (stop n e evs')
    obtain r s where e: "e = (r, s)" by fastforce
    have "dropWhile (\<lambda>e. e = (0, False)) evs = e # evs'"
      using stop by (simp add: dropWhile_append)
    then show ?thesis using False stop e by (auto simp: wait_loop_spurious)
  next
    case (block n)
    then show ?thesis using False wait_loop_spurious [OF False, of n "[]"] by simp
  qed
qed simp

text \<open>The deadline of a wait is the current time plus the timeout, in milliseconds, and its
  nanoseconds stay in range.\<close>

theorem wait_deadline_exact:
  assumes "0 \<le> tv_nsec ts" "tv_nsec ts < 1000000000"
  shows "let d = wait_deadline ts ms in
    tv_sec d * 1000000000 + tv_nsec d = tv_sec ts * 1000000000 + tv_nsec ts + uint ms * 1000000 \<and>
    0 \<le> tv_nsec d \<and> tv_nsec d < 1000000000"
proof -
  have "uint (ms div 1000) = uint ms div 1000" by (simp add: uint_div)
  moreover have m: "uint (ms mod 1000) = uint ms mod 1000" by (simp add: uint_mod)
  moreover have "uint ((ms mod 1000) * 1000000) = uint ms mod 1000 * 1000000"
  proof -
    have "uint ms mod 1000 < 1000" by simp
    then have "uint (ms mod 1000) * uint (1000000 :: u32) < 2 ^ LENGTH(32)" using m by simp
    then show ?thesis unfolding uint_mult_lem using m by simp
  qed
  moreover have "uint ms div 1000 * 1000000000 + uint ms mod 1000 * 1000000 = uint ms * 1000000"
    using div_mult_mod_eq [of "uint ms" 1000] by linarith
  ultimately show ?thesis using assms by (auto simp: wait_deadline_def Let_def)
qed

theorem wait_deadline_exact_witness:
  "let d = wait_deadline \<lparr>tv_sec = 5, tv_nsec = 900000000\<rparr> 1500 in
   tv_sec d * 1000000000 + tv_nsec d = 5900000000 + uint (1500 :: u32) * 1000000 \<and> tv_nsec d < 1000000000"
  using wait_deadline_exact [of "\<lparr>tv_sec = 5, tv_nsec = 900000000\<rparr>" 1500] by (simp add: Let_def)

end
