(* ===== verification/Rpc.thy ===== *)
theory Rpc
  imports Hashmap Gen Reasm Port
begin

text \<open>
  The RPC core of \<^verbatim>\<open>ccrpc/source/rpc.c\<close>. The record \<open>rpc\<close> holds its static variables, the heap,
  and the objects it keeps in the heap, by address and type: methods, transport entries,
  transports, pending calls. \<open>'w\<close> is the state of the world outside (sockets, files), which the
  transport callbacks and the method handlers read and change. A dangling or NULL dereference, a
  write past a buffer and a lock that is never released have no result (\<open>None\<close>).

  The static buffers \<^verbatim>\<open>param_buf\<close>, \<^verbatim>\<open>result_buf\<close>, \<^verbatim>\<open>method\<close>, \<^verbatim>\<open>resp_tlv\<close> and
  \<^verbatim>\<open>poll_buf\<close> are overwritten before each use and are local values here. \<open>rx_log\<close> records the
  messages that \<^verbatim>\<open>rpc_debug_dump_rx\<close> is called with.
\<close>

section \<open>Data\<close>

definition RPC_STATUS_OK :: int where "RPC_STATUS_OK = 0"
definition RPC_STATUS_METHOD_NOT_FOUND :: int where "RPC_STATUS_METHOD_NOT_FOUND = 1"
definition RPC_STATUS_INVALID_PARAMS :: int where "RPC_STATUS_INVALID_PARAMS = 2"
definition RPC_STATUS_INTERNAL_ERROR :: int where "RPC_STATUS_INTERNAL_ERROR = 3"
definition RPC_STATUS_TRANSPORT_ERROR :: int where "RPC_STATUS_TRANSPORT_ERROR = 4"
definition RPC_STATUS_TIMEOUT :: int where "RPC_STATUS_TIMEOUT = 5"

lemmas rpc_status_defs = RPC_STATUS_OK_def RPC_STATUS_METHOD_NOT_FOUND_def RPC_STATUS_INVALID_PARAMS_def
  RPC_STATUS_INTERNAL_ERROR_def RPC_STATUS_TRANSPORT_ERROR_def RPC_STATUS_TIMEOUT_def

definition MTU :: nat where "MTU = 4096"
definition RPC_MAX_RESULT_TLV_SIZE :: nat where "RPC_MAX_RESULT_TLV_SIZE = 4096"
definition METHOD_LEN :: nat where "METHOD_LEN = 128"

record rpc_header =
  hdr_status :: u16
  hdr_seq :: u32
  hdr_msg_len :: u32
  hdr_method_len :: u16

text \<open>The packed struct in memory.\<close>

definition header_bytes :: "rpc_header \<Rightarrow> bytes" where
  "header_bytes hdr = le16 (hdr_status hdr) @ le32 (hdr_seq hdr) @ le32 (hdr_msg_len hdr) @ le16 (hdr_method_len hdr)"

definition header_at :: "bytes \<Rightarrow> rpc_header" where
  "header_at b = \<lparr>hdr_status = of_le16 (take 2 b), hdr_seq = of_le32 (take 4 (drop 2 b)),
     hdr_msg_len = of_le32 (take 4 (drop 6 b)), hdr_method_len = of_le16 (take 2 (drop 10 b))\<rparr>"

record 'w rpc_transport_class =
  t_send :: "(addr \<Rightarrow> bytes \<Rightarrow> 'w \<Rightarrow> u64 \<times> 'w) option"
  t_recv :: "(addr \<Rightarrow> nat \<Rightarrow> 'w \<Rightarrow> u64 \<times> bytes \<times> 'w) option"
  t_close :: "(addr \<Rightarrow> 'w \<Rightarrow> 'w) option"
  t_user :: addr
  t_reasm :: rpc_reasm

record 'w rpc_method_entry =
  me_name :: bytes
  me_parse :: "(heap \<Rightarrow> bytes \<Rightarrow> (int \<times> field list \<times> heap) option) option"
  me_handler :: "('w \<Rightarrow> heap \<Rightarrow> field list \<Rightarrow> (int \<times> field list \<times> heap \<times> 'w) option) option"
  me_encode :: "(field list \<Rightarrow> bytes \<Rightarrow> nat \<Rightarrow> (int \<times> bytes \<times> nat) option) option"
  me_free_param :: "(heap \<Rightarrow> field list \<Rightarrow> heap option) option"
  me_free_result :: "(heap \<Rightarrow> field list \<Rightarrow> heap option) option"

record rpc_transport_entry =
  te_name :: bytes
  te_transport :: addr

record pending_call =
  pc_seq :: u32
  pc_buf :: "bytes option"
  buf_size :: nat
  resp_len :: nat
  pc_status :: int
  pc_done :: bool
  pc_waiter :: rpc_waiter

record 'w rpc =
  rheap :: heap
  g_methods :: hashmap
  g_pending :: hashmap
  g_transport_map :: hashmap
  g_next_seq :: u32
  meths :: "addr \<rightharpoonup> 'w rpc_method_entry"
  tents :: "addr \<rightharpoonup> rpc_transport_entry"
  trans :: "addr \<rightharpoonup> 'w rpc_transport_class"
  calls :: "addr \<rightharpoonup> pending_call"
  rpc_locked :: bool
  rx_log :: "bytes list"
  world :: 'w

text \<open>Keys of the maps: a sequence number, or a C string.\<close>

definition int_key :: "u32 \<Rightarrow> hm_key" where
  "int_key q = \<lparr>k_word = ucast q, k_chars = []\<rparr>"

definition str_key :: "bytes \<Rightarrow> hm_key" where
  "str_key s = \<lparr>k_word = 0, k_chars = c_str s\<rparr>"

text \<open>\<^verbatim>\<open>(int)\<close> of a \<^verbatim>\<open>size_t\<close>.\<close>

definition to_int :: "u64 \<Rightarrow> int" where
  "to_int r = sint (ucast r :: u32)"

definition rpc_port_lock :: "'w rpc \<Rightarrow> 'w rpc option" where
  "rpc_port_lock s = (if rpc_locked s then None else Some (s\<lparr>rpc_locked := True\<rparr>))"

definition rpc_port_unlock :: "'w rpc \<Rightarrow> 'w rpc" where
  "rpc_port_unlock s = s\<lparr>rpc_locked := False\<rparr>"

section \<open>Sequence numbers and sending\<close>

partial_function (option) rpc_next_seq :: "'w rpc \<Rightarrow> (u32 \<times> 'w rpc) option" where
  "rpc_next_seq s =
     (let q = g_next_seq s;
          s = s\<lparr>g_next_seq := q + 1\<rparr>;
          s = (if g_next_seq s = 0 then s\<lparr>g_next_seq := 1\<rparr> else s)
      in do {
        c \<leftarrow> hashmap_contains (g_pending s) (int_key q);
        if c then rpc_next_seq s else Some (q, s) })"

definition response_msg :: "u32 \<Rightarrow> int \<Rightarrow> bytes \<Rightarrow> bytes" where
  "response_msg seq status tlvs = header_bytes
     \<lparr>hdr_status = htons (word_of_int status), hdr_seq = htonl seq,
      hdr_msg_len = htonl (word_of_nat (length tlvs)), hdr_method_len = htons 0\<rparr> @ tlvs"

definition request_msg :: "u32 \<Rightarrow> bytes \<Rightarrow> bytes \<Rightarrow> bytes" where
  "request_msg seq name tlvs = (let mlen = length (c_str name) in header_bytes
     \<lparr>hdr_status = htons (word_of_int RPC_STATUS_OK), hdr_seq = htonl seq,
      hdr_msg_len = htonl (word_of_nat (mlen + length tlvs)), hdr_method_len = htons (word_of_nat mlen)\<rparr>
     @ c_str name @ tlvs)"

text \<open>The common tail of the two send functions: allocate, fill, send, free.\<close>

definition send_msg :: "'w rpc \<Rightarrow> 'w rpc_transport_class \<Rightarrow> bytes \<Rightarrow> (int \<times> 'w rpc) option" where
  "send_msg s tc msg =
     (case t_send tc of
        None \<Rightarrow> Some (-1, s)
      | Some send \<Rightarrow> do {
          (p, h) \<leftarrow> heap_malloc (rheap s) (length msg);
          if p = 0 then Some (-1, s\<lparr>rheap := h\<rparr>)
          else let (r, w) = send (t_user tc) msg (world s)
               in do {
                 h \<leftarrow> heap_free h p;
                 Some (to_int r, s\<lparr>rheap := h, world := w\<rparr>) } })"

definition rpc_send_response_tlv :: "'w rpc \<Rightarrow> addr \<Rightarrow> u32 \<Rightarrow> int \<Rightarrow> bytes \<Rightarrow> (int \<times> 'w rpc) option" where
  "rpc_send_response_tlv s t seq status tlvs =
     (if t = 0 then Some (-1, s)
      else do { tc \<leftarrow> trans s t; send_msg s tc (response_msg seq status tlvs) })"

definition rpc_send_request_tlv :: "'w rpc \<Rightarrow> addr \<Rightarrow> u32 \<Rightarrow> bytes option \<Rightarrow> bytes \<Rightarrow> (int \<times> 'w rpc) option" where
  "rpc_send_request_tlv s t seq name tlvs =
     (if t = 0 then Some (-1, s)
      else do {
        tc \<leftarrow> trans s t;
        case name of None \<Rightarrow> Some (-1, s) | Some name \<Rightarrow> send_msg s tc (request_msg seq name tlvs) })"

section \<open>Messages\<close>

text \<open>The optional callbacks of a method.\<close>

definition run_parse :: "'w rpc_method_entry \<Rightarrow> heap \<Rightarrow> bytes \<Rightarrow> (int \<times> field list \<times> heap) option" where
  "run_parse m h tlvs = (case me_parse m of None \<Rightarrow> Some (0, [], h) | Some f \<Rightarrow> f h tlvs)"

definition run_handler :: "'w rpc_method_entry \<Rightarrow> 'w \<Rightarrow> heap \<Rightarrow> field list \<Rightarrow>
    (int \<times> field list \<times> heap \<times> 'w) option" where
  "run_handler m w h ps = (case me_handler m of None \<Rightarrow> Some (0, [], h, w) | Some f \<Rightarrow> f w h ps)"

definition run_encode :: "'w rpc_method_entry \<Rightarrow> field list \<Rightarrow> (int \<times> bytes \<times> nat) option" where
  "run_encode m rs =
     (let resp_tlv = replicate RPC_MAX_RESULT_TLV_SIZE 0
      in case me_encode m of
           None \<Rightarrow> Some (0, resp_tlv, RPC_MAX_RESULT_TLV_SIZE)
         | Some f \<Rightarrow> f rs resp_tlv RPC_MAX_RESULT_TLV_SIZE)"

definition run_free :: "(heap \<Rightarrow> field list \<Rightarrow> heap option) option \<Rightarrow> heap \<Rightarrow> field list \<Rightarrow> heap option" where
  "run_free f h fs = (case f of None \<Rightarrow> Some h | Some f \<Rightarrow> f h fs)"

definition run_method :: "'w rpc \<Rightarrow> addr \<Rightarrow> u32 \<Rightarrow> 'w rpc_method_entry \<Rightarrow> bytes \<Rightarrow> 'w rpc option" where
  "run_method s t seq m tlvs = do {
     (rc, ps, h) \<leftarrow> run_parse m (rheap s) tlvs;
     let s = s\<lparr>rheap := h\<rparr>;
     let status = (if rc \<noteq> 0 then RPC_STATUS_INVALID_PARAMS else RPC_STATUS_OK);
     (rc, rs, h, w) \<leftarrow> (if status = RPC_STATUS_OK then run_handler m (world s) (rheap s) ps
                       else Some (0, [], rheap s, world s));
     let s = s\<lparr>rheap := h, world := w\<rparr>;
     let status = (if rc \<noteq> 0 then RPC_STATUS_INTERNAL_ERROR else status);
     (rc, buf, n) \<leftarrow> (if status = RPC_STATUS_OK then run_encode m rs else Some (0, [], 0));
     let status = (if rc \<noteq> 0 then RPC_STATUS_INTERNAL_ERROR else status);
     let n = (if rc \<noteq> 0 then 0 else n);
     tlv \<leftarrow> (if status = RPC_STATUS_OK then buf_read buf 0 n else Some []);
     (r, s) \<leftarrow> rpc_send_response_tlv s t seq status tlv;
     h \<leftarrow> run_free (me_free_param m) (rheap s) ps;
     h \<leftarrow> run_free (me_free_result m) h rs;
     Some (s\<lparr>rheap := h\<rparr>) }"

definition rpc_handle_request :: "'w rpc \<Rightarrow> addr \<Rightarrow> bytes \<Rightarrow> 'w rpc option" where
  "rpc_handle_request s t msg =
     (if length msg < hdr_size then Some s
      else let hdr = header_at msg;
               seq = ntohl (hdr_seq hdr);
               msg_len = unat (ntohl (hdr_msg_len hdr));
               method_len = unat (ntohs (hdr_method_len hdr))
           in if msg_len < method_len then Some s
              else if method_len = 0 \<or> method_len \<ge> METHOD_LEN then Some s
              else if length msg < hdr_size + msg_len then Some s
              else let payload = drop hdr_size msg;
                       method = take method_len payload;
                       tlvs = take (msg_len - method_len) (drop method_len payload)
                   in do {
                     a \<leftarrow> hashmap_get (g_methods s) (str_key method);
                     if a = 0
                     then do { (r, s) \<leftarrow> rpc_send_response_tlv s t seq RPC_STATUS_METHOD_NOT_FOUND []; Some s }
                     else do { m \<leftarrow> meths s a; run_method s t seq m tlvs } })"

definition rpc_handle_response :: "'w rpc \<Rightarrow> bytes \<Rightarrow> 'w rpc option" where
  "rpc_handle_response s msg =
     (if length msg < hdr_size then Some s
      else let hdr = header_at msg;
               seq = ntohl (hdr_seq hdr);
               msg_len = unat (ntohl (hdr_msg_len hdr))
           in if length msg < hdr_size + msg_len then Some s
              else do {
                a \<leftarrow> hashmap_get (g_pending s) (int_key seq);
                if a = 0 then Some s
                else do {
                  pc \<leftarrow> calls s a;
                  let copy_len = (if msg_len > buf_size pc then buf_size pc else msg_len);
                  buf \<leftarrow> (case pc_buf pc of
                           None \<Rightarrow> Some None
                         | Some b \<Rightarrow> map_option Some (buf_write b 0 (take copy_len (drop hdr_size msg))));
                  Some (s\<lparr>calls := (calls s)(a \<mapsto> pc\<lparr>pc_buf := buf, resp_len := copy_len,
                          pc_status := uint (ntohs (hdr_status hdr)), pc_done := True,
                          pc_waiter := rpc_waiter_wake (pc_waiter pc)\<rparr>)\<rparr>) } })"

definition rpc_dispatch_message :: "'w rpc \<Rightarrow> addr \<Rightarrow> bytes \<Rightarrow> 'w rpc option" where
  "rpc_dispatch_message s t msg =
     (let s = s\<lparr>rx_log := rx_log s @ [msg]\<rparr>
      in if length msg < hdr_size then Some s
         else if ntohs (hdr_method_len (header_at msg)) = 0 then rpc_handle_response s msg
         else rpc_handle_request s t msg)"

section \<open>Received data\<close>

definition set_reasm :: "'w rpc \<Rightarrow> addr \<Rightarrow> 'w rpc_transport_class \<Rightarrow> rpc_reasm \<Rightarrow> heap \<Rightarrow> 'w rpc" where
  "set_reasm s t tc r h = s\<lparr>rheap := h, trans := (trans s)(t \<mapsto> tc\<lparr>t_reasm := r\<rparr>)\<rparr>"

partial_function (option) on_data_loop :: "'w rpc \<Rightarrow> addr \<Rightarrow> 'w rpc option" where
  "on_data_loop s t = do {
     tc \<leftarrow> trans s t;
     if total_len (t_reasm tc) < hdr_size then Some s
     else case rpc_reasm_peek_header (t_reasm tc) of
       None \<Rightarrow> Some s
     | Some hdr \<Rightarrow>
         let need = hdr_size + unat (ntohl (hdr_msg_len (header_at hdr)))
         in if total_len (t_reasm tc) < need then Some s
            else do {
              (p, h) \<leftarrow> heap_malloc (rheap s) need;
              (msg, r, h) \<leftarrow> rpc_reasm_consume (t_reasm tc) h need;
              let s = set_reasm s t tc r h;
              if p = 0 then on_data_loop s t
              else do {
                s \<leftarrow> rpc_dispatch_message s t msg;
                h \<leftarrow> heap_free (rheap s) p;
                on_data_loop (s\<lparr>rheap := h\<rparr>) t } } }"

definition on_data_append :: "'w rpc \<Rightarrow> addr \<Rightarrow> 'w rpc_transport_class \<Rightarrow> bytes \<Rightarrow> 'w rpc option" where
  "on_data_append s t tc data = do {
     (r, h) \<leftarrow> rpc_reasm_append (t_reasm tc) (rheap s) data;
     s \<leftarrow> on_data_loop (set_reasm s t tc r h) t;
     Some (rpc_port_unlock s) }"

definition rpc_on_data :: "'w rpc \<Rightarrow> addr \<Rightarrow> bytes \<Rightarrow> 'w rpc option" where
  "rpc_on_data s t buf =
     (if t = 0 then Some s
      else do {
        tc \<leftarrow> trans s t;
        case t_recv tc of
          None \<Rightarrow> Some s
        | Some recv \<Rightarrow> do {
            s \<leftarrow> rpc_port_lock s;
            if length buf > 0 then on_data_append s t tc buf
            else let (n, poll_buf, w) = recv (t_user tc) MTU (world s);
                     s = s\<lparr>world := w\<rparr>
                 in if sint n > 0
                    then do { data \<leftarrow> buf_read poll_buf 0 (unat n); on_data_append s t tc data }
                    else Some s } })"

section \<open>Set-up\<close>

text \<open>The static variables of the file before \<^verbatim>\<open>rpc_init\<close>.\<close>

definition hashmap_zero :: hashmap where
  "hashmap_zero = \<lparr>buckets_at = 0, bucket_count = 0, key_type = 0, buckets = []\<rparr>"

definition rpc_static :: "heap \<Rightarrow> 'w \<Rightarrow> 'w rpc" where
  "rpc_static h w = \<lparr>rheap = h, g_methods = hashmap_zero, g_pending = hashmap_zero, g_transport_map = hashmap_zero,
     g_next_seq = 1, meths = Map.empty, tents = Map.empty, trans = Map.empty, calls = Map.empty,
     rpc_locked = False, rx_log = [], world = w\<rparr>"

definition rpc_init :: "'w rpc \<Rightarrow> u8 \<Rightarrow> u8 \<Rightarrow> u8 \<Rightarrow> 'w rpc option" where
  "rpc_init s method_cap pending_cap transport_cap = do {
     (gm, h) \<leftarrow> hashmap_init (rheap s) (ucast method_cap) HASHMAP_KEY_STRING;
     (gp, h) \<leftarrow> hashmap_init h (ucast pending_cap) HASHMAP_KEY_INT;
     (gt, h) \<leftarrow> hashmap_init h (ucast transport_cap) HASHMAP_KEY_STRING;
     Some (s\<lparr>rheap := h, g_methods := gm, g_pending := gp, g_transport_map := gt\<rparr>) }"

text \<open>The sizes of the structs that are allocated.\<close>

definition sizeof_transport_class :: nat where "sizeof_transport_class = 56"
definition sizeof_transport_entry :: nat where "sizeof_transport_entry = 16"
definition sizeof_method_entry :: nat where "sizeof_method_entry = 48"
definition sizeof_pending_call :: nat where "sizeof_pending_call = 48"

lemmas rpc_sizeof_defs = sizeof_transport_class_def sizeof_transport_entry_def sizeof_method_entry_def
  sizeof_pending_call_def

definition rpc_trans_class_create :: "'w rpc \<Rightarrow> (addr \<Rightarrow> bytes \<Rightarrow> 'w \<Rightarrow> u64 \<times> 'w) option \<Rightarrow>
    (addr \<Rightarrow> nat \<Rightarrow> 'w \<Rightarrow> u64 \<times> bytes \<times> 'w) option \<Rightarrow> (addr \<Rightarrow> 'w \<Rightarrow> 'w) option \<Rightarrow> addr \<Rightarrow>
    (addr \<times> 'w rpc) option" where
  "rpc_trans_class_create s send recv close user = do {
     (p, h) \<leftarrow> heap_malloc (rheap s) sizeof_transport_class;
     if p = 0 then Some (0, s\<lparr>rheap := h\<rparr>)
     else Some (p, s\<lparr>rheap := h, trans := (trans s)(p \<mapsto>
            \<lparr>t_send = send, t_recv = recv, t_close = close, t_user = user,
             t_reasm = \<lparr>bufs = [], total_len = 0\<rparr>\<rparr>)\<rparr>) }"

definition rpc_bind_transport :: "'w rpc \<Rightarrow> bytes option \<Rightarrow> addr \<Rightarrow> 'w rpc option" where
  "rpc_bind_transport s name t =
     (case name of
        None \<Rightarrow> Some s
      | Some name \<Rightarrow>
          if t = 0 then Some s
          else do {
            (e, h) \<leftarrow> heap_malloc (rheap s) sizeof_transport_entry;
            if e = 0 then Some (s\<lparr>rheap := h\<rparr>)
            else do {
              let s = s\<lparr>rheap := h, tents := (tents s)(e \<mapsto> \<lparr>te_name = name, te_transport = t\<rparr>)\<rparr>;
              s \<leftarrow> rpc_port_lock s;
              (gt, h) \<leftarrow> hashmap_put (g_transport_map s) (rheap s) (str_key name) e;
              Some (rpc_port_unlock (s\<lparr>rheap := h, g_transport_map := gt\<rparr>)) } })"

definition rpc_transport_lookup :: "'w rpc \<Rightarrow> bytes option \<Rightarrow> addr option" where
  "rpc_transport_lookup s name =
     (case name of
        None \<Rightarrow> Some 0
      | Some name \<Rightarrow> do {
          e \<leftarrow> hashmap_get (g_transport_map s) (str_key name);
          if e = 0 then Some 0 else do { te \<leftarrow> tents s e; Some (te_transport te) } })"

definition rpc_register_method :: "'w rpc \<Rightarrow> bytes option \<Rightarrow> 'w rpc_method_entry \<Rightarrow> 'w rpc option" where
  "rpc_register_method s name m =
     (case name of
        None \<Rightarrow> Some s
      | Some name \<Rightarrow> do {
          (e, h) \<leftarrow> heap_malloc (rheap s) sizeof_method_entry;
          if e = 0 then Some (s\<lparr>rheap := h\<rparr>)
          else do {
            let s = s\<lparr>rheap := h, meths := (meths s)(e \<mapsto> m\<lparr>me_name := name\<rparr>)\<rparr>;
            s \<leftarrow> rpc_port_lock s;
            (gm, h) \<leftarrow> hashmap_put (g_methods s) (rheap s) (str_key name) e;
            Some (rpc_port_unlock (s\<lparr>rheap := h, g_methods := gm\<rparr>)) } })"

section \<open>Calls\<close>

text \<open>
  \<^verbatim>\<open>rpc_call_with_tlv\<close> up to the wait: a status to return, or the pending call. Whether
  \<^verbatim>\<open>rpc_waiter_create\<close> gets its memory is an argument.
\<close>

definition rpc_call_begin :: "'w rpc \<Rightarrow> bytes option \<Rightarrow> bytes \<Rightarrow> bytes option \<Rightarrow> nat option \<Rightarrow> bool \<Rightarrow>
    ((int + addr) \<times> 'w rpc) option" where
  "rpc_call_begin s name tlvs out_tlv out_len waiter_ok = do {
     t \<leftarrow> rpc_transport_lookup s name;
     if t = 0 then Some (Inl (- RPC_STATUS_TRANSPORT_ERROR), s)
     else do {
       s \<leftarrow> rpc_port_lock s;
       (seq, s) \<leftarrow> rpc_next_seq s;
       (pc, h) \<leftarrow> heap_malloc (rheap s) sizeof_pending_call;
       let s = s\<lparr>rheap := h\<rparr>;
       if pc = 0 then Some (Inl (- RPC_STATUS_INTERNAL_ERROR), rpc_port_unlock s)
       else case rpc_waiter_create waiter_ok of
         None \<Rightarrow> do {
           h \<leftarrow> heap_free (rheap s) pc;
           Some (Inl (- RPC_STATUS_INTERNAL_ERROR), rpc_port_unlock (s\<lparr>rheap := h\<rparr>)) }
       | Some waiter \<Rightarrow> do {
           let s = s\<lparr>calls := (calls s)(pc \<mapsto>
               \<lparr>pc_seq = seq, pc_buf = out_tlv, buf_size = (case out_len of None \<Rightarrow> 0 | Some n \<Rightarrow> n),
                resp_len = 0, pc_status = RPC_STATUS_OK, pc_done = False, pc_waiter = waiter\<rparr>)\<rparr>;
           (gp, h) \<leftarrow> hashmap_put (g_pending s) (rheap s) (int_key seq) pc;
           let s = s\<lparr>rheap := h, g_pending := gp\<rparr>;
           (r, s) \<leftarrow> rpc_send_request_tlv s t seq name tlvs;
           if r < 0
           then do {
             (b, gp, h) \<leftarrow> hashmap_remove (g_pending s) (rheap s) (int_key seq);
             h \<leftarrow> heap_free h pc;
             Some (Inl (- RPC_STATUS_TRANSPORT_ERROR),
                   rpc_port_unlock (s\<lparr>rheap := h, g_pending := gp, calls := (calls s)(pc := None)\<rparr>)) }
           else Some (Inr pc, rpc_port_unlock s) } } }"

text \<open>After the wait: the status, \<^verbatim>\<open>*out_len\<close> and the caller's buffer.\<close>

definition rpc_call_finish :: "'w rpc \<Rightarrow> addr \<Rightarrow> int \<Rightarrow> nat option \<Rightarrow>
    (int \<times> nat option \<times> bytes option \<times> 'w rpc) option" where
  "rpc_call_finish s a wait_ret out_len = do {
     s \<leftarrow> rpc_port_lock s;
     pc \<leftarrow> calls s a;
     (b, gp, h) \<leftarrow> hashmap_remove (g_pending s) (rheap s) (int_key (pc_seq pc));
     let out_len = (if pc_buf pc \<noteq> None \<and> out_len \<noteq> None then Some (resp_len pc) else out_len);
     let status = (if wait_ret = 0 then pc_status pc else RPC_STATUS_TIMEOUT);
     h \<leftarrow> heap_free h a;
     Some (status, out_len, pc_buf pc,
           rpc_port_unlock (s\<lparr>rheap := h, g_pending := gp, calls := (calls s)(a := None)\<rparr>)) }"

text \<open>
  The whole call. While it waits, the lock is free and other threads run: \<open>wait\<close> is what they
  do, with the result of \<^verbatim>\<open>rpc_waiter_wait\<close>.
\<close>

definition rpc_call_with_tlv :: "('w rpc \<Rightarrow> addr \<Rightarrow> (int \<times> 'w rpc) option) \<Rightarrow> 'w rpc \<Rightarrow> bytes option \<Rightarrow> bytes \<Rightarrow>
    bytes option \<Rightarrow> nat option \<Rightarrow> bool \<Rightarrow> (int \<times> nat option \<times> bytes option \<times> 'w rpc) option" where
  "rpc_call_with_tlv wait s name tlvs out_tlv out_len waiter_ok = do {
     (r, s) \<leftarrow> rpc_call_begin s name tlvs out_tlv out_len waiter_ok;
     case r of
       Inl st \<Rightarrow> Some (st, out_len, out_tlv, s)
     | Inr a \<Rightarrow> do { (wait_ret, s) \<leftarrow> wait s a; rpc_call_finish s a wait_ret out_len } }"

end
