(* ===== verification/Rpc_Wire.thy ===== *)
theory Rpc_Wire
  imports Rpc "HOL-Library.Sublist"
begin

text \<open>
  The wire format of the RPC messages: the packed header, requests and responses, and \<open>frames\<close>,
  the reference for how \<^verbatim>\<open>rpc_on_data\<close> cuts the byte stream into messages.
\<close>

section \<open>The header\<close>

lemma header_bytes_length [simp]: "length (header_bytes hdr) = 12"
  by (simp add: header_bytes_def)

lemma header_at_append: "12 \<le> length b \<Longrightarrow> header_at (b @ rest) = header_at b"
  by (simp add: header_at_def)

lemma header_at_take: "header_at (take 12 b) = header_at b"
  by (simp add: header_at_def drop_take min_def)

lemma header_at_bytes [simp]: "header_at (header_bytes hdr @ rest) = hdr"
  by (simp add: header_at_def header_bytes_def)

section \<open>Cutting a stream into messages\<close>

definition need_of :: "bytes \<Rightarrow> nat" where
  "need_of b = 12 + unat (ntohl (hdr_msg_len (header_at b)))"

function frames :: "bytes \<Rightarrow> bytes list \<times> bytes" where
  "frames b =
     (if length b < 12 \<or> length b < need_of b then ([], b)
      else let (ms, rest) = frames (drop (need_of b) b) in (take (need_of b) b # ms, rest))"
  by pat_completeness auto
termination by (relation "measure length") (auto simp: need_of_def)

declare frames.simps [simp del]

lemma frames_short: "length b < 12 \<or> length b < need_of b \<Longrightarrow> frames b = ([], b)"
  by (simp add: frames.simps)

lemma frames_step: "12 \<le> length b \<Longrightarrow> need_of b \<le> length b \<Longrightarrow>
    frames b = (take (need_of b) b # fst (frames (drop (need_of b) b)), snd (frames (drop (need_of b) b)))"
  by (subst frames.simps) (simp add: case_prod_beta)

lemma need_of_append: "12 \<le> length b \<Longrightarrow> need_of (b @ c) = need_of b"
  by (simp add: need_of_def header_at_append)

text \<open>Cutting what has arrived and then the rest with what comes later is cutting the whole.\<close>

lemma frames_append:
  "frames (a @ b) = (fst (frames a) @ fst (frames (snd (frames a) @ b)), snd (frames (snd (frames a) @ b)))"
proof (induction a rule: frames.induct)
  case (1 a)
  show ?case
  proof (cases "length a < 12 \<or> length a < need_of a")
    case True
    then show ?thesis by (simp add: frames_short)
  next
    case False
    then have l: "12 \<le> length a" "need_of a \<le> length a" by auto
    have "frames (a @ b) = (take (need_of a) a # fst (frames (drop (need_of a) a @ b)), snd (frames (drop (need_of a) a @ b)))"
      using frames_step [of "a @ b"] l by (simp add: need_of_append)
    then show ?thesis using frames_step [OF l] 1 [OF False] by simp
  qed
qed

lemma frames_rest: "frames (snd (frames b)) = ([], snd (frames b))"
  using frames_append [of b "[]"] by (metis append.right_neutral append_self_conv fst_conv prod.collapse snd_conv)

lemma frames_concat: "concat (fst (frames b)) @ snd (frames b) = b"
proof (induction b rule: frames.induct)
  case (1 b)
  show ?case
  proof (cases "length b < 12 \<or> length b < need_of b")
    case True
    then show ?thesis by (simp add: frames_short)
  next
    case False
    then show ?thesis using 1 [OF False] frames_step [of b] by simp
  qed
qed

text \<open>A complete message: the header and as many bytes as it announces.\<close>

definition complete :: "bytes \<Rightarrow> bool" where
  "complete m \<longleftrightarrow> 12 \<le> length m \<and> need_of m = length m"

lemma frames_complete: "\<forall>m \<in> set ms. complete m \<Longrightarrow> frames (concat ms @ rest) = (ms @ fst (frames rest), snd (frames rest))"
proof (induction ms)
  case (Cons m ms)
  then have "12 \<le> length m" "need_of m = length m" by (auto simp: complete_def)
  then show ?case using Cons frames_step [of "m @ concat ms @ rest"] by (simp add: need_of_append)
qed simp

lemma complete_response: "length tlvs < 2 ^ 32 \<Longrightarrow> complete (response_msg q st tlvs)"
  by (simp add: complete_def need_of_def response_msg_def unat_of_nat)

lemma complete_request: "length (c_str name) + length tlvs < 2 ^ 32 \<Longrightarrow> complete (request_msg q name tlvs)"
  by (simp add: complete_def need_of_def request_msg_def Let_def unat_of_nat del: of_nat_add)

lemma response_fields:
  "ntohl (hdr_seq (header_at (response_msg q st tlvs))) = q"
  "ntohs (hdr_status (header_at (response_msg q st tlvs))) = word_of_int st"
  "ntohs (hdr_method_len (header_at (response_msg q st tlvs))) = 0"
  "ntohl (hdr_msg_len (header_at (response_msg q st tlvs))) = word_of_nat (length tlvs)"
  "drop 12 (response_msg q st tlvs) = tlvs" "length (response_msg q st tlvs) = 12 + length tlvs"
  by (simp_all add: response_msg_def)

lemma request_fields:
  "ntohl (hdr_seq (header_at (request_msg q name tlvs))) = q"
  "ntohs (hdr_method_len (header_at (request_msg q name tlvs))) = word_of_nat (length (c_str name))"
  "ntohl (hdr_msg_len (header_at (request_msg q name tlvs))) = word_of_nat (length (c_str name) + length tlvs)"
  "drop 12 (request_msg q name tlvs) = c_str name @ tlvs"
  "length (request_msg q name tlvs) = 12 + length (c_str name) + length tlvs"
  by (simp_all add: request_msg_def Let_def)

section \<open>Responses and requests\<close>

abbreviation is_response :: "bytes \<Rightarrow> bool" where
  "is_response m \<equiv> ntohs (hdr_method_len (header_at m)) = 0"

text \<open>The messages up to and with the first request: what a stream makes the core dispatch before any code
  outside it runs.\<close>

fun through_request :: "bytes list \<Rightarrow> bytes list" where
  "through_request [] = []"
| "through_request (m # ms) = m # (if is_response m then through_request ms else [])"

lemma through_request_responses: "\<forall>m \<in> set ms. is_response m \<Longrightarrow> through_request ms = ms"
  by (induction ms) auto

lemma through_request_empty [simp]: "through_request ms = [] \<longleftrightarrow> ms = []"
  by (cases ms) auto

section \<open>Segmentation\<close>

text \<open>Framing does not depend on segmentation: however a stream of complete messages is cut into
  segments, the messages that the segments complete one after the other are the messages that were
  sent, in order, and nothing is left over.\<close>

primrec feed :: "bytes \<Rightarrow> bytes list \<Rightarrow> bytes list \<times> bytes" where
  "feed rest [] = ([], rest)"
| "feed rest (seg # segs) =
     (let (ms, rest) = frames (rest @ seg); (ms', rest) = feed rest segs in (ms @ ms', rest))"

lemma feed_frames: "frames rest = ([], rest) \<Longrightarrow> feed rest segs = frames (rest @ concat segs)"
proof (induction segs arbitrary: rest)
  case (Cons seg segs)
  have "feed (snd (frames (rest @ seg))) segs = frames (snd (frames (rest @ seg)) @ concat segs)"
    by (rule Cons.IH [OF frames_rest])
  then show ?case using frames_append [of "rest @ seg" "concat segs"] by (simp add: case_prod_beta)
qed simp

lemma framing_segmentation:
  assumes "\<forall>m \<in> set ms. complete m" "concat segs = concat ms"
  shows "feed [] segs = (ms, [])"
proof -
  have e: "frames [] = ([], [])" by (simp add: frames_short)
  have "feed [] segs = frames (concat ms @ [])" using feed_frames [OF e, of segs] assms(2) by simp
  then show ?thesis using frames_complete [OF assms(1), of "[]"] e by simp
qed

end
