(* ===== verification/Rpc_Inv.thy ===== *)
theory Rpc_Inv
  imports Rpc_Wire
begin

text \<open>
  The invariant of the RPC core, and that every operation keeps it. A ghost map gives each
  allocated address its owner, so that the blocks of different owners are disjoint by
  construction: the blocks of a hash map, of the reassembly queue of a transport, the objects of
  each type, and the blocks of the rest of the program.
\<close>

section \<open>Owners\<close>

datatype owner = User | Methods_map | Pending_map | Transport_map | Method | Tentry | Transport | Call | Queue addr

type_synonym owners = "addr \<rightharpoonup> owner"

definition owned :: "owners \<Rightarrow> owner \<Rightarrow> addr set" where
  "owned own o' = {a. own a = Some o'}"

text \<open>The owner \<open>o'\<close> has exactly the blocks of \<open>X\<close> now.\<close>

definition reown :: "owners \<Rightarrow> owner \<Rightarrow> addr set \<Rightarrow> owners" where
  "reown own o' X = (\<lambda>a. if a \<in> X then Some o' else if own a = Some o' then None else own a)"

definition others :: "owners \<Rightarrow> owner \<Rightarrow> addr set" where
  "others own o' = dom own - owned own o'"

lemma dom_others: "dom own = others own o' \<union> owned own o'" "others own o' \<inter> owned own o' = {}"
  by (auto simp: others_def owned_def)

lemma owned_reown [simp]: "owned (reown own o' X) o' = X"
  by (auto simp: owned_def reown_def)

lemma owned_reown_other:
  "others own o' \<inter> X = {} \<Longrightarrow> p \<noteq> o' \<Longrightarrow> owned (reown own o' X) p = owned own p"
  by (auto simp: owned_def reown_def others_def)

lemma dom_reown: "dom (reown own o' X) = others own o' \<union> X"
  by (auto simp: owned_def reown_def others_def split: if_splits)

text \<open>The owners of the blocks of a state.\<close>

definition queue_addrs :: "'w rpc \<Rightarrow> addr \<Rightarrow> addr set" where
  "queue_addrs s t = (case trans s t of None \<Rightarrow> {} | Some tc \<Rightarrow> reasm_addrs (t_reasm tc))"

definition rpc_own :: "owners \<Rightarrow> 'w rpc \<Rightarrow> bool" where
  "rpc_own own s \<longleftrightarrow> heap_owns (rheap s) (dom own) \<and>
     owned own Methods_map = hm_addrs (g_methods s) \<and>
     owned own Pending_map = hm_addrs (g_pending s) \<and>
     owned own Transport_map = hm_addrs (g_transport_map s) \<and>
     owned own Method = dom (meths s) \<and> owned own Tentry = dom (tents s) \<and>
     owned own Transport = dom (trans s) \<and> owned own Call = dom (calls s) \<and>
     (\<forall>t. owned own (Queue t) = queue_addrs s t)"

section \<open>The invariant\<close>

text \<open>What the callbacks of a method promise: a parser returns a struct whose blocks are new, so does
  a handler, the encoder stays in its buffer, and the free functions give back exactly these blocks.\<close>

definition method_ok :: "'w rpc_method_entry \<Rightarrow> bool" where
  "method_ok m \<longleftrightarrow>
     (\<forall>h A tlvs rc ps h'. heap_owns h A \<longrightarrow> run_parse m h tlvs = Some (rc, ps, h') \<longrightarrow> fields_ok A ps h') \<and>
     (\<forall>w h A ps rc rs h' w'. heap_owns h A \<longrightarrow> run_handler m w h ps = Some (rc, rs, h', w') \<longrightarrow> fields_ok A rs h') \<and>
     (\<forall>rs rc buf n. run_encode m rs = Some (rc, buf, n) \<longrightarrow> length buf = RPC_MAX_RESULT_TLV_SIZE) \<and>
     (\<forall>h A ps h'. fields_ok A ps h \<longrightarrow> run_free (me_free_param m) h ps = Some h' \<longrightarrow> heap_owns h' A) \<and>
     (\<forall>h A rs h'. fields_ok A rs h \<longrightarrow> run_free (me_free_result m) h rs = Some h' \<longrightarrow> heap_owns h' A)"

lemma method_okD:
  assumes "method_ok m"
  shows "heap_owns h A \<Longrightarrow> run_parse m h tlvs = Some (rc, ps, h') \<Longrightarrow> fields_ok A ps h'"
    "heap_owns h A \<Longrightarrow> run_handler m w h ps = Some (rc, rs, h', w') \<Longrightarrow> fields_ok A rs h'"
    "run_encode m rs = Some (rc, buf, n) \<Longrightarrow> length buf = 4096"
    "fields_ok A ps h \<Longrightarrow> run_free (me_free_param m) h ps = Some h' \<Longrightarrow> heap_owns h' A"
    "fields_ok A rs h \<Longrightarrow> run_free (me_free_result m) h rs = Some h' \<Longrightarrow> heap_owns h' A"
proof -
  note d = assms [unfolded method_ok_def RPC_MAX_RESULT_TLV_SIZE_def]
  note d2 = d [THEN conjunct2]
  note d3 = d2 [THEN conjunct2]
  note d4 = d3 [THEN conjunct2]
  show "heap_owns h A \<Longrightarrow> run_parse m h tlvs = Some (rc, ps, h') \<Longrightarrow> fields_ok A ps h'"
    by (rule d [THEN conjunct1, rule_format])
  show "heap_owns h A \<Longrightarrow> run_handler m w h ps = Some (rc, rs, h', w') \<Longrightarrow> fields_ok A rs h'"
    by (rule d2 [THEN conjunct1, rule_format])
  show "run_encode m rs = Some (rc, buf, n) \<Longrightarrow> length buf = 4096"
    by (rule d3 [THEN conjunct1, rule_format])
  show "fields_ok A ps h \<Longrightarrow> run_free (me_free_param m) h ps = Some h' \<Longrightarrow> heap_owns h' A"
    by (rule d4 [THEN conjunct1, rule_format])
  show "fields_ok A rs h \<Longrightarrow> run_free (me_free_result m) h rs = Some h' \<Longrightarrow> heap_owns h' A"
    by (rule d4 [THEN conjunct2, rule_format])
qed

definition call_ok :: "pending_call \<Rightarrow> bool" where
  "call_ok pc \<longleftrightarrow> pc_seq pc \<noteq> 0 \<and> (case pc_buf pc of None \<Rightarrow> True | Some b \<Rightarrow> buf_size pc \<le> length b) \<and>
     resp_len pc \<le> buf_size pc \<and> (signaled (pc_waiter pc) \<longrightarrow> pc_done pc)"

definition seq_id :: "u32 \<Rightarrow> u64 \<times> bytes" where
  "seq_id q = (ucast q, [])"

definition name_id :: "bytes \<Rightarrow> u64 \<times> bytes" where
  "name_id n = (0, c_str n)"

definition rpc_inv :: "'w rpc \<Rightarrow> bool" where
  "rpc_inv s \<longleftrightarrow>
     hm_inv (g_methods s) \<and> key_type (g_methods s) = HASHMAP_KEY_STRING \<and>
     hm_inv (g_pending s) \<and> key_type (g_pending s) = HASHMAP_KEY_INT \<and>
     hm_inv (g_transport_map s) \<and> key_type (g_transport_map s) = HASHMAP_KEY_STRING \<and>
     (\<forall>q a. hm_abs (g_pending s) (seq_id q) = Some a \<longrightarrow> (\<exists>pc. calls s a = Some pc \<and> pc_seq pc = q)) \<and>
     (\<forall>a pc. calls s a = Some pc \<longrightarrow> call_ok pc \<and> hm_abs (g_pending s) (seq_id (pc_seq pc)) = Some a) \<and>
     (\<forall>n a. hm_abs (g_methods s) (name_id n) = Some a \<longrightarrow>
        (\<exists>m. meths s a = Some m \<and> c_str (me_name m) = c_str n)) \<and>
     (\<forall>a m. meths s a = Some m \<longrightarrow> method_ok m) \<and>
     (\<forall>n a. hm_abs (g_transport_map s) (name_id n) = Some a \<longrightarrow>
        (\<exists>te. tents s a = Some te \<and> c_str (te_name te) = c_str n \<and> te_transport te \<in> dom (trans s))) \<and>
     (\<forall>t tc. trans s t = Some tc \<longrightarrow> reasm_inv (t_reasm tc)) \<and>
     g_next_seq s \<noteq> 0"

lemma rpc_invD:
  assumes "rpc_inv s"
  shows "hm_inv (g_methods s)" "key_type (g_methods s) = HASHMAP_KEY_STRING"
    "hm_inv (g_pending s)" "key_type (g_pending s) = HASHMAP_KEY_INT"
    "hm_inv (g_transport_map s)" "key_type (g_transport_map s) = HASHMAP_KEY_STRING"
    "hm_abs (g_pending s) (seq_id q) = Some a \<Longrightarrow> \<exists>pc. calls s a = Some pc \<and> pc_seq pc = q"
    "calls s a = Some pc \<Longrightarrow> call_ok pc \<and> hm_abs (g_pending s) (seq_id (pc_seq pc)) = Some a"
    "hm_abs (g_methods s) (name_id n) = Some a \<Longrightarrow> \<exists>m. meths s a = Some m \<and> c_str (me_name m) = c_str n"
    "meths s a = Some m \<Longrightarrow> method_ok m"
    "hm_abs (g_transport_map s) (name_id n) = Some a \<Longrightarrow>
      \<exists>te. tents s a = Some te \<and> c_str (te_name te) = c_str n \<and> te_transport te \<in> dom (trans s)"
    "trans s t = Some tc \<Longrightarrow> reasm_inv (t_reasm tc)"
    "g_next_seq s \<noteq> 0"
  using assms unfolding rpc_inv_def by metis+

definition rpc_ok :: "'w rpc \<Rightarrow> bool" where
  "rpc_ok s \<longleftrightarrow> rpc_inv s \<and> (\<exists>own. rpc_own own s)"

text \<open>The blocks that are not the core's, which no operation of the core touches.\<close>

definition user_blocks :: "'w rpc \<Rightarrow> addr set \<Rightarrow> bool" where
  "user_blocks s U \<longleftrightarrow> (\<exists>own. rpc_own own s \<and> owned own User = U)"

lemma key_ids [simp]:
  "key_type m = HASHMAP_KEY_INT \<Longrightarrow> key_id m (int_key q) = seq_id q"
  "key_type m = HASHMAP_KEY_STRING \<Longrightarrow> key_id m (str_key n) = name_id n"
  by (simp_all add: key_id_def int_key_def str_key_def seq_id_def name_id_def HASHMAP_KEY_INT_def
      HASHMAP_KEY_STRING_def)

lemma seq_id_inject [simp]: "seq_id a = seq_id b \<longleftrightarrow> a = b"
proof
  assume "seq_id a = seq_id b"
  then have "unat (ucast a :: u64) = unat (ucast b :: u64)" by (simp add: seq_id_def)
  moreover have "take_bit 64 (unat c) = unat c" for c :: u32 using u32_less [of c] by (simp add: take_bit_nat_eq_self)
  ultimately have "unat a = unat b" by (simp add: unsigned_ucast_eq)
  then show "a = b" by (simp add: word_unat_eq_iff)
qed simp

lemma rpc_own_nonnull: "rpc_own own s \<Longrightarrow> own 0 = None"
  using hp.owns_nonnull by (auto simp: rpc_own_def)

lemma rpc_own_objects:
  assumes "rpc_own own s"
  shows "calls s a = Some pc \<Longrightarrow> a \<noteq> 0" "meths s a = Some m \<Longrightarrow> a \<noteq> 0" "tents s a = Some te \<Longrightarrow> a \<noteq> 0"
    "trans s a = Some tc \<Longrightarrow> a \<noteq> 0"
proof -
  have nz: "x \<in> owned own o' \<Longrightarrow> x \<noteq> 0" for x o' using rpc_own_nonnull [OF assms] by (cases "x = 0") (auto simp: owned_def)
  have d: "owned own Call = dom (calls s)" "owned own Method = dom (meths s)" "owned own Tentry = dom (tents s)"
    "owned own Transport = dom (trans s)" using assms by (simp_all add: rpc_own_def)
  show "calls s a = Some pc \<Longrightarrow> a \<noteq> 0" using nz [of a Call] d(1) by auto
  show "meths s a = Some m \<Longrightarrow> a \<noteq> 0" using nz [of a Method] d(2) by auto
  show "tents s a = Some te \<Longrightarrow> a \<noteq> 0" using nz [of a Tentry] d(3) by auto
  show "trans s a = Some tc \<Longrightarrow> a \<noteq> 0" using nz [of a Transport] d(4) by auto
qed

text \<open>Each hash map is well-formed in the heap, beside the blocks of the other owners.\<close>

lemma rpc_own_maps:
  assumes "rpc_own own s" "rpc_inv s"
  shows "hm_ok (others own Methods_map) (g_methods s) (rheap s)"
    "hm_ok (others own Pending_map) (g_pending s) (rheap s)"
    "hm_ok (others own Transport_map) (g_transport_map s) (rheap s)"
proof -
  have "hm_ok (others own o') m (rheap s)" if "owned own o' = hm_addrs m" "hm_inv m" for o' m
    using assms(1) that dom_others [of own o'] by (auto simp: hm_ok_def rpc_own_def)
  note ok = this
  show "hm_ok (others own Methods_map) (g_methods s) (rheap s)"
    by (rule ok) (use assms in \<open>simp_all add: rpc_own_def rpc_inv_def\<close>)
  show "hm_ok (others own Pending_map) (g_pending s) (rheap s)"
    by (rule ok) (use assms in \<open>simp_all add: rpc_own_def rpc_inv_def\<close>)
  show "hm_ok (others own Transport_map) (g_transport_map s) (rheap s)"
    by (rule ok) (use assms in \<open>simp_all add: rpc_own_def rpc_inv_def\<close>)
qed

lemma rpc_own_queue:
  assumes "rpc_own own s" "rpc_inv s" "trans s t = Some tc"
  shows "reasm_ok (others own (Queue t)) (t_reasm tc) (rheap s)"
proof -
  have "owned own (Queue t) = reasm_addrs (t_reasm tc)" using assms by (simp add: rpc_own_def queue_addrs_def)
  then show ?thesis using assms dom_others [of own "Queue t"]
    by (auto simp: reasm_ok_def rpc_own_def rpc_inv_def)
qed


section \<open>Temporary blocks and sending\<close>

text \<open>Operations that change only the heap and the world.\<close>

definition same_core :: "'w rpc \<Rightarrow> 'w rpc \<Rightarrow> bool" where
  "same_core s s' \<longleftrightarrow> g_methods s' = g_methods s \<and> g_pending s' = g_pending s \<and>
     g_transport_map s' = g_transport_map s \<and> g_next_seq s' = g_next_seq s \<and> meths s' = meths s \<and>
     tents s' = tents s \<and> trans s' = trans s \<and> calls s' = calls s \<and> rpc_locked s' = rpc_locked s \<and>
     rx_log s' = rx_log s"

lemma same_core_refl [simp]: "same_core s s"
  by (simp add: same_core_def)

lemma same_coreI [simp]:
  "same_core s (s\<lparr>rheap := h\<rparr>)" "same_core s (s\<lparr>rheap := h, world := w\<rparr>)" "same_core s (s\<lparr>world := w\<rparr>)"
  "same_core (s\<lparr>rheap := h\<rparr>) s' = same_core s s'" "same_core (s\<lparr>world := w\<rparr>) s' = same_core s s'"
  by (simp_all add: same_core_def)

lemma same_core_trans: "same_core s s' \<Longrightarrow> same_core s' s'' \<Longrightarrow> same_core s s''"
  by (simp add: same_core_def)

lemma same_core_fields:
  assumes "same_core s s'"
  shows "g_methods s' = g_methods s" "g_pending s' = g_pending s" "g_transport_map s' = g_transport_map s"
    "g_next_seq s' = g_next_seq s" "meths s' = meths s" "tents s' = tents s" "trans s' = trans s"
    "calls s' = calls s" "rpc_locked s' = rpc_locked s" "rx_log s' = rx_log s"
  using assms by (simp_all add: same_core_def)

lemma same_core_inv: "same_core s s' \<Longrightarrow> rpc_inv s' = rpc_inv s"
  unfolding rpc_inv_def by (simp add: same_core_fields)

lemma same_core_own: "same_core s s' \<Longrightarrow> rpc_own own s \<Longrightarrow> heap_owns (rheap s') (dom own) \<Longrightarrow> rpc_own own s'"
  unfolding rpc_own_def queue_addrs_def by (simp add: same_core_fields)

lemma owned_temp: "p \<notin> dom own \<Longrightarrow> o' \<noteq> q \<Longrightarrow> owned (own(p \<mapsto> q)) o' = owned own o'"
  by (auto simp: owned_def domIff)

lemma rpc_own_temp:
  assumes "rpc_own own s" "p \<notin> dom own" "heap_owns h (insert p (dom own))"
  shows "rpc_own (own(p \<mapsto> User)) (s\<lparr>rheap := h\<rparr>)"
  using assms by (simp add: rpc_own_def owned_temp queue_addrs_def)

lemma rpc_own_drop:
  assumes "rpc_own (own(p \<mapsto> User)) s" "p \<notin> dom own" "heap_free (rheap s) p = Some h"
  shows "rpc_own own (s\<lparr>rheap := h\<rparr>)"
proof -
  have "heap_owns (rheap s) (insert p (dom own))" using assms(1) by (simp add: rpc_own_def)
  from hp.release_owns [OF this, of p] assms(2,3) have "heap_owns h (dom own)" by auto
  then show ?thesis using assms(1,2) by (simp add: rpc_own_def owned_temp queue_addrs_def)
qed

lemma send_msg_heap:
  assumes own: "heap_owns (rheap s) A" and send: "send_msg s tc msg = Some (r, s')" and n: "length msg < 2 ^ 63"
  shows "heap_owns (rheap s') A \<and> same_core s s'"
proof (cases "t_send tc")
  case None
  then show ?thesis using send own by (simp add: send_msg_def)
next
  case (Some f)
  from own n show ?thesis
  proof (cases rule: hp.alloc_cases)
    case (null h)
    then show ?thesis using send Some by (auto simp: send_msg_def)
  next
    case (fresh p h)
    obtain rr w where fw: "f (t_user tc) msg (world s) = (rr, w)" by fastforce
    from hp.alloc_release [OF own n fresh(1)] obtain h'' where "heap_free h p = Some h''" "heap_owns h'' A" by blast
    then show ?thesis using send Some fresh fw by (auto simp: send_msg_def)
  qed
qed

lemma send_response_heap:
  assumes "heap_owns (rheap s) A" "rpc_send_response_tlv s t q st tlvs = Some (r, s')" "length tlvs < 2 ^ 62"
  shows "heap_owns (rheap s') A \<and> same_core s s'"
proof (cases "t = 0")
  case True
  then show ?thesis using assms by (simp add: rpc_send_response_tlv_def)
next
  case False
  then obtain tc where "send_msg s tc (response_msg q st tlvs) = Some (r, s')"
    using assms(2) by (auto simp: rpc_send_response_tlv_def split: bind_splits)
  then show ?thesis using send_msg_heap [OF assms(1)] assms(3) by (simp add: response_fields)
qed

section \<open>Requests\<close>

lemma run_method_own:
  assumes own: "rpc_own own s" and m: "method_ok m" and run: "run_method s t q m tlvs = Some s'"
  shows "rpc_own own s' \<and> same_core s s'"
proof -
  let ?A = "dom own"
  have h0: "heap_owns (rheap s) ?A" using own by (simp add: rpc_own_def)
  from run obtain rc ps h1 where p: "run_parse m (rheap s) tlvs = Some (rc, ps, h1)"
    by (auto simp: run_method_def split: bind_splits)
  have ps: "fields_ok ?A ps h1" by (rule method_okD(1) [OF m h0 p])
  let ?st = "if rc \<noteq> 0 then RPC_STATUS_INVALID_PARAMS else RPC_STATUS_OK"
  from run p obtain rc2 rs h2 w2 where hd: "(if ?st = RPC_STATUS_OK then run_handler m (world s) h1 ps
      else Some (0, [], h1, world s)) = Some (rc2, rs, h2, w2)"
    by (auto simp: run_method_def Let_def split: bind_splits cong: if_cong)
  have h1: "heap_owns h1 (?A \<union> set (ptrs ps))" using ps by (simp add: fields_ok_def)
  have rs: "fields_ok (?A \<union> set (ptrs ps)) rs h2"
  proof (cases "?st = RPC_STATUS_OK")
    case True
    then have "run_handler m (world s) h1 ps = Some (rc2, rs, h2, w2)" using hd by simp
    then show ?thesis by (rule method_okD(2) [OF m h1])
  next
    case False
    then have "rs = []" "h2 = h1" using hd by auto
    then show ?thesis using h1 by (simp add: fields_ok_def)
  qed
  let ?s2 = "s\<lparr>rheap := h2, world := w2\<rparr>"
  let ?st2 = "if rc2 \<noteq> 0 then RPC_STATUS_INTERNAL_ERROR else ?st"
  from run p hd obtain rc3 buf n where en: "(if ?st2 = RPC_STATUS_OK then run_encode m rs else Some (0, [], 0)) =
      Some (rc3, buf, n)"
    by (auto simp: run_method_def Let_def split: bind_splits cong: if_cong)
  let ?st3 = "if rc3 \<noteq> 0 then RPC_STATUS_INTERNAL_ERROR else ?st2"
  let ?n = "if rc3 \<noteq> 0 then 0 else n"
  from run p hd en obtain tlv where bt: "(if ?st3 = RPC_STATUS_OK then buf_read buf 0 ?n else Some []) = Some tlv"
    by (auto simp: run_method_def Let_def split: bind_splits cong: if_cong)
  from run p hd en bt obtain r s3 where sd: "rpc_send_response_tlv ?s2 t q ?st3 tlv = Some (r, s3)"
    by (auto simp: run_method_def Let_def split: bind_splits cong: if_cong)
  from run p hd en bt sd obtain h4 h5 where
    fr: "run_free (me_free_param m) (rheap s3) ps = Some h4" "run_free (me_free_result m) h4 rs = Some h5"
    "s' = s3\<lparr>rheap := h5\<rparr>"
    by (auto simp: run_method_def Let_def split: bind_splits cong: if_cong)
  have len: "length tlv < 2 ^ 62"
  proof (cases "?st3 = RPC_STATUS_OK")
    case True
    then have "rc3 = 0" "?st2 = RPC_STATUS_OK" by (auto simp: rpc_status_defs split: if_splits)
    then have "run_encode m rs = Some (rc3, buf, n)" using en by simp
    then have "length buf = 4096" by (rule method_okD(3) [OF m])
    then show ?thesis using bt True by (auto simp: buf_read_def split: if_splits)
  next
    case False
    then show ?thesis using bt by auto
  qed
  have h2: "heap_owns (rheap ?s2) (?A \<union> set (ptrs ps) \<union> set (ptrs rs))" using rs by (simp add: fields_ok_def)
  from send_response_heap [OF h2 sd len] have
    s3: "heap_owns (rheap s3) (?A \<union> set (ptrs ps) \<union> set (ptrs rs))" "same_core s s3" by simp_all
  have "?A \<union> set (ptrs ps) \<union> set (ptrs rs) = ?A \<union> set (ptrs rs) \<union> set (ptrs ps)" by blast
  then have "fields_ok (?A \<union> set (ptrs rs)) ps (rheap s3)" using s3(1) ps rs by (auto simp: fields_ok_def)
  then have "heap_owns h4 (?A \<union> set (ptrs rs))" by (rule method_okD(4) [OF m _ fr(1)])
  then have "fields_ok ?A rs h4" using rs by (auto simp: fields_ok_def)
  then have h5: "heap_owns h5 ?A" by (rule method_okD(5) [OF m _ fr(2)])
  have "same_core s s'" using s3(2) fr(3) by (auto intro: same_core_trans)
  then show ?thesis using same_core_own [OF _ own, of s'] h5 fr(3) by simp
qed


lemma handle_request_own:
  assumes inv: "rpc_inv s" and own: "rpc_own own s" and run: "rpc_handle_request s t msg = Some s'"
  shows "rpc_own own s' \<and> same_core s s'"
proof -
  have h: "heap_owns (rheap s) (dom own)" using own by (simp add: rpc_own_def)
  have R: "rpc_own own s2 \<and> same_core s s2" if "rpc_send_response_tlv s t q st [] = Some (r, s2)" for q st r s2
    using send_response_heap [OF h that] same_core_own [OF _ own] by simp
  have M: "rpc_own own s2 \<and> same_core s s2" if "meths s a = Some m" "run_method s t q m tlvs = Some s2"
    for a m q tlvs s2 using run_method_own [OF own rpc_invD(10) [OF inv that(1)] that(2)] .
  show ?thesis
    using run own by (auto simp: rpc_handle_request_def Let_def R M split: if_splits bind_splits dest: R M)
qed

section \<open>Responses\<close>

lemma pending_get:
  assumes "rpc_inv s"
  shows "hashmap_get (g_pending s) (int_key q) = Some (case hm_abs (g_pending s) (seq_id q) of None \<Rightarrow> 0 | Some a \<Rightarrow> a)"
    "hashmap_contains (g_pending s) (int_key q) = Some (hm_abs (g_pending s) (seq_id q) \<noteq> None)"
proof -
  have "hm_inv (g_pending s)" "key_type (g_pending s) = HASHMAP_KEY_INT" using assms by (simp_all add: rpc_inv_def)
  then show "hashmap_get (g_pending s) (int_key q) = Some (case hm_abs (g_pending s) (seq_id q) of None \<Rightarrow> 0 | Some a \<Rightarrow> a)"
    "hashmap_contains (g_pending s) (int_key q) = Some (hm_abs (g_pending s) (seq_id q) \<noteq> None)"
    by (simp_all add: hm_get_abs)
qed

text \<open>The effect of a response on its pending call.\<close>

definition deliver :: "pending_call \<Rightarrow> bytes \<Rightarrow> int \<Rightarrow> pending_call" where
  "deliver pc payload st =
     (let n = min (length payload) (buf_size pc)
      in pc\<lparr>pc_buf := map_option (\<lambda>b. take n payload @ drop n b) (pc_buf pc), resp_len := n, pc_status := st,
           pc_done := True, pc_waiter := rpc_waiter_wake (pc_waiter pc)\<rparr>)"

lemma deliver_ok: "call_ok pc \<Longrightarrow> call_ok (deliver pc payload st) \<and> pc_seq (deliver pc payload st) = pc_seq pc"
  by (auto simp: call_ok_def deliver_def Let_def rpc_waiter_wake_def split: option.splits)

lemma handle_response_eq:
  assumes inv: "rpc_inv s" and own: "rpc_own own s" and len: "12 \<le> length msg" "need_of msg = length msg"
  defines "q \<equiv> ntohl (hdr_seq (header_at msg))"
  shows "hm_abs (g_pending s) (seq_id q) = None \<Longrightarrow> rpc_handle_response s msg = Some s"
    "hm_abs (g_pending s) (seq_id q) = Some a \<Longrightarrow> calls s a = Some pc \<Longrightarrow>
      rpc_handle_response s msg = Some (s\<lparr>calls := (calls s)(a \<mapsto>
        deliver pc (drop 12 msg) (uint (ntohs (hdr_status (header_at msg)))))\<rparr>)"
proof -
  note unfold = rpc_handle_response_def hdr_size_def need_of_def Let_def q_def
  show "rpc_handle_response s msg = Some s" if "hm_abs (g_pending s) (seq_id q) = None"
    using len pending_get(1) [OF inv, of q] that by (simp add: unfold)
  assume a: "hm_abs (g_pending s) (seq_id q) = Some a" and pc: "calls s a = Some pc"
  have "call_ok pc" using rpc_invD(8) [OF inv pc] by simp
  then have bs: "\<forall>b. pc_buf pc = Some b \<longrightarrow> buf_size pc \<le> length b" by (auto simp: call_ok_def)
  have n: "unat (ntohl (hdr_msg_len (header_at msg))) = length (drop 12 msg)" using len by (simp add: need_of_def)
  let ?n = "min (length (drop 12 msg)) (buf_size pc)"
  have w: "buf_write b 0 (take ?n (drop 12 msg)) = Some (take ?n (drop 12 msg) @ drop ?n b)"
    if "pc_buf pc = Some b" for b using bs that by (auto simp: buf_write_def)
  have "hashmap_get (g_pending s) (int_key q) = Some a" using pending_get(1) [OF inv, of q] a by simp
  then show "rpc_handle_response s msg = Some (s\<lparr>calls := (calls s)(a \<mapsto>
        deliver pc (drop 12 msg) (uint (ntohs (hdr_status (header_at msg)))))\<rparr>)"
    using pc rpc_own_objects(1) [OF own pc] w n len(1)
    by (cases "pc_buf pc") (auto simp: unfold deliver_def min_def)
qed

lemma handle_response_ok:
  assumes inv: "rpc_inv s" and own: "rpc_own own s" and run: "rpc_handle_response s msg = Some s'"
    and len: "12 \<le> length msg" "need_of msg = length msg"
  shows "rpc_inv s' \<and> rpc_own own s' \<and> (\<exists>cs. s' = s\<lparr>calls := cs\<rparr>)"
proof (cases "hm_abs (g_pending s) (seq_id (ntohl (hdr_seq (header_at msg))))")
  case None
  then have "s' = s" using handle_response_eq(1) [OF inv own len] run by simp
  then show ?thesis using inv own by (metis rpc.surjective rpc.update_convs(9))
next
  case (Some a)
  then obtain pc where pc: "calls s a = Some pc" using rpc_invD(7) [OF inv] by metis
  let ?pc = "deliver pc (drop 12 msg) (uint (ntohs (hdr_status (header_at msg))))"
  have s': "s' = s\<lparr>calls := (calls s)(a \<mapsto> ?pc)\<rparr>"
    using handle_response_eq(2) [OF inv own len Some pc] run by simp
  have ok: "call_ok ?pc" "pc_seq ?pc = pc_seq pc" using deliver_ok rpc_invD(8) [OF inv pc] by metis+
  have "rpc_own own s'" using own pc unfolding s' rpc_own_def queue_addrs_def by (auto simp: insert_absorb domI)
  moreover have "\<forall>q. hm_abs (g_pending s) (seq_id q) = Some a \<longrightarrow> pc_seq pc = q"
    using rpc_invD(7) [OF inv] pc by fastforce
  then have "rpc_inv s'"
    using inv ok pc rpc_invD(8) [OF inv pc] unfolding s' rpc_inv_def by auto
  ultimately show ?thesis using s' by blast
qed

lemma dispatch_ok:
  assumes inv: "rpc_inv s" and own: "rpc_own own s" and run: "rpc_dispatch_message s t msg = Some s'"
    and len: "12 \<le> length msg" "need_of msg = length msg"
  shows "rpc_inv s' \<and> rpc_own own s' \<and> trans s' = trans s \<and> rx_log s' = rx_log s @ [msg] \<and> rpc_locked s' = rpc_locked s"
proof -
  let ?s = "s\<lparr>rx_log := rx_log s @ [msg]\<rparr>"
  have i: "rpc_inv ?s" using inv by (simp add: rpc_inv_def)
  have o': "rpc_own own ?s" using own by (simp add: rpc_own_def queue_addrs_def)
  show ?thesis
  proof (cases "ntohs (hdr_method_len (header_at msg)) = 0")
    case True
    then have "rpc_handle_response ?s msg = Some s'" using run len by (simp add: rpc_dispatch_message_def hdr_size_def)
    from handle_response_ok [OF i o' this len] show ?thesis by auto
  next
    case False
    then have "rpc_handle_request ?s t msg = Some s'" using run len by (simp add: rpc_dispatch_message_def hdr_size_def)
    from handle_request_own [OF i o' this] show ?thesis
      using same_core_inv [of ?s s'] i same_core_fields [of ?s s'] by auto
  qed
qed


section \<open>Received data\<close>

definition stream_of :: "'w rpc \<Rightarrow> addr \<Rightarrow> bytes" where
  "stream_of s t = (case trans s t of None \<Rightarrow> [] | Some tc \<Rightarrow> stream (t_reasm tc))"

lemma set_reasm_own:
  assumes "rpc_own own s" "trans s t = Some tc" "reasm_ok (others own (Queue t)) r h"
  shows "rpc_own (reown own (Queue t) (reasm_addrs r)) (set_reasm s t tc r h)"
proof -
  have d: "others own (Queue t) \<inter> reasm_addrs r = {}" "heap_owns h (others own (Queue t) \<union> reasm_addrs r)"
    using assms(3) by (simp_all add: reasm_ok_def)
  have "insert t (dom (trans s)) = dom (trans s)" using assms(2) by (simp add: insert_absorb domI)
  then show ?thesis using assms(1) d(2) owned_reown_other [OF d(1)]
    by (auto simp: rpc_own_def set_reasm_def dom_reown queue_addrs_def)
qed

lemma set_reasm_inv:
  assumes "rpc_inv s" "trans s t = Some tc" "reasm_inv r"
  shows "rpc_inv (set_reasm s t tc r h)"
proof -
  let ?s = "set_reasm s t tc r h"
  have "dom (trans ?s) = dom (trans s)" using assms(2) by (auto simp: set_reasm_def)
  moreover have "\<forall>t' tc'. trans ?s t' = Some tc' \<longrightarrow> reasm_inv (t_reasm tc')"
    using assms(3) rpc_invD(12) [OF assms(1)] by (auto simp: set_reasm_def)
  ultimately show ?thesis using assms(1) unfolding rpc_inv_def by (simp add: set_reasm_def)
qed

lemma set_reasm_simps [simp]:
  "trans (set_reasm s t tc r h) t = Some (tc\<lparr>t_reasm := r\<rparr>)" "rheap (set_reasm s t tc r h) = h"
  "rx_log (set_reasm s t tc r h) = rx_log s" "rpc_locked (set_reasm s t tc r h) = rpc_locked s"
  "t' \<noteq> t \<Longrightarrow> trans (set_reasm s t tc r h) t' = trans s t'" "stream_of (set_reasm s t tc r h) t = stream r"
  by (simp_all add: set_reasm_def stream_of_def)

text \<open>One round of the loop: the message that is taken off the queue.\<close>

lemma take_message:
  assumes inv: "rpc_inv s" and own: "rpc_own own s" and tc: "trans s t = Some tc"
    and m: "heap_malloc (rheap s) need = Some (p, h)" "need < 2 ^ 63"
    and c: "rpc_reasm_consume (t_reasm tc) h need = Some (msg, r, h')"
  defines "s1 \<equiv> set_reasm s t tc r h'" and "own1 \<equiv> reown own (Queue t) (reasm_addrs r)"
  shows "rpc_inv s1" "msg = take need (stream (t_reasm tc))" "stream r = drop need (stream (t_reasm tc))"
    "p = 0 \<Longrightarrow> rpc_own own1 s1" "p \<noteq> 0 \<Longrightarrow> rpc_own (own1(p \<mapsto> User)) s1 \<and> p \<notin> dom own1"
    "owned own1 User = owned own User"
proof -
  have h0: "heap_owns (rheap s) (dom own)" using own by (simp add: rpc_own_def)
  define ownp where "ownp = (if p = 0 then own else own(p \<mapsto> User))"
  have p: "p \<noteq> 0 \<Longrightarrow> p \<notin> dom own" "heap_owns h (dom ownp)"
    using hp.alloc_owns [OF h0 m(2)] m(1) hp.owns_nonnull by (auto simp: ownp_def)
  have sp: "rpc_own ownp (s\<lparr>rheap := h\<rparr>)"
    using rpc_own_temp [OF own p(1)] p(2) same_core_own [OF _ own, of "s\<lparr>rheap := h\<rparr>"]
    by (auto simp: ownp_def)
  have ip: "rpc_inv (s\<lparr>rheap := h\<rparr>)" using same_core_inv [of s "s\<lparr>rheap := h\<rparr>"] inv by simp
  have tp: "trans (s\<lparr>rheap := h\<rparr>) t = Some tc" using tc by simp
  note q = rpc_own_queue [OF sp ip tp, simplified]
  from reasm_consume [OF q, of need] c have
    cc: "msg = take need (stream (t_reasm tc))" "reasm_ok (others ownp (Queue t)) r h'"
    "stream r = drop need (stream (t_reasm tc))" "reasm_addrs r \<subseteq> reasm_addrs (t_reasm tc)" by auto
  have s1: "set_reasm (s\<lparr>rheap := h\<rparr>) t tc r h' = s1" by (simp add: s1_def set_reasm_def)
  have own2: "rpc_own (reown ownp (Queue t) (reasm_addrs r)) s1" using set_reasm_own [OF sp tp cc(2)] s1 by simp
  show "rpc_inv s1" unfolding s1_def using set_reasm_inv [OF inv tc] cc(2) by (simp add: reasm_ok_def)
  show "msg = take need (stream (t_reasm tc))" "stream r = drop need (stream (t_reasm tc))" using cc by simp_all
  show "rpc_own own1 s1" if "p = 0" using own2 that by (simp add: ownp_def own1_def)
  have sub: "reasm_addrs r \<subseteq> owned own (Queue t)"
    using cc(4) own tc by (simp add: rpc_own_def queue_addrs_def)
  show "rpc_own (own1(p \<mapsto> User)) s1 \<and> p \<notin> dom own1" if "p \<noteq> 0"
  proof -
    have pr: "p \<notin> reasm_addrs r" "own p = None" using sub p(1) [OF that] by (auto simp: owned_def domIff)
    then have "reown ownp (Queue t) (reasm_addrs r) = own1(p \<mapsto> User)"
      using that by (auto simp: ownp_def own1_def reown_def fun_eq_iff)
    moreover have "p \<notin> dom own1" using pr by (simp add: own1_def reown_def domIff)
    ultimately show ?thesis using own2 by simp
  qed
  show "owned own1 User = owned own User"
    unfolding own1_def by (rule owned_reown_other) (use sub in \<open>auto simp: others_def owned_def\<close>)
qed


lemma on_data_stop:
  assumes "rpc_inv s" "trans s t = Some tc" "length (stream_of s t) < 12 \<or> length (stream_of s t) < need_of (stream_of s t)"
  shows "on_data_loop s t = Some s"
proof -
  have r: "reasm_inv (t_reasm tc)" using rpc_invD(12) [OF assms(1,2)] .
  have l: "total_len (t_reasm tc) = length (stream (t_reasm tc))" using r by (simp add: reasm_inv_def)
  show ?thesis using assms(2,3) l peek_header_stream [OF r]
    by (subst on_data_loop.simps)
      (auto simp: hdr_size_def stream_of_def need_of_def header_at_take)
qed

lemma on_data_round:
  assumes "rpc_inv s" "trans s t = Some tc" "12 \<le> length (stream_of s t)" "need_of (stream_of s t) \<le> length (stream_of s t)"
  shows "on_data_loop s t = do {
    (p, h) \<leftarrow> heap_malloc (rheap s) (need_of (stream_of s t));
    (msg, r, h) \<leftarrow> rpc_reasm_consume (t_reasm tc) h (need_of (stream_of s t));
    if p = 0 then on_data_loop (set_reasm s t tc r h) t
    else do {
      s \<leftarrow> rpc_dispatch_message (set_reasm s t tc r h) t msg;
      h \<leftarrow> heap_free (rheap s) p;
      on_data_loop (s\<lparr>rheap := h\<rparr>) t } }"
proof -
  have r: "reasm_inv (t_reasm tc)" using rpc_invD(12) [OF assms(1,2)] .
  have l: "total_len (t_reasm tc) = length (stream (t_reasm tc))" using r by (simp add: reasm_inv_def)
  have "stream_of s t = stream (t_reasm tc)" using assms(2) by (simp add: stream_of_def)
  then show ?thesis using assms l peek_header_stream [OF r]
    by (subst on_data_loop.simps) (simp add: hdr_size_def need_of_def header_at_take Let_def)
qed

lemma need_bound: "need_of b < 2 ^ 63"
  using u32_less [of "ntohl (hdr_msg_len (header_at b))"] by (simp add: need_of_def)

text \<open>What a round leaves for the next one.\<close>

definition data_ok :: "'w rpc \<Rightarrow> 'w rpc \<Rightarrow> addr \<Rightarrow> owners \<Rightarrow> bytes list \<Rightarrow> bytes \<Rightarrow> bool" where
  "data_ok s s' t own ms rest \<longleftrightarrow> rpc_inv s' \<and>
     (\<exists>own'. rpc_own own' s' \<and> owned own' User = owned own User) \<and>
     rpc_locked s' = rpc_locked s \<and> stream_of s' t = rest \<and> t \<in> dom (trans s') \<and>
     map_option t_recv (trans s' t) = map_option t_recv (trans s t) \<and>
     (\<exists>ms'. rx_log s' = rx_log s @ ms' \<and> subseq ms' ms)"

text \<open>With room in the heap a message is dispatched, and a response takes no more than its own block.\<close>

definition handed :: "'w rpc \<Rightarrow> 'w rpc \<Rightarrow> bytes \<Rightarrow> bool" where
  "handed s s1 m \<longleftrightarrow> (\<forall>k. heap_room (rheap s) k \<and> length m + 64 \<le> k \<longrightarrow> rx_log s1 = rx_log s @ [m] \<and>
     (is_response m \<longrightarrow> world s1 = world s \<and> heap_room (rheap s1) (k - (length m + 24))))"

lemma response_only_call:
  assumes "rpc_inv s" "rpc_own own s" "rpc_dispatch_message s t m = Some s'" "12 \<le> length m" "need_of m = length m" "is_response m"
  shows "rheap s' = rheap s \<and> world s' = world s"
proof -
  let ?s = "s\<lparr>rx_log := rx_log s @ [m]\<rparr>"
  have i: "rpc_inv ?s" "rpc_own own ?s" using assms(1,2) by (simp_all add: rpc_inv_def rpc_own_def queue_addrs_def)
  have "rpc_handle_response ?s m = Some s'" using assms(3,4,6) by (simp add: rpc_dispatch_message_def hdr_size_def)
  from handle_response_ok [OF i this assms(4,5)] show ?thesis by auto
qed

lemma heap_consume_room:
  assumes inv: "rpc_inv s" and own: "rpc_own own s" and tc: "trans s t = Some tc"
    and m: "heap_malloc (rheap s) need = Some (p, h)" "need < 2 ^ 63"
    and c: "rpc_reasm_consume (t_reasm tc) h need = Some (msg, r, h')" and k: "heap_room h k"
  shows "heap_room h' k"
proof -
  have h0: "heap_owns (rheap s) (dom own)" using own by (simp add: rpc_own_def)
  let ?D = "if p = 0 then dom own else insert p (dom own)" and ?R = "reasm_addrs (t_reasm tc)"
  have hp: "heap_owns h ?D" using hp.alloc_owns [OF h0 m(2)] m(1) hp.owns_nonnull by (auto split: if_splits)
  have "owned own (Queue t) = ?R" using own tc by (simp add: rpc_own_def queue_addrs_def)
  then have "?R \<subseteq> dom own" by (auto simp: owned_def)
  then have "?D - ?R \<union> ?R = ?D" by auto
  then have "reasm_ok (?D - ?R) (t_reasm tc) h"
    using hp rpc_invD(12) [OF inv tc] unfolding reasm_ok_def by auto
  from reasm_consume_room [OF this k c] show ?thesis .
qed

lemma on_data_next:
  fixes s :: "'w rpc"
  assumes inv: "rpc_inv s" and own: "rpc_own own s" and tc: "trans s t = Some tc"
    and l: "12 \<le> length (stream_of s t)" "need_of (stream_of s t) \<le> length (stream_of s t)"
  defines "n \<equiv> need_of (stream_of s t)"
  shows "(\<exists>s1. on_data_loop s t = on_data_loop s1 t \<and> data_ok s s1 t own [take n (stream_of s t)] (drop n (stream_of s t)) \<and>
      handed s s1 (take n (stream_of s t))) \<or>
    (on_data_loop s t = None \<and> (\<exists>(s1 :: 'w rpc) own1. rpc_inv s1 \<and> rpc_own own1 s1 \<and> t \<in> dom (trans s1) \<and>
       rpc_dispatch_message s1 t (take n (stream_of s t)) = None))"
proof -
  have st: "stream_of s t = stream (t_reasm tc)" using tc by (simp add: stream_of_def)
  have h0: "heap_owns (rheap s) (dom own)" using own by (simp add: rpc_own_def)
  have n: "n < 2 ^ 63" using need_bound by (simp add: n_def)
  from hp.alloc_owns [OF h0 n] obtain p h where m: "heap_malloc (rheap s) n = Some (p, h)" by blast
  have "\<exists>msg r h'. rpc_reasm_consume (t_reasm tc) h n = Some (msg, r, h')"
  proof -
    have hp: "heap_owns h (if p = 0 then dom own else insert p (dom own))"
      using hp.alloc_owns [OF h0 n] m hp.owns_nonnull by (auto split: if_splits)
    let ?D = "if p = 0 then dom own else insert p (dom own)" and ?R = "reasm_addrs (t_reasm tc)"
    have "owned own (Queue t) = ?R" using own tc by (simp add: rpc_own_def queue_addrs_def)
    then have "?R \<subseteq> dom own" by (auto simp: owned_def)
    then have "?D - ?R \<union> ?R = ?D" by auto
    then have "reasm_ok (?D - ?R) (t_reasm tc) h"
      using hp rpc_invD(12) [OF inv tc] unfolding reasm_ok_def by auto
    from reasm_consume [OF this, of n] show ?thesis by blast
  qed
  then obtain msg r h' where c: "rpc_reasm_consume (t_reasm tc) h n = Some (msg, r, h')" by blast
  note tm = take_message [OF inv own tc m n c]
  let ?s1 = "set_reasm s t tc r h'" and ?own1 = "reown own (Queue t) (reasm_addrs r)"
  have round: "on_data_loop s t = (if p = 0 then on_data_loop ?s1 t else do {
      s \<leftarrow> rpc_dispatch_message ?s1 t msg; h \<leftarrow> heap_free (rheap s) p; on_data_loop (s\<lparr>rheap := h\<rparr>) t })"
    using on_data_round [OF inv tc l] m c by (simp add: n_def)
  have msg: "msg = take n (stream_of s t)" "stream_of ?s1 t = drop n (stream_of s t)" using tm(2,3) st by simp_all
  show ?thesis
  proof (cases "p = 0")
    case True
    have "data_ok s ?s1 t own [take n (stream_of s t)] (drop n (stream_of s t))"
      using tm(1,6) tm(4) [OF True] msg(2) tc unfolding data_ok_def by (auto intro!: exI [of _ "[]"] domI)
    moreover have "handed s ?s1 (take n (stream_of s t))"
      using malloc_room [of "rheap s" _ n] m True l by (auto simp: handed_def n_def)
    ultimately show ?thesis using round True by auto
  next
    case False
    note o1 = tm(5) [OF False]
    have len: "12 \<le> length msg" "need_of msg = length msg"
    proof -
      show "12 \<le> length msg" using l msg(1) by (simp add: n_def need_of_def)
      have "header_at msg = header_at (stream_of s t)"
        using msg(1) header_at_take [of msg] header_at_take [of "stream_of s t"] by (simp add: n_def need_of_def)
      then show "need_of msg = length msg" using l msg(1) by (simp add: n_def need_of_def)
    qed
    show ?thesis
    proof (cases "rpc_dispatch_message ?s1 t msg")
      case None
      have "t \<in> dom (trans ?s1)" by (simp add: domI)
      moreover have "on_data_loop s t = None" using round False None by simp
      ultimately show ?thesis using None tm(1) conjunct1 [OF o1] unfolding msg(1)
        by (intro disjI2 conjI exI [of _ ?s1] exI [of _ "?own1(p \<mapsto> User)"])
    next
      case (Some s2)
      from dispatch_ok [OF tm(1) conjunct1 [OF o1] Some len] have
        d: "rpc_inv s2" "rpc_own (?own1(p \<mapsto> User)) s2" "trans s2 = trans ?s1" "rx_log s2 = rx_log s @ [msg]"
        "rpc_locked s2 = rpc_locked s" by auto
      have "p \<in> dom (?own1(p \<mapsto> User))" by simp
      then obtain h2 where h2: "heap_free (rheap s2) p = Some h2"
        using hp.release_owns [of "rheap s2" "dom (?own1(p \<mapsto> User))" p] d(2) unfolding rpc_own_def by blast
      let ?s3 = "s2\<lparr>rheap := h2\<rparr>"
      have "rpc_own ?own1 ?s3" using rpc_own_drop [OF d(2) _ h2] o1 by blast
      moreover have "rpc_inv ?s3" using same_core_inv [of s2 ?s3] d(1) by simp
      moreover have "stream_of ?s3 t = drop n (stream_of s t)" using msg(2) d(3) by (simp add: stream_of_def)
      ultimately have "data_ok s ?s3 t own [take n (stream_of s t)] (drop n (stream_of s t))"
        using tm(6) d msg(1) tc unfolding data_ok_def by (auto intro!: domI)
      moreover have "handed s ?s3 (take n (stream_of s t))"
        unfolding handed_def
      proof (intro allI impI conjI)
        fix k assume k: "heap_room (rheap s) k \<and> length (take n (stream_of s t)) + 64 \<le> k"
        show "rx_log ?s3 = rx_log s @ [take n (stream_of s t)]" using d(4) msg(1) by simp
        assume r: "is_response (take n (stream_of s t))"
        from response_only_call [OF tm(1) conjunct1 [OF o1] Some len r [folded msg(1)]] have
          e: "rheap s2 = h'" "world s2 = world s" by (simp_all add: set_reasm_def)
        show "world ?s3 = world s" using e(2) by simp
        have nl: "length (take n (stream_of s t)) = n" using l by (simp add: n_def)
        from malloc_room [of "rheap s" k n] k m nl have hk: "heap_room h (k - (n + 24))" by auto
        from heap_consume_room [OF inv own tc m n c hk] have "heap_room h' (k - (n + 24))" .
        then have "heap_room h2 (k - (n + 24))"
          using free_room [of "rheap s2" "dom (?own1(p \<mapsto> User))" p "k - (n + 24)" h2] d(2) h2 e(1) unfolding rpc_own_def by simp
        then show "heap_room (rheap ?s3) (k - (length (take n (stream_of s t)) + 24))" using nl by simp
      qed
      ultimately show ?thesis using round False Some h2 by auto
    qed
  qed
qed


lemma data_ok_trans:
  assumes "data_ok s s1 t own ms rest" "\<forall>own1. rpc_own own1 s1 \<longrightarrow> data_ok s1 s2 t own1 ms' rest'"
  shows "data_ok s s2 t own (ms @ ms') rest'"
proof -
  from assms(1) obtain own1 l1 where 1: "rpc_own own1 s1" "owned own1 User = owned own User"
    "rx_log s1 = rx_log s @ l1" "subseq l1 ms" "rpc_locked s1 = rpc_locked s" by (auto simp: data_ok_def)
  from assms(2) 1(1) have d: "data_ok s1 s2 t own1 ms' rest'" by blast
  then obtain l2 where "rx_log s2 = rx_log s1 @ l2" "subseq l2 ms'" by (auto simp: data_ok_def)
  then have l: "rx_log s2 = rx_log s @ l1 @ l2" "subseq (l1 @ l2) (ms @ ms')" using 1 by (auto intro: list_emb_append_mono)
  moreover have "map_option t_recv (trans s2 t) = map_option t_recv (trans s t)" using assms(1) d by (simp add: data_ok_def)
  ultimately show ?thesis using d 1 unfolding data_ok_def by metis
qed

text \<open>The whole loop, for every stream: it ends, unless the dispatch of a message faults.\<close>

lemma on_data_loop_ok:
  fixes s :: "'w rpc"
  assumes "rpc_inv s" "rpc_own own s" "t \<in> dom (trans s)"
  shows "(\<exists>s'. on_data_loop s t = Some s' \<and>
      data_ok s s' t own (fst (frames (stream_of s t))) (snd (frames (stream_of s t)))) \<or>
    (on_data_loop s t = None \<and> (\<exists>(s1 :: 'w rpc) own1 m. rpc_inv s1 \<and> rpc_own own1 s1 \<and> t \<in> dom (trans s1) \<and>
       m \<in> set (fst (frames (stream_of s t))) \<and> rpc_dispatch_message s1 t m = None))"
  using assms
proof (induction "length (stream_of s t)" arbitrary: s own rule: less_induct)
  case less
  from less.prems(3) obtain tc where tc: "trans s t = Some tc" by blast
  let ?st = "stream_of s t"
  show ?case
  proof (cases "length ?st < 12 \<or> length ?st < need_of ?st")
    case True
    have "data_ok s s t own [] ?st" using less.prems unfolding data_ok_def by auto
    then show ?thesis using on_data_stop [OF less.prems(1) tc True] frames_short [OF True] by auto
  next
    case False
    then have l: "12 \<le> length ?st" "need_of ?st \<le> length ?st" by auto
    let ?n = "need_of ?st"
    note fs = frames_step [OF l]
    from on_data_next [OF less.prems(1,2) tc l] show ?thesis
    proof
      assume "\<exists>s1. on_data_loop s t = on_data_loop s1 t \<and> data_ok s s1 t own [take ?n ?st] (drop ?n ?st) \<and> handed s s1 (take ?n ?st)"
      then obtain s1 where s1: "on_data_loop s t = on_data_loop s1 t" "data_ok s s1 t own [take ?n ?st] (drop ?n ?st)" by blast
      have st1: "stream_of s1 t = drop ?n ?st" "rpc_inv s1" "t \<in> dom (trans s1)" using s1(2) by (auto simp: data_ok_def)
      have dec: "length (stream_of s1 t) < length ?st" using st1(1) l by (simp add: need_of_def)
      note IH = less.hyps [OF dec st1(2) _ st1(3)]
      obtain own1 where own1: "rpc_own own1 s1" using s1(2) by (auto simp: data_ok_def)
      show ?thesis
      proof (cases "on_data_loop s1 t")
        case None
        then show ?thesis using IH [OF own1] s1(1) st1(1) fs by auto
      next
        case (Some s2)
        have "\<forall>own1. rpc_own own1 s1 \<longrightarrow> data_ok s1 s2 t own1 (fst (frames (drop ?n ?st))) (snd (frames (drop ?n ?st)))"
          using IH Some st1(1) by auto
        from data_ok_trans [OF s1(2) this] show ?thesis using Some s1(1) fs by simp
      qed
    qed (use fs in auto)
  qed
qed

text \<open>With room for its messages, the loop dispatches every message up to the first request, and so all of a
  stream of responses.\<close>

lemma on_data_loop_exact:
  fixes s :: "'w rpc"
  assumes "rpc_inv s" "rpc_own own s" "t \<in> dom (trans s)" "on_data_loop s t = Some s'"
    and "heap_room (rheap s) (3 * length (stream_of s t) + 64 + k)"
  shows "\<exists>ms. rx_log s' = rx_log s @ ms \<and> prefix (through_request (fst (frames (stream_of s t)))) ms \<and>
    ((\<forall>m \<in> set (fst (frames (stream_of s t))). is_response m) \<longrightarrow> world s' = world s \<and> heap_room (rheap s') k)"
  using assms
proof (induction "length (stream_of s t)" arbitrary: s own rule: less_induct)
  case less
  from less.prems(3) obtain tc where tc: "trans s t = Some tc" by blast
  let ?st = "stream_of s t"
  show ?case
  proof (cases "length ?st < 12 \<or> length ?st < need_of ?st")
    case True
    then show ?thesis using on_data_stop [OF less.prems(1) tc True] frames_short [OF True] less.prems(4,5)
      heap_room_mono [OF less.prems(5), of k] by simp
  next
    case False
    then have l: "12 \<le> length ?st" "need_of ?st \<le> length ?st" by auto
    let ?n = "need_of ?st" and ?K = "3 * length ?st + 64 + k"
    let ?m = "take ?n ?st" and ?rest = "drop ?n ?st"
    note fs = frames_step [OF l]
    have n: "12 \<le> ?n" "length ?m = ?n" using l by (simp_all add: need_of_def)
    from on_data_next [OF less.prems(1,2) tc l] less.prems(4) obtain s1 where
      s1: "on_data_loop s1 t = Some s'" "data_ok s s1 t own [?m] ?rest" "handed s s1 ?m" by auto
    have st1: "stream_of s1 t = ?rest" "rpc_inv s1" "t \<in> dom (trans s1)" using s1(2) by (auto simp: data_ok_def)
    obtain own1 where own1: "rpc_own own1 s1" using s1(2) by (auto simp: data_ok_def)
    have "length ?m + 64 \<le> ?K" using n l by linarith
    with s1(3) less.prems(5) have h: "rx_log s1 = rx_log s @ [?m]"
      "is_response ?m \<longrightarrow> world s1 = world s \<and> heap_room (rheap s1) (?K - (length ?m + 24))" unfolding handed_def by blast+
    show ?thesis
    proof (cases "is_response ?m")
      case True
      have "heap_room (rheap s1) (?K - (length ?m + 24))" using h(2) True by blast
      then have "heap_room (rheap s1) (3 * length (stream_of s1 t) + 64 + k)"
        by (rule heap_room_mono) (use n l st1(1) in simp)
      moreover have "length (stream_of s1 t) < length ?st" using st1(1) n l by simp
      ultimately obtain ms where "rx_log s' = rx_log s1 @ ms" "prefix (through_request (fst (frames ?rest))) ms"
        "(\<forall>m \<in> set (fst (frames ?rest)). is_response m) \<longrightarrow> world s' = world s1 \<and> heap_room (rheap s') k"
        using less.hyps [OF _ st1(2) own1 st1(3) s1(1)] unfolding st1(1) by blast
      then show ?thesis using h True unfolding fs fst_conv by (intro exI [of _ "?m # ms"]) simp
    next
      case False
      from on_data_loop_ok [OF st1(2) own1 st1(3)] s1(1) obtain ms where "rx_log s' = rx_log s1 @ ms" by (auto simp: data_ok_def)
      then show ?thesis using h(1) False unfolding fs fst_conv by (intro exI [of _ "?m # ms"]) simp
    qed
  qed
qed

end
