(* ===== verification/Rpc_Ops.thy ===== *)
theory Rpc_Ops
  imports Rpc_Inv
begin

text \<open>
  The remaining operations of the core keep its invariant: receiving data, set-up, and the two
  halves of a call, with sequence numbers that are never in use.
\<close>

section \<open>Receiving\<close>

lemma append_own:
  assumes inv: "rpc_inv s" and own: "rpc_own own s" and tc: "trans s t = Some tc" and d: "length d \<le> 2 ^ 32"
  shows "\<exists>r h own1. rpc_reasm_append (t_reasm tc) (rheap s) d = Some (r, h) \<and>
    rpc_inv (set_reasm s t tc r h) \<and> rpc_own own1 (set_reasm s t tc r h) \<and> owned own1 User = owned own User \<and>
    (stream r = stream (t_reasm tc) @ d \<or> stream r = stream (t_reasm tc) \<and> heap_malloc (rheap s) (24 + length d) = Some (0, h))"
proof -
  note q = rpc_own_queue [OF own inv tc]
  from reasm_append [OF q d] obtain r h where a: "rpc_reasm_append (t_reasm tc) (rheap s) d = Some (r, h)"
    "reasm_ok (others own (Queue t)) r h"
    "stream r = stream (t_reasm tc) @ d \<or> stream r = stream (t_reasm tc) \<and> heap_malloc (rheap s) (24 + length d) = Some (0, h)"
    by auto
  have "others own (Queue t) \<inter> reasm_addrs r = {}" using a(2) by (simp add: reasm_ok_def)
  then have "owned (reown own (Queue t) (reasm_addrs r)) User = owned own User" by (rule owned_reown_other) simp
  moreover have "rpc_inv (set_reasm s t tc r h)" using set_reasm_inv [OF inv tc] a(2) by (simp add: reasm_ok_def)
  ultimately show ?thesis using a(1,3) set_reasm_own [OF own tc a(2)] by blast
qed

text \<open>The stream that the loop sees after a segment arrived.\<close>

definition arrived :: "'w rpc \<Rightarrow> addr \<Rightarrow> bytes \<Rightarrow> bytes \<Rightarrow> bool" where
  "arrived s t d b \<longleftrightarrow> b = stream_of s t @ d \<or>
     b = stream_of s t \<and> (\<exists>h. heap_malloc (rheap s) (24 + length d) = Some (0, h))"

lemma on_data_append_ok:
  fixes s :: "'w rpc"
  assumes inv: "rpc_inv s" and own: "rpc_own own s" and tc: "trans s t = Some tc" and d: "length d \<le> 2 ^ 32"
  shows "\<exists>b. arrived s t d b \<and>
    ((\<exists>s' s2. on_data_append s t tc d = Some s' \<and> s' = rpc_port_unlock s2 \<and>
        data_ok s s2 t own (fst (frames b)) (snd (frames b))) \<or>
     (on_data_append s t tc d = None \<and> (\<exists>(s1 :: 'w rpc) own1 m. rpc_inv s1 \<and> rpc_own own1 s1 \<and>
        t \<in> dom (trans s1) \<and> m \<in> set (fst (frames b)) \<and> rpc_dispatch_message s1 t m = None)))"
proof -
  from append_own [OF assms] obtain r h own1 where a: "rpc_reasm_append (t_reasm tc) (rheap s) d = Some (r, h)"
    "rpc_inv (set_reasm s t tc r h)" "rpc_own own1 (set_reasm s t tc r h)" "owned own1 User = owned own User"
    "stream r = stream (t_reasm tc) @ d \<or> stream r = stream (t_reasm tc) \<and> heap_malloc (rheap s) (24 + length d) = Some (0, h)"
    by blast
  let ?s1 = "set_reasm s t tc r h"
  have ar: "arrived s t d (stream r)" using a(5) tc by (auto simp: arrived_def stream_of_def)
  have t1: "t \<in> dom (trans ?s1)" by (simp add: domI)
  from on_data_loop_ok [OF a(2,3) t1] show ?thesis
  proof
    assume "\<exists>s'. on_data_loop ?s1 t = Some s' \<and> data_ok ?s1 s' t own1 (fst (frames (stream_of ?s1 t))) (snd (frames (stream_of ?s1 t)))"
    then obtain s2 where s2: "on_data_loop ?s1 t = Some s2" "data_ok ?s1 s2 t own1 (fst (frames (stream r))) (snd (frames (stream r)))"
      by auto
    then have "data_ok s s2 t own (fst (frames (stream r))) (snd (frames (stream r)))"
      using a(4) tc unfolding data_ok_def by auto
    then show ?thesis using ar a(1) s2(1) by (auto simp: on_data_append_def)
  next
    assume "on_data_loop ?s1 t = None \<and> (\<exists>(s1 :: 'w rpc) own1 m. rpc_inv s1 \<and> rpc_own own1 s1 \<and> t \<in> dom (trans s1) \<and>
       m \<in> set (fst (frames (stream_of ?s1 t))) \<and> rpc_dispatch_message s1 t m = None)"
    then show ?thesis using ar a(1) by (intro exI [of _ "stream r"]) (simp add: on_data_append_def)
  qed
qed

lemma unlock_ok [simp]:
  "rpc_inv (rpc_port_unlock s) = rpc_inv s" "rpc_own own (rpc_port_unlock s) = rpc_own own s"
  "rpc_inv (s\<lparr>rpc_locked := b\<rparr>) = rpc_inv s" "rpc_own own (s\<lparr>rpc_locked := b\<rparr>) = rpc_own own s"
  "stream_of (rpc_port_unlock s) t = stream_of s t" "stream_of (s\<lparr>rpc_locked := b\<rparr>) t = stream_of s t"
  by (simp_all add: rpc_port_unlock_def rpc_inv_def rpc_own_def queue_addrs_def stream_of_def)

lemma arrived_lock [simp]: "arrived (s\<lparr>rpc_locked := b\<rparr>) t d c = arrived s t d c"
  by (simp add: arrived_def stream_of_def)

lemma on_data_ok:
  fixes s :: "'w rpc"
  assumes inv: "rpc_inv s" and own: "rpc_own own s" and tc: "trans s t = Some tc" "t_recv tc \<noteq> None"
    and d: "buf \<noteq> []" "length buf \<le> 2 ^ 32" and unl: "\<not> rpc_locked s"
  shows "\<exists>b. arrived s t buf b \<and>
    ((\<exists>s'. rpc_on_data s t buf = Some s' \<and> \<not> rpc_locked s' \<and>
        data_ok s s' t own (fst (frames b)) (snd (frames b))) \<or>
     (rpc_on_data s t buf = None \<and> (\<exists>(s1 :: 'w rpc) own1 m. rpc_inv s1 \<and> rpc_own own1 s1 \<and>
        t \<in> dom (trans s1) \<and> m \<in> set (fst (frames b)) \<and> rpc_dispatch_message s1 t m = None)))"
proof -
  let ?s = "s\<lparr>rpc_locked := True\<rparr>"
  have t: "t \<noteq> 0" using rpc_own_objects(4) [OF own tc(1)] .
  have run: "rpc_on_data s t buf = on_data_append ?s t tc buf"
    using t tc d(1) unl by (auto simp: rpc_on_data_def rpc_port_lock_def)
  have c: "rpc_inv ?s" "rpc_own own ?s" "trans ?s t = Some tc" using inv own tc by simp_all
  have unlocked: "\<not> rpc_locked (rpc_port_unlock s2) \<and> data_ok s (rpc_port_unlock s2) t own ms rest"
    if "data_ok ?s s2 t own ms rest" for s2 ms rest
    using that unl unfolding data_ok_def by (auto simp: rpc_port_unlock_def rpc_inv_def rpc_own_def queue_addrs_def stream_of_def)
  show ?thesis using on_data_append_ok [OF c d(2)] unlocked unfolding run by fastforce
qed

text \<open>With room for the segment and its messages, nothing is lost.\<close>

lemma append_room:
  assumes inv: "rpc_inv s" and own: "rpc_own own s" and tc: "trans s t = Some tc" and d: "d \<noteq> []" "length d \<le> 2 ^ 32"
    and room: "heap_room (rheap s) k" "length d + 88 \<le> k"
  shows "\<exists>r h own1. rpc_reasm_append (t_reasm tc) (rheap s) d = Some (r, h) \<and> stream r = stream (t_reasm tc) @ d \<and>
    rpc_inv (set_reasm s t tc r h) \<and> rpc_own own1 (set_reasm s t tc r h) \<and> heap_room h (k - (length d + 48))"
proof -
  from room(2) have "24 + length d + 64 \<le> k" by simp
  from malloc_room [OF room(1) this] obtain p h0 where p: "heap_malloc (rheap s) (24 + length d) = Some (p, h0)" "p \<noteq> 0"
    "heap_room h0 (k - (24 + length d + 24))" by blast
  from append_own [OF inv own tc d(2)] p(1,2) obtain r h own1 where
    a: "rpc_reasm_append (t_reasm tc) (rheap s) d = Some (r, h)" "rpc_inv (set_reasm s t tc r h)" "rpc_own own1 (set_reasm s t tc r h)"
    "stream r = stream (t_reasm tc) @ d" by auto
  moreover have "h = h0" using a(1) p(1,2) d(1) by (simp add: rpc_reasm_append_def rpc_buf_alloc_def rpc_buf_size_def)
  ultimately show ?thesis using p(3) by (auto simp: add.commute)
qed

lemma on_data_exact:
  fixes s :: "'w rpc"
  assumes inv: "rpc_inv s" and own: "rpc_own own s" and tc: "trans s t = Some tc" "t_recv tc \<noteq> None"
    and d: "buf \<noteq> []" "length buf \<le> 2 ^ 32" and unl: "\<not> rpc_locked s" and run: "rpc_on_data s t buf = Some s'"
    and room: "heap_room (rheap s) (4 * length (stream_of s t @ buf) + 200 + k)"
  defines "fs \<equiv> fst (frames (stream_of s t @ buf))"
  shows "\<exists>ms. rx_log s' = rx_log s @ ms \<and> prefix (through_request fs) ms \<and>
    ((\<forall>m \<in> set fs. is_response m) \<longrightarrow> world s' = world s \<and> heap_room (rheap s') k)"
proof -
  let ?s = "s\<lparr>rpc_locked := True\<rparr>" and ?st = "stream_of s t @ buf"
  have t: "t \<noteq> 0" using rpc_own_objects(4) [OF own tc(1)] .
  have c: "rpc_inv ?s" "rpc_own own ?s" "trans ?s t = Some tc" using inv own tc by simp_all
  have r: "heap_room (rheap ?s) (4 * length ?st + 200 + k)" "length buf + 88 \<le> 4 * length ?st + 200 + k" using room by simp_all
  from append_room [OF c d r] obtain q h own1 where a: "rpc_reasm_append (t_reasm tc) (rheap s) buf = Some (q, h)"
    "stream q = stream (t_reasm tc) @ buf" "rpc_inv (set_reasm ?s t tc q h)" "rpc_own own1 (set_reasm ?s t tc q h)"
    "heap_room h (4 * length ?st + 200 + k - (length buf + 48))" by auto
  let ?s1 = "set_reasm ?s t tc q h"
  have st: "stream_of ?s1 t = ?st" using a(2) tc(1) by (simp add: stream_of_def)
  have t1: "t \<in> dom (trans ?s1)" by (simp add: domI)
  have room1: "heap_room (rheap ?s1) (3 * length (stream_of ?s1 t) + 64 + k)" 
    unfolding st unfolding set_reasm_simps by (rule heap_room_mono [OF a(5)]) simp
  have "rpc_on_data s t buf = map_option rpc_port_unlock (on_data_loop ?s1 t)"
    using t tc d(1) unl a(1) by (auto simp: rpc_on_data_def rpc_port_lock_def on_data_append_def) (cases "on_data_loop ?s1 t"; simp)
  then obtain s2 where s2: "on_data_loop ?s1 t = Some s2" "s' = rpc_port_unlock s2" using run by (cases "on_data_loop ?s1 t") auto
  from on_data_loop_exact [OF a(3,4) t1 s2(1) room1] show ?thesis
    unfolding st fs_def s2(2) by (simp add: rpc_port_unlock_def set_reasm_def)
qed

text \<open>A poll that brings data is the arrival of these data.\<close>

lemma on_data_poll:
  assumes "t \<noteq> 0" "trans s t = Some tc" "t_recv tc = Some f" "f (t_user tc) MTU (world s) = (n, pb, w)" "0 < sint n"
    and "buf_read pb 0 (unat n) = Some d" "d \<noteq> []"
  shows "rpc_on_data s t [] = rpc_on_data (s\<lparr>world := w\<rparr>) t d"
proof -
  have e: "s\<lparr>world := w, rpc_locked := True\<rparr> = s\<lparr>rpc_locked := True, world := w\<rparr>" by (cases s) simp
  show ?thesis using assms by (auto simp: rpc_on_data_def rpc_port_lock_def e)
qed


section \<open>Sequence numbers\<close>

definition succ_seq :: "u32 \<Rightarrow> u32" where
  "succ_seq q = (if q + 1 = 0 then 1 else q + 1)"

lemma unat_succ_seq:
  assumes "q \<noteq> 0"
  shows "unat (succ_seq q) = (unat q - 1 + 1) mod (2 ^ 32 - 1) + 1" "succ_seq q \<noteq> 0"
proof -
  have b: "0 < unat q" "unat q < 2 ^ 32" using assms u32_less [of q] by (simp_all add: unat_gt_0)
  show "unat (succ_seq q) = (unat q - 1 + 1) mod (2 ^ 32 - 1) + 1"
  proof (cases "unat q = 2 ^ 32 - 1")
    case True
    then have "unat (q + 1) = 0" by (simp add: unat_word_ariths)
    then have "q + 1 = 0" by (simp add: unat_eq_zero)
    then show ?thesis using True by (simp add: succ_seq_def)
  next
    case False
    then have "unat (q + 1) = unat q + 1" using b by (simp add: unat_word_ariths)
    moreover from this have "q + 1 \<noteq> 0" by (metis Suc_eq_plus1 nat.distinct(1) unsigned_0)
    ultimately show ?thesis using False b by (simp add: succ_seq_def)
  qed
  then show "succ_seq q \<noteq> 0" by (metis Suc_eq_plus1 nat.distinct(1) unsigned_0)
qed

lemma succ_seq_iter:
  assumes "q \<noteq> 0"
  shows "unat ((succ_seq ^^ k) q) = (unat q - 1 + k) mod (2 ^ 32 - 1) + 1 \<and> (succ_seq ^^ k) q \<noteq> 0"
proof (induction k)
  case 0
  have "0 < unat q" "unat q < 2 ^ 32" using assms u32_less [of q] by (simp_all add: unat_gt_0)
  then show ?case using assms by simp
next
  case (Suc k)
  let ?x = "(succ_seq ^^ k) q"
  have "unat (succ_seq ?x) = (unat ?x - 1 + 1) mod (2 ^ 32 - 1) + 1" using unat_succ_seq(1) Suc by blast
  also have "\<dots> = ((unat q - 1 + k) mod (2 ^ 32 - 1) + 1) mod (2 ^ 32 - 1) + 1" using Suc by simp
  also have "\<dots> = (unat q - 1 + Suc k) mod (2 ^ 32 - 1) + 1" by (simp add: mod_Suc_eq)
  finally show ?case using unat_succ_seq(2) Suc by simp
qed

lemma succ_seq_inj:
  assumes "q \<noteq> 0"
  shows "inj_on (\<lambda>k. (succ_seq ^^ k) q) {..< 2 ^ 32 - 1}"
proof (rule inj_onI)
  fix i j :: nat
  assume ij: "i \<in> {..< 2 ^ 32 - 1}" "j \<in> {..< 2 ^ 32 - 1}" "(succ_seq ^^ i) q = (succ_seq ^^ j) q"
  then have "(unat q - 1 + i) mod (2 ^ 32 - 1) = (unat q - 1 + j) mod (2 ^ 32 - 1)"
    using succ_seq_iter [OF assms, of i] succ_seq_iter [OF assms, of j] by simp
  then have "i mod (2 ^ 32 - 1) = j mod (2 ^ 32 - 1)" by (simp add: nat_mod_eq_iff)
  with ij show "i = j" by simp
qed

definition pending_seqs :: "'w rpc \<Rightarrow> u32 set" where
  "pending_seqs s = {q. hm_abs (g_pending s) (seq_id q) \<noteq> None}"

lemma pending_seqs_card:
  assumes inv: "rpc_inv s" and own: "rpc_own own s"
  shows "finite (pending_seqs s)" "card (pending_seqs s) \<le> 2 ^ 21"
proof -
  let ?f = "\<lambda>a. pc_seq (the (calls s a))"
  have sub: "pending_seqs s \<subseteq> ?f ` dom (calls s)"
  proof
    fix q assume "q \<in> pending_seqs s"
    then obtain a where "hm_abs (g_pending s) (seq_id q) = Some a" by (auto simp: pending_seqs_def)
    from rpc_invD(7) [OF inv this] show "q \<in> ?f ` dom (calls s)" by force
  qed
  have h: "heap_owns (rheap s) (dom own)" "owned own Call = dom (calls s)" using own by (simp_all add: rpc_own_def)
  then have c: "dom (calls s) \<subseteq> dom own" by (auto simp: owned_def)
  note fin = finite_subset [OF c heap_owns_card(1) [OF h(1)]]
  show "finite (pending_seqs s)" using sub fin by (meson finite_imageI finite_subset)
  have "card (pending_seqs s) \<le> card (?f ` dom (calls s))" by (rule card_mono [OF finite_imageI [OF fin] sub])
  also have "\<dots> \<le> card (dom (calls s))" by (rule card_image_le [OF fin])
  also have "\<dots> \<le> card (dom own)" by (rule card_mono [OF heap_owns_card(1) [OF h(1)] c])
  also have "\<dots> \<le> 2 ^ 21" by (rule heap_owns_card(2) [OF h(1)])
  finally show "card (pending_seqs s) \<le> 2 ^ 21" .
qed

lemma next_seq_step:
  assumes inv: "rpc_inv s"
  shows "rpc_next_seq s =
    (let s1 = s\<lparr>g_next_seq := succ_seq (g_next_seq s)\<rparr>
     in if g_next_seq s \<in> pending_seqs s then rpc_next_seq s1 else Some (g_next_seq s, s1))"
  using pending_get(2) [OF inv, of "g_next_seq s"]
  by (subst rpc_next_seq.simps) (auto simp: Let_def succ_seq_def pending_seqs_def)

lemma seq_field_inv: "rpc_inv s \<Longrightarrow> q \<noteq> 0 \<Longrightarrow> rpc_inv (s\<lparr>g_next_seq := q\<rparr>)"
  by (simp add: rpc_inv_def)

lemma next_seq_iter:
  assumes "rpc_inv s" "\<forall>i < k. (succ_seq ^^ i) (g_next_seq s) \<in> pending_seqs s"
    "(succ_seq ^^ k) (g_next_seq s) \<notin> pending_seqs s"
  shows "rpc_next_seq s = Some ((succ_seq ^^ k) (g_next_seq s), s\<lparr>g_next_seq := (succ_seq ^^ Suc k) (g_next_seq s)\<rparr>)"
  using assms
proof (induction k arbitrary: s)
  case 0
  then show ?case using next_seq_step [OF 0(1)] by simp
next
  case (Suc k)
  let ?s1 = "s\<lparr>g_next_seq := succ_seq (g_next_seq s)\<rparr>"
  have nz: "g_next_seq s \<noteq> 0" using rpc_invD(13) [OF Suc.prems(1)] .
  have i1: "rpc_inv ?s1" using seq_field_inv [OF Suc.prems(1)] unat_succ_seq(2) [OF nz] by simp
  have p: "pending_seqs ?s1 = pending_seqs s" by (simp add: pending_seqs_def)
  have "g_next_seq s \<in> pending_seqs s" using Suc.prems(2) by force
  then have "rpc_next_seq s = rpc_next_seq ?s1" using next_seq_step [OF Suc.prems(1)] by simp
  also have "\<dots> = Some ((succ_seq ^^ k) (g_next_seq ?s1), ?s1\<lparr>g_next_seq := (succ_seq ^^ Suc k) (g_next_seq ?s1)\<rparr>)"
  proof (rule Suc.IH [OF i1])
    show "\<forall>i < k. (succ_seq ^^ i) (g_next_seq ?s1) \<in> pending_seqs ?s1"
    proof (intro allI impI)
      fix i assume "i < k"
      then have "(succ_seq ^^ Suc i) (g_next_seq s) \<in> pending_seqs s" using Suc.prems(2) by blast
      then show "(succ_seq ^^ i) (g_next_seq ?s1) \<in> pending_seqs ?s1" unfolding p by (simp add: funpow_swap1)
    qed
    show "(succ_seq ^^ k) (g_next_seq ?s1) \<notin> pending_seqs ?s1"
      using Suc.prems(3) unfolding p by (simp add: funpow_swap1)
  qed
  finally show ?case by (simp add: funpow_swap1)
qed

lemma next_seq_ok:
  assumes inv: "rpc_inv s" and own: "rpc_own own s"
  shows "\<exists>q q'. rpc_next_seq s = Some (q, s\<lparr>g_next_seq := q'\<rparr>) \<and> q \<noteq> 0 \<and> q' \<noteq> 0 \<and> q \<notin> pending_seqs s"
proof -
  let ?f = "\<lambda>k. (succ_seq ^^ k) (g_next_seq s)"
  have nz: "g_next_seq s \<noteq> 0" using rpc_invD(13) [OF inv] .
  have "\<not> ?f ` {..2 ^ 21} \<subseteq> pending_seqs s"
  proof
    assume "?f ` {..2 ^ 21} \<subseteq> pending_seqs s"
    from card_mono [OF pending_seqs_card(1) [OF inv own] this] pending_seqs_card(2) [OF inv own]
    have "card (?f ` {..2 ^ 21}) \<le> 2 ^ 21" by (rule le_trans)
    moreover have "inj_on ?f {..2 ^ 21}" by (rule inj_on_subset [OF succ_seq_inj [OF nz]]) auto
    then have "card (?f ` {..2 ^ 21}) = 2 ^ 21 + 1" by (subst card_image) simp_all
    ultimately show False by simp
  qed
  then obtain k0 where "?f k0 \<notin> pending_seqs s" by blast
  then obtain k where k: "?f k \<notin> pending_seqs s" "\<forall>i < k. ?f i \<in> pending_seqs s"
    using exists_least_iff [of "\<lambda>k. ?f k \<notin> pending_seqs s"] by blast
  then show ?thesis using next_seq_iter [OF inv k(2,1)] succ_seq_iter [OF nz, of k] succ_seq_iter [OF nz, of "Suc k"] by blast
qed


section \<open>What the core promises\<close>

text \<open>The contents of the three maps: the method and the transport of a name, the call of a sequence
  number.\<close>

definition method_of :: "'w rpc \<Rightarrow> bytes \<Rightarrow> 'w rpc_method_entry option" where
  "method_of s n = Option.bind (hm_abs (g_methods s) (name_id n)) (meths s)"

definition transport_of :: "'w rpc \<Rightarrow> bytes \<Rightarrow> addr option" where
  "transport_of s n = map_option te_transport (Option.bind (hm_abs (g_transport_map s) (name_id n)) (tents s))"

definition pending_of :: "'w rpc \<Rightarrow> u32 \<Rightarrow> pending_call option" where
  "pending_of s q = Option.bind (hm_abs (g_pending s) (seq_id q)) (calls s)"

lemmas view_defs = method_of_def transport_of_def pending_of_def

definition same_view :: "'w rpc \<Rightarrow> 'w rpc \<Rightarrow> bool" where
  "same_view s s' \<longleftrightarrow> method_of s' = method_of s \<and> transport_of s' = transport_of s \<and> pending_of s' = pending_of s \<and>
     trans s' = trans s \<and> rx_log s' = rx_log s"

lemma view_simps [simp]:
  "method_of (s\<lparr>rheap := h\<rparr>) = method_of s" "method_of (s\<lparr>world := w\<rparr>) = method_of s"
  "method_of (s\<lparr>rpc_locked := b\<rparr>) = method_of s" "method_of (s\<lparr>trans := ts\<rparr>) = method_of s"
  "method_of (s\<lparr>tents := te\<rparr>) = method_of s" "method_of (s\<lparr>g_transport_map := tm\<rparr>) = method_of s"
  "method_of (s\<lparr>calls := cs\<rparr>) = method_of s" "method_of (s\<lparr>g_pending := pm\<rparr>) = method_of s"
  "method_of (s\<lparr>g_next_seq := q\<rparr>) = method_of s" "method_of (s\<lparr>rx_log := l\<rparr>) = method_of s"
  "transport_of (s\<lparr>rheap := h\<rparr>) = transport_of s" "transport_of (s\<lparr>world := w\<rparr>) = transport_of s"
  "transport_of (s\<lparr>rpc_locked := b\<rparr>) = transport_of s" "transport_of (s\<lparr>trans := ts\<rparr>) = transport_of s"
  "transport_of (s\<lparr>meths := ms\<rparr>) = transport_of s" "transport_of (s\<lparr>g_methods := mm\<rparr>) = transport_of s"
  "transport_of (s\<lparr>calls := cs\<rparr>) = transport_of s" "transport_of (s\<lparr>g_pending := pm\<rparr>) = transport_of s"
  "transport_of (s\<lparr>g_next_seq := q\<rparr>) = transport_of s" "transport_of (s\<lparr>rx_log := l\<rparr>) = transport_of s"
  "pending_of (s\<lparr>rheap := h\<rparr>) = pending_of s" "pending_of (s\<lparr>world := w\<rparr>) = pending_of s"
  "pending_of (s\<lparr>rpc_locked := b\<rparr>) = pending_of s" "pending_of (s\<lparr>trans := ts\<rparr>) = pending_of s"
  "pending_of (s\<lparr>meths := ms\<rparr>) = pending_of s" "pending_of (s\<lparr>g_methods := mm\<rparr>) = pending_of s"
  "pending_of (s\<lparr>tents := te\<rparr>) = pending_of s" "pending_of (s\<lparr>g_transport_map := tm\<rparr>) = pending_of s"
  "pending_of (s\<lparr>g_next_seq := q\<rparr>) = pending_of s" "pending_of (s\<lparr>rx_log := l\<rparr>) = pending_of s"
  by (simp_all add: view_defs fun_eq_iff)

lemma name_id_eq [simp]: "name_id a = name_id b \<longleftrightarrow> c_str a = c_str b"
  by (simp add: name_id_def)

text \<open>A state of the operations that the clients start: the invariant holds, \<open>U\<close> are the blocks of the
  rest of the program, and the lock is free.\<close>

definition rpc_idle :: "'w rpc \<Rightarrow> addr set \<Rightarrow> bool" where
  "rpc_idle s U \<longleftrightarrow> rpc_inv s \<and> user_blocks s U \<and> \<not> rpc_locked s"

lemma rpc_idleE:
  assumes "rpc_idle s U"
  obtains own where "rpc_inv s" "rpc_own own s" "owned own User = U" "\<not> rpc_locked s"
  using assms by (auto simp: rpc_idle_def user_blocks_def)

lemma rpc_idleI: "rpc_inv s \<Longrightarrow> rpc_own own s \<Longrightarrow> owned own User = U \<Longrightarrow> \<not> rpc_locked s \<Longrightarrow> rpc_idle s U"
  by (auto simp: rpc_idle_def user_blocks_def)

section \<open>Changes of the owner map\<close>

lemma map_own:
  assumes own: "rpc_own own s"
  shows "hm_ok (others own Methods_map) m h \<Longrightarrow>
      rpc_own (reown own Methods_map (hm_addrs m)) (s\<lparr>rheap := h, g_methods := m\<rparr>)"
    "hm_ok (others own Pending_map) m h \<Longrightarrow>
      rpc_own (reown own Pending_map (hm_addrs m)) (s\<lparr>rheap := h, g_pending := m\<rparr>)"
    "hm_ok (others own Transport_map) m h \<Longrightarrow>
      rpc_own (reown own Transport_map (hm_addrs m)) (s\<lparr>rheap := h, g_transport_map := m\<rparr>)"
  using own by (auto simp: rpc_own_def hm_ok_def owned_reown_other dom_reown queue_addrs_def)

lemma map_own_user: "hm_ok (others own o') m h \<Longrightarrow> o' \<noteq> User \<Longrightarrow> owned (reown own o' (hm_addrs m)) User = owned own User"
  by (simp add: hm_ok_def owned_reown_other)

lemma owned_upd: "p \<notin> dom own \<Longrightarrow> owned (own(p \<mapsto> q)) q = insert p (owned own q)"
  by (auto simp: owned_def)

lemma object_own:
  assumes own: "rpc_own own s" and p: "p \<notin> dom own" and h: "heap_owns h (insert p (dom own))"
  shows "rpc_own (own(p \<mapsto> Method)) (s\<lparr>rheap := h, meths := (meths s)(p \<mapsto> m)\<rparr>)"
    "rpc_own (own(p \<mapsto> Tentry)) (s\<lparr>rheap := h, tents := (tents s)(p \<mapsto> te)\<rparr>)"
    "rpc_own (own(p \<mapsto> Call)) (s\<lparr>rheap := h, calls := (calls s)(p \<mapsto> pc)\<rparr>)"
    "reasm_addrs (t_reasm tc) = {} \<Longrightarrow> rpc_own (own(p \<mapsto> Transport)) (s\<lparr>rheap := h, trans := (trans s)(p \<mapsto> tc)\<rparr>)"
proof -
  note simps = rpc_own_def owned_temp [OF p] owned_upd [OF p] queue_addrs_def
  show "rpc_own (own(p \<mapsto> Method)) (s\<lparr>rheap := h, meths := (meths s)(p \<mapsto> m)\<rparr>)"
    "rpc_own (own(p \<mapsto> Tentry)) (s\<lparr>rheap := h, tents := (tents s)(p \<mapsto> te)\<rparr>)"
    "rpc_own (own(p \<mapsto> Call)) (s\<lparr>rheap := h, calls := (calls s)(p \<mapsto> pc)\<rparr>)"
    using own h by (simp_all add: simps)
  assume "reasm_addrs (t_reasm tc) = {}"
  moreover have "trans s p = None" using own p unfolding rpc_own_def owned_def by blast
  ultimately show "rpc_own (own(p \<mapsto> Transport)) (s\<lparr>rheap := h, trans := (trans s)(p \<mapsto> tc)\<rparr>)"
    using own h by (auto simp: simps)
qed

lemma own_fresh:
  assumes "rpc_own own s" "p \<notin> dom own"
  shows "meths s p = None" "tents s p = None" "trans s p = None" "calls s p = None"
  using assms unfolding rpc_own_def owned_def by blast+

section \<open>Changes of one field\<close>

lemma inv_skip [simp]:
  "rpc_inv (s\<lparr>rheap := h\<rparr>) = rpc_inv s" "rpc_inv (s\<lparr>world := w\<rparr>) = rpc_inv s" "rpc_inv (s\<lparr>rx_log := l\<rparr>) = rpc_inv s"
  by (simp_all add: rpc_inv_def)

lemma inv_trans:
  assumes "rpc_inv s" "reasm_inv (t_reasm tc)"
  shows "rpc_inv (s\<lparr>trans := (trans s)(p \<mapsto> tc)\<rparr>)"
proof -
  have "\<forall>t tc'. ((trans s)(p \<mapsto> tc)) t = Some tc' \<longrightarrow> reasm_inv (t_reasm tc')" using assms rpc_invD(12) by auto
  moreover have "\<forall>n a. hm_abs (g_transport_map s) (name_id n) = Some a \<longrightarrow>
      (\<exists>te. tents s a = Some te \<and> c_str (te_name te) = c_str n \<and> te_transport te \<in> dom ((trans s)(p \<mapsto> tc)))"
    using rpc_invD(11) [OF assms(1)] by fastforce
  ultimately show ?thesis using assms(1) unfolding rpc_inv_def by simp
qed

lemma method_ok_name [simp]: "method_ok (m\<lparr>me_name := n\<rparr>) = method_ok m"
proof -
  have e: "run_parse (m\<lparr>me_name := n\<rparr>) = run_parse m" "run_handler (m\<lparr>me_name := n\<rparr>) = run_handler m"
    "run_encode (m\<lparr>me_name := n\<rparr>) = run_encode m" "me_free_param (m\<lparr>me_name := n\<rparr>) = me_free_param m"
    "me_free_result (m\<lparr>me_name := n\<rparr>) = me_free_result m"
    by (simp_all add: fun_eq_iff run_parse_def run_handler_def run_encode_def)
  show ?thesis unfolding method_ok_def e by (rule refl)
qed

lemma inv_meths:
  assumes "rpc_inv s" "method_ok m" "meths s e = None"
  shows "rpc_inv (s\<lparr>meths := (meths s)(e \<mapsto> m)\<rparr>)"
proof -
  have "\<forall>n a. hm_abs (g_methods s) (name_id n) = Some a \<longrightarrow>
      (\<exists>m'. ((meths s)(e \<mapsto> m)) a = Some m' \<and> c_str (me_name m') = c_str n)"
    using rpc_invD(9) [OF assms(1)] assms(3) by fastforce
  moreover have "\<forall>a m'. ((meths s)(e \<mapsto> m)) a = Some m' \<longrightarrow> method_ok m'" using rpc_invD(10) [OF assms(1)] assms(2) by auto
  ultimately show ?thesis using assms(1) unfolding rpc_inv_def by simp
qed

lemma inv_methods:
  assumes "rpc_inv s" "hm_inv gm" "key_type gm = key_type (g_methods s)"
    "hm_abs gm = (hm_abs (g_methods s))(name_id (me_name m) \<mapsto> e)" "meths s e = Some m"
  shows "rpc_inv (s\<lparr>g_methods := gm\<rparr>)"
proof -
  have "\<forall>n a. hm_abs gm (name_id n) = Some a \<longrightarrow> (\<exists>m. meths s a = Some m \<and> c_str (me_name m) = c_str n)"
    using rpc_invD(9) [OF assms(1)] assms(4,5) by auto
  then show ?thesis using assms(1-3) unfolding rpc_inv_def by simp
qed

lemma inv_tents:
  assumes "rpc_inv s" "tents s e = None"
  shows "rpc_inv (s\<lparr>tents := (tents s)(e \<mapsto> te)\<rparr>)"
proof -
  have "\<forall>n a. hm_abs (g_transport_map s) (name_id n) = Some a \<longrightarrow>
      (\<exists>te'. ((tents s)(e \<mapsto> te)) a = Some te' \<and> c_str (te_name te') = c_str n \<and> te_transport te' \<in> dom (trans s))"
    using rpc_invD(11) [OF assms(1)] assms(2) by fastforce
  then show ?thesis using assms(1) unfolding rpc_inv_def by simp
qed

lemma inv_transports:
  assumes "rpc_inv s" "hm_inv gm" "key_type gm = key_type (g_transport_map s)"
    "hm_abs gm = (hm_abs (g_transport_map s))(name_id (te_name te) \<mapsto> e)" "tents s e = Some te" "te_transport te \<in> dom (trans s)"
  shows "rpc_inv (s\<lparr>g_transport_map := gm\<rparr>)"
proof -
  have "\<forall>n a. hm_abs gm (name_id n) = Some a \<longrightarrow>
      (\<exists>te. tents s a = Some te \<and> c_str (te_name te) = c_str n \<and> te_transport te \<in> dom (trans s))"
    using rpc_invD(11) [OF assms(1)] assms(4-6) by auto
  then show ?thesis using assms(1-3) unfolding rpc_inv_def by simp
qed

text \<open>A call enters and leaves the table of pending calls together with its object.\<close>

lemma inv_call_add:
  assumes "rpc_inv s" "hm_inv gp" "key_type gp = key_type (g_pending s)" "calls s e = None" "call_ok pc"
    "hm_abs gp = (hm_abs (g_pending s))(seq_id (pc_seq pc) \<mapsto> e)" "hm_abs (g_pending s) (seq_id (pc_seq pc)) = None"
  shows "rpc_inv (s\<lparr>g_pending := gp, calls := (calls s)(e \<mapsto> pc)\<rparr>)"
proof -
  have "\<forall>q a. hm_abs gp (seq_id q) = Some a \<longrightarrow> (\<exists>pc'. ((calls s)(e \<mapsto> pc)) a = Some pc' \<and> pc_seq pc' = q)"
    using rpc_invD(7) [OF assms(1)] assms(4,6) by (auto simp: fun_upd_apply split: if_splits) fastforce
  moreover have "\<forall>a pc'. ((calls s)(e \<mapsto> pc)) a = Some pc' \<longrightarrow> call_ok pc' \<and> hm_abs gp (seq_id (pc_seq pc')) = Some a"
    using rpc_invD(8) [OF assms(1)] assms(5-7) by (fastforce simp: fun_upd_apply split: if_splits)
  ultimately show ?thesis using assms(1-3) unfolding rpc_inv_def by simp
qed

lemma inv_call_drop:
  assumes "rpc_inv s" "hm_inv gp" "key_type gp = key_type (g_pending s)" "calls s e = Some pc"
    "hm_abs gp = (hm_abs (g_pending s))(seq_id (pc_seq pc) := None)"
  shows "rpc_inv (s\<lparr>g_pending := gp, calls := (calls s)(e := None)\<rparr>)"
proof -
  have e: "hm_abs (g_pending s) (seq_id q) = Some e \<Longrightarrow> q = pc_seq pc" for q
    using rpc_invD(7) [OF assms(1), of q e] assms(4) by auto
  have "\<forall>q a. hm_abs gp (seq_id q) = Some a \<longrightarrow> (\<exists>pc'. ((calls s)(e := None)) a = Some pc' \<and> pc_seq pc' = q)"
    using rpc_invD(7) [OF assms(1)] e assms(5) by (auto simp: fun_upd_apply split: if_splits)
  moreover have "\<forall>a pc'. ((calls s)(e := None)) a = Some pc' \<longrightarrow> call_ok pc' \<and> hm_abs gp (seq_id (pc_seq pc')) = Some a"
    using rpc_invD(8) [OF assms(1)] rpc_invD(8) [OF assms(1) assms(4)] assms(5) by (fastforce simp: fun_upd_apply split: if_splits)
  ultimately show ?thesis using assms(1-3) unfolding rpc_inv_def by simp
qed

section \<open>Set-up\<close>

lemma init_map:
  assumes "heap_owns h A" "ty \<in> {1, 2, 3}"
  shows "case hashmap_init h (ucast (n :: u8)) ty of
      Some (m, h') \<Rightarrow> hm_ok A m h' \<and> hm_abs m = Map.empty \<and> key_type m = ty
    | None \<Rightarrow> \<exists>k h'. k \<le> 4096 \<and> heap_malloc h k = Some (0, h')"
proof -
  have n: "unat (ucast n :: u64) \<le> 255"
    using u8_less [of n] by (simp add: unsigned_ucast_eq take_bit_nat_eq_self)
  have "unat count \<le> 256" if cnt: "next_power_of_two (ucast n) = Some count" for count
  proof -
    have "\<exists>k \<le> 8. next_power_of_two (ucast n) = Some (2 ^ k)" using next_power_cap [of "ucast n" 8] n by simp
    then obtain j where "j \<le> 8" "count = 2 ^ j" using cnt by auto
    then show ?thesis using power_increasing [of j 8 "2 :: nat"] by (simp add: unat_pow_u64)
  qed
  then have small: "16 * unat count \<le> 4096" if "next_power_of_two (ucast n) = Some count" for count using that by fastforce
  have "unat (ucast n :: u64) \<le> 2 ^ 32" using n by simp
  from hm_init [OF assms(1) this assms(2)] show ?thesis
    by (elim disjE exE conjE) (simp, simp, use small in blast)
qed

lemma init_ok:
  assumes own: "heap_owns h U"
  shows "case rpc_init (rpc_static h w) mc pc tc of
      Some s' \<Rightarrow> rpc_idle s' U \<and> method_of s' = Map.empty \<and> transport_of s' = Map.empty \<and> pending_of s' = Map.empty \<and>
        trans s' = Map.empty \<and> rx_log s' = []
    | None \<Rightarrow> \<exists>h' k h''. k \<le> 4096 \<and> heap_malloc h' k = Some (0, h'')"
proof -
  note ty = HASHMAP_KEY_STRING_def HASHMAP_KEY_INT_def
  show ?thesis
  proof (cases "hashmap_init h (ucast mc) HASHMAP_KEY_STRING")
    case None
    then show ?thesis using init_map [OF own, of HASHMAP_KEY_STRING mc]
      by (auto simp: rpc_init_def rpc_static_def ty)
  next
    case (Some r1)
    obtain gm h1 where r1: "r1 = (gm, h1)" by fastforce
    have 1: "hm_ok U gm h1" "hm_abs gm = Map.empty" "key_type gm = HASHMAP_KEY_STRING"
      using init_map [OF own, of HASHMAP_KEY_STRING mc] Some r1 by (auto simp: ty)
    then have o1: "heap_owns h1 (U \<union> hm_addrs gm)" by (simp add: hm_ok_def)
    show ?thesis
    proof (cases "hashmap_init h1 (ucast pc) HASHMAP_KEY_INT")
      case None
      then show ?thesis using init_map [OF o1, of HASHMAP_KEY_INT pc] Some r1
        by (auto simp: rpc_init_def rpc_static_def ty)
    next
      case (Some r2)
      obtain gp h2 where r2: "r2 = (gp, h2)" by fastforce
      have 2: "hm_ok (U \<union> hm_addrs gm) gp h2" "hm_abs gp = Map.empty" "key_type gp = HASHMAP_KEY_INT"
        using init_map [OF o1, of HASHMAP_KEY_INT pc] Some r2 by (auto simp: ty)
      then have o2: "heap_owns h2 (U \<union> hm_addrs gm \<union> hm_addrs gp)" by (simp add: hm_ok_def)
      note s2 = Some
      show ?thesis
      proof (cases "hashmap_init h2 (ucast tc) HASHMAP_KEY_STRING")
        case None
        then show ?thesis using init_map [OF o2, of HASHMAP_KEY_STRING tc] s2 r2 \<open>hashmap_init h (ucast mc) HASHMAP_KEY_STRING = Some r1\<close> r1
          by (auto simp: rpc_init_def rpc_static_def ty)
      next
        case (Some r3)
        obtain gt h3 where r3: "r3 = (gt, h3)" by fastforce
        have 3: "hm_ok (U \<union> hm_addrs gm \<union> hm_addrs gp) gt h3" "hm_abs gt = Map.empty" "key_type gt = HASHMAP_KEY_STRING"
          using init_map [OF o2, of HASHMAP_KEY_STRING tc] Some r3 by (auto simp: ty)
        let ?s = "(rpc_static h w)\<lparr>rheap := h3, g_methods := gm, g_pending := gp, g_transport_map := gt\<rparr>"
        have run: "rpc_init (rpc_static h w) mc pc tc = Some ?s"
          using Some r3 s2 r2 \<open>hashmap_init h (ucast mc) HASHMAP_KEY_STRING = Some r1\<close> r1 by (simp add: rpc_init_def rpc_static_def)
        have inv: "rpc_inv ?s" using 1 2 3 by (simp add: rpc_inv_def rpc_static_def hm_ok_def)
        let ?own = "\<lambda>a. if a \<in> U then Some User else if a \<in> hm_addrs gm then Some Methods_map
          else if a \<in> hm_addrs gp then Some Pending_map else if a \<in> hm_addrs gt then Some Transport_map else None"
        have d: "dom ?own = U \<union> hm_addrs gm \<union> hm_addrs gp \<union> hm_addrs gt" by (auto simp: dom_def)
        have "rpc_own ?own ?s" unfolding rpc_own_def d
          using 1(1) 2(1) 3(1) by (auto simp: rpc_static_def hm_ok_def owned_def queue_addrs_def)
        moreover have "owned ?own User = U" by (auto simp: owned_def)
        ultimately have "rpc_idle ?s U" using inv by (intro rpc_idleI) (simp_all add: rpc_static_def)
        then show ?thesis using run by (simp add: view_defs fun_eq_iff 1 2 3) (simp add: rpc_static_def)
      qed
    qed
  qed
qed

lemma null_idle: "rpc_idle s U \<Longrightarrow> heap_malloc (rheap s) n = Some (0, h) \<Longrightarrow> n < 2 ^ 63 \<Longrightarrow> rpc_idle (s\<lparr>rheap := h\<rparr>) U"
proof -
  assume s: "rpc_idle s U" and m: "heap_malloc (rheap s) n = Some (0, h)" "n < 2 ^ 63"
  from s obtain own where o: "rpc_inv s" "rpc_own own s" "owned own User = U" "\<not> rpc_locked s" by (rule rpc_idleE)
  have "heap_owns (rheap s) (dom own)" using o by (simp add: rpc_own_def)
  from hp.alloc_owns [OF this m(2)] m(1) have "heap_owns h (dom own)" by auto
  then have "rpc_own own (s\<lparr>rheap := h\<rparr>)" using same_core_own [OF _ o(2), of "s\<lparr>rheap := h\<rparr>"] by simp
  moreover have "rpc_inv (s\<lparr>rheap := h\<rparr>)" using same_core_inv [of s "s\<lparr>rheap := h\<rparr>"] o(1) by simp
  ultimately show ?thesis using o by (intro rpc_idleI) simp_all
qed

lemma idle_alloc:
  assumes s: "rpc_idle s U" and n: "n < 2 ^ 63"
  obtains (null) h where "heap_malloc (rheap s) n = Some (0, h)" "rpc_idle (s\<lparr>rheap := h\<rparr>) U"
  | (fresh) p h own where "heap_malloc (rheap s) n = Some (p, h)" "p \<noteq> 0" "rpc_inv s" "rpc_own own s"
    "owned own User = U" "\<not> rpc_locked s" "p \<notin> dom own" "heap_owns h (insert p (dom own))"
proof -
  from s obtain own where o: "rpc_inv s" "rpc_own own s" "owned own User = U" "\<not> rpc_locked s" by (rule rpc_idleE)
  have "heap_owns (rheap s) (dom own)" using o by (simp add: rpc_own_def)
  from hp.alloc_owns [OF this n] consider h where "heap_malloc (rheap s) n = Some (0, h)"
    | p h where "heap_malloc (rheap s) n = Some (p, h)" "p \<noteq> 0" "p \<notin> dom own" "heap_owns h (insert p (dom own))" by blast
  then show ?thesis
  proof cases
    case 1
    then show ?thesis using that(1) null_idle [OF s _ n] by blast
  qed (use that(2) o in blast)
qed

lemma trans_create_ok:
  assumes s: "rpc_idle s U"
  shows "\<exists>p s'. rpc_trans_class_create s snd' rcv cls user = Some (p, s') \<and> rpc_idle s' U \<and>
    (p = 0 \<and> same_view s s' \<or>
     p \<noteq> 0 \<and> trans s p = None \<and> trans s' = (trans s)(p \<mapsto> \<lparr>t_send = snd', t_recv = rcv, t_close = cls, t_user = user,
       t_reasm = \<lparr>bufs = [], total_len = 0\<rparr>\<rparr>) \<and>
     method_of s' = method_of s \<and> transport_of s' = transport_of s \<and> pending_of s' = pending_of s)"
proof -
  have n: "sizeof_transport_class < 2 ^ 63" by (simp add: rpc_sizeof_defs)
  from s n show ?thesis
  proof (cases rule: idle_alloc)
    case (null h)
    then show ?thesis by (simp add: rpc_trans_class_create_def same_view_def)
  next
    case (fresh p h own)
    let ?tc = "\<lparr>t_send = snd', t_recv = rcv, t_close = cls, t_user = user, t_reasm = \<lparr>bufs = [], total_len = 0\<rparr>\<rparr>"
    let ?s = "s\<lparr>rheap := h, trans := (trans s)(p \<mapsto> ?tc)\<rparr>"
    have own': "rpc_own (own(p \<mapsto> Transport)) ?s"
      by (rule object_own(4) [OF fresh(4,7,8)]) (simp add: reasm_addrs_def)
    have tp: "trans s p = None" by (rule own_fresh(3) [OF fresh(4,7)])
    have "reasm_inv \<lparr>bufs = [], total_len = 0\<rparr>" by (simp add: reasm_inv_def stream_def)
    then have "rpc_inv (s\<lparr>trans := (trans s)(p \<mapsto> ?tc)\<rparr>)" using fresh(3) by (intro inv_trans) simp_all
    then have "rpc_inv ?s" by (simp add: rpc_inv_def)
    moreover have "owned (own(p \<mapsto> Transport)) User = U" using fresh(5,7) by (simp add: owned_temp)
    ultimately have "rpc_idle ?s U" using own' fresh(6) by (intro rpc_idleI) simp_all
    then show ?thesis using fresh(1,2) tp by (simp add: rpc_trans_class_create_def)
  qed
qed

lemma register_ok:
  assumes s: "rpc_idle s U" and m: "method_ok m"
  shows "(\<exists>s'. rpc_register_method s (Some name) m = Some s' \<and> rpc_idle s' U \<and>
      (same_view s s' \<and> (\<exists>h. heap_malloc (rheap s) 48 = Some (0, h)) \<or>
       (\<forall>n. method_of s' n = (if c_str n = c_str name then Some (m\<lparr>me_name := name\<rparr>) else method_of s n)) \<and>
       transport_of s' = transport_of s \<and> pending_of s' = pending_of s \<and> trans s' = trans s)) \<or>
    (rpc_register_method s (Some name) m = None \<and>
      (\<exists>p h h'. heap_malloc (rheap s) 48 = Some (p, h) \<and> p \<noteq> 0 \<and> heap_malloc h 32 = Some (0, h')))"
proof -
  have n: "sizeof_method_entry < 2 ^ 63" by (simp add: rpc_sizeof_defs)
  from s n show ?thesis
  proof (cases rule: idle_alloc)
    case (null h)
    then show ?thesis by (simp add: rpc_register_method_def same_view_def rpc_sizeof_defs)
  next
    case (fresh e h own)
    let ?m = "m\<lparr>me_name := name\<rparr>"
    let ?s1 = "s\<lparr>rheap := h, meths := (meths s)(e \<mapsto> ?m)\<rparr>" and ?own1 = "own(e \<mapsto> Method)"
    have own1: "rpc_own ?own1 ?s1" by (rule object_own(1) [OF fresh(4,7,8)])
    have me: "meths s e = None" by (rule own_fresh(1) [OF fresh(4,7)])
    have "method_ok ?m" using m by simp
    then have "rpc_inv (s\<lparr>meths := (meths s)(e \<mapsto> ?m)\<rparr>)" using inv_meths [OF fresh(3)] me by blast
    then have inv1: "rpc_inv ?s1" by (simp add: rpc_inv_def)
    note ok = rpc_own_maps(1) [OF own1 inv1]
    have k: "key_id (g_methods ?s1) (str_key name) = name_id name" using rpc_invD(2) [OF inv1] by simp
    have run: "rpc_register_method s (Some name) m = do {
        (gm, h') \<leftarrow> hashmap_put (g_methods s) h (str_key name) e;
        Some (?s1\<lparr>rheap := h', g_methods := gm, rpc_locked := False\<rparr>) }"
      using fresh(1,2,6) by (simp add: rpc_register_method_def rpc_port_lock_def rpc_port_unlock_def)
    from hm_put [OF ok, of "str_key name" e] show ?thesis
    proof
      assume "\<exists>m' h'. hashmap_put (g_methods ?s1) (rheap ?s1) (str_key name) e = Some (m', h') \<and>
        hm_ok (others ?own1 Methods_map) m' h' \<and>
        hm_abs m' = (hm_abs (g_methods ?s1))(key_id (g_methods ?s1) (str_key name) \<mapsto> e) \<and> key_type m' = key_type (g_methods ?s1)"
      then obtain gm h' where p: "hashmap_put (g_methods s) h (str_key name) e = Some (gm, h')"
        "hm_ok (others ?own1 Methods_map) gm h'" "hm_abs gm = (hm_abs (g_methods s))(name_id name \<mapsto> e)"
        "key_type gm = key_type (g_methods s)" using k by auto
      let ?s2 = "?s1\<lparr>rheap := h', g_methods := gm\<rparr>" and ?s3 = "?s1\<lparr>rheap := h', g_methods := gm, rpc_locked := False\<rparr>"
      have own2: "rpc_own (reown ?own1 Methods_map (hm_addrs gm)) ?s2" by (rule map_own(1) [OF own1 p(2)])
      have "owned (reown ?own1 Methods_map (hm_addrs gm)) User = U"
        using map_own_user [OF p(2)] fresh(5,7) by (simp add: owned_temp)
      moreover have "rpc_inv (?s1\<lparr>g_methods := gm\<rparr>)"
        by (rule inv_methods [OF inv1, where m = ?m]) (use p in \<open>auto simp: hm_ok_def\<close>)
      then have "rpc_inv ?s2" by (simp add: rpc_inv_def)
      moreover have "?s2 = ?s3" using fresh(6) by (cases s) simp
      ultimately have "rpc_idle ?s3 U" using own2 fresh(6) by (intro rpc_idleI) simp_all
      moreover have "method_of ?s3 n = (if c_str n = c_str name then Some ?m else method_of s n)" for n
        using p(3) me rpc_invD(9) [OF fresh(3), of n] by (cases "hm_abs (g_methods s) (name_id n)") (auto simp: view_defs)
      ultimately show ?thesis using run p(1) by simp
    next
      assume "hashmap_put (g_methods ?s1) (rheap ?s1) (str_key name) e = None \<and>
        hm_abs (g_methods ?s1) (key_id (g_methods ?s1) (str_key name)) = None \<and>
        (\<exists>h'. heap_malloc (rheap ?s1) 32 = Some (0, h'))"
      then show ?thesis using run fresh(1,2) by (auto simp: rpc_sizeof_defs)
    qed
  qed
qed

lemma bind_ok:
  assumes s: "rpc_idle s U" and t: "t \<in> dom (trans s)"
  shows "(\<exists>s'. rpc_bind_transport s (Some name) t = Some s' \<and> rpc_idle s' U \<and>
      (same_view s s' \<and> (\<exists>h. heap_malloc (rheap s) 16 = Some (0, h)) \<or>
       (\<forall>n. transport_of s' n = (if c_str n = c_str name then Some t else transport_of s n)) \<and>
       method_of s' = method_of s \<and> pending_of s' = pending_of s \<and> trans s' = trans s)) \<or>
    (rpc_bind_transport s (Some name) t = None \<and>
      (\<exists>p h h'. heap_malloc (rheap s) 16 = Some (p, h) \<and> p \<noteq> 0 \<and> heap_malloc h 32 = Some (0, h')))"
proof -
  have n: "sizeof_transport_entry < 2 ^ 63" by (simp add: rpc_sizeof_defs)
  have t0: "t \<noteq> 0" using t s rpc_own_objects(4) by (metis domD rpc_idleE)
  from s n show ?thesis
  proof (cases rule: idle_alloc)
    case (null h)
    then show ?thesis using t0 by (simp add: rpc_bind_transport_def same_view_def rpc_sizeof_defs)
  next
    case (fresh e h own)
    let ?te = "\<lparr>te_name = name, te_transport = t\<rparr>"
    let ?s1 = "s\<lparr>rheap := h, tents := (tents s)(e \<mapsto> ?te)\<rparr>" and ?own1 = "own(e \<mapsto> Tentry)"
    have own1: "rpc_own ?own1 ?s1" by (rule object_own(2) [OF fresh(4,7,8)])
    have me: "tents s e = None" by (rule own_fresh(2) [OF fresh(4,7)])
    then have "rpc_inv (s\<lparr>tents := (tents s)(e \<mapsto> ?te)\<rparr>)" using inv_tents [OF fresh(3)] by blast
    then have inv1: "rpc_inv ?s1" by (simp add: rpc_inv_def)
    note ok = rpc_own_maps(3) [OF own1 inv1]
    have k: "key_id (g_transport_map ?s1) (str_key name) = name_id name" using rpc_invD(6) [OF inv1] by simp
    have run: "rpc_bind_transport s (Some name) t = do {
        (gm, h') \<leftarrow> hashmap_put (g_transport_map s) h (str_key name) e;
        Some (?s1\<lparr>rheap := h', g_transport_map := gm, rpc_locked := False\<rparr>) }"
      using fresh(1,2,6) t0 by (simp add: rpc_bind_transport_def rpc_port_lock_def rpc_port_unlock_def)
    from hm_put [OF ok, of "str_key name" e] show ?thesis
    proof
      assume "\<exists>m' h'. hashmap_put (g_transport_map ?s1) (rheap ?s1) (str_key name) e = Some (m', h') \<and>
        hm_ok (others ?own1 Transport_map) m' h' \<and>
        hm_abs m' = (hm_abs (g_transport_map ?s1))(key_id (g_transport_map ?s1) (str_key name) \<mapsto> e) \<and>
        key_type m' = key_type (g_transport_map ?s1)"
      then obtain gm h' where p: "hashmap_put (g_transport_map s) h (str_key name) e = Some (gm, h')"
        "hm_ok (others ?own1 Transport_map) gm h'" "hm_abs gm = (hm_abs (g_transport_map s))(name_id name \<mapsto> e)"
        "key_type gm = key_type (g_transport_map s)" using k by auto
      let ?s2 = "?s1\<lparr>rheap := h', g_transport_map := gm\<rparr>" and ?s3 = "?s1\<lparr>rheap := h', g_transport_map := gm, rpc_locked := False\<rparr>"
      have own2: "rpc_own (reown ?own1 Transport_map (hm_addrs gm)) ?s2" by (rule map_own(3) [OF own1 p(2)])
      have "owned (reown ?own1 Transport_map (hm_addrs gm)) User = U"
        using map_own_user [OF p(2)] fresh(5,7) by (simp add: owned_temp)
      moreover have "rpc_inv (?s1\<lparr>g_transport_map := gm\<rparr>)"
        by (rule inv_transports [OF inv1, where te = ?te]) (use p t in \<open>auto simp: hm_ok_def\<close>)
      then have "rpc_inv ?s2" by (simp add: rpc_inv_def)
      moreover have "?s2 = ?s3" using fresh(6) by (cases s) simp
      ultimately have "rpc_idle ?s3 U" using own2 fresh(6) by (intro rpc_idleI) simp_all
      moreover have "transport_of ?s3 n = (if c_str n = c_str name then Some t else transport_of s n)" for n
        using p(3) me rpc_invD(11) [OF fresh(3), of n]
        by (cases "hm_abs (g_transport_map s) (name_id n)") (auto simp: view_defs)
      ultimately show ?thesis using run p(1) by simp
    next
      assume "hashmap_put (g_transport_map ?s1) (rheap ?s1) (str_key name) e = None \<and>
        hm_abs (g_transport_map ?s1) (key_id (g_transport_map ?s1) (str_key name)) = None \<and>
        (\<exists>h'. heap_malloc (rheap ?s1) 32 = Some (0, h'))"
      then show ?thesis using run fresh(1,2) by (auto simp: rpc_sizeof_defs)
    qed
  qed
qed

lemma transport_lookup_eq:
  assumes "rpc_inv s" "rpc_own own s"
  shows "rpc_transport_lookup s (Some name) = Some (case transport_of s name of None \<Rightarrow> 0 | Some t \<Rightarrow> t)"
proof -
  have "hashmap_get (g_transport_map s) (str_key name) =
      Some (case hm_abs (g_transport_map s) (name_id name) of None \<Rightarrow> 0 | Some v \<Rightarrow> v)"
    using hm_get_abs(1) [OF rpc_invD(5) [OF assms(1)]] rpc_invD(6) [OF assms(1)] by simp
  then show ?thesis using rpc_invD(11) [OF assms(1), of name] rpc_own_objects(3) [OF assms(2)]
    by (cases "hm_abs (g_transport_map s) (name_id name)") (auto simp: rpc_transport_lookup_def transport_of_def)
qed

lemma transport_of_dom:
  assumes "rpc_inv s" "transport_of s name = Some t"
  shows "t \<in> dom (trans s)"
  using assms(2) rpc_invD(11) [OF assms(1), of name] by (fastforce simp: transport_of_def bind_eq_Some_conv)

end
