(* ===== verification/Rpc_Calls.thy ===== *)
theory Rpc_Calls
  imports Rpc_Ops
begin

text \<open>
  The two halves of \<^verbatim>\<open>rpc_call_with_tlv\<close>: the request is sent under a fresh sequence number and
  the call is pending until the caller has waited; then nothing of the call is left.
\<close>

lemma unlock_view [simp]:
  "method_of (rpc_port_unlock s) = method_of s" "transport_of (rpc_port_unlock s) = transport_of s"
  "pending_of (rpc_port_unlock s) = pending_of s" "\<not> rpc_locked (rpc_port_unlock s)"
  "trans (rpc_port_unlock s) = trans s" "world (rpc_port_unlock s) = world s" "rx_log (rpc_port_unlock s) = rx_log s"
  by (simp_all add: rpc_port_unlock_def)

section \<open>Sending\<close>

lemma send_msg_total:
  assumes own: "heap_owns (rheap s) A" and n: "length msg < 2 ^ 63"
  shows "\<exists>r s'. send_msg s tc msg = Some (r, s') \<and> heap_owns (rheap s') A \<and> same_core s s' \<and>
    (r = -1 \<and> world s' = world s \<or>
     (\<exists>f rr. t_send tc = Some f \<and> f (t_user tc) msg (world s) = (rr, world s') \<and> r = to_int rr))"
proof (cases "t_send tc")
  case None
  then show ?thesis using own by (simp add: send_msg_def)
next
  case (Some f)
  from own n show ?thesis
  proof (cases rule: hp.alloc_cases)
    case (null h)
    then show ?thesis using Some by (simp add: send_msg_def)
  next
    case (fresh p h)
    obtain rr w where fw: "f (t_user tc) msg (world s) = (rr, w)" by fastforce
    from hp.alloc_release [OF own n fresh(1)] obtain h'' where "heap_free h p = Some h''" "heap_owns h'' A" by blast
    then show ?thesis using Some fresh(1,2) fw by (simp add: send_msg_def)
  qed
qed

lemma send_request_total:
  assumes own: "heap_owns (rheap s) A" and n: "length (c_str name) + length tlvs < 2 ^ 32" and t: "trans s t = Some tc" "t \<noteq> 0"
  shows "\<exists>r s'. rpc_send_request_tlv s t q (Some name) tlvs = Some (r, s') \<and> heap_owns (rheap s') A \<and> same_core s s' \<and>
    (r = -1 \<and> world s' = world s \<or>
     (\<exists>f rr. t_send tc = Some f \<and> f (t_user tc) (request_msg q name tlvs) (world s) = (rr, world s') \<and> r = to_int rr))"
proof -
  have "length (request_msg q name tlvs) < 2 ^ 63" using n by (simp add: request_fields)
  from send_msg_total [OF own this] show ?thesis using t by (simp add: rpc_send_request_tlv_def)
qed

section \<open>The start of a call\<close>

text \<open>The call that is registered for a request.\<close>

definition new_call :: "u32 \<Rightarrow> bytes option \<Rightarrow> nat option \<Rightarrow> pending_call" where
  "new_call q out_tlv out_len = \<lparr>pc_seq = q, pc_buf = out_tlv, buf_size = (case out_len of None \<Rightarrow> 0 | Some n \<Rightarrow> n),
     resp_len = 0, pc_status = RPC_STATUS_OK, pc_done = False, pc_waiter = \<lparr>signaled = False\<rparr>\<rparr>"

text \<open>What the caller passes: the buffer has the length that \<^verbatim>\<open>*out_len\<close> says.\<close>

definition out_ok :: "bytes option \<Rightarrow> nat option \<Rightarrow> bool" where
  "out_ok out_tlv out_len \<longleftrightarrow> (case (out_tlv, out_len) of (Some b, Some n) \<Rightarrow> n \<le> length b | _ \<Rightarrow> True)"

lemma new_call_ok: "q \<noteq> 0 \<Longrightarrow> out_ok b n \<Longrightarrow> call_ok (new_call q b n)"
  by (auto simp: call_ok_def new_call_def out_ok_def split: option.splits)

lemma new_call_seq [simp]: "pc_seq (new_call q b n) = q"
  by (simp add: new_call_def)

lemma pending_beside:
  assumes inv: "rpc_inv s" and own: "rpc_own own s" and p: "p \<notin> dom own" "heap_owns h (insert p (dom own))"
  shows "hm_ok (others (own(p \<mapsto> Call)) Pending_map) (g_pending s) h"
proof -
  have own0: "rpc_own (own(p \<mapsto> Call)) (s\<lparr>rheap := h, calls := (calls s)(p \<mapsto> pc)\<rparr>)" for pc
    by (rule object_own(3) [OF own p])
  have "owned (own(p \<mapsto> Call)) Pending_map = hm_addrs (g_pending s)" using own p(1) by (simp add: rpc_own_def owned_temp)
  then show ?thesis
    using rpc_invD(3) [OF inv] own0 dom_others [of "own(p \<mapsto> Call)" Pending_map] by (auto simp: hm_ok_def rpc_own_def)
qed

text \<open>From the sequence number on, with the lock held: the part of \<^verbatim>\<open>rpc_call_begin\<close> that allocates and
  registers the call.\<close>

lemma call_registered:
  assumes inv: "rpc_inv s" and own: "rpc_own own s" and q: "q \<noteq> 0" "hm_abs (g_pending s) (seq_id q) = None"
    and out: "out_ok b n" and p: "p \<notin> dom own" "heap_owns h (insert p (dom own))"
    and put: "hashmap_put (g_pending s) h (int_key q) p = Some (gp, h')"
  defines "s1 \<equiv> s\<lparr>calls := (calls s)(p \<mapsto> new_call q b n), rheap := h', g_pending := gp\<rparr>"
  shows "rpc_inv s1" "\<exists>own'. rpc_own own' s1 \<and> owned own' User = owned own User"
    "pending_of s q = None" "pending_of s1 = (pending_of s)(q \<mapsto> new_call q b n)"
proof -
  let ?s0 = "s\<lparr>rheap := h, calls := (calls s)(p \<mapsto> new_call q b n)\<rparr>" and ?own0 = "own(p \<mapsto> Call)"
  have own0: "rpc_own ?own0 ?s0" by (rule object_own(3) [OF own p])
  have free: "calls s p = None" by (rule own_fresh(4) [OF own p(1)])
  note ok = pending_beside [OF inv own p]
  have k: "key_id (g_pending s) (int_key q) = seq_id q" using rpc_invD(4) [OF inv] by simp
  from hm_put [OF ok, of "int_key q" p] put k have g: "hm_ok (others ?own0 Pending_map) gp h'"
    "hm_abs gp = (hm_abs (g_pending s))(seq_id q \<mapsto> p)" "key_type gp = key_type (g_pending s)" by auto
  show "pending_of s q = None" using q(2) by (simp add: pending_of_def)
  show "pending_of s1 = (pending_of s)(q \<mapsto> new_call q b n)"
  proof
    fix q'
    show "pending_of s1 q' = ((pending_of s)(q \<mapsto> new_call q b n)) q'"
      using g(2) free rpc_invD(7) [OF inv, of q'] by (cases "hm_abs (g_pending s) (seq_id q')") (auto simp: pending_of_def s1_def)
  qed
  have "rpc_inv (s\<lparr>g_pending := gp, calls := (calls s)(p \<mapsto> new_call q b n)\<rparr>)"
    by (rule inv_call_add [OF inv _ g(3) free new_call_ok [OF q(1) out]]) (use g q in \<open>simp_all add: hm_ok_def\<close>)
  then show "rpc_inv s1" by (simp add: rpc_inv_def s1_def)
  have "rpc_own (reown ?own0 Pending_map (hm_addrs gp)) (?s0\<lparr>rheap := h', g_pending := gp\<rparr>)" by (rule map_own(2) [OF own0 g(1)])
  moreover have "owned (reown ?own0 Pending_map (hm_addrs gp)) User = owned own User"
    using map_own_user [OF g(1)] p(1) by (simp add: owned_temp)
  moreover have "?s0\<lparr>rheap := h', g_pending := gp\<rparr> = s1" unfolding s1_def by (cases s) simp
  ultimately show "\<exists>own'. rpc_own own' s1 \<and> owned own' User = owned own User" by auto
qed

text \<open>Removing a call from the table and freeing it.\<close>

lemma call_removed:
  assumes inv: "rpc_inv s" and own: "rpc_own own s" and pc: "calls s a = Some pc"
  shows "\<exists>gp h h' own'. hashmap_remove (g_pending s) (rheap s) (int_key (pc_seq pc)) = Some (True, gp, h) \<and>
    heap_free h a = Some h' \<and>
    (let s' = s\<lparr>rheap := h', g_pending := gp, calls := (calls s)(a := None)\<rparr>
     in rpc_inv s' \<and> rpc_own own' s' \<and> owned own' User = owned own User \<and>
        pending_of s' = (pending_of s)(pc_seq pc := None))"
proof -
  have hm: "hm_abs (g_pending s) (seq_id (pc_seq pc)) = Some a" using rpc_invD(8) [OF inv pc] by simp
  have k: "key_id (g_pending s) (int_key (pc_seq pc)) = seq_id (pc_seq pc)" using rpc_invD(4) [OF inv] by simp
  from hm_remove [OF rpc_own_maps(2) [OF own inv], of "int_key (pc_seq pc)"] hm k obtain gp h where
    r: "hashmap_remove (g_pending s) (rheap s) (int_key (pc_seq pc)) = Some (True, gp, h)"
    "hm_ok (others own Pending_map) gp h" "hm_abs gp = (hm_abs (g_pending s))(seq_id (pc_seq pc) := None)"
    "key_type gp = key_type (g_pending s)" by auto
  let ?own1 = "reown own Pending_map (hm_addrs gp)"
  let ?s1 = "s\<lparr>rheap := h, g_pending := gp\<rparr>"
  have own1: "rpc_own ?own1 ?s1" by (rule map_own(2) [OF own r(2)])
  have a: "?own1 a = Some Call" using own1 pc unfolding rpc_own_def owned_def by auto
  have "heap_owns h (dom ?own1)" using own1 by (simp add: rpc_own_def)
  with a obtain h' where h': "heap_free h a = Some h'" "heap_owns h' (dom ?own1 - {a})" using hp.release_owns [of h "dom ?own1" a] by blast
  let ?own2 = "?own1(a := None)" and ?s2 = "s\<lparr>rheap := h', g_pending := gp, calls := (calls s)(a := None)\<rparr>"
  have drop: "owned ?own2 o' = (if o' = Call then owned ?own1 Call - {a} else owned ?own1 o')" for o'
    using a by (auto simp: owned_def)
  have "rpc_own ?own2 ?s2" using own1 h'(2) unfolding rpc_own_def drop queue_addrs_def by auto
  moreover have "rpc_inv (s\<lparr>g_pending := gp, calls := (calls s)(a := None)\<rparr>)"
    by (rule inv_call_drop [OF inv _ r(4) pc r(3)]) (use r(2) in \<open>simp add: hm_ok_def\<close>)
  then have "rpc_inv ?s2" by (simp add: rpc_inv_def)
  moreover have "owned ?own2 User = owned own User" using drop map_own_user [OF r(2)] by simp
  moreover have "pending_of ?s2 = (pending_of s)(pc_seq pc := None)"
  proof
    fix q
    have "hm_abs (g_pending s) (seq_id q) = Some a \<Longrightarrow> q = pc_seq pc" using rpc_invD(7) [OF inv, of q a] pc by auto
    then show "pending_of ?s2 q = ((pending_of s)(pc_seq pc := None)) q"
      using r(3) by (cases "hm_abs (g_pending s) (seq_id q)") (auto simp: pending_of_def)
  qed
  ultimately show ?thesis using r(1) h'(1) by (auto simp: Let_def)
qed

text \<open>What a started call leaves: a new pending call under a fresh number whose request went out, or an
  error that changes nothing.\<close>

definition call_started :: "'w rpc \<Rightarrow> 'w rpc \<Rightarrow> addr \<Rightarrow> bytes \<Rightarrow> bytes \<Rightarrow> bytes option \<Rightarrow> nat option \<Rightarrow> bool" where
  "call_started s s' a name tlvs out_tlv out_len \<longleftrightarrow> (\<exists>q t tc f r.
     q \<noteq> 0 \<and> pending_of s q = None \<and> calls s' a = Some (new_call q out_tlv out_len) \<and>
     pending_of s' = (pending_of s)(q \<mapsto> new_call q out_tlv out_len) \<and>
     transport_of s name = Some t \<and> trans s t = Some tc \<and> t_send tc = Some f \<and>
     f (t_user tc) (request_msg q name tlvs) (world s) = (r, world s') \<and> 0 \<le> to_int r \<and>
     method_of s' = method_of s \<and> transport_of s' = transport_of s \<and> trans s' = trans s \<and> rx_log s' = rx_log s)"

lemma call_begin_no_transport:
  assumes "rpc_idle s U" "transport_of s name = None"
  shows "rpc_call_begin s (Some name) tlvs out_tlv out_len wok = Some (Inl (-4), s)"
proof -
  from assms(1) obtain own where "rpc_inv s" "rpc_own own s" by (rule rpc_idleE)
  then show ?thesis using transport_lookup_eq [of s own name] assms(2) by (simp add: rpc_call_begin_def rpc_status_defs)
qed

lemma same_core_view:
  assumes "same_core s s'"
  shows "method_of s' = method_of s" "transport_of s' = transport_of s" "pending_of s' = pending_of s"
  using assms by (simp_all add: view_defs fun_eq_iff same_core_fields)

text \<open>The request goes out with the call in the table; when it does not, the call is taken back.\<close>

lemma call_send:
  assumes inv: "rpc_inv s" and own: "rpc_own own s" "owned own User = U" and tc: "trans s t = Some tc" "t \<noteq> 0"
    and pc: "calls s p = Some pc" "pc_seq pc = q" and n: "length (c_str name) + length tlvs < 2 ^ 32"
  shows "\<exists>r s'. rpc_send_request_tlv s t q (Some name) tlvs = Some (r, s') \<and> same_core s s' \<and>
    (if r < 0
     then \<exists>gp h h'. hashmap_remove (g_pending s') (rheap s') (int_key q) = Some (True, gp, h) \<and> heap_free h p = Some h' \<and>
       (let s5 = s'\<lparr>rheap := h', g_pending := gp, calls := (calls s')(p := None)\<rparr>
        in rpc_idle (rpc_port_unlock s5) U \<and> pending_of s5 = (pending_of s)(q := None))
     else rpc_idle (rpc_port_unlock s') U \<and>
       (\<exists>f rr. t_send tc = Some f \<and> f (t_user tc) (request_msg q name tlvs) (world s) = (rr, world s') \<and> r = to_int rr))"
proof -
  have h: "heap_owns (rheap s) (dom own)" using own(1) by (simp add: rpc_own_def)
  from send_request_total [OF h n tc, of q] obtain r s' where
    s': "rpc_send_request_tlv s t q (Some name) tlvs = Some (r, s')" "heap_owns (rheap s') (dom own)" "same_core s s'"
    "r = -1 \<and> world s' = world s \<or> (\<exists>f rr. t_send tc = Some f \<and>
      f (t_user tc) (request_msg q name tlvs) (world s) = (rr, world s') \<and> r = to_int rr)" by blast
  have o': "rpc_own own s'" by (rule same_core_own [OF s'(3) own(1) s'(2)])
  have i': "rpc_inv s'" using same_core_inv [OF s'(3)] inv by simp
  have c': "calls s' p = Some pc" "pending_of s' = pending_of s" using pc same_core_fields(8) [OF s'(3)] same_core_view(3) [OF s'(3)] by simp_all
  show ?thesis
  proof (cases "r < 0")
    case True
    from call_removed [OF i' o' c'(1)] obtain gp h1 h2 own5 where
      rm: "hashmap_remove (g_pending s') (rheap s') (int_key q) = Some (True, gp, h1)" "heap_free h1 p = Some h2"
      and s5: "rpc_inv (s'\<lparr>rheap := h2, g_pending := gp, calls := (calls s')(p := None)\<rparr>)"
        "rpc_own own5 (s'\<lparr>rheap := h2, g_pending := gp, calls := (calls s')(p := None)\<rparr>)" "owned own5 User = U"
        "pending_of (s'\<lparr>rheap := h2, g_pending := gp, calls := (calls s')(p := None)\<rparr>) = (pending_of s)(q := None)"
      using pc(2) c'(2) own(2) by (auto simp: Let_def)
    let ?s5 = "s'\<lparr>rheap := h2, g_pending := gp, calls := (calls s')(p := None)\<rparr>"
    have "rpc_idle (rpc_port_unlock ?s5) U" using s5(1-3) by (intro rpc_idleI) simp_all
    then show ?thesis using s'(1,3) True rm s5(4) by (auto simp: Let_def)
  next
    case False
    have "rpc_idle (rpc_port_unlock s') U" using i' o' own(2) by (intro rpc_idleI) simp_all
    then show ?thesis using s'(1,3,4) False by auto
  qed
qed

text \<open>From the allocated call on: it is put into the table and its request is sent.\<close>

lemma call_submit:
  assumes s1: "rpc_inv s" "rpc_own own s" "owned own User = U" and q: "q \<noteq> 0" "hm_abs (g_pending s) (seq_id q) = None"
    and out: "out_ok out_tlv out_len" and p: "p \<notin> dom own" "heap_owns h (insert p (dom own))"
    and put: "hashmap_put (g_pending s) h (int_key q) p = Some (gp, h')"
    and tc: "transport_of s name = Some t" "trans s t = Some tc" "t \<noteq> 0" and n: "length (c_str name) + length tlvs < 2 ^ 32"
  defines "s2 \<equiv> s\<lparr>calls := (calls s)(p \<mapsto> new_call q out_tlv out_len), rheap := h', g_pending := gp\<rparr>"
  shows "case do { (r, s) \<leftarrow> rpc_send_request_tlv s2 t q (Some name) tlvs;
        if r < 0 then do {
          (b, gp, h) \<leftarrow> hashmap_remove (g_pending s) (rheap s) (int_key q);
          h \<leftarrow> heap_free h p;
          Some (Inl (-4), rpc_port_unlock (s\<lparr>rheap := h, g_pending := gp, calls := (calls s)(p := None)\<rparr>)) }
        else Some (Inr p, rpc_port_unlock s) } of
      Some (Inl st, s') \<Rightarrow> st = (-4 :: int) \<and> rpc_idle s' U \<and> same_view s s'
    | Some (Inr a, s') \<Rightarrow> rpc_idle s' U \<and> call_started s s' a name tlvs out_tlv out_len
    | None \<Rightarrow> False"
proof -
  let ?pc = "new_call q out_tlv out_len"
  note reg = call_registered [OF s1(1,2) q out p put, folded s2_def]
  from reg(2) obtain own2 where o2: "rpc_own own2 s2" "owned own2 User = U" using s1(3) by auto
  have t2: "trans s2 t = Some tc" "calls s2 p = Some ?pc" "world s2 = world s" using tc by (simp_all add: s2_def)
  from call_send [OF reg(1) o2 t2(1) tc(3) t2(2) new_call_seq n] obtain r s3 where
    s3: "rpc_send_request_tlv s2 t q (Some name) tlvs = Some (r, s3)" "same_core s2 s3"
    and d: "if r < 0
      then \<exists>gp h h'. hashmap_remove (g_pending s3) (rheap s3) (int_key q) = Some (True, gp, h) \<and> heap_free h p = Some h' \<and>
        (let s5 = s3\<lparr>rheap := h', g_pending := gp, calls := (calls s3)(p := None)\<rparr>
         in rpc_idle (rpc_port_unlock s5) U \<and> pending_of s5 = (pending_of s2)(q := None))
      else rpc_idle (rpc_port_unlock s3) U \<and> (\<exists>f rr. t_send tc = Some f \<and>
        f (t_user tc) (request_msg q name tlvs) (world s2) = (rr, world s3) \<and> r = to_int rr)" by blast
  have v3: "method_of s3 = method_of s" "transport_of s3 = transport_of s" "trans s3 = trans s" "rx_log s3 = rx_log s"
    "calls s3 p = Some ?pc" "pending_of s3 = (pending_of s)(q \<mapsto> ?pc)"
    using same_core_view [OF s3(2)] same_core_fields [OF s3(2)] reg(4) by (simp_all add: s2_def)
  have q0: "(pending_of s2)(q := None) = pending_of s" using reg(3,4) by (simp add: fun_upd_idem)
  show ?thesis
  proof (cases "r < 0")
    case True
    then show ?thesis using s3(1) d q0 v3(1-4) by (auto simp: Let_def same_view_def rpc_port_unlock_def)
  next
    case False
    then have "call_started s (rpc_port_unlock s3) p name tlvs out_tlv out_len"
      unfolding call_started_def using q(1) reg(3) v3 tc d t2(3)
      by (intro exI [of _ q] exI [of _ t] exI [of _ tc]) (auto simp: rpc_port_unlock_def)
    then show ?thesis using s3(1) False d by simp
  qed
qed

lemma call_begin_ok:
  assumes s: "rpc_idle s U" and t: "transport_of s name = Some t" and out: "out_ok out_tlv out_len"
    and n: "length (c_str name) + length tlvs < 2 ^ 32"
  shows "case rpc_call_begin s (Some name) tlvs out_tlv out_len wok of
      Some (Inl st, s') \<Rightarrow> (st = -3 \<or> st = -4) \<and> rpc_idle s' U \<and> same_view s s'
    | Some (Inr a, s') \<Rightarrow> rpc_idle s' U \<and> call_started s s' a name tlvs out_tlv out_len
    | None \<Rightarrow> \<exists>p h h2. heap_malloc (rheap s) 48 = Some (p, h) \<and> p \<noteq> 0 \<and> heap_malloc h 32 = Some (0, h2)"
proof -
  from s obtain own where o: "rpc_inv s" "rpc_own own s" "owned own User = U" "\<not> rpc_locked s" by (rule rpc_idleE)
  obtain tc where tc: "trans s t = Some tc" using transport_of_dom [OF o(1) t] by blast
  have t0: "t \<noteq> 0" using rpc_own_objects(4) [OF o(2) tc] .
  have look: "rpc_transport_lookup s (Some name) = Some t" using transport_lookup_eq [OF o(1,2), of name] t by simp
  let ?l = "s\<lparr>rpc_locked := True\<rparr>"
  have lo: "rpc_inv ?l" "rpc_own own ?l" using o by simp_all
  from next_seq_ok [OF lo] obtain q q' where q: "rpc_next_seq ?l = Some (q, ?l\<lparr>g_next_seq := q'\<rparr>)"
    "q \<noteq> 0" "q' \<noteq> 0" "q \<notin> pending_seqs ?l" by blast
  let ?s1 = "?l\<lparr>g_next_seq := q'\<rparr>"
  have i1: "rpc_inv ?s1" using seq_field_inv [OF lo(1) q(3)] .
  have o1: "rpc_own own ?s1" using lo(2) by (simp add: rpc_own_def queue_addrs_def)
  have fresh_q: "hm_abs (g_pending ?s1) (seq_id q) = None" using q(4) by (simp add: pending_seqs_def)
  have h1: "heap_owns (rheap ?s1) (dom own)" using o1 by (simp add: rpc_own_def)
  have n48: "sizeof_pending_call < 2 ^ 63" by (simp add: rpc_sizeof_defs)
  have fail: "rpc_idle (rpc_port_unlock (?s1\<lparr>rheap := h\<rparr>)) U \<and> same_view s (rpc_port_unlock (?s1\<lparr>rheap := h\<rparr>))"
    if "heap_owns h (dom own)" for h
  proof -
    have "rpc_own own (?s1\<lparr>rheap := h\<rparr>)" using same_core_own [OF _ o1, of "?s1\<lparr>rheap := h\<rparr>"] that by simp
    then show ?thesis using i1 o(3)
      by (auto intro!: rpc_idleI simp: same_view_def rpc_port_unlock_def rpc_inv_def rpc_own_def queue_addrs_def)
  qed
  from h1 n48 show ?thesis
  proof (cases rule: hp.alloc_cases)
    case (null h)
    have "rpc_call_begin s (Some name) tlvs out_tlv out_len wok = Some (Inl (-3), rpc_port_unlock (?s1\<lparr>rheap := h\<rparr>))"
      using look t0 o(4) q(1) null(1) by (simp add: rpc_call_begin_def rpc_port_lock_def rpc_status_defs)
    then show ?thesis using fail [OF null(2)] by simp
  next
    case (fresh p h)
    note p = fresh
    show ?thesis
    proof (cases wok)
      case False
      from hp.alloc_release [OF h1 n48 p(1)] obtain h2 where h2: "heap_free h p = Some h2" "heap_owns h2 (dom own)" by blast
      have "rpc_call_begin s (Some name) tlvs out_tlv out_len wok = Some (Inl (-3), rpc_port_unlock (?s1\<lparr>rheap := h2\<rparr>))"
        using look t0 o(4) q(1) p(1,2) False h2(1)
        by (simp add: rpc_call_begin_def rpc_port_lock_def rpc_status_defs rpc_waiter_create_def)
      then show ?thesis using fail [OF h2(2)] by simp
    next
      case True
      show ?thesis
      proof (cases "hashmap_put (g_pending s) h (int_key q) p")
        case None
        have put: "hashmap_put (g_pending ?s1) h (int_key q) p = None" using None by simp
        with hm_put [OF pending_beside [OF i1 o1 p(3,4)], of "int_key q" p] obtain h2 where "heap_malloc h 32 = Some (0, h2)" by auto
        moreover have "rpc_call_begin s (Some name) tlvs out_tlv out_len wok = None"
          using look t0 o(4) q(1) p(1,2) True put by (simp add: rpc_call_begin_def rpc_port_lock_def rpc_waiter_create_def)
        ultimately show ?thesis using p(1,2) by (simp add: rpc_sizeof_defs)
      next
        case (Some gph)
        obtain gp h' where put: "hashmap_put (g_pending ?s1) h (int_key q) p = Some (gp, h')" using Some by (cases gph) simp
        have i: "owned own User = U" "transport_of ?s1 name = Some t" "trans ?s1 t = Some tc" using o(3) t tc by simp_all
        have v: "same_view ?s1 s' = same_view s s'" "call_started ?s1 s' a name tlvs out_tlv out_len = call_started s s' a name tlvs out_tlv out_len"
          for s' a by (simp_all add: same_view_def call_started_def)
        have "rpc_call_begin s (Some name) tlvs out_tlv out_len wok =
          do { (r, s) \<leftarrow> rpc_send_request_tlv (?s1\<lparr>calls := (calls ?s1)(p \<mapsto> new_call q out_tlv out_len), rheap := h', g_pending := gp\<rparr>) t q (Some name) tlvs;
            if r < 0 then do {
              (b, gp, h) \<leftarrow> hashmap_remove (g_pending s) (rheap s) (int_key q);
              h \<leftarrow> heap_free h p;
              Some (Inl (-4), rpc_port_unlock (s\<lparr>rheap := h, g_pending := gp, calls := (calls s)(p := None)\<rparr>)) }
            else Some (Inr p, rpc_port_unlock s) }"
          using look t0 o(4) q(1) p(1,2) True put
          by (simp add: rpc_call_begin_def rpc_port_lock_def rpc_waiter_create_def rpc_status_defs new_call_def cong: if_cong)
        then show ?thesis
          using call_submit [OF i1 o1 i(1) q(2) fresh_q out p(3,4) put i(2,3) t0 n] v by (auto split: option.splits sum.splits)
      qed
    qed
  qed
qed

section \<open>The end of a call\<close>

lemma call_finish_ok:
  assumes s: "rpc_idle s U" and pc: "calls s a = Some pc"
  shows "\<exists>s'. rpc_call_finish s a wr out_len = Some
      (if wr = 0 then pc_status pc else RPC_STATUS_TIMEOUT,
       if pc_buf pc \<noteq> None \<and> out_len \<noteq> None then Some (resp_len pc) else out_len, pc_buf pc, s') \<and>
    rpc_idle s' U \<and> pending_of s' = (pending_of s)(pc_seq pc := None) \<and> method_of s' = method_of s \<and>
    transport_of s' = transport_of s \<and> trans s' = trans s \<and> world s' = world s \<and> rx_log s' = rx_log s"
proof -
  from s obtain own where o: "rpc_inv s" "rpc_own own s" "owned own User = U" "\<not> rpc_locked s" by (rule rpc_idleE)
  let ?l = "s\<lparr>rpc_locked := True\<rparr>"
  have l: "rpc_inv ?l" "rpc_own own ?l" "calls ?l a = Some pc" using o pc by simp_all
  from call_removed [OF l] obtain gp h h' own' where
    r: "hashmap_remove (g_pending s) (rheap s) (int_key (pc_seq pc)) = Some (True, gp, h)" "heap_free h a = Some h'"
    and s': "rpc_inv (?l\<lparr>rheap := h', g_pending := gp, calls := (calls s)(a := None)\<rparr>)"
      "rpc_own own' (?l\<lparr>rheap := h', g_pending := gp, calls := (calls s)(a := None)\<rparr>)" "owned own' User = U"
      "pending_of (?l\<lparr>rheap := h', g_pending := gp, calls := (calls s)(a := None)\<rparr>) = (pending_of s)(pc_seq pc := None)"
    using o(3) by (auto simp: Let_def)
  let ?s' = "?l\<lparr>rheap := h', g_pending := gp, calls := (calls s)(a := None)\<rparr>"
  have "rpc_idle (rpc_port_unlock ?s') U" using s'(1-3) by (intro rpc_idleI) simp_all
  moreover have "pending_of (rpc_port_unlock ?s') = (pending_of s)(pc_seq pc := None)"
    using s'(4) unfolding unlock_view .
  moreover have "rpc_call_finish s a wr out_len = Some
      (if wr = 0 then pc_status pc else RPC_STATUS_TIMEOUT,
       if pc_buf pc \<noteq> None \<and> out_len \<noteq> None then Some (resp_len pc) else out_len, pc_buf pc, rpc_port_unlock ?s')"
    using o(4) pc r by (simp add: rpc_call_finish_def rpc_port_lock_def Let_def)
  ultimately show ?thesis by (intro exI [of _ "rpc_port_unlock ?s'"] conjI) simp_all
qed

section \<open>Executions\<close>

text \<open>The states of a program that uses the core: after \<^verbatim>\<open>rpc_init\<close>, threads call its operations in any
  order and interleaving, each operation running under the lock from its start to its end; a call is
  two operations, since it waits without the lock. The rules carry what a caller has to respect: methods
  with well-behaved callbacks, transports that exist, calls that are their own, and polls (\<^verbatim>\<open>rpc_on_data\<close> without
  a buffer) only of a transport that has data, at most as many bytes as it is asked for: the poll of a transport
  that has none keeps the lock (\<^verbatim>\<open>rpc_empty_poll_deadlock\<close>). The world outside may change at any time.\<close>

inductive rpc_reach :: "heap \<Rightarrow> 'w \<Rightarrow> 'w rpc \<Rightarrow> bool" for h0 w0 where
  init: "rpc_init (rpc_static h0 w0) mc pc tc = Some s \<Longrightarrow> rpc_reach h0 w0 s"
| create: "rpc_reach h0 w0 s \<Longrightarrow> rpc_trans_class_create s sd rc cl u = Some (p, s') \<Longrightarrow> rpc_reach h0 w0 s'"
| bind: "rpc_reach h0 w0 s \<Longrightarrow> t \<in> insert 0 (dom (trans s)) \<Longrightarrow> rpc_bind_transport s name t = Some s' \<Longrightarrow>
    rpc_reach h0 w0 s'"
| register: "rpc_reach h0 w0 s \<Longrightarrow> method_ok m \<Longrightarrow> rpc_register_method s name m = Some s' \<Longrightarrow> rpc_reach h0 w0 s'"
| data: "rpc_reach h0 w0 s \<Longrightarrow> t \<in> insert 0 (dom (trans s)) \<Longrightarrow> buf \<noteq> [] \<Longrightarrow> length buf \<le> 2 ^ 32 \<Longrightarrow>
    rpc_on_data s t buf = Some s' \<Longrightarrow> rpc_reach h0 w0 s'"
| poll: "rpc_reach h0 w0 s \<Longrightarrow> trans s t = Some tc \<Longrightarrow> t_recv tc = Some f \<Longrightarrow>
    f (t_user tc) MTU (world s) = (n, pb, w) \<Longrightarrow> 0 < sint n \<Longrightarrow> sint n \<le> int MTU \<Longrightarrow>
    rpc_on_data s t [] = Some s' \<Longrightarrow> rpc_reach h0 w0 s'"
| call: "rpc_reach h0 w0 s \<Longrightarrow> out_ok out_tlv out_len \<Longrightarrow> length (c_str name) + length tlvs < 2 ^ 32 \<Longrightarrow>
    rpc_call_begin s (Some name) tlvs out_tlv out_len wok = Some (r, s') \<Longrightarrow> rpc_reach h0 w0 s'"
| finish: "rpc_reach h0 w0 s \<Longrightarrow> a \<in> dom (calls s) \<Longrightarrow> rpc_call_finish s a wr out_len = Some (st, n, b, s') \<Longrightarrow>
    rpc_reach h0 w0 s'"
| outside: "rpc_reach h0 w0 s \<Longrightarrow> rpc_reach h0 w0 (s\<lparr>world := w\<rparr>)"

lemma on_data_idle:
  fixes s :: "'w rpc"
  assumes s: "rpc_idle s U" and t: "t \<in> insert 0 (dom (trans s))" and b: "buf \<noteq> []" "length buf \<le> 2 ^ 32"
    and run: "rpc_on_data s t buf = Some s'"
  shows "rpc_idle s' U"
proof -
  from s obtain own where o: "rpc_inv s" "rpc_own own s" "owned own User = U" "\<not> rpc_locked s" by (rule rpc_idleE)
  show ?thesis
  proof (cases "t = 0 \<or> (\<exists>tc. trans s t = Some tc \<and> t_recv tc = None)")
    case True
    then show ?thesis using s run by (cases "t = 0") (auto simp: rpc_on_data_def)
  next
    case False
    then obtain tc where tc: "trans s t = Some tc" "t_recv tc \<noteq> None" using t by auto
    from on_data_ok [OF o(1,2) tc b o(4)] run obtain c where "\<not> rpc_locked s'" "data_ok s s' t own (fst (frames c)) (snd (frames c))"
      by auto
    then show ?thesis using o(3) by (auto simp: data_ok_def intro: rpc_idleI)
  qed
qed

lemma idle_world:
  assumes "rpc_idle s U"
  shows "rpc_idle (s\<lparr>world := w\<rparr>) U"
proof -
  from assms obtain own where o: "rpc_inv s" "rpc_own own s" "owned own User = U" "\<not> rpc_locked s" by (rule rpc_idleE)
  have "rpc_inv (s\<lparr>world := w\<rparr>)" using o(1) by (simp add: rpc_inv_def)
  moreover have "rpc_own own (s\<lparr>world := w\<rparr>)" using o(2) by (simp add: rpc_own_def queue_addrs_def)
  ultimately show ?thesis using o(3,4) by (intro rpc_idleI) simp_all
qed

lemma recv_count:
  fixes n :: u64
  assumes "0 < sint n" "sint n \<le> 4096"
  shows "unat n = nat (sint n)" "0 < unat n" "unat n \<le> 4096"
proof -
  have "uint (word_of_int (sint n) :: u64) = sint n" using assms by (simp only: unsigned_of_int) (simp add: take_bit_int_eq_self)
  then have "int (unat n) = sint n" by simp
  then show "unat n = nat (sint n)" "0 < unat n" "unat n \<le> 4096" using assms by linarith+
qed

lemma on_data_poll_idle:
  fixes s :: "'w rpc"
  assumes s: "rpc_idle s U" and t: "trans s t = Some tc" "t_recv tc = Some f"
    and r: "f (t_user tc) MTU (world s) = (n, pb, w)" "0 < sint n" "sint n \<le> int MTU" and run: "rpc_on_data s t [] = Some s'"
  shows "rpc_idle s' U"
proof -
  from s obtain own where o: "rpc_own own s" "\<not> rpc_locked s" by (rule rpc_idleE)
  have t0: "t \<noteq> 0" using rpc_own_objects(4) [OF o(1) t(1)] .
  then obtain d where d: "buf_read pb 0 (unat n) = Some d"
    using run t r(1,2) o(2) by (auto simp: rpc_on_data_def rpc_port_lock_def split: bind_splits)
  have "length d = unat n" using d by (auto simp: buf_read_def split: if_splits)
  then have l: "d \<noteq> []" "length d \<le> 2 ^ 32" using recv_count [of n] r(2,3) by (auto simp: MTU_def)
  have run': "rpc_on_data (s\<lparr>world := w\<rparr>) t d = Some s'" using on_data_poll [OF t0 t r(1,2) d l(1)] run by simp
  show ?thesis by (rule on_data_idle [OF idle_world [OF s] _ l run']) (use t in auto)
qed

lemma reach_idle:
  assumes "rpc_reach h0 w0 s" "heap_owns h0 U"
  shows "rpc_idle s U"
  using assms(1)
proof (induction rule: rpc_reach.induct)
  case (init mc pc tc s)
  then show ?case using init_ok [OF assms(2), of w0 mc pc tc] by simp
next
  case (create s sd rc cl u p s')
  then show ?case using trans_create_ok [OF create.IH, of sd rc cl u] by auto
next
  case (bind s t name s')
  show ?case
  proof (cases "t = 0 \<or> name = None")
    case True
    then show ?thesis using bind by (cases name) (auto simp: rpc_bind_transport_def)
  next
    case False
    then obtain nm where "name = Some nm" "t \<in> dom (trans s)" using bind.hyps(2) by auto
    then show ?thesis using bind_ok [OF bind.IH, of t nm] bind.hyps(3) by auto
  qed
next
  case (register s m name s')
  show ?case
  proof (cases name)
    case None
    then show ?thesis using register by (simp add: rpc_register_method_def)
  next
    case (Some nm)
    then show ?thesis using register_ok [OF register.IH register.hyps(2), of nm] register.hyps(3) by auto
  qed
next
  case (data s t buf s')
  then show ?case using on_data_idle by blast
next
  case (poll s t tc f n pb w s')
  show ?case by (rule on_data_poll_idle [OF poll.IH poll.hyps(2-7)])
next
  case (call s out_tlv out_len name tlvs wok r s')
  show ?case
  proof (cases "transport_of s name")
    case None
    then show ?thesis using call call_begin_no_transport [OF call.IH None] by simp
  next
    case (Some t)
    show ?thesis using call_begin_ok [OF call.IH Some call.hyps(2,3), of wok] call.hyps(4)
      by (cases r) simp_all
  qed
next
  case (finish s a wr out_len st n b s')
  from finish.hyps(2) obtain pc where "calls s a = Some pc" by blast
  from call_finish_ok [OF finish.IH this, of wr out_len] finish.hyps(3) show ?case by auto
next
  case (outside s w)
  from outside.IH show ?case by (rule idle_world)
qed

end
