(* ===== verification/Rpc_Room.thy ===== *)
theory Rpc_Room
  imports Rpc_Calls
begin

text \<open>
  With enough memory the operations of the core succeed: set-up, and starting a call over a transport
  that accepts its request. This excludes the NULL results that the code does not check, and gives
  the examples their states.
\<close>

section \<open>Set-up\<close>

lemma hashmap_put_room:
  assumes "hm_ok F m h" "heap_room h n" "96 \<le> n"
  shows "\<exists>m' h'. hashmap_put m h k v = Some (m', h') \<and> heap_room h' (n - 56)"
proof -
  from malloc_room [OF assms(2), of 32] assms(3) obtain p h1 where
    p: "heap_malloc h 32 = Some (p, h1)" "p \<noteq> 0" "heap_room h1 (n - 56)" by auto
  obtain b where b: "hashmap_bucket m k = Some b" using hm_split [of m k] assms(1) unfolding hm_ok_def by metis
  show ?thesis
  proof (cases "find_entry (key_type m) k b")
    case None
    then show ?thesis using b p by (simp add: hashmap_put_def)
  next
    case (Some e)
    then show ?thesis using b heap_room_mono [OF assms(2)] by (simp add: hashmap_put_def)
  qed
qed

lemma find_entry_in: "find_entry ty k b = Some e \<Longrightarrow> e \<in> set b"
  by (induction b) (auto split: if_splits)

lemma hashmap_remove_room:
  assumes "hm_ok F m h" "heap_room h n" "hashmap_remove m h k = Some (r, m', h')"
  shows "heap_room h' n"
proof -
  from assms(1) have inv: "hm_inv m" and own: "heap_owns h (F \<union> hm_addrs m)" by (simp_all add: hm_ok_def)
  obtain xs b ys where b: "buckets m = xs @ b # ys" "hashmap_bucket m k = Some b" by (rule hm_split [OF inv, of k])
  show ?thesis
  proof (cases "find_entry (key_type m) k b")
    case None
    then show ?thesis using assms b(2) by (auto simp: hashmap_remove_def)
  next
    case (Some e)
    then have "e_addr e \<in> F \<union> hm_addrs m" using find_entry_in [OF Some] b(1) by (auto simp: hm_addrs_def hm_entries_def)
    moreover obtain h1 where "heap_free h (e_addr e) = Some h1" "h' = h1" using assms(3) Some b(2) by (auto simp: hashmap_remove_def split: bind_splits)
    ultimately show ?thesis using free_room [OF own _ assms(2)] by blast
  qed
qed

lemma hashmap_init_room:
  assumes "heap_room h n" "4160 \<le> n"
  shows "\<exists>m h'. hashmap_init h (ucast (c :: u8)) ty = Some (m, h') \<and> heap_room h' (n - 4120)"
proof -
  have c: "unat (ucast c :: u64) \<le> 2 ^ 8" using u8_less [of c] by (simp add: unsigned_ucast_eq take_bit_nat_eq_self)
  from next_power_cap [OF c] obtain k where k: "k \<le> 8" "next_power_of_two (ucast c) = Some (2 ^ k)" by auto
  have s: "(2 :: nat) ^ k \<le> 256" using power_increasing [OF k(1), of "2 :: nat"] by simp
  have u: "unat (16 * (2 :: u64) ^ k) = 16 * 2 ^ k" using s k(1) by (simp add: unat_word_ariths unat_pow_u64)
  from malloc_room [OF assms(1), of "16 * 2 ^ k"] s assms(2) obtain p h' where
    p: "heap_malloc h (16 * 2 ^ k) = Some (p, h')" "p \<noteq> 0" "heap_room h' (n - (16 * 2 ^ k + 24))" by auto
  have "heap_room h' (n - 4120)" using heap_room_mono [OF p(3)] s assms(2) by simp
  then show ?thesis using k p u by (simp add: hashmap_init_def unat_pow_u64)
qed

lemma init_room:
  assumes own: "heap_owns h U" and room: "heap_room h n" "12400 \<le> n"
  shows "\<exists>s. rpc_init (rpc_static h w) mc pc tc = Some s \<and> rpc_idle s U \<and> heap_room (rheap s) (n - 12360) \<and>
    trans s = Map.empty \<and> transport_of s = Map.empty \<and> world s = w"
proof -
  have n: "4160 \<le> n" "4160 \<le> n - 4120" "4160 \<le> n - 8240" using room(2) by simp_all
  from hashmap_init_room [OF room(1) n(1), of mc HASHMAP_KEY_STRING] obtain gm h1 where
    1: "hashmap_init h (ucast mc) HASHMAP_KEY_STRING = Some (gm, h1)" "heap_room h1 (n - 4120)" by auto
  from hashmap_init_room [OF 1(2) n(2), of pc HASHMAP_KEY_INT] obtain gp h2 where
    2: "hashmap_init h1 (ucast pc) HASHMAP_KEY_INT = Some (gp, h2)" "heap_room h2 (n - 8240)" by auto
  from hashmap_init_room [OF 2(2) n(3), of tc HASHMAP_KEY_STRING] obtain gt h3 where
    3: "hashmap_init h2 (ucast tc) HASHMAP_KEY_STRING = Some (gt, h3)" "heap_room h3 (n - 12360)" by auto
  let ?s = "(rpc_static h w)\<lparr>rheap := h3, g_methods := gm, g_pending := gp, g_transport_map := gt\<rparr>"
  have run: "rpc_init (rpc_static h w) mc pc tc = Some ?s" using 1 2 3 by (simp add: rpc_init_def rpc_static_def)
  have w: "world ?s = w" "rheap ?s = h3" by (simp_all add: rpc_static_def)
  show ?thesis using init_ok [OF own, of w mc pc tc] 3(2) w unfolding run by (intro exI [of _ ?s]) simp
qed

lemma create_room:
  assumes "rpc_idle s U" "heap_room (rheap s) n" "120 \<le> n"
  shows "\<exists>t s'. rpc_trans_class_create s sd rc cl u = Some (t, s') \<and> rpc_idle s' U \<and> heap_room (rheap s') (n - 80) \<and>
    trans s' t = Some \<lparr>t_send = sd, t_recv = rc, t_close = cl, t_user = u, t_reasm = \<lparr>bufs = [], total_len = 0\<rparr>\<rparr> \<and>
    world s' = world s"
proof -
  from malloc_room [OF assms(2), of 56] assms(3) obtain p h where
    p: "heap_malloc (rheap s) 56 = Some (p, h)" "p \<noteq> 0" "heap_room h (n - 80)" by auto
  then show ?thesis using trans_create_ok [OF assms(1), of sd rc cl u] by (auto simp: rpc_trans_class_create_def rpc_sizeof_defs)
qed

lemma bind_room:
  assumes s: "rpc_idle s U" and t: "t \<in> dom (trans s)" and room: "heap_room (rheap s) n" "200 \<le> n"
  shows "\<exists>s'. rpc_bind_transport s (Some name) t = Some s' \<and> rpc_idle s' U \<and> heap_room (rheap s') (n - 96) \<and>
    transport_of s' name = Some t \<and> trans s' = trans s \<and> world s' = world s"
proof -
  from malloc_room [OF room(1), of 16] room(2) obtain e h where
    e: "heap_malloc (rheap s) 16 = Some (e, h)" "e \<noteq> 0" "heap_room h (n - 40)" by auto
  have n: "32 + 64 \<le> n - 40" using room(2) by simp
  from malloc_room [OF e(3) n] obtain e2 h2 where e2: "heap_malloc h 32 = Some (e2, h2)" "e2 \<noteq> 0" by auto
  from bind_ok [OF s t, of name] e e2 obtain s' where s': "rpc_bind_transport s (Some name) t = Some s'" "rpc_idle s' U"
    "transport_of s' name = Some t" "trans s' = trans s" by auto
  from s obtain own where "\<not> rpc_locked s" by (rule rpc_idleE)
  moreover have "t \<noteq> 0" using s t rpc_own_objects(4) by (metis domD rpc_idleE)
  ultimately obtain gt h3 where p: "hashmap_put (g_transport_map s) h (str_key name) e = Some (gt, h3)" "rheap s' = h3" "world s' = world s"
    using s'(1) e by (auto simp: rpc_bind_transport_def rpc_sizeof_defs rpc_port_lock_def rpc_port_unlock_def split: bind_splits)
  have "heap_room h3 (n - 96)"
    using p(1) e(3) malloc_room [OF e(3) n] room(2) heap_room_mono [OF e(3), of "n - 96"]
    by (auto simp: hashmap_put_def split: bind_splits option.splits if_splits)
  then show ?thesis using s' p by simp
qed

lemma register_room:
  assumes s: "rpc_idle s U" and m: "method_ok m" and room: "heap_room (rheap s) n" "200 \<le> n"
  shows "\<exists>s'. rpc_register_method s (Some name) m = Some s' \<and> rpc_idle s' U \<and> heap_room (rheap s') (n - 128) \<and>
    method_of s' name = Some (m\<lparr>me_name := name\<rparr>) \<and> transport_of s' = transport_of s \<and> trans s' = trans s \<and> world s' = world s"
proof -
  from malloc_room [OF room(1), of 48] room(2) obtain e h where
    e: "heap_malloc (rheap s) 48 = Some (e, h)" "e \<noteq> 0" "heap_room h (n - 72)" by auto
  have n: "32 + 64 \<le> n - 72" using room(2) by simp
  from malloc_room [OF e(3) n] obtain e2 h2 where e2: "heap_malloc h 32 = Some (e2, h2)" "e2 \<noteq> 0" by auto
  from register_ok [OF s m, of name] e e2 obtain s' where s': "rpc_register_method s (Some name) m = Some s'" "rpc_idle s' U"
    "method_of s' name = Some (m\<lparr>me_name := name\<rparr>)" "transport_of s' = transport_of s" "trans s' = trans s" by auto
  from s have "\<not> rpc_locked s" by (rule rpc_idleE)
  then obtain gm h3 where p: "hashmap_put (g_methods s) h (str_key name) e = Some (gm, h3)" "rheap s' = h3" "world s' = world s"
    using s'(1) e by (auto simp: rpc_register_method_def rpc_sizeof_defs rpc_port_lock_def rpc_port_unlock_def split: bind_splits)
  have "heap_room h3 (n - 128)"
    using p(1) e(3) malloc_room [OF e(3) n] room(2) heap_room_mono [OF e(3), of "n - 128"]
    by (auto simp: hashmap_put_def split: bind_splits option.splits if_splits)
  then show ?thesis using s' p by simp
qed

section \<open>Starting a call\<close>

text \<open>With room for the call, its table entry and the message, and a transport that accepts the
  message, a call starts.\<close>

lemma call_begin_accepted:
  assumes s: "rpc_idle s U" and t: "transport_of s name = Some t" "trans s t = Some tc"
    and f: "t_send tc = Some f" "\<forall>q w. 0 \<le> to_int (fst (f (t_user tc) (request_msg q name tlvs) w))"
    and n: "length (c_str name) + length tlvs < 2 ^ 32"
    and room: "heap_room (rheap s) n" "300 + length (c_str name) + length tlvs \<le> n"
  shows "\<exists>a s'. rpc_call_begin s (Some name) tlvs out_tlv out_len True = Some (Inr a, s') \<and>
    heap_room (rheap s') (n - (200 + length (c_str name) + length tlvs))"
proof -
  let ?k = "n - (200 + length (c_str name) + length tlvs)"
  from s obtain own where o: "rpc_inv s" "rpc_own own s" "owned own User = U" "\<not> rpc_locked s" by (rule rpc_idleE)
  have t0: "t \<noteq> 0" using rpc_own_objects(4) [OF o(2) t(2)] .
  have look: "rpc_transport_lookup s (Some name) = Some t" using transport_lookup_eq [OF o(1,2), of name] t by simp
  let ?l = "s\<lparr>rpc_locked := True\<rparr>"
  have "rpc_inv ?l" "rpc_own own ?l" using o by simp_all
  from next_seq_ok [OF this] obtain q q' where q: "rpc_next_seq ?l = Some (q, ?l\<lparr>g_next_seq := q'\<rparr>)" by blast
  have n1: "48 + 64 \<le> n" "96 \<le> n - 72" "length (request_msg q name tlvs) + 64 \<le> n - 72 - 56"
    using room(2) by (simp_all add: request_fields)
  from malloc_room [OF room(1) n1(1)] obtain p h where p: "heap_malloc (rheap s) 48 = Some (p, h)" "p \<noteq> 0" "heap_room h (n - 72)" by auto
  have h: "heap_owns (rheap s) (dom own)" using o(2) by (simp add: rpc_own_def)
  have "p \<notin> dom own" "heap_owns h (insert p (dom own))" using hp.alloc_owns [OF h, of 48] p(1,2) by auto
  note beside = pending_beside [OF o(1,2) this]
  from hashmap_put_room [OF beside p(3) n1(2)] obtain gp h' where
    gp: "hashmap_put (g_pending s) h (int_key q) p = Some (gp, h')" "heap_room h' (n - 72 - 56)" by blast
  from malloc_room [OF gp(2) n1(3)] obtain m h2 where m: "heap_malloc h' (length (request_msg q name tlvs)) = Some (m, h2)" "m \<noteq> 0"
    "heap_room h2 (n - 72 - 56 - (length (request_msg q name tlvs) + 24))" by auto
  have k: "heap_room h2 ?k" by (rule heap_room_mono [OF m(3)]) (simp add: request_fields)
  let ?s2 = "?l\<lparr>g_next_seq := q', calls := (calls s)(p \<mapsto> new_call q out_tlv out_len), rheap := h', g_pending := gp\<rparr>"
  have b: "\<exists>r s3. rpc_send_request_tlv ?s2 t q (Some name) tlvs = Some (r, s3) \<and> 0 \<le> r \<and> heap_room (rheap s3) ?k"
  proof -
    obtain r w where fw: "f (t_user tc) (request_msg q name tlvs) (world s) = (r, w)" by fastforce
    then have "0 \<le> to_int r" using f(2) by (metis fst_conv)
    moreover obtain A where A: "heap_owns h' A" using hm_put [OF beside, of "int_key q" p] gp(1) by (auto simp: hm_ok_def)
    moreover have "length (request_msg q name tlvs) < 2 ^ 63" using n by (simp add: request_fields)
    with hp.alloc_owns [OF A, of "length (request_msg q name tlvs)"] m(1,2) have A2: "heap_owns h2 (insert m A)" by auto
    from hp.release_owns [OF A2, of m] obtain h3 where h3: "heap_free h2 m = Some h3" by auto
    have "heap_room h3 ?k" by (rule free_room [OF A2 _ k h3]) simp
    ultimately show ?thesis using m h3 t t0 f(1) fw by (simp add: rpc_send_request_tlv_def send_msg_def)
  qed
  then show ?thesis using look t0 o(4) q p gp
    by (auto simp: rpc_call_begin_def rpc_port_lock_def rpc_port_unlock_def rpc_waiter_create_def rpc_sizeof_defs new_call_def)
qed

lemma call_begin_room:
  assumes "rpc_idle s U" "transport_of s name = Some t" "trans s t = Some tc"
    and "t_send tc = Some f" "\<forall>msg w. 0 \<le> to_int (fst (f (t_user tc) msg w))"
    and "length (c_str name) + length tlvs < 2 ^ 32"
    and "heap_room (rheap s) n" "300 + length (c_str name) + length tlvs \<le> n"
  shows "\<exists>a s'. rpc_call_begin s (Some name) tlvs out_tlv out_len True = Some (Inr a, s')"
  using call_begin_accepted [OF assms(1-4) _ assms(6-8), of out_tlv out_len] assms(5) by blast

lemma call_finish_room:
  assumes s: "rpc_idle s U" and room: "heap_room (rheap s) n" and run: "rpc_call_finish s a wr out_len = Some (st, l, b, s')"
  shows "heap_room (rheap s') n"
proof -
  from s obtain own where o: "rpc_inv s" "rpc_own own s" "owned own User = U" "\<not> rpc_locked s" by (rule rpc_idleE)
  from run obtain pc where pc: "calls s a = Some pc" by (auto simp: rpc_call_finish_def rpc_port_lock_def split: bind_splits if_splits)
  from call_removed [OF o(1,2) pc] obtain gp h h' where
    r: "hashmap_remove (g_pending s) (rheap s) (int_key (pc_seq pc)) = Some (True, gp, h)" "heap_free h a = Some h'" by blast
  note ok = rpc_own_maps(2) [OF o(2,1)]
  have h: "heap_room h n" by (rule hashmap_remove_room [OF ok room r(1)])
  from hm_remove [OF ok, of "int_key (pc_seq pc)"] r(1) have h1: "hm_ok (others own Pending_map) gp h" by auto
  have "own a = Some Call" using o(2) pc unfolding rpc_own_def owned_def by auto
  then have "a \<in> others own Pending_map" by (auto simp: others_def owned_def dom_def)
  moreover have "heap_owns h (others own Pending_map \<union> hm_addrs gp)" using h1 by (simp add: hm_ok_def)
  ultimately have "heap_room h' n" using free_room [OF _ _ h r(2)] by blast
  then show ?thesis using run o(4) pc r by (auto simp: rpc_call_finish_def rpc_port_lock_def rpc_port_unlock_def Let_def)
qed

section \<open>Dispatch without faults\<close>

lemma frames_members: "m \<in> set (fst (frames b)) \<Longrightarrow> complete m"
proof (induction b rule: frames.induct)
  case (1 b)
  show ?case
  proof (cases "length b < 12 \<or> length b < need_of b")
    case True
    then show ?thesis using 1 by (simp add: frames_short)
  next
    case False
    then have l: "12 \<le> length b" "need_of b \<le> length b" by auto
    have "need_of (take (need_of b) b) = need_of b"
      using need_of_append [of "take (need_of b) b" "drop (need_of b) b"] l by (simp add: need_of_def)
    then have "complete (take (need_of b) b)" using l by (simp add: complete_def need_of_def)
    then show ?thesis using 1(1) [OF False] 1(2) frames_step [OF l] by auto
  qed
qed

text \<open>The response to a pending call changes that call only; any other response changes nothing.\<close>

lemma response_dispatched:
  assumes inv: "rpc_inv s" and own: "rpc_own own s" and m: "complete m" "ntohs (hdr_method_len (header_at m)) = 0"
  defines "q \<equiv> ntohl (hdr_seq (header_at m))" and "s1 \<equiv> s\<lparr>rx_log := rx_log s @ [m]\<rparr>"
  shows "\<exists>s'. rpc_dispatch_message s t m = Some s' \<and> rpc_inv s' \<and> rpc_own own s' \<and> rx_log s' = rx_log s @ [m] \<and>
    method_of s' = method_of s \<and> transport_of s' = transport_of s \<and> trans s' = trans s \<and> world s' = world s \<and>
    rheap s' = rheap s \<and> rpc_locked s' = rpc_locked s \<and>
    pending_of s' = (case pending_of s q of None \<Rightarrow> pending_of s
      | Some pc \<Rightarrow> (pending_of s)(q \<mapsto> deliver pc (drop 12 m) (uint (ntohs (hdr_status (header_at m)))))) \<and>
    (\<forall>a pc. calls s a = Some pc \<longrightarrow> (\<exists>pc'. calls s' a = Some pc' \<and> pending_of s' (pc_seq pc) = Some pc'))"
proof -
  have s1: "rpc_inv s1" "rpc_own own s1" using inv own by (simp_all add: s1_def rpc_own_def queue_addrs_def)
  have len: "12 \<le> length m" "need_of m = length m" using m(1) by (simp_all add: complete_def)
  have run: "rpc_dispatch_message s t m = rpc_handle_response s1 m"
    using m(2) len by (simp add: rpc_dispatch_message_def hdr_size_def s1_def)
  have look: "pending_of s' (pc_seq pc) = calls s' a"
    if "calls s a = Some pc" "g_pending s' = g_pending s" for s' :: "'a rpc" and a pc
    using rpc_invD(8) [OF inv that(1)] that(2) by (simp add: pending_of_def)
  show ?thesis
  proof (cases "hm_abs (g_pending s1) (seq_id q)")
    case None
    then have "rpc_dispatch_message s t m = Some s1" using handle_response_eq(1) [OF s1 len] run by (simp add: q_def)
    then show ?thesis using None s1 look by (intro exI [of _ s1]) (auto simp: s1_def pending_of_def [of s q])
  next
    case (Some a)
    then obtain pc where pc: "calls s1 a = Some pc" "pc_seq pc = q" using rpc_invD(7) [OF s1(1)] by metis
    let ?pc = "deliver pc (drop 12 m) (uint (ntohs (hdr_status (header_at m))))"
    let ?s' = "s1\<lparr>calls := (calls s1)(a \<mapsto> ?pc)\<rparr>"
    have r: "rpc_handle_response s1 m = Some ?s'" using handle_response_eq(2) [OF s1 len _ pc(1)] Some by (simp add: q_def)
    from handle_response_ok [OF s1 r len] have ok: "rpc_inv ?s'" "rpc_own own ?s'" by simp_all
    have p: "pending_of s q = Some pc" using Some pc(1) by (simp add: pending_of_def s1_def)
    have a: "hm_abs (g_pending s) (seq_id q') = Some a \<Longrightarrow> q' = q" for q'
      using rpc_invD(7) [OF inv, of q' a] pc by (auto simp: s1_def)
    have "pending_of ?s' = (pending_of s)(q \<mapsto> ?pc)"
    proof
      fix q'
      show "pending_of ?s' q' = ((pending_of s)(q \<mapsto> ?pc)) q'"
        using Some a [of q'] by (cases "hm_abs (g_pending s) (seq_id q')") (auto simp: pending_of_def s1_def)
    qed
    then show ?thesis using run r ok p look [where s' = ?s'] by (intro exI [of _ ?s']) (auto simp: s1_def)
  qed
qed

lemma on_data_total:
  fixes s :: "'w rpc"
  assumes "rpc_idle s U" "trans s t = Some tc" "t_recv tc \<noteq> None" "buf \<noteq> []" "length buf \<le> 2 ^ 32"
    and "\<forall>m \<in> set (fst (frames (stream_of s t @ buf))). ntohs (hdr_method_len (header_at m)) = 0"
  shows "\<exists>s'. rpc_on_data s t buf = Some s' \<and> \<not> rpc_locked s'"
proof -
  from assms(1) obtain own where o: "rpc_inv s" "rpc_own own s" "owned own User = U" "\<not> rpc_locked s" by (rule rpc_idleE)
  from on_data_ok [OF o(1,2) assms(2-5) o(4)] obtain b where b: "arrived s t buf b"
    "(\<exists>s'. rpc_on_data s t buf = Some s' \<and> \<not> rpc_locked s') \<or>
     (\<exists>(s1 :: 'w rpc) own1 m. rpc_inv s1 \<and> rpc_own own1 s1 \<and> m \<in> set (fst (frames b)) \<and> rpc_dispatch_message s1 t m = None)"
    by blast
  have sub: "set (fst (frames b)) \<subseteq> set (fst (frames (stream_of s t @ buf)))"
    using b(1) frames_append [of "stream_of s t" buf] by (auto simp: arrived_def)
  have "rpc_dispatch_message s1 t m \<noteq> None" if "rpc_inv s1" "rpc_own own1 s1" "m \<in> set (fst (frames b))" for s1 :: "'w rpc" and own1 m
    using response_dispatched [OF that(1,2)] frames_members [of m b] that(3) sub assms(6) by blast
  with b(2) show ?thesis by blast
qed

lemma request_routed:
  fixes s :: "'w rpc" and q :: u32
  assumes "rpc_idle s U" "0 < length (c_str name)" "length (c_str name) < 128" "length (c_str name) + length tlvs < 2 ^ 32"
  defines "s1 \<equiv> s\<lparr>rx_log := rx_log s @ [request_msg q name tlvs]\<rparr>"
  shows "rpc_dispatch_message s t (request_msg q name tlvs) =
    (case method_of s name of
       None \<Rightarrow> map_option snd (rpc_send_response_tlv s1 t q RPC_STATUS_METHOD_NOT_FOUND [])
     | Some m \<Rightarrow> run_method s1 t q m tlvs)"
proof -
  from assms(1) obtain own where o: "rpc_inv s" "rpc_own own s" by (rule rpc_idleE)
  let ?n = "length (c_str name)"
  have u: "unat (word_of_nat ?n :: u16) = ?n" "unat (word_of_nat (?n + length tlvs) :: u32) = ?n + length tlvs"
    using assms(3,4) by (simp_all add: unat_of_nat del: of_nat_add)
  then have n0: "(word_of_nat ?n :: u16) \<noteq> 0" using assms(2) by (metis less_numeral_extra(3) unsigned_0)
  have c: "c_str (c_str name) = c_str name" by (auto simp: c_str_def takeWhile_eq_all_conv dest: set_takeWhileD)
  have g: "hashmap_get (g_methods s1) (str_key (c_str name)) =
      Some (case hm_abs (g_methods s) (name_id name) of None \<Rightarrow> 0 | Some v \<Rightarrow> v)"
    using hm_get_abs(1) [OF rpc_invD(1) [OF o(1)]] rpc_invD(2) [OF o(1)] by (simp add: name_id_def c s1_def)
  have "rpc_dispatch_message s t (request_msg q name tlvs) = rpc_handle_request s1 t (request_msg q name tlvs)"
    using n0 by (simp add: rpc_dispatch_message_def s1_def request_fields hdr_size_def)
  also have "\<dots> = (do {
      a \<leftarrow> hashmap_get (g_methods s1) (str_key (c_str name));
      if a = 0 then do { (r, s) \<leftarrow> rpc_send_response_tlv s1 t q RPC_STATUS_METHOD_NOT_FOUND []; Some s }
      else do { m \<leftarrow> meths s1 a; run_method s1 t q m tlvs } })"
    using assms(2,3) u by (simp add: rpc_handle_request_def request_fields hdr_size_def METHOD_LEN_def Let_def del: of_nat_add cong: if_cong)
  also have "\<dots> = (case method_of s name of
       None \<Rightarrow> map_option snd (rpc_send_response_tlv s1 t q RPC_STATUS_METHOD_NOT_FOUND [])
     | Some m \<Rightarrow> run_method s1 t q m tlvs)"
  proof (cases "hm_abs (g_methods s) (name_id name)")
    case None
    then show ?thesis unfolding g by (cases "rpc_send_response_tlv s1 t q RPC_STATUS_METHOD_NOT_FOUND []") (auto simp: method_of_def)
  next
    case (Some a)
    from rpc_invD(9) [OF o(1) Some] obtain m where m: "meths s a = Some m" by blast
    then show ?thesis using Some rpc_own_objects(2) [OF o(2) m] unfolding g by (simp add: method_of_def s1_def)
  qed
  finally show ?thesis .
qed

lemma run_method_answer:
  assumes "run_method s t q m tlvs = Some s'"
  shows "\<exists>rc ps h1 st body h2 w r s2. run_parse m (rheap s) tlvs = Some (rc, ps, h1) \<and>
    rpc_send_response_tlv (s\<lparr>rheap := h2, world := w\<rparr>) t q st body = Some (r, s2) \<and> world s' = world s2 \<and>
    (if rc \<noteq> 0 then st = RPC_STATUS_INVALID_PARAMS \<and> body = [] \<and> h2 = h1 \<and> w = world s
     else \<exists>rc2 rs. run_handler m (world s) h1 ps = Some (rc2, rs, h2, w) \<and>
       (if rc2 \<noteq> 0 then st = RPC_STATUS_INTERNAL_ERROR \<and> body = []
        else \<exists>rc3 buf n. run_encode m rs = Some (rc3, buf, n) \<and>
          (if rc3 \<noteq> 0 then st = RPC_STATUS_INTERNAL_ERROR \<and> body = []
           else st = RPC_STATUS_OK \<and> buf_read buf 0 n = Some body)))"
proof -
  note unfold = run_method_def Let_def rpc_status_defs
  from assms obtain rc ps h1 where p: "run_parse m (rheap s) tlvs = Some (rc, ps, h1)"
    by (auto simp: unfold split: bind_splits)
  show ?thesis
  proof (cases "rc = 0")
    case False
    then obtain r s2 where
      "rpc_send_response_tlv (s\<lparr>rheap := h1, world := world s\<rparr>) t q RPC_STATUS_INVALID_PARAMS [] = Some (r, s2)" "world s' = world s2"
      using assms p by (auto simp: unfold split: bind_splits)
    then show ?thesis using p False by auto
  next
    case True
    then obtain rc2 rs h2 w where hd: "run_handler m (world s) h1 ps = Some (rc2, rs, h2, w)"
      using assms p by (auto simp: unfold split: bind_splits cong: if_cong)
    have "\<exists>st body r s2. rpc_send_response_tlv (s\<lparr>rheap := h2, world := w\<rparr>) t q st body = Some (r, s2) \<and> world s' = world s2 \<and>
      (if rc2 \<noteq> 0 then st = RPC_STATUS_INTERNAL_ERROR \<and> body = []
       else \<exists>rc3 buf n. run_encode m rs = Some (rc3, buf, n) \<and>
         (if rc3 \<noteq> 0 then st = RPC_STATUS_INTERNAL_ERROR \<and> body = []
          else st = RPC_STATUS_OK \<and> buf_read buf 0 n = Some body))"
    proof (cases "rc2 = 0")
      case False
      then show ?thesis using assms p hd True by (auto simp: unfold split: bind_splits cong: if_cong)
    next
      case rc2: True
      then obtain rc3 buf n where "run_encode m rs = Some (rc3, buf, n)"
        using assms p hd True by (auto simp: unfold split: bind_splits cong: if_cong)
      then show ?thesis using assms p hd True rc2 by (cases "rc3 = 0") (auto simp: unfold split: bind_splits cong: if_cong)
    qed
    then show ?thesis using p hd True by auto
  qed
qed

lemma call_roundtrip:
  assumes s: "rpc_idle s U" "n \<le> length b" "length (c_str name) + length tlvs < 2 ^ 32"
    and begin': "rpc_call_begin s (Some name) tlvs (Some b) (Some n) wok = Some (Inr a, s1)"
    and r: "0 \<le> st" "st < 2 ^ 16" "length payload < 2 ^ 32"
  shows "\<exists>q s2 s3. call_started s s1 a name tlvs (Some b) (Some n) \<and> calls s1 a = Some (new_call q (Some b) (Some n)) \<and>
    rpc_dispatch_message s1 t (response_msg q st payload) = Some s2 \<and> rpc_idle s2 U \<and> rheap s2 = rheap s1 \<and>
    rpc_call_finish s2 a 0 (Some n) =
      Some (st, Some (min (length payload) n), Some (take n payload @ drop (min (length payload) n) b), s3) \<and>
    rpc_idle s3 U \<and> pending_of s3 = pending_of s"
proof -
  have out: "out_ok (Some b) (Some n)" using s(2) by (simp add: out_ok_def)
  have "transport_of s name \<noteq> None" using call_begin_no_transport [OF s(1), of name] begin' by fastforce
  then obtain t' where "transport_of s name = Some t'" by blast
  from call_begin_ok [OF s(1) this out s(3), of wok] begin' have
    s1: "rpc_idle s1 U" "call_started s s1 a name tlvs (Some b) (Some n)" by simp_all
  from s1(2) obtain q where q: "calls s1 a = Some (new_call q (Some b) (Some n))" "pending_of s q = None"
    "pending_of s1 = (pending_of s)(q \<mapsto> new_call q (Some b) (Some n))" unfolding call_started_def by blast
  from s1(1) obtain own where o: "rpc_inv s1" "rpc_own own s1" "owned own User = U" "\<not> rpc_locked s1" by (rule rpc_idleE)
  let ?pc = "deliver (new_call q (Some b) (Some n)) payload st"
  have u: "uint (word_of_int st :: u16) = st" using r by (simp add: unsigned_of_int take_bit_int_eq_self)
  from response_dispatched [OF o(1,2) complete_response [OF r(3)], of q st t, unfolded response_fields u] q(1,3) obtain s2 where
    s2: "rpc_dispatch_message s1 t (response_msg q st payload) = Some s2" "rpc_inv s2" "rpc_own own s2" "rpc_locked s2 = rpc_locked s1"
    "pending_of s2 = (pending_of s1)(q \<mapsto> ?pc)" "calls s2 a = Some ?pc" "rheap s2 = rheap s1" by fastforce
  have i2: "rpc_idle s2 U" using s2 o by (intro rpc_idleI) simp_all
  from call_finish_ok [OF i2 s2(6), of 0 "Some n"] obtain s3 where
    s3: "rpc_call_finish s2 a 0 (Some n) = Some (pc_status ?pc, Some (resp_len ?pc), pc_buf ?pc, s3)" "rpc_idle s3 U"
    "pending_of s3 = (pending_of s2)(q := None)"
    by (auto simp: deliver_def new_call_def Let_def)
  have "pending_of s3 = pending_of s" using s3(3) s2(5) q(2,3) by (simp add: fun_upd_idem)
  then show ?thesis using s1(2) q(1) s2(1,7) i2 s3 by (intro exI [of _ q] exI [of _ s2] exI [of _ s3])
    (auto simp: deliver_def new_call_def Let_def min_def)
qed

end
