(* ===== verification/Rpc_Props.thy ===== *)
theory Rpc_Props
  imports Rpc_Room
begin

text \<open>
  The properties of the RPC core, with examples: a node with one transport whose \<^verbatim>\<open>send\<close> records
  the messages and accepts them.
\<close>

section \<open>An example node\<close>

definition demo_trans :: "bytes list rpc_transport_class" where
  "demo_trans = \<lparr>t_send = Some (\<lambda>u b w. (1, w @ [b])), t_recv = Some (\<lambda>u n w. (0, [], w)), t_close = None,
     t_user = 0, t_reasm = \<lparr>bufs = [], total_len = 0\<rparr>\<rparr>"

definition demo_name :: bytes where
  "demo_name = lit ''fs.read''"

lemma demo_name_simps [simp]: "c_str demo_name = demo_name" "length demo_name = 7"
proof -
  have e: "demo_name = [0x66, 0x73, 0x2e, 0x72, 0x65, 0x61, 0x64]" by code_simp
  show "c_str demo_name = demo_name" "length demo_name = 7" unfolding e by (simp_all add: c_str_def)
qed

lemma demo_node:
  "\<exists>s t. rpc_reach demo_heap [] s \<and> rpc_idle s {} \<and> transport_of s demo_name = Some t \<and> trans s t = Some demo_trans \<and>
     heap_room (rheap s) 1000000 \<and> world s = [] \<and> stream_of s t = []"
proof -
  from init_room [OF demo_heap_owns demo_heap_room, of "[] :: bytes list" 16 16 4] obtain s0 :: "bytes list rpc" where
    s0: "rpc_init (rpc_static demo_heap []) 16 16 4 = Some s0" "rpc_idle s0 {}" "heap_room (rheap s0) 1036216" "world s0 = []" by auto
  from create_room [OF s0(2,3), of "t_send demo_trans" "t_recv demo_trans" None 0] obtain t s1 where
    s1: "rpc_trans_class_create s0 (t_send demo_trans) (t_recv demo_trans) None 0 = Some (t, s1)" "rpc_idle s1 {}"
    "heap_room (rheap s1) 1036136" "trans s1 t = Some demo_trans" "world s1 = []"
    using s0(4) by (auto simp: demo_trans_def)
  have t: "t \<in> dom (trans s1)" using s1(4) by blast
  from bind_room [OF s1(2) t s1(3), of demo_name] obtain s2 where
    s2: "rpc_bind_transport s1 (Some demo_name) t = Some s2" "rpc_idle s2 {}" "heap_room (rheap s2) 1036040"
    "transport_of s2 demo_name = Some t" "trans s2 = trans s1" "world s2 = world s1" by auto
  have "rpc_reach demo_heap [] s0" using s0(1) by (rule rpc_reach.init)
  then have "rpc_reach demo_heap [] s1" using s1(1) by (rule rpc_reach.create)
  then have "rpc_reach demo_heap [] s2" by (rule rpc_reach.bind [OF _ _ s2(1)]) (use t in simp)
  moreover have "stream_of s2 t = []" using s1(4) s2(5) by (simp add: stream_of_def demo_trans_def stream_def)
  ultimately show ?thesis using s2 s1 heap_room_mono [OF s2(3)] by (intro exI [of _ s2] exI [of _ t]) auto
qed

lemma demo_init:
  "\<exists>s :: bytes list rpc. rpc_reach demo_heap [] s \<and> rpc_idle s {} \<and> method_of s = Map.empty"
proof -
  from init_room [OF demo_heap_owns demo_heap_room, of "[] :: bytes list" 16 16 4] obtain s :: "bytes list rpc" where
    s: "rpc_init (rpc_static demo_heap []) 16 16 4 = Some s" "rpc_idle s {}" by auto
  moreover have "method_of s = Map.empty" using init_ok [OF demo_heap_owns, of "[] :: bytes list" 16 16 4] s(1) by simp
  ultimately show ?thesis using rpc_reach.init [OF s(1)] by auto
qed

lemma demo_call:
  "\<exists>s a s'. rpc_reach demo_heap [] s \<and> rpc_idle s {} \<and>
     rpc_call_begin s (Some demo_name) [1, 2] (Some [0, 0, 0]) (Some 3) True = Some (Inr a, s' :: bytes list rpc)"
proof -
  from demo_node obtain s t where s: "rpc_reach demo_heap [] s" "rpc_idle s {}" "transport_of s demo_name = Some t"
    "trans s t = Some demo_trans" "heap_room (rheap s) 1000000" by blast
  have send: "t_send demo_trans = Some (\<lambda>u b w. (1, w @ [b]))" by (simp add: demo_trans_def)
  from call_begin_room [OF s(2-4) send, of "[1, 2]" 1000000 "Some [0, 0, 0]" "Some 3"] s(1,2,5) show ?thesis
    by (auto simp: to_int_def)
qed

lemma demo_stream:
  "fst (frames (response_msg 7 0 [1, 2, 3] @ [0, 0])) = [response_msg 7 0 [1, 2, 3]]"
  "ntohs (hdr_method_len (header_at (response_msg 7 0 [1, 2, 3]))) = 0"
  using frames_complete [of "[response_msg 7 0 [1, 2, 3]]" "[0, 0]"] complete_response [of "[1, 2, 3]" 7 0]
  by (simp_all add: frames_short response_fields)

section \<open>The invariant\<close>

text \<open>C2. However threads interleave the operations of the core after \<^verbatim>\<open>rpc_init\<close>, as long as no transport is
  polled that has no data (that poll keeps the lock) and with valid arguments and well-behaved callbacks, the state
  between them is well-formed: the three hash maps, the reassembly queues and the pending calls keep their
  invariants, a sequence number maps to the call that carries it and every call is in the table,
  every name maps to an entry of that name, the allocated blocks are exactly those of the core and
  the blocks \<open>U\<close> that the rest of the program had allocated, and the lock is free.\<close>

theorem rpc_reachable_invariant:
  assumes "rpc_reach h0 w0 s" "heap_owns h0 U"
  shows "rpc_inv s \<and> user_blocks s U \<and> \<not> rpc_locked s"
  using reach_idle [OF assms] by (simp add: rpc_idle_def)

theorem rpc_reachable_invariant_witness:
  "\<exists>(s :: bytes list rpc) t. rpc_reach demo_heap [] s \<and> transport_of s demo_name = Some t \<and> rpc_inv s \<and> user_blocks s {} \<and> \<not> rpc_locked s"
  using demo_node rpc_reachable_invariant [OF _ demo_heap_owns, of "[] :: bytes list"] by blast

section \<open>Receiving\<close>

lemma on_data_outcome:
  fixes s :: "'w rpc"
  assumes "rpc_idle s U" "trans s t = Some tc" "t_recv tc \<noteq> None" "buf \<noteq> []" "length buf \<le> 2 ^ 32"
    and "rpc_on_data s t buf = Some s'"
  shows "rpc_idle s' U \<and>
    (\<exists>b ms. (b = stream_of s t @ buf \<or>
         b = stream_of s t \<and> (\<exists>h. heap_malloc (rheap s) (24 + length buf) = Some (0, h))) \<and>
       rx_log s' = rx_log s @ ms \<and> subseq ms (fst (frames b)) \<and> stream_of s' t = snd (frames b) \<and>
       (heap_room (rheap s) (4 * length (stream_of s t @ buf) + 200) \<longrightarrow>
          b = stream_of s t @ buf \<and> prefix (through_request (fst (frames b))) ms \<and>
          ((\<forall>m \<in> set (fst (frames b)). is_response m) \<longrightarrow> ms = fst (frames b) \<and> world s' = world s)))"
proof -
  from assms(1) obtain own where o: "rpc_inv s" "rpc_own own s" "owned own User = U" "\<not> rpc_locked s" by (rule rpc_idleE)
  from on_data_ok [OF o(1,2) assms(2-5) o(4)] assms(6) obtain b where
    b: "arrived s t buf b" "\<not> rpc_locked s'" "data_ok s s' t own (fst (frames b)) (snd (frames b))" by auto
  then have i: "rpc_idle s' U" using o(3) by (auto simp: data_ok_def intro: rpc_idleI)
  from b(3) obtain ms where ms: "rx_log s' = rx_log s @ ms" "subseq ms (fst (frames b))" "stream_of s' t = snd (frames b)"
    by (auto simp: data_ok_def)
  have "b = stream_of s t @ buf \<and> prefix (through_request (fst (frames b))) ms \<and>
      ((\<forall>m \<in> set (fst (frames b)). is_response m) \<longrightarrow> ms = fst (frames b) \<and> world s' = world s)"
    if r: "heap_room (rheap s) (4 * length (stream_of s t @ buf) + 200)"
  proof -
    have "24 + length buf + 64 \<le> 4 * length (stream_of s t @ buf) + 200" by simp
    from malloc_room [OF r this] have c: "b = stream_of s t @ buf" using b(1) by (auto simp: arrived_def)
    have r0: "heap_room (rheap s) (4 * length (stream_of s t @ buf) + 200 + 0)" using r by simp
    from on_data_exact [OF o(1,2) assms(2-5) o(4) assms(6) r0] ms(1) have
      e: "prefix (through_request (fst (frames b))) ms" "(\<forall>m \<in> set (fst (frames b)). is_response m) \<longrightarrow> world s' = world s"
      unfolding c by auto
    have "ms = fst (frames b)" if "\<forall>m \<in> set (fst (frames b)). is_response m"
      using e(1) ms(2) through_request_responses [OF that] by (metis prefix_imp_subseq subseq_order.order_antisym)
    with c e show ?thesis by blast
  qed
  then show ?thesis using i b(1) ms unfolding arrived_def by blast
qed

text \<open>A stream of responses, with room in the heap.\<close>

lemma on_data_responses:
  fixes s :: "'w rpc"
  assumes "rpc_idle s U" "trans s t = Some tc" "t_recv tc \<noteq> None" "buf \<noteq> []" "length buf \<le> 2 ^ 32"
    and "\<forall>m \<in> set (fst (frames (stream_of s t @ buf))). is_response m"
    and "heap_room (rheap s) (4 * length (stream_of s t @ buf) + 200)"
  shows "\<exists>s' tc'. rpc_on_data s t buf = Some s' \<and> rpc_idle s' U \<and> rx_log s' = rx_log s @ fst (frames (stream_of s t @ buf)) \<and>
    stream_of s' t = snd (frames (stream_of s t @ buf)) \<and> world s' = world s \<and> trans s' t = Some tc' \<and> t_recv tc' = t_recv tc"
proof -
  from on_data_total [OF assms(1-6)] obtain s' where run: "rpc_on_data s t buf = Some s'" by blast
  from assms(1) obtain own where o: "rpc_inv s" "rpc_own own s" "owned own User = U" "\<not> rpc_locked s" by (rule rpc_idleE)
  from on_data_ok [OF o(1,2) assms(2-5) o(4)] run obtain c where "data_ok s s' t own (fst (frames c)) (snd (frames c))" by auto
  then obtain tc' where "trans s' t = Some tc'" "t_recv tc' = t_recv tc" using assms(2) by (auto simp: data_ok_def)
  moreover from on_data_outcome [OF assms(1-5) run] obtain b ms where
    e: "rpc_idle s' U" "rx_log s' = rx_log s @ ms" "stream_of s' t = snd (frames b)" "b = stream_of s t @ buf"
    "(\<forall>m \<in> set (fst (frames b)). is_response m) \<longrightarrow> ms = fst (frames b) \<and> world s' = world s" using assms(7) by blast
  moreover have "ms = fst (frames (stream_of s t @ buf)) \<and> world s' = world s" using e(5) assms(6) unfolding e(4) by (rule mp)
  ultimately show ?thesis using run by (intro exI [of _ s'] exI [of _ tc']) simp
qed

text \<open>C4. \<^verbatim>\<open>rpc_on_data\<close> on a segment of 1 to 2 ^ 32 bytes, for a transport that can receive, returns, unless the stream has a request, whose handler may
  fault. Then the messages it dispatched are messages of the buffered stream with the segment, each at most once and
  in the order of the stream, the incomplete rest is kept for the next segment, the lock is free and the state is
  well-formed; the segment itself is lost only when \<^verbatim>\<open>rpc_buf_alloc\<close> gets no memory. When the heap has a free block of
  four times the stream and 200 bytes, nothing is lost: the segment is kept and every message up to and with the first
  request is dispatched, and when all messages are responses, exactly all of them, with nothing done to the
  environment. What comes after a request depends on the memory that its handler leaves.\<close>

theorem rpc_on_data_messages:
  fixes s :: "'w rpc"
  assumes "rpc_idle s U" "trans s t = Some tc" "t_recv tc \<noteq> None" "buf \<noteq> []" "length buf \<le> 2 ^ 32"
  shows "case rpc_on_data s t buf of
      None \<Rightarrow> \<exists>m \<in> set (fst (frames (stream_of s t @ buf))). \<not> is_response m
    | Some s' \<Rightarrow> rpc_idle s' U \<and>
        (\<exists>b ms. (b = stream_of s t @ buf \<or>
             b = stream_of s t \<and> (\<exists>h. heap_malloc (rheap s) (24 + length buf) = Some (0, h))) \<and>
           rx_log s' = rx_log s @ ms \<and> subseq ms (fst (frames b)) \<and> stream_of s' t = snd (frames b) \<and>
           (heap_room (rheap s) (4 * length (stream_of s t @ buf) + 200) \<longrightarrow>
              b = stream_of s t @ buf \<and> prefix (through_request (fst (frames b))) ms \<and>
              ((\<forall>m \<in> set (fst (frames b)). is_response m) \<longrightarrow> ms = fst (frames b) \<and> world s' = world s)))"
proof (cases "rpc_on_data s t buf")
  case None
  then show ?thesis using on_data_total [OF assms] by auto
next
  case (Some s')
  from on_data_outcome [OF assms Some] show ?thesis unfolding Some option.case .
qed

theorem rpc_on_data_messages_witness:
  "\<exists>s t s'. rpc_reach demo_heap [] s \<and> trans s t = Some demo_trans \<and>
     rpc_on_data s t (response_msg 7 0 [1, 2, 3] @ [0, 0]) = Some s' \<and> rx_log s' = rx_log s @ [response_msg 7 0 [1, 2, 3]]"
proof -
  let ?b = "response_msg 7 0 [1, 2, 3] @ [0, 0]"
  from demo_node obtain s t where s: "rpc_reach demo_heap [] s" "rpc_idle s {}" "trans s t = Some demo_trans" "stream_of s t = []"
    "heap_room (rheap s) 1000000" by blast
  have b: "t_recv demo_trans \<noteq> None" "?b \<noteq> []" "length ?b \<le> 2 ^ 32" by (simp_all add: demo_trans_def response_fields)
  have r: "heap_room (rheap s) (4 * length (stream_of s t @ ?b) + 200)"
    by (rule heap_room_mono [OF s(5)]) (simp add: s(4) response_fields)
  from rpc_on_data_messages [OF s(2,3) b] r demo_stream obtain s' where
    "rpc_on_data s t ?b = Some s'" "rx_log s' = rx_log s @ [response_msg 7 0 [1, 2, 3]]"
    unfolding s(4) by (auto split: option.splits)
  then show ?thesis using s by blast
qed

section \<open>Requests and responses\<close>

text \<open>C8. A request is routed by its method name: an unknown method is answered with
  \<^verbatim>\<open>METHOD_NOT_FOUND\<close> and no payload, under the sequence number of the request; a registered one is
  run on exactly the parameter bytes of the request.\<close>

theorem rpc_request_routed:
  fixes s :: "'w rpc" and q :: u32
  assumes "rpc_idle s U" "0 < length (c_str name)" "length (c_str name) < 128" "length (c_str name) + length tlvs < 2 ^ 32"
  defines "s1 \<equiv> s\<lparr>rx_log := rx_log s @ [request_msg q name tlvs]\<rparr>"
  shows "rpc_dispatch_message s t (request_msg q name tlvs) =
    (case method_of s name of
       None \<Rightarrow> map_option snd (rpc_send_response_tlv s1 t q RPC_STATUS_METHOD_NOT_FOUND [])
     | Some m \<Rightarrow> run_method s1 t q m tlvs)"
  unfolding s1_def by (rule request_routed [OF assms(1-4)])

theorem rpc_request_routed_witness:
  "\<exists>(s :: bytes list rpc) t. rpc_reach demo_heap [] s \<and> method_of s demo_name = None \<and>
     rpc_dispatch_message s t (request_msg 9 demo_name [1]) =
     map_option snd (rpc_send_response_tlv (s\<lparr>rx_log := rx_log s @ [request_msg 9 demo_name [1]]\<rparr>) t 9 RPC_STATUS_METHOD_NOT_FOUND [])"
proof -
  from demo_init obtain s :: "bytes list rpc" where s: "rpc_reach demo_heap [] s" "rpc_idle s {}" "method_of s = Map.empty" by blast
  from rpc_request_routed [OF s(2), of demo_name "[1]" 0 9] s show ?thesis by auto
qed

text \<open>C10. A response is delivered to the call that waits for its sequence number: the payload is
  copied into the caller's buffer as far as it fits, the length and the status are recorded and the
  waiter is woken. No other call changes, and a response nobody waits for changes nothing.\<close>

theorem rpc_response_delivered:
  assumes "rpc_idle s U" "length payload < 2 ^ 32"
  shows "\<exists>s'. rpc_dispatch_message s t (response_msg q st payload) = Some s' \<and> rpc_idle s' U \<and>
    pending_of s' = (case pending_of s q of None \<Rightarrow> pending_of s
      | Some pc \<Rightarrow> (pending_of s)(q \<mapsto>
          (let n = min (length payload) (buf_size pc)
           in pc\<lparr>pc_buf := map_option (\<lambda>b. take n payload @ drop n b) (pc_buf pc), resp_len := n,
                pc_status := uint (word_of_int st :: u16), pc_done := True, pc_waiter := \<lparr>signaled = True\<rparr>\<rparr>))) \<and>
    method_of s' = method_of s \<and> transport_of s' = transport_of s \<and> trans s' = trans s"
proof -
  from assms(1) obtain own where o: "rpc_inv s" "rpc_own own s" "owned own User = U" "\<not> rpc_locked s" by (rule rpc_idleE)
  have w: "rpc_waiter_wake x = \<lparr>signaled = True\<rparr>" for x by (cases x) (simp add: rpc_waiter_wake_def)
  from response_dispatched [OF o(1,2) complete_response [OF assms(2)], of q st t, unfolded response_fields deliver_def w] o(3,4)
  show ?thesis by (auto intro: rpc_idleI)
qed

theorem rpc_response_delivered_witness:
  "\<exists>(s :: bytes list rpc) s' t. rpc_reach demo_heap [] s \<and> rpc_dispatch_message s t (response_msg 7 0 [1, 2, 3]) = Some s' \<and>
     pending_of s' 8 = pending_of s 8"
proof -
  from demo_init obtain s :: "bytes list rpc" where s: "rpc_reach demo_heap [] s" "rpc_idle s {}" by blast
  from rpc_response_delivered [OF s(2), of "[1, 2, 3]" 0 7 0] obtain s' where
    s': "rpc_dispatch_message s 0 (response_msg 7 0 [1, 2, 3]) = Some s'" "pending_of s' 8 = pending_of s 8"
    by (auto split: option.splits)
  then show ?thesis using s(1) by blast
qed

section \<open>Calls\<close>

text \<open>C11. A sequence number that \<^verbatim>\<open>rpc_next_seq\<close> returns is not zero and belongs to no pending call, and
  it always returns one: the search cannot go round, since the heap is too small for that many calls.
  Nothing but the counter changes, and the counter stays away from zero.\<close>

theorem rpc_next_seq_fresh:
  assumes "rpc_idle s U"
  shows "\<exists>q q'. rpc_next_seq s = Some (q, s\<lparr>g_next_seq := q'\<rparr>) \<and> q \<noteq> 0 \<and> q' \<noteq> 0 \<and> pending_of s q = None"
proof -
  from assms obtain own where o: "rpc_inv s" "rpc_own own s" by (rule rpc_idleE)
  from next_seq_ok [OF this] show ?thesis by (auto simp: pending_seqs_def pending_of_def)
qed

theorem rpc_next_seq_fresh_witness:
  "\<exists>(s :: bytes list rpc) q s'. rpc_reach demo_heap [] s \<and> rpc_next_seq s = Some (q, s') \<and> q \<noteq> 0"
proof -
  from demo_init obtain s :: "bytes list rpc" where s: "rpc_reach demo_heap [] s" "rpc_idle s {}" by blast
  from rpc_next_seq_fresh [OF s(2)] s(1) show ?thesis by blast
qed

text \<open>C7. The first half of \<^verbatim>\<open>rpc_call_with_tlv\<close> is all or nothing. Either it returns an error, and then
  no call is pending that was not before, no block stays allocated and the lock is free; or one call is
  added to the table under a fresh sequence number and exactly one request, with that number, the name
  and the parameters, has been handed to the transport. It faults only when the entry of the hash map
  gets no memory.\<close>

theorem rpc_call_begin_atomic:
  assumes "rpc_idle s U" "out_ok out_tlv out_len" "length (c_str name) + length tlvs < 2 ^ 32"
  shows "case rpc_call_begin s (Some name) tlvs out_tlv out_len wok of
      Some (Inl st, s') \<Rightarrow> st < 0 \<and> rpc_idle s' U \<and> same_view s s'
    | Some (Inr a, s') \<Rightarrow> rpc_idle s' U \<and> call_started s s' a name tlvs out_tlv out_len
    | None \<Rightarrow> \<exists>p h h2. heap_malloc (rheap s) 48 = Some (p, h) \<and> p \<noteq> 0 \<and> heap_malloc h 32 = Some (0, h2)"
proof (cases "transport_of s name")
  case None
  then show ?thesis using call_begin_no_transport [OF assms(1) None] assms(1) by (simp add: same_view_def)
next
  case (Some t)
  show ?thesis using call_begin_ok [OF assms(1) Some assms(2,3), of wok] by (auto split: option.splits sum.splits)
qed

theorem rpc_call_begin_atomic_witness:
  "\<exists>(s :: bytes list rpc) a s'. rpc_reach demo_heap [] s \<and>
     rpc_call_begin s (Some demo_name) [1, 2] (Some [0, 0, 0]) (Some 3) True = Some (Inr a, s') \<and>
     call_started s s' a demo_name [1, 2] (Some [0, 0, 0]) (Some 3)"
proof -
  from demo_call obtain s :: "bytes list rpc" and a s' where s: "rpc_reach demo_heap [] s" "rpc_idle s {}"
    "rpc_call_begin s (Some demo_name) [1, 2] (Some [0, 0, 0]) (Some 3) True = Some (Inr a, s')" by blast
  from rpc_call_begin_atomic [OF s(2), of "Some [0, 0, 0]" "Some 3" demo_name "[1, 2]" True] s show ?thesis
    by (auto simp: out_ok_def)
qed

text \<open>C3. A whole call: when the response to a started call arrives before the waiter gives up, the call
  returns the status of the response, the caller's buffer holds its payload as far as it fits,
  \<^verbatim>\<open>*out_len\<close> is the number of bytes copied, and afterwards the table of pending calls is what it was
  before the call, with no block of the call left in the heap.\<close>

theorem rpc_call_roundtrip:
  assumes s: "rpc_idle s U" "n \<le> length b" "length (c_str name) + length tlvs < 2 ^ 32"
    and begin': "rpc_call_begin s (Some name) tlvs (Some b) (Some n) wok = Some (Inr a, s1)"
    and r: "0 \<le> st" "st < 2 ^ 16" "length payload < 2 ^ 32"
  shows "\<exists>q s2 s3. call_started s s1 a name tlvs (Some b) (Some n) \<and> calls s1 a = Some (new_call q (Some b) (Some n)) \<and>
    rpc_dispatch_message s1 t (response_msg q st payload) = Some s2 \<and>
    rpc_call_finish s2 a 0 (Some n) =
      Some (st, Some (min (length payload) n), Some (take n payload @ drop (min (length payload) n) b), s3) \<and>
    rpc_idle s3 U \<and> pending_of s3 = pending_of s"
  using call_roundtrip [OF assms, of t] by blast

theorem rpc_call_roundtrip_witness:
  "\<exists>(s :: bytes list rpc) a s1 q s2 s3. rpc_reach demo_heap [] s \<and>
     rpc_call_begin s (Some demo_name) [1, 2] (Some [0, 0, 0]) (Some 3) True = Some (Inr a, s1) \<and>
     rpc_dispatch_message s1 0 (response_msg q 0 [7, 8]) = Some s2 \<and>
     rpc_call_finish s2 a 0 (Some 3) = Some (0, Some 2, Some [7, 8, 0], s3)"
proof -
  from demo_call obtain s :: "bytes list rpc" and a s1 where s: "rpc_reach demo_heap [] s" "rpc_idle s {}"
    "rpc_call_begin s (Some demo_name) [1, 2] (Some [0, 0, 0]) (Some 3) True = Some (Inr a, s1)" by blast
  from rpc_call_roundtrip [OF s(2) _ _ s(3), of 0 "[7, 8]" 0] obtain q s2 s3 where
    "rpc_dispatch_message s1 0 (response_msg q 0 [7, 8]) = Some s2"
    "rpc_call_finish s2 a 0 (Some 3) = Some (0, Some 2, Some [7, 8, 0], s3)" by auto
  then show ?thesis using s(1,3) by blast
qed

text \<open>C12. The end of a call never leaks: whatever the waiter returned and whatever else happened while
  the caller waited, the call is taken out of the table and freed, no other call is touched, and the result
  is the recorded status, or \<^verbatim>\<open>RPC_STATUS_TIMEOUT\<close> when the wait failed.\<close>

theorem rpc_call_finish_releases:
  assumes "rpc_idle s U" "calls s a = Some pc"
  shows "\<exists>s' n b. rpc_call_finish s a wait_ret out_len =
      Some (if wait_ret = 0 then pc_status pc else RPC_STATUS_TIMEOUT, n, b, s') \<and>
    rpc_idle s' U \<and> pending_of s' = (pending_of s)(pc_seq pc := None) \<and> pending_of s (pc_seq pc) = Some pc"
proof -
  from assms(1) obtain own where "rpc_inv s" by (rule rpc_idleE)
  then have "pending_of s (pc_seq pc) = Some pc" using rpc_invD(8) [OF _ assms(2)] assms(2) by (simp add: pending_of_def)
  with call_finish_ok [OF assms, of wait_ret out_len] show ?thesis by auto
qed

theorem rpc_call_finish_releases_witness:
  "\<exists>(s :: bytes list rpc) a s1 n b s2. rpc_reach demo_heap [] s \<and>
     rpc_call_begin s (Some demo_name) [1, 2] (Some [0, 0, 0]) (Some 3) True = Some (Inr a, s1) \<and>
     rpc_call_finish s1 a (-1) (Some 3) = Some (5, n, b, s2) \<and> rpc_idle s2 {}"
proof -
  from demo_call obtain s :: "bytes list rpc" and a s1 where s: "rpc_reach demo_heap [] s" "rpc_idle s {}"
    "rpc_call_begin s (Some demo_name) [1, 2] (Some [0, 0, 0]) (Some 3) True = Some (Inr a, s1)" by blast
  have "rpc_reach demo_heap [] s1" by (rule rpc_reach.call [OF s(1) _ _ s(3)]) (simp_all add: out_ok_def)
  then have i: "rpc_idle s1 {}" by (rule reach_idle [OF _ demo_heap_owns])
  have t: "transport_of s demo_name \<noteq> None" using call_begin_no_transport [OF s(2), of demo_name] s(3) by fastforce
  then obtain pc where pc: "calls s1 a = Some pc"
    using call_begin_ok [OF s(2), of demo_name _ "Some [0, 0, 0]" "Some 3" "[1, 2]" True] s(3)
    by (auto simp: out_ok_def call_started_def)
  from rpc_call_finish_releases [OF i pc, of "-1" "Some 3"] s(1,3) show ?thesis by (auto simp: RPC_STATUS_TIMEOUT_def)
qed

section \<open>Set-up\<close>

text \<open>After \<^verbatim>\<open>rpc_bind_transport\<close> the name leads to the new transport and every other name to the
  one it led to before, unless the entry got no memory, when nothing is bound and no error is reported.
  It faults only when the hash map has no memory for a new name.\<close>

theorem rpc_bind_lookup:
  assumes "rpc_idle s U" "t \<in> dom (trans s)"
  shows "case rpc_bind_transport s (Some name) t of
      Some s' \<Rightarrow> rpc_idle s' U \<and>
        ((\<forall>n. rpc_transport_lookup s' (Some n) =
            (if c_str n = c_str name then Some t else rpc_transport_lookup s (Some n))) \<or>
         (\<forall>n. rpc_transport_lookup s' (Some n) = rpc_transport_lookup s (Some n)) \<and>
           (\<exists>h. heap_malloc (rheap s) 16 = Some (0, h)))
    | None \<Rightarrow> \<exists>p h h'. heap_malloc (rheap s) 16 = Some (p, h) \<and> p \<noteq> 0 \<and> heap_malloc h 32 = Some (0, h')"
proof -
  have look: "rpc_transport_lookup s1 (Some n) = Some (case transport_of s1 n of None \<Rightarrow> 0 | Some t \<Rightarrow> t)"
    if "rpc_idle s1 U" for s1 :: "'a rpc" and n using that transport_lookup_eq by (metis rpc_idleE)
  show ?thesis
  proof (cases "rpc_bind_transport s (Some name) t")
    case None
    then show ?thesis using bind_ok [OF assms, of name] by simp
  next
    case (Some s')
    then have "rpc_idle s' U" "same_view s s' \<and> (\<exists>h. heap_malloc (rheap s) 16 = Some (0, h)) \<or>
      (\<forall>n. transport_of s' n = (if c_str n = c_str name then Some t else transport_of s n))"
      using bind_ok [OF assms, of name] by auto
    then show ?thesis using Some look [OF assms(1)] look [of s'] by (auto simp: same_view_def)
  qed
qed

theorem rpc_bind_lookup_witness:
  "\<exists>(s :: bytes list rpc) t s'. rpc_reach demo_heap [] s \<and> trans s t = Some demo_trans \<and>
     rpc_bind_transport s (Some [0x61]) t = Some s' \<and> rpc_idle s' {}"
proof -
  from demo_node obtain s t where s: "rpc_reach demo_heap [] s" "rpc_idle s {}" "trans s t = Some demo_trans"
    "heap_room (rheap s) 1000000" by blast
  then have t: "t \<in> dom (trans s)" by blast
  from bind_room [OF s(2) t s(4), of "[0x61]"] obtain s' where "rpc_bind_transport s (Some [0x61]) t = Some s'" by auto
  with rpc_bind_lookup [OF s(2) t, of "[0x61]"] s(1,3) show ?thesis by auto
qed

section \<open>A lock that is not released\<close>

text \<open>C13. When \<^verbatim>\<open>rpc_on_data\<close> is asked to poll and \<^verbatim>\<open>recv\<close> has nothing, it returns with the lock held:
  from then on no call can start and no data can be received, on any transport.\<close>

theorem rpc_empty_poll_deadlock:
  assumes "rpc_idle s U" "trans s t = Some tc" "t_recv tc = Some recv" "recv (t_user tc) MTU (world s) = (n, b, w)" "sint n \<le> 0"
  shows "\<exists>s'. rpc_on_data s t [] = Some s' \<and> rpc_locked s' \<and>
    (\<forall>t' tc' d. trans s' t' = Some tc' \<and> t_recv tc' \<noteq> None \<longrightarrow> rpc_on_data s' t' d = None) \<and>
    (\<forall>name t'. transport_of s' name = Some t' \<longrightarrow>
       rpc_call_begin s' (Some name) tlvs out_tlv out_len wok = None)"
proof -
  from assms(1) obtain own where o: "rpc_inv s" "rpc_own own s" "\<not> rpc_locked s" by (rule rpc_idleE)
  let ?s' = "s\<lparr>rpc_locked := True, world := w\<rparr>"
  have i: "rpc_inv ?s'" "rpc_own own ?s'" using o by (simp_all add: rpc_inv_def rpc_own_def queue_addrs_def)
  have nz: "trans ?s' t' = Some tc' \<Longrightarrow> t' \<noteq> 0" for t' tc' using rpc_own_objects(4) [OF i(2)] .
  have "rpc_on_data s t [] = Some ?s'"
    using assms(2-5) o(3) nz [of t tc] by (auto simp: rpc_on_data_def rpc_port_lock_def)
  moreover have "rpc_on_data ?s' t' d = None" if "trans ?s' t' = Some tc'" "t_recv tc' \<noteq> None" for t' tc' d
    using that nz [OF that(1)] by (auto simp: rpc_on_data_def rpc_port_lock_def)
  moreover have "rpc_call_begin ?s' (Some name) tlvs out_tlv out_len wok = None" if "transport_of ?s' name = Some t'" for name t'
    using that transport_lookup_eq [OF i, of name] transport_of_dom [OF i(1) that] nz [of t']
    by (auto simp: rpc_call_begin_def rpc_port_lock_def)
  ultimately show ?thesis by (intro exI [of _ ?s']) auto
qed

theorem rpc_empty_poll_deadlock_witness:
  "\<exists>(s :: bytes list rpc) t s'. rpc_reach demo_heap [] s \<and> rpc_on_data s t [] = Some s' \<and> rpc_locked s'"
proof -
  from demo_node obtain s t where s: "rpc_reach demo_heap [] s" "rpc_idle s {}" "trans s t = Some demo_trans" by blast
  from rpc_empty_poll_deadlock [OF s(2,3), where recv = "\<lambda>u n w. (0, [], w)" and n = 0 and b = "[]" and w = "world s"
      and tlvs = "[]" and out_tlv = None and out_len = None and wok = True] obtain s' where
    "rpc_on_data s t [] = Some s'" "rpc_locked s'" by (auto simp: demo_trans_def)
  with s(1) show ?thesis by blast
qed

end
