(* ===== verification/Services.thy ===== *)
theory Services
  imports Rpc_Props
begin

text \<open>
  The services of the two nodes and the generated glue around them: the handlers of
  \<^verbatim>\<open>nodeA/src/services_fs.c\<close> and \<^verbatim>\<open>nodeB/src/services_shell.c\<close>, the registration functions and
  the client stubs that \<^verbatim>\<open>ccrpc/source/rpc_gen.c\<close> generates. What the handlers ask of the C library
  is the state \<open>os\<close>: the contents of the files that can be opened, the output and exit status of
  the commands that \<^verbatim>\<open>popen\<close> can start, and the messages handed to the socket.
\<close>

section \<open>Handlers\<close>

text \<open>A file on which \<^verbatim>\<open>fseek\<close> fails, such as a pipe, is a \<open>Stream\<close>.\<close>

datatype os_file = Regular bytes | Stream

record os =
  files :: "bytes \<rightharpoonup> os_file"
  shell :: "bytes \<rightharpoonup> bytes \<times> int"
  socket :: "bytes list"

definition zero_result :: "rpc_schema \<Rightarrow> field list" where
  "zero_result m = map zero_field (results m)"

fun fs_read_handler :: "os \<Rightarrow> heap \<Rightarrow> field list \<Rightarrow> (int \<times> field list \<times> heap \<times> os) option" where
  "fs_read_handler w h [F_string s path, F_u32 offset, F_u32 sz] =
     (if s = 0 then None
      else case files w (c_str path) of
        None \<Rightarrow> Some (-1, zero_result fs_read_schema, h, w)
      | Some Stream \<Rightarrow> Some (-1, zero_result fs_read_schema, h, w)
      | Some (Regular content) \<Rightarrow> do {
          (p, h) \<leftarrow> heap_malloc h (unat sz);
          if p = 0 then Some (-1, zero_result fs_read_schema, h, w)
          else let data = take (unat sz) (drop (unat offset) content);
                   n = length data
               in if n \<noteq> unat sz
                  then do { h \<leftarrow> heap_free h p; Some (-1, zero_result fs_read_schema, h, w) }
                  else Some (0, [F_bytes p data, F_u32 (word_of_nat n), F_u32 0], h, w) })"
| "fs_read_handler w h _ = None"

fun shell_exec_handler :: "os \<Rightarrow> heap \<Rightarrow> field list \<Rightarrow> (int \<times> field list \<times> heap \<times> os) option" where
  "shell_exec_handler w h [F_string c cmd] =
     (if c = 0 then None
      else case shell w (c_str cmd) of
        None \<Rightarrow> Some (-1, zero_result shell_exec_schema, h, w)
      | Some (out, exitcode) \<Rightarrow>
          let buf = take (4096 - 1) out
          in do {
            (s, h) \<leftarrow> heap_malloc h (length buf + 1);
            if s = 0 then Some (-1, zero_result shell_exec_schema, h, w)
            else Some (0, [F_string s buf, F_u32 (word_of_int exitcode)], h, w) })"
| "shell_exec_handler w h _ = None"

section \<open>Registration\<close>

text \<open>\<^verbatim>\<open>rpc_register_*\<close>: the generated functions of a method and its handler.\<close>

definition provider_entry :: "i32_writer \<Rightarrow> rpc_schema \<Rightarrow>
    ('w \<Rightarrow> heap \<Rightarrow> field list \<Rightarrow> (int \<times> field list \<times> heap \<times> 'w) option) \<Rightarrow> 'w rpc_method_entry" where
  "provider_entry w m handler = \<lparr>me_name = rpcname m, me_parse = Some (rpc_param_parse m), me_handler = Some handler,
     me_encode = Some (encode_result w), me_free_param = Some free_param, me_free_result = Some free_result\<rparr>"

definition rpc_register_provider :: "i32_writer \<Rightarrow> 'w rpc \<Rightarrow> rpc_schema \<Rightarrow>
    ('w \<Rightarrow> heap \<Rightarrow> field list \<Rightarrow> (int \<times> field list \<times> heap \<times> 'w) option) \<Rightarrow> 'w rpc option" where
  "rpc_register_provider w s m handler = rpc_register_method s (Some (rpcname m)) (provider_entry w m handler)"

text \<open>\<^verbatim>\<open>rpc_register_all\<close> of the two nodes.\<close>

definition rpc_register_all_nodeA :: "i32_writer \<Rightarrow> os rpc \<Rightarrow> os rpc option" where
  "rpc_register_all_nodeA w s = rpc_register_provider w s fs_read_schema fs_read_handler"

definition rpc_register_all_nodeB :: "i32_writer \<Rightarrow> os rpc \<Rightarrow> os rpc option" where
  "rpc_register_all_nodeB w s = rpc_register_provider w s shell_exec_schema shell_exec_handler"

section \<open>Client stubs\<close>

definition RPC_RESP_BUF_SIZE :: nat where "RPC_RESP_BUF_SIZE = 4096"

text \<open>The end of a stub: parse the response, free the two buffers.\<close>

definition stub_tail :: "rpc_schema \<Rightarrow> int \<Rightarrow> nat option \<Rightarrow> bytes option \<Rightarrow> 'w rpc \<Rightarrow> addr \<Rightarrow> addr \<Rightarrow>
    (int \<times> field list option \<times> 'w rpc) option" where
  "stub_tail m st len out s tlvbuf resp = do {
     (st, r, h) \<leftarrow> (if st = 0
       then do {
         out \<leftarrow> out;
         n \<leftarrow> len;
         data \<leftarrow> buf_read out 0 n;
         (st, r, h) \<leftarrow> rpc_result_parse m (rheap s) data;
         Some (st, Some r, h) }
       else Some (st, None, rheap s));
     h \<leftarrow> heap_free h tlvbuf;
     h \<leftarrow> heap_free h resp;
     Some (st, r, s\<lparr>rheap := h\<rparr>) }"

text \<open>\<^verbatim>\<open>rpc_call_*\<close>: the status, and the result struct when the response was parsed.\<close>

definition rpc_call_stub :: "i32_writer \<Rightarrow> ('w rpc \<Rightarrow> addr \<Rightarrow> (int \<times> 'w rpc) option) \<Rightarrow> 'w rpc \<Rightarrow> rpc_schema \<Rightarrow>
    field list \<Rightarrow> bool \<Rightarrow> (int \<times> field list option \<times> 'w rpc) option" where
  "rpc_call_stub w wait s m ps waiter_ok =
     (let tlv_size = estimate_size 0 ps
      in do {
        (tlvbuf, h) \<leftarrow> heap_malloc (rheap s) tlv_size;
        if tlvbuf = 0 then Some (-1, None, s\<lparr>rheap := h\<rparr>)
        else do {
          (buf, off) \<leftarrow> emit_fields w (replicate tlv_size 0) 0 ps;
          (resp, h) \<leftarrow> heap_malloc h RPC_RESP_BUF_SIZE;
          if resp = 0 then do { h \<leftarrow> heap_free h tlvbuf; Some (-1, None, s\<lparr>rheap := h\<rparr>) }
          else do {
            tlvs \<leftarrow> buf_read buf 0 off;
            (st, len, out, s) \<leftarrow> rpc_call_with_tlv wait (s\<lparr>rheap := h\<rparr>) (Some (rpcname m)) tlvs
              (Some (replicate RPC_RESP_BUF_SIZE 0)) (Some RPC_RESP_BUF_SIZE) waiter_ok;
            stub_tail m st len out s tlvbuf resp } } })"

section \<open>The handlers respect the heap\<close>

lemma ptrs_zero_result [simp]: "ptrs (zero_result m) = []"
  by (simp add: zero_result_def)

lemma fields_ok_zero [simp]: "fields_ok A (zero_result m) h = heap_owns h A"
  by (simp add: fields_ok_def)

lemma fs_read_own:
  assumes own: "heap_owns h A" and run: "fs_read_handler w h ps = Some (rc, rs, h', w')"
  shows "fields_ok A rs h' \<and> w' = w"
proof -
  from run obtain s path off sz where ps: "ps = [F_string s path, F_u32 off, F_u32 sz]" "s \<noteq> 0"
    by (cases "(w, h, ps)" rule: fs_read_handler.cases) (auto split: if_splits)
  have n: "unat sz < 2 ^ 63" using u32_less [of sz] by simp
  show ?thesis
  proof (cases "files w (c_str path)")
    case None
    then show ?thesis using run ps own by auto
  next
    case (Some fl)
    from own n show ?thesis
    proof (cases rule: hp.alloc_cases)
      case (null h1)
      then show ?thesis using run ps own Some by (auto split: os_file.splits)
    next
      case (fresh p h1)
      from hp.alloc_release [OF own n fresh(1)] obtain h2 where "heap_free h1 p = Some h2" "heap_owns h2 A" by blast
      then show ?thesis using run ps Some fresh own by (auto simp: Let_def fields_ok_def split: if_splits os_file.splits)
    qed
  qed
qed

lemma shell_exec_own:
  assumes own: "heap_owns h A" and run: "shell_exec_handler w h ps = Some (rc, rs, h', w')"
  shows "fields_ok A rs h' \<and> w' = w"
proof -
  from run obtain c cmd where ps: "ps = [F_string c cmd]" "c \<noteq> 0"
    by (cases "(w, h, ps)" rule: shell_exec_handler.cases) (auto split: if_splits)
  show ?thesis
  proof (cases "shell w (c_str cmd)")
    case None
    then show ?thesis using run ps own by auto
  next
    case (Some oc)
    obtain out code where oc: "oc = (out, code)" by fastforce
    have n: "length (take (4096 - 1) out) + 1 < 2 ^ 63" by simp
    from own n show ?thesis
    proof (cases rule: hp.alloc_cases)
      case (null h1)
      then show ?thesis using run ps Some oc by auto
    next
      case (fresh p h1)
      then show ?thesis using run ps Some oc by (auto simp: Let_def fields_ok_def)
    qed
  qed
qed

lemma encode_result_length:
  assumes "i32_writer_ok w" "length buf = 4096" "encode_result w rs buf 4096 = Some (rc, buf', n)"
  shows "length buf' = 4096 \<and> rc = 0 \<and> n = length (wire rs) \<and> take n buf' = wire rs"
  using assms emit_fields_eq [OF assms(1), of 0 "replicate 4096 0" rs]
  by (auto simp: encode_result_def buf_write_def split: bind_splits if_splits)

text \<open>Every method that is built from a schema and a handler that respects the heap is well-behaved.\<close>

lemma provider_ok:
  assumes w: "i32_writer_ok w"
    and hd: "\<And>v h A ps rc rs h' v'. heap_owns h A \<Longrightarrow> handler v h ps = Some (rc, rs, h', v') \<Longrightarrow> fields_ok A rs h'"
  shows "method_ok (provider_entry w m handler)"
proof -
  let ?e = "provider_entry w m handler"
  have parse: "fields_ok A ps h'" if "heap_owns h A" "run_parse ?e h tlvs = Some (rc, ps, h')" for h A tlvs rc ps h'
    using that parse_fields_decode [OF that(1), of "params m" tlvs] by (auto simp: run_parse_def provider_entry_def rpc_param_parse_def)
  have handle: "fields_ok A rs h'" if "heap_owns h A" "run_handler ?e v h ps = Some (rc, rs, h', v')" for h A v ps rc rs h' v'
    using that hd by (simp add: run_handler_def provider_entry_def)
  have encode: "length buf = RPC_MAX_RESULT_TLV_SIZE" if "run_encode ?e rs = Some (rc, buf, n)" for rs rc buf n
    using that encode_result_length [OF w, of "replicate 4096 0" rs rc buf n]
    by (simp add: run_encode_def provider_entry_def RPC_MAX_RESULT_TLV_SIZE_def)
  have free: "heap_owns h' A" if "fields_ok A ps h" "run_free f h ps = Some h'" "f = Some free_param \<or> f = Some free_result" for A ps h h' f
    using that free_fields_ok [OF that(1)] by (auto simp: run_free_def free_param_def free_result_def)
  have f: "me_free_param ?e = Some free_param" "me_free_result ?e = Some free_result" by (simp_all add: provider_entry_def)
  show ?thesis unfolding method_ok_def f
  proof (intro conjI allI impI, goal_cases)
    case 1 then show ?case by (rule parse)
  next
    case 2 then show ?case by (rule handle)
  next
    case 3 then show ?case by (rule encode)
  next
    case 4 then show ?case by (rule free) simp
  next
    case 5 then show ?case by (rule free) simp
  qed
qed

lemma providers_ok:
  assumes "i32_writer_ok w"
  shows "method_ok (provider_entry w fs_read_schema fs_read_handler)" "method_ok (provider_entry w shell_exec_schema shell_exec_handler)"
  by (rule provider_ok [OF assms], use fs_read_own in blast) (rule provider_ok [OF assms], use shell_exec_own in blast)

section \<open>Serving a request\<close>

lemma fs_read_name [simp]: "rpcname fs_read_schema = demo_name" "params fs_read_schema = [T_string, T_u32, T_u32]"
  "results fs_read_schema = [T_bytes, T_u32, T_u32]"
  by (simp_all add: fs_read_schema_def demo_name_def)

lemma parse_string_nonnull: "tlv_read_string h p = Some (Some (used, a, v), h') \<Longrightarrow> a \<noteq> 0"
  by (auto simp: tlv_read_string_def split: bind_splits option.splits if_splits)

lemma val_of_inverses [simp]:
  "val_of f = V_string v \<longleftrightarrow> (\<exists>p. f = F_string p v)" "val_of f = V_u32 x \<longleftrightarrow> f = F_u32 x"
  "val_of f = V_bytes v \<longleftrightarrow> (\<exists>p. f = F_bytes p v)"
  by (cases f; auto)+

lemma provider_encode:
  assumes "i32_writer_ok w" "length (wire rs) \<le> 4096"
  shows "\<exists>buf. run_encode (provider_entry w m handler) rs = Some (0, buf, length (wire rs)) \<and>
    buf_read buf 0 (length (wire rs)) = Some (wire rs)"
  using assms emit_fields_eq [OF assms(1), of 0 "replicate 4096 0" rs]
  by (auto simp: run_encode_def provider_entry_def RPC_MAX_RESULT_TLV_SIZE_def encode_result_def buf_write_def buf_read_def)

text \<open>A provider always answers: its generated functions never fault, when the parameters can be parsed
  and the result fits the response buffer.\<close>

lemma provider_returns:
  assumes w: "i32_writer_ok w" and own: "heap_owns (rheap s) A" and tc: "trans s t = Some tc"
    and hd: "\<And>v h A ps rc rs h' v'. heap_owns h A \<Longrightarrow> handler v h ps = Some (rc, rs, h', v') \<Longrightarrow> fields_ok A rs h'"
    and parse: "run_parse (provider_entry w m handler) (rheap s) tlvs = Some (rc, ps, h1)"
    and handle: "rc = 0 \<Longrightarrow> \<exists>rc2 rs h2 v. handler (world s) h1 ps = Some (rc2, rs, h2, v) \<and> (rc2 = 0 \<longrightarrow> length (wire rs) \<le> 4096)"
  shows "\<exists>s'. run_method s t q (provider_entry w m handler) tlvs = Some s'"
proof -
  let ?e = "provider_entry w m handler"
  have ok: "method_ok ?e" by (rule provider_ok [OF w]) (rule hd)
  have ps: "fields_ok A ps h1" by (rule method_okD(1) [OF ok own parse])
  then have h1: "heap_owns h1 (A \<union> set (ptrs ps))" by (simp add: fields_ok_def)
  obtain rc2 rs h2 v where r: "(if rc = 0 then run_handler ?e (world s) h1 ps else Some (0, [], h1, world s)) = Some (rc2, rs, h2, v)"
    "rc = 0 \<Longrightarrow> rc2 = 0 \<longrightarrow> length (wire rs) \<le> 4096" "fields_ok (A \<union> set (ptrs ps)) rs h2"
  proof (cases "rc = 0")
    case True
    from handle [OF this] obtain rc2 rs h2 v where x: "handler (world s) h1 ps = Some (rc2, rs, h2, v)" "rc2 = 0 \<longrightarrow> length (wire rs) \<le> 4096" by blast
    then show ?thesis using that [of rc2 rs h2 v] hd [OF h1 x(1)] True by (simp add: run_handler_def provider_entry_def)
  next
    case False
    then show ?thesis using that [of 0 "[]" h1 "world s"] h1 by (simp add: fields_ok_def)
  qed
  have send: "\<exists>r s3. rpc_send_response_tlv (s\<lparr>rheap := h2, world := v\<rparr>) t q st body = Some (r, s3) \<and>
      heap_owns (rheap s3) (A \<union> set (ptrs ps) \<union> set (ptrs rs))" if "length body \<le> 4096" for st body
  proof -
    have o: "heap_owns (rheap (s\<lparr>rheap := h2, world := v\<rparr>)) (A \<union> set (ptrs ps) \<union> set (ptrs rs))" using r(3) by (simp add: fields_ok_def)
    have "length (response_msg q st body) < 2 ^ 63" using that by (simp add: response_fields)
    from send_msg_total [OF o this, of tc] show ?thesis using o tc by (auto simp: rpc_send_response_tlv_def)
  qed
  have fr: "\<exists>h4 h5. free_param h3 ps = Some h4 \<and> free_result h4 rs = Some h5"
    if "heap_owns h3 (A \<union> set (ptrs ps) \<union> set (ptrs rs))" for h3
  proof -
    have "A \<union> set (ptrs ps) \<union> set (ptrs rs) = A \<union> set (ptrs rs) \<union> set (ptrs ps)" by blast
    then have "fields_ok (A \<union> set (ptrs rs)) ps h3" using that ps r(3) by (auto simp: fields_ok_def)
    from free_fields_ok [OF this] obtain h4 where h4: "free_fields h3 ps = Some h4" "heap_owns h4 (A \<union> set (ptrs rs))" by blast
    then have "fields_ok A rs h4" using r(3) by (auto simp: fields_ok_def)
    from free_fields_ok [OF this] h4(1) show ?thesis by (auto simp: free_param_def free_result_def)
  qed
  have free: "me_free_param ?e = Some free_param" "me_free_result ?e = Some free_result" by (simp_all add: provider_entry_def)
  have fin: "\<exists>s'. do { (r, s) \<leftarrow> rpc_send_response_tlv (s\<lparr>rheap := h2, world := v\<rparr>) t q st body;
      h \<leftarrow> run_free (me_free_param ?e) (rheap s) ps; h \<leftarrow> run_free (me_free_result ?e) h rs; Some (s\<lparr>rheap := h\<rparr>) } = Some s'"
    if "length body \<le> 4096" for st body
    using send [OF that, of st] fr unfolding free run_free_def by fastforce
  show ?thesis
  proof (cases "rc = 0 \<and> rc2 = 0")
    case True
    then have l: "length (wire rs) \<le> 4096" using r(2) by simp
    from provider_encode [OF w this, of m handler] obtain buf where
      "run_encode ?e rs = Some (0, buf, length (wire rs))" "buf_read buf 0 (length (wire rs)) = Some (wire rs)" by blast
    then show ?thesis using fin [OF l, of 0] True parse r(1) by (simp add: run_method_def Let_def rpc_status_defs)
  next
    case False
    then show ?thesis using fin [of "[]" 2] fin [of "[]" 3] parse r(1)
      by (cases "rc = 0"; cases "rc2 = 0") (simp_all add: run_method_def Let_def rpc_status_defs)
  qed
qed

text \<open>What a service promises: a function of the environment and the parameter values, to the result values or an
  error. A handler implements it at an environment and parameter values when, on every struct that the parser
  builds from these values, and with \<open>k\<close> bytes of room, it returns as the function says.\<close>

type_synonym 'w service = "'w \<Rightarrow> fval list \<Rightarrow> fval list option \<times> 'w"
type_synonym 'w handler = "'w \<Rightarrow> heap \<Rightarrow> field list \<Rightarrow> (int \<times> field list \<times> heap \<times> 'w) option"

definition respects_heap :: "'w handler \<Rightarrow> bool" where
  "respects_heap handler \<longleftrightarrow> (\<forall>v h A ps rc rs h' v'. heap_owns h A \<and> handler v h ps = Some (rc, rs, h', v') \<longrightarrow> fields_ok A rs h')"

definition implements :: "nat \<Rightarrow> rpc_schema \<Rightarrow> 'w handler \<Rightarrow> 'w service \<Rightarrow> 'w \<Rightarrow> fval list \<Rightarrow> bool" where
  "implements k m handler service w vs \<longleftrightarrow>
     (\<forall>h0 tlvs ps h A. parse_fields (params m) h0 tlvs = Some (0, ps, h) \<and> map val_of ps = vs \<and> heap_owns h A \<and> heap_room h k \<longrightarrow>
       (\<exists>rc rs h'. handler w h ps = Some (rc, rs, h', snd (service w vs)) \<and> heap_room h' 4300 \<and>
          (case fst (service w vs) of
             None \<Rightarrow> rc \<noteq> 0
           | Some vs' \<Rightarrow> rc = 0 \<and> wire rs = encode_list encode_val vs' \<and> length (encode_list encode_val vs') \<le> 4096)))"

text \<open>The answer to a request with the parameter bytes \<open>tlvs\<close>: status, payload and the environment afterwards.\<close>

definition reply :: "rpc_schema \<Rightarrow> 'w service \<Rightarrow> 'w \<Rightarrow> bytes \<Rightarrow> int \<times> bytes \<times> 'w" where
  "reply m service w tlvs =
     (case decode_list decode_val (params m) tlvs of
        None \<Rightarrow> (RPC_STATUS_INVALID_PARAMS, [], w)
      | Some (vs, rest) \<Rightarrow>
          (case service w vs of
             (None, v) \<Rightarrow> (RPC_STATUS_INTERNAL_ERROR, [], v)
           | (Some rs, v) \<Rightarrow> (RPC_STATUS_OK, encode_list encode_val rs, v)))"

lemma respects_heapD: "respects_heap handler \<Longrightarrow> heap_owns h A \<Longrightarrow> handler v h ps = Some (rc, rs, h', v') \<Longrightarrow> fields_ok A rs h'"
  unfolding respects_heap_def by blast

lemma handlers_respect_heap: "respects_heap fs_read_handler" "respects_heap shell_exec_handler"
  unfolding respects_heap_def using fs_read_own shell_exec_own by blast+

lemma send_response_world:
  assumes run: "rpc_send_response_tlv s t q st body = Some (r, s2)" and t: "trans s t = Some tc" "t_send tc = Some f" "t \<noteq> 0"
    and room: "heap_room (rheap s) (length body + 100)"
  shows "world s2 = snd (f (t_user tc) (response_msg q st body) (world s))"
proof -
  have l: "length (response_msg q st body) = 12 + length body" by (simp add: response_fields)
  have "length (response_msg q st body) + 64 \<le> length body + 100" unfolding l by simp
  from malloc_room [OF room this] obtain p h where "heap_malloc (rheap s) (length (response_msg q st body)) = Some (p, h)" "p \<noteq> 0" by blast
  then show ?thesis using run t by (auto simp: rpc_send_response_tlv_def send_msg_def split: bind_splits prod.splits)
qed

text \<open>The body of \<^verbatim>\<open>rpc_handle_request\<close> for a provider whose handler implements a service: it returns, and what it
  sends is the reply.\<close>

lemma run_provider:
  fixes s :: "'w rpc"
  assumes w: "i32_writer_ok wr" and own: "heap_owns (rheap s) A" and t: "trans s t = Some tc" "t_send tc = Some f" "t \<noteq> 0"
    and hr: "respects_heap handler" and room: "heap_room (rheap s) (9 * length tlvs + 100 + k)"
    and hd: "\<forall>vs rest. decode_list decode_val (params m) tlvs = Some (vs, rest) \<longrightarrow> implements k m handler service (world s) vs"
  shows "\<exists>s'. run_method s t q (provider_entry wr m handler) tlvs = Some s' \<and>
    (case reply m service (world s) tlvs of (st, body, v) \<Rightarrow> world s' = snd (f (t_user tc) (response_msg q st body) v))"
proof -
  let ?e = "provider_entry wr m handler"
  have "heap_room (rheap s) (9 * length tlvs + 64 + (36 + k))" using room by (simp add: algebra_simps)
  from parse_fields_room_left [OF this, of "params m"] obtain rc ps h1 where
    pf: "parse_fields (params m) (rheap s) tlvs = Some (rc, ps, h1)" "heap_room h1 (64 + (36 + k))" by blast
  then have rp: "run_parse ?e (rheap s) tlvs = Some (rc, ps, h1)" by (simp add: run_parse_def provider_entry_def rpc_param_parse_def)
  have dec: "case decode_list decode_val (params m) tlvs of None \<Rightarrow> rc = -1 | Some (vs, rest) \<Rightarrow> rc = 0 \<and> map val_of ps = vs"
    using parse_fields_decode [OF own, of "params m" tlvs] pf(1) by auto
  have h1: "heap_room h1 100" "heap_room h1 k" using heap_room_mono [OF pf(2)] by simp_all
  have out: "\<exists>rc2 rs h2. handler (world s) h1 ps = Some (rc2, rs, h2, snd (service (world s) vs)) \<and> heap_room h2 4300 \<and>
      (case fst (service (world s) vs) of None \<Rightarrow> rc2 \<noteq> 0
       | Some vs' \<Rightarrow> rc2 = 0 \<and> wire rs = encode_list encode_val vs' \<and> length (encode_list encode_val vs') \<le> 4096)"
    if d: "decode_list decode_val (params m) tlvs = Some (vs, rest)" for vs rest
  proof -
    have "implements k m handler service (world s) vs" using hd d by blast
    moreover have "parse_fields (params m) (rheap s) tlvs = Some (0, ps, h1)" "map val_of ps = vs" using pf(1) dec d by auto
    moreover have "heap_owns h1 (A \<union> set (ptrs ps))" using parse_fields_decode [OF own, of "params m" tlvs] pf(1) by (auto simp: fields_ok_def)
    ultimately show ?thesis using h1(2) unfolding implements_def by blast
  qed
  have "\<exists>s'. run_method s t q ?e tlvs = Some s'"
  proof (rule provider_returns [OF w own t(1) respects_heapD [OF hr] rp])
    assume "rc = 0"
    then obtain vs rest where d: "decode_list decode_val (params m) tlvs = Some (vs, rest)" using dec by (cases "decode_list decode_val (params m) tlvs") auto
    from out [OF d] obtain rc2 rs h2 where "handler (world s) h1 ps = Some (rc2, rs, h2, snd (service (world s) vs))"
      "case fst (service (world s) vs) of None \<Rightarrow> rc2 \<noteq> 0
       | Some vs' \<Rightarrow> rc2 = 0 \<and> wire rs = encode_list encode_val vs' \<and> length (encode_list encode_val vs') \<le> 4096" by blast
    then show "\<exists>rc2 rs h2 v. handler (world s) h1 ps = Some (rc2, rs, h2, v) \<and> (rc2 = 0 \<longrightarrow> length (wire rs) \<le> 4096)"
      by (cases "fst (service (world s) vs)") auto
  qed
  then obtain s' where s': "run_method s t q ?e tlvs = Some s'" by blast
  from run_method_answer [OF s'] rp obtain st body h2 v r s2 where
    snt: "rpc_send_response_tlv (s\<lparr>rheap := h2, world := v\<rparr>) t q st body = Some (r, s2)" "world s' = world s2" and
    d: "if rc \<noteq> 0 then st = RPC_STATUS_INVALID_PARAMS \<and> body = [] \<and> h2 = h1 \<and> v = world s
     else \<exists>rc2 rs. run_handler ?e (world s) h1 ps = Some (rc2, rs, h2, v) \<and>
       (if rc2 \<noteq> 0 then st = RPC_STATUS_INTERNAL_ERROR \<and> body = []
        else \<exists>rc3 buf n. run_encode ?e rs = Some (rc3, buf, n) \<and>
          (if rc3 \<noteq> 0 then st = RPC_STATUS_INTERNAL_ERROR \<and> body = []
           else st = RPC_STATUS_OK \<and> buf_read buf 0 n = Some body))" by auto
  have sent: "world s' = snd (f (t_user tc) (response_msg q st body) v)" if "heap_room h2 (length body + 100)"
    using send_response_world [OF snt(1)] snt(2) t that by simp
  show ?thesis
  proof (cases "decode_list decode_val (params m) tlvs")
    case None
    then have "rc \<noteq> 0" using dec by simp
    then show ?thesis using d sent h1(1) s' None by (simp add: reply_def)
  next
    case (Some x)
    obtain vs rest where x: "x = (vs, rest)" by fastforce
    note dc = Some [unfolded x]
    from out [OF dc] obtain rc2 rs h3 where h: "handler (world s) h1 ps = Some (rc2, rs, h3, snd (service (world s) vs))"
      "heap_room h3 4300" "case fst (service (world s) vs) of None \<Rightarrow> rc2 \<noteq> 0
       | Some vs' \<Rightarrow> rc2 = 0 \<and> wire rs = encode_list encode_val vs' \<and> length (encode_list encode_val vs') \<le> 4096" by blast
    have rh: "run_handler ?e (world s) h1 ps = Some (rc2, rs, h3, snd (service (world s) vs))"
      using h(1) by (simp add: run_handler_def provider_entry_def)
    have rc: "rc = 0" using dec dc by simp
    have e: "h2 = h3" "v = snd (service (world s) vs)" using d rc rh by auto
    show ?thesis
    proof (cases "fst (service (world s) vs)")
      case None
      then have "st = RPC_STATUS_INTERNAL_ERROR" "body = []" using d rc rh h(3) by auto
      then show ?thesis using sent e heap_room_mono [OF h(2), of 100] s' dc None by (auto simp: reply_def split: prod.splits option.splits)
    next
      case (Some vs')
      then have v: "rc2 = 0" "wire rs = encode_list encode_val vs'" "length (wire rs) \<le> 4096" using h(3) by simp_all
      from provider_encode [OF w v(3), of m handler] obtain buf where
        en: "run_encode ?e rs = Some (0, buf, length (wire rs))" "buf_read buf 0 (length (wire rs)) = Some (wire rs)" by blast
      then have b: "st = RPC_STATUS_OK" "body = wire rs" using d rc rh v(1) by auto
      then have "world s' = snd (f (t_user tc) (response_msg q st body) v)" using sent e heap_room_mono [OF h(2)] v(3) by simp
      then show ?thesis using s' dc Some b v(2) e(2) by (auto simp: reply_def split: prod.splits option.splits)
    qed
  qed
qed

text \<open>A request for a registered provider, from the message to the answer.\<close>

lemma provider_answers:
  fixes s :: "'w rpc"
  assumes w: "i32_writer_ok wr" and s: "rpc_idle s U" "method_of s (rpcname m) = Some (provider_entry wr m handler)"
    and t: "trans s t = Some tc" "t_send tc = Some f" and hr: "respects_heap handler"
    and nm: "0 < length (c_str (rpcname m))" "length (c_str (rpcname m)) < 128" "length (c_str (rpcname m)) + length tlvs < 2 ^ 32"
    and room: "heap_room (rheap s) (9 * length tlvs + 100 + k)"
    and hd: "\<forall>vs rest. decode_list decode_val (params m) tlvs = Some (vs, rest) \<longrightarrow> implements k m handler service (world s) vs"
  shows "\<exists>s'. rpc_dispatch_message s t (request_msg q (rpcname m) tlvs) = Some s' \<and> rpc_idle s' U \<and>
    (case reply m service (world s) tlvs of (st, body, v) \<Rightarrow> world s' = snd (f (t_user tc) (response_msg q st body) v))"
proof -
  let ?msg = "request_msg q (rpcname m) tlvs" and ?e = "provider_entry wr m handler"
  let ?s1 = "s\<lparr>rx_log := rx_log s @ [?msg]\<rparr>"
  have route: "rpc_dispatch_message s t ?msg = run_method ?s1 t q ?e tlvs" using request_routed [OF s(1) nm, of t q] s(2) by simp
  from s(1) obtain own where o: "rpc_inv s" "rpc_own own s" "owned own User = U" "\<not> rpc_locked s" by (rule rpc_idleE)
  have own: "heap_owns (rheap ?s1) (dom own)" using o(2) by (simp add: rpc_own_def)
  have t1: "trans ?s1 t = Some tc" "t \<noteq> 0" "heap_room (rheap ?s1) (9 * length tlvs + 100 + k)"
    "\<forall>vs rest. decode_list decode_val (params m) tlvs = Some (vs, rest) \<longrightarrow> implements k m handler service (world ?s1) vs"
    using rpc_own_objects(4) [OF o(2) t(1)] t(1) room hd by simp_all
  from run_provider [OF w own t1(1) t(2) t1(2) hr t1(3,4), of q] obtain s' where
    r: "rpc_dispatch_message s t ?msg = Some s'"
    "case reply m service (world s) tlvs of (st, body, v) \<Rightarrow> world s' = snd (f (t_user tc) (response_msg q st body) v)"
    unfolding route by auto
  note len = complete_request [OF nm(3), unfolded complete_def]
  from dispatch_ok [OF o(1,2) r(1) conjunct1 [OF len] conjunct2 [OF len]] have "rpc_idle s' U" using o(3,4) by (auto intro: rpc_idleI)
  with r show ?thesis by (intro exI [of _ s'] conjI)
qed

text \<open>The two services.\<close>

fun fs_read_service :: "os service" where
  "fs_read_service w [V_string path, V_u32 off, V_u32 n] =
     (case files w (c_str path) of
        Some (Regular content) \<Rightarrow>
          let data = take (unat n) (drop (unat off) content)
          in if length data = unat n then (Some [V_bytes data, V_u32 n, V_u32 0], w) else (None, w)
      | _ \<Rightarrow> (None, w))"
| "fs_read_service w _ = (None, w)"

fun shell_exec_service :: "os service" where
  "shell_exec_service w [V_string cmd] =
     (case shell w (c_str cmd) of
        None \<Rightarrow> (None, w)
      | Some (out, exitcode) \<Rightarrow> (Some [V_string (c_str (take 4095 out)), V_u32 (word_of_int exitcode)], w))"
| "shell_exec_service w _ = (None, w)"

lemma parsed_string_nonnull:
  assumes "parse_fields (T_string # ts) h b = Some (0, F_string a v # fs, h')"
  shows "a \<noteq> 0"
proof -
  from assms obtain r h1 where r: "tlv_read_string h b = Some (r, h1)" by (auto split: bind_splits)
  show ?thesis
  proof (cases r)
    case None
    then show ?thesis using assms r by simp
  next
    case (Some u)
    obtain used c x where "u = (used, c, x)" by (metis prod_cases3)
    then show ?thesis using assms r Some parse_string_nonnull [of h b used c x h1] by (auto split: bind_splits)
  qed
qed

lemma fs_read_implements:
  assumes n: "unat n \<le> 4079"
  shows "implements 8500 fs_read_schema fs_read_handler fs_read_service w [V_string path, V_u32 off, V_u32 n]"
  unfolding implements_def
proof (intro allI impI, elim conjE)
  fix h0 tlvs ps h A
  assume p: "parse_fields (params fs_read_schema) h0 tlvs = Some (0, ps, h)" "map val_of ps = [V_string path, V_u32 off, V_u32 n]"
    and own: "heap_owns h A" and k: "heap_room h 8500"
  from p(2) obtain a where ps: "ps = [F_string a path, F_u32 off, F_u32 n]" by auto
  have "parse_fields (T_string # [T_u32, T_u32]) h0 tlvs = Some (0, F_string a path # [F_u32 off, F_u32 n], h)" using p(1) ps by simp
  then have a: "a \<noteq> 0" by (rule parsed_string_nonnull)
  have "unat n + 64 \<le> 8500" "unat n < 2 ^ 63" using n by simp_all
  from malloc_room [OF k this(1)] hp.alloc_owns [OF own this(2)] obtain b h2 where
    b: "heap_malloc h (unat n) = Some (b, h2)" "b \<noteq> 0" "heap_room h2 (8500 - (unat n + 24))" "heap_owns h2 (insert b A)" by auto
  have r: "heap_room h2 4300" "heap_room h 4300" using heap_room_mono [OF b(3)] heap_room_mono [OF k] n by simp_all
  from hp.release_owns [OF b(4), of b] obtain h3 where f3: "heap_free h2 b = Some h3" by auto
  have r3: "heap_room h3 4300" by (rule free_room [OF b(4) _ r(1) f3]) simp
  let ?data = "\<lambda>content. take (unat n) (drop (unat off) content)"
  have run: "fs_read_handler w h ps = (case files w (c_str path) of
      Some (Regular content) \<Rightarrow>
        if length (?data content) = unat n then Some (0, [F_bytes b (?data content), F_u32 n, F_u32 0], h2, w)
        else Some (-1, zero_result fs_read_schema, h3, w)
    | _ \<Rightarrow> Some (-1, zero_result fs_read_schema, h, w))"
    using a b(1,2) f3 unfolding ps by (auto simp: Let_def split: option.splits os_file.splits)
  show "\<exists>rc rs h'. fs_read_handler w h ps = Some (rc, rs, h', snd (fs_read_service w [V_string path, V_u32 off, V_u32 n])) \<and>
    heap_room h' 4300 \<and> (case fst (fs_read_service w [V_string path, V_u32 off, V_u32 n]) of None \<Rightarrow> rc \<noteq> 0
     | Some vs' \<Rightarrow> rc = 0 \<and> wire rs = encode_list encode_val vs' \<and> length (encode_list encode_val vs') \<le> 4096)"
    using r r3 b(2) n unfolding run by (auto simp: Let_def split: option.splits os_file.splits)
qed

lemma shell_exec_implements:
  assumes n: "\<forall>out e. shell w (c_str cmd) = Some (out, e) \<longrightarrow> length (c_str (take 4095 out)) \<le> 4086"
  shows "implements 8500 shell_exec_schema shell_exec_handler shell_exec_service w [V_string cmd]"
  unfolding implements_def
proof (intro allI impI, elim conjE)
  fix h0 tlvs ps h A
  assume p: "parse_fields (params shell_exec_schema) h0 tlvs = Some (0, ps, h)" "map val_of ps = [V_string cmd]" and k: "heap_room h 8500"
  from p(2) obtain a where ps: "ps = [F_string a cmd]" by auto
  have "parse_fields (T_string # []) h0 tlvs = Some (0, F_string a cmd # [], h)" using p(1) ps by (simp add: shell_exec_schema_def)
  then have a: "a \<noteq> 0" by (rule parsed_string_nonnull)
  have k0: "heap_room h 4300" by (rule heap_room_mono [OF k]) simp
  show "\<exists>rc rs h'. shell_exec_handler w h ps = Some (rc, rs, h', snd (shell_exec_service w [V_string cmd])) \<and>
    heap_room h' 4300 \<and> (case fst (shell_exec_service w [V_string cmd]) of None \<Rightarrow> rc \<noteq> 0
     | Some vs' \<Rightarrow> rc = 0 \<and> wire rs = encode_list encode_val vs' \<and> length (encode_list encode_val vs') \<le> 4096)"
  proof (cases "shell w (c_str cmd)")
    case None
    then show ?thesis using a k0 unfolding ps by auto
  next
    case (Some oc)
    obtain out e where oc: "oc = (out, e)" by fastforce
    let ?buf = "take 4095 out"
    have l: "length (c_str ?buf) \<le> 4086" using n Some oc by blast
    have "length ?buf + 1 + 64 \<le> 8500" by simp
    from malloc_room [OF k this] obtain b h2 where b: "heap_malloc h (length ?buf + 1) = Some (b, h2)" "b \<noteq> 0"
      "heap_room h2 (8500 - (length ?buf + 1 + 24))" by blast
    have r: "heap_room h2 4300" by (rule heap_room_mono [OF b(3)]) simp
    have "shell_exec_handler w h ps = Some (0, [F_string b ?buf, F_u32 (word_of_int e)], h2, w)"
      using a b(1,2) Some oc unfolding ps by (simp add: Let_def)
    then show ?thesis using r l b(2) Some oc by simp
  qed
qed


section \<open>Blocks of the rest of the program\<close>

lemma idle_user_add:
  assumes s: "rpc_idle s U" and h: "\<And>A. heap_owns (rheap s) A \<Longrightarrow> heap_owns h (A \<union> X) \<and> A \<inter> X = {}"
  shows "rpc_idle (s\<lparr>rheap := h\<rparr>) (U \<union> X) \<and> U \<inter> X = {}"
proof -
  from s obtain own where o: "rpc_inv s" "rpc_own own s" "owned own User = U" "\<not> rpc_locked s" by (rule rpc_idleE)
  let ?own = "\<lambda>a. if a \<in> X then Some User else own a"
  have h': "heap_owns h (dom own \<union> X)" "dom own \<inter> X = {}" using h [of "dom own"] o(2) by (simp_all add: rpc_own_def)
  have d: "dom ?own = dom own \<union> X" by (auto simp: dom_def)
  have ow: "owned ?own o' = (if o' = User then U \<union> X else owned own o')" for o'
    using h'(2) o(3) by (auto simp: owned_def split: if_splits)
  have "rpc_own ?own (s\<lparr>rheap := h\<rparr>)" using o(2) h'(1) unfolding rpc_own_def d ow queue_addrs_def by simp
  moreover have "U \<inter> X = {}" using o(3) h'(2) by (auto simp: owned_def)
  ultimately show ?thesis using o ow by (auto intro: rpc_idleI)
qed

lemma idle_user_alloc:
  assumes s: "rpc_idle s U" and n: "n < 2 ^ 63" and m: "heap_malloc (rheap s) n = Some (p, h)" "p \<noteq> 0"
  shows "rpc_idle (s\<lparr>rheap := h\<rparr>) (insert p U) \<and> p \<notin> U"
proof -
  have "heap_owns h (A \<union> {p}) \<and> A \<inter> {p} = {}" if "heap_owns (rheap s) A" for A using hp.alloc_owns [OF that n] m by auto
  from idle_user_add [OF s this] show ?thesis by auto
qed

lemma idle_user_free:
  assumes s: "rpc_idle s (insert p U)" "p \<notin> U"
  shows "\<exists>h. heap_free (rheap s) p = Some h \<and> rpc_idle (s\<lparr>rheap := h\<rparr>) U"
proof -
  from s(1) obtain own where o: "rpc_inv s" "rpc_own own s" "owned own User = insert p U" "\<not> rpc_locked s" by (rule rpc_idleE)
  have p: "own p = Some User" using o(3) by (auto simp: owned_def)
  have "heap_owns (rheap s) (dom own)" using o(2) by (simp add: rpc_own_def)
  with p obtain h where h: "heap_free (rheap s) p = Some h" "heap_owns h (dom own - {p})" using hp.release_owns [of "rheap s" "dom own" p] by blast
  let ?own = "own(p := None)"
  have ow: "owned ?own o' = (if o' = User then U else owned own o')" for o'
    using o(3) p s(2) by (auto simp: owned_def split: if_splits)
  have "rpc_own ?own (s\<lparr>rheap := h\<rparr>)" using o(2) h(2) unfolding rpc_own_def ow queue_addrs_def by simp
  then have "rpc_idle (s\<lparr>rheap := h\<rparr>) U" using o ow [of User] by (intro rpc_idleI) simp_all
  then show ?thesis using h(1) by blast
qed

lemma idle_user_free2:
  assumes s: "rpc_idle s (insert q (insert p U))" "p \<notin> U" "q \<notin> U" "p \<noteq> q"
  shows "\<exists>h h'. heap_free (rheap s) p = Some h \<and> heap_free h q = Some h' \<and> rpc_idle (s\<lparr>rheap := h'\<rparr>) U"
proof -
  have "rpc_idle s (insert p (insert q U))" using s(1) by (simp add: insert_commute)
  from idle_user_free [OF this] s(2,4) obtain h where h: "heap_free (rheap s) p = Some h" "rpc_idle (s\<lparr>rheap := h\<rparr>) (insert q U)" by auto
  from idle_user_free [OF h(2) s(3)] h(1) show ?thesis by auto
qed

lemma idle_user_parse:
  assumes s: "rpc_idle s U" and p: "parse_fields ts (rheap s) b = Some (st, fs, h)"
  shows "rpc_idle (s\<lparr>rheap := h\<rparr>) (U \<union> set (ptrs fs)) \<and> U \<inter> set (ptrs fs) = {}"
proof (rule idle_user_add [OF s])
  fix A assume "heap_owns (rheap s) A"
  from parse_fields_decode [OF this, of ts b] p show "heap_owns h (A \<union> set (ptrs fs)) \<and> A \<inter> set (ptrs fs) = {}"
    by (auto simp: fields_ok_def)
qed

lemma decode_wire:
  assumes "\<forall>f \<in> set ps. sendable f" "map (type_of_val \<circ> val_of) ps = params m"
  shows "decode_list decode_val (params m) (wire ps) = Some (map val_of ps, [])"
  using tlv_codec.decode_encode [of "map val_of ps" "[]"] sendable_wires [OF assms(1)] unfolding assms(2) [symmetric] by simp

section \<open>Properties\<close>

text \<open>C9. A request for a registered method that the generator made, with a name of 1 to 127 bytes, is always answered, with exactly one response under
  the sequence number of the request: \<^verbatim>\<open>INVALID_PARAMS\<close> when the parameter bytes do not decode, and then the handler does
  not run; \<^verbatim>\<open>INTERNAL_ERROR\<close> when the service refuses the parameters; \<^verbatim>\<open>OK\<close> and the encoding of its results otherwise.
  Only an \<^verbatim>\<open>OK\<close> response has a payload. The environment changes as the service and the transport change it, no block
  stays allocated and the lock is free. The handler implements the service on the parameters that arrive and respects
  the blocks of others, the transport can send, and the heap has room for the parameters, for the handler and for the
  response.\<close>

theorem rpc_request_answered:
  fixes s :: "'w rpc"
  assumes "i32_writer_ok wr" "rpc_idle s U" "method_of s (rpcname m) = Some (provider_entry wr m handler)"
    and "trans s t = Some tc" "t_send tc = Some f" "respects_heap handler"
    and "0 < length (c_str (rpcname m))" "length (c_str (rpcname m)) < 128" "length (c_str (rpcname m)) + length tlvs < 2 ^ 32"
    and "heap_room (rheap s) (9 * length tlvs + 100 + k)"
    and "\<forall>vs rest. decode_list decode_val (params m) tlvs = Some (vs, rest) \<longrightarrow> implements k m handler service (world s) vs"
  shows "\<exists>s'. rpc_dispatch_message s t (request_msg q (rpcname m) tlvs) = Some s' \<and> rpc_idle s' U \<and>
    world s' = (case decode_list decode_val (params m) tlvs of
        None \<Rightarrow> snd (f (t_user tc) (response_msg q RPC_STATUS_INVALID_PARAMS []) (world s))
      | Some (vs, rest) \<Rightarrow> (case service (world s) vs of
          (None, v) \<Rightarrow> snd (f (t_user tc) (response_msg q RPC_STATUS_INTERNAL_ERROR []) v)
        | (Some rs, v) \<Rightarrow> snd (f (t_user tc) (response_msg q RPC_STATUS_OK (encode_list encode_val rs)) v)))"
  using provider_answers [OF assms, of q] by (auto simp: reply_def split: option.splits prod.splits)

text \<open>C19. The file service: a request for at most 4079 bytes of a file, with a path below 65536 bytes, is answered with exactly one response under its
  sequence number. When the file can be opened and positioned and has that many bytes at the offset, the response is
  \<^verbatim>\<open>OK\<close> with exactly these bytes, their number and the end flag 0; in every other case it is \<^verbatim>\<open>INTERNAL_ERROR\<close> without
  payload. The files are only read, and no block stays allocated. The heap has room for the request and the data.\<close>

theorem fs_read_serves:
  fixes s :: "os rpc"
  assumes "i32_writer_ok w" "rpc_idle s U" "method_of s (rpcname fs_read_schema) = Some (provider_entry w fs_read_schema fs_read_handler)"
    and "trans s t = Some tc" "t_send tc = Some f"
    and "c_str path = path" "length path < 65536" "unat n \<le> 4079" "heap_room (rheap s) (9 * length path + 9000)"
  shows "\<exists>s'. rpc_dispatch_message s t (request_msg q (rpcname fs_read_schema) (wire [F_string 1 path, F_u32 off, F_u32 n])) = Some s' \<and>
    rpc_idle s' U \<and>
    world s' = snd (f (t_user tc)
      (case files (world s) path of
         Some (Regular content) \<Rightarrow>
           let data = take (unat n) (drop (unat off) content)
           in if length data = unat n
              then response_msg q RPC_STATUS_OK (encode_list encode_val [V_bytes data, V_u32 n, V_u32 0])
              else response_msg q RPC_STATUS_INTERNAL_ERROR []
       | _ \<Rightarrow> response_msg q RPC_STATUS_INTERNAL_ERROR []) (world s))"
proof -
  let ?ps = "[F_string 1 path, F_u32 off, F_u32 n]"
  have lw: "length (wire ?ps) = length path + 17" using assms(6) by simp
  have l: "0 < length (c_str (rpcname fs_read_schema))" "length (c_str (rpcname fs_read_schema)) < 128"
    "length (c_str (rpcname fs_read_schema)) + length (wire ?ps) < 2 ^ 32" unfolding lw using assms(7) by simp_all
  have dc: "decode_list decode_val (params fs_read_schema) (wire ?ps) = Some ([V_string path, V_u32 off, V_u32 n], [])"
    using decode_wire [of ?ps fs_read_schema] assms(6,7) by simp
  have room: "heap_room (rheap s) (9 * length (wire ?ps) + 100 + 8500)" unfolding lw by (rule heap_room_mono [OF assms(9)]) simp
  have im: "\<forall>vs rest. decode_list decode_val (params fs_read_schema) (wire ?ps) = Some (vs, rest) \<longrightarrow>
      implements 8500 fs_read_schema fs_read_handler fs_read_service (world s) vs"
    using fs_read_implements [OF assms(8)] unfolding dc by simp
  let ?data = "\<lambda>content. take (unat n) (drop (unat off) content)"
  have "reply fs_read_schema fs_read_service (world s) (wire ?ps) = (case files (world s) path of
      Some (Regular content) \<Rightarrow> if length (?data content) = unat n
        then (RPC_STATUS_OK, encode_list encode_val [V_bytes (?data content), V_u32 n, V_u32 0], world s)
        else (RPC_STATUS_INTERNAL_ERROR, [], world s)
    | _ \<Rightarrow> (RPC_STATUS_INTERNAL_ERROR, [], world s))"
    unfolding reply_def dc using assms(6) by (simp add: Let_def split: option.split os_file.split)
  with provider_answers [OF assms(1-5) handlers_respect_heap(1) l room im, of q] show ?thesis
    by (cases "files (world s) path") (simp_all add: Let_def split: os_file.splits if_splits)
qed

text \<open>A node with one file and one transport.\<close>

definition demo_os :: os where
  "demo_os = \<lparr>files = [[0x61] \<mapsto> Regular [10, 20, 30, 40]], shell = Map.empty, socket = []\<rparr>"

definition demo_os_send :: "addr \<Rightarrow> bytes \<Rightarrow> os \<Rightarrow> u64 \<times> os" where
  "demo_os_send u b w = (1, w\<lparr>socket := socket w @ [b]\<rparr>)"

lemma node_up:
  fixes w :: os
  assumes m: "method_ok (provider_entry tlv_write_u32 m handler)"
  shows "\<exists>s t tc. rpc_reach demo_heap w s \<and> rpc_idle s {} \<and> trans s t = Some tc \<and> world s = w \<and> heap_room (rheap s) 1000000 \<and>
     t_send tc = Some sd \<and> transport_of s (rpcname m) = Some t \<and>
     method_of s (rpcname m) = Some (provider_entry tlv_write_u32 m handler)"
proof -
  let ?m = "provider_entry tlv_write_u32 m handler"
  have m: "method_ok ?m" "?m\<lparr>me_name := rpcname m\<rparr> = ?m" using m by (simp_all add: provider_entry_def)
  from init_room [OF demo_heap_owns demo_heap_room, of w 16 16 4] obtain s0 :: "os rpc" where
    s0: "rpc_init (rpc_static demo_heap w) 16 16 4 = Some s0" "rpc_idle s0 {}" "heap_room (rheap s0) 1036216" "world s0 = w" by auto
  from register_room [OF s0(2) m(1) s0(3), of "rpcname m"] obtain s1 where
    s1: "rpc_register_method s0 (Some (rpcname m)) ?m = Some s1" "rpc_idle s1 {}" "heap_room (rheap s1) 1036088"
    "method_of s1 (rpcname m) = Some ?m" "world s1 = w" using s0(4) m(2) by auto
  from create_room [OF s1(2,3), of "Some sd" "Some (\<lambda>u n w. (0, [], w))" None 0] obtain t s2 where
    s2: "rpc_trans_class_create s1 (Some sd) (Some (\<lambda>u n w. (0, [], w))) None 0 = Some (t, s2)" "rpc_idle s2 {}"
    "heap_room (rheap s2) 1036008" "trans s2 t = Some \<lparr>t_send = Some sd, t_recv = Some (\<lambda>u n w. (0, [], w)),
      t_close = None, t_user = 0, t_reasm = \<lparr>bufs = [], total_len = 0\<rparr>\<rparr>" "world s2 = w"
    using s1(5) by auto
  have m2: "method_of s2 = method_of s1"
    using trans_create_ok [OF s1(2), of "Some sd" "Some (\<lambda>u n w. (0, [], w))" None 0] s2(1) by (auto simp: same_view_def)
  have t: "t \<in> dom (trans s2)" using s2(4) by blast
  from bind_room [OF s2(2) t s2(3), of "rpcname m"] obtain s3 where
    s3: "rpc_bind_transport s2 (Some (rpcname m)) t = Some s3" "rpc_idle s3 {}" "heap_room (rheap s3) 1035912"
    "transport_of s3 (rpcname m) = Some t" "trans s3 = trans s2" "world s3 = world s2" by auto
  have m3: "method_of s3 = method_of s2" using bind_ok [OF s2(2) t, of "rpcname m"] s3(1) by (auto simp: same_view_def)
  have "rpc_reach demo_heap w s1" by (rule rpc_reach.register [OF rpc_reach.init [OF s0(1)] m(1) s1(1)])
  from rpc_reach.create [OF this s2(1)] have "rpc_reach demo_heap w s3" by (rule rpc_reach.bind [OF _ _ s3(1)]) (use t in simp)
  then show ?thesis using s3 s2 s1(4) m2 m3 heap_room_mono [OF s3(3), of 1000000] by (intro exI [of _ s3] exI [of _ t]) auto
qed

lemma demo_server:
  "\<exists>s t tc. rpc_reach demo_heap demo_os s \<and> rpc_idle s {} \<and> trans s t = Some tc \<and> world s = demo_os \<and> heap_room (rheap s) 1000000 \<and>
     t_send tc = Some demo_os_send \<and> transport_of s demo_name = Some t \<and>
     method_of s demo_name = Some (provider_entry tlv_write_u32 fs_read_schema fs_read_handler)"
  using node_up [OF providers_ok(1) [OF i32_as_u32], of demo_os demo_os_send] by simp

lemma demo_request:
  "decode_list decode_val [T_string, T_u32, T_u32] [2, 1, 0, 0x62, 1, 4, 0, 1, 0, 0, 0, 1, 4, 0, 2, 0, 0, 0] =
     Some ([V_string [0x62], V_u32 1, V_u32 2], [])"
  by code_simp

text \<open>A file that is not there.\<close>

theorem rpc_request_answered_witness:
  "\<exists>s t s'. rpc_reach demo_heap demo_os s \<and>
     rpc_dispatch_message s t (request_msg 9 demo_name [2, 1, 0, 0x62, 1, 4, 0, 1, 0, 0, 0, 1, 4, 0, 2, 0, 0, 0]) = Some s' \<and>
     socket (world s') = [response_msg 9 RPC_STATUS_INTERNAL_ERROR []]"
proof -
  let ?tlvs = "[2, 1, 0, 0x62, 1, 4, 0, 1, 0, 0, 0, 1, 4, 0, 2, 0, 0, 0] :: bytes" and ?vs = "[V_string [0x62], V_u32 1, V_u32 2]"
  from demo_server obtain s t tc where s: "rpc_reach demo_heap demo_os s" "rpc_idle s {}" "trans s t = Some tc" "world s = demo_os"
    "heap_room (rheap s) 1000000" "t_send tc = Some demo_os_send"
    "method_of s (rpcname fs_read_schema) = Some (provider_entry tlv_write_u32 fs_read_schema fs_read_handler)" by auto
  have r: "heap_room (rheap s) (9 * length ?tlvs + 100 + 8500)" by (rule heap_room_mono [OF s(5)]) simp
  have im: "\<forall>vs rest. decode_list decode_val (params fs_read_schema) ?tlvs = Some (vs, rest) \<longrightarrow>
      implements 8500 fs_read_schema fs_read_handler fs_read_service (world s) vs"
    using demo_request fs_read_implements [of 2 "world s" "[0x62]" 1] by simp
  have sv: "fs_read_service demo_os ?vs = (None, demo_os)" by (simp add: demo_os_def c_str_def)
  from rpc_request_answered [OF i32_as_u32 s(2,7,3,6) handlers_respect_heap(1) _ _ _ r im, of 9] obtain s' where
    "rpc_dispatch_message s t (request_msg 9 demo_name ?tlvs) = Some s'"
    "world s' = snd (demo_os_send (t_user tc) (response_msg 9 RPC_STATUS_INTERNAL_ERROR []) demo_os)"
    using demo_request s(4) sv by auto
  moreover from this(2) have "socket (world s') = [response_msg 9 RPC_STATUS_INTERNAL_ERROR []]" by (simp add: demo_os_send_def demo_os_def)
  ultimately show ?thesis using s(1) by blast
qed

theorem fs_read_serves_witness:
  "\<exists>s t s'. rpc_reach demo_heap demo_os s \<and>
     rpc_dispatch_message s t (request_msg 5 demo_name (wire [F_string 1 [0x61], F_u32 1, F_u32 2])) = Some s' \<and>
     socket (world s') = [response_msg 5 RPC_STATUS_OK (encode_list encode_val [V_bytes [20, 30], V_u32 2, V_u32 0])]"
proof -
  from demo_server obtain s t tc where s: "rpc_reach demo_heap demo_os s" "rpc_idle s {}" "trans s t = Some tc" "world s = demo_os"
    "heap_room (rheap s) 1000000" "t_send tc = Some demo_os_send"
    "method_of s (rpcname fs_read_schema) = Some (provider_entry tlv_write_u32 fs_read_schema fs_read_handler)" by auto
  have c: "c_str [0x61] = [0x61 :: u8]" "length [0x61 :: u8] < 65536" "unat (2 :: u32) \<le> 4079" by (simp_all add: c_str_def)
  have r: "heap_room (rheap s) (9 * length [0x61 :: u8] + 9000)" by (rule heap_room_mono [OF s(5)]) simp
  have fl: "files demo_os [0x61] = Some (Regular [10, 20, 30, 40])" by (simp add: demo_os_def)
  from fs_read_serves [OF i32_as_u32 s(2,7,3,6) c r, where off = 1 and q = 5] obtain s' where
    "rpc_dispatch_message s t (request_msg 5 demo_name (wire [F_string 1 [0x61], F_u32 1, F_u32 2])) = Some s'"
    "world s' = snd (demo_os_send (t_user tc) (response_msg 5 RPC_STATUS_OK (encode_list encode_val [V_bytes [20, 30], V_u32 2, V_u32 0])) demo_os)"
    unfolding s(4) fl by (auto simp del: wire_simps' encode_list_simps encode_val.simps)
  moreover from this(2) have "socket (world s') = [response_msg 5 RPC_STATUS_OK (encode_list encode_val [V_bytes [20, 30], V_u32 2, V_u32 0])]"
    by (simp add: demo_os_send_def demo_os_def del: encode_list_simps encode_val.simps)
  ultimately show ?thesis using s(1) by blast
qed

end
