(* ===== verification/Stubs.thy ===== *)
theory Stubs
  imports Services
begin

text \<open>
  Calls through the generated client stubs of \<^verbatim>\<open>ccrpc/source/rpc_gen.c\<close>, from the arguments to the result
  struct: what a stub returns, which blocks it leaves in the heap, and that it returns when the heap has room.
\<close>

section \<open>The core part of a call\<close>

text \<open>The environment of a stub call whose response, with status \<^verbatim>\<open>OK\<close> and the given payload, arrives
  while the caller waits.\<close>

definition answer_with :: "addr \<Rightarrow> bytes \<Rightarrow> 'w rpc \<Rightarrow> addr \<Rightarrow> (int \<times> 'w rpc) option" where
  "answer_with t payload s a = do {
     pc \<leftarrow> calls s a;
     s \<leftarrow> rpc_dispatch_message s t (response_msg (pc_seq pc) RPC_STATUS_OK payload);
     Some (0, s) }"

text \<open>An environment that answers the call of \<open>name\<close> with the arguments \<open>tlvs\<close> from a state that is \<open>s\<close> up to its heap:
  the response with the payload arrives at the transport \<open>t\<close>.\<close>

definition answers :: "('w rpc \<Rightarrow> addr \<Rightarrow> (int \<times> 'w rpc) option) \<Rightarrow> 'w rpc \<Rightarrow> bytes \<Rightarrow> bytes \<Rightarrow> addr \<Rightarrow> bytes \<Rightarrow> bool" where
  "answers wait s name tlvs t payload \<longleftrightarrow> (\<forall>h s1 a q.
     call_started (s\<lparr>rheap := h\<rparr>) s1 a name tlvs (Some (replicate 4096 0)) (Some 4096) \<longrightarrow>
     calls s1 a = Some (new_call q (Some (replicate 4096 0)) (Some 4096)) \<longrightarrow>
     wait s1 a = map_option (Pair 0) (rpc_dispatch_message s1 t (response_msg q 0 payload)))"

lemma answers_with: "answers (answer_with t payload) s name tlvs t payload"
  by (auto simp: answers_def answer_with_def new_call_def RPC_STATUS_OK_def map_option_case Option.bind_eq_Some_conv split: option.split)

lemma answers_heap: "answers wait s name tlvs t payload \<Longrightarrow> answers wait (s\<lparr>rheap := h\<rparr>) name tlvs t payload"
  by (simp add: answers_def)

lemma answersD:
  assumes "answers wait s name tlvs t payload" "call_started s s1 a name tlvs (Some (replicate 4096 0)) (Some 4096)"
    "calls s1 a = Some (new_call q (Some (replicate 4096 0)) (Some 4096))"
  shows "wait s1 a = map_option (Pair 0) (rpc_dispatch_message s1 t (response_msg q 0 payload))"
proof -
  have "call_started (s\<lparr>rheap := rheap s\<rparr>) s1 a name tlvs (Some (replicate 4096 0)) (Some 4096)" using assms(2) by simp
  then show ?thesis using assms(1,3) unfolding answers_def by blast
qed

text \<open>The core part of a stub call.\<close>

lemma call_answered:
  assumes s: "rpc_idle s U" "length (c_str name) + length tlvs < 2 ^ 32" and p: "length payload \<le> 4096"
    and ans: "answers wait s name tlvs t payload"
    and run: "rpc_call_with_tlv wait s (Some name) tlvs (Some (replicate 4096 0)) (Some 4096) wok = Some (st, n, out, s')"
  shows "st < 0 \<and> rpc_idle s' U \<and> pending_of s' = pending_of s \<or>
    st = 0 \<and> n = Some (length payload) \<and> out = Some (payload @ drop (length payload) (replicate 4096 0)) \<and> rpc_idle s' U \<and>
      pending_of s' = pending_of s"
proof -
  have out: "out_ok (Some (replicate 4096 0)) (Some 4096)" by (simp add: out_ok_def)
  from run obtain r s1 where b: "rpc_call_begin s (Some name) tlvs (Some (replicate 4096 0)) (Some 4096) wok = Some (r, s1)"
    by (auto simp: rpc_call_with_tlv_def split: bind_splits)
  show ?thesis
  proof (cases r)
    case (Inl st')
    have "st' < 0 \<and> rpc_idle s1 U \<and> pending_of s1 = pending_of s"
    proof (cases "transport_of s name")
      case None
      then show ?thesis using call_begin_no_transport [OF s(1) None] b Inl s(1) by simp
    next
      case (Some t')
      from call_begin_ok [OF s(1) Some out s(2), of wok] b Inl show ?thesis by (auto simp: same_view_def)
    qed
    then show ?thesis using run b Inl by (simp add: rpc_call_with_tlv_def)
  next
    case (Inr a)
    have l: "(4096 :: nat) \<le> length (replicate 4096 (0 :: u8))" "(0 :: int) \<le> 0" "(0 :: int) < 2 ^ 16" "length payload < 2 ^ 32" using p by simp_all
    from call_roundtrip [OF s(1) l(1) s(2) b [unfolded Inr] l(2-4), of t] obtain q s2 s3 where
      c: "call_started s s1 a name tlvs (Some (replicate 4096 0)) (Some 4096)"
      "calls s1 a = Some (new_call q (Some (replicate 4096 0)) (Some 4096))"
      "rpc_dispatch_message s1 t (response_msg q 0 payload) = Some s2"
      "rpc_call_finish s2 a 0 (Some 4096) = Some (0, Some (length payload), Some (payload @ drop (length payload) (replicate 4096 0)), s3)"
      "rpc_idle s3 U" "pending_of s3 = pending_of s" using p by auto
    then show ?thesis using run b Inr answersD [OF ans c(1,2)] by (simp add: rpc_call_with_tlv_def)
  qed
qed

lemma stub_buffers:
  assumes w: "i32_writer_ok w" and s: "rpc_idle s U" and n: "estimate_size 0 ps < 2 ^ 31"
    and run: "rpc_call_stub w wait s m ps wok = Some (st, r, s')"
  shows "(st = -1 \<and> r = None \<and> rpc_idle s' U \<and> pending_of s' = pending_of s) \<or>
    (\<exists>p q h st1 n out s1. p \<noteq> q \<and> p \<notin> U \<and> q \<notin> U \<and> rpc_idle (s\<lparr>rheap := h\<rparr>) (insert q (insert p U)) \<and>
      rpc_call_with_tlv wait (s\<lparr>rheap := h\<rparr>) (Some (rpcname m)) (wire ps)
        (Some (replicate 4096 0)) (Some 4096) wok = Some (st1, n, out, s1) \<and>
      stub_tail m st1 n out s1 p q = Some (st, r, s'))"
proof -
  have n63: "estimate_size 0 ps < 2 ^ 63" "(4096 :: nat) < 2 ^ 63" using n by simp_all
  note R = RPC_RESP_BUF_SIZE_def
  from s n63(1) show ?thesis
  proof (cases rule: idle_alloc)
    case (null h)
    then show ?thesis using run by (auto simp: rpc_call_stub_def Let_def)
  next
    case (fresh p h own)
    from idle_user_alloc [OF s n63(1) fresh(1,2)] have i1: "rpc_idle (s\<lparr>rheap := h\<rparr>) (insert p U)" "p \<notin> U" by simp_all
    obtain buf where buf: "emit_fields w (replicate (estimate_size 0 ps) 0) 0 ps = Some (buf, length (wire ps))"
      "buf_read buf 0 (length (wire ps)) = Some (wire ps)"
      using emit_fields_eq [OF w, of 0 "replicate (estimate_size 0 ps) 0" ps] wire_le_estimate [of ps] by (simp add: buf_write_def buf_read_def)
    from i1(1) n63(2) show ?thesis
    proof (cases rule: idle_alloc)
      case (null h2)
      then have "heap_malloc h 4096 = Some (0, h2)" "rpc_idle (s\<lparr>rheap := h2\<rparr>) (insert p U)" by simp_all
      with idle_user_free [of "s\<lparr>rheap := h2\<rparr>" p U] i1(2) obtain h3 where "heap_free h2 p = Some h3" "rpc_idle (s\<lparr>rheap := h3\<rparr>) U" by auto
      then show ?thesis using run fresh(1,2) buf \<open>heap_malloc h 4096 = Some (0, h2)\<close> by (auto simp: rpc_call_stub_def Let_def R)
    next
      case f2: (fresh q h2 own2)
      then have m2: "heap_malloc (rheap (s\<lparr>rheap := h\<rparr>)) 4096 = Some (q, h2)" "q \<noteq> 0" by simp_all
      from idle_user_alloc [OF i1(1) n63(2) m2] have i2: "rpc_idle (s\<lparr>rheap := h2\<rparr>) (insert q (insert p U))" "q \<noteq> p" "q \<notin> U" by auto
      have "rpc_call_stub w wait s m ps wok = do {
          (st, len, out, s) \<leftarrow> rpc_call_with_tlv wait (s\<lparr>rheap := h2\<rparr>) (Some (rpcname m)) (wire ps)
            (Some (replicate 4096 0)) (Some 4096) wok;
          stub_tail m st len out s p q }"
        using fresh(1,2) buf m2 by (simp add: rpc_call_stub_def Let_def R)
      with run obtain st1 n1 out s1 where
        "rpc_call_with_tlv wait (s\<lparr>rheap := h2\<rparr>) (Some (rpcname m)) (wire ps) (Some (replicate 4096 0)) (Some 4096) wok = Some (st1, n1, out, s1)"
        "stub_tail m st1 n1 out s1 p q = Some (st, r, s')"
        by (auto simp: bind_eq_Some_conv)
      then show ?thesis using i2 i1(2)
        by (intro disjI2 exI [of _ p] exI [of _ q] exI [of _ h2] exI [of _ st1] exI [of _ n1] exI [of _ out] exI [of _ s1]) simp
    qed
  qed
qed

section \<open>What a stub returns\<close>

lemma stub_roundtrip:
  fixes s :: "'w rpc"
  assumes "i32_writer_ok w" "rpc_idle s U" "estimate_size 0 ps < 2 ^ 31" "length (c_str (rpcname m)) < 2 ^ 31"
    and "\<forall>v \<in> set vs. val_ok v" "map type_of_val vs = results m" "length (encode_list encode_val vs) \<le> 4096"
    and "answers wait s (rpcname m) (wire ps) t (encode_list encode_val vs)"
    and "rpc_call_stub w wait s m ps wok = Some (st, r, s')"
  shows "st < 0 \<and> r = None \<and> rpc_idle s' U \<and> pending_of s' = pending_of s \<or>
    (\<exists>rs. st = 0 \<and> r = Some rs \<and> map val_of rs = vs \<and> rpc_idle s' (U \<union> set (ptrs rs)) \<and> U \<inter> set (ptrs rs) = {} \<and>
       pending_of s' = pending_of s)"
proof -
  let ?pl = "encode_list encode_val vs" and ?n = "estimate_size 0 ps"
  from stub_buffers [OF assms(1-3,9)] show ?thesis
  proof
    assume "st = -1 \<and> r = None \<and> rpc_idle s' U \<and> pending_of s' = pending_of s"
    then show ?thesis by simp
  next
    assume "\<exists>p q h st1 n out s1. p \<noteq> q \<and> p \<notin> U \<and> q \<notin> U \<and> rpc_idle (s\<lparr>rheap := h\<rparr>) (insert q (insert p U)) \<and>
      rpc_call_with_tlv wait (s\<lparr>rheap := h\<rparr>) (Some (rpcname m)) (wire ps)
        (Some (replicate 4096 0)) (Some 4096) wok = Some (st1, n, out, s1) \<and>
      stub_tail m st1 n out s1 p q = Some (st, r, s')"
    then obtain p q h st1 n out s1 where pq: "p \<noteq> q" "p \<notin> U" "q \<notin> U" "rpc_idle (s\<lparr>rheap := h\<rparr>) (insert q (insert p U))"
      and call: "rpc_call_with_tlv wait (s\<lparr>rheap := h\<rparr>) (Some (rpcname m)) (wire ps)
        (Some (replicate 4096 0)) (Some 4096) wok = Some (st1, n, out, s1)"
      and tail: "stub_tail m st1 n out s1 p q = Some (st, r, s')" by blast
    have l: "length (c_str (rpcname m)) + length (wire ps) < 2 ^ 32" using assms(3,4) wire_le_estimate [of ps] by simp
    from call_answered [OF pq(4) l assms(7) answers_heap [OF assms(8)] call] show ?thesis
    proof
      assume e: "st1 < 0 \<and> rpc_idle s1 (insert q (insert p U)) \<and> pending_of s1 = pending_of (s\<lparr>rheap := h\<rparr>)"
      then have "rpc_idle s1 (insert q (insert p U))" by blast
      from idle_user_free2 [OF this pq(2,3,1)] tail e show ?thesis by (auto simp: stub_tail_def)
    next
      assume e: "st1 = 0 \<and> n = Some (length ?pl) \<and> out = Some (?pl @ drop (length ?pl) (replicate 4096 0)) \<and>
        rpc_idle s1 (insert q (insert p U)) \<and> pending_of s1 = pending_of (s\<lparr>rheap := h\<rparr>)"
      have rd: "buf_read (?pl @ drop (length ?pl) (replicate 4096 0)) 0 (length ?pl) = Some ?pl" using assms(7) by (simp add: buf_read_def)
      from tail e rd obtain st2 rs h2 where p2: "parse_fields (results m) (rheap s1) ?pl = Some (st2, rs, h2)"
        by (auto simp: stub_tail_def rpc_result_parse_def split: bind_splits)
      from e obtain own where "rpc_own own s1" by (auto elim: rpc_idleE)
      then have o: "heap_owns (rheap s1) (dom own)" by (simp add: rpc_own_def)
      have "decode_list decode_val (results m) ?pl = Some (vs, [])"
        using tlv_codec.decode_encode [of vs "[]"] assms(5,6) by simp
      with parse_fields_decode [OF o, of "results m" ?pl] p2 have v: "st2 = 0" "map val_of rs = vs" by auto
      from idle_user_parse [OF _ p2, of "insert q (insert p U)"] e have
        i: "rpc_idle (s1\<lparr>rheap := h2\<rparr>) (insert q (insert p (U \<union> set (ptrs rs))))" "insert q (insert p U) \<inter> set (ptrs rs) = {}" by auto
      from idle_user_free2 [OF i(1)] pq i(2) obtain h3 h4 where
        f: "heap_free h2 p = Some h3" "heap_free h3 q = Some h4" "rpc_idle (s1\<lparr>rheap := h4\<rparr>) (U \<union> set (ptrs rs))" by auto
      then have "st = 0 \<and> r = Some rs \<and> s' = s1\<lparr>rheap := h4\<rparr>" using tail e rd p2 v(1) by (simp add: stub_tail_def rpc_result_parse_def)
      then show ?thesis using v(2) f(3) i(2) e by auto
    qed
  qed
qed

text \<open>With room in the heap and a transport that sends, a stub whose request is answered returns 0.\<close>

lemma stub_runs:
  fixes s :: "'w rpc"
  assumes w: "i32_writer_ok w" and s: "rpc_idle s U" and t: "transport_of s (rpcname m) = Some t" "trans s t = Some tc"
    and f: "t_send tc = Some f" "\<forall>q v. 0 \<le> to_int (fst (f (t_user tc) (request_msg q (rpcname m) (wire ps)) v))"
    and ans: "answers wait s (rpcname m) (wire ps) t' (encode_list encode_val vs)"
    and vs: "\<forall>v \<in> set vs. val_ok v" "map type_of_val vs = results m" "length (encode_list encode_val vs) \<le> 4096"
    and room: "heap_room (rheap s) k" "42000 + 2 * estimate_size 0 ps + length (c_str (rpcname m)) \<le> k" "k < 2 ^ 31"
  shows "\<exists>rs s' h h'. rpc_call_stub w wait s m ps True = Some (0, Some rs, s') \<and>
    parse_fields (results m) h (encode_list encode_val vs) = Some (0, rs, h')"
proof -
  let ?pl = "encode_list encode_val vs" and ?n = "estimate_size 0 ps" and ?name = "rpcname m"
  have n: "?n + 64 \<le> k" "?n < 2 ^ 63" "length (wire ps) \<le> ?n" using room(2,3) wire_le_estimate [of ps] by simp_all
  from malloc_room [OF room(1) n(1)] obtain p h where
    p: "heap_malloc (rheap s) ?n = Some (p, h)" "p \<noteq> 0" "heap_room h (k - (?n + 24))" by blast
  from idle_user_alloc [OF s n(2) p(1,2)] have i1: "rpc_idle (s\<lparr>rheap := h\<rparr>) (insert p U)" "p \<notin> U" by simp_all
  have "4096 + 64 \<le> k - (?n + 24)" using room(2) by simp
  from malloc_room [OF p(3) this] obtain q h2 where
    q: "heap_malloc h 4096 = Some (q, h2)" "q \<noteq> 0" "heap_room h2 (k - (?n + 24) - 4120)" by auto
  let ?s2 = "s\<lparr>rheap := h2\<rparr>"
  have m2: "heap_malloc (rheap (s\<lparr>rheap := h\<rparr>)) 4096 = Some (q, h2)" using q by simp
  from idle_user_alloc [OF i1(1) _ m2 q(2)] have i2: "rpc_idle ?s2 (insert q (insert p U))" "q \<noteq> p" "q \<notin> U" by simp_all
  have c: "transport_of ?s2 ?name = Some t" "trans ?s2 t = Some tc" "heap_room (rheap ?s2) (k - (?n + 24) - 4120)" using t q by simp_all
  have l: "length (c_str ?name) + length (wire ps) < 2 ^ 32"
    "300 + length (c_str ?name) + length (wire ps) \<le> k - (?n + 24) - 4120"
    using room(2,3) n(3) by simp_all
  from call_begin_accepted [OF i2(1) c(1,2) f l(1) c(3) l(2)] obtain a s3 where
    b: "rpc_call_begin ?s2 (Some ?name) (wire ps) (Some (replicate 4096 0)) (Some 4096) True = Some (Inr a, s3)"
    "heap_room (rheap s3) (k - (?n + 24) - 4120 - (200 + length (c_str ?name) + length (wire ps)))" by blast
  have d: "(4096 :: nat) \<le> length (replicate 4096 (0 :: u8))" "(0 :: int) \<le> 0" "(0 :: int) < 2 ^ 16" "length ?pl < 2 ^ 32"
    using vs(3) by simp_all
  from call_roundtrip [OF i2(1) d(1) l(1) b(1) d(2-4), of t'] obtain q' s4 s5 where
    r0: "call_started ?s2 s3 a ?name (wire ps) (Some (replicate 4096 0)) (Some 4096)" and
    r: "calls s3 a = Some (new_call q' (Some (replicate 4096 0)) (Some 4096))" "rpc_dispatch_message s3 t' (response_msg q' 0 ?pl) = Some s4"
    "rpc_call_finish s4 a 0 (Some 4096) = Some (0, Some (length ?pl), Some (?pl @ drop (length ?pl) (replicate 4096 0)), s5)"
    "rpc_idle s5 (insert q (insert p U))" "rpc_idle s4 (insert q (insert p U))" "rheap s4 = rheap s3" using vs(3) by (auto simp: min_absorb1)
  have ar: "9 * length ?pl + 64 \<le> k - (?n + 24) - 4120 - (200 + length (c_str ?name) + length (wire ps))"
    using room(2) n(3) vs(3) by linarith
  have room5: "heap_room (rheap s5) (9 * length ?pl + 64)"
    by (rule heap_room_mono [OF call_finish_room [OF r(5) _ r(3)] ar]) (use b(2) r(6) in simp)
  have call: "rpc_call_with_tlv wait ?s2 (Some ?name) (wire ps) (Some (replicate 4096 0)) (Some 4096) True =
      Some (0, Some (length ?pl), Some (?pl @ drop (length ?pl) (replicate 4096 0)), s5)"
    using b(1) r(1-3) answersD [OF answers_heap [OF ans] r0 r(1)] by (simp add: rpc_call_with_tlv_def)
  from r(4) obtain own where "rpc_own own s5" by (rule rpc_idleE)
  then have o: "heap_owns (rheap s5) (dom own)" by (simp add: rpc_own_def)
  obtain st rs h6 where ps: "parse_fields (results m) (rheap s5) ?pl = Some (st, rs, h6)" using parse_fields_room [OF room5, of "results m"] by auto
  have "decode_list decode_val (results m) ?pl = Some (vs, [])" using tlv_codec.decode_encode [of vs "[]"] vs(1,2) by simp
  with parse_fields_decode [OF o, of "results m" ?pl] ps have v: "st = 0" by auto
  from idle_user_parse [OF r(4) ps] have i6: "rpc_idle (s5\<lparr>rheap := h6\<rparr>) (insert q (insert p (U \<union> set (ptrs rs))))" "p \<notin> set (ptrs rs)"
    "q \<notin> set (ptrs rs)" by auto
  from idle_user_free2 [OF i6(1)] i1(2) i2(2,3) i6(2,3) obtain h7 h8 where fr: "heap_free h6 p = Some h7" "heap_free h7 q = Some h8" by auto
  have rd: "buf_read (?pl @ drop (length ?pl) (replicate 4096 0)) 0 (length ?pl) = Some ?pl" using vs(3) by (simp add: buf_read_def)
  have tail: "stub_tail m 0 (Some (length ?pl)) (Some (?pl @ drop (length ?pl) (replicate 4096 0))) s5 p q = Some (0, Some rs, s5\<lparr>rheap := h8\<rparr>)"
    using fr rd ps [folded rpc_result_parse_def] v by (simp add: stub_tail_def)
  obtain buf where buf: "emit_fields w (replicate ?n 0) 0 ps = Some (buf, length (wire ps))" "buf_read buf 0 (length (wire ps)) = Some (wire ps)"
    using emit_fields_eq [OF w, of 0 "replicate ?n 0" ps] n(3) by (simp add: buf_write_def buf_read_def)
  have "rpc_call_stub w wait s m ps True = Some (0, Some rs, s5\<lparr>rheap := h8\<rparr>)"
    using p(1,2) q(1,2) call tail buf by (simp add: rpc_call_stub_def Let_def RPC_RESP_BUF_SIZE_def)
  then show ?thesis using ps v by blast
qed

lemma stub_answered:
  fixes s :: "'w rpc"
  assumes "i32_writer_ok w" "rpc_idle s U" "transport_of s (rpcname m) = Some t" "trans s t = Some tc"
    and "t_send tc = Some f" "\<forall>q v. 0 \<le> to_int (fst (f (t_user tc) (request_msg q (rpcname m) (wire ps)) v))"
    and "answers wait s (rpcname m) (wire ps) t' (encode_list encode_val vs)"
    and "\<forall>v \<in> set vs. val_ok v" "map type_of_val vs = results m" "length (encode_list encode_val vs) \<le> 4096"
    and "heap_room (rheap s) k" "42000 + 2 * estimate_size 0 ps + length (c_str (rpcname m)) \<le> k" "k < 2 ^ 31"
  shows "\<exists>rs s'. rpc_call_stub w wait s m ps True = Some (0, Some rs, s') \<and>
    map val_of rs = vs \<and> rpc_idle s' (U \<union> set (ptrs rs)) \<and> U \<inter> set (ptrs rs) = {} \<and> pending_of s' = pending_of s \<and>
    (\<exists>h h'. parse_fields (results m) h (encode_list encode_val vs) = Some (0, rs, h'))"
proof -
  have n: "estimate_size 0 ps < 2 ^ 31" "length (c_str (rpcname m)) < 2 ^ 31" using assms(12,13) by simp_all
  from stub_runs [OF assms] obtain rs s' h h' where
    r: "rpc_call_stub w wait s m ps True = Some (0, Some rs, s')"
    "parse_fields (results m) h (encode_list encode_val vs) = Some (0, rs, h')" by blast
  from stub_roundtrip [OF assms(1,2) n assms(8-10,7) r(1)] have "map val_of rs = vs \<and> rpc_idle s' (U \<union> set (ptrs rs)) \<and>
    U \<inter> set (ptrs rs) = {} \<and> pending_of s' = pending_of s" by auto
  with r show ?thesis by blast
qed

section \<open>Properties\<close>

text \<open>A stub call of the example node for no bytes of the file.\<close>

definition demo_vals :: "fval list" where
  "demo_vals = [V_bytes [], V_u32 0, V_u32 0]"

definition demo_params :: "field list" where
  "demo_params = [F_string 1 [0x61], F_u32 1, F_u32 0]"

lemma demo_vals_simps: "\<forall>v \<in> set demo_vals. val_ok v" "map type_of_val demo_vals = results fs_read_schema"
  "length (encode_list encode_val demo_vals) = 17"
  by (simp_all add: demo_vals_def)

lemma demo_params_simps: "estimate_size 0 demo_params = 18" "length (wire demo_params) = 18"
  by (simp_all add: demo_params_def c_str_def)

text \<open>C6. A stub call comes back: when the method is bound to a transport that sends, the heap has room, and the
  response with the encoding of \<open>vs\<close> arrives while the caller waits, the stub returns 0 and a result struct with the
  values \<open>vs\<close>, no call stays pending, and only the blocks of the struct stay allocated.\<close>

theorem rpc_stub_returns:
  fixes s :: "'w rpc"
  assumes "i32_writer_ok w" "rpc_idle s U" "transport_of s (rpcname m) = Some t" "trans s t = Some tc"
    and "t_send tc = Some f" "\<forall>msg v. 0 \<le> to_int (fst (f (t_user tc) msg v))"
    and "\<forall>v \<in> set vs. val_ok v" "map type_of_val vs = results m" "length (encode_list encode_val vs) \<le> 4096"
    and "heap_room (rheap s) k" "42000 + 2 * estimate_size 0 ps + length (c_str (rpcname m)) \<le> k" "k < 2 ^ 31"
  shows "\<exists>rs s'. rpc_call_stub w (answer_with t' (encode_list encode_val vs)) s m ps True = Some (0, Some rs, s') \<and>
    map val_of rs = vs \<and> rpc_idle s' (U \<union> set (ptrs rs)) \<and> U \<inter> set (ptrs rs) = {} \<and> pending_of s' = pending_of s"
  using stub_answered [OF assms(1-5) _ answers_with assms(7-12), of t'] assms(6) by blast

theorem rpc_stub_returns_witness:
  "\<exists>s t rs s'. rpc_reach demo_heap demo_os s \<and>
     rpc_call_stub tlv_write_u32 (answer_with t (encode_list encode_val demo_vals)) s fs_read_schema demo_params True =
       Some (0, Some rs, s') \<and> map val_of rs = demo_vals \<and> rpc_idle s' (set (ptrs rs))"
proof -
  from demo_server obtain s t tc where s: "rpc_reach demo_heap demo_os s" "rpc_idle s {}" "trans s t = Some tc"
    "heap_room (rheap s) 1000000" "t_send tc = Some demo_os_send" "transport_of s (rpcname fs_read_schema) = Some t" by auto
  have f: "\<forall>msg w. 0 \<le> to_int (fst (demo_os_send (t_user tc) msg w))" by (simp add: demo_os_send_def to_int_def)
  from rpc_stub_returns [OF i32_as_u32 s(2,6,3,5) f demo_vals_simps(1,2) _ s(4), of demo_params] show ?thesis
    using s(1) by (fastforce simp: demo_vals_simps demo_params_simps)
qed

end
