(* ===== verification/Tcp.thy ===== *)
theory Tcp
  imports Tlv Bits
begin

text \<open>
  The TCP transport of \<^verbatim>\<open>port/src/rpc_cal_tcp.c\<close>. The socket interface of the operating system is a
  parameter: a record of functions on the state \<open>'k\<close> of the kernel. \<open>posix_sockets\<close> states what POSIX says of the
  descriptors that are open. A connection struct is known by its address, as the RPC core passes it to the
  callbacks.
\<close>

section \<open>The socket interface\<close>

record 'k socket_api =
  sk_socket :: "'k \<Rightarrow> int \<times> 'k"
  sk_setsockopt :: "int \<Rightarrow> int \<Rightarrow> 'k \<Rightarrow> int \<times> 'k"
  sk_inet_pton :: "bytes \<Rightarrow> u32 option"
  sk_connect :: "int \<Rightarrow> u32 \<Rightarrow> u16 \<Rightarrow> 'k \<Rightarrow> int \<times> 'k"
  sk_bind :: "int \<Rightarrow> u32 \<Rightarrow> u16 \<Rightarrow> 'k \<Rightarrow> int \<times> 'k"
  sk_listen :: "int \<Rightarrow> int \<Rightarrow> 'k \<Rightarrow> int \<times> 'k"
  sk_accept :: "int \<Rightarrow> 'k \<Rightarrow> int \<times> 'k"
  sk_send :: "int \<Rightarrow> bytes \<Rightarrow> 'k \<Rightarrow> u64 \<times> 'k"
  sk_recv :: "int \<Rightarrow> nat \<Rightarrow> 'k \<Rightarrow> u64 \<times> bytes \<times> 'k"
  sk_close :: "int \<Rightarrow> 'k \<Rightarrow> int \<times> 'k"

text \<open>The connection structs, and the kernel.\<close>

record 'k tcp_world =
  sockfd :: "addr \<Rightarrow> int"
  kernel :: 'k

section \<open>Operations\<close>

definition close_ctx :: "'k socket_api \<Rightarrow> addr \<Rightarrow> 'k tcp_world \<Rightarrow> 'k tcp_world" where
  "close_ctx api ctx w = w\<lparr>kernel := snd (sk_close api (sockfd w ctx) (kernel w))\<rparr>"

definition rpc_tcp_connect :: "'k socket_api \<Rightarrow> addr \<Rightarrow> bytes \<Rightarrow> int \<Rightarrow> 'k tcp_world \<Rightarrow> int \<times> 'k tcp_world" where
  "rpc_tcp_connect api ctx ip port w =
     (let (fd, k) = sk_socket api (kernel w);
          w = w\<lparr>sockfd := (sockfd w)(ctx := fd), kernel := k\<rparr>
      in if sockfd w ctx < 0 then (- 1, w)
         else let sin_port = htons (word_of_int port);
                  sin_addr = (case sk_inet_pton api (c_str ip) of None \<Rightarrow> 0 | Some a \<Rightarrow> a);
                  (r, k) = sk_connect api (sockfd w ctx) sin_addr sin_port (kernel w);
                  w = w\<lparr>kernel := k\<rparr>
              in if r < 0 then (- 1, close_ctx api ctx w) else (0, w))"

definition rpc_tcp_listen :: "'k socket_api \<Rightarrow> addr \<Rightarrow> int \<Rightarrow> 'k tcp_world \<Rightarrow> int \<times> 'k tcp_world" where
  "rpc_tcp_listen api ctx port w =
     (let (fd, k) = sk_socket api (kernel w);
          w = w\<lparr>sockfd := (sockfd w)(ctx := fd), kernel := k\<rparr>
      in if sockfd w ctx < 0 then (- 1, w)
         else let w = w\<lparr>kernel := snd (sk_setsockopt api (sockfd w ctx) 1 (kernel w))\<rparr>;
                  sin_port = htons (word_of_int port);
                  (r, k) = sk_bind api (sockfd w ctx) 0 sin_port (kernel w);
                  w = w\<lparr>kernel := k\<rparr>
              in if r < 0 then (- 1, close_ctx api ctx w)
                 else let (r, k) = sk_listen api (sockfd w ctx) 1 (kernel w);
                          w = w\<lparr>kernel := k\<rparr>
                      in if r < 0 then (- 1, close_ctx api ctx w) else (0, w))"

definition rpc_tcp_accept :: "'k socket_api \<Rightarrow> addr \<Rightarrow> addr \<Rightarrow> 'k tcp_world \<Rightarrow> int \<times> 'k tcp_world" where
  "rpc_tcp_accept api listener client w =
     (let (fd, k) = sk_accept api (sockfd w listener) (kernel w);
          w = w\<lparr>sockfd := (sockfd w)(client := fd), kernel := k\<rparr>
      in if sockfd w client < 0 then (- 1, w) else (0, w))"

definition rpc_tcp_send :: "'k socket_api \<Rightarrow> addr \<Rightarrow> bytes \<Rightarrow> 'k tcp_world \<Rightarrow> u64 \<times> 'k tcp_world" where
  "rpc_tcp_send api user buf w =
     (let (n, k) = sk_send api (sockfd w user) buf (kernel w) in (n, w\<lparr>kernel := k\<rparr>))"

definition rpc_tcp_recv :: "'k socket_api \<Rightarrow> addr \<Rightarrow> nat \<Rightarrow> 'k tcp_world \<Rightarrow> u64 \<times> bytes \<times> 'k tcp_world" where
  "rpc_tcp_recv api user maxlen w =
     (let (n, buf, k) = sk_recv api (sockfd w user) maxlen (kernel w) in (n, buf, w\<lparr>kernel := k\<rparr>))"

definition rpc_tcp_close :: "'k socket_api \<Rightarrow> addr \<Rightarrow> 'k tcp_world \<Rightarrow> 'k tcp_world" where
  "rpc_tcp_close api user w =
     (if sockfd w user \<ge> 0
      then let w = close_ctx api user w in w\<lparr>sockfd := (sockfd w)(user := - 1)\<rparr>
      else w)"

section \<open>What POSIX promises\<close>

text \<open>\<open>opn\<close> gives the open descriptors of a kernel state. \<^verbatim>\<open>socket\<close> and \<^verbatim>\<open>accept\<close> fail or open a new descriptor, \<^verbatim>\<open>close\<close>
  closes the one it is given, no other call opens or closes any, and \<^verbatim>\<open>recv\<close> fills at most its buffer.\<close>

definition new_fd :: "('k \<Rightarrow> int set) \<Rightarrow> 'k \<Rightarrow> int \<times> 'k \<Rightarrow> bool" where
  "new_fd opn k r \<longleftrightarrow> (if fst r < 0 then opn (snd r) = opn k else fst r \<notin> opn k \<and> opn (snd r) = insert (fst r) (opn k))"

definition posix_sockets :: "'k socket_api \<Rightarrow> ('k \<Rightarrow> int set) \<Rightarrow> bool" where
  "posix_sockets api opn \<longleftrightarrow>
     (\<forall>k. new_fd opn k (sk_socket api k)) \<and> (\<forall>fd k. new_fd opn k (sk_accept api fd k)) \<and>
     (\<forall>fd v k. opn (snd (sk_setsockopt api fd v k)) = opn k) \<and>
     (\<forall>fd a p k. opn (snd (sk_connect api fd a p k)) = opn k) \<and> (\<forall>fd a p k. opn (snd (sk_bind api fd a p k)) = opn k) \<and>
     (\<forall>fd n k. opn (snd (sk_listen api fd n k)) = opn k) \<and> (\<forall>fd b k. opn (snd (sk_send api fd b k)) = opn k) \<and>
     (\<forall>fd n k. opn (snd (snd (sk_recv api fd n k))) = opn k \<and> sint (fst (sk_recv api fd n k)) \<le> int n) \<and>
     (\<forall>fd k. opn (snd (sk_close api fd k)) = opn k - {fd})"

lemma posixD:
  assumes "posix_sockets api opn"
  shows "sk_socket api k = (fd, k') \<Longrightarrow> 0 \<le> fd \<Longrightarrow> fd \<notin> opn k \<and> opn k' = insert fd (opn k)"
    "sk_socket api k = (fd, k') \<Longrightarrow> fd < 0 \<Longrightarrow> opn k' = opn k"
    "sk_accept api l k = (fd, k') \<Longrightarrow> 0 \<le> fd \<Longrightarrow> fd \<notin> opn k \<and> opn k' = insert fd (opn k)"
    "sk_accept api l k = (fd, k') \<Longrightarrow> fd < 0 \<Longrightarrow> opn k' = opn k"
    "opn (snd (sk_setsockopt api l v k)) = opn k"
    "sk_connect api l a p k = (r, k') \<Longrightarrow> opn k' = opn k" "sk_bind api l a p k = (r, k') \<Longrightarrow> opn k' = opn k"
    "sk_listen api l n k = (r, k') \<Longrightarrow> opn k' = opn k" "opn (snd (sk_close api l k)) = opn k - {l}"
proof -
  note q = assms [unfolded posix_sockets_def]
  note p = q [THEN conjunct1, rule_format]
    q [THEN conjunct2, THEN conjunct1, rule_format]
    q [THEN conjunct2, THEN conjunct2, THEN conjunct1, rule_format]
    q [THEN conjunct2, THEN conjunct2, THEN conjunct2, THEN conjunct1, rule_format]
    q [THEN conjunct2, THEN conjunct2, THEN conjunct2, THEN conjunct2, THEN conjunct1, rule_format]
    q [THEN conjunct2, THEN conjunct2, THEN conjunct2, THEN conjunct2, THEN conjunct2, THEN conjunct1, rule_format]
    q [THEN conjunct2, THEN conjunct2, THEN conjunct2, THEN conjunct2, THEN conjunct2, THEN conjunct2, THEN conjunct2, THEN conjunct2, rule_format]
  note s = p(1) [of k] p(2) [of k l]
  show "sk_socket api k = (fd, k') \<Longrightarrow> 0 \<le> fd \<Longrightarrow> fd \<notin> opn k \<and> opn k' = insert fd (opn k)"
    "sk_socket api k = (fd, k') \<Longrightarrow> fd < 0 \<Longrightarrow> opn k' = opn k"
    "sk_accept api l k = (fd, k') \<Longrightarrow> 0 \<le> fd \<Longrightarrow> fd \<notin> opn k \<and> opn k' = insert fd (opn k)"
    "sk_accept api l k = (fd, k') \<Longrightarrow> fd < 0 \<Longrightarrow> opn k' = opn k"
    using s by (simp_all add: new_fd_def)
  show "opn (snd (sk_setsockopt api l v k)) = opn k" "opn (snd (sk_close api l k)) = opn k - {l}"
    by (rule p(3), rule p(7))
  show "sk_connect api l a p k = (r, k') \<Longrightarrow> opn k' = opn k" using p(4) [of l a p k] by simp
  show "sk_bind api l a p k = (r, k') \<Longrightarrow> opn k' = opn k" using p(5) [of l a p k] by simp
  show "sk_listen api l n k = (r, k') \<Longrightarrow> opn k' = opn k" using p(6) [of l n k] by simp
qed

lemma posix_recv:
  assumes "posix_sockets api opn"
  shows "sint (fst (sk_recv api fd n k)) \<le> int n" "opn (snd (snd (sk_recv api fd n k))) = opn k"
proof -
  note p = assms [unfolded posix_sockets_def, THEN conjunct2, THEN conjunct2, THEN conjunct2, THEN conjunct2, THEN conjunct2,
    THEN conjunct2, THEN conjunct2, THEN conjunct1, rule_format, of fd n k]
  show "sint (fst (sk_recv api fd n k)) \<le> int n" "opn (snd (snd (sk_recv api fd n k))) = opn k"
    by (rule p [THEN conjunct2], rule p [THEN conjunct1])
qed

section \<open>Descriptors\<close>

text \<open>The result of a set-up function: an open descriptor in the struct, or an error and nothing left open.\<close>

definition set_up :: "('k \<Rightarrow> int set) \<Rightarrow> addr \<Rightarrow> 'k tcp_world \<Rightarrow> int \<times> 'k tcp_world \<Rightarrow> bool" where
  "set_up opn ctx w res \<longleftrightarrow> (case res of (r, w') \<Rightarrow>
     r = 0 \<and> 0 \<le> sockfd w' ctx \<and> sockfd w' ctx \<notin> opn (kernel w) \<and> opn (kernel w') = insert (sockfd w' ctx) (opn (kernel w)) \<or>
     r = - 1 \<and> opn (kernel w') = opn (kernel w))"

lemma connect_set_up:
  assumes p: "posix_sockets api opn"
  shows "set_up opn ctx w (rpc_tcp_connect api ctx ip port w)"
proof -
  obtain fd k where s: "sk_socket api (kernel w) = (fd, k)" by fastforce
  show ?thesis
  proof (cases "fd < 0")
    case True
    then show ?thesis using s posixD(2) [OF p s] by (simp add: rpc_tcp_connect_def set_up_def)
  next
    case False
    then have o: "fd \<notin> opn (kernel w)" "opn k = insert fd (opn (kernel w))" using posixD(1) [OF p s] by simp_all
    obtain r k2 where c: "sk_connect api fd (case sk_inet_pton api (c_str ip) of None \<Rightarrow> 0 | Some a \<Rightarrow> a) (htons (word_of_int port)) k = (r, k2)" by fastforce
    from posixD(6) [OF p c] o show ?thesis using False s c posixD(9) [OF p, of fd k2]
      by (auto simp: rpc_tcp_connect_def set_up_def close_ctx_def Let_def)
  qed
qed

lemma listen_set_up:
  assumes p: "posix_sockets api opn"
  shows "set_up opn ctx w (rpc_tcp_listen api ctx port w)"
proof -
  obtain fd k where s: "sk_socket api (kernel w) = (fd, k)" by fastforce
  show ?thesis
  proof (cases "fd < 0")
    case True
    then show ?thesis using s posixD(2) [OF p s] by (simp add: rpc_tcp_listen_def set_up_def)
  next
    case False
    then have o: "fd \<notin> opn (kernel w)" "opn k = insert fd (opn (kernel w))" using posixD(1) [OF p s] by simp_all
    let ?k1 = "snd (sk_setsockopt api fd 1 k)"
    obtain r k2 where b: "sk_bind api fd 0 (htons (word_of_int port)) ?k1 = (r, k2)" by fastforce
    have k2: "opn k2 = insert fd (opn (kernel w))" using posixD(7) [OF p b] posixD(5) [OF p, of fd 1 k] o(2) by simp
    obtain r2 k3 where l: "sk_listen api fd 1 k2 = (r2, k3)" by fastforce
    have k3: "opn k3 = insert fd (opn (kernel w))" using posixD(8) [OF p l] k2 by simp
    show ?thesis using False s b l o(1) k2 k3 posixD(9) [OF p, of fd k2] posixD(9) [OF p, of fd k3]
      by (auto simp: rpc_tcp_listen_def set_up_def close_ctx_def Let_def)
  qed
qed

lemma accept_set_up:
  assumes p: "posix_sockets api opn"
  shows "set_up opn client w (rpc_tcp_accept api listener client w)"
proof -
  obtain fd k where s: "sk_accept api (sockfd w listener) (kernel w) = (fd, k)" by fastforce
  then show ?thesis using posixD(3,4) [OF p s] by (cases "fd < 0") (auto simp: rpc_tcp_accept_def set_up_def)
qed

section \<open>Properties\<close>

text \<open>A kernel that numbers its descriptors upwards and refuses connections to the address 0.\<close>

definition toy_api :: "int list socket_api" where
  "toy_api = \<lparr>sk_socket = (\<lambda>k. let fd = 1 + Max (insert 2 (set k)) in (fd, fd # k)), sk_setsockopt = (\<lambda>fd v k. (0, k)),
     sk_inet_pton = (\<lambda>s. if s = [] then None else Some 0x0100007f), sk_connect = (\<lambda>fd a p k. (if a = 0 then - 1 else 0, k)),
     sk_bind = (\<lambda>fd a p k. (0, k)), sk_listen = (\<lambda>fd n k. (0, k)), sk_accept = (\<lambda>fd k. let fd = 1 + Max (insert 2 (set k)) in (fd, fd # k)),
     sk_send = (\<lambda>fd b k. (of_nat (length b), k)), sk_recv = (\<lambda>fd n k. (0, [], k)), sk_close = (\<lambda>fd k. (0, filter (\<lambda>x. x \<noteq> fd) k))\<rparr>"

lemma toy_fd: "1 + Max (insert 2 (set k)) \<notin> set (k :: int list)" "\<not> 1 + Max (insert 2 (set k)) < 0"
proof -
  have le: "x \<le> Max (insert 2 (set k))" if "x \<in> insert 2 (set k)" for x using that by (intro Max_ge) simp_all
  show "1 + Max (insert 2 (set k)) \<notin> set k" using le [of "1 + Max (insert 2 (set k))"] by auto
  have "2 \<le> Max (insert 2 (set k))" by (rule le) simp
  then show "\<not> 1 + Max (insert 2 (set k)) < 0" by linarith
qed

lemma toy_posix: "posix_sockets toy_api set"
  using toy_fd by (auto simp: posix_sockets_def toy_api_def new_fd_def Let_def)

text \<open>C16. Setting up a connection, as a client or as a server, either stores a newly opened descriptor or reports an
  error with every descriptor closed again; closing a connection closes exactly its descriptor, and closing it
  again does nothing.\<close>
theorem tcp_descriptors:
  assumes "posix_sockets api opn"
  shows "set_up opn ctx w (rpc_tcp_connect api ctx ip port w) \<and> set_up opn ctx w (rpc_tcp_listen api ctx port w) \<and>
    set_up opn client w (rpc_tcp_accept api ctx client w) \<and>
    (sockfd w ctx \<ge> 0 \<longrightarrow> opn (kernel (rpc_tcp_close api ctx w)) = opn (kernel w) - {sockfd w ctx}) \<and>
    rpc_tcp_close api ctx (rpc_tcp_close api ctx w) = rpc_tcp_close api ctx w"
  using connect_set_up [OF assms] listen_set_up [OF assms] accept_set_up [OF assms] posixD(9) [OF assms]
  by (simp add: rpc_tcp_close_def close_ctx_def Let_def)

theorem tcp_descriptors_witness:
  "set_up set 7 \<lparr>sockfd = (\<lambda>_. 5), kernel = [5 :: int]\<rparr> (rpc_tcp_connect toy_api 7 [49] 9001 \<lparr>sockfd = (\<lambda>_. 5), kernel = [5]\<rparr>) \<and>
   set (kernel (rpc_tcp_close toy_api 7 \<lparr>sockfd = (\<lambda>_. 5), kernel = [5]\<rparr>)) = {}"
  using tcp_descriptors [OF toy_posix, of 7 "\<lparr>sockfd = (\<lambda>_. 5), kernel = [5]\<rparr>"] by simp

text \<open>After a connection that failed, the struct still holds the number of the descriptor that was closed: when the
  number is in use again for something else, \<^verbatim>\<open>rpc_tcp_close\<close> on the struct closes that.\<close>
theorem tcp_stale_descriptor:
  assumes "posix_sockets api opn" "sk_socket api (kernel w) = (fd, k1)" "0 \<le> fd" "rpc_tcp_connect api ctx ip port w = (- 1, w')"
  shows "fd \<notin> opn (kernel w') \<and> opn (kernel (rpc_tcp_close api ctx (w'\<lparr>kernel := k2\<rparr>))) = opn k2 - {fd}"
proof -
  have w': "sockfd w' ctx = fd" using assms(2-4) by (auto simp: rpc_tcp_connect_def close_ctx_def Let_def split: prod.splits if_splits)
  have "opn (kernel w') = opn (kernel w)" using connect_set_up [OF assms(1), of ctx w ip port] assms(4) by (simp add: set_up_def)
  then show ?thesis using w' assms(3) posixD(1) [OF assms(1,2,3)] posixD(9) [OF assms(1)]
    by (simp add: rpc_tcp_close_def close_ctx_def Let_def)
qed

theorem tcp_stale_descriptor_witness:
  "\<exists>w'. rpc_tcp_connect toy_api 7 [] 9001 \<lparr>sockfd = (\<lambda>_. 0), kernel = []\<rparr> = (- 1, w') \<and>
     set (kernel (rpc_tcp_close toy_api 7 (w'\<lparr>kernel := [3, 8]\<rparr>))) = {8}"
proof -
  let ?w = "\<lparr>sockfd = (\<lambda>_. 0), kernel = []\<rparr> :: int list tcp_world"
  have s: "sk_socket toy_api (kernel ?w) = (3, [3])" by (simp add: toy_api_def Let_def)
  obtain w' where w': "rpc_tcp_connect toy_api 7 [] 9001 ?w = (- 1, w')"
    by (simp add: rpc_tcp_connect_def toy_api_def c_str_def Let_def)
  from tcp_stale_descriptor [OF toy_posix s _ w', of "[3, 8]"] have "set (kernel (rpc_tcp_close toy_api 7 (w'\<lparr>kernel := [3, 8]\<rparr>))) = {8}" by simp
  then show ?thesis using w' by blast
qed

end
