(* ===== verification/Crc.thy ===== *)
theory Crc
  imports Bits
begin

text \<open>
  The checksum with which the programs of the two nodes compare what a call returned with what they read
  themselves: \<^verbatim>\<open>crc32_calc\<close> of \<^verbatim>\<open>nodeA/src/main.c\<close> and \<^verbatim>\<open>nodeB/src/main.c\<close>.
\<close>

section \<open>Definitions\<close>

text \<open>The body of the inner loop, the body of the outer loop, and the function on the \<^verbatim>\<open>len\<close> bytes at \<^verbatim>\<open>buf\<close>.\<close>

definition crc_bit :: "u32 \<Rightarrow> u32" where
  "crc_bit crc = drop_bit 1 crc XOR (0xEDB88320 AND - (crc AND 1))"

definition crc_byte :: "u32 \<Rightarrow> u8 \<Rightarrow> u32" where
  "crc_byte crc b = (crc_bit ^^ 8) (crc XOR ucast b)"

definition crc32_calc :: "bytes \<Rightarrow> u32" where
  "crc32_calc buf = NOT (foldl crc_byte 0xFFFFFFFF buf)"

section \<open>One step of the register\<close>

lemma crc_bit_alt: "crc_bit x = drop_bit 1 x XOR (if bit x 0 then 0xEDB88320 else 0)"
proof -
  have "x AND 1 = (if bit x 0 then 1 else 0)" by (simp add: and_one_eq bit_0 odd_iff_mod_2_eq_one)
  then show ?thesis by (simp add: crc_bit_def)
qed

lemma crc_bit_xor: "crc_bit (x XOR y) = crc_bit x XOR crc_bit y"
  by (rule bit_eqI) (auto simp: crc_bit_alt bit_simps)

lemma crc_bits_xor: "(crc_bit ^^ n) (x XOR y) = (crc_bit ^^ n) x XOR (crc_bit ^^ n) y"
  by (induction n) (simp_all add: crc_bit_xor)

lemma xor_zero_word: "a XOR b = 0 \<longleftrightarrow> a = (b :: u32)"
proof
  assume "a XOR b = 0"
  then have "(a XOR b) XOR b = b" by simp
  then show "a = b" by (simp add: xor.assoc)
qed simp

lemma crc_bit_zero:
  assumes "crc_bit z = 0"
  shows "z = 0"
proof (cases "bit z 0")
  case True
  then have "drop_bit 1 z = 0xEDB88320" using assms by (simp add: crc_bit_alt xor_zero_word)
  then have "bit (drop_bit 1 z) 31 = bit (0xEDB88320 :: u32) 31" by simp
  then have "bit z 32" by (simp add: bit_drop_bit_eq)
  then show ?thesis by (auto dest: bit_imp_le_length)
next
  case False
  then have d: "drop_bit 1 z = 0" using assms by (simp add: crc_bit_alt)
  show ?thesis
  proof (rule bit_eqI)
    fix n
    have "\<not> bit (drop_bit 1 z) (n - 1)" unfolding d by simp
    then show "bit z n = bit 0 n" using False by (cases n) (simp_all add: bit_drop_bit_eq)
  qed
qed

lemma crc_bits_inj: "(crc_bit ^^ n) x = (crc_bit ^^ n) y \<longleftrightarrow> x = y"
proof
  assume "(crc_bit ^^ n) x = (crc_bit ^^ n) y"
  then have "(crc_bit ^^ n) (x XOR y) = 0" by (simp only: crc_bits_xor xor_self_eq)
  then have "x XOR y = 0" by (induction n) (simp_all add: crc_bit_zero)
  then show "x = y" by (simp only: xor_zero_word)
qed simp

text \<open>Bits that are far enough to the left are only shifted.\<close>

lemma crc_bit_push:
  assumes "\<not> bit x 31"
  shows "crc_bit (push_bit 1 x) = x"
proof -
  have "\<not> bit (push_bit 1 x) 0" by (simp only: bit_push_bit_iff) simp
  then have "crc_bit (push_bit 1 x) = drop_bit 1 (push_bit 1 x)" by (simp only: crc_bit_alt if_False xor.right_neutral)
  also have "\<dots> = x"
  proof (rule bit_eqI)
    fix n assume "possible_bit TYPE(32 word) n"
    then show "bit (drop_bit 1 (push_bit 1 x)) n = bit x n"
      using assms by (cases "n = 31") (simp_all only: bit_drop_bit_eq bit_push_bit_iff comp_def possible_bit_word, auto)
  qed
  finally show ?thesis .
qed

lemma crc_bits_push:
  assumes "k + n \<le> 32" "\<And>i. n \<le> i \<Longrightarrow> \<not> bit x i"
  shows "(crc_bit ^^ k) (push_bit k x) = x"
  using assms(1)
proof (induction k)
  case (Suc k)
  have "\<not> bit (push_bit k x) 31" using Suc.prems assms(2) [of "31 - k"] by (auto simp: bit_simps)
  moreover have "push_bit (Suc k) x = push_bit 1 (push_bit k x)" by (simp add: push_bit_push_bit)
  ultimately have "crc_bit (push_bit (Suc k) x) = push_bit k x" using crc_bit_push by presburger
  then show ?case using Suc by (simp add: funpow_swap1 del: funpow.simps(2) flip: funpow.simps(2)) (simp add: funpow_Suc_right del: funpow.simps(2))
qed simp


section \<open>Bursts\<close>

lemma crc_byte_shifted:
  assumes "m \<le> 24"
  shows "crc_byte ((crc_bit ^^ m) y) b = (crc_bit ^^ (m + 8)) (y XOR push_bit m (ucast b))"
proof -
  have "(crc_bit ^^ m) (push_bit m (ucast b)) = (ucast b :: u32)"
    using assms by (intro crc_bits_push [of _ 8]) (auto simp: bit_simps dest: bit_imp_le_length)
  then have "crc_byte ((crc_bit ^^ m) y) b = (crc_bit ^^ 8) ((crc_bit ^^ m) (y XOR push_bit m (ucast b)))"
    by (simp only: crc_byte_def crc_bits_xor)
  then show ?thesis by (simp only: funpow_add comp_apply add.commute [of m])
qed

definition block_word :: "u8 \<Rightarrow> u8 \<Rightarrow> u8 \<Rightarrow> u8 \<Rightarrow> u32" where
  "block_word a b c d = ucast a XOR push_bit 8 (ucast b) XOR push_bit 16 (ucast c) XOR push_bit 24 (ucast d)"

lemma crc_block: "foldl crc_byte s [a, b, c, d] = (crc_bit ^^ 32) (s XOR block_word a b c d)"
proof -
  have a: "crc_byte s a = (crc_bit ^^ 8) (s XOR ucast a)" by (simp only: crc_byte_def)
  have b: "crc_byte ((crc_bit ^^ 8) y) b = (crc_bit ^^ 16) (y XOR push_bit 8 (ucast b))" for y using crc_byte_shifted [of 8 y b] by simp
  have c: "crc_byte ((crc_bit ^^ 16) y) c = (crc_bit ^^ 24) (y XOR push_bit 16 (ucast c))" for y using crc_byte_shifted [of 16 y c] by simp
  have d: "crc_byte ((crc_bit ^^ 24) y) d = (crc_bit ^^ 32) (y XOR push_bit 24 (ucast d))" for y using crc_byte_shifted [of 24 y d] by simp
  show ?thesis by (simp only: foldl.simps a b c d block_word_def xor.assoc)
qed

lemma bit_block_word:
  "i < 8 \<Longrightarrow> bit (block_word a b c d) i = bit a i \<and> bit (block_word a b c d) (8 + i) = bit b i \<and>
     bit (block_word a b c d) (16 + i) = bit c i \<and> bit (block_word a b c d) (24 + i) = bit d i"
  by (auto simp: block_word_def bit_xor_iff bit_push_bit_iff bit_ucast_iff dest: bit_imp_le_length)

lemma block_word_inj: "block_word a b c d = block_word a' b' c' d' \<Longrightarrow> [a, b, c, d] = [a', b', c', d']"
proof -
  assume eq: "block_word a b c d = block_word a' b' c' d'"
  have "a = a'" "b = b'" "c = c'" "d = d'"
    by (rule bit_word_eqI; use eq bit_block_word [of _ a b c d] bit_block_word [of _ a' b' c' d'] in simp; fail)+
  then show ?thesis by simp
qed

lemma crc_byte_inj: "crc_byte s b = crc_byte t b \<Longrightarrow> s = t"
proof -
  assume "crc_byte s b = crc_byte t b"
  then have "s XOR ucast b = t XOR ucast b" by (simp only: crc_byte_def crc_bits_inj)
  then have "(s XOR ucast b) XOR ucast b = (t XOR ucast b) XOR ucast b" by simp
  then show "s = t" by (simp add: xor.assoc)
qed

lemma crc_run_inj: "foldl crc_byte s bs = foldl crc_byte t bs \<Longrightarrow> s = t"
  by (induction bs arbitrary: s t) (auto dest: crc_byte_inj)

lemma crc_block_inj:
  assumes "foldl crc_byte s xs = foldl crc_byte s ys" "length xs = 4" "length ys = 4"
  shows "xs = ys"
proof -
  from assms(2,3) obtain a b c d a' b' c' d' where xy: "xs = [a, b, c, d]" "ys = [a', b', c', d']"
    by (auto simp: length_Suc_conv eval_nat_numeral)
  from assms(1) have "s XOR block_word a b c d = s XOR block_word a' b' c' d'" unfolding xy crc_block crc_bits_inj .
  then have "s XOR (s XOR block_word a b c d) = s XOR (s XOR block_word a' b' c' d')" by simp
  then have "block_word a b c d = block_word a' b' c' d'" by (simp only: xor.assoc [symmetric] xor_self_eq xor.left_neutral)
  then show ?thesis unfolding xy by (rule block_word_inj)
qed

lemma crc32_burst:
  assumes "length xs = 4" "length ys = 4" "xs \<noteq> ys"
  shows "crc32_calc (pre @ xs @ post) \<noteq> crc32_calc (pre @ ys @ post)"
proof
  assume "crc32_calc (pre @ xs @ post) = crc32_calc (pre @ ys @ post)"
  then have "NOT (crc32_calc (pre @ xs @ post)) = NOT (crc32_calc (pre @ ys @ post))" by simp
  then have "foldl crc_byte (foldl crc_byte (foldl crc_byte 0xFFFFFFFF pre) xs) post = foldl crc_byte (foldl crc_byte (foldl crc_byte 0xFFFFFFFF pre) ys) post"
    by (simp add: crc32_calc_def)
  from crc_block_inj [OF crc_run_inj [OF this] assms(1,2)] assms(3) show False by simp
qed

section \<open>Properties\<close>

text \<open>C18. The checksum of two buffers of the same length that differ only inside four neighbouring bytes is
  different; in particular every change of one byte is seen.\<close>
theorem crc32_detects_burst:
  assumes "length xs = 4" "length ys = 4" "xs \<noteq> ys"
  shows "crc32_calc (pre @ xs @ post) \<noteq> crc32_calc (pre @ ys @ post)"
  by (rule crc32_burst [OF assms])

theorem crc32_detects_burst_witness:
  "crc32_calc [0x31, 0x32, 0x33, 0x34, 0x35] \<noteq> crc32_calc [0x31, 0xFF, 0x33, 0, 0x35]"
  using crc32_detects_burst [of "[0x31, 0x32, 0x33, 0x34]" "[0x31, 0xFF, 0x33, 0]" "[]" "[0x35]"] by simp

lemma crc_byte_eight: "crc_byte s b = crc_bit (crc_bit (crc_bit (crc_bit (crc_bit (crc_bit (crc_bit (crc_bit (s XOR ucast b))))))))"
  by (simp add: crc_byte_def numeral_eq_Suc)

lemma crc32_check_value: "crc32_calc [0x31, 0x32, 0x33, 0x34, 0x35, 0x36, 0x37, 0x38, 0x39] = 0xCBF43926"
  by (simp add: crc32_calc_def crc_byte_eight crc_bit_def)

end
