(* ===== verification/Nodes.thy ===== *)
theory Nodes
  imports Stubs Tcp Crc
begin

text \<open>
  The two node programs, \<^verbatim>\<open>nodeA/src/main.c\<close> and \<^verbatim>\<open>nodeB/src/main.c\<close>: the start of a node, the loop
  body of its polling thread and the loop body of its calling thread. The state of the kernel is a pair: the files
  and commands that the services use, and the rest, on which the socket interface works. The two threads meet in
  the state of the RPC core; what happens to it while a call waits is the function \<open>wait\<close> of the stub.
\<close>

section \<open>Start\<close>

type_synonym 'n env = "(os \<times> 'n) tcp_world"

text \<open>A handler on the whole environment.\<close>

definition on_os :: "(os \<Rightarrow> heap \<Rightarrow> field list \<Rightarrow> (int \<times> field list \<times> heap \<times> os) option) \<Rightarrow>
    'n env \<Rightarrow> heap \<Rightarrow> field list \<Rightarrow> (int \<times> field list \<times> heap \<times> 'n env) option" where
  "on_os handler w h ps = do {
     (rc, rs, h, v) \<leftarrow> handler (fst (kernel w)) h ps;
     Some (rc, rs, h, w\<lparr>kernel := (v, snd (kernel w))\<rparr>) }"

text \<open>The part of \<^verbatim>\<open>main\<close> from \<^verbatim>\<open>rpc_init\<close> to the two bindings; the result is \<^verbatim>\<open>tAtoB\<close> and the core.\<close>

definition start_core :: "i32_writer \<Rightarrow> (os \<times> 'n) socket_api \<Rightarrow> addr \<Rightarrow> rpc_schema \<Rightarrow>
    (os \<Rightarrow> heap \<Rightarrow> field list \<Rightarrow> (int \<times> field list \<times> heap \<times> os) option) \<Rightarrow> heap \<Rightarrow> 'n env \<Rightarrow>
    (addr \<times> 'n env rpc) option" where
  "start_core wr api ctx m handler h w = do {
     s \<leftarrow> rpc_init (rpc_static h w) 16 16 4;
     s \<leftarrow> rpc_register_provider wr s m (on_os handler);
     (t, s) \<leftarrow> rpc_trans_class_create s (Some (rpc_tcp_send api)) (Some (rpc_tcp_recv api)) (Some (rpc_tcp_close api)) ctx;
     s \<leftarrow> rpc_bind_transport s (Some (lit ''fs.read'')) t;
     s \<leftarrow> rpc_bind_transport s (Some (lit ''shell.exec'')) t;
     Some (t, s) }"

text \<open>\<^verbatim>\<open>main\<close> up to the creation of the threads: \<open>Inl\<close> when it returns -1.\<close>

definition nodeA_main :: "i32_writer \<Rightarrow> (os \<times> 'n) socket_api \<Rightarrow> addr \<Rightarrow> heap \<Rightarrow> 'n env \<Rightarrow>
    ('n env + addr \<times> 'n env rpc) option" where
  "nodeA_main wr api tcp_ctx h w =
     (let (r, w) = rpc_tcp_connect api tcp_ctx (lit ''127.0.0.1'') 9001 w
      in if r < 0 then Some (Inl w)
         else map_option Inr (start_core wr api tcp_ctx fs_read_schema fs_read_handler h w))"

definition nodeB_main :: "i32_writer \<Rightarrow> (os \<times> 'n) socket_api \<Rightarrow> addr \<Rightarrow> addr \<Rightarrow> heap \<Rightarrow> 'n env \<Rightarrow>
    ('n env + addr \<times> 'n env rpc) option" where
  "nodeB_main wr api listener client h w =
     (let (r, w) = rpc_tcp_listen api listener 9001 w
      in if r < 0 then Some (Inl w)
         else let (r, w) = rpc_tcp_accept api listener client w
              in if r < 0 then Some (Inl w)
                 else map_option Inr (start_core wr api client shell_exec_schema shell_exec_handler h w))"

section \<open>Polling\<close>

text \<open>The loop body of \<^verbatim>\<open>poll_thread\<close>, with the bytes it passed on, and the first \<open>k\<close> rounds of the loop.\<close>

definition poll_step :: "'k socket_api \<Rightarrow> addr \<Rightarrow> addr \<Rightarrow> 'k tcp_world rpc \<Rightarrow> (bytes list \<times> 'k tcp_world rpc) option" where
  "poll_step api ctx t s =
     (let (n, buf, w) = rpc_tcp_recv api ctx 4096 (world s);
          s = s\<lparr>world := w\<rparr>
      in if sint n > 0
         then do { data \<leftarrow> buf_read buf 0 (unat n); s \<leftarrow> rpc_on_data s t data; Some ([data], s) }
         else Some ([], s))"

primrec poll_thread :: "'k socket_api \<Rightarrow> addr \<Rightarrow> addr \<Rightarrow> nat \<Rightarrow> 'k tcp_world rpc \<Rightarrow> (bytes list \<times> 'k tcp_world rpc) option" where
  "poll_thread api ctx t 0 s = Some ([], s)"
| "poll_thread api ctx t (Suc k) s = do {
     (seg, s) \<leftarrow> poll_step api ctx t s;
     (segs, s) \<leftarrow> poll_thread api ctx t k s;
     Some (seg @ segs, s) }"

section \<open>Calling\<close>

text \<open>The outcome of a round of \<^verbatim>\<open>call_thread\<close>; all but \<open>Passed\<close> end the program.\<close>

datatype verdict = Passed | Call_failed int | Differs | No_command

definition MAX_CHUNK :: nat where "MAX_CHUNK = 1024"

text \<open>The part of the file that a round of node B reads; \<open>r1\<close> and \<open>r2\<close> are the two values of \<^verbatim>\<open>rand\<close>.\<close>

definition pick_range :: "nat \<Rightarrow> nat \<Rightarrow> nat \<Rightarrow> nat \<times> nat" where
  "pick_range fsize r1 r2 =
     (let sz = 1 + r1 mod MAX_CHUNK;
          max_off = int fsize - int sz
      in (if max_off > 0 then r2 mod nat max_off else 0, sz))"

definition nodeB_round :: "i32_writer \<Rightarrow> ('w rpc \<Rightarrow> addr \<Rightarrow> (int \<times> 'w rpc) option) \<Rightarrow> addr \<Rightarrow> bytes \<Rightarrow> nat \<Rightarrow> nat \<Rightarrow>
    bytes \<Rightarrow> 'w rpc \<Rightarrow> bool \<Rightarrow> (verdict \<times> bytes \<times> 'w rpc) option" where
  "nodeB_round wr wait path content r1 r2 local_buf s waiter_ok =
     (let (off, sz) = pick_range (length content) r1 r2;
          data = take sz (drop off content);
          local_buf = data @ drop (length data) local_buf;
          local_crc = crc32_calc (take sz local_buf)
      in do {
        (st, r, s) \<leftarrow> rpc_call_stub wr wait s fs_read_schema
          [F_string path (lit ''./big.bin''), F_u32 (word_of_nat off), F_u32 (word_of_nat sz)] waiter_ok;
        if st \<noteq> 0 then Some (Call_failed st, local_buf, s)
        else do {
          r \<leftarrow> r;
          case r of
            [F_bytes ptr bs, F_u32 n, F_u32 e] \<Rightarrow>
              if local_crc \<noteq> crc32_calc bs then Some (Differs, local_buf, s)
              else do { h \<leftarrow> free_result (rheap s) r; Some (Passed, local_buf, s\<lparr>rheap := h\<rparr>) }
          | _ \<Rightarrow> None } })"

definition cmds :: "bytes list" where
  "cmds = [lit ''echo hello'', lit ''id'', lit ''whoami'']"

text \<open>A round of node A; \<open>commands\<close> is what \<^verbatim>\<open>popen\<close> and \<^verbatim>\<open>pclose\<close> give for a command, and \<open>p\<close> is the address of its text.\<close>

definition nodeA_round :: "i32_writer \<Rightarrow> ('w rpc \<Rightarrow> addr \<Rightarrow> (int \<times> 'w rpc) option) \<Rightarrow> addr \<Rightarrow> (bytes \<rightharpoonup> bytes \<times> int) \<Rightarrow> nat \<Rightarrow>
    'w rpc \<Rightarrow> bool \<Rightarrow> (verdict \<times> 'w rpc) option" where
  "nodeA_round wr wait p commands r1 s waiter_ok =
     (let cmd = cmds ! (r1 mod length cmds)
      in case commands cmd of
           None \<Rightarrow> Some (No_command, s)
         | Some (out, local_exit) \<Rightarrow>
             let local_crc = crc32_calc (take (4096 - 1) out)
             in do {
               (st, r, s) \<leftarrow> rpc_call_stub wr wait s shell_exec_schema [F_string p cmd] waiter_ok;
               if st \<noteq> 0 then Some (Call_failed st, s)
               else do {
                 r \<leftarrow> r;
                 case r of
                   [F_string a bs, F_u32 exitcode] \<Rightarrow>
                     if local_crc \<noteq> crc32_calc (if a = 0 then [] else c_str bs) \<or> local_exit \<noteq> sint exitcode
                     then Some (Differs, s)
                     else do { h \<leftarrow> free_result (rheap s) r; Some (Passed, s\<lparr>rheap := h\<rparr>) }
                 | _ \<Rightarrow> None } })"

section \<open>The start succeeds\<close>

lemma on_os_ok:
  assumes hd: "\<And>v h A ps rc rs h' v'. heap_owns h A \<Longrightarrow> handler v h ps = Some (rc, rs, h', v') \<Longrightarrow> fields_ok A rs h'"
    and w: "i32_writer_ok wr"
  shows "method_ok (provider_entry wr m (on_os handler))"
proof (rule provider_ok [OF w])
  fix v h A ps rc rs h' v'
  assume "heap_owns h A" "on_os handler v h ps = Some (rc, rs, h', v')"
  then show "fields_ok A rs h'" using hd by (auto simp: on_os_def split: bind_splits)
qed

definition started :: "(os \<times> 'n) socket_api \<Rightarrow> addr \<Rightarrow> heap \<Rightarrow> 'n env \<Rightarrow> rpc_schema \<Rightarrow> 'n env rpc_method_entry \<Rightarrow> addr \<Rightarrow>
    'n env rpc \<Rightarrow> bool" where
  "started api ctx h w m e t s \<longleftrightarrow> rpc_reach h w s \<and> rpc_idle s {} \<and> world s = w \<and> method_of s (rpcname m) = Some e \<and>
     transport_of s (rpcname fs_read_schema) = Some t \<and> transport_of s (rpcname shell_exec_schema) = Some t \<and>
     trans s t = Some \<lparr>t_send = Some (rpc_tcp_send api), t_recv = Some (rpc_tcp_recv api), t_close = Some (rpc_tcp_close api),
       t_user = ctx, t_reasm = \<lparr>bufs = [], total_len = 0\<rparr>\<rparr>"

lemma start_core_started:
  fixes api :: "(os \<times> 'n) socket_api" and w :: "'n env"
  assumes own: "heap_owns h {}" and room: "heap_room h k" "14000 \<le> k"
    and m: "method_ok (provider_entry wr m (on_os handler) :: 'n env rpc_method_entry)"
  shows "\<exists>t s. start_core wr api ctx m handler h w = Some (t, s) \<and>
    started api ctx h w m (provider_entry wr m (on_os handler)) t s \<and> heap_room (rheap s) (k - 13000)"
proof -
  let ?e = "provider_entry wr m (on_os handler) :: 'n env rpc_method_entry"
  let ?tc = "\<lparr>t_send = Some (rpc_tcp_send api), t_recv = Some (rpc_tcp_recv api), t_close = Some (rpc_tcp_close api),
       t_user = ctx, t_reasm = \<lparr>bufs = [], total_len = 0\<rparr>\<rparr>"
  have k: "12400 \<le> k" "200 \<le> k - 12360" "120 \<le> k - 12360 - 128" "200 \<le> k - 12360 - 128 - 80" "200 \<le> k - 12360 - 128 - 80 - 96"
    using room(2) by simp_all
  have e: "?e\<lparr>me_name := rpcname m\<rparr> = ?e" by (simp add: provider_entry_def)
  from init_room [OF own room(1) k(1), of w 16 16 4] obtain s0 where
    s0: "rpc_init (rpc_static h w) 16 16 4 = Some s0" "rpc_idle s0 {}" "heap_room (rheap s0) (k - 12360)" "world s0 = w" by blast
  from register_room [OF s0(2) m s0(3) k(2), of "rpcname m"] obtain s1 where
    s1: "rpc_register_method s0 (Some (rpcname m)) ?e = Some s1" "rpc_idle s1 {}" "heap_room (rheap s1) (k - 12360 - 128)"
    "method_of s1 (rpcname m) = Some ?e" "world s1 = w" unfolding e s0(4) by blast
  from create_room [OF s1(2,3) k(3), of "Some (rpc_tcp_send api)" "Some (rpc_tcp_recv api)" "Some (rpc_tcp_close api)" ctx] obtain t s2 where
    s2: "rpc_trans_class_create s1 (Some (rpc_tcp_send api)) (Some (rpc_tcp_recv api)) (Some (rpc_tcp_close api)) ctx = Some (t, s2)"
    "rpc_idle s2 {}" "heap_room (rheap s2) (k - 12360 - 128 - 80)" "trans s2 t = Some ?tc" "world s2 = w"
    unfolding s1(5) by blast
  have m2: "method_of s2 = method_of s1"
    using trans_create_ok [OF s1(2), of "Some (rpc_tcp_send api)" "Some (rpc_tcp_recv api)" "Some (rpc_tcp_close api)" ctx] s2(1)
    by (auto simp: same_view_def)
  have t2: "t \<in> dom (trans s2)" using s2(4) by blast
  from bind_room [OF s2(2) t2 s2(3) k(4), of "lit ''fs.read''"] obtain s3 where
    s3: "rpc_bind_transport s2 (Some (lit ''fs.read'')) t = Some s3" "rpc_idle s3 {}" "heap_room (rheap s3) (k - 12360 - 128 - 80 - 96)"
    "transport_of s3 (lit ''fs.read'') = Some t" "trans s3 = trans s2" "world s3 = w" unfolding s2(5) by blast
  have m3: "method_of s3 = method_of s2" using bind_ok [OF s2(2) t2, of "lit ''fs.read''"] s3(1) by (auto simp: same_view_def)
  have t3: "t \<in> dom (trans s3)" using t2 s3(5) by simp
  from bind_room [OF s3(2) t3 s3(3) k(5), of "lit ''shell.exec''"] obtain s4 where
    s4: "rpc_bind_transport s3 (Some (lit ''shell.exec'')) t = Some s4" "rpc_idle s4 {}" "heap_room (rheap s4) (k - 12360 - 128 - 80 - 96 - 96)"
    "transport_of s4 (lit ''shell.exec'') = Some t" "trans s4 = trans s3" "world s4 = w" unfolding s3(6) by blast
  have m4: "method_of s4 = method_of s3" "transport_of s4 (lit ''fs.read'') = Some t"
    using bind_ok [OF s3(2) t3, of "lit ''shell.exec''"] s4(1) s3(4) by (auto simp: same_view_def split: if_splits)
  have "rpc_reach h w s1" by (rule rpc_reach.register [OF rpc_reach.init [OF s0(1)] m s1(1)])
  from rpc_reach.create [OF this s2(1)] have "rpc_reach h w s3" by (rule rpc_reach.bind [OF _ _ s3(1)]) (use t2 in simp)
  then have "rpc_reach h w s4" by (rule rpc_reach.bind [OF _ _ s4(1)]) (use t3 in simp)
  moreover have "rpcname fs_read_schema = lit ''fs.read''" "rpcname shell_exec_schema = lit ''shell.exec''"
    by (simp_all only: fs_read_schema_def shell_exec_schema_def rpc_schema.simps)
  ultimately have "started api ctx h w m ?e t s4" unfolding started_def using s4 m4 m3 m2 s1(4) s3(5) s2(4) by simp
  moreover have "start_core wr api ctx m handler h w = Some (t, s4)"
    using s0(1) s1(1) s2(1) s3(1) s4(1) by (simp add: start_core_def rpc_register_provider_def)
  moreover have "heap_room (rheap s4) (k - 13000)" by (rule heap_room_mono [OF s4(3)]) simp
  ultimately show ?thesis by blast
qed

section \<open>The stream that a node receives\<close>

text \<open>What some received segments have done: those in \<open>kept\<close> reached the reassembly queue.\<close>

definition received :: "'w rpc \<Rightarrow> addr \<Rightarrow> bytes list \<Rightarrow> 'w rpc \<Rightarrow> bool" where
  "received s t segs s' \<longleftrightarrow> (\<exists>kept ms. subseq kept segs \<and> rx_log s' = rx_log s @ ms \<and>
     subseq ms (fst (frames (stream_of s t @ concat kept))) \<and> stream_of s' t = snd (frames (stream_of s t @ concat kept)))"

lemma frames_none: "fst (frames b) = [] \<Longrightarrow> snd (frames b) = b"
  using frames_concat [of b] by simp

lemma received_trans:
  assumes "received s t segs s1" "received s1 t segs2 s2"
  shows "received s t (segs @ segs2) s2"
proof -
  from assms(1) obtain kept ms where 1: "subseq kept segs" "rx_log s1 = rx_log s @ ms"
    "subseq ms (fst (frames (stream_of s t @ concat kept)))" "stream_of s1 t = snd (frames (stream_of s t @ concat kept))"
    unfolding received_def by blast
  from assms(2) obtain kept2 ms2 where 2: "subseq kept2 segs2" "rx_log s2 = rx_log s1 @ ms2"
    "subseq ms2 (fst (frames (stream_of s1 t @ concat kept2)))" "stream_of s2 t = snd (frames (stream_of s1 t @ concat kept2))"
    unfolding received_def by blast
  have f: "frames (stream_of s t @ concat (kept @ kept2)) =
      (fst (frames (stream_of s t @ concat kept)) @ fst (frames (stream_of s1 t @ concat kept2)), snd (frames (stream_of s1 t @ concat kept2)))"
    using frames_append [of "stream_of s t @ concat kept" "concat kept2"] 1(4) by simp
  have "subseq (kept @ kept2) (segs @ segs2)" using 1(1) 2(1) by (rule list_emb_append_mono)
  moreover have "subseq (ms @ ms2) (fst (frames (stream_of s t @ concat (kept @ kept2))))"
    unfolding f fst_conv using 1(3) 2(3) by (rule list_emb_append_mono)
  moreover have "rx_log s2 = rx_log s @ (ms @ ms2)" using 1(2) 2(2) by simp
  moreover have "stream_of s2 t = snd (frames (stream_of s t @ concat (kept @ kept2)))" unfolding f snd_conv by (rule 2(4))
  ultimately show ?thesis unfolding received_def by blast
qed

lemma received_none:
  assumes "fst (frames (stream_of s t)) = []"
  shows "received s t segs (s\<lparr>world := w\<rparr>)"
proof -
  have "stream_of (s\<lparr>world := w\<rparr>) t = stream_of s t" by (simp add: stream_of_def)
  then show ?thesis using assms frames_none [OF assms] unfolding received_def by (intro exI [of _ "[]"]) simp
qed

lemma poll_step_receives:
  fixes s :: "'k tcp_world rpc"
  assumes p: "posix_sockets api opn" and s: "rpc_idle s U" "t \<in> dom (trans s)" "fst (frames (stream_of s t)) = []" "rpc_reach h0 w0 s"
    and run: "poll_step api ctx t s = Some (segs, s')"
  shows "received s t segs s' \<and> rpc_idle s' U \<and> t \<in> dom (trans s') \<and> fst (frames (stream_of s' t)) = [] \<and> rpc_reach h0 w0 s'"
proof -
  obtain n buf w where r: "rpc_tcp_recv api ctx 4096 (world s) = (n, buf, w)" by (metis prod_cases3)
  let ?s1 = "s\<lparr>world := w\<rparr>"
  have st: "stream_of ?s1 t = stream_of s t" by (simp add: stream_of_def)
  have i1: "rpc_idle ?s1 U" "t \<in> dom (trans ?s1)" "rpc_reach h0 w0 ?s1"
    using idle_world [OF s(1)] s(2) rpc_reach.outside [OF s(4)] by simp_all
  note none = received_none [OF s(3), of segs w]
  have n: "sint n \<le> 4096" using r posix_recv [OF p, of "sockfd (world s) ctx" 4096 "kernel (world s)"]
    by (auto simp: rpc_tcp_recv_def split: prod.splits)
  show ?thesis
  proof (cases "0 < sint n")
    case False
    then show ?thesis using run r none i1 s(3) st by (auto simp: poll_step_def)
  next
    case True
    then obtain data where d: "buf_read buf 0 (unat n) = Some data" "rpc_on_data ?s1 t data = Some s'" "segs = [data]"
      using run r by (auto simp: poll_step_def split: bind_splits)
    have "uint (word_of_int (sint n) :: u64) = sint n" using True n by (simp only: unsigned_of_int) (simp add: take_bit_int_eq_self)
    then have "int (unat n) = sint n" by simp
    then have u: "0 < unat n" "unat n \<le> 4096" using True n by linarith+
    have l: "length data = unat n" using d(1) by (auto simp: buf_read_def split: if_splits)
    then have ne: "data \<noteq> []" "length data \<le> 2 ^ 32" using u by auto
    have re: "rpc_reach h0 w0 s'" by (rule rpc_reach.data [OF i1(3) _ ne d(2)]) (use s(2) in simp)
    from i1(1) obtain own where o: "rpc_inv ?s1" "rpc_own own ?s1" "owned own User = U" "\<not> rpc_locked ?s1" by (rule rpc_idleE)
    from s(2) obtain tc where tc: "trans ?s1 t = Some tc" by auto
    show ?thesis
    proof (cases "t_recv tc")
      case None
      have "t \<noteq> 0" using rpc_own_objects(4) [OF o(2) tc] .
      then have "s' = ?s1" using d(2) tc None by (simp add: rpc_on_data_def)
      then show ?thesis using none i1 s(3) st by simp
    next
      case (Some f)
      then have "t_recv tc \<noteq> None" by simp
      from on_data_ok [OF o(1,2) tc this ne o(4)] d(2) obtain b where
        b: "arrived ?s1 t data b" "\<not> rpc_locked s'" "data_ok ?s1 s' t own (fst (frames b)) (snd (frames b))" by auto
      from b(3) obtain own' ms where k: "rpc_inv s'" "rpc_own own' s'" "owned own' User = U" "stream_of s' t = snd (frames b)" "t \<in> dom (trans s')"
        "rx_log s' = rx_log s @ ms" "subseq ms (fst (frames b))" using o(3) by (auto simp: data_ok_def)
      have "\<exists>kept. subseq kept [data] \<and> b = stream_of s t @ concat kept"
        using b(1) unfolding arrived_def st by (auto intro: exI [of _ "[]"] exI [of _ "[data]"])
      then have "received s t segs s'" using k d(3) unfolding received_def by blast
      moreover have "fst (frames (stream_of s' t)) = []" unfolding k(4) by (simp add: frames_rest)
      ultimately show ?thesis using rpc_idleI [OF k(1,2)] k(3,5) b(2) re by blast
    qed
  qed
qed

lemma poll_receives:
  fixes s :: "'k tcp_world rpc"
  assumes p: "posix_sockets api opn"
  shows "rpc_idle s U \<Longrightarrow> t \<in> dom (trans s) \<Longrightarrow> fst (frames (stream_of s t)) = [] \<Longrightarrow> rpc_reach h0 w0 s \<Longrightarrow>
    poll_thread api ctx t k s = Some (segs, s') \<Longrightarrow> received s t segs s' \<and> rpc_idle s' U \<and> rpc_reach h0 w0 s'"
proof (induction k arbitrary: s segs)
  case 0
  have "received s t [] (s\<lparr>world := world s\<rparr>)" by (rule received_none [OF 0(3)])
  then show ?case using 0 by simp
next
  case (Suc k)
  from Suc.prems(5) obtain seg s1 segs2 where 1: "poll_step api ctx t s = Some (seg, s1)"
    "poll_thread api ctx t k s1 = Some (segs2, s')" "segs = seg @ segs2" by (auto split: bind_splits)
  note a = poll_step_receives [OF p Suc.prems(1-4) 1(1)]
  from a have "rpc_idle s1 U" "t \<in> dom (trans s1)" "fst (frames (stream_of s1 t)) = []" "rpc_reach h0 w0 s1" by blast+
  from Suc.IH [OF this 1(2)] a 1(3) received_trans show ?case by blast
qed

text \<open>What \<^verbatim>\<open>recv\<close> brings in \<open>k\<close> rounds, when nothing else uses the connection.\<close>

definition recv_fills :: "'k socket_api \<Rightarrow> bool" where
  "recv_fills api \<longleftrightarrow> (\<forall>fd n k r buf k'. sk_recv api fd n k = (r, buf, k') \<longrightarrow> sint r \<le> int n \<and> nat (sint r) \<le> length buf)"

definition recv_round :: "'k socket_api \<Rightarrow> addr \<Rightarrow> 'k tcp_world \<Rightarrow> bytes list \<times> 'k tcp_world" where
  "recv_round api ctx w = (let (n, buf, w) = rpc_tcp_recv api ctx 4096 w in (if 0 < sint n then [take (unat n) buf] else [], w))"

primrec recv_rounds :: "'k socket_api \<Rightarrow> addr \<Rightarrow> nat \<Rightarrow> 'k tcp_world \<Rightarrow> bytes list \<times> 'k tcp_world" where
  "recv_rounds api ctx 0 w = ([], w)"
| "recv_rounds api ctx (Suc k) w =
     (let (seg, w) = recv_round api ctx w; (segs, w) = recv_rounds api ctx k w in (seg @ segs, w))"

lemma poll_step_exact:
  fixes s :: "'k tcp_world rpc"
  assumes api: "recv_fills api" and s: "rpc_idle s U" "rpc_reach h0 w0 s" "trans s t = Some tc" "t_recv tc \<noteq> None"
    and st: "fst (frames (stream_of s t)) = []" and r: "recv_round api ctx (world s) = (seg, w)"
    and m: "\<forall>m \<in> set (fst (frames (stream_of s t @ concat seg))). is_response m"
    and room: "heap_room (rheap s) (4 * (length (stream_of s t) + 4096) + 200)"
  shows "\<exists>s' tc'. poll_step api ctx t s = Some (seg, s') \<and> world s' = w \<and> rpc_idle s' U \<and> rpc_reach h0 w0 s' \<and>
    trans s' t = Some tc' \<and> t_recv tc' \<noteq> None \<and> rx_log s' = rx_log s @ fst (frames (stream_of s t @ concat seg)) \<and>
    stream_of s' t = snd (frames (stream_of s t @ concat seg))"
proof -
  obtain n buf where c: "rpc_tcp_recv api ctx 4096 (world s) = (n, buf, w)" "seg = (if 0 < sint n then [take (unat n) buf] else [])"
    using r by (auto simp: recv_round_def split: prod.splits)
  let ?s1 = "s\<lparr>world := w\<rparr>"
  have i1: "rpc_idle ?s1 U" "trans ?s1 t = Some tc" "rpc_reach h0 w0 ?s1" "stream_of ?s1 t = stream_of s t"
    using idle_world [OF s(1)] s(3) rpc_reach.outside [OF s(2)] by (simp_all add: stream_of_def)
  show ?thesis
  proof (cases "0 < sint n")
    case False
    then have "poll_step api ctx t s = Some (seg, ?s1)" "seg = []" using c by (simp_all add: poll_step_def)
    then show ?thesis using i1 s(4) st frames_none [OF st] by (intro exI [of _ ?s1] exI [of _ tc]) simp
  next
    case True
    have n: "sint n \<le> 4096" "nat (sint n) \<le> length buf"
      using api c(1) unfolding recv_fills_def rpc_tcp_recv_def by (force split: prod.splits)+
    note u = recv_count [OF True n(1)]
    let ?d = "take (unat n) buf"
    have d: "buf_read buf 0 (unat n) = Some ?d" "?d \<noteq> []" "length ?d \<le> 2 ^ 32" "length ?d \<le> 4096" "seg = [?d]"
      using u n(2) True c(2) by (auto simp: buf_read_def)
    have m1: "\<forall>m \<in> set (fst (frames (stream_of ?s1 t @ ?d))). is_response m" using m d(5) i1(4) by simp
    have "heap_room (rheap s) (4 * length (stream_of s t @ ?d) + 200)" by (rule heap_room_mono [OF room]) (use d(4) in simp)
    then have r1: "heap_room (rheap ?s1) (4 * length (stream_of ?s1 t @ ?d) + 200)" unfolding i1(4) by simp
    from on_data_responses [OF i1(1,2) s(4) d(2,3) m1 r1] obtain s' tc' where
      s': "rpc_on_data ?s1 t ?d = Some s'" "rpc_idle s' U" "rx_log s' = rx_log s @ fst (frames (stream_of s t @ ?d))"
      "stream_of s' t = snd (frames (stream_of s t @ ?d))" "world s' = w" "trans s' t = Some tc'" "t_recv tc' = t_recv tc"
      unfolding i1(4) by auto
    have "rpc_reach h0 w0 s'" by (rule rpc_reach.data [OF i1(3) _ d(2,3) s'(1)]) (use i1(2) in auto)
    moreover have "poll_step api ctx t s = Some (seg, s')" using c(1) True d(1,5) s'(1) by (simp add: poll_step_def)
    ultimately show ?thesis using s' s(4) d(5) by (intro exI [of _ s'] exI [of _ tc']) simp
  qed
qed

lemma poll_exact:
  fixes s :: "'k tcp_world rpc"
  assumes api: "recv_fills api"
  shows "rpc_idle s U \<Longrightarrow> rpc_reach h0 w0 s \<Longrightarrow> trans s t = Some tc \<Longrightarrow> t_recv tc \<noteq> None \<Longrightarrow>
    fst (frames (stream_of s t)) = [] \<Longrightarrow> recv_rounds api ctx k (world s) = (segs, w) \<Longrightarrow>
    \<forall>m \<in> set (fst (frames (stream_of s t @ concat segs))). is_response m \<Longrightarrow>
    \<forall>i < k. \<forall>l s1. poll_thread api ctx t i s = Some (l, s1) \<longrightarrow> heap_room (rheap s1) (4 * (length (stream_of s1 t) + 4096) + 200) \<Longrightarrow>
    \<exists>s'. poll_thread api ctx t k s = Some (segs, s') \<and> rx_log s' = rx_log s @ fst (frames (stream_of s t @ concat segs)) \<and>
      stream_of s' t = snd (frames (stream_of s t @ concat segs)) \<and> world s' = w \<and> rpc_idle s' U \<and> rpc_reach h0 w0 s'"
proof (induction k arbitrary: s tc segs w)
  case 0
  then show ?case using frames_none [OF 0(5)] by simp
next
  case (Suc k)
  obtain seg w1 where r1: "recv_round api ctx (world s) = (seg, w1)" by fastforce
  obtain segs1 where r2: "recv_rounds api ctx k w1 = (segs1, w)" "segs = seg @ segs1" using Suc.prems(6) r1 by (auto split: prod.splits)
  have f: "frames (stream_of s t @ concat segs) =
      (fst (frames (stream_of s t @ concat seg)) @ fst (frames (snd (frames (stream_of s t @ concat seg)) @ concat segs1)),
       snd (frames (snd (frames (stream_of s t @ concat seg)) @ concat segs1)))"
    using frames_append [of "stream_of s t @ concat seg" "concat segs1"] r2(2) by simp
  have m1: "\<forall>m \<in> set (fst (frames (stream_of s t @ concat seg))). is_response m" using Suc.prems(7) unfolding f by simp
  have room: "heap_room (rheap s) (4 * (length (stream_of s t) + 4096) + 200)" using Suc.prems(8) [rule_format, of 0] by simp
  from poll_step_exact [OF api Suc.prems(1-5) r1 m1 room] obtain s1 tc1 where
    s1: "poll_step api ctx t s = Some (seg, s1)" "world s1 = w1" "rpc_idle s1 U" "rpc_reach h0 w0 s1" "trans s1 t = Some tc1"
    "t_recv tc1 \<noteq> None" "rx_log s1 = rx_log s @ fst (frames (stream_of s t @ concat seg))"
    "stream_of s1 t = snd (frames (stream_of s t @ concat seg))" by blast
  have st1: "fst (frames (stream_of s1 t)) = []" unfolding s1(8) by (simp add: frames_rest)
  have m2: "\<forall>m \<in> set (fst (frames (stream_of s1 t @ concat segs1))). is_response m" using Suc.prems(7) unfolding f s1(8) by simp
  have rooms: "\<forall>i < k. \<forall>l s2. poll_thread api ctx t i s1 = Some (l, s2) \<longrightarrow> heap_room (rheap s2) (4 * (length (stream_of s2 t) + 4096) + 200)"
  proof (intro allI impI)
    fix i l s2 assume i: "i < k" "poll_thread api ctx t i s1 = Some (l, s2)"
    then have "poll_thread api ctx t (Suc i) s = Some (seg @ l, s2)" using s1(1) by simp
    with Suc.prems(8) i(1) show "heap_room (rheap s2) (4 * (length (stream_of s2 t) + 4096) + 200)" by (meson Suc_less_eq)
  qed
  from Suc.IH [OF s1(3-6) st1 r2(1) [folded s1(2)] m2 rooms] obtain s' where
    "poll_thread api ctx t k s1 = Some (segs1, s')" "rx_log s' = rx_log s1 @ fst (frames (stream_of s1 t @ concat segs1))"
    "stream_of s' t = snd (frames (stream_of s1 t @ concat segs1))" "world s' = w" "rpc_idle s' U" "rpc_reach h0 w0 s'" by blast
  then show ?case using s1(1,7,8) r2(2) unfolding f by simp
qed

section \<open>The outcome of a round\<close>

lemma pick_range_bounds:
  assumes "pick_range fsize r1 r2 = (off, sz)"
  shows "1 \<le> sz" "sz \<le> 1024" "sz \<le> fsize \<Longrightarrow> off + sz \<le> fsize"
proof -
  have sz: "sz = 1 + r1 mod 1024" "off = (if int fsize - int sz > 0 then r2 mod nat (int fsize - int sz) else 0)"
    using assms by (auto simp: pick_range_def MAX_CHUNK_def Let_def)
  show "1 \<le> sz" "sz \<le> 1024" unfolding sz(1) by (simp_all add: Suc_le_eq)
  show "off + sz \<le> fsize" if "sz \<le> fsize"
  proof (cases "sz < fsize")
    case True
    then have "r2 mod nat (int fsize - int sz) < nat (int fsize - int sz)" by (intro mod_less_divisor) simp
    then show ?thesis using True sz(2) by (simp; linarith)
  next
    case False
    then show ?thesis using that sz(2) by simp
  qed
qed

text \<open>After a result struct with one block has been freed, only the blocks before the call are left.\<close>

lemma free_one_result:
  assumes s: "rpc_idle s (U \<union> set (ptrs rs))" "U \<inter> set (ptrs rs) = {}" and one: "ptrs rs = (if p = 0 then [] else [p])"
    and free: "free_fields (rheap s) rs = (if p \<noteq> 0 then heap_free (rheap s) p else Some (rheap s))"
  shows "\<exists>h. free_result (rheap s) rs = Some h \<and> rpc_idle (s\<lparr>rheap := h\<rparr>) U"
proof (cases "p = 0")
  case True
  then show ?thesis using s(1) one free by (simp add: free_result_def)
next
  case False
  then have "rpc_idle s (insert p U)" "p \<notin> U" using s one by auto
  from idle_user_free [OF this] show ?thesis using False free by (simp add: free_result_def)
qed

lemma nodeB_round_outcome:
  fixes s :: "'w rpc"
  assumes w: "i32_writer_ok wr" and s: "rpc_idle s U" "transport_of s (rpcname fs_read_schema) = Some t" "trans s t = Some tc"
    and f: "t_send tc = Some f" "\<forall>q v. 0 \<le> to_int (fst (f (t_user tc) (request_msg q (rpcname fs_read_schema) (wire [F_string path (lit ''./big.bin''), F_u32 (word_of_nat off), F_u32 (word_of_nat sz)])) v))"
    and ans: "answers wait s (rpcname fs_read_schema) (wire [F_string path (lit ''./big.bin''), F_u32 (word_of_nat off), F_u32 (word_of_nat sz)]) t' (encode_list encode_val [V_bytes d, V_u32 n, V_u32 e])"
    and room: "heap_room (rheap s) k" "50000 \<le> k" "k < 2 ^ 31"
    and pr: "pick_range (length content) r1 r2 = (off, sz)" "sz \<le> length content" and d: "length d \<le> 4000"
  shows "\<exists>v buf' s'. nodeB_round wr wait path content r1 r2 buf s True =
      Some (v, buf', s') \<and> v = (if crc32_calc d = crc32_calc (take sz (drop off content)) then Passed else Differs) \<and>
    pending_of s' = pending_of s \<and> (v = Passed \<longrightarrow> rpc_idle s' U)"
proof -
  let ?vs = "[V_bytes d, V_u32 n, V_u32 e]" and ?m = fs_read_schema
  let ?ps = "[F_string path (lit ''./big.bin''), F_u32 (word_of_nat off), F_u32 (word_of_nat sz)]"
  have vs: "\<forall>v \<in> set ?vs. val_ok v" "map type_of_val ?vs = results ?m" "length (encode_list encode_val ?vs) \<le> 4096"
    using d by simp_all
  have nm: "length (c_str (lit ''./big.bin'')) = 9" by code_simp
  have "42000 + 2 * estimate_size 0 ?ps + length (c_str (rpcname ?m)) \<le> k" using nm room(2) by simp
  from stub_answered [OF w s(1,2,3) f ans vs room(1) this room(3)] obtain rs s' where
    c: "rpc_call_stub wr wait s ?m ?ps True = Some (0, Some rs, s')" "map val_of rs = ?vs"
    "rpc_idle s' (U \<union> set (ptrs rs))" "U \<inter> set (ptrs rs) = {}" "pending_of s' = pending_of s" by (elim exE conjE)
  from c(2) obtain p where rs: "rs = [F_bytes p d, F_u32 n, F_u32 e]" by auto
  from free_one_result [OF c(3,4), of p] rs obtain h where h: "free_result (rheap s') rs = Some h" "rpc_idle (s'\<lparr>rheap := h\<rparr>) U" by auto
  have l: "length (take sz (drop off content)) = sz" using pick_range_bounds(3) [OF pr(1,2)] by simp
  then have t: "take sz (take sz (drop off content) @ drop (length (take sz (drop off content))) buf) = take sz (drop off content)" by simp
  let ?buf = "take sz (drop off content) @ drop (length (take sz (drop off content))) buf"
  have "nodeB_round wr wait path content r1 r2 buf s True = (if crc32_calc (take sz (drop off content)) \<noteq> crc32_calc d
      then Some (Differs, ?buf, s') else Some (Passed, ?buf, s'\<lparr>rheap := h\<rparr>))"
    using c(1) h(1) rs t by (simp only: nodeB_round_def Let_def pr(1) prod.case) simp
  moreover have "pending_of (s'\<lparr>rheap := h\<rparr>) = pending_of s" using c(5) by simp
  ultimately show ?thesis using c(5) h(2) by (cases "crc32_calc d = crc32_calc (take sz (drop off content))") auto
qed

lemma nodeA_round_outcome:
  fixes s :: "'w rpc"
  assumes w: "i32_writer_ok wr" and s: "rpc_idle s U" "transport_of s (rpcname shell_exec_schema) = Some t" "trans s t = Some tc"
    and f: "t_send tc = Some f" "\<forall>q v. 0 \<le> to_int (fst (f (t_user tc) (request_msg q (rpcname shell_exec_schema) (wire [F_string p (cmds ! (r1 mod 3))])) v))"
    and ans: "answers wait s (rpcname shell_exec_schema) (wire [F_string p (cmds ! (r1 mod 3))]) t' (encode_list encode_val [V_string d, V_u32 e])"
    and room: "heap_room (rheap s) k" "50000 \<le> k" "k < 2 ^ 31"
    and cmd: "commands (cmds ! (r1 mod 3)) = Some (out, local_exit)" and d: "length d \<le> 4000"
  shows "\<exists>v s'. nodeA_round wr wait p commands r1 s True = Some (v, s') \<and>
    v = (if crc32_calc (c_str d) = crc32_calc (take 4095 out) \<and> local_exit = sint e then Passed else Differs) \<and>
    pending_of s' = pending_of s \<and> (v = Passed \<longrightarrow> rpc_idle s' U)"
proof -
  let ?vs = "[V_string d, V_u32 e]" and ?m = shell_exec_schema and ?cmd = "cmds ! (r1 mod 3)"
  have vs: "\<forall>v \<in> set ?vs. val_ok v" "map type_of_val ?vs = results ?m" "length (encode_list encode_val ?vs) \<le> 4096"
    using d by (simp_all add: shell_exec_schema_def)
  have lc: "length cmds = 3" by (simp add: cmds_def)
  have "\<forall>c \<in> set cmds. length (c_str c) \<le> 10" by code_simp
  moreover have "?cmd \<in> set cmds" using lc by simp
  ultimately have nm: "length (c_str ?cmd) \<le> 10" by blast
  have nn: "length (c_str (rpcname ?m)) = 10" by code_simp
  have "42000 + 2 * estimate_size 0 [F_string p ?cmd] + length (c_str (rpcname ?m)) \<le> k" using nm nn room(2) by simp
  from stub_answered [OF w s(1,2,3) f ans vs room(1) this room(3)] obtain rs s' where
    c: "rpc_call_stub wr wait s ?m [F_string p ?cmd] True = Some (0, Some rs, s')" "map val_of rs = ?vs"
    "rpc_idle s' (U \<union> set (ptrs rs))" "U \<inter> set (ptrs rs) = {}" "pending_of s' = pending_of s"
    "\<exists>h h'. parse_fields (results ?m) h (encode_list encode_val ?vs) = Some (0, rs, h')" by (elim exE conjE) (rule that, assumption+, intro exI, assumption)
  from c(2) obtain a where rs: "rs = [F_string a d, F_u32 e]" by auto
  from free_one_result [OF c(3,4), of a] rs obtain h where h: "free_result (rheap s') rs = Some h" "rpc_idle (s'\<lparr>rheap := h\<rparr>) U" by auto
  from c(6) obtain h1 h2 where "parse_fields (T_string # [T_u32]) h1 (encode_list encode_val ?vs) = Some (0, F_string a d # [F_u32 e], h2)"
    unfolding rs shell_exec_schema_def rpc_schema.simps by (elim exE)
  then have a: "a \<noteq> 0" by (rule parsed_string_nonnull)
  have "nodeA_round wr wait p commands r1 s True = (if crc32_calc (take (4096 - 1) out) \<noteq> crc32_calc (c_str d) \<or> local_exit \<noteq> sint e
      then Some (Differs, s') else Some (Passed, s'\<lparr>rheap := h\<rparr>))"
    using c(1) h(1) rs a by (simp only: nodeA_round_def Let_def cmd lc option.case prod.case) simp
  moreover have "pending_of (s'\<lparr>rheap := h\<rparr>) = pending_of s" using c(5) by simp
  ultimately show ?thesis using c(5) h(2)
    by (cases "crc32_calc (c_str d) = crc32_calc (take 4095 out) \<and> local_exit = sint e") auto
qed

section \<open>Properties\<close>

text \<open>A kernel for the examples: descriptors are numbered upwards, every connection delivers the same two bytes
  again and again, and everything that is sent is accepted.\<close>

definition demo_api :: "(os \<times> int list) socket_api" where
  "demo_api = \<lparr>sk_socket = (\<lambda>(v, k). let fd = 1 + Max (insert 2 (set k)) in (fd, (v, fd # k))), sk_setsockopt = (\<lambda>fd v k. (0, k)),
     sk_inet_pton = (\<lambda>s. Some 0x0100007f), sk_connect = (\<lambda>fd a p k. (0, k)), sk_bind = (\<lambda>fd a p k. (0, k)), sk_listen = (\<lambda>fd n k. (0, k)),
     sk_accept = (\<lambda>fd (v, k). let fd = 1 + Max (insert 2 (set k)) in (fd, (v, fd # k))),
     sk_send = (\<lambda>fd b k. (1, k)), sk_recv = (\<lambda>fd n k. (if n < 2 then 0 else 2, [0, 0], k)), sk_close = (\<lambda>fd (v, k). (0, (v, filter (\<lambda>x. x \<noteq> fd) k)))\<rparr>"

lemma demo_posix: "posix_sockets demo_api (\<lambda>k. set (snd k))"
  using toy_fd by (auto simp: posix_sockets_def demo_api_def new_fd_def Let_def)

lemma demo_recv: "recv_fills demo_api"
  by (simp add: recv_fills_def demo_api_def)

definition demo_env :: "int list env" where
  "demo_env = \<lparr>sockfd = (\<lambda>_. - 1), kernel = (demo_os, [])\<rparr>"

lemma demo_connect: "rpc_tcp_connect demo_api 7 ip 9001 demo_env = (0, demo_env\<lparr>sockfd := (\<lambda>_. - 1)(7 := 3), kernel := (demo_os, [3])\<rparr>)"
  by (simp add: rpc_tcp_connect_def demo_api_def demo_env_def Let_def)

text \<open>C15. The start of a node: when the connection cannot be set up, the program returns -1 before anything else;
  otherwise, with room in the heap, it comes up in a state that the core reaches, with its service registered, both
  method names bound to the new transport, and the transport using the connection.\<close>
theorem nodes_start:
  fixes api :: "(os \<times> 'n) socket_api" and w :: "'n env"
  assumes "i32_writer_ok wr" "heap_owns h {}" "heap_room h 14000"
  shows "(case rpc_tcp_connect api ctx (lit ''127.0.0.1'') 9001 w of (r, w1) \<Rightarrow>
      if r < 0 then nodeA_main wr api ctx h w = Some (Inl w1)
      else \<exists>t s. nodeA_main wr api ctx h w = Some (Inr (t, s)) \<and>
        started api ctx h w1 fs_read_schema (provider_entry wr fs_read_schema (on_os fs_read_handler)) t s) \<and>
    (case rpc_tcp_listen api l 9001 w of (r, w1) \<Rightarrow> case rpc_tcp_accept api l ctx w1 of (r2, w2) \<Rightarrow>
      if r < 0 then nodeB_main wr api l ctx h w = Some (Inl w1)
      else if r2 < 0 then nodeB_main wr api l ctx h w = Some (Inl w2)
      else \<exists>t s. nodeB_main wr api l ctx h w = Some (Inr (t, s)) \<and>
        started api ctx h w2 shell_exec_schema (provider_entry wr shell_exec_schema (on_os shell_exec_handler)) t s)"
proof
  have mA: "method_ok (provider_entry wr fs_read_schema (on_os fs_read_handler) :: 'n env rpc_method_entry)"
    by (rule on_os_ok [OF _ assms(1)]) (use fs_read_own in blast)
  have mB: "method_ok (provider_entry wr shell_exec_schema (on_os shell_exec_handler) :: 'n env rpc_method_entry)"
    by (rule on_os_ok [OF _ assms(1)]) (use shell_exec_own in blast)
  note core = start_core_started [OF assms(2,3) order_refl]
  obtain r w1 where c: "rpc_tcp_connect api ctx (lit ''127.0.0.1'') 9001 w = (r, w1)" by fastforce
  from core [OF mA, of api ctx w1] obtain t s where
    a: "start_core wr api ctx fs_read_schema fs_read_handler h w1 = Some (t, s)"
    "started api ctx h w1 fs_read_schema (provider_entry wr fs_read_schema (on_os fs_read_handler)) t s" by blast
  show "case rpc_tcp_connect api ctx (lit ''127.0.0.1'') 9001 w of (r, w1) \<Rightarrow>
      if r < 0 then nodeA_main wr api ctx h w = Some (Inl w1)
      else \<exists>t s. nodeA_main wr api ctx h w = Some (Inr (t, s)) \<and>
        started api ctx h w1 fs_read_schema (provider_entry wr fs_read_schema (on_os fs_read_handler)) t s"
    using a c by (simp add: nodeA_main_def)
  obtain r1 v1 where l: "rpc_tcp_listen api l 9001 w = (r1, v1)" by fastforce
  obtain r2 v2 where x: "rpc_tcp_accept api l ctx v1 = (r2, v2)" by fastforce
  from core [OF mB, of api ctx v2] obtain t2 s2 where
    b: "start_core wr api ctx shell_exec_schema shell_exec_handler h v2 = Some (t2, s2)"
    "started api ctx h v2 shell_exec_schema (provider_entry wr shell_exec_schema (on_os shell_exec_handler)) t2 s2" by blast
  show "case rpc_tcp_listen api l 9001 w of (r, w1) \<Rightarrow> case rpc_tcp_accept api l ctx w1 of (r2, w2) \<Rightarrow>
      if r < 0 then nodeB_main wr api l ctx h w = Some (Inl w1)
      else if r2 < 0 then nodeB_main wr api l ctx h w = Some (Inl w2)
      else \<exists>t s. nodeB_main wr api l ctx h w = Some (Inr (t, s)) \<and>
        started api ctx h w2 shell_exec_schema (provider_entry wr shell_exec_schema (on_os shell_exec_handler)) t s"
    using b l x by (simp add: nodeB_main_def)
qed

theorem nodes_start_witness:
  "\<exists>w t s. nodeA_main tlv_write_u32 demo_api 7 demo_heap demo_env = Some (Inr (t, s)) \<and>
     started demo_api 7 demo_heap w fs_read_schema (provider_entry tlv_write_u32 fs_read_schema (on_os fs_read_handler)) t s"
proof -
  have "heap_room demo_heap 14000" by (rule heap_room_mono [OF demo_heap_room]) simp
  from nodes_start [OF i32_as_u32 demo_heap_owns this, of demo_api 7 demo_env 8] show ?thesis
    unfolding demo_connect by auto
qed

lemma demo_node_room:
  "\<exists>w t s. started demo_api 7 demo_heap w fs_read_schema (provider_entry tlv_write_u32 fs_read_schema (on_os fs_read_handler)) t s \<and>
     heap_room (rheap s) 1000000"
proof -
  have m: "method_ok (provider_entry tlv_write_u32 fs_read_schema (on_os fs_read_handler) :: int list env rpc_method_entry)"
    by (rule on_os_ok [OF _ i32_as_u32]) (use fs_read_own in blast)
  have k: "14000 \<le> (1048576 :: nat)" by simp
  from start_core_started [OF demo_heap_owns demo_heap_room k m, of demo_api 7 demo_env] obtain t s where
    s: "started demo_api 7 demo_heap demo_env fs_read_schema (provider_entry tlv_write_u32 fs_read_schema (on_os fs_read_handler)) t s"
    "heap_room (rheap s) (1048576 - 13000)" by blast
  then show ?thesis using heap_room_mono [OF s(2), of 1000000] by auto
qed

text \<open>C14. However TCP cuts a stream of responses into segments, the polling thread hands the core exactly the messages
  of the stream: any number \<open>k\<close> of rounds ends, and when \<^verbatim>\<open>recv\<close> brings the segments \<open>segs\<close> in these rounds, the messages
  dispatched are exactly those that the bytes kept from before and \<open>segs\<close> make up, in their order; the unfinished rest is
  kept, the environment is changed by \<^verbatim>\<open>recv\<close> only, and the state stays one that the core reaches. Before each round the heap
  has a free block of four times the kept bytes and a full buffer, and \<^verbatim>\<open>recv\<close> fills what it reports, at most its buffer.\<close>
theorem poll_stream:
  fixes s :: "'k tcp_world rpc"
  assumes "recv_fills api" "rpc_idle s U" "rpc_reach h0 w0 s" "trans s t = Some tc" "t_recv tc \<noteq> None"
    and "fst (frames (stream_of s t)) = []" "recv_rounds api ctx k (world s) = (segs, w)"
    and "\<forall>m \<in> set (fst (frames (stream_of s t @ concat segs))). is_response m"
    and "\<forall>i < k. \<forall>l s1. poll_thread api ctx t i s = Some (l, s1) \<longrightarrow>
      heap_room (rheap s1) (4 * (length (stream_of s1 t) + 4096) + 200)"
  shows "\<exists>s'. poll_thread api ctx t k s = Some (segs, s') \<and>
    rx_log s' = rx_log s @ fst (frames (stream_of s t @ concat segs)) \<and> stream_of s' t = snd (frames (stream_of s t @ concat segs)) \<and>
    world s' = w \<and> rpc_idle s' U \<and> rpc_reach h0 w0 s'"
  using poll_exact [OF assms] by blast

theorem poll_stream_witness:
  "\<exists>w t s s'. rpc_reach demo_heap w s \<and> poll_thread demo_api 7 t 1 s = Some ([[0, 0]], s') \<and>
     rpc_idle s' {} \<and> rx_log s' = rx_log s \<and> stream_of s' t = [0, 0]"
proof -
  from demo_node_room obtain w t s where
    s: "started demo_api 7 demo_heap w fs_read_schema (provider_entry tlv_write_u32 fs_read_schema (on_os fs_read_handler)) t s"
    "heap_room (rheap s) 1000000" by blast
  then have d: "rpc_reach demo_heap w s" "rpc_idle s {}" unfolding started_def by blast+
  have st: "stream_of s t = []" using s(1) by (simp add: started_def stream_of_def stream_def)
  have f: "fst (frames (stream_of s t)) = []" "frames [0, 0] = ([], [0, 0 :: u8])" unfolding st by (simp_all add: frames_short)
  obtain tc where tc: "trans s t = Some tc" "t_recv tc \<noteq> None" using s(1) unfolding started_def by fastforce
  have rc: "recv_rounds demo_api 7 1 (world s) = ([[0, 0]], world s)"
    by (simp add: recv_round_def rpc_tcp_recv_def demo_api_def)
  have fr: "\<forall>m \<in> set (fst (frames (stream_of s t @ concat [[0, 0]]))). is_response m" using f(2) st by simp
  have room: "\<forall>i < 1. \<forall>l s1. poll_thread demo_api 7 t i s = Some (l, s1) \<longrightarrow> heap_room (rheap s1) (4 * (length (stream_of s1 t) + 4096) + 200)"
    using heap_room_mono [OF s(2)] st by simp
  from poll_stream [OF demo_recv d(2,1) tc f(1) rc fr room] d(1) show ?thesis using f(2) st by auto
qed

text \<open>A round of node B ends with a verdict, and the right one: with room in the heap, a transport that sends and a
  file as long as the part chosen, the part lies inside the file, and when the response brings the bytes \<open>d\<close> the
  round passes exactly when \<open>d\<close> and that part have the same checksum, as they do when they are equal. No call stays pending, and a round that passes leaves nothing
  allocated.\<close>
theorem nodeB_round_verdict:
  fixes s :: "'w rpc"
  assumes "i32_writer_ok wr" "rpc_idle s U" "transport_of s (rpcname fs_read_schema) = Some t" "trans s t = Some tc"
    and "t_send tc = Some f" "\<forall>msg v. 0 \<le> to_int (fst (f (t_user tc) msg v))"
    and "heap_room (rheap s) k" "50000 \<le> k" "k < 2 ^ 31"
    and "pick_range (length content) r1 r2 = (off, sz)" "sz \<le> length content" "length d \<le> 4000"
  shows "off + sz \<le> length content \<and>
    (\<exists>v buf' s'. nodeB_round wr (answer_with t' (encode_list encode_val [V_bytes d, V_u32 n, V_u32 e])) path content r1 r2 buf s True =
      Some (v, buf', s') \<and> v = (if crc32_calc d = crc32_calc (take sz (drop off content)) then Passed else Differs) \<and>
      pending_of s' = pending_of s \<and> (v = Passed \<longrightarrow> rpc_idle s' U))"
  using pick_range_bounds(3) [OF assms(10,11)] nodeB_round_outcome [OF assms(1-5) _ answers_with assms(7-12), of path t' n e buf] assms(6) by blast

lemma demo_send_ok: "\<forall>msg v. 0 \<le> to_int (fst (rpc_tcp_send demo_api u msg v))"
  by (simp add: rpc_tcp_send_def demo_api_def to_int_def)

theorem nodeB_round_verdict_witness:
  "\<exists>w t s buf' s'. rpc_reach demo_heap w s \<and>
     nodeB_round tlv_write_u32 (answer_with t (encode_list encode_val [V_bytes [7, 8], V_u32 2, V_u32 0])) 1 [7, 8] 1 5 [] s True =
       Some (Passed, buf', s') \<and> rpc_idle (s' :: int list env rpc) {}"
proof -
  from demo_node_room obtain w t s where
    s: "started demo_api 7 demo_heap w fs_read_schema (provider_entry tlv_write_u32 fs_read_schema (on_os fs_read_handler)) t s"
    "heap_room (rheap s) 1000000" by blast
  then obtain tc where tc: "rpc_reach demo_heap w s" "rpc_idle s {}" "transport_of s (rpcname fs_read_schema) = Some t" "trans s t = Some tc"
    "t_send tc = Some (rpc_tcp_send demo_api)" unfolding started_def by fastforce
  have p: "pick_range (length [7, 8 :: u8]) 1 5 = (0, 2)" by (simp add: pick_range_def MAX_CHUNK_def)
  from nodeB_round_verdict [OF i32_as_u32 tc(2-5) demo_send_ok s(2) _ _ p, of "[7, 8]" t 2 0 1 "[]"] obtain buf' s' where
    "nodeB_round tlv_write_u32 (answer_with t (encode_list encode_val [V_bytes [7, 8], V_u32 2, V_u32 0])) 1 [7, 8] 1 5 [] s True =
       Some (Passed, buf', s')" "rpc_idle s' {}" by (auto simp del: encode_list_simps encode_val.simps)
  with tc(1) show ?thesis by blast
qed

text \<open>A round of node A passes exactly when the response brings a text with the checksum of the output of the same
  command on node A, up to the first NUL byte, and the same exit code; then nothing stays allocated.\<close>
theorem nodeA_round_verdict:
  fixes s :: "'w rpc"
  assumes "i32_writer_ok wr" "rpc_idle s U" "transport_of s (rpcname shell_exec_schema) = Some t" "trans s t = Some tc"
    and "t_send tc = Some f" "\<forall>msg v. 0 \<le> to_int (fst (f (t_user tc) msg v))"
    and "heap_room (rheap s) k" "50000 \<le> k" "k < 2 ^ 31"
    and "commands (cmds ! (r1 mod 3)) = Some (out, local_exit)" "length d \<le> 4000"
  shows "\<exists>v s'. nodeA_round wr (answer_with t' (encode_list encode_val [V_string d, V_u32 e])) p commands r1 s True = Some (v, s') \<and>
    v = (if crc32_calc (c_str d) = crc32_calc (take 4095 out) \<and> local_exit = sint e then Passed else Differs) \<and>
    pending_of s' = pending_of s \<and> (v = Passed \<longrightarrow> rpc_idle s' U)"
  using nodeA_round_outcome [where commands = commands and ?r1.0 = r1, OF assms(1-5) _ answers_with assms(7-11), of p t'] assms(6) by blast

theorem nodeA_round_verdict_witness:
  "\<exists>w t s s'. rpc_reach demo_heap w s \<and>
     nodeA_round tlv_write_u32 (answer_with t (encode_list encode_val [V_string [7, 8], V_u32 1])) 1 (\<lambda>_. Some ([7, 8], 0)) 4 s True =
       Some (Differs, s' :: int list env rpc) \<and> pending_of s' = pending_of s"
proof -
  from demo_node_room obtain w t s where
    s: "started demo_api 7 demo_heap w fs_read_schema (provider_entry tlv_write_u32 fs_read_schema (on_os fs_read_handler)) t s"
    "heap_room (rheap s) 1000000" by blast
  then obtain tc where tc: "rpc_reach demo_heap w s" "rpc_idle s {}" "transport_of s (rpcname shell_exec_schema) = Some t" "trans s t = Some tc"
    "t_send tc = Some (rpc_tcp_send demo_api)" unfolding started_def by fastforce
  have c: "(\<lambda>_. Some ([7, 8], 0)) (cmds ! (4 mod 3)) = Some ([7, 8 :: u8], 0 :: int)" by simp
  from nodeA_round_verdict [where commands = "\<lambda>_. Some ([7, 8], 0)" and ?r1.0 = 4, OF i32_as_u32 tc(2-5) demo_send_ok s(2) _ _ c, of "[7, 8]" t 1 1] obtain s' where
    "nodeA_round tlv_write_u32 (answer_with t (encode_list encode_val [V_string [7, 8], V_u32 1])) 1 (\<lambda>_. Some ([7, 8], 0)) 4 s True =
       Some (Differs, s')" "pending_of s' = pending_of s" by (auto simp del: encode_list_simps encode_val.simps)
  with tc(1) show ?thesis by blast
qed

end
