(* ===== verification/Remote.thy ===== *)
theory Remote
  imports Nodes
begin

text \<open>
  The two nodes together: a stub call of one node, whose request the core of the other node dispatches to its file
  service, and whose response comes back. Both transports append what is sent to the socket of their environment;
  the messages get across whole, as the reassembly delivers them.
\<close>

section \<open>Definitions\<close>

definition sock_send :: "addr \<Rightarrow> bytes \<Rightarrow> os \<Rightarrow> u64 \<times> os" where
  "sock_send u b w = (word_of_nat (length b), w\<lparr>socket := socket w @ [b]\<rparr>)"

text \<open>What happens while a caller on a node in state \<open>s\<close> waits: the other node \<open>sv\<close> gets the last message sent, and what
  it sends in turn arrives at the transport \<open>t\<close>; without an answer the wait ends with -1.\<close>

definition exchange :: "addr \<Rightarrow> os rpc \<Rightarrow> addr \<Rightarrow> os rpc \<Rightarrow> addr \<Rightarrow> (int \<times> os rpc) option" where
  "exchange t sv ts s a = do {
     sv' \<leftarrow> rpc_dispatch_message sv ts (last (socket (world s)));
     case drop (length (socket (world sv))) (socket (world sv')) of
       [] \<Rightarrow> Some (- 1, s)
     | msg # _ \<Rightarrow> do { s \<leftarrow> rpc_dispatch_message s t msg; Some (0, s) } }"

section \<open>The server\<close>

text \<open>A request is answered \<^verbatim>\<open>OK\<close> with the payload \<open>pl\<close> on the socket, and the server keeps the blocks \<open>V\<close> and no others.\<close>

definition serves :: "os rpc \<Rightarrow> addr set \<Rightarrow> addr \<Rightarrow> bytes \<Rightarrow> bytes \<Rightarrow> bytes \<Rightarrow> bool" where
  "serves sv V ts name tlvs pl \<longleftrightarrow> (\<forall>q. \<exists>sv'. rpc_dispatch_message sv ts (request_msg q name tlvs) = Some sv' \<and> rpc_idle sv' V \<and>
     world sv' = (world sv)\<lparr>socket := socket (world sv) @ [response_msg q 0 pl]\<rparr>)"

lemma provider_serves:
  fixes sv :: "os rpc"
  assumes w: "i32_writer_ok wr" and s: "rpc_idle sv V" "method_of sv (rpcname m) = Some (provider_entry wr m handler)"
    and t: "trans sv ts = Some tcs" "t_send tcs = Some sock_send" and hr: "respects_heap handler"
    and ps: "\<forall>f \<in> set ps. sendable f" "map (type_of_val \<circ> val_of) ps = params m" "length (wire ps) \<le> 300"
    and nm: "0 < length (c_str (rpcname m))" "length (c_str (rpcname m)) < 128"
    and room: "heap_room (rheap sv) 50000"
    and im: "implements 8500 m handler service (world sv) (map val_of ps)" "service (world sv) (map val_of ps) = (Some vs, world sv)"
  shows "serves sv V ts (rpcname m) (wire ps) (encode_list encode_val vs)"
  unfolding serves_def
proof
  fix q
  have l: "length (c_str (rpcname m)) + length (wire ps) < 2 ^ 32" using nm(2) ps(3) by simp
  have r: "heap_room (rheap sv) (9 * length (wire ps) + 100 + 8500)" by (rule heap_room_mono [OF room]) (use ps(3) in simp)
  have dc: "decode_list decode_val (params m) (wire ps) = Some (map val_of ps, [])" by (rule decode_wire [OF ps(1,2)])
  have i: "\<forall>vs rest. decode_list decode_val (params m) (wire ps) = Some (vs, rest) \<longrightarrow> implements 8500 m handler service (world sv) vs"
    using im(1) dc by simp
  have rp: "reply m service (world sv) (wire ps) = (0, encode_list encode_val vs, world sv)"
    using im(2) dc by (simp add: reply_def RPC_STATUS_OK_def)
  from provider_answers [OF w s t hr nm l r i, of q]
  show "\<exists>sv'. rpc_dispatch_message sv ts (request_msg q (rpcname m) (wire ps)) = Some sv' \<and> rpc_idle sv' V \<and>
     world sv' = (world sv)\<lparr>socket := socket (world sv) @ [response_msg q 0 (encode_list encode_val vs)]\<rparr>"
    unfolding rp by (simp add: sock_send_def)
qed

lemma fs_read_serves_ok:
  fixes sv :: "os rpc"
  assumes w: "i32_writer_ok wr" and s: "rpc_idle sv V" "method_of sv (rpcname fs_read_schema) = Some (provider_entry wr fs_read_schema fs_read_handler)"
    and t: "trans sv ts = Some tcs" "t_send tcs = Some sock_send"
    and path: "p \<noteq> 0" "c_str path = path" "length path \<le> 200"
    and fl: "files (world sv) path = Some (Regular content)" "unat off + unat n \<le> length content" "unat n \<le> 4079"
    and room: "heap_room (rheap sv) 50000"
  shows "serves sv V ts (rpcname fs_read_schema) (wire [F_string p path, F_u32 off, F_u32 n])
    (encode_list encode_val [V_bytes (take (unat n) (drop (unat off) content)), V_u32 n, V_u32 0])"
proof -
  let ?ps = "[F_string p path, F_u32 off, F_u32 n]" and ?data = "take (unat n) (drop (unat off) content)"
  have ps: "\<forall>f \<in> set ?ps. sendable f" "map (type_of_val \<circ> val_of) ?ps = params fs_read_schema" "length (wire ?ps) \<le> 300"
    "0 < length (c_str (rpcname fs_read_schema))" "length (c_str (rpcname fs_read_schema)) < 128" using path by simp_all
  have im: "implements 8500 fs_read_schema fs_read_handler fs_read_service (world sv) (map val_of ?ps)"
    using fs_read_implements [OF fl(3)] by simp
  have sv: "fs_read_service (world sv) (map val_of ?ps) = (Some [V_bytes ?data, V_u32 n, V_u32 0], world sv)"
    using fl(1,2) path(2) by (simp add: Let_def)
  show ?thesis by (rule provider_serves [OF w s t handlers_respect_heap(1) ps room im sv])
qed

lemma shell_exec_serves_ok:
  fixes sv :: "os rpc"
  assumes w: "i32_writer_ok wr" and s: "rpc_idle sv V" "method_of sv (rpcname shell_exec_schema) = Some (provider_entry wr shell_exec_schema shell_exec_handler)"
    and t: "trans sv ts = Some tcs" "t_send tcs = Some sock_send"
    and cmd: "p \<noteq> 0" "c_str cmd = cmd" "length cmd \<le> 200"
    and sh: "shell (world sv) cmd = Some (out, exitcode)" "length out \<le> 4000"
    and room: "heap_room (rheap sv) 50000"
  shows "serves sv V ts (rpcname shell_exec_schema) (wire [F_string p cmd]) (encode_list encode_val [V_string (c_str out), V_u32 (word_of_int exitcode)])"
proof -
  let ?ps = "[F_string p cmd]"
  have lc: "length (c_str out) \<le> length out" by (simp add: c_str_def length_takeWhile_le)
  have nn: "length (c_str (rpcname shell_exec_schema)) = 10" by code_simp
  have ps: "\<forall>f \<in> set ?ps. sendable f" "map (type_of_val \<circ> val_of) ?ps = params shell_exec_schema" "length (wire ?ps) \<le> 300"
    "0 < length (c_str (rpcname shell_exec_schema))" "length (c_str (rpcname shell_exec_schema)) < 128"
    using cmd nn by (simp_all add: shell_exec_schema_def)
  have im: "implements 8500 shell_exec_schema shell_exec_handler shell_exec_service (world sv) (map val_of ?ps)"
    using shell_exec_implements [of "world sv" cmd] sh lc cmd(2) by simp
  have sv: "shell_exec_service (world sv) (map val_of ?ps) = (Some [V_string (c_str out), V_u32 (word_of_int exitcode)], world sv)"
    using sh cmd(2) by simp
  show ?thesis by (rule provider_serves [OF w s t handlers_respect_heap(2) ps room im sv])
qed

section \<open>The exchange\<close>

lemma to_int_word:
  assumes "n < 2 ^ 31"
  shows "0 \<le> to_int (word_of_nat n)"
proof -
  have u: "unat (word_of_nat n :: u64) = n" using assms by (simp only: unsigned_of_nat) (simp add: take_bit_nat_eq_self)
  have "unat (ucast (word_of_nat n :: u64) :: u32) = n" unfolding unsigned_ucast_eq u using assms by (simp add: take_bit_nat_eq_self)
  then show ?thesis using sint_neg_iff [of "ucast (word_of_nat n :: u64)"] assms by (simp add: to_int_def)
qed

lemma exchange_answers:
  fixes s sv :: "os rpc"
  assumes sv: "serves sv V ts name tlvs pl"
    and t: "transport_of s name = Some t" "trans s t = Some tc" "t_send tc = Some sock_send"
  shows "answers (exchange t sv ts) s name tlvs t pl"
  unfolding answers_def
proof (intro allI impI)
  fix h s1 a q
  assume cs: "call_started (s\<lparr>rheap := h\<rparr>) s1 a name tlvs (Some (replicate 4096 0)) (Some 4096)"
    and c: "calls s1 a = Some (new_call q (Some (replicate 4096 0)) (Some 4096))"
  from cs obtain q' t' tc' f r where k: "calls s1 a = Some (new_call q' (Some (replicate 4096 0)) (Some 4096))"
    "transport_of s name = Some t'" "trans s t' = Some tc'" "t_send tc' = Some f"
    "f (t_user tc') (request_msg q' name tlvs) (world s) = (r, world s1)"
    unfolding call_started_def by auto
  have "q' = q" using c k(1) by (simp add: new_call_def)
  then have "world s1 = (world s)\<lparr>socket := socket (world s) @ [request_msg q name tlvs]\<rparr>" using k t by (simp add: sock_send_def)
  then have lst: "last (socket (world s1)) = request_msg q name tlvs" by simp
  from sv obtain sv' where sv': "rpc_dispatch_message sv ts (request_msg q name tlvs) = Some sv'"
    "world sv' = (world sv)\<lparr>socket := socket (world sv) @ [response_msg q 0 pl]\<rparr>" unfolding serves_def by blast
  have "drop (length (socket (world sv))) (socket (world sv')) = [response_msg q 0 pl]" using sv'(2) by simp
  then show "exchange t sv ts s1 a = map_option (Pair 0) (rpc_dispatch_message s1 t (response_msg q 0 pl))"
    using sv'(1) lst by (simp add: exchange_def) (cases "rpc_dispatch_message s1 t (response_msg q 0 pl)"; simp)
qed

section \<open>Properties\<close>

lemma sock_send_ok:
  assumes "length (c_str name) + length tlvs < 1000"
  shows "\<forall>q v. 0 \<le> to_int (fst (sock_send u (request_msg q name tlvs) v))"
proof (intro allI)
  fix q v
  have "length (request_msg q name tlvs) < 2 ^ 31" using assms by (simp add: request_fields)
  from to_int_word [OF this] show "0 \<le> to_int (fst (sock_send u (request_msg q name tlvs) v))" by (simp add: sock_send_def)
qed

text \<open>C1. A remote read returns the bytes of the file: for a path of at most 200 bytes and at most 4079 bytes to read (more do
  not fit the response buffer of the server), when the file of the other node has the range, both heaps have a free block
  of 50000 bytes, the method is registered there and bound here, and both transports hand the messages on, the call of
  the client stub comes back with status 0 and a struct that holds exactly the bytes of the file at the offset, their
  number and the end flag 0. On the calling side only the block of these bytes stays allocated and no call stays
  pending; the server, whatever the sequence number of the request, sends this one response and keeps no block.\<close>
theorem remote_read:
  fixes s sv :: "os rpc"
  assumes "i32_writer_ok wr" "rpc_idle sv V" "method_of sv (rpcname fs_read_schema) = Some (provider_entry wr fs_read_schema fs_read_handler)"
    and "trans sv ts = Some tcs" "t_send tcs = Some sock_send"
    and "p \<noteq> 0" "c_str path = path" "length path \<le> 200"
    and "files (world sv) path = Some (Regular content)" "unat off + unat n \<le> length content" "unat n \<le> 4079"
    and "heap_room (rheap sv) 50000" "rpc_idle s U" "heap_room (rheap s) 50000"
    and "transport_of s (rpcname fs_read_schema) = Some t" "trans s t = Some tc" "t_send tc = Some sock_send"
  shows "(\<exists>rs s'. rpc_call_stub wr (exchange t sv ts) s fs_read_schema [F_string p path, F_u32 off, F_u32 n] True = Some (0, Some rs, s') \<and>
      map val_of rs = [V_bytes (take (unat n) (drop (unat off) content)), V_u32 n, V_u32 0] \<and>
      rpc_idle s' (U \<union> set (ptrs rs)) \<and> U \<inter> set (ptrs rs) = {} \<and> pending_of s' = pending_of s) \<and>
    (\<forall>q. \<exists>sv'. rpc_dispatch_message sv ts
        (request_msg q (rpcname fs_read_schema) (wire [F_string p path, F_u32 off, F_u32 n])) = Some sv' \<and> rpc_idle sv' V \<and>
      world sv' = (world sv)\<lparr>socket := socket (world sv) @
        [response_msg q 0 (encode_list encode_val [V_bytes (take (unat n) (drop (unat off) content)), V_u32 n, V_u32 0])]\<rparr>)"
proof -
  let ?ps = "[F_string p path, F_u32 off, F_u32 n]" and ?vs = "[V_bytes (take (unat n) (drop (unat off) content)), V_u32 n, V_u32 0]"
  note serve = fs_read_serves_ok [OF assms(1-12)]
  note ans = exchange_answers [OF serve assms(15-17)]
  have l: "length (c_str (rpcname fs_read_schema)) + length (wire ?ps) < 1000" using assms(6-8) by simp
  have vs: "\<forall>v \<in> set ?vs. val_ok v" "map type_of_val ?vs = results fs_read_schema" "length (encode_list encode_val ?vs) \<le> 4096"
    using assms(10,11) by simp_all
  have k: "42000 + 2 * estimate_size 0 ?ps + length (c_str (rpcname fs_read_schema)) \<le> 50000" "(50000 :: nat) < 2 ^ 31" using assms(6-8) by simp_all
  from stub_answered [OF assms(1,13,15-17) sock_send_ok [OF l] ans vs assms(14) k] serve [unfolded serves_def]
  show ?thesis by (elim exE conjE) (intro conjI, intro exI conjI)
qed

lemma node_pair:
  assumes "method_ok (provider_entry tlv_write_u32 m handler)"
  shows "\<exists>s t tc. rpc_reach demo_heap (w :: os) s \<and> rpc_idle s {} \<and> trans s t = Some tc \<and> world s = w \<and> heap_room (rheap s) 50000 \<and>
     t_send tc = Some sock_send \<and> transport_of s (rpcname m) = Some t \<and>
     method_of s (rpcname m) = Some (provider_entry tlv_write_u32 m handler)"
proof -
  from node_up [OF assms, of w sock_send] obtain s t tc where "rpc_reach demo_heap w s" "rpc_idle s {}" "trans s t = Some tc" "world s = w"
    "heap_room (rheap s) 1000000" "t_send tc = Some sock_send" "transport_of s (rpcname m) = Some t"
    "method_of s (rpcname m) = Some (provider_entry tlv_write_u32 m handler)" by blast
  moreover have "heap_room (rheap s) 50000" by (rule heap_room_mono [OF \<open>heap_room (rheap s) 1000000\<close>]) simp
  ultimately show ?thesis by (intro exI [of _ s] exI [of _ t] exI [of _ tc]) simp
qed

lemmas fs_node = node_pair [OF providers_ok(1) [OF i32_as_u32]]
lemmas shell_node = node_pair [OF providers_ok(2) [OF i32_as_u32]]

theorem remote_read_witness:
  "\<exists>s t sv ts rs s'. rpc_reach demo_heap demo_os s \<and> rpc_reach demo_heap demo_os sv \<and>
     rpc_call_stub tlv_write_u32 (exchange t sv ts) s fs_read_schema [F_string 1 [0x61], F_u32 1, F_u32 2] True = Some (0, Some rs, s') \<and>
     map val_of rs = [V_bytes [20, 30], V_u32 2, V_u32 0]"
proof -
  from fs_node [of demo_os] obtain s t tc where s: "rpc_reach demo_heap demo_os s" "rpc_idle s {}" "trans s t = Some tc" "world s = demo_os"
    "heap_room (rheap s) 50000" "t_send tc = Some sock_send" "transport_of s (rpcname fs_read_schema) = Some t"
    "method_of s (rpcname fs_read_schema) = Some (provider_entry tlv_write_u32 fs_read_schema fs_read_handler)" by blast
  have c: "c_str [0x61] = [0x61 :: u8]" "length [0x61 :: u8] \<le> 200" "(1 :: nat) \<noteq> 0" by (simp_all add: c_str_def)
  have f: "files (world s) [0x61] = Some (Regular [10, 20, 30, 40])" "unat (1 :: u32) + unat (2 :: u32) \<le> length [10, 20, 30, 40 :: u8]" "unat (2 :: u32) \<le> 4079"
    using s(4) by (simp_all add: demo_os_def)
  from remote_read [OF i32_as_u32 s(2,8,3,6) c(3,1,2) f s(5,2,5,7,3,6)] obtain rs s' where
    r: "rpc_call_stub tlv_write_u32 (exchange t s t) s fs_read_schema [F_string 1 [0x61], F_u32 1, F_u32 2] True = Some (0, Some rs, s')"
    "map val_of rs = [V_bytes (take (unat (2 :: u32)) (drop (unat (1 :: u32)) [10, 20, 30, 40])), V_u32 2, V_u32 0]" by (elim exE conjE)
  from r(2) have m: "map val_of rs = [V_bytes [20, 30], V_u32 2, V_u32 0]" by simp
  show ?thesis by (intro exI conjI) (rule s(1), rule s(1), rule r(1), rule m)
qed


text \<open>C5. The two programs agree: a round of node B against the file service of a node that has the same file passes, and
  afterwards node B has no call pending and no block more than before. The file is below 4 GiB and not shorter than the
  number of bytes that the round picks, which is between 1 and 1024, so that for a file of 1024 bytes and more every pick
  will do; both heaps have a free block of 50000 bytes, the method is registered there and bound here, and both
  transports hand the messages on.\<close>
theorem round_passes:
  fixes s sv :: "os rpc"
  assumes "i32_writer_ok wr" "rpc_idle sv V" "method_of sv (rpcname fs_read_schema) = Some (provider_entry wr fs_read_schema fs_read_handler)"
    and "trans sv ts = Some tcs" "t_send tcs = Some sock_send" "path \<noteq> 0"
    and "files (world sv) (lit ''./big.bin'') = Some (Regular content)" "length content < 2 ^ 32"
    and "heap_room (rheap sv) 50000" "rpc_idle s U" "heap_room (rheap s) 50000"
    and "transport_of s (rpcname fs_read_schema) = Some t" "trans s t = Some tc" "t_send tc = Some sock_send"
    and "pick_range (length content) r1 r2 = (off, sz)" "sz \<le> length content"
  shows "\<exists>buf' s'. nodeB_round wr (exchange t sv ts) path content r1 r2 buf s True = Some (Passed, buf', s') \<and>
    rpc_idle s' U \<and> pending_of s' = pending_of s"
proof -
  let ?name = "lit ''./big.bin''" and ?off = "word_of_nat off :: u32" and ?n = "word_of_nat sz :: u32"
  have nm: "c_str ?name = ?name" "length ?name \<le> 200" by code_simp+
  have b: "off + sz \<le> length content" "sz \<le> 1024" using pick_range_bounds [OF assms(15)] assms(16) by simp_all
  have u: "unat ?off = off" "unat ?n = sz" using b assms(8) by (simp_all only: unsigned_of_nat) (simp_all add: take_bit_nat_eq_self)
  have fl: "unat ?off + unat ?n \<le> length content" "unat ?n \<le> 4079" unfolding u using b by simp_all
  note ans = exchange_answers [OF fs_read_serves_ok [OF assms(1-6) nm assms(7) fl assms(9)] assms(12-14), unfolded u]
  have l: "length (c_str (rpcname fs_read_schema)) + length (wire [F_string path ?name, F_u32 ?off, F_u32 ?n]) < 1000" using nm assms(6) by simp
  have d: "length (take sz (drop off content)) \<le> 4000" using b(2) by simp
  have k: "(50000 :: nat) \<le> 50000" "(50000 :: nat) < 2 ^ 31" by simp_all
  from nodeB_round_outcome [OF assms(1,10,12-14) sock_send_ok [OF l] ans assms(11) k assms(15,16) d, of buf] show ?thesis by auto
qed

theorem round_passes_witness:
  "\<exists>s t sv ts buf' s'. rpc_reach demo_heap demo_os s \<and> rpc_idle sv {} \<and>
     nodeB_round tlv_write_u32 (exchange t sv ts) 1 [7, 8, 9] 1 5 [] s True = Some (Passed, buf', s') \<and> rpc_idle s' {}"
proof -
  let ?w = "demo_os\<lparr>files := [lit ''./big.bin'' \<mapsto> Regular [7, 8, 9]]\<rparr>"
  from fs_node [of demo_os] obtain s t tc where s: "rpc_reach demo_heap demo_os s" "rpc_idle s {}" "trans s t = Some tc"
    "heap_room (rheap s) 50000" "t_send tc = Some sock_send" "transport_of s (rpcname fs_read_schema) = Some t" by blast
  from fs_node [of ?w] obtain sv ts tcs where v: "rpc_idle sv {}" "trans sv ts = Some tcs" "world sv = ?w"
    "heap_room (rheap sv) 50000" "t_send tcs = Some sock_send"
    "method_of sv (rpcname fs_read_schema) = Some (provider_entry tlv_write_u32 fs_read_schema fs_read_handler)" by blast
  have f: "files (world sv) (lit ''./big.bin'') = Some (Regular [7, 8, 9])" "length [7, 8, 9 :: u8] < 2 ^ 32" "(1 :: nat) \<noteq> 0" using v(3) by simp_all
  have p: "pick_range (length [7, 8, 9 :: u8]) 1 5 = (0, 2)" "2 \<le> length [7, 8, 9 :: u8]" by (simp_all add: pick_range_def MAX_CHUNK_def)
  from round_passes [OF i32_as_u32 v(1,6,2,5) f(3,1,2) v(4) s(2,4,6,3,5) p, of "[]"] show ?thesis using s(1) v(1) by blast
qed

text \<open>C17. A round of node A against the shell service of a node on which the command has the same output and exit status
  passes, when the output is a text of at most 4000 bytes and the status fits into 32 bits, and afterwards node A has no
  call pending and no block more than before.\<close>
theorem command_round_passes:
  fixes s sv :: "os rpc"
  assumes "i32_writer_ok wr" "rpc_idle sv V" "method_of sv (rpcname shell_exec_schema) = Some (provider_entry wr shell_exec_schema shell_exec_handler)"
    and "trans sv ts = Some tcs" "t_send tcs = Some sock_send" "p \<noteq> 0"
    and "commands (cmds ! (r1 mod 3)) = Some (out, status)" "shell (world sv) (cmds ! (r1 mod 3)) = Some (out, status)"
    and "length out \<le> 4000" "c_str out = out" "- (2 ^ 31) \<le> status" "status < 2 ^ 31"
    and "heap_room (rheap sv) 50000" "rpc_idle s U" "heap_room (rheap s) 50000"
    and "transport_of s (rpcname shell_exec_schema) = Some t" "trans s t = Some tc" "t_send tc = Some sock_send"
  shows "\<exists>s'. nodeA_round wr (exchange t sv ts) p commands r1 s True = Some (Passed, s') \<and> rpc_idle s' U \<and> pending_of s' = pending_of s"
proof -
  let ?cmd = "cmds ! (r1 mod 3)"
  have "\<forall>c \<in> set cmds. c_str c = c \<and> length c \<le> 10" by code_simp
  moreover have "length cmds = 3" by (simp add: cmds_def)
  then have "?cmd \<in> set cmds" by simp
  ultimately have nm: "c_str ?cmd = ?cmd" "length ?cmd \<le> 10" by blast+
  then have nm2: "length ?cmd \<le> 200" by simp
  note ans = exchange_answers [OF shell_exec_serves_ok [OF assms(1-6) nm(1) nm2 assms(8,9,13)] assms(16-18), unfolded assms(10)]
  have nn: "length (c_str (rpcname shell_exec_schema)) = 10" by code_simp
  have l: "length (c_str (rpcname shell_exec_schema)) + length (wire [F_string p ?cmd]) < 1000" using nm nn assms(6) by simp
  have k: "(50000 :: nat) \<le> 50000" "(50000 :: nat) < 2 ^ 31" by simp_all
  have st: "sint (word_of_int status :: u32) = status" using assms(11,12) by (simp add: signed_of_int signed_take_bit_int_eq_self)
  have tk: "take 4095 out = out" using assms(9) by simp
  from nodeA_round_outcome [where commands = commands and ?r1.0 = r1, OF assms(1,14,16-18) sock_send_ok [OF l] ans assms(15) k assms(7,9)]
  show ?thesis using assms(10) st tk by auto
qed

theorem command_round_passes_witness:
  "\<exists>s t sv ts s'. rpc_reach demo_heap demo_os s \<and> rpc_idle sv {} \<and>
     nodeA_round tlv_write_u32 (exchange t sv ts) 1 (\<lambda>_. Some ([7, 8], 256)) 2 s True = Some (Passed, s') \<and> rpc_idle s' {}"
proof -
  let ?w = "demo_os\<lparr>shell := (\<lambda>_. Some ([7, 8], 256))\<rparr>" and ?c = "\<lambda>_. Some ([7, 8 :: u8], 256 :: int)"
  from shell_node [of demo_os] obtain s t tc where s: "rpc_reach demo_heap demo_os s" "rpc_idle s {}" "trans s t = Some tc"
    "heap_room (rheap s) 50000" "t_send tc = Some sock_send" "transport_of s (rpcname shell_exec_schema) = Some t" by blast
  from shell_node [of ?w] obtain sv ts tcs where v: "rpc_idle sv {}" "trans sv ts = Some tcs" "world sv = ?w"
    "heap_room (rheap sv) 50000" "t_send tcs = Some sock_send"
    "method_of sv (rpcname shell_exec_schema) = Some (provider_entry tlv_write_u32 shell_exec_schema shell_exec_handler)" by blast
  have c: "?c (cmds ! (2 mod 3)) = Some ([7, 8], 256)" "shell (world sv) (cmds ! (2 mod 3)) = Some ([7, 8], 256)" "length [7, 8 :: u8] \<le> 4000"
    "c_str [7, 8] = [7, 8 :: u8]" "- (2 ^ 31) \<le> (256 :: int)" "(256 :: int) < 2 ^ 31" "(1 :: nat) \<noteq> 0" using v(3) by (simp_all add: c_str_def)
  from command_round_passes [where commands = ?c and ?r1.0 = 2, OF i32_as_u32 v(1,6,2,5) c(7,1-6) v(4) s(2,4,6,3,5)] show ?thesis
    using s(1) v(1) by blast
qed

end
