(* ===== verification/Membit.thy ===== *)
theory Membit
  imports Allocator Bits
begin

text \<open>
  Pools of equal blocks with a bit mask, from \<^verbatim>\<open>mg/source/membit.c\<close>. A pool is its address in the heap
  (0 for the null pointer) and its header; the blocks follow the header in the same heap block.
  \<open>membit_create\<close> returns \<open>None\<close> inside the result for the null pointer. The abstract view is the
  set of free slots.
\<close>

section \<open>State and operations\<close>

record membit_pool =
  bitmask :: u32
  block_size :: nat
  mb_count :: u8

text \<open>\<^verbatim>\<open>sizeof (struct membit_pool)\<close>, already a multiple of 8.\<close>

definition head_size :: nat where "head_size = 24"

text \<open>\<^verbatim>\<open>__builtin_ctz\<close>, which has no defined result for 0.\<close>

definition lowbit_index :: "u32 \<Rightarrow> nat option" where
  "lowbit_index v = find (bit v) [0..<32]"

definition full_mask :: "u8 \<Rightarrow> u32" where
  "full_mask count = (if count = 32 then 0xFFFFFFFF else push_bit (unat count) 1 - 1)"

definition membit_create :: "heap \<Rightarrow> u16 \<Rightarrow> u8 \<Rightarrow> ((addr \<times> membit_pool) option \<times> heap) option" where
  "membit_create h sz count =
     (let sz = (if sz AND 0x07 \<noteq> 0 then (sz + 0x07) AND NOT 0x07 else sz);
          count = (if count > 32 then 32 else count);
          total = head_size + unat sz * unat count
      in do {
        (p, h) \<leftarrow> heap_malloc h total;
        if p = 0 then Some (None, h)
        else Some (Some (p, \<lparr>bitmask = full_mask count, block_size = unat sz, mb_count = count\<rparr>), h) })"

definition membit_alloc :: "addr \<Rightarrow> membit_pool \<Rightarrow> addr \<times> membit_pool" where
  "membit_alloc p pool =
     (if p = 0 then (0, pool)
      else case lowbit_index (bitmask pool) of
        None \<Rightarrow> (0, pool)
      | Some idx \<Rightarrow>
          (p + head_size + block_size pool * idx,
           pool\<lparr>bitmask := bitmask pool AND NOT (push_bit idx 1)\<rparr>))"

text \<open>The index is a byte; dividing by a block size of 0 and shifting by 32 or more are undefined.\<close>

definition membit_free :: "addr \<Rightarrow> membit_pool \<Rightarrow> addr \<Rightarrow> membit_pool option" where
  "membit_free p pool a =
     (if p = 0 \<or> a = 0 then Some pool
      else let off = sz_sub a (sz_add p head_size)
           in if block_size pool = 0 then None
              else let idx = (off div block_size pool) mod 256
                   in if idx \<ge> 32 then None
                      else Some (pool\<lparr>bitmask := bitmask pool OR push_bit idx 1\<rparr>))"

definition membit_destroy :: "heap \<Rightarrow> addr \<Rightarrow> heap option" where
  "membit_destroy h p = (if p \<noteq> 0 then heap_free h p else Some h)"

definition membit_reset :: "addr \<Rightarrow> membit_pool \<Rightarrow> membit_pool" where
  "membit_reset p pool =
     (if p = 0 then pool
      else pool\<lparr>bitmask := (if mb_count pool = 32 then 0xFFFFFFFF else push_bit (unat (mb_count pool)) 1 - 1)\<rparr>)"

section \<open>Slots\<close>

definition free_slots :: "membit_pool \<Rightarrow> nat set" where
  "free_slots pool = {i. bit (bitmask pool) i}"

definition slot_at :: "addr \<Rightarrow> membit_pool \<Rightarrow> nat \<Rightarrow> addr" where
  "slot_at p pool i = p + 24 + block_size pool * i"

definition pool_ok :: "membit_pool \<Rightarrow> bool" where
  "pool_ok pool \<longleftrightarrow> 0 < block_size pool \<and> block_size pool < 2 ^ 16 \<and> unat (mb_count pool) \<le> 32 \<and>
     free_slots pool \<subseteq> {..<unat (mb_count pool)}"

lemma u32_bit_less: "bit (v :: u32) i \<Longrightarrow> i < 32"
  using bit_imp_le_length [of v i] by simp

lemma free_slots_less: "i \<in> free_slots pool \<Longrightarrow> i < 32"
  by (simp add: free_slots_def u32_bit_less)

lemma lowbit_index_Some: "lowbit_index v = Some i \<longleftrightarrow> bit v i \<and> (\<forall>j < i. \<not> bit v j)"
proof -
  have b: "bit v i \<Longrightarrow> i < 32" by (rule u32_bit_less)
  show ?thesis unfolding lowbit_index_def find_Some_iff using b by (fastforce simp: nth_upt)
qed

lemma lowbit_index_None: "lowbit_index v = None \<longleftrightarrow> (\<forall>i. \<not> bit v i)"
  unfolding lowbit_index_def find_None_iff using u32_bit_less [of v] by auto

lemma full_mask_slots: "count \<le> 32 \<Longrightarrow> bit (full_mask count) i \<longleftrightarrow> i < unat count"
proof -
  assume c: "count \<le> 32"
  then have u: "unat count \<le> 32" by (simp add: word_le_nat_alt)
  show ?thesis
  proof (cases "count = 32")
    case True
    have "full_mask count = mask 32" using True by (simp add: full_mask_def mask_eq_exp_minus_1)
    then show ?thesis using True unfolding \<open>full_mask count = mask 32\<close> bit_mask_iff by auto
  next
    case False
    then have "unat count < 32" using u by (simp add: word_unat_eq_iff)
    moreover have "push_bit (unat count) 1 - 1 = (mask (unat count) :: u32)" by (simp add: mask_eq_exp_minus_1 push_bit_eq_mult)
    ultimately show ?thesis using False by (auto simp: full_mask_def bit_mask_iff)
  qed
qed

text \<open>The operations on the set of free slots.\<close>

lemma alloc_slots:
  assumes "p \<noteq> 0"
  shows "free_slots pool = {} \<Longrightarrow> membit_alloc p pool = (0, pool)"
    "free_slots pool \<noteq> {} \<Longrightarrow> \<exists>pool'. membit_alloc p pool = (slot_at p pool (Min (free_slots pool)), pool') \<and>
       free_slots pool' = free_slots pool - {Min (free_slots pool)} \<and> block_size pool' = block_size pool \<and>
       mb_count pool' = mb_count pool"
proof -
  show "membit_alloc p pool = (0, pool)" if "free_slots pool = {}"
    using that lowbit_index_None [of "bitmask pool"] by (simp add: membit_alloc_def free_slots_def)
  assume ne: "free_slots pool \<noteq> {}"
  have fin: "finite (free_slots pool)" by (rule finite_subset [of _ "{..<32}"]) (auto dest: free_slots_less)
  let ?m = "Min (free_slots pool)"
  have "lowbit_index (bitmask pool) = Some ?m"
    unfolding lowbit_index_Some using Min_in [OF fin ne] Min_le [OF fin] by (fastforce simp: free_slots_def)
  moreover have "bit (bitmask pool AND NOT (push_bit ?m 1)) i \<longleftrightarrow> bit (bitmask pool) i \<and> i \<noteq> ?m" for i
    using u32_bit_less [of "bitmask pool" i] by (auto simp: bit_simps)
  then have "{i. bit (bitmask pool AND NOT (push_bit ?m 1)) i} = free_slots pool - {?m}" by (auto simp: free_slots_def)
  ultimately show "\<exists>pool'. membit_alloc p pool = (slot_at p pool ?m, pool') \<and>
      free_slots pool' = free_slots pool - {?m} \<and> block_size pool' = block_size pool \<and> mb_count pool' = mb_count pool"
    using assms by (simp add: membit_alloc_def slot_at_def head_size_def free_slots_def [of "pool\<lparr>bitmask := _\<rparr>"])
qed

lemma free_slot:
  assumes ok: "pool_ok pool" and p: "p \<noteq> 0" "p + 24 + block_size pool * unat (mb_count pool) < 2 ^ 64" and i: "i < unat (mb_count pool)"
  shows "\<exists>pool'. membit_free p pool (slot_at p pool i) = Some pool' \<and> free_slots pool' = insert i (free_slots pool) \<and>
    block_size pool' = block_size pool \<and> mb_count pool' = mb_count pool"
proof -
  have b: "0 < block_size pool" "i < 32" using ok i by (auto simp: pool_ok_def)
  have "block_size pool * i \<le> block_size pool * unat (mb_count pool)" using i by simp
  then have "p + 24 + block_size pool * i < 2 ^ 64" "p + 24 < 2 ^ 64" using p(2) by linarith+
  then have "sz_sub (slot_at p pool i) (sz_add p head_size) = block_size pool * i"
    using sz_sub_exact [of "p + 24" "p + 24 + block_size pool * i"] sz_add_exact [of p 24] by (simp add: slot_at_def head_size_def)
  then have d: "(sz_sub (slot_at p pool i) (sz_add p head_size) div block_size pool) mod 256 = i" using b by simp
  have "bit (bitmask pool OR push_bit i 1) j \<longleftrightarrow> bit (bitmask pool) j \<or> j = i" for j
    using b(2) by (auto simp: bit_simps)
  then have "{j. bit (bitmask pool OR push_bit i 1) j} = insert i (free_slots pool)" by (auto simp: free_slots_def)
  then show ?thesis using p b d by (simp add: membit_free_def Let_def slot_at_def free_slots_def [of "pool\<lparr>bitmask := _\<rparr>"])
qed

lemma reset_slots:
  assumes "pool_ok pool" "p \<noteq> 0"
  shows "free_slots (membit_reset p pool) = {..<unat (mb_count pool)}"
proof -
  have "mb_count pool \<le> 32" using assms(1) by (simp add: pool_ok_def word_le_nat_alt)
  then have "{i. bit (full_mask (mb_count pool)) i} = {..<unat (mb_count pool)}" using full_mask_slots by auto
  then show ?thesis using assms(2) by (simp add: membit_reset_def free_slots_def full_mask_def)
qed

section \<open>Creation\<close>

lemma and_7: "unat (x AND 7 :: u16) = unat x mod 8"
proof -
  have "x AND 7 = take_bit 3 x" by (simp add: take_bit_eq_mask mask_eq_exp_minus_1)
  then show ?thesis by (simp only: unsigned_take_bit_eq) (simp add: take_bit_eq_mod)
qed

lemma and_not_7: "unat (x AND NOT 7 :: u16) = unat x div 8 * 8"
proof -
  have "x AND NOT (mask 3) = push_bit 3 (drop_bit 3 x)" by (rule bit_word_eqI) (auto simp: bit_simps)
  then have "x AND NOT 7 = push_bit 3 (drop_bit 3 x)" by (simp add: mask_eq_exp_minus_1)
  moreover have "unat x div 8 * 8 < 2 ^ 16" using u16_less [of x] by (simp add: div_times_less_eq_dividend le_less_trans)
  ultimately show ?thesis
    by (simp only: unsigned_push_bit_eq unsigned_drop_bit_eq) (simp add: take_bit_eq_mod push_bit_eq_mult drop_bit_eq_div)
qed

definition aligned_size :: "u16 \<Rightarrow> nat" where
  "aligned_size sz = (unat sz + 7) div 8 * 8"

lemma aligned_size_bounds:
  assumes "unat sz \<le> 65528"
  shows "unat sz \<le> aligned_size sz" "aligned_size sz < 2 ^ 16"
proof -
  show "unat sz \<le> aligned_size sz" unfolding aligned_size_def by linarith
  have "(unat sz + 7) div 8 \<le> 8191" using assms by linarith
  then have "(unat sz + 7) div 8 * 8 \<le> 8191 * 8" by (rule mult_le_mono1)
  then show "aligned_size sz < 2 ^ 16" unfolding aligned_size_def by simp
qed

lemma create_size:
  assumes "unat sz \<le> 65528"
  shows "unat (if sz AND 0x07 \<noteq> 0 then (sz + 0x07) AND NOT 0x07 else sz) = aligned_size sz"
proof (cases "sz AND 7 = 0")
  case True
  then have "unat sz mod 8 = 0" using and_7 [of sz] by simp
  then have "aligned_size sz = unat sz" by (auto simp: aligned_size_def elim!: dvdE simp flip: dvd_eq_mod_eq_0)
  then show ?thesis using True by simp
next
  case False
  have "unat (sz + 7) = unat sz + 7" using assms by (simp add: unat_word_ariths)
  then show ?thesis using False and_not_7 [of "sz + 7"] by (simp add: aligned_size_def)
qed

text \<open>The header that \<open>membit_create\<close> writes into a block it got.\<close>

definition new_pool :: "u16 \<Rightarrow> u8 \<Rightarrow> membit_pool" where
  "new_pool sz count =
     (let c = (if count > 32 then 32 else count)
      in \<lparr>bitmask = full_mask c, block_size = aligned_size sz, mb_count = c\<rparr>)"

lemma new_pool_ok:
  assumes "0 < sz" "unat sz \<le> 65528"
  shows "pool_ok (new_pool sz count)" "free_slots (new_pool sz count) = {..<min (unat count) 32}"
    "unat (mb_count (new_pool sz count)) = min (unat count) 32" "block_size (new_pool sz count) = aligned_size sz"
proof -
  define c where "c = (if count > 32 then 32 else count :: u8)"
  have pool: "new_pool sz count = \<lparr>bitmask = full_mask c, block_size = aligned_size sz, mb_count = c\<rparr>"
    by (simp add: new_pool_def c_def)
  have c: "c \<le> 32" "unat c = min (unat count) 32"
    by (auto simp: c_def word_less_nat_alt word_le_nat_alt min_def)
  note a = aligned_size_bounds [OF assms(2)]
  have pos: "0 < aligned_size sz" using assms(1) a(1) by (metis gr0I le_0_eq unat_gt_0 less_irrefl)
  show slots: "free_slots (new_pool sz count) = {..<min (unat count) 32}"
    unfolding pool free_slots_def membit_pool.simps full_mask_slots [OF c(1)] c(2) by auto
  show "unat (mb_count (new_pool sz count)) = min (unat count) 32" "block_size (new_pool sz count) = aligned_size sz"
    by (simp_all add: pool c(2))
  then show "pool_ok (new_pool sz count)" using a(2) pos slots by (simp add: pool_ok_def)
qed

definition pool_bytes :: "membit_pool \<Rightarrow> nat" where
  "pool_bytes pool = 24 + block_size pool * unat (mb_count pool)"

lemma pool_bytes_less: "pool_ok pool \<Longrightarrow> pool_bytes pool < 2 ^ 63"
proof -
  assume "pool_ok pool"
  then have "block_size pool * unat (mb_count pool) \<le> 2 ^ 16 * 32" unfolding pool_ok_def by (intro mult_le_mono) auto
  then show ?thesis unfolding pool_bytes_def by simp
qed

lemma create_eq:
  assumes "unat sz \<le> 65528"
  shows "membit_create h sz count = (case heap_malloc h (pool_bytes (new_pool sz count)) of
    None \<Rightarrow> None | Some (p, h') \<Rightarrow> Some (if p = 0 then None else Some (p, new_pool sz count), h'))"
proof -
  define c where "c = (if count > 32 then 32 else count :: u8)"
  have pool: "new_pool sz count = \<lparr>bitmask = full_mask c, block_size = aligned_size sz, mb_count = c\<rparr>"
    by (simp add: new_pool_def c_def)
  show ?thesis
    unfolding membit_create_def Let_def create_size [OF assms] pool c_def [symmetric] pool_bytes_def head_size_def
    by (simp split: option.split)
qed

text \<open>A created pool: every slot is free, and the heap block is large enough for all of them.\<close>

lemma create_ok:
  assumes live: "heap_live h L" and sz: "0 < sz" "unat sz \<le> 65528"
  obtains (null) h' where "membit_create h sz count = Some (None, h')" "heap_live h' L"
  | (created) p h' m where "membit_create h sz count = Some (Some (p, new_pool sz count), h')"
      "p \<noteq> 0" "p \<notin> fst ` L" "pool_bytes (new_pool sz count) \<le> m" "heap_live h' (insert (p, m) L)"
proof -
  from malloc_live [OF live pool_bytes_less [OF new_pool_ok(1) [OF sz, of count]]] obtain p h' where
    p: "heap_malloc h (pool_bytes (new_pool sz count)) = Some (p, h')" and
    cs: "p = 0 \<and> heap_live h' L \<or> p \<noteq> 0 \<and> p \<notin> fst ` L \<and>
      (\<exists>m \<ge> pool_bytes (new_pool sz count). heap_live h' (insert (p, m) L))" by blast
  from cs show thesis
  proof (elim disjE conjE exE)
    assume "p = 0" "heap_live h' L"
    then show thesis using null p create_eq [OF sz(2), of h count] by simp
  next
    fix m assume "p \<noteq> 0" "p \<notin> fst ` L" "pool_bytes (new_pool sz count) \<le> m" "heap_live h' (insert (p, m) L)"
    then show thesis using created [of p h' m] p create_eq [OF sz(2), of h count] by simp
  qed
qed

lemma slots_apart:
  assumes "i < unat (mb_count pool)" "j < unat (mb_count pool)" "i \<noteq> j"
  shows "slot_at p pool i + block_size pool \<le> slot_at p pool j \<or> slot_at p pool j + block_size pool \<le> slot_at p pool i"
proof -
  have "block_size pool * i + block_size pool \<le> block_size pool * j" if "i < j" for i j
    using that mult_le_mono2 [of "i + 1" j "block_size pool"] by (simp add: algebra_simps)
  then show ?thesis using assms(3) unfolding slot_at_def by (cases i j rule: linorder_cases) auto
qed

lemma slot_inside:
  assumes "i < unat (mb_count pool)"
  shows "p + 24 \<le> slot_at p pool i" "slot_at p pool i + block_size pool \<le> p + pool_bytes pool"
  using assms mult_le_mono2 [of "i + 1" "unat (mb_count pool)" "block_size pool"]
  by (simp_all add: slot_at_def pool_bytes_def algebra_simps)

section \<open>Properties\<close>

text \<open>C25. A pool of slots: \<open>membit_create\<close> either reports that the heap is full or returns a pool
  whose slots are all free; as long as some slot is free \<open>membit_alloc\<close> hands out the lowest one,
  which no earlier caller holds, and otherwise returns the null pointer; \<open>membit_free\<close> gives
  exactly that slot back and \<open>membit_reset\<close> all of them. Slots lie inside the heap block and do
  not overlap.\<close>

theorem membit_pool_slots:
  assumes "heap_live h L" "0 < sz" "unat sz \<le> 65528"
    and "pool_ok pool" "p \<noteq> 0" "p + pool_bytes pool < 2 ^ 64"
  shows "((\<exists>h'. membit_create h sz count = Some (None, h') \<and> heap_live h' L) \<or>
      (\<exists>q q_pool h' m. membit_create h sz count = Some (Some (q, q_pool), h') \<and> pool_ok q_pool \<and>
         free_slots q_pool = {..<min (unat count) 32} \<and> unat sz \<le> block_size q_pool \<and>
         q \<notin> fst ` L \<and> pool_bytes q_pool \<le> m \<and> heap_live h' (insert (q, m) L))) \<and>
    (if free_slots pool = {} then membit_alloc p pool = (0, pool)
     else \<exists>pool'. membit_alloc p pool = (slot_at p pool (Min (free_slots pool)), pool') \<and>
       free_slots pool' = free_slots pool - {Min (free_slots pool)} \<and> pool_ok pool') \<and>
    (\<forall>i < unat (mb_count pool). \<exists>pool'. membit_free p pool (slot_at p pool i) = Some pool' \<and>
       free_slots pool' = insert i (free_slots pool) \<and> pool_ok pool') \<and>
    free_slots (membit_reset p pool) = {..<unat (mb_count pool)} \<and>
    (\<forall>i < unat (mb_count pool). p + 24 \<le> slot_at p pool i \<and> slot_at p pool i + block_size pool \<le> p + pool_bytes pool \<and>
       (\<forall>j < unat (mb_count pool). i \<noteq> j \<longrightarrow>
          slot_at p pool i + block_size pool \<le> slot_at p pool j \<or> slot_at p pool j + block_size pool \<le> slot_at p pool i))"
  (is "?create \<and> ?alloc \<and> ?free \<and> ?reset \<and> ?slots")
proof (intro conjI)
  show ?create using assms(1-3)
  proof (cases rule: create_ok [where count = count])
    case (created q h' m)
    then show ?thesis using new_pool_ok [OF assms(2,3), of count] aligned_size_bounds(1) [OF assms(3)] by auto
  qed blast
  show ?alloc
  proof (cases "free_slots pool = {}")
    case False
    from alloc_slots(2) [OF assms(5) this] assms(4) have "\<exists>pool'. membit_alloc p pool = (slot_at p pool (Min (free_slots pool)), pool') \<and>
       free_slots pool' = free_slots pool - {Min (free_slots pool)} \<and> pool_ok pool'" by (auto simp: pool_ok_def)
    then show ?thesis using False by simp
  qed (simp add: alloc_slots(1) [OF assms(5)])
  show ?free using free_slot [OF assms(4,5)] assms(4,6) by (fastforce simp: pool_ok_def pool_bytes_def)
  show ?reset by (rule reset_slots [OF assms(4,5)])
  show ?slots using slot_inside slots_apart by simp
qed

lemma demo_pool:
  "pool_ok (new_pool 20 4)" "free_slots (new_pool 20 4) = {0, 1, 2, 3}" "block_size (new_pool 20 4) = 24"
  "unat (mb_count (new_pool 20 4)) = 4"
proof -
  have u: "0 < (20 :: u16)" "unat (20 :: u16) \<le> 65528" by simp_all
  show "pool_ok (new_pool 20 4)" by (rule new_pool_ok(1) [OF u])
  show "free_slots (new_pool 20 4) = {0, 1, 2, 3}" unfolding new_pool_ok(2) [OF u] by auto
  show "block_size (new_pool 20 4) = 24" unfolding new_pool_ok(4) [OF u] aligned_size_def by simp
  show "unat (mb_count (new_pool 20 4)) = 4" unfolding new_pool_ok(3) [OF u] by simp
qed

theorem membit_pool_slots_witness:
  "heap_live demo_heap {} \<and> pool_ok (new_pool 20 4) \<and>
   (\<exists>pool'. membit_alloc 80 (new_pool 20 4) = (104, pool') \<and> free_slots pool' = {1, 2, 3} \<and> pool_ok pool') \<and>
   (\<exists>pool'. membit_free 80 (new_pool 20 4) 128 = Some pool' \<and> free_slots pool' = {0, 1, 2, 3} \<and> pool_ok pool')"
proof -
  have m: "Min {0, 1, 2, 3 :: nat} = 0" "{0, 1, 2, 3} - {0 :: nat} = {1, 2, 3}" "insert 1 {0, 1, 2, 3 :: nat} = {0, 1, 2, 3}"
    "80 + pool_bytes (new_pool 20 4) < 2 ^ 64"
    by (auto simp: pool_bytes_def demo_pool)
  have s: "slot_at 80 (new_pool 20 4) 0 = 104" "slot_at 80 (new_pool 20 4) 1 = 128" by (simp_all add: slot_at_def demo_pool)
  note w = membit_pool_slots [OF demo_heap_live _ _ demo_pool(1) _ m(4), of 20, THEN conjunct2]
  have "\<exists>pool'. membit_alloc 80 (new_pool 20 4) = (104, pool') \<and> free_slots pool' = {1, 2, 3} \<and> pool_ok pool'"
    using w [THEN conjunct1] unfolding demo_pool m s by simp
  moreover have "\<exists>pool'. membit_free 80 (new_pool 20 4) 128 = Some pool' \<and> free_slots pool' = {0, 1, 2, 3} \<and> pool_ok pool'"
    using w [THEN conjunct2, THEN conjunct1, rule_format, of 1] unfolding demo_pool m s by simp
  ultimately show ?thesis using demo_heap_live demo_pool(1) by blast
qed

lemma oversize_wraps:
  assumes "65528 < unat sz"
  shows "(if sz AND 0x07 \<noteq> 0 then (sz + 0x07) AND NOT 0x07 else sz) = (0 :: u16)"
proof -
  define d where "d = unat sz - 65528"
  have d: "unat sz = 65528 + d" "0 < d" "d < 8" using assms u16_less [of sz] unfolding d_def by simp_all
  have "unat sz mod 8 \<noteq> 0" using d(2,3) unfolding d(1) by presburger
  then have "sz AND 7 \<noteq> 0" using and_7 [of sz] by auto
  moreover have "unat (sz + 7) < 8"
  proof -
    have "unat (sz + 7) = (65528 + d + 7) mod 2 ^ 16" unfolding unat_word_ariths(1) d(1) by simp
    also have "\<dots> = (65536 + (d - 1)) mod 65536" using d(2) by (simp add: algebra_simps)
    also have "\<dots> = d - 1" using d(3) by simp
    finally show ?thesis using d(3) by simp
  qed
  then have "unat ((sz + 7) AND NOT 7) = 0" unfolding and_not_7 by simp
  then have "(sz + 7) AND NOT 7 = 0" unfolding unat_eq_0 .
  ultimately show ?thesis by simp
qed

text \<open>The block size is kept in 16 bits while it is rounded up: a pool for blocks of more than 65528
  bytes is created with blocks of no bytes at all, and two allocations from it return the same
  address.\<close>

theorem membit_oversize_aliases:
  assumes "65528 < unat sz" "membit_create h sz count = Some (Some (p, pool), h')" "1 < unat count"
  shows "block_size pool = 0 \<and> p \<noteq> 0 \<and>
    (\<exists>pool1 pool2. membit_alloc p pool = (p + 24, pool1) \<and> membit_alloc p pool1 = (p + 24, pool2))"
proof -
  define c where "c = (if count > 32 then 32 else count :: u8)"
  have c: "c \<le> 32" "1 < unat c"
    using assms(3) by (auto simp: c_def word_less_nat_alt word_le_nat_alt)
  from assms(2) have p: "p \<noteq> 0" "pool = \<lparr>bitmask = full_mask c, block_size = 0, mb_count = c\<rparr>"
    unfolding membit_create_def Let_def oversize_wraps [OF assms(1)] c_def [symmetric]
    by (auto simp: bind_eq_Some_conv split: if_splits)
  have slots: "free_slots pool = {..<unat c}" unfolding p(2) free_slots_def using full_mask_slots [OF c(1)] by auto
  then have two: "0 \<in> free_slots pool" "1 \<in> free_slots pool" using c(2) by auto
  then have "free_slots pool \<noteq> {}" by blast
  from alloc_slots(2) [OF p(1) this] obtain pool1 where pool1:
    "membit_alloc p pool = (slot_at p pool (Min (free_slots pool)), pool1)"
    "free_slots pool1 = free_slots pool - {Min (free_slots pool)}" "block_size pool1 = block_size pool" by blast
  have "free_slots pool1 \<noteq> {}" using two unfolding pool1(2) by (cases "Min (free_slots pool) = 0") auto
  from alloc_slots(2) [OF p(1) this] obtain pool2 where
    "membit_alloc p pool1 = (slot_at p pool1 (Min (free_slots pool1)), pool2)" by blast
  then show ?thesis using pool1 p by (simp add: slot_at_def)
qed

theorem membit_oversize_aliases_witness:
  "\<exists>p pool h'. membit_create demo_heap 65530 4 = Some (Some (p, pool), h') \<and> block_size pool = 0 \<and>
    (\<exists>pool1 pool2. membit_alloc p pool = (p + 24, pool1) \<and> membit_alloc p pool1 = (p + 24, pool2))"
proof -
  have o: "65528 < unat (65530 :: u16)" by simp
  have c: "(if (4 :: u8) > 32 then 32 else 4) = (4 :: u8)" by simp
  from malloc_room [OF demo_heap_room, of 24] obtain p h' where "heap_malloc demo_heap 24 = Some (p, h')" "p \<noteq> 0"
    by auto
  then have "membit_create demo_heap 65530 4 = Some (Some (p, \<lparr>bitmask = full_mask 4, block_size = 0, mb_count = 4\<rparr>), h')"
    unfolding membit_create_def Let_def oversize_wraps [OF o] c by (simp add: head_size_def)
  with membit_oversize_aliases [OF o this] show ?thesis by auto
qed

end
