(* ===== verification/Mg_Alloc.thy ===== *)
theory Mg_Alloc
  imports Membit
begin

text \<open>
  The region allocator of \<^verbatim>\<open>mg/source/mg_alloc.c\<close>. A region is a tagged union: a table of size
  classes, each with its chain of \<^verbatim>\<open>membit\<close> pools, or a buffer that is filled from the front. A
  pool node carries its own address, the address of its pool and the header of that pool; the
  order of the list is the \<^verbatim>\<open>next\<close> chain. The headers written in front of the blocks are a map
  from block addresses. Blocks are never returned one by one: a region is reset or destroyed.
\<close>

section \<open>State and operations\<close>

definition MG_MAX_CLASS_BITS :: u8 where "MG_MAX_CLASS_BITS = 12"
definition MG_MIN_CLASS_BYTES :: nat where "MG_MIN_CLASS_BYTES = 32"

record mg_pool_node =
  n_addr :: addr
  n_pool :: addr
  n_bits :: membit_pool
  n_block_count :: u16
  n_block_size :: u16

record mg_class =
  pools :: "mg_pool_node list"
  cl_size :: nat

record mg_bump_state =
  bump_buf :: addr
  bump_cap :: nat
  bump_off :: nat

datatype mg_region_u = MG_REGION_POOL "mg_class list" | MG_REGION_BUMP mg_bump_state

record mg_region =
  max_bits :: u8
  reg_u :: mg_region_u

text \<open>The sizes of \<^verbatim>\<open>struct mg_region\<close>, \<^verbatim>\<open>struct mg_pool_node\<close> and \<^verbatim>\<open>struct mg_block_header\<close>, and the
  headers in memory.\<close>

definition mg_region_size :: nat where "mg_region_size = 216"
definition mg_pool_node_size :: nat where "mg_pool_node_size = 24"
definition mg_header_size :: nat where "mg_header_size = 8"

type_synonym mg_headers = "addr \<Rightarrow> addr option"

definition mg_pool_block_count :: "nat \<Rightarrow> u8" where
  "mg_pool_block_count block_sz = (if block_sz \<le> 64 then 8 else if block_sz \<le> 128 then 2 else 1)"

definition mg_pool_node_new :: "heap \<Rightarrow> nat \<Rightarrow> (mg_pool_node option \<times> heap) option" where
  "mg_pool_node_new h block_sz =
     (let count = mg_pool_block_count block_sz
      in do {
        (r, h) \<leftarrow> membit_create h (word_of_nat block_sz) count;
        case r of
          None \<Rightarrow> Some (None, h)
        | Some (p, bits) \<Rightarrow> do {
            (n, h) \<leftarrow> heap_malloc h mg_pool_node_size;
            if n = 0 then do { h \<leftarrow> membit_destroy h p; Some (None, h) }
            else Some (Some \<lparr>n_addr = n, n_pool = p, n_bits = bits, n_block_count = ucast count,
                             n_block_size = word_of_nat block_sz\<rparr>, h) } })"

definition mg_region_create_pool :: "heap \<Rightarrow> u8 \<Rightarrow> ((addr \<times> mg_region) option \<times> heap) option" where
  "mg_region_create_pool h max_class_bits = do {
     (r, h) \<leftarrow> heap_malloc h mg_region_size;
     if r = 0 then Some (None, h)
     else let bits = (if max_class_bits > MG_MAX_CLASS_BITS then MG_MAX_CLASS_BITS else max_class_bits)
          in Some (Some (r, \<lparr>max_bits = bits,
               reg_u = MG_REGION_POOL (map (\<lambda>i. \<lparr>pools = [], cl_size = 2 ^ i\<rparr>) [0..<Suc (unat bits)])\<rparr>), h) }"

definition mg_region_create_bump :: "heap \<Rightarrow> nat \<Rightarrow> ((addr \<times> mg_region) option \<times> heap) option" where
  "mg_region_create_bump h cap = do {
     (r, h) \<leftarrow> heap_malloc h mg_region_size;
     if r = 0 then Some (None, h)
     else do {
       (b, h) \<leftarrow> heap_malloc h cap;
       if b = 0 then do { h \<leftarrow> heap_free h r; Some (None, h) }
       else Some (Some (r, \<lparr>max_bits = 0,
              reg_u = MG_REGION_BUMP \<lparr>bump_buf = b, bump_cap = cap, bump_off = 0\<rparr>\<rparr>), h) } }"

text \<open>The inner loop over the pools of a class: the block, its pool, and the chain with the taken bit.\<close>

fun mg_try_pools :: "mg_pool_node list \<Rightarrow> (addr \<times> addr \<times> mg_pool_node list) option" where
  "mg_try_pools [] = None"
| "mg_try_pools (n # ns) =
     (let (blk, bits) = membit_alloc (n_pool n) (n_bits n)
      in if blk \<noteq> 0 then Some (blk, n_pool n, n\<lparr>n_bits := bits\<rparr> # ns)
         else case mg_try_pools ns of
           None \<Rightarrow> None
         | Some (blk, p, ns) \<Rightarrow> Some (blk, p, n # ns))"

text \<open>The outer loop over the classes from \<^verbatim>\<open>b\<close> to \<^verbatim>\<open>max_bits\<close>.\<close>

function mg_try_classes :: "mg_class list \<Rightarrow> nat \<Rightarrow> nat \<Rightarrow> (addr \<times> addr \<times> mg_class list) option" where
  "mg_try_classes cs b hi =
     (if hi < b then None
      else case mg_try_pools (pools (cs ! b)) of
        Some (blk, p, ns) \<Rightarrow> Some (blk, p, cs[b := (cs ! b)\<lparr>pools := ns\<rparr>])
      | None \<Rightarrow> mg_try_classes cs (b + 1) hi)"
  by pat_completeness auto
termination by (relation "measure (\<lambda>(_, b, hi). Suc hi - b)") auto

declare mg_try_classes.simps [simp del]

definition mg_region_alloc_class ::
  "heap \<Rightarrow> mg_headers \<Rightarrow> u8 \<Rightarrow> mg_class list \<Rightarrow> nat \<Rightarrow> (addr \<times> mg_class list \<times> mg_headers \<times> heap) option" where
  "mg_region_alloc_class h hdr maxb cs sz =
     (let need = sz_add sz mg_header_size
      in do {
        bits \<leftarrow> next_power_of_two_index_u32 (word_of_nat need);
        if bits > unat maxb then Some (0, cs, hdr, h)
        else case mg_try_classes cs bits (unat maxb) of
          Some (blk, p, cs) \<Rightarrow> Some (blk + mg_header_size, cs, hdr(blk \<mapsto> p), h)
        | None \<Rightarrow> do {
            let c = cs ! bits;
            (r, h) \<leftarrow> mg_pool_node_new h (cl_size c);
            case r of
              None \<Rightarrow> Some (0, cs, hdr, h)
            | Some n \<Rightarrow>
                let (blk, bits') = membit_alloc (n_pool n) (n_bits n);
                    cs = cs[bits := c\<lparr>pools := n\<lparr>n_bits := bits'\<rparr> # pools c\<rparr>]
                in if blk = 0 then Some (0, cs, hdr, h)
                   else Some (blk + mg_header_size, cs, hdr(blk \<mapsto> n_pool n), h) } })"

definition mg_region_alloc_bump :: "mg_bump_state \<Rightarrow> nat \<Rightarrow> addr \<times> mg_bump_state" where
  "mg_region_alloc_bump b sz =
     (let sz = sz_add sz 3 - sz_add sz 3 mod 4
      in if sz_add (bump_off b) sz > bump_cap b then (0, b)
         else (bump_buf b + bump_off b, b\<lparr>bump_off := sz_add (bump_off b) sz\<rparr>))"

definition mg_region_alloc ::
  "heap \<Rightarrow> mg_headers \<Rightarrow> addr \<Rightarrow> mg_region \<Rightarrow> nat \<Rightarrow> (addr \<times> mg_region \<times> mg_headers \<times> heap) option" where
  "mg_region_alloc h hdr r reg sz =
     (if r = 0 \<or> sz = 0 then Some (0, reg, hdr, h)
      else case reg_u reg of
        MG_REGION_BUMP b \<Rightarrow>
          (let (p, b) = mg_region_alloc_bump b sz in Some (p, reg\<lparr>reg_u := MG_REGION_BUMP b\<rparr>, hdr, h))
      | MG_REGION_POOL cs \<Rightarrow> do {
          (p, cs, hdr, h) \<leftarrow> mg_region_alloc_class h hdr (max_bits reg) cs (if sz < MG_MIN_CLASS_BYTES then MG_MIN_CLASS_BYTES else sz);
          Some (p, reg\<lparr>reg_u := MG_REGION_POOL cs\<rparr>, hdr, h) })"

definition reset_class :: "mg_class \<Rightarrow> mg_class" where
  "reset_class c = c\<lparr>pools := map (\<lambda>n. n\<lparr>n_bits := membit_reset (n_pool n) (n_bits n)\<rparr>) (pools c)\<rparr>"

definition mg_region_reset :: "addr \<Rightarrow> mg_region \<Rightarrow> mg_region" where
  "mg_region_reset r reg =
     (if r = 0 then reg
      else case reg_u reg of
        MG_REGION_BUMP b \<Rightarrow> reg\<lparr>reg_u := MG_REGION_BUMP (b\<lparr>bump_off := 0\<rparr>)\<rparr>
      | MG_REGION_POOL cs \<Rightarrow> reg\<lparr>reg_u := MG_REGION_POOL
          (map reset_class (take (Suc (unat (max_bits reg))) cs) @ drop (Suc (unat (max_bits reg))) cs)\<rparr>)"

fun destroy_pools :: "heap \<Rightarrow> mg_pool_node list \<Rightarrow> heap option" where
  "destroy_pools h [] = Some h"
| "destroy_pools h (n # ns) = do {
     h \<leftarrow> membit_destroy h (n_pool n);
     h \<leftarrow> heap_free h (n_addr n);
     destroy_pools h ns }"

fun destroy_classes :: "heap \<Rightarrow> mg_class list \<Rightarrow> heap option" where
  "destroy_classes h [] = Some h"
| "destroy_classes h (c # cs) = do { h \<leftarrow> destroy_pools h (pools c); destroy_classes h cs }"

definition mg_region_destroy :: "heap \<Rightarrow> addr \<Rightarrow> mg_region \<Rightarrow> heap option" where
  "mg_region_destroy h r reg =
     (if r = 0 then Some h
      else case reg_u reg of
        MG_REGION_BUMP b \<Rightarrow> do {
          h \<leftarrow> (if bump_buf b \<noteq> 0 then heap_free h (bump_buf b) else Some h);
          heap_free h r }
      | MG_REGION_POOL cs \<Rightarrow> do {
          h \<leftarrow> destroy_classes h (take (Suc (unat (max_bits reg))) cs);
          heap_free h r })"


section \<open>Blocks of a region\<close>

definition node_addrs :: "mg_pool_node \<Rightarrow> addr list" where
  "node_addrs n = [n_pool n, n_addr n]"

definition node_used :: "mg_pool_node \<Rightarrow> (addr \<times> nat) set" where
  "node_used n = (\<lambda>i. (slot_at (n_pool n) (n_bits n) i, block_size (n_bits n))) `
     ({..<unat (mb_count (n_bits n))} - free_slots (n_bits n))"

definition blocks_used :: "mg_pool_node list \<Rightarrow> (addr \<times> nat) set" where
  "blocks_used ns = (\<Union>n \<in> set ns. node_used n)"

definition node_held :: "(addr \<times> nat) set \<Rightarrow> mg_pool_node \<Rightarrow> bool" where
  "node_held L n \<longleftrightarrow> pool_ok (n_bits n) \<and> n_pool n \<noteq> 0 \<and> n_addr n \<in> fst ` L \<and>
     (\<exists>m. (n_pool n, m) \<in> L \<and> pool_bytes (n_bits n) \<le> m)"

text \<open>The nodes of a region and their pools are heap blocks of their own, apart from the region at \<open>r\<close>.\<close>

definition nodes_held :: "(addr \<times> nat) set \<Rightarrow> addr \<Rightarrow> mg_pool_node list \<Rightarrow> bool" where
  "nodes_held L r ns \<longleftrightarrow> distinct (r # concat (map node_addrs ns)) \<and> r \<in> fst ` L \<and> list_all (node_held L) ns"

lemma nodes_held_simps [simp]:
  "nodes_held L r [] \<longleftrightarrow> r \<in> fst ` L"
  "blocks_used [] = {}" "blocks_used (n # ns) = node_used n \<union> blocks_used ns"
  "blocks_used (ns @ ns') = blocks_used ns \<union> blocks_used ns'"
  by (auto simp: nodes_held_def blocks_used_def)

lemma node_held_mono: "node_held L n \<Longrightarrow> L \<subseteq> L' \<Longrightarrow> node_held L' n"
  by (auto simp: node_held_def)

lemma block_of:
  assumes "heap_live h L" "node_held L n" "(a, k) \<in> node_used n"
  obtains m where "(n_pool n, m) \<in> L" "n_pool n \<le> a" "a + k \<le> n_pool n + m" "0 < k"
proof -
  from assms(2) obtain m where m: "(n_pool n, m) \<in> L" "pool_bytes (n_bits n) \<le> m" "0 < block_size (n_bits n)"
    by (auto simp: node_held_def pool_ok_def)
  from assms(3) obtain i where i: "i < unat (mb_count (n_bits n))" "a = slot_at (n_pool n) (n_bits n) i" "k = block_size (n_bits n)"
    by (auto simp: node_used_def)
  show thesis using that [OF m(1)] slot_inside [OF i(1), of "n_pool n"] m(2,3) i by simp
qed

lemma blocks_apart_nodes:
  assumes live: "heap_live h L" and held: "nodes_held L r ns"
    and n: "n \<in> set ns" "n' \<in> set ns" "n_pool n \<noteq> n_pool n'"
    and b: "(a, k) \<in> node_used n" "(b, l) \<in> node_used n'"
  shows "a + k \<le> b \<or> b + l \<le> a"
proof -
  have h: "node_held L n" "node_held L n'" using held n by (auto simp: nodes_held_def list_all_iff)
  from block_of [OF live h(1) b(1)] obtain m where m: "(n_pool n, m) \<in> L" "n_pool n \<le> a" "a + k \<le> n_pool n + m" by blast
  from block_of [OF live h(2) b(2)] obtain m' where m': "(n_pool n', m') \<in> L" "n_pool n' \<le> b" "b + l \<le> n_pool n' + m'" by blast
  show ?thesis using heap.live_disjoint [OF live m(1) m'(1)] n(3) m(2,3) m'(2,3) by auto
qed

lemma same_node:
  assumes "nodes_held L r ns" "n \<in> set ns" "n' \<in> set ns" "n_pool n = n_pool n'"
  shows "n = n'"
  using assms
proof (induction ns)
  case (Cons m ns)
  have "n_pool x \<noteq> n_pool m" if "x \<in> set ns" for x
    using that Cons.prems(1) by (auto simp: nodes_held_def node_addrs_def)
  moreover have "nodes_held L r ns" using Cons.prems(1) by (auto simp: nodes_held_def)
  ultimately show ?case using Cons by (metis set_ConsD)
qed simp

text \<open>Blocks in use never overlap.\<close>

lemma blocks_disjoint:
  assumes live: "heap_live h L" and held: "nodes_held L r ns"
    and b: "(a, k) \<in> blocks_used ns" "(b, l) \<in> blocks_used ns" "(a, k) \<noteq> (b, l)"
  shows "a + k \<le> b \<or> b + l \<le> a"
proof -
  from b obtain n n' where n: "n \<in> set ns" "n' \<in> set ns" "(a, k) \<in> node_used n" "(b, l) \<in> node_used n'"
    by (auto simp: blocks_used_def)
  show ?thesis
  proof (cases "n_pool n = n_pool n'")
    case False
    then show ?thesis using blocks_apart_nodes [OF live held n(1,2)] n(3,4) by blast
  next
    case True
    then have "n' = n" using same_node [OF held n(1,2)] by simp
    with n(3,4) obtain i j where "i < unat (mb_count (n_bits n))" "j < unat (mb_count (n_bits n))"
      "a = slot_at (n_pool n) (n_bits n) i" "b = slot_at (n_pool n) (n_bits n) j" "k = block_size (n_bits n)" "l = k"
      by (auto simp: node_used_def)
    then show ?thesis using slots_apart [of i "n_bits n" j] b(3) by metis
  qed
qed

section \<open>Taking a block\<close>

text \<open>One step of \<^verbatim>\<open>membit_alloc\<close> on a node: a block of the pool becomes used.\<close>

definition node_step :: "mg_pool_node \<Rightarrow> addr \<Rightarrow> mg_pool_node \<Rightarrow> bool" where
  "node_step n blk n' \<longleftrightarrow> (\<exists>bits. n' = n\<lparr>n_bits := bits\<rparr> \<and> block_size bits = block_size (n_bits n) \<and>
     mb_count bits = mb_count (n_bits n) \<and> pool_ok bits) \<and> blk \<noteq> 0 \<and>
     (blk, block_size (n_bits n)) \<notin> node_used n \<and>
     node_used n' = insert (blk, block_size (n_bits n)) (node_used n)"

lemma slot_at_inject: "pool_ok pool \<Longrightarrow> slot_at p pool i = slot_at p pool j \<longleftrightarrow> i = j"
  by (auto simp: slot_at_def pool_ok_def)

lemma alloc_node:
  assumes ok: "pool_ok (n_bits n)" "n_pool n \<noteq> 0" and a: "membit_alloc (n_pool n) (n_bits n) = (blk, bits)"
  shows "if free_slots (n_bits n) = {} then blk = 0 \<and> bits = n_bits n else node_step n blk (n\<lparr>n_bits := bits\<rparr>)"
proof (cases "free_slots (n_bits n) = {}")
  case True
  then show ?thesis using alloc_slots(1) [OF ok(2) True] a by simp
next
  case False
  define i where "i = Min (free_slots (n_bits n))"
  have fin: "finite (free_slots (n_bits n))" by (rule finite_subset [of _ "{..<32}"]) (auto dest: free_slots_less)
  have i: "i \<in> free_slots (n_bits n)" unfolding i_def by (rule Min_in [OF fin False])
  then have ic: "i < unat (mb_count (n_bits n))" using ok(1) by (auto simp: pool_ok_def)
  from alloc_slots(2) [OF ok(2) False] a have s: "blk = slot_at (n_pool n) (n_bits n) i"
    "free_slots bits = free_slots (n_bits n) - {i}" "block_size bits = block_size (n_bits n)" "mb_count bits = mb_count (n_bits n)"
    by (auto simp: i_def)
  have at: "slot_at (n_pool n) bits j = slot_at (n_pool n) (n_bits n) j" for j using s(3) by (simp add: slot_at_def)
  have "{..<unat (mb_count (n_bits n))} - (free_slots (n_bits n) - {i}) = insert i ({..<unat (mb_count (n_bits n))} - free_slots (n_bits n))"
    using ic by auto
  then have "node_used (n\<lparr>n_bits := bits\<rparr>) = insert (blk, block_size (n_bits n)) (node_used n)"
    by (simp add: node_used_def s at)
  moreover have "(blk, block_size (n_bits n)) \<notin> node_used n"
    using i slot_at_inject [OF ok(1)] by (auto simp: node_used_def s(1))
  moreover have "pool_ok bits" using ok(1) s by (auto simp: pool_ok_def)
  ultimately show ?thesis using s ok(2) False by (auto simp: node_step_def slot_at_def)
qed

lemma nodes_held_step:
  assumes held: "nodes_held L r (A @ n # B)" and st: "node_step n blk n'"
  shows "nodes_held L r (A @ n' # B)"
proof -
  from st obtain bits where b: "n' = n\<lparr>n_bits := bits\<rparr>" "block_size bits = block_size (n_bits n)"
    "mb_count bits = mb_count (n_bits n)" "pool_ok bits" by (auto simp: node_step_def)
  have "node_addrs n' = node_addrs n" by (simp add: b(1) node_addrs_def)
  moreover have "node_held L n \<Longrightarrow> node_held L n'" by (simp add: b node_held_def pool_bytes_def)
  ultimately show ?thesis using held by (simp add: nodes_held_def)
qed

lemma blocks_used_step:
  assumes live: "heap_live h L" and held: "nodes_held L r (A @ n # B)" and st: "node_step n blk n'"
  shows "(blk, block_size (n_bits n)) \<notin> blocks_used (A @ n # B)"
    "blocks_used (A @ n' # B) = insert (blk, block_size (n_bits n)) (blocks_used (A @ n # B))"
proof -
  show "blocks_used (A @ n' # B) = insert (blk, block_size (n_bits n)) (blocks_used (A @ n # B))"
    using st by (auto simp: node_step_def)
  note held' = nodes_held_step [OF held st]
  have u: "(blk, block_size (n_bits n)) \<in> node_used n'" and p: "n_pool n' = n_pool n"
    using st by (auto simp: node_step_def)
  show "(blk, block_size (n_bits n)) \<notin> blocks_used (A @ n # B)"
  proof
    assume "(blk, block_size (n_bits n)) \<in> blocks_used (A @ n # B)"
    then obtain x where x: "x \<in> set A \<union> set B" "(blk, block_size (n_bits n)) \<in> node_used x"
      using st by (auto simp: blocks_used_def node_step_def)
    have "n_pool x \<noteq> n_pool n'" using held' x(1) by (auto simp: nodes_held_def node_addrs_def)
    then have "blk + block_size (n_bits n) \<le> blk"
      using blocks_apart_nodes [OF live held' _ _ _ x(2) u] x(1) by auto
    moreover have "0 < block_size (n_bits n)" using st by (auto simp: node_step_def pool_ok_def)
    ultimately show False by simp
  qed
qed


lemma try_pools_step:
  assumes "list_all (node_held L) ns" "mg_try_pools ns = Some (blk, p, ns')"
  shows "\<exists>A n B n'. ns = A @ n # B \<and> ns' = A @ n' # B \<and> p = n_pool n \<and> node_step n blk n'"
  using assms
proof (induction ns arbitrary: ns')
  case (Cons n ns)
  obtain b bits where a: "membit_alloc (n_pool n) (n_bits n) = (b, bits)" by fastforce
  have "pool_ok (n_bits n)" "n_pool n \<noteq> 0" using Cons.prems(1) by (auto simp: node_held_def)
  note st = alloc_node [OF this a]
  show ?case
  proof (cases "b = 0")
    case True
    then obtain ms where "mg_try_pools ns = Some (blk, p, ms)" "ns' = n # ms"
      using Cons.prems(2) a by (auto split: option.splits)
    moreover from this(1) obtain A m B m' where "ns = A @ m # B" "ms = A @ m' # B" "p = n_pool m" "node_step m blk m'"
      using Cons.IH [of ms] Cons.prems(1) by auto
    ultimately show ?thesis by (intro exI [of _ "n # A"] exI [of _ m] exI [of _ B] exI [of _ m']) simp
  next
    case False
    then have "node_step n b (n\<lparr>n_bits := bits\<rparr>)" using st by (simp split: if_splits)
    then show ?thesis using False Cons.prems(2) a by (intro exI [of _ "[]"]) auto
  qed
qed simp

definition all_nodes :: "mg_class list \<Rightarrow> mg_pool_node list" where
  "all_nodes cs = concat (map pools cs)"

lemma all_nodes_at:
  assumes "b < length cs"
  obtains X Y where "\<And>c. all_nodes (cs[b := c]) = X @ pools c @ Y" "all_nodes cs = X @ pools (cs ! b) @ Y"
proof
  show u: "all_nodes (cs[b := c]) = concat (map pools (take b cs)) @ pools c @ concat (map pools (drop (Suc b) cs))" for c
    using assms by (simp add: all_nodes_def upd_conv_take_nth_drop)
  show "all_nodes cs = concat (map pools (take b cs)) @ pools (cs ! b) @ concat (map pools (drop (Suc b) cs))"
    using u [of "cs ! b"] assms by simp
qed

text \<open>The classes: class \<open>b\<close> has blocks of \<open>2 ^ b\<close> bytes; only classes from 6 on are ever used.\<close>

definition class_ok :: "nat \<Rightarrow> mg_class \<Rightarrow> bool" where
  "class_ok b c \<longleftrightarrow> cl_size c = 2 ^ b \<and> list_all (\<lambda>n. block_size (n_bits n) = 2 ^ b) (pools c)"

definition classes_ok :: "mg_class list \<Rightarrow> bool" where
  "classes_ok cs \<longleftrightarrow> length cs \<le> 13 \<and> (\<forall>b < length cs. class_ok b (cs ! b))"

lemma classes_ok_update:
  assumes "classes_ok cs" "class_ok b c" "b < length cs"
  shows "classes_ok (cs[b := c])"
  using assms by (auto simp: classes_ok_def nth_list_update)

text \<open>What an allocation does to the classes: nothing, or one new used block of class \<open>b\<close>.\<close>

definition took :: "(addr \<times> nat) set \<Rightarrow> addr \<Rightarrow> mg_class list \<Rightarrow> nat \<Rightarrow> addr \<Rightarrow> addr \<Rightarrow> mg_class list \<Rightarrow> bool" where
  "took L r cs b blk p cs' \<longleftrightarrow> length cs' = length cs \<and> classes_ok cs' \<and> nodes_held L r (all_nodes cs') \<and>
     blk \<noteq> 0 \<and> p \<in> n_pool ` set (all_nodes cs') \<and> (blk, 2 ^ b) \<notin> blocks_used (all_nodes cs) \<and>
     blocks_used (all_nodes cs') = insert (blk, 2 ^ b) (blocks_used (all_nodes cs))"

lemma try_classes_took:
  assumes live: "heap_live h L" and held: "nodes_held L r (all_nodes cs)" and ok: "classes_ok cs"
  shows "hi < length cs \<Longrightarrow> mg_try_classes cs b hi = Some (blk, p, cs') \<Longrightarrow> \<exists>d \<ge> b. d \<le> hi \<and> took L r cs d blk p cs'"
proof (induction "Suc hi - b" arbitrary: b)
  case 0
  then show ?case by (simp add: mg_try_classes.simps [of cs b hi])
next
  case (Suc k)
  then have b: "b \<le> hi" "b < length cs" by auto
  show ?case
  proof (cases "mg_try_pools (pools (cs ! b))")
    case None
    then have "mg_try_classes cs (b + 1) hi = Some (blk, p, cs')"
      using Suc.prems(2) b by (simp add: mg_try_classes.simps [of cs b hi])
    moreover have "k = Suc hi - (b + 1)" using Suc.hyps(2) by simp
    ultimately obtain d where "b + 1 \<le> d" "d \<le> hi" "took L r cs d blk p cs'" using Suc.hyps(1) [of "b + 1"] Suc.prems(1) by blast
    then show ?thesis by (intro exI [of _ d]) simp
  next
    case (Some x)
    then obtain ns' where ns': "mg_try_pools (pools (cs ! b)) = Some (blk, p, ns')" "cs' = cs[b := (cs ! b)\<lparr>pools := ns'\<rparr>]"
      using Suc.prems(2) b by (cases x) (auto simp: mg_try_classes.simps [of cs b hi])
    from all_nodes_at [OF b(2)] obtain X Y where XY: "\<And>c. all_nodes (cs[b := c]) = X @ pools c @ Y"
      "all_nodes cs = X @ pools (cs ! b) @ Y" by blast
    have "list_all (node_held L) (pools (cs ! b))" using held by (simp add: nodes_held_def XY)
    from try_pools_step [OF this ns'(1)] obtain A n B n' where st: "pools (cs ! b) = A @ n # B" "ns' = A @ n' # B"
      "p = n_pool n" "node_step n blk n'" by blast
    have c: "class_ok b (cs ! b)" using ok b(2) by (simp add: classes_ok_def)
    then have sz: "block_size (n_bits n) = 2 ^ b" by (simp add: class_ok_def st(1))
    have c': "class_ok b ((cs ! b)\<lparr>pools := ns'\<rparr>)" using c st by (auto simp: class_ok_def node_step_def)
    have eq: "all_nodes cs = (X @ A) @ n # (B @ Y)" "all_nodes cs' = (X @ A) @ n' # (B @ Y)" by (simp_all add: XY ns'(2) st)
    have "took L r cs b blk p cs'"
      using blocks_used_step [OF live _ st(4), of r "X @ A" "B @ Y"] nodes_held_step [OF _ st(4), of L r "X @ A" "B @ Y"]
        held classes_ok_update [OF ok c' b(2)] ns'(2) st(3,4)
      unfolding took_def eq sz by (auto simp: node_step_def)
    then show ?thesis using b(1) by blast
  qed
qed


section \<open>A new pool\<close>

lemma pow_u16: "b \<le> 12 \<Longrightarrow> unat (word_of_nat (2 ^ b) :: u16) = 2 ^ b"
proof -
  assume "b \<le> 12"
  then have "(2 :: nat) ^ b \<le> 2 ^ 12" by (intro power_increasing) simp_all
  then have "(2 :: nat) ^ b < 2 ^ 16" by simp
  then show ?thesis unfolding unat_of_nat by simp
qed

lemma aligned_pow: "3 \<le> b \<Longrightarrow> b \<le> 12 \<Longrightarrow> aligned_size (word_of_nat (2 ^ b)) = 2 ^ b"
proof -
  assume b: "3 \<le> b" "b \<le> 12"
  then obtain c where "b = c + 3" by (metis add.commute le_Suc_ex)
  then have e: "(2 :: nat) ^ b = 8 * 2 ^ c" by (simp add: power_add)
  have "aligned_size (word_of_nat (2 ^ b)) = (2 ^ b + 7) div 8 * 8" unfolding aligned_size_def pow_u16 [OF b(2)] ..
  then show ?thesis unfolding e by simp
qed

lemma new_node:
  assumes live: "heap_live h L" and b: "3 \<le> b" "b \<le> 12"
  obtains (full) h' where "mg_pool_node_new h (2 ^ b) = Some (None, h')" "heap_live h' L"
  | (fresh) n L' h' where "mg_pool_node_new h (2 ^ b) = Some (Some n, h')" "heap_live h' L'" "L \<subseteq> L'" "node_held L' n"
      "distinct (node_addrs n)" "set (node_addrs n) \<inter> fst ` L = {}" "block_size (n_bits n) = 2 ^ b"
      "node_used n = {}" "free_slots (n_bits n) \<noteq> {}"
proof -
  let ?sz = "word_of_nat (2 ^ b) :: u16" and ?c = "mg_pool_block_count (2 ^ b)"
  have "(2 :: nat) ^ b \<le> 2 ^ 12" using b by (intro power_increasing) simp_all
  then have sz: "unat ?sz \<le> 65528" unfolding pow_u16 [OF b(2)] by simp
  have "0 < unat ?sz" unfolding pow_u16 [OF b(2)] by simp
  then have sz0: "0 < ?sz" unfolding unat_gt_0 word_neq_0_conv .
  have c: "0 < min (unat ?c) 32" "min (unat ?c) 32 = unat ?c" by (auto simp: mg_pool_block_count_def)
  define bits where "bits = new_pool ?sz ?c"
  note ok = new_pool_ok [OF sz0 sz, of ?c, folded bits_def, unfolded aligned_pow [OF b]]
  show thesis
  proof (rule create_ok [OF live sz0 sz, of ?c])
    fix h' assume "membit_create h ?sz ?c = Some (None, h')" "heap_live h' L"
    then show thesis using full [of h'] by (simp add: mg_pool_node_new_def)
  next
    fix p h1 m assume "membit_create h ?sz ?c = Some (Some (p, new_pool ?sz ?c), h1)" "p \<noteq> 0" "p \<notin> fst ` L"
      "pool_bytes (new_pool ?sz ?c) \<le> m" "heap_live h1 (insert (p, m) L)"
    then have p: "membit_create h ?sz ?c = Some (Some (p, bits), h1)" "p \<noteq> 0" "p \<notin> fst ` L" "pool_bytes bits \<le> m"
      "heap_live h1 (insert (p, m) L)" by (simp_all add: bits_def)
    have "mg_pool_node_size < 2 ^ 63" by (simp add: mg_pool_node_size_def)
    from malloc_live [OF p(5) this] obtain a h2 where a: "heap_malloc h1 mg_pool_node_size = Some (a, h2)"
      and cs: "a = 0 \<and> heap_live h2 (insert (p, m) L) \<or>
        a \<noteq> 0 \<and> a \<notin> fst ` insert (p, m) L \<and> (\<exists>k \<ge> mg_pool_node_size. heap_live h2 (insert (a, k) (insert (p, m) L)))" by blast
    from cs show thesis
    proof (elim disjE conjE exE)
      assume a0: "a = 0" "heap_live h2 (insert (p, m) L)"
      from heap.release_live [OF a0(2), of p m] obtain h3 where h3: "heap_free h2 p = Some h3" "heap_live h3 (insert (p, m) L - {(p, m)})" by auto
      have "insert (p, m) L - {(p, m)} = L" using p(3) by force
      then show thesis using full [of h3] h3 p a a0(1) by (simp add: mg_pool_node_new_def membit_destroy_def)
    next
      fix k assume a1: "a \<noteq> 0" "a \<notin> fst ` insert (p, m) L" "heap_live h2 (insert (a, k) (insert (p, m) L))"
      let ?n = "\<lparr>n_addr = a, n_pool = p, n_bits = bits, n_block_count = ucast ?c, n_block_size = ?sz\<rparr>"
      have "mg_pool_node_new h (2 ^ b) = Some (Some ?n, h2)" using p(1) a a1(1) by (simp add: mg_pool_node_new_def)
      moreover have "node_held (insert (a, k) (insert (p, m) L)) ?n" using ok(1) p(2,4) by (auto simp: node_held_def)
      moreover have "node_used ?n = {}" "free_slots bits \<noteq> {}" using ok(2,3) c by (auto simp: node_used_def lessThan_empty_iff)
      ultimately show thesis using a1 p(3) ok(4) by (intro fresh [of ?n h2 "insert (a, k) (insert (p, m) L)"]) (auto simp: node_addrs_def)
    qed
  qed
qed

lemma held_addrs:
  assumes "nodes_held L r ns"
  shows "set (concat (map node_addrs ns)) \<subseteq> fst ` L"
proof -
  have "n_pool n \<in> fst ` L \<and> n_addr n \<in> fst ` L" if "node_held L n" for n
    using that unfolding node_held_def by (metis fst_conv image_eqI)
  then have "set (node_addrs n) \<subseteq> fst ` L" if "n \<in> set ns" for n
    using that assms by (simp add: nodes_held_def list_all_iff node_addrs_def)
  then show ?thesis by fastforce
qed

lemma nodes_held_new:
  assumes "nodes_held L r (X @ Y)" "L \<subseteq> L'" "node_held L' n" "distinct (node_addrs n)" "set (node_addrs n) \<inter> fst ` L = {}"
  shows "nodes_held L' r (X @ n # Y)"
proof -
  define F where "F = fst ` L"
  have sub: "set (concat (map node_addrs (X @ Y))) \<subseteq> F" unfolding F_def using assms(1) by (rule held_addrs)
  have r: "r \<in> F" using assms(1) unfolding F_def nodes_held_def by (elim conjE)
  have apart: "set (node_addrs n) \<inter> F = {}" using assms(5) unfolding F_def .
  have "set (node_addrs n) \<inter> set (concat (map node_addrs (X @ Y))) = {}" "r \<notin> set (node_addrs n)"
    using sub r apart by blast+
  moreover have "r \<in> fst ` L'" using subsetD [OF image_mono [OF assms(2)] r [unfolded F_def]] .
  moreover have "list_all (node_held L') (X @ Y)"
    using assms(1) node_held_mono [OF _ assms(2)] by (auto simp: nodes_held_def list_all_iff)
  ultimately show ?thesis using assms(1,3,4) unfolding nodes_held_def list_all_append map_append concat_append
    by (simp add: Int_Un_distrib Int_commute) 
qed


text \<open>With room in the heap the pool is there.\<close>

lemma new_node_room:
  assumes room: "heap_room h 8192" and b: "b \<le> 12"
  shows "\<exists>n h'. mg_pool_node_new h (2 ^ b) = Some (Some n, h')"
proof -
  let ?sz = "word_of_nat (2 ^ b) :: u16" and ?c = "mg_pool_block_count (2 ^ b)"
  have p12: "(2 :: nat) ^ b \<le> 4096" using power_increasing [of b 12 "2 :: nat"] b by simp
  then have sz: "unat ?sz \<le> 65528" unfolding pow_u16 [OF b] by simp
  have "0 < unat ?sz" unfolding pow_u16 [OF b] by simp
  then have sz0: "0 < ?sz" unfolding unat_gt_0 word_neq_0_conv .
  define bits where "bits = new_pool ?sz ?c"
  have "aligned_size ?sz \<le> 2 ^ b + 7" unfolding aligned_size_def pow_u16 [OF b] by linarith
  moreover have "(2 ^ b + 7) * min (unat ?c) 32 \<le> 4103" using p12 by (simp add: mg_pool_block_count_def)
  ultimately have "aligned_size ?sz * min (unat ?c) 32 \<le> 4103" using mult_le_mono1 le_trans by blast
  then have "pool_bytes bits \<le> 4127" unfolding pool_bytes_def bits_def new_pool_ok(3,4) [OF sz0 sz, of ?c] by simp
  then have k: "pool_bytes bits + 64 \<le> 8192" "mg_pool_node_size + 64 \<le> 8192 - (pool_bytes bits + 24)" by (simp_all add: mg_pool_node_size_def)
  from malloc_room [OF room k(1)] obtain p h1 where p: "heap_malloc h (pool_bytes bits) = Some (p, h1)" "p \<noteq> 0"
    "heap_room h1 (8192 - (pool_bytes bits + 24))" by blast
  from malloc_room [OF p(3) k(2)] obtain n h2 where "heap_malloc h1 mg_pool_node_size = Some (n, h2)" "n \<noteq> 0" by blast
  moreover have "membit_create h ?sz ?c = Some (Some (p, bits), h1)"
    using create_eq [OF sz, of h ?c] p(1,2) by (simp add: bits_def)
  ultimately show ?thesis by (simp add: mg_pool_node_new_def)
qed

section \<open>Allocation\<close>

definition pool_region :: "heap \<Rightarrow> (addr \<times> nat) set \<Rightarrow> addr \<Rightarrow> mg_region \<Rightarrow> mg_class list \<Rightarrow> bool" where
  "pool_region h L r reg cs \<longleftrightarrow> heap_live h L \<and> r \<noteq> 0 \<and> reg_u reg = MG_REGION_POOL cs \<and>
     length cs = Suc (unat (max_bits reg)) \<and> classes_ok cs \<and> nodes_held L r (all_nodes cs)"

lemma class_index:
  assumes "32 \<le> sz" "sz + 8 < 2 ^ 32"
  shows "\<exists>b. next_power_of_two_index_u32 (word_of_nat (sz_add sz mg_header_size)) = Some b \<and> 6 \<le> b \<and>
    sz + 8 \<le> 2 ^ b \<and> (\<forall>d. sz + 8 \<le> 2 ^ d \<longrightarrow> b \<le> d)"
proof -
  let ?w = "word_of_nat (sz + 8) :: u32"
  have n: "sz_add sz mg_header_size = sz + 8" using assms(2) by (simp add: mg_header_size_def sz_add_exact)
  have u: "unat ?w = sz + 8" using assms(2) by (simp add: unat_of_nat del: of_nat_add)
  then have w: "1 < ?w" using assms(1) by (simp add: word_less_nat_alt del: of_nat_add)
  have m: "unat (?w - 1) = sz + 8 - 1" "?w - 1 \<noteq> 0" using unat_minus_one_u32 [OF w] u by simp_all
  have "0 < sz + 8 - 1" by simp
  from bit_width_pos [OF this] have "next_power_of_two_index_u32 ?w = Some (bit_width (sz + 8 - 1))"
    unfolding next_power_of_two_index_u32_def log2_clz32_eq [OF m(2)] m(1) using w by simp
  moreover have "sz + 8 \<le> 2 ^ bit_width (sz + 8 - 1) \<and> (\<forall>j. sz + 8 \<le> 2 ^ j \<longrightarrow> bit_width (sz + 8 - 1) \<le> j)"
    by (rule bit_width_least) (use assms(1) in simp)
  moreover have "6 \<le> bit_width (sz + 8 - 1)" using bit_width_le_iff [of "sz + 8 - 1" 5] assms(1) by simp
  ultimately show ?thesis unfolding n by blast
qed

lemma took_new:
  assumes live: "heap_live h L'" and held: "nodes_held L r (all_nodes cs)" and ok: "classes_ok cs" "b < length cs"
    and n: "L \<subseteq> L'" "node_held L' n" "distinct (node_addrs n)" "set (node_addrs n) \<inter> fst ` L = {}"
      "block_size (n_bits n) = 2 ^ b" "node_used n = {}"
    and st: "node_step n blk n'"
  shows "took L' r cs b blk (n_pool n) (cs[b := (cs ! b)\<lparr>pools := n' # pools (cs ! b)\<rparr>])"
proof -
  let ?cs' = "cs[b := (cs ! b)\<lparr>pools := n' # pools (cs ! b)\<rparr>]"
  from all_nodes_at [OF ok(2)] obtain X Y where XY: "\<And>c. all_nodes (cs[b := c]) = X @ pools c @ Y"
    "all_nodes cs = X @ pools (cs ! b) @ Y" by blast
  have eq: "all_nodes ?cs' = X @ n' # (pools (cs ! b) @ Y)" by (simp add: XY)
  have h1: "nodes_held L' r (X @ n # (pools (cs ! b) @ Y))"
    by (rule nodes_held_new [OF _ n(1-4)]) (use held in \<open>simp add: XY\<close>)
  have c: "class_ok b (cs ! b)" using ok by (simp add: classes_ok_def)
  then have c': "class_ok b ((cs ! b)\<lparr>pools := n' # pools (cs ! b)\<rparr>)" using n(5) st by (auto simp: class_ok_def node_step_def)
  have same: "blocks_used (X @ n # (pools (cs ! b) @ Y)) = blocks_used (all_nodes cs)" using n(6) by (simp add: XY(2))
  show ?thesis
    using blocks_used_step [OF live h1 st] nodes_held_step [OF h1 st] classes_ok_update [OF ok(1) c' ok(2)] st
    unfolding took_def eq n(5) same by (auto simp: node_step_def)
qed

lemma alloc_class_ok:
  assumes reg: "pool_region h L r reg cs" and sz: "32 \<le> sz" "sz + 8 < 2 ^ 32"
  shows "\<exists>a cs' hdr' h' L'. mg_region_alloc_class h hdr (max_bits reg) cs sz = Some (a, cs', hdr', h') \<and>
    heap_live h' L' \<and> L \<subseteq> L' \<and>
    (a = 0 \<and> cs' = cs \<and> hdr' = hdr \<and> L' = L \<and> (sz + 8 \<le> 2 ^ unat (max_bits reg) \<longrightarrow> \<not> heap_room h 8192) \<or>
     (\<exists>d blk p. a = blk + 8 \<and> sz + 8 \<le> 2 ^ d \<and> d \<le> unat (max_bits reg) \<and> took L' r cs d blk p cs' \<and> hdr' = hdr(blk \<mapsto> p)))"
proof -
  from reg have live: "heap_live h L" and ok: "classes_ok cs" and len: "length cs = Suc (unat (max_bits reg))"
    and held: "nodes_held L r (all_nodes cs)" by (auto simp: pool_region_def)
  from class_index [OF sz] obtain b where b: "next_power_of_two_index_u32 (word_of_nat (sz_add sz mg_header_size)) = Some b"
    "6 \<le> b" "sz + 8 \<le> 2 ^ b" "\<forall>d. sz + 8 \<le> 2 ^ d \<longrightarrow> b \<le> d" by blast
  have up: "sz + 8 \<le> 2 ^ d" if "b \<le> d" for d using b(3) power_increasing [OF that, of "2 :: nat"] by linarith
  show ?thesis
  proof (cases "unat (max_bits reg) < b")
    case True
    then have "mg_region_alloc_class h hdr (max_bits reg) cs sz = Some (0, cs, hdr, h)"
      by (simp add: mg_region_alloc_class_def b(1))
    moreover have "\<not> sz + 8 \<le> 2 ^ unat (max_bits reg)" using b(4) True by (meson not_le)
    ultimately show ?thesis using live by blast
  next
    case False
    then have bl: "b < length cs" "unat (max_bits reg) < length cs" "b \<le> 12" using len ok by (auto simp: classes_ok_def)
    show ?thesis
    proof (cases "mg_try_classes cs b (unat (max_bits reg))")
      case (Some x)
      obtain blk p cs' where x: "x = (blk, p, cs')" by (cases x)
      from try_classes_took [OF live held ok bl(2) Some [unfolded x]] obtain d where
        d: "b \<le> d" "d \<le> unat (max_bits reg)" "took L r cs d blk p cs'" by blast
      have "mg_region_alloc_class h hdr (max_bits reg) cs sz = Some (blk + 8, cs', hdr(blk \<mapsto> p), h)"
        using False by (simp add: mg_region_alloc_class_def b(1) [unfolded mg_header_size_def] Some x mg_header_size_def)
      then show ?thesis using live d up [OF d(1)] by blast
    next
      case None
      have cl: "cl_size (cs ! b) = 2 ^ b" using ok bl(1) by (simp add: classes_ok_def class_ok_def)
      have "3 \<le> b" using b(2) by simp
      from live this bl(3) show ?thesis
      proof (cases rule: new_node)
        case (full h')
        then have "mg_region_alloc_class h hdr (max_bits reg) cs sz = Some (0, cs, hdr, h')"
          using False by (simp add: mg_region_alloc_class_def b(1) None cl)
        moreover have "\<not> heap_room h 8192" using new_node_room [OF _ bl(3), of h] full(1) by auto
        ultimately show ?thesis using full(2) by blast
      next
        case (fresh n L' h')
        obtain blk bits where a: "membit_alloc (n_pool n) (n_bits n) = (blk, bits)" by fastforce
        have st: "node_step n blk (n\<lparr>n_bits := bits\<rparr>)"
          using alloc_node [OF _ _ a] fresh(4,9) by (simp add: node_held_def)
        then have "mg_region_alloc_class h hdr (max_bits reg) cs sz =
            Some (blk + 8, cs[b := (cs ! b)\<lparr>pools := n\<lparr>n_bits := bits\<rparr> # pools (cs ! b)\<rparr>], hdr(blk \<mapsto> n_pool n), h')"
          using False fresh(1) a by (simp add: mg_region_alloc_class_def b(1) [unfolded mg_header_size_def] None cl mg_header_size_def node_step_def Let_def)
        then show ?thesis using took_new [OF fresh(2) held ok bl(1) fresh(3-8) st] fresh(2,3) b(3) False by (blast intro: leI)
      qed
    qed
  qed
qed


section \<open>Reset and destruction\<close>

lemma reset_sizes [simp]:
  "block_size (membit_reset p pool) = block_size pool" "mb_count (membit_reset p pool) = mb_count pool"
  by (simp_all add: membit_reset_def)

lemma reset_pool_ok: "pool_ok pool \<Longrightarrow> p \<noteq> 0 \<Longrightarrow> pool_ok (membit_reset p pool)"
  using reset_slots [of pool p] by (simp add: pool_ok_def)

definition reset_node :: "mg_pool_node \<Rightarrow> mg_pool_node" where
  "reset_node n = n\<lparr>n_bits := membit_reset (n_pool n) (n_bits n)\<rparr>"

lemma reset_node_held:
  assumes "node_held L n"
  shows "node_held L (reset_node n)" "node_used (reset_node n) = {}"
proof -
  from assms have n: "pool_ok (n_bits n)" "n_pool n \<noteq> 0" by (auto simp: node_held_def)
  note r = reset_pool_ok [OF n]
  show "node_held L (reset_node n)" using assms r by (simp add: node_held_def reset_node_def pool_bytes_def)
  show "node_used (reset_node n) = {}" using reset_slots [OF n] r by (simp add: node_used_def reset_node_def)
qed

lemma reset_classes:
  "all_nodes (map reset_class cs) = map reset_node (all_nodes cs)"
  by (simp add: all_nodes_def reset_class_def reset_node_def [abs_def] map_concat comp_def)

lemma nodes_held_reset:
  assumes "nodes_held L r ns"
  shows "nodes_held L r (map reset_node ns)" "blocks_used (map reset_node ns) = {}"
proof -
  have "map node_addrs (map reset_node ns) = map node_addrs ns" by (simp add: node_addrs_def reset_node_def)
  then show "nodes_held L r (map reset_node ns)"
    using assms reset_node_held(1) by (auto simp: nodes_held_def list_all_iff simp del: map_map)
  show "blocks_used (map reset_node ns) = {}"
    using assms reset_node_held(2) by (auto simp: nodes_held_def list_all_iff blocks_used_def)
qed

lemma reset_ok:
  assumes "pool_region h L r reg cs"
  shows "\<exists>cs'. pool_region h L r (mg_region_reset r reg) cs' \<and> blocks_used (all_nodes cs') = {} \<and>
    map node_addrs (all_nodes cs') = map node_addrs (all_nodes cs)"
proof -
  from assms have held: "nodes_held L r (all_nodes cs)" and ok: "classes_ok cs" by (auto simp: pool_region_def)
  have "class_ok b (reset_class c)" if "class_ok b c" for b c
    using that by (simp add: class_ok_def reset_class_def list_all_iff)
  then have "classes_ok (map reset_class cs)" using ok by (simp add: classes_ok_def)
  then have "pool_region h L r (mg_region_reset r reg) (map reset_class cs)"
    using assms nodes_held_reset(1) [OF held] by (simp add: pool_region_def mg_region_reset_def reset_classes)
  moreover have "map node_addrs (all_nodes (map reset_class cs)) = map node_addrs (all_nodes cs)"
    by (simp add: reset_classes node_addrs_def reset_node_def)
  ultimately show ?thesis using nodes_held_reset(2) [OF held] reset_classes by metis
qed

text \<open>Destroying a region frees its blocks in the order of the chains.\<close>

lemma destroy_pools_list:
  "list_all (\<lambda>n. n_pool n \<noteq> 0) ns \<Longrightarrow> destroy_pools h ns = release_list heap_free h (concat (map node_addrs ns))"
  by (induction ns arbitrary: h) (auto simp: membit_destroy_def node_addrs_def split: option.split)

lemma destroy_classes_list:
  "list_all (\<lambda>n. n_pool n \<noteq> 0) (all_nodes cs) \<Longrightarrow>
   destroy_classes h cs = release_list heap_free h (concat (map node_addrs (all_nodes cs)))"
  by (induction cs arbitrary: h) (auto simp: all_nodes_def destroy_pools_list release_list_append split: option.split)

lemma destroy_ok:
  assumes "pool_region h L r reg cs" "heap_owns h A" "A = fst ` L"
  shows "\<exists>h'. mg_region_destroy h r reg = Some h' \<and> heap_owns h' (A - insert r (set (concat (map node_addrs (all_nodes cs)))))"
proof -
  from assms(1) have held: "nodes_held L r (all_nodes cs)" and len: "length cs = Suc (unat (max_bits reg))"
    and r: "r \<noteq> 0" "reg_u reg = MG_REGION_POOL cs" by (auto simp: pool_region_def)
  let ?ps = "concat (map node_addrs (all_nodes cs)) @ [r]"
  have d: "distinct ?ps" using held by (auto simp: nodes_held_def)
  have "r \<in> A" using held unfolding assms(3) nodes_held_def by (elim conjE)
  with held_addrs [OF held] have sub: "set ?ps \<subseteq> A" unfolding assms(3) by simp
  have "list_all (\<lambda>n. n_pool n \<noteq> 0) (all_nodes cs)" using held by (simp add: nodes_held_def list_all_iff node_held_def)
  from destroy_classes_list [OF this] have "mg_region_destroy h r reg = release_list heap_free h ?ps"
    using r len by (cases "release_list heap_free h (concat (map node_addrs (all_nodes cs)))")
      (simp_all add: mg_region_destroy_def release_list_append split: option.split)
  moreover have "set ?ps = insert r (set (concat (map node_addrs (all_nodes cs))))" by simp
  ultimately show ?thesis using hp.release_list_owns [OF assms(2) d sub] by metis
qed


lemma create_pool_ok:
  assumes "heap_live h L"
  shows "(\<exists>h'. mg_region_create_pool h bits = Some (None, h') \<and> heap_live h' L) \<or>
    (\<exists>r reg cs h' m. mg_region_create_pool h bits = Some (Some (r, reg), h') \<and> pool_region h' (insert (r, m) L) r reg cs \<and>
      r \<notin> fst ` L \<and> all_nodes cs = [] \<and> unat (max_bits reg) = min (unat bits) 12)"
proof -
  have "mg_region_size < 2 ^ 63" by (simp add: mg_region_size_def)
  from malloc_live [OF assms this] obtain r h' where r: "heap_malloc h mg_region_size = Some (r, h')"
    "r = 0 \<and> heap_live h' L \<or> r \<noteq> 0 \<and> r \<notin> fst ` L \<and> (\<exists>m \<ge> mg_region_size. heap_live h' (insert (r, m) L))" by blast
  define b where "b = (if bits > MG_MAX_CLASS_BITS then MG_MAX_CLASS_BITS else bits)"
  have b: "unat b = min (unat bits) 12"
    by (auto simp: b_def MG_MAX_CLASS_BITS_def word_less_nat_alt min_def)
  define cs where "cs = map (\<lambda>i. \<lparr>pools = [], cl_size = 2 ^ i\<rparr>) [0..<Suc (unat b)]"
  have n: "all_nodes cs = []" unfolding all_nodes_def cs_def by simp
  have len: "length cs = Suc (unat b)" unfolding cs_def by simp
  have "class_ok i (cs ! i)" if "i < length cs" for i using that unfolding len cs_def
    by (simp add: class_ok_def del: upt_Suc)
  then have c: "classes_ok cs" unfolding classes_ok_def len b by simp
  have e: "mg_region_create_pool h bits = Some (if r = 0 then None else Some (r, \<lparr>max_bits = b, reg_u = MG_REGION_POOL cs\<rparr>), h')"
    unfolding mg_region_create_pool_def r(1) Let_def b_def [symmetric] cs_def [symmetric] by simp
  show ?thesis
  proof (cases "r = 0")
    case True
    then show ?thesis using e r(2) by simp
  next
    case False
    then obtain m where m: "r \<notin> fst ` L" "heap_live h' (insert (r, m) L)" using r(2) by blast
    then have "pool_region h' (insert (r, m) L) r \<lparr>max_bits = b, reg_u = MG_REGION_POOL cs\<rparr> cs"
      using False n len c by (simp add: pool_region_def)
    then show ?thesis using e False m(1) n b by auto
  qed
qed

section \<open>Properties\<close>

text \<open>C23. Allocation of at least one byte, and with the header less than 4 GiB, from a region of pools: the result is the
  null pointer, and then the region, its classes, the headers and the set of used heap blocks are what they were, and
  either the request does not fit the largest class or the heap is short of memory; or it is the address behind the
  header of a block that holds the request, which overlaps no block handed out before, and exactly this block becomes
  used. The heap blocks of the region stay its own.\<close>

theorem mg_region_alloc_blocks:
  assumes reg: "pool_region h L r reg cs" and sz: "0 < sz" "max sz 32 + 8 < 2 ^ 32"
  shows "\<exists>a reg' cs' hdr' h' L'. mg_region_alloc h hdr r reg sz = Some (a, reg', hdr', h') \<and>
    pool_region h' L' r reg' cs' \<and> L \<subseteq> L' \<and>
    (a = 0 \<and> reg' = reg \<and> cs' = cs \<and> hdr' = hdr \<and> L' = L \<and>
       (max sz 32 + 8 \<le> 2 ^ unat (max_bits reg) \<longrightarrow> \<not> heap_room h 8192) \<or>
     (\<exists>blk k p. a = blk + 8 \<and> sz + 8 \<le> k \<and> hdr' = hdr(blk \<mapsto> p) \<and> p \<in> n_pool ` set (all_nodes cs') \<and>
        (blk, k) \<notin> blocks_used (all_nodes cs) \<and>
        blocks_used (all_nodes cs') = insert (blk, k) (blocks_used (all_nodes cs)) \<and>
        (\<forall>(b, l) \<in> blocks_used (all_nodes cs). b + l \<le> blk \<or> blk + k \<le> b)))"
proof -
  let ?sz = "if sz < MG_MIN_CLASS_BYTES then MG_MIN_CLASS_BYTES else sz"
  have m: "?sz = max sz 32" by (auto simp: MG_MIN_CLASS_BYTES_def)
  have "32 \<le> max sz 32" by simp
  from alloc_class_ok [OF reg this sz(2), of hdr] obtain a cs' hdr' h' L' where
    a: "mg_region_alloc_class h hdr (max_bits reg) cs (max sz 32) = Some (a, cs', hdr', h')" "heap_live h' L'" "L \<subseteq> L'"
    and cases: "a = 0 \<and> cs' = cs \<and> hdr' = hdr \<and> L' = L \<and> (max sz 32 + 8 \<le> 2 ^ unat (max_bits reg) \<longrightarrow> \<not> heap_room h 8192) \<or>
     (\<exists>d blk p. a = blk + 8 \<and> max sz 32 + 8 \<le> 2 ^ d \<and> d \<le> unat (max_bits reg) \<and> took L' r cs d blk p cs' \<and> hdr' = hdr(blk \<mapsto> p))"
    by blast
  let ?reg = "reg\<lparr>reg_u := MG_REGION_POOL cs'\<rparr>"
  have e: "mg_region_alloc h hdr r reg sz = Some (a, ?reg, hdr', h')"
    using reg sz(1) a(1) unfolding mg_region_alloc_def m by (simp add: pool_region_def)
  from cases show ?thesis
  proof (elim disjE conjE exE)
    assume z: "a = 0" "cs' = cs" "hdr' = hdr" "L' = L" "max sz 32 + 8 \<le> 2 ^ unat (max_bits reg) \<longrightarrow> \<not> heap_room h 8192"
    have "?reg = reg" using reg z(2) by (cases reg) (simp add: pool_region_def)
    then show ?thesis using e z reg a(2) by (intro exI [of _ a] exI [of _ reg] exI [of _ cs] exI [of _ hdr'] exI [of _ h'] exI [of _ L])
      (simp add: pool_region_def)
  next
    fix d blk p assume t: "a = blk + 8" "max sz 32 + 8 \<le> 2 ^ d" "took L' r cs d blk p cs'" "hdr' = hdr(blk \<mapsto> p)"
    have reg': "pool_region h' L' r ?reg cs'" using reg t(3) a(2) by (auto simp: pool_region_def took_def)
    have "b + l \<le> blk \<or> blk + 2 ^ d \<le> b" if "(b, l) \<in> blocks_used (all_nodes cs)" for b l
      using blocks_disjoint [OF a(2), of r "all_nodes cs'" b l blk "2 ^ d"] t(3) that by (auto simp: took_def)
    then have "\<forall>(b, l) \<in> blocks_used (all_nodes cs). b + l \<le> blk \<or> blk + 2 ^ d \<le> b" by blast
    moreover have "sz + 8 \<le> 2 ^ d" using t(2) by simp
    ultimately show ?thesis using e reg' a(3) t(1,3,4) unfolding took_def by blast
  qed
qed


lemma demo_region:
  obtains r reg cs h m where "mg_region_create_pool demo_heap 12 = Some (Some (r, reg), h)" "pool_region h {(r, m)} r reg cs"
    "all_nodes cs = []" "unat (max_bits reg) = 12" "heap_room h 8192"
proof -
  have "mg_region_size + 64 \<le> 1048576" by (simp add: mg_region_size_def)
  from malloc_room [OF demo_heap_room this] obtain p h where p: "heap_malloc demo_heap mg_region_size = Some (p, h)" "p \<noteq> 0"
    "heap_room h (1048576 - (mg_region_size + 24))" by blast
  have "heap_room h 8192" by (rule heap_room_mono [OF p(3)]) (simp add: mg_region_size_def)
  moreover from p(1,2) obtain reg where e: "mg_region_create_pool demo_heap 12 = Some (Some (p, reg), h)"
    by (simp add: mg_region_create_pool_def Let_def)
  ultimately show thesis using that create_pool_ok [OF demo_heap_live, of 12] by auto
qed

theorem mg_region_alloc_blocks_witness:
  "\<exists>r reg h a reg' hdr' h'. mg_region_create_pool demo_heap 12 = Some (Some (r, reg), h) \<and>
     mg_region_alloc h Map.empty r reg 100 = Some (a, reg', hdr', h') \<and> a \<noteq> 0 \<and>
     (\<exists>cs k. reg_u reg' = MG_REGION_POOL cs \<and> blocks_used (all_nodes cs) = {(a - 8, k)} \<and> 108 \<le> k)"
proof -
  obtain r reg cs h m where d: "mg_region_create_pool demo_heap 12 = Some (Some (r, reg), h)" "pool_region h {(r, m)} r reg cs"
    "all_nodes cs = []" "unat (max_bits reg) = 12" "heap_room h 8192" by (rule demo_region)
  obtain a reg' cs' hdr' h' L' where a: "mg_region_alloc h Map.empty r reg 100 = Some (a, reg', hdr', h')" "pool_region h' L' r reg' cs'"
    "a = 0 \<and> \<not> heap_room h 8192 \<or> (\<exists>blk k. a = blk + 8 \<and> 108 \<le> k \<and> blocks_used (all_nodes cs') = {(blk, k)})"
    using mg_region_alloc_blocks [OF d(2), of 100 Map.empty] d(3,4) by fastforce
  have u: "reg_u reg' = MG_REGION_POOL cs'" using a(2) by (simp add: pool_region_def)
  from a(3) d(5) obtain blk k where b: "a = blk + 8" "108 \<le> k" "blocks_used (all_nodes cs') = {(blk, k)}" by blast
  have "\<exists>cs k. reg_u reg' = MG_REGION_POOL cs \<and> blocks_used (all_nodes cs) = {(a - 8, k)} \<and> 108 \<le> k"
    using b u by (intro exI [of _ cs'] exI [of _ k]) simp
  then show ?thesis using d(1) a(1) b(1)
    by (intro exI [of _ r] exI [of _ reg] exI [of _ h] exI [of _ a] exI [of _ reg'] exI [of _ hdr'] exI [of _ h']) simp
qed

text \<open>C24. The life of a region of pools: creation takes one heap block or reports that there is none; a
  reset makes every block free again and keeps the pools; destruction gives back the region, its
  pools and its nodes, and nothing else.\<close>

theorem mg_region_lifecycle:
  assumes "pool_region h L r reg cs"
  shows "((\<exists>h'. mg_region_create_pool h bits = Some (None, h') \<and> heap_live h' L) \<or>
      (\<exists>q q_reg q_cs h' m. mg_region_create_pool h bits = Some (Some (q, q_reg), h') \<and>
         pool_region h' (insert (q, m) L) q q_reg q_cs \<and> q \<notin> fst ` L \<and> all_nodes q_cs = [])) \<and>
    (\<exists>cs'. pool_region h L r (mg_region_reset r reg) cs' \<and> blocks_used (all_nodes cs') = {} \<and>
      map node_addrs (all_nodes cs') = map node_addrs (all_nodes cs)) \<and>
    (\<exists>h'. mg_region_destroy h r reg = Some h' \<and>
      heap_owns h' (fst ` L - insert r (set (concat (map node_addrs (all_nodes cs))))))"
proof -
  have live: "heap_live h L" using assms by (simp add: pool_region_def)
  have "heap_owns h (fst ` L)" using live by (auto simp: heap_owns_def)
  note destroy = destroy_ok [OF assms this refl]
  show ?thesis
  proof (intro conjI)
    show "(\<exists>h'. mg_region_create_pool h bits = Some (None, h') \<and> heap_live h' L) \<or>
      (\<exists>q q_reg q_cs h' m. mg_region_create_pool h bits = Some (Some (q, q_reg), h') \<and>
         pool_region h' (insert (q, m) L) q q_reg q_cs \<and> q \<notin> fst ` L \<and> all_nodes q_cs = [])"
      using create_pool_ok [OF live] by blast
  qed (rule reset_ok [OF assms], rule destroy)
qed

theorem mg_region_lifecycle_witness:
  "\<exists>r reg h h'. mg_region_create_pool demo_heap 12 = Some (Some (r, reg), h) \<and>
     mg_region_destroy h r reg = Some h' \<and> heap_owns h' {}"
proof -
  obtain r reg cs h m where d: "mg_region_create_pool demo_heap 12 = Some (Some (r, reg), h)" "pool_region h {(r, m)} r reg cs"
    "all_nodes cs = []" by (rule demo_region)
  then show ?thesis using mg_region_lifecycle [OF d(2), THEN conjunct2, THEN conjunct2] by auto
qed

text \<open>A bump region hands out its buffer from the front in multiples of four bytes: a request that
  fits is served at the offset and moves it behind the request, any other leaves the region as it
  is; the offset never passes the capacity.\<close>

theorem mg_bump_carves:
  assumes "reg_u reg = MG_REGION_BUMP b" "r \<noteq> 0" "0 < sz" "sz < 2 ^ 62" "bump_off b \<le> bump_cap b" "bump_cap b < 2 ^ 63"
  shows "\<exists>n. sz \<le> n \<and> n < sz + 4 \<and> n mod 4 = 0 \<and>
    mg_region_alloc h hdr r reg sz = Some
      (if bump_off b + n \<le> bump_cap b
       then (bump_buf b + bump_off b, reg\<lparr>reg_u := MG_REGION_BUMP (b\<lparr>bump_off := bump_off b + n\<rparr>)\<rparr>, hdr, h)
       else (0, reg, hdr, h))"
proof -
  define n where "n = sz + 3 - (sz + 3) mod 4"
  have n: "sz \<le> n" "n < sz + 4" "n mod 4 = 0" unfolding n_def by presburger+
  have e: "sz_add sz 3 = sz + 3" "sz_add (bump_off b) n = bump_off b + n"
    using assms(4-6) n(2) by (intro sz_add_exact; simp)+
  have same: "reg\<lparr>reg_u := MG_REGION_BUMP b\<rparr> = reg" using assms(1) by (cases reg) simp
  have bump: "mg_region_alloc_bump b sz = (if bump_off b + n > bump_cap b then (0, b)
      else (bump_buf b + bump_off b, b\<lparr>bump_off := bump_off b + n\<rparr>))"
    unfolding mg_region_alloc_bump_def Let_def e(1) n_def [symmetric] e(2) ..
  have "mg_region_alloc h hdr r reg sz = (let (p, b) = mg_region_alloc_bump b sz in Some (p, reg\<lparr>reg_u := MG_REGION_BUMP b\<rparr>, hdr, h))"
    using assms(1-3) by (simp add: mg_region_alloc_def)
  then have "mg_region_alloc h hdr r reg sz = Some
      (if bump_off b + n \<le> bump_cap b
       then (bump_buf b + bump_off b, reg\<lparr>reg_u := MG_REGION_BUMP (b\<lparr>bump_off := bump_off b + n\<rparr>)\<rparr>, hdr, h)
       else (0, reg, hdr, h))"
    unfolding bump using same by simp
  with n show ?thesis by (intro exI [of _ n] conjI)
qed

theorem mg_bump_carves_witness:
  "mg_region_alloc demo_heap Map.empty 80 \<lparr>max_bits = 0, reg_u = MG_REGION_BUMP \<lparr>bump_buf = 320, bump_cap = 64, bump_off = 8\<rparr>\<rparr> 10 =
   Some (328, \<lparr>max_bits = 0, reg_u = MG_REGION_BUMP \<lparr>bump_buf = 320, bump_cap = 64, bump_off = 20\<rparr>\<rparr>, Map.empty, demo_heap)"
proof -
  let ?b = "\<lparr>bump_buf = 320, bump_cap = 64, bump_off = 8\<rparr>"
  obtain n where n: "10 \<le> n" "n < 14" "4 dvd n" and
    e: "mg_region_alloc demo_heap Map.empty 80 \<lparr>max_bits = 0, reg_u = MG_REGION_BUMP ?b\<rparr> 10 = Some
      (if 8 + n \<le> 64 then (328, \<lparr>max_bits = 0, reg_u = MG_REGION_BUMP (?b\<lparr>bump_off := 8 + n\<rparr>)\<rparr>, Map.empty, demo_heap)
       else (0, \<lparr>max_bits = 0, reg_u = MG_REGION_BUMP ?b\<rparr>, Map.empty, demo_heap))"
    using mg_bump_carves [of "\<lparr>max_bits = 0, reg_u = MG_REGION_BUMP ?b\<rparr>" ?b 80 10 demo_heap Map.empty] by auto
  have "n = 12" using n by presburger
  then show ?thesis using e by simp
qed

lemma pool_oversize:
  assumes p: "32 \<le> sz" "sz + 8 + 2 ^ 32 < 2 ^ 64" "reg_u reg = MG_REGION_POOL cs"
  shows "mg_region_alloc h hdr r reg (sz + 2 ^ 32) = mg_region_alloc h hdr r reg sz"
proof -
  have "sz_add (sz + 2 ^ 32) mg_header_size = sz + 8 + 2 ^ 32" "sz_add sz mg_header_size = sz + 8"
    using p(2) by (simp_all add: mg_header_size_def sz_add_exact)
  moreover have "(word_of_nat (sz + 8 + 2 ^ 32) :: u32) = word_of_nat (sz + 8)" by simp
  ultimately have "mg_region_alloc_class h hdr (max_bits reg) cs (sz + 2 ^ 32) = mg_region_alloc_class h hdr (max_bits reg) cs sz"
    unfolding mg_region_alloc_class_def Let_def by (simp only:)
  then show ?thesis using p(1,3) by (simp add: mg_region_alloc_def MG_MIN_CLASS_BYTES_def)
qed

lemma bump_oversize:
  assumes b: "2 ^ 64 - 3 \<le> sz" "sz < 2 ^ 64" "r \<noteq> 0" "reg_u reg = MG_REGION_BUMP b" "bump_off b \<le> bump_cap b" "bump_cap b < 2 ^ 64"
  shows "mg_region_alloc h hdr r reg sz = Some (bump_buf b + bump_off b, reg, hdr, h)"
proof -
  have "sz_add sz 3 = sz + 3 - 2 ^ 64" using b(1,2) unfolding sz_add_def by (simp add: mod_if)
  then have "sz_add sz 3 - sz_add sz 3 mod 4 = 0" using b(2) by simp
  moreover have "sz_add (bump_off b) 0 = bump_off b" using b(5,6) by (simp add: sz_add_exact)
  moreover have "reg\<lparr>reg_u := MG_REGION_BUMP b\<rparr> = reg" using b(4) by (cases reg) simp
  ultimately show ?thesis using b by (simp add: mg_region_alloc_def mg_region_alloc_bump_def)
qed

text \<open>Sizes that are too large are not refused: a region of pools takes the class of the low 32 bits of
  the size with its header, so that a request of 4 GiB more gets the same block, and a bump region
  serves the three largest sizes with its current offset and no bytes at all.\<close>

theorem mg_region_alloc_oversize:
  "(case reg_u reg of
     MG_REGION_POOL cs \<Rightarrow> 32 \<le> sz \<and> sz + 8 + 2 ^ 32 < 2 ^ 64 \<longrightarrow>
       mg_region_alloc h hdr r reg (sz + 2 ^ 32) = mg_region_alloc h hdr r reg sz
   | MG_REGION_BUMP b \<Rightarrow> r \<noteq> 0 \<and> 2 ^ 64 - 3 \<le> sz \<and> sz < 2 ^ 64 \<and> bump_off b \<le> bump_cap b \<and> bump_cap b < 2 ^ 64 \<longrightarrow>
       mg_region_alloc h hdr r reg sz = Some (bump_buf b + bump_off b, reg, hdr, h))"
  using pool_oversize bump_oversize by (simp split: mg_region_u.split)

theorem mg_region_alloc_oversize_witness:
  "(\<exists>r reg h. mg_region_create_pool demo_heap 12 = Some (Some (r, reg), h) \<and>
     mg_region_alloc h Map.empty r reg (40 + 2 ^ 32) = mg_region_alloc h Map.empty r reg 40) \<and>
   (let reg = \<lparr>max_bits = 0, reg_u = MG_REGION_BUMP \<lparr>bump_buf = 320, bump_cap = 64, bump_off = 8\<rparr>\<rparr>
    in mg_region_alloc demo_heap Map.empty 80 reg (2 ^ 64 - 1) = Some (328, reg, Map.empty, demo_heap))"
proof -
  obtain r reg cs h m where d: "mg_region_create_pool demo_heap 12 = Some (Some (r, reg), h)" "pool_region h {(r, m)} r reg cs"
    by (rule demo_region)
  have "reg_u reg = MG_REGION_POOL cs" using d(2) by (simp add: pool_region_def)
  then have "mg_region_alloc h Map.empty r reg (40 + 2 ^ 32) = mg_region_alloc h Map.empty r reg 40"
    using mg_region_alloc_oversize [where reg = reg and sz = 40 and h = h and hdr = Map.empty and r = r] by simp
  then show ?thesis using d(1) mg_region_alloc_oversize [where
      reg = "\<lparr>max_bits = 0, reg_u = MG_REGION_BUMP \<lparr>bump_buf = 320, bump_cap = 64, bump_off = 8\<rparr>\<rparr>" and sz = "2 ^ 64 - 1" and
      h = demo_heap and hdr = Map.empty and r = 80]
    by auto
qed

end
