(* ===== verification/Mempool.thy ===== *)
theory Mempool
  imports Allocator Link_List
begin

text \<open>
  The pools of equal blocks of \<^verbatim>\<open>mg/source/mempool.c\<close>: one heap block holds a header, and then the blocks, each
  behind a node. The nodes are chained by address, and those that are free are linked in a circular list,
  which the code keeps in the order of their addresses. A pool is its address and the contents of its heap block;
  the abstract view is the set of the free blocks.
\<close>

section \<open>State\<close>

record pool_node =
  pn_used :: u8
  pn_next :: addr

record mempool =
  mp_head :: addr
  mp_block_size :: nat
  mp_all_count :: nat
  mp_remain :: u8
  mp_links :: list_mem
  mp_nodes :: "addr \<rightharpoonup> pool_node"
  mp_end :: addr

text \<open>\<^verbatim>\<open>sizeof\<close> of the node and of the header, both multiples of eight, and the offsets of their list nodes.\<close>

definition node_struct_size :: nat where "node_struct_size = (32 + 7) div 8 * 8"
definition head_struct_size :: nat where "head_struct_size = (48 + 7) div 8 * 8"
definition free_node :: "addr \<Rightarrow> addr" where "free_node a = a + 8"
definition free_list :: "addr \<Rightarrow> addr" where "free_list p = p + 8"

type_synonym raw_nodes = "addr \<Rightarrow> list_node \<times> pool_node"

text \<open>Raw memory of the heap block becomes a node: its fields hold what the bytes happen to be. A node that does
  not lie inside the heap block is a fault.\<close>

definition raw_node :: "raw_nodes \<Rightarrow> mempool \<Rightarrow> addr \<Rightarrow> mempool option" where
  "raw_node raw s a = (if a + node_struct_size \<le> mp_end s
     then Some (s\<lparr>mp_links := (mp_links s)(free_node a \<mapsto> fst (raw a)), mp_nodes := (mp_nodes s)(a \<mapsto> snd (raw a))\<rparr>)
     else None)"

definition pool_links :: "mempool \<Rightarrow> (list_mem \<Rightarrow> list_mem option) \<Rightarrow> mempool option" where
  "pool_links s f = do { m \<leftarrow> f (mp_links s); Some (s\<lparr>mp_links := m\<rparr>) }"

definition pool_upd :: "mempool \<Rightarrow> addr \<Rightarrow> (pool_node \<Rightarrow> pool_node) \<Rightarrow> mempool option" where
  "pool_upd s a f = do { n \<leftarrow> mp_nodes s a; Some (s\<lparr>mp_nodes := (mp_nodes s)(a \<mapsto> f n)\<rparr>) }"

section \<open>Operations\<close>

text \<open>The loop of \<^verbatim>\<open>pool_apart\<close>, with its last node.\<close>

primrec apart_loop :: "raw_nodes \<Rightarrow> nat \<Rightarrow> nat \<Rightarrow> mempool \<Rightarrow> addr \<Rightarrow> (addr \<times> mempool) option" where
  "apart_loop raw step 0 s prev = Some (prev, s)"
| "apart_loop raw step (Suc k) s prev = do {
     let new = prev + step;
     s \<leftarrow> raw_node raw s new;
     s \<leftarrow> pool_upd s new (\<lambda>n. n\<lparr>pn_used := 0\<rparr>);
     s \<leftarrow> pool_links s (\<lambda>m. list_add_next m (free_node prev) (free_node new));
     s \<leftarrow> pool_upd s prev (\<lambda>n. n\<lparr>pn_next := new\<rparr>);
     apart_loop raw step k s new }"

text \<open>With no round of the loop \<^verbatim>\<open>new\<close> is not initialised when \<^verbatim>\<open>new->next\<close> is written.\<close>

definition pool_apart :: "raw_nodes \<Rightarrow> mempool \<Rightarrow> u8 \<Rightarrow> nat \<Rightarrow> mempool option" where
  "pool_apart raw s amount apart_size = (if amount = 0 then None else do {
     (new, s) \<leftarrow> apart_loop raw apart_size (unat amount) s (mp_head s);
     pool_upd s new (\<lambda>n. n\<lparr>pn_next := 0\<rparr>) })"

definition pool_apart_size :: "u16 \<Rightarrow> nat" where
  "pool_apart_size sz = (let a = unat sz + node_struct_size in if a mod 8 \<noteq> 0 then a + (8 - a mod 8) else a)"

definition mem_pool_create :: "raw_nodes \<Rightarrow> heap \<Rightarrow> u16 \<Rightarrow> u8 \<Rightarrow> ((addr \<times> mempool) option \<times> heap) option" where
  "mem_pool_create raw h sz amount = do {
     let apart_size = pool_apart_size sz;
     let total = unat (of_nat (unat amount) * of_nat apart_size + of_nat head_struct_size :: u32);
     (start, h) \<leftarrow> heap_malloc h total;
     if start = 0 then Some (None, h) else do {
       let s = \<lparr>mp_head = start + head_struct_size, mp_block_size = unat sz, mp_all_count = unat amount, mp_remain = amount,
         mp_links = [free_list start \<mapsto> \<lparr>nxt = 0, prv = 0\<rparr>], mp_nodes = Map.empty, mp_end = start + total\<rparr>;
       s \<leftarrow> raw_node raw s (mp_head s);
       s \<leftarrow> pool_upd s (mp_head s) (\<lambda>n. n\<lparr>pn_used := 0\<rparr>);
       s \<leftarrow> pool_links s (\<lambda>m. list_node_init m (free_list start));
       s \<leftarrow> pool_links s (\<lambda>m. list_add_next m (free_list start) (free_node (mp_head s)));
       s \<leftarrow> pool_apart raw s (amount - 1) apart_size;
       Some (Some (start, s), h) } }"

definition mem_pool_alloc :: "addr \<Rightarrow> mempool \<Rightarrow> (addr \<times> mempool) option" where
  "mem_pool_alloc p s = (if p = 0 then Some (0, s) else do {
     l \<leftarrow> mp_links s (free_list p);
     if nxt l \<noteq> free_list p
     then do {
       let node = nxt l - 8;
       s \<leftarrow> pool_links s (\<lambda>m. list_remove m (nxt l));
       n \<leftarrow> mp_nodes s node;
       if pn_used n = 0
       then do {
         s \<leftarrow> pool_upd s node (\<lambda>n. n\<lparr>pn_used := 1\<rparr>);
         Some (node + node_struct_size, s\<lparr>mp_remain := mp_remain s - 1\<rparr>) }
       else Some (0, s) }
     else Some (0, s) })"

text \<open>The loop of \<^verbatim>\<open>mem_pool_free\<close>: the next node by address that is not in use.\<close>

partial_function (option) next_unused :: "mempool \<Rightarrow> addr \<Rightarrow> addr option" where
  "next_unused s a = (if a = 0 then Some 0 else do {
     n \<leftarrow> mp_nodes s a;
     if pn_used n \<noteq> 0 then next_unused s (pn_next n) else Some a })"

definition mem_pool_free :: "addr \<Rightarrow> mempool \<Rightarrow> addr \<Rightarrow> mempool option" where
  "mem_pool_free p s ptr = (if ptr = 0 then Some s else do {
     let blk = sz_sub ptr node_struct_size;
     s \<leftarrow> pool_upd s blk (\<lambda>n. n\<lparr>pn_used := 0\<rparr>);
     b \<leftarrow> mp_nodes s blk;
     n \<leftarrow> next_unused s (pn_next b);
     if n \<noteq> 0 then pool_links s (\<lambda>m. list_add_prev m (free_node n) (free_node blk))
     else pool_links s (\<lambda>m. list_add_prev m (free_list p) (free_node blk)) })"

definition mem_pool_delete :: "heap \<Rightarrow> addr \<Rightarrow> heap option" where
  "mem_pool_delete h p = (if p \<noteq> 0 then heap_free h p else Some h)"

section \<open>The blocks of a pool\<close>

definition slot :: "addr \<Rightarrow> nat \<Rightarrow> nat \<Rightarrow> addr" where
  "slot p step i = p + 48 + i * step"

lemma mempool_sizes [simp]: "node_struct_size = 32" "head_struct_size = 48"
  by (simp_all add: node_struct_size_def head_struct_size_def)

lemma free_node_eq [simp]: "free_node a = free_node b \<longleftrightarrow> a = b" "free_node a - 8 = a"
  by (simp_all add: free_node_def)

lemma slot_eq: "0 < step \<Longrightarrow> slot p step i = slot p step j \<longleftrightarrow> i = j"
  by (simp add: slot_def)

lemma slot_facts [simp]: "slot p step i \<noteq> 0" "free_node (slot p step i) \<noteq> free_list p" "free_list p \<noteq> free_node (slot p step i)"
  "slot p step (Suc i) = slot p step i + step" "slot p step 0 = p + 48"
  by (simp_all add: slot_def free_node_def free_list_def)

definition free_links :: "addr \<Rightarrow> nat \<Rightarrow> nat list \<Rightarrow> addr list" where
  "free_links p step is = map (\<lambda>i. free_node (slot p step i)) is"

lemma free_links_simps [simp]:
  "free_links p step [] = []" "free_links p step (i # is) = free_node (slot p step i) # free_links p step is"
  "free_links p step (is @ js) = free_links p step is @ free_links p step js"
  by (simp_all add: free_links_def)

lemma in_free_links: "0 < step \<Longrightarrow> free_node (slot p step i) \<in> set (free_links p step is) \<longleftrightarrow> i \<in> set is"
  by (auto simp: free_links_def slot_eq)

lemma head_free_links [simp]: "free_list p \<notin> set (free_links p step is)"
  by (auto simp: free_links_def)

text \<open>A pool at \<open>p\<close> of \<open>n\<close> blocks, each of \<open>step\<close> bytes with its node, of which those in \<open>F\<close> are free.\<close>

definition mempool_ok :: "addr \<Rightarrow> nat \<Rightarrow> nat \<Rightarrow> nat set \<Rightarrow> mempool \<Rightarrow> bool" where
  "mempool_ok p n step F s \<longleftrightarrow> p \<noteq> 0 \<and> 32 \<le> step \<and> F \<subseteq> {..<n} \<and>
     dlist (mp_links s) (free_list p) (free_links p step (sorted_list_of_set F)) \<and>
     (\<forall>i < n. free_node (slot p step i) \<in> dom (mp_links s)) \<and>
     (\<forall>i < n. mp_nodes s (slot p step i) = Some \<lparr>pn_used = (if i \<in> F then 0 else 1), pn_next = (if Suc i < n then slot p step (Suc i) else 0)\<rparr>)"

lemma mempool_finite: "mempool_ok p n step F s \<Longrightarrow> finite F"
  unfolding mempool_ok_def using finite_subset by blast

lemma sorted_split:
  fixes i :: nat
  assumes "finite F" "i \<notin> F"
  shows "sorted_list_of_set F = sorted_list_of_set {j \<in> F. j < i} @ sorted_list_of_set {j \<in> F. i < j}"
    "sorted_list_of_set (insert i F) = sorted_list_of_set {j \<in> F. j < i} @ i # sorted_list_of_set {j \<in> F. i < j}"
proof -
  define xs ys where "xs = sorted_list_of_set {j \<in> F. j < i}" "ys = sorted_list_of_set {j \<in> F. i < j}"
  have xy: "sorted xs" "distinct xs" "set xs = {j \<in> F. j < i}" "sorted ys" "distinct ys" "set ys = {j \<in> F. i < j}"
    unfolding xs_ys_def using assms(1) by simp_all
  have lt: "\<forall>x \<in> set xs. x < i" "\<forall>y \<in> set ys. i < y" unfolding xy by simp_all
  have "j < i \<or> i < j" if "j \<in> F" for j using that assms(2) by (metis linorder_neqE_nat)
  then have F: "set xs \<union> set ys = F" unfolding xy by blast
  have cross: "x < y" if "x \<in> set xs" "y \<in> set ys" for x y using lt that by fastforce
  have "sorted_list_of_set F = xs @ ys"
  proof (rule sorted_distinct_set_unique)
    show "set (sorted_list_of_set F) = set (xs @ ys)" unfolding set_append F using assms(1) by simp
    show "sorted (xs @ ys)" using xy(1,4) cross by (auto simp: sorted_append less_imp_le)
    show "distinct (xs @ ys)" using xy(2,5) cross by fastforce
  qed simp_all
  moreover have "sorted_list_of_set (insert i F) = xs @ i # ys"
  proof (rule sorted_distinct_set_unique)
    have "set (xs @ i # ys) = insert i F" unfolding F [symmetric] by simp
    then show "set (sorted_list_of_set (insert i F)) = set (xs @ i # ys)" using assms(1) by (metis finite_insert set_sorted_list_of_set)
    show "sorted (xs @ i # ys)" using xy(1,4) lt cross by (auto simp: sorted_append less_imp_le)
    show "distinct (xs @ i # ys)" using xy(2,5) lt cross by fastforce
  qed simp_all
  ultimately show "sorted_list_of_set F = sorted_list_of_set {j \<in> F. j < i} @ sorted_list_of_set {j \<in> F. i < j}"
    "sorted_list_of_set (insert i F) = sorted_list_of_set {j \<in> F. j < i} @ i # sorted_list_of_set {j \<in> F. i < j}"
    unfolding xs_ys_def by simp_all
qed

section \<open>Allocation\<close>

lemma dlist_first:
  assumes "dlist m h (x # xs)"
  shows "\<exists>l m'. m h = Some l \<and> nxt l = x \<and> x \<noteq> h \<and> list_remove m x = Some m' \<and> dlist m' h xs \<and> dom m' = dom m"
proof -
  from dlist_unfold(2) [OF assms] obtain l where l: "m h = Some l" "nxt l = x" "h \<notin> set (x # xs)" by blast
  have "dlist m h ([] @ x # xs)" using assms by simp
  from dlist_remove [OF this] obtain m' where "list_remove m x = Some m'" "dlist m' h ([] @ xs)" "dom m' = dom m" by metis
  then show ?thesis using l by auto
qed

lemma pool_alloc_ok:
  assumes ok: "mempool_ok p n step F s"
  shows "F = {} \<Longrightarrow> mem_pool_alloc p s = Some (0, s)"
    "F \<noteq> {} \<Longrightarrow> \<exists>s'. mem_pool_alloc p s = Some (slot p step (Min F) + 32, s') \<and> mempool_ok p n step (F - {Min F}) s' \<and>
      mp_remain s' = mp_remain s - 1"
proof -
  have p: "p \<noteq> 0" and dl: "dlist (mp_links s) (free_list p) (free_links p step (sorted_list_of_set F))" and sz: "0 < step"
    using ok by (simp_all add: mempool_ok_def)
  show "mem_pool_alloc p s = Some (0, s)" if "F = {}"
    using dlist_unfold(1) [of "mp_links s" "free_list p"] dl p that by (auto simp: mem_pool_alloc_def)
  assume ne: "F \<noteq> {}"
  let ?i = "Min F"
  have i: "?i \<in> F" "?i < n" using Min_in [OF mempool_finite [OF ok] ne] ok by (auto simp: mempool_ok_def)
  have "sorted_list_of_set F = ?i # sorted_list_of_set (F - {?i})" by (rule sorted_list_of_set_nonempty [OF mempool_finite [OF ok] ne])
  with dl have "dlist (mp_links s) (free_list p) (free_node (slot p step ?i) # free_links p step (sorted_list_of_set (F - {?i})))" by simp
  from dlist_first [OF this] obtain l m where l: "mp_links s (free_list p) = Some l" "nxt l = free_node (slot p step ?i)"
    "free_node (slot p step ?i) \<noteq> free_list p" "list_remove (mp_links s) (free_node (slot p step ?i)) = Some m"
    "dlist m (free_list p) (free_links p step (sorted_list_of_set (F - {?i})))" "dom m = dom (mp_links s)" by blast
  let ?n = "\<lparr>pn_used = (0 :: u8), pn_next = (if Suc ?i < n then slot p step (Suc ?i) else 0)\<rparr>"
  have nd: "mp_nodes s (slot p step ?i) = Some ?n" using ok i by (simp add: mempool_ok_def)
  define s' where "s' = s\<lparr>mp_links := m, mp_nodes := (mp_nodes s)(slot p step ?i \<mapsto> ?n\<lparr>pn_used := 1\<rparr>), mp_remain := mp_remain s - 1\<rparr>"
  have "mem_pool_alloc p s = Some (slot p step ?i + 32, s')"
    using p l nd by (simp add: mem_pool_alloc_def pool_links_def pool_upd_def s'_def Let_def)
  moreover have "mempool_ok p n step (F - {?i}) s'"
    using ok l(5,6) i slot_eq [OF sz, of p] by (auto simp: mempool_ok_def s'_def simp del: slot_facts(4))
  ultimately show "\<exists>s'. mem_pool_alloc p s = Some (slot p step ?i + 32, s') \<and> mempool_ok p n step (F - {?i}) s' \<and>
      mp_remain s' = mp_remain s - 1" by (intro exI [of _ s']) (simp add: s'_def)
qed

section \<open>Release\<close>

lemma next_unused_ok:
  assumes nodes: "\<forall>i < n. mp_nodes s (slot p step i) = Some \<lparr>pn_used = (if i \<in> F then 0 else 1), pn_next = (if Suc i < n then slot p step (Suc i) else 0)\<rparr>"
    and F: "F \<subseteq> {..<n}" and k: "k \<le> n"
  shows "next_unused s (if k < n then slot p step k else 0) =
    Some (if {j \<in> F. k \<le> j} = {} then 0 else slot p step (Min {j \<in> F. k \<le> j}))"
  using k
proof (induction "n - k" arbitrary: k)
  case 0
  then have "{j \<in> F. k \<le> j} = {}" using F by auto
  then show ?case using 0 by (simp add: next_unused.simps)
next
  case (Suc d)
  then have k: "k < n" by simp
  have nd: "mp_nodes s (slot p step k) = Some \<lparr>pn_used = (if k \<in> F then 0 else 1), pn_next = (if Suc k < n then slot p step (Suc k) else 0)\<rparr>"
    using nodes k by blast
  show ?case
  proof (cases "k \<in> F")
    case True
    have "finite {j \<in> F. k \<le> j}" using F finite_subset [of _ "{..<n}"] by fastforce
    then have "Min {j \<in> F. k \<le> j} = k" by (rule Min_eqI) (use True in auto)
    then show ?thesis using True k nd by (auto simp: next_unused.simps [of s "slot p step k"])
  next
    case False
    then have e: "{j \<in> F. k \<le> j} = {j \<in> F. Suc k \<le> j}" by (auto simp: Suc_le_eq le_eq_less_or_eq)
    have "next_unused s (slot p step k) = next_unused s (if Suc k < n then slot p step (Suc k) else 0)"
      using False nd by (subst next_unused.simps) (simp del: slot_facts(4))
    also have "\<dots> = Some (if {j \<in> F. Suc k \<le> j} = {} then 0 else slot p step (Min {j \<in> F. Suc k \<le> j}))"
      using Suc.hyps(1) [of "Suc k"] Suc.hyps(2) k by simp
    finally show ?thesis using k unfolding e by simp
  qed
qed

lemma pool_free_ok:
  assumes ok: "mempool_ok p n step F s" and i: "i < n" "i \<notin> F" and fits: "slot p step n < 2 ^ 64"
  shows "\<exists>s'. mem_pool_free p s (slot p step i + 32) = Some s' \<and> mempool_ok p n step (insert i F) s' \<and> mp_remain s' = mp_remain s"
proof -
  let ?a = "slot p step i" and ?G = "{j \<in> F. i < j}" and ?L = "{j \<in> F. j < i}"
  have sz: "0 < step" "32 \<le> step" and dl: "dlist (mp_links s) (free_list p) (free_links p step (sorted_list_of_set F))"
    and nodes: "\<forall>i < n. mp_nodes s (slot p step i) = Some \<lparr>pn_used = (if i \<in> F then 0 else 1), pn_next = (if Suc i < n then slot p step (Suc i) else 0)\<rparr>"
    and F: "F \<subseteq> {..<n}" and dom: "free_node ?a \<in> dom (mp_links s)"
    using ok i by (auto simp: mempool_ok_def)
  note fin = mempool_finite [OF ok] and sp = sorted_split [OF mempool_finite [OF ok] i(2)]
  have "Suc i * step \<le> n * step" using i(1) by (intro mult_le_mono1) simp
  then have "?a + 32 < 2 ^ 64" using fits sz by (simp add: slot_def)
  then have blk: "sz_sub (?a + 32) 32 = ?a" by (subst sz_sub_exact) simp_all
  define s1 where "s1 = s\<lparr>mp_nodes := (mp_nodes s)(?a \<mapsto> \<lparr>pn_used = 0, pn_next = (if Suc i < n then slot p step (Suc i) else 0)\<rparr>)\<rparr>"
  have u: "pool_upd s ?a (\<lambda>n. n\<lparr>pn_used := 0\<rparr>) = Some s1"
    using nodes i by (simp add: pool_upd_def s1_def del: slot_facts(4))
  have nodes1: "\<forall>j < n. mp_nodes s1 (slot p step j) =
      Some \<lparr>pn_used = (if j \<in> insert i F then 0 else 1), pn_next = (if Suc j < n then slot p step (Suc j) else 0)\<rparr>"
    using nodes slot_eq [OF sz(1), of p] by (simp add: s1_def del: slot_facts(4))
  have F1: "insert i F \<subseteq> {..<n}" using F i by auto
  have G: "{j \<in> insert i F. Suc i \<le> j} = ?G" by auto
  have nx: "next_unused s1 (if Suc i < n then slot p step (Suc i) else 0) = Some (if ?G = {} then 0 else slot p step (Min ?G))"
    using next_unused_ok [OF nodes1 F1, of "Suc i"] i(1) unfolding G by simp
  have finG: "finite ?G" using fin by simp
  have hd: "hd (free_links p step (sorted_list_of_set ?G) @ [free_list p]) = (if ?G = {} then free_list p else free_node (slot p step (Min ?G)))"
  proof (cases "?G = {}")
    case False
    then show ?thesis using sorted_list_of_set_nonempty [OF finG False] by simp
  next
    case True
    show ?thesis unfolding True by simp
  qed
  have nin: "free_node ?a \<notin> set (free_list p # free_links p step (sorted_list_of_set ?L) @ free_links p step (sorted_list_of_set ?G))"
  proof -
    have "i \<notin> set (sorted_list_of_set ?L)" "i \<notin> set (sorted_list_of_set ?G)" using fin by simp_all
    then show ?thesis using in_free_links [OF sz(1), of p i] by simp
  qed
  have "dlist (mp_links s) (free_list p) (free_links p step (sorted_list_of_set ?L) @ free_links p step (sorted_list_of_set ?G))"
    using dl unfolding sp(1) by simp
  then obtain m where "list_add_prev (mp_links s) (hd (free_links p step (sorted_list_of_set ?G) @ [free_list p])) (free_node ?a) = Some m"
    "dlist m (free_list p) (free_links p step (sorted_list_of_set ?L) @ free_node ?a # free_links p step (sorted_list_of_set ?G))" "dom m = dom (mp_links s)"
    by (rule dlist_add_prev [OF _ dom nin])
  note m = this [unfolded hd]
  define s2 where "s2 = s1\<lparr>mp_links := m\<rparr>"
  have l1: "mp_links s1 = mp_links s" by (simp add: s1_def)
  have "mp_nodes s1 ?a = Some \<lparr>pn_used = 0, pn_next = (if Suc i < n then slot p step (Suc i) else 0)\<rparr>" by (simp add: s1_def)
  note b = this
  have "mem_pool_free p s (?a + 32) = Some s2"
  proof (cases "?G = {}")
    case True
    show ?thesis using blk u b nx [unfolded if_P [OF True]] m(1) [unfolded if_P [OF True]] l1
      by (simp add: mem_pool_free_def pool_links_def s2_def Let_def del: slot_facts(4))
  next
    case False
    show ?thesis using blk u b nx [unfolded if_not_P [OF False]] m(1) [unfolded if_not_P [OF False]] l1
      by (simp add: mem_pool_free_def pool_links_def s2_def Let_def del: slot_facts(4))
  qed
  have "dlist m (free_list p) (free_links p step (sorted_list_of_set (insert i F)))" using m(2) unfolding sp(2) by simp
  then have "mempool_ok p n step (insert i F) s2"
    using ok nodes1 m(3) F1 l1 unfolding mempool_ok_def s2_def by (simp del: slot_facts(4))
  then show ?thesis using \<open>mem_pool_free p s (?a + 32) = Some s2\<close> by (intro exI [of _ s2]) (simp add: s2_def s1_def)
qed

section \<open>Creation\<close>

text \<open>The first \<open>k\<close> nodes are made and linked; the chain pointer of the last one is not written yet.\<close>

definition pool_part :: "addr \<Rightarrow> nat \<Rightarrow> nat \<Rightarrow> mempool \<Rightarrow> bool" where
  "pool_part p step k s \<longleftrightarrow> dlist (mp_links s) (free_list p) (free_links p step [0..<k]) \<and>
     (\<forall>i < k. free_node (slot p step i) \<in> dom (mp_links s)) \<and>
     (\<forall>i < k. \<exists>x. mp_nodes s (slot p step i) = Some \<lparr>pn_used = 0, pn_next = x\<rparr> \<and> (Suc i < k \<longrightarrow> x = slot p step (Suc i)))"

definition same_pool :: "mempool \<Rightarrow> mempool \<Rightarrow> bool" where
  "same_pool s s' \<longleftrightarrow> mp_head s' = mp_head s \<and> mp_block_size s' = mp_block_size s \<and> mp_all_count s' = mp_all_count s \<and>
     mp_remain s' = mp_remain s \<and> mp_end s' = mp_end s"

lemma apart_round:
  assumes part: "pool_part p step (Suc k) s" and step: "32 \<le> step" and room: "slot p step (Suc k) + 32 \<le> mp_end s"
  shows "\<exists>s1 s2 s3 s4. raw_node raw s (slot p step k + step) = Some s1 \<and> pool_upd s1 (slot p step k + step) (\<lambda>n. n\<lparr>pn_used := 0\<rparr>) = Some s2 \<and>
    pool_links s2 (\<lambda>m. list_add_next m (free_node (slot p step k)) (free_node (slot p step k + step))) = Some s3 \<and>
    pool_upd s3 (slot p step k) (\<lambda>n. n\<lparr>pn_next := slot p step k + step\<rparr>) = Some s4 \<and> pool_part p step (Suc (Suc k)) s4 \<and> same_pool s s4"
proof -
  let ?a = "slot p step k" and ?b = "slot p step (Suc k)"
  have b: "?a + step = ?b" by simp
  have sz: "0 < step" using step by simp
  note eq = slot_eq [OF sz, of p]
  have dl: "dlist (mp_links s) (free_list p) (free_links p step [0..<Suc k])" and dom: "\<forall>i < Suc k. free_node (slot p step i) \<in> dom (mp_links s)"
    and nodes: "\<forall>i < Suc k. \<exists>x. mp_nodes s (slot p step i) = Some \<lparr>pn_used = 0, pn_next = x\<rparr> \<and> (Suc i < Suc k \<longrightarrow> x = slot p step (Suc i))"
    using part by (simp_all add: pool_part_def)
  define m1 where "m1 = (mp_links s)(free_node ?b \<mapsto> fst (raw ?b))"
  have "k < Suc k" by simp
  with nodes obtain xk where xk: "mp_nodes s ?a = Some \<lparr>pn_used = 0, pn_next = xk\<rparr>" by blast
  have nin: "free_node ?b \<notin> set (free_list p # free_links p step [0..<Suc k])" using in_free_links [OF sz, of p "Suc k"] eq [of "Suc k" k] sz by (simp del: slot_facts(4))
  have "\<forall>z \<in> set (free_list p # free_links p step [0..<Suc k]). m1 z = mp_links s z"
  proof
    fix z assume "z \<in> set (free_list p # free_links p step [0..<Suc k])"
    then have "z \<noteq> free_node ?b" using nin by metis
    then show "m1 z = mp_links s z" by (simp add: m1_def)
  qed
  from dlist_cong [OF this] dl have "dlist m1 (free_list p) (free_links p step [0..<Suc k] @ [])" by simp
  then obtain m2 where m2: "list_add_next m1 (last (free_list p # free_links p step [0..<Suc k])) (free_node ?b) = Some m2"
    "dlist m2 (free_list p) (free_links p step [0..<Suc k] @ [free_node ?b])" "dom m2 = dom m1"
    by (rule dlist_add_next) (use nin in \<open>auto simp: m1_def simp del: slot_facts(4)\<close>)
  have last: "last (free_list p # free_links p step [0..<Suc k]) = free_node ?a" by simp
  define n4 where "n4 = (mp_nodes s)(?b \<mapsto> (snd (raw ?b))\<lparr>pn_used := 0\<rparr>, ?a \<mapsto> \<lparr>pn_used = 0, pn_next = ?b\<rparr>)"
  define s1 where "s1 = s\<lparr>mp_links := m1, mp_nodes := (mp_nodes s)(?b \<mapsto> snd (raw ?b))\<rparr>"
  define s2 where "s2 = s1\<lparr>mp_nodes := (mp_nodes s)(?b \<mapsto> (snd (raw ?b))\<lparr>pn_used := 0\<rparr>)\<rparr>"
  define s3 where "s3 = s2\<lparr>mp_links := m2\<rparr>"
  define s4 where "s4 = s3\<lparr>mp_nodes := n4\<rparr>"
  have ab: "?a \<noteq> ?b" using eq sz by simp
  have "raw_node raw s ?b = Some s1" using room by (simp add: raw_node_def s1_def m1_def del: slot_facts(4))
  moreover have "pool_upd s1 ?b (\<lambda>n. n\<lparr>pn_used := 0\<rparr>) = Some s2" by (simp add: pool_upd_def s1_def s2_def)
  moreover have "pool_links s2 (\<lambda>m. list_add_next m (free_node ?a) (free_node ?b)) = Some s3"
    using m2(1) unfolding last by (simp add: pool_links_def s1_def s2_def s3_def del: slot_facts(4))
  moreover have "pool_upd s3 ?a (\<lambda>n. n\<lparr>pn_next := ?b\<rparr>) = Some s4"
    using xk ab by (simp add: pool_upd_def s1_def s2_def s3_def s4_def n4_def del: slot_facts(4))
  moreover have "pool_part p step (Suc (Suc k)) s4"
  proof -
    have "dlist m2 (free_list p) (free_links p step [0..<Suc (Suc k)])" using m2(2) by (simp del: slot_facts(4))
    moreover have "\<forall>i < Suc (Suc k). free_node (slot p step i) \<in> dom m2"
      using dom unfolding m2(3) m1_def by (auto simp: less_Suc_eq simp del: slot_facts(4))
    moreover have "\<exists>x. n4 (slot p step i) = Some \<lparr>pn_used = 0, pn_next = x\<rparr> \<and> (Suc i < Suc (Suc k) \<longrightarrow> x = slot p step (Suc i))"
      if i: "i < Suc (Suc k)" for i
    proof -
      consider "i = Suc k" | "i = k" | "i < k" using i by linarith
      then show ?thesis
      proof cases
        case 1
        then show ?thesis using ab by (cases "snd (raw ?b)") (simp add: n4_def del: slot_facts(4))
      next
        case 2
        then show ?thesis by (simp add: n4_def)
      next
        case 3
        then have "n4 (slot p step i) = mp_nodes s (slot p step i)" using eq by (simp add: n4_def del: slot_facts(4))
        then show ?thesis using nodes 3 by (metis Suc_less_eq less_SucI)
      qed
    qed
    ultimately show ?thesis by (simp add: pool_part_def s1_def s2_def s3_def s4_def del: slot_facts(4))
  qed
  moreover have "same_pool s s4" by (simp add: same_pool_def s1_def s2_def s3_def s4_def)
  ultimately show ?thesis unfolding b by blast
qed

lemma apart_loop_ok:
  assumes "pool_part p step (Suc k) s" "32 \<le> step" "slot p step (k + m) + 32 \<le> mp_end s"
  shows "\<exists>s'. apart_loop raw step m s (slot p step k) = Some (slot p step (k + m), s') \<and> pool_part p step (Suc (k + m)) s' \<and> same_pool s s'"
  using assms
proof (induction m arbitrary: s k)
  case 0
  then show ?case by (simp add: same_pool_def)
next
  case (Suc m)
  have "slot p step (Suc k) + 32 \<le> mp_end s" using Suc.prems(3) by (simp add: slot_def algebra_simps)
  from apart_round [OF Suc.prems(1,2) this, of raw] obtain s1 s2 s3 s4 where st:
    "raw_node raw s (slot p step k + step) = Some s1" "pool_upd s1 (slot p step k + step) (\<lambda>n. n\<lparr>pn_used := 0\<rparr>) = Some s2"
    "pool_links s2 (\<lambda>m. list_add_next m (free_node (slot p step k)) (free_node (slot p step k + step))) = Some s3"
    "pool_upd s3 (slot p step k) (\<lambda>n. n\<lparr>pn_next := slot p step k + step\<rparr>) = Some s4" "pool_part p step (Suc (Suc k)) s4" "same_pool s s4" by blast
  have "slot p step (Suc k + m) + 32 \<le> mp_end s4" using Suc.prems(3) st(6) by (simp add: same_pool_def)
  from Suc.IH [OF st(5) Suc.prems(2) this] obtain s' where s': "apart_loop raw step m s4 (slot p step (Suc k)) = Some (slot p step (Suc k + m), s')"
    "pool_part p step (Suc (Suc k + m)) s'" "same_pool s4 s'" by blast
  have "apart_loop raw step (Suc m) s (slot p step k) = apart_loop raw step m s4 (slot p step (Suc k))"
    using st(1-4) by (simp add: Let_def)
  then show ?case using s' st(6) by (intro exI [of _ s']) (simp add: same_pool_def)
qed

lemma apart_size:
  "unat sz + 32 \<le> pool_apart_size sz" "pool_apart_size sz \<le> unat sz + 39"
  unfolding pool_apart_size_def Let_def mempool_sizes by presburger+

lemma pool_total:
  "unat (of_nat (unat amount) * of_nat (pool_apart_size sz) + of_nat head_struct_size :: u32) = unat (amount :: u8) * pool_apart_size sz + 48"
proof -
  have "unat amount * pool_apart_size sz \<le> 255 * 65574"
    using u8_less [of amount] apart_size(2) [of sz] u16_less [of sz] by (intro mult_le_mono) simp_all
  then have "unat amount * pool_apart_size sz + 48 < 2 ^ 32" by simp
  moreover have "of_nat (unat amount) * of_nat (pool_apart_size sz) + of_nat head_struct_size = (of_nat (unat amount * pool_apart_size sz + 48) :: u32)"
    by (simp only: of_nat_add of_nat_mult mempool_sizes)
  ultimately show ?thesis by (simp only: unat_of_nat) simp
qed

lemma mem_pool_create_eq:
  "mem_pool_create raw h sz amount = do {
     (start, h) \<leftarrow> heap_malloc h (unat amount * pool_apart_size sz + 48);
     if start = 0 then Some (None, h) else do {
       let s = \<lparr>mp_head = start + 48, mp_block_size = unat sz, mp_all_count = unat amount, mp_remain = amount,
         mp_links = [free_list start \<mapsto> \<lparr>nxt = 0, prv = 0\<rparr>], mp_nodes = Map.empty, mp_end = start + (unat amount * pool_apart_size sz + 48)\<rparr>;
       s \<leftarrow> raw_node raw s (mp_head s);
       s \<leftarrow> pool_upd s (mp_head s) (\<lambda>n. n\<lparr>pn_used := 0\<rparr>);
       s \<leftarrow> pool_links s (\<lambda>m. list_node_init m (free_list start));
       s \<leftarrow> pool_links s (\<lambda>m. list_add_next m (free_list start) (free_node (mp_head s)));
       s \<leftarrow> pool_apart raw s (amount - 1) (pool_apart_size sz);
       Some (Some (start, s), h) } }"
  unfolding mem_pool_create_def Let_def pool_total unfolding mempool_sizes ..

text \<open>The state when the loop starts.\<close>

lemma pool_start:
  assumes "80 \<le> tot"
  shows "\<exists>s1 s2 s3 s4. raw_node raw \<lparr>mp_head = p + 48, mp_block_size = b, mp_all_count = n, mp_remain = r,
      mp_links = [free_list p \<mapsto> \<lparr>nxt = 0, prv = 0\<rparr>], mp_nodes = Map.empty, mp_end = p + tot\<rparr> (p + 48) = Some s1 \<and>
    pool_upd s1 (p + 48) (\<lambda>n. n\<lparr>pn_used := 0\<rparr>) = Some s2 \<and> pool_links s2 (\<lambda>m. list_node_init m (free_list p)) = Some s3 \<and>
    pool_links s3 (\<lambda>m. list_add_next m (free_list p) (free_node (p + 48))) = Some s4 \<and> pool_part p step 1 s4 \<and>
    mp_head s1 = p + 48 \<and> mp_head s3 = p + 48 \<and> mp_head s4 = p + 48 \<and> mp_end s4 = p + tot \<and> mp_remain s4 = r"
proof -
  let ?a = "free_node (p + 48)" and ?h = "free_list p"
  let ?s = "\<lparr>mp_head = p + 48, mp_block_size = b, mp_all_count = n, mp_remain = r,
      mp_links = [free_list p \<mapsto> \<lparr>nxt = 0, prv = 0\<rparr>], mp_nodes = Map.empty, mp_end = p + tot\<rparr>"
  have ne: "?a \<noteq> ?h" by (simp add: free_node_def free_list_def)
  define m1 where "m1 = [?h \<mapsto> \<lparr>nxt = ?h, prv = ?h\<rparr>, ?a \<mapsto> fst (raw (p + 48))]"
  have "dlist m1 ?h ([] @ [])" using ne by (simp add: dlist_def m1_def nx_def pv_def)
  then obtain m2 where m2: "list_add_next m1 (last [?h]) ?a = Some m2" "dlist m2 ?h ([] @ [?a])" "dom m2 = dom m1"
    by (rule dlist_add_next) (use ne in \<open>auto simp: m1_def\<close>)
  define s1 where "s1 = ?s\<lparr>mp_links := [?h \<mapsto> \<lparr>nxt = 0, prv = 0\<rparr>, ?a \<mapsto> fst (raw (p + 48))], mp_nodes := [p + 48 \<mapsto> snd (raw (p + 48))]\<rparr>"
  define s2 where "s2 = s1\<lparr>mp_nodes := [p + 48 \<mapsto> (snd (raw (p + 48)))\<lparr>pn_used := 0\<rparr>]\<rparr>"
  define s3 where "s3 = s2\<lparr>mp_links := m1\<rparr>"
  define s4 where "s4 = s3\<lparr>mp_links := m2\<rparr>"
  have "raw_node raw ?s (p + 48) = Some s1" using assms by (simp add: raw_node_def s1_def)
  moreover have "pool_upd s1 (p + 48) (\<lambda>n. n\<lparr>pn_used := 0\<rparr>) = Some s2" by (simp add: pool_upd_def s1_def s2_def)
  moreover have "pool_links s2 (\<lambda>m. list_node_init m ?h) = Some s3"
    using ne by (simp add: pool_links_def list_node_init_def s1_def s2_def s3_def m1_def fun_upd_twist)
  moreover have "pool_links s3 (\<lambda>m. list_add_next m ?h ?a) = Some s4" using m2(1) by (simp add: pool_links_def s3_def s4_def)
  moreover have "pool_part p step 1 s4" using m2(2,3) unfolding pool_part_def s4_def s3_def s2_def
    by (cases "snd (raw (p + 48))") (auto simp: m1_def)
  ultimately show ?thesis by (intro exI [of _ s1] exI [of _ s2] exI [of _ s3] exI [of _ s4]) (simp add: s1_def s2_def s3_def s4_def)
qed

lemma pool_create_ok:
  assumes live: "heap_live h L" and n: "1 < unat amount"
  shows "(\<exists>h'. mem_pool_create raw h sz amount = Some (None, h') \<and> heap_live h' L) \<or>
    (\<exists>p s h' m step. mem_pool_create raw h sz amount = Some (Some (p, s), h') \<and> p \<notin> fst ` L \<and> heap_live h' (insert (p, m) L) \<and>
       mempool_ok p (unat amount) step {..<unat amount} s \<and> slot p step (unat amount) \<le> p + m \<and> unat sz + 32 \<le> step \<and> mp_remain s = amount)"
proof -
  let ?step = "pool_apart_size sz" and ?total = "unat amount * pool_apart_size sz + 48"
  have st: "32 \<le> ?step" using apart_size(1) [of sz] by simp
  have "?total \<le> 255 * 65574 + 48"
    using u8_less [of amount] apart_size(2) [of sz] u16_less [of sz] by (intro add_le_mono mult_le_mono) simp_all
  then have tl: "?total < 2 ^ 63" by simp
  from malloc_live [OF live tl] obtain p h' where
    p: "heap_malloc h ?total = Some (p, h')" and
    cs: "p = 0 \<and> heap_live h' L \<or> p \<noteq> 0 \<and> p \<notin> fst ` L \<and> (\<exists>m \<ge> ?total. heap_live h' (insert (p, m) L))" by blast
  from cs show ?thesis
  proof (elim disjE conjE exE)
    assume "p = 0" "heap_live h' L"
    then show ?thesis using p by (auto simp: mem_pool_create_eq Let_def)
  next
    fix m assume p0: "p \<noteq> 0" "p \<notin> fst ` L" "?total \<le> m" "heap_live h' (insert (p, m) L)"
    define k where "k = unat amount - 1"
    have am: "unat amount = Suc k" "0 < k" using n by (simp_all add: k_def)
    have "amount \<noteq> 0" using n by auto
    then have a1: "unat (amount - 1) = k" "amount - 1 \<noteq> 0" using n by (auto simp: unat_minus_one k_def)
    have room: "p + ?total = slot p ?step (Suc k)" by (simp add: slot_def am(1) algebra_simps)
    have "80 \<le> ?total" using st mult_le_mono [of 1 "unat amount" 32 ?step] am by simp
    from pool_start [OF this, of raw p "unat sz" "unat amount" amount ?step] obtain s1 s2 s3 s4 where st4:
      "raw_node raw \<lparr>mp_head = p + 48, mp_block_size = unat sz, mp_all_count = unat amount, mp_remain = amount,
        mp_links = [free_list p \<mapsto> \<lparr>nxt = 0, prv = 0\<rparr>], mp_nodes = Map.empty, mp_end = p + ?total\<rparr> (p + 48) = Some s1"
      "pool_upd s1 (p + 48) (\<lambda>n. n\<lparr>pn_used := 0\<rparr>) = Some s2" "pool_links s2 (\<lambda>m. list_node_init m (free_list p)) = Some s3"
      "pool_links s3 (\<lambda>m. list_add_next m (free_list p) (free_node (p + 48))) = Some s4" "pool_part p ?step 1 s4"
      "mp_head s1 = p + 48" "mp_head s3 = p + 48" "mp_head s4 = p + 48" "mp_end s4 = p + ?total" "mp_remain s4 = amount" by blast
    have "slot p ?step (0 + k) + 32 \<le> mp_end s4" using room st unfolding st4(9) by simp
    from apart_loop_ok [of p ?step 0 s4 k raw] st4(5) st this obtain s5 where s5:
      "apart_loop raw ?step k s4 (slot p ?step 0) = Some (slot p ?step k, s5)" "pool_part p ?step (Suc k) s5" "same_pool s4 s5"
      by auto
    from s5(2) have nodes: "\<forall>i < Suc k. \<exists>x. mp_nodes s5 (slot p ?step i) = Some \<lparr>pn_used = 0, pn_next = x\<rparr> \<and> (Suc i < Suc k \<longrightarrow> x = slot p ?step (Suc i))"
      by (simp add: pool_part_def)
    then obtain xk where xk: "mp_nodes s5 (slot p ?step k) = Some \<lparr>pn_used = 0, pn_next = xk\<rparr>" by blast
    define s6 where "s6 = s5\<lparr>mp_nodes := (mp_nodes s5)(slot p ?step k \<mapsto> \<lparr>pn_used = 0, pn_next = 0\<rparr>)\<rparr>"
    have ap: "pool_apart raw s4 (amount - 1) ?step = Some s6"
      using a1 s5(1) xk st4(8) by (simp add: pool_apart_def pool_upd_def s6_def)
    have "mem_pool_create raw h sz amount = Some (Some (p, s6), h')"
      using p p0(1) st4(1-4,6-8) ap by (simp add: mem_pool_create_eq Let_def)
    moreover have "mempool_ok p (Suc k) ?step {..<Suc k} s6"
    proof -
      have "sorted_list_of_set {..<Suc k} = [0..<Suc k]" by (simp only: lessThan_atLeast0 sorted_list_of_set_range)
      moreover have "mp_nodes s6 (slot p ?step i) = Some \<lparr>pn_used = 0, pn_next = (if Suc i < Suc k then slot p ?step (Suc i) else 0)\<rparr>" if "i < Suc k" for i
      proof (cases "i = k")
        case False
        then have "Suc i < Suc k" "slot p ?step i \<noteq> slot p ?step k" using that slot_eq [of ?step p i k] st by simp_all
        moreover from nodes that obtain x where "mp_nodes s5 (slot p ?step i) = Some \<lparr>pn_used = 0, pn_next = x\<rparr>" "Suc i < Suc k \<longrightarrow> x = slot p ?step (Suc i)" by blast
        ultimately show ?thesis by (simp add: s6_def del: slot_facts(4))
      qed (simp add: s6_def)
      ultimately show ?thesis using s5(2) p0(1) st unfolding mempool_ok_def pool_part_def by (simp add: s6_def del: slot_facts(4))
    qed
    moreover have "slot p ?step (Suc k) \<le> p + m" using room p0(3) by simp
    moreover have "mp_remain s6 = amount" using s5(3) st4(10) by (simp add: s6_def same_pool_def)
    ultimately show ?thesis using p0(2,4) apart_size(1) [of sz] unfolding am(1) by blast
  qed
qed

section \<open>Properties\<close>

text \<open>Creating a pool of two or more blocks either reports that the heap is full, or returns a pool in a new heap
  block, in which every block is free, holds the requested size behind its node, and lies inside the heap block;
  deleting it gives back exactly that heap block.\<close>
theorem mempool_created:
  assumes "heap_live h L" "1 < unat amount"
  shows "(\<exists>h'. mem_pool_create raw h sz amount = Some (None, h') \<and> heap_live h' L) \<or>
    (\<exists>p s h' h'' m step. mem_pool_create raw h sz amount = Some (Some (p, s), h') \<and> p \<notin> fst ` L \<and> heap_live h' (insert (p, m) L) \<and>
       mempool_ok p (unat amount) step {..<unat amount} s \<and> slot p step (unat amount) \<le> p + m \<and> unat sz + 32 \<le> step \<and>
       mp_remain s = amount \<and> mem_pool_delete h' p = Some h'' \<and> heap_live h'' L)"
  using pool_create_ok [OF assms, of raw sz]
proof (elim disjE exE conjE)
  fix p s h' m step
  assume c: "mem_pool_create raw h sz amount = Some (Some (p, s), h')" "p \<notin> fst ` L" "heap_live h' (insert (p, m) L)"
    "mempool_ok p (unat amount) step {..<unat amount} s" "slot p step (unat amount) \<le> p + m" "unat sz + 32 \<le> step" "mp_remain s = amount"
  from free_live [OF c(3) insertI1] obtain h'' where "heap_free h' p = Some h''" "heap_live h'' (insert (p, m) L - {(p, m)})" by blast
  moreover have "insert (p, m) L - {(p, m)} = L" using c(2) by force
  ultimately have "mem_pool_delete h' p = Some h''" "heap_live h'' L" using c(4) by (simp_all add: mem_pool_delete_def mempool_ok_def)
  with c show ?thesis by blast
qed blast

theorem mempool_created_witness:
  "\<exists>p s h' step. mem_pool_create (\<lambda>a. (\<lparr>nxt = 7, prv = 7\<rparr>, \<lparr>pn_used = 7, pn_next = 7\<rparr>)) demo_heap 20 3 = Some (Some (p, s), h') \<and>
    mempool_ok p 3 step {..<3} s"
proof -
  let ?raw = "\<lambda>a :: addr. (\<lparr>nxt = 7, prv = 7\<rparr>, \<lparr>pn_used = (7 :: u8), pn_next = 7\<rparr>)"
  have t: "unat (3 :: u8) * pool_apart_size 20 + 48 = 216" by (simp add: pool_apart_size_def)
  from malloc_room [OF demo_heap_room, of 216] obtain p h' where m: "heap_malloc demo_heap 216 = Some (p, h')" "p \<noteq> 0" by auto
  have "\<not> (\<exists>h'. mem_pool_create ?raw demo_heap 20 3 = Some (None, h'))"
    using m unfolding mem_pool_create_eq Let_def t by (auto simp: bind_eq_Some_conv)
  with mempool_created [OF demo_heap_live, of 3 ?raw 20] show ?thesis by auto
qed

text \<open>C33. A pool is a set of free blocks: allocation takes the free block of the lowest address, or returns a null
  pointer and changes nothing; release puts a block back, at its place in the order of addresses. Blocks do
  not overlap. The counter \<^verbatim>\<open>remain_node\<close> is decremented by allocation and not changed by release.\<close>
theorem mempool_slots:
  assumes "mempool_ok p n step F s" "slot p step n < 2 ^ 64"
  shows "(if F = {} then mem_pool_alloc p s = Some (0, s)
      else \<exists>s'. mem_pool_alloc p s = Some (slot p step (Min F) + 32, s') \<and> mempool_ok p n step (F - {Min F}) s' \<and> mp_remain s' = mp_remain s - 1) \<and>
    (\<forall>i < n. i \<notin> F \<longrightarrow> (\<exists>s'. mem_pool_free p s (slot p step i + 32) = Some s' \<and> mempool_ok p n step (insert i F) s' \<and> mp_remain s' = mp_remain s)) \<and>
    (\<forall>i < n. \<forall>j < i. slot p step j + step \<le> slot p step i)"
proof (intro conjI allI impI)
  show "if F = {} then mem_pool_alloc p s = Some (0, s)
      else \<exists>s'. mem_pool_alloc p s = Some (slot p step (Min F) + 32, s') \<and> mempool_ok p n step (F - {Min F}) s' \<and> mp_remain s' = mp_remain s - 1"
    using pool_alloc_ok [OF assms(1)] by simp
  show "\<exists>s'. mem_pool_free p s (slot p step i + 32) = Some s' \<and> mempool_ok p n step (insert i F) s' \<and> mp_remain s' = mp_remain s"
    if "i < n" "i \<notin> F" for i by (rule pool_free_ok [OF assms(1) that assms(2)])
  show "slot p step j + step \<le> slot p step i" if "j < i" for i j
    using that mult_le_mono1 [of "Suc j" i step] by (simp add: slot_def)
qed

definition example_pool :: mempool where
  "example_pool = \<lparr>mp_head = 112, mp_block_size = 8, mp_all_count = 2, mp_remain = 1,
     mp_links = [72 \<mapsto> \<lparr>nxt = 160, prv = 160\<rparr>, 160 \<mapsto> \<lparr>nxt = 72, prv = 72\<rparr>, 120 \<mapsto> \<lparr>nxt = 160, prv = 72\<rparr>],
     mp_nodes = [112 \<mapsto> \<lparr>pn_used = 1, pn_next = 152\<rparr>, 152 \<mapsto> \<lparr>pn_used = 0, pn_next = 0\<rparr>], mp_end = 192\<rparr>"

lemma example_pool_ok: "mempool_ok 64 2 40 {1} example_pool"
proof -
  have "(i < 2) = (i = 0 \<or> i = 1)" for i :: nat by auto
  moreover have "slot 64 40 0 = 112" "slot 64 40 1 = 152" by (simp_all add: slot_def)
  ultimately show ?thesis unfolding mempool_ok_def
    by (auto simp: example_pool_def free_list_def free_node_def free_links_def dlist_def nx_def pv_def slot_def)
qed

theorem mempool_slots_witness:
  "\<exists>s1 s2. mem_pool_alloc 64 example_pool = Some (184, s1) \<and> mempool_ok 64 2 40 {} s1 \<and>
    mem_pool_free 64 example_pool 144 = Some s2 \<and> mempool_ok 64 2 40 {0, 1} s2"
proof -
  have sl: "slot 64 40 2 < 2 ^ 64" "slot 64 40 (Min {1}) + 32 = 184" "slot 64 40 0 + 32 = 144" by (simp_all add: slot_def)
  note w = mempool_slots [OF example_pool_ok sl(1)]
  have "\<exists>s1. mem_pool_alloc 64 example_pool = Some (184, s1) \<and> mempool_ok 64 2 40 {} s1"
    using w [THEN conjunct1] unfolding sl(2) by auto
  moreover have "\<exists>s2. mem_pool_free 64 example_pool 144 = Some s2 \<and> mempool_ok 64 2 40 {0, 1} s2"
    using w [THEN conjunct2, THEN conjunct1, rule_format, of 0] unfolding sl(3) by auto
  ultimately show ?thesis by blast
qed

text \<open>A pool of no block or of one block cannot be created: unless the heap is full, the node of the first block is
  written behind the end of the heap block, or the uninitialised pointer \<^verbatim>\<open>new\<close> is followed.\<close>
theorem mempool_small_undefined:
  assumes "heap_live h L" "unat amount \<le> 1"
  shows "mem_pool_create raw h sz amount = None \<or> (\<exists>h'. mem_pool_create raw h sz amount = Some (None, h'))"
proof -
  let ?total = "unat amount * pool_apart_size sz + 48"
  have "?total \<le> 1 * 65574 + 48"
    using assms(2) apart_size(2) [of sz] u16_less [of sz] by (intro add_le_mono mult_le_mono) simp_all
  then have tl: "?total < 2 ^ 63" by simp
  from malloc_live [OF assms(1) tl] obtain p h' where p: "heap_malloc h ?total = Some (p, h')" by blast
  show ?thesis
  proof (cases "p = 0")
    case True
    then show ?thesis using p by (auto simp: mem_pool_create_eq Let_def)
  next
    case p0: False
    show ?thesis
    proof (cases "amount = 0")
      case True
      then show ?thesis using p p0 by (simp add: mem_pool_create_eq Let_def raw_node_def)
    next
      case False
      then have "unat amount \<noteq> unat (0 :: u8)" by (metis unsigned_word_eqI)
      then have "unat amount = unat (1 :: u8)" using assms(2) by simp
      then have a: "amount = 1" by (metis unsigned_word_eqI)
      have "pool_apart raw s (amount - 1) z = None" for s z using a by (simp add: pool_apart_def)
      then show ?thesis using p p0 by (simp add: mem_pool_create_eq Let_def)
    qed
  qed
qed

theorem mempool_small_undefined_witness:
  "mem_pool_create (\<lambda>a. (\<lparr>nxt = 7, prv = 7\<rparr>, \<lparr>pn_used = 7, pn_next = 7\<rparr>)) demo_heap 20 1 = None"
proof -
  let ?raw = "\<lambda>a :: addr. (\<lparr>nxt = 7, prv = 7\<rparr>, \<lparr>pn_used = (7 :: u8), pn_next = 7\<rparr>)"
  have t: "unat (1 :: u8) * pool_apart_size 20 + 48 = 104" by (simp add: pool_apart_size_def)
  from malloc_room [OF demo_heap_room, of 104] obtain p h' where m: "heap_malloc demo_heap 104 = Some (p, h')" "p \<noteq> 0" by auto
  have "\<not> (\<exists>h'. mem_pool_create ?raw demo_heap 20 1 = Some (None, h'))"
    using m unfolding mem_pool_create_eq Let_def t by (auto simp: bind_eq_Some_conv)
  with mempool_small_undefined [OF demo_heap_live, of 1 ?raw 20] show ?thesis by auto
qed

end
