(* ===== verification/Rbtree.thy ===== *)
theory Rbtree
  imports Prelude "HOL-Library.Tree"
begin

text \<open>
  The red-black trees of \<^verbatim>\<open>lib/source/rbtree.c\<close>, at the level of pointers: a store maps the address
  of each \<^verbatim>\<open>struct rb_node\<close> to its fields, and the fields of the \<^verbatim>\<open>struct rb_root\<close> are those of the
  record \<open>rb\<close>. A dereferenced null pointer, or an address without a node, is a fault. The loops are
  \<open>partial_function\<close>s, so that neither a fault nor an endless loop has a result.
\<close>

section \<open>State\<close>

definition RB_RED :: u8 where "RB_RED = 0"
definition RB_BLACK :: u8 where "RB_BLACK = 1"

record rb_node =
  rb_parent :: addr
  rb_owner :: addr
  rb_color :: u8
  rb_right :: addr
  rb_left :: addr
  rb_value :: u32

record rb =
  rb_mem :: "addr \<rightharpoonup> rb_node"
  rb_top :: addr
  first_node :: addr
  last_node :: addr
  rb_count :: u32

text \<open>Reading and writing one field through a pointer.\<close>

definition rb_at :: "rb \<Rightarrow> addr \<Rightarrow> rb_node option" where
  "rb_at s a = (if a = 0 then None else rb_mem s a)"

definition rb_upd :: "rb \<Rightarrow> addr \<Rightarrow> (rb_node \<Rightarrow> rb_node) \<Rightarrow> rb option" where
  "rb_upd s a f = do { n \<leftarrow> rb_at s a; Some (s\<lparr>rb_mem := (rb_mem s)(a \<mapsto> f n)\<rparr>) }"

definition parent_of :: "rb \<Rightarrow> addr \<Rightarrow> addr option" where "parent_of s a = map_option rb_parent (rb_at s a)"
definition left_of :: "rb \<Rightarrow> addr \<Rightarrow> addr option" where "left_of s a = map_option rb_left (rb_at s a)"
definition right_of :: "rb \<Rightarrow> addr \<Rightarrow> addr option" where "right_of s a = map_option rb_right (rb_at s a)"
definition color_of :: "rb \<Rightarrow> addr \<Rightarrow> u8 option" where "color_of s a = map_option rb_color (rb_at s a)"
definition value_of :: "rb \<Rightarrow> addr \<Rightarrow> u32 option" where "value_of s a = map_option rb_value (rb_at s a)"

definition set_parent :: "rb \<Rightarrow> addr \<Rightarrow> addr \<Rightarrow> rb option" where "set_parent s a v = rb_upd s a (\<lambda>n. n\<lparr>rb_parent := v\<rparr>)"
definition set_left :: "rb \<Rightarrow> addr \<Rightarrow> addr \<Rightarrow> rb option" where "set_left s a v = rb_upd s a (\<lambda>n. n\<lparr>rb_left := v\<rparr>)"
definition set_right :: "rb \<Rightarrow> addr \<Rightarrow> addr \<Rightarrow> rb option" where "set_right s a v = rb_upd s a (\<lambda>n. n\<lparr>rb_right := v\<rparr>)"
definition set_color :: "rb \<Rightarrow> addr \<Rightarrow> u8 \<Rightarrow> rb option" where "set_color s a v = rb_upd s a (\<lambda>n. n\<lparr>rb_color := v\<rparr>)"
definition set_value :: "rb \<Rightarrow> addr \<Rightarrow> u32 \<Rightarrow> rb option" where "set_value s a v = rb_upd s a (\<lambda>n. n\<lparr>rb_value := v\<rparr>)"

text \<open>The tests \<^verbatim>\<open>p && p->rb_color == RB_RED\<close> and \<^verbatim>\<open>!p || p->rb_color == RB_BLACK\<close>.\<close>

definition is_red :: "rb \<Rightarrow> addr \<Rightarrow> bool option" where
  "is_red s a = (if a = 0 then Some False else do { c \<leftarrow> color_of s a; Some (c = RB_RED) })"

definition is_black :: "rb \<Rightarrow> addr \<Rightarrow> bool option" where
  "is_black s a = (if a = 0 then Some True else do { c \<leftarrow> color_of s a; Some (c = RB_BLACK) })"

section \<open>Rotations\<close>

definition rb_rotate_left :: "rb \<Rightarrow> addr \<Rightarrow> rb option" where
  "rb_rotate_left s node = do {
     right \<leftarrow> right_of s node;
     rl \<leftarrow> left_of s right;
     s \<leftarrow> set_right s node rl;
     s \<leftarrow> (if rl \<noteq> 0 then set_parent s rl node else Some s);
     s \<leftarrow> set_left s right node;
     p \<leftarrow> parent_of s node;
     s \<leftarrow> set_parent s right p;
     s \<leftarrow> (if p \<noteq> 0
          then do { pl \<leftarrow> left_of s p; if node = pl then set_left s p right else set_right s p right }
          else Some (s\<lparr>rb_top := right\<rparr>));
     set_parent s node right }"

definition rb_rotate_right :: "rb \<Rightarrow> addr \<Rightarrow> rb option" where
  "rb_rotate_right s node = do {
     left \<leftarrow> left_of s node;
     lr \<leftarrow> right_of s left;
     s \<leftarrow> set_left s node lr;
     s \<leftarrow> (if lr \<noteq> 0 then set_parent s lr node else Some s);
     s \<leftarrow> set_right s left node;
     p \<leftarrow> parent_of s node;
     s \<leftarrow> set_parent s left p;
     s \<leftarrow> (if p \<noteq> 0
          then do { pr \<leftarrow> right_of s p; if node = pr then set_right s p left else set_left s p left }
          else Some (s\<lparr>rb_top := left\<rparr>));
     set_parent s node left }"

section \<open>Insertion\<close>

text \<open>The two branches of the loop of \<^verbatim>\<open>rb_insert_color\<close>: the node of the next round.\<close>

definition insert_fix_left :: "rb \<Rightarrow> addr \<Rightarrow> addr \<Rightarrow> addr \<Rightarrow> (addr \<times> rb) option" where
  "insert_fix_left s node parent grand = do {
     uncle \<leftarrow> right_of s grand;
     red \<leftarrow> is_red s uncle;
     if red
     then do {
       s \<leftarrow> set_color s uncle RB_BLACK;
       s \<leftarrow> set_color s parent RB_BLACK;
       s \<leftarrow> set_color s grand RB_RED;
       Some (grand, s) }
     else do {
       pr \<leftarrow> right_of s parent;
       (node, parent, s) \<leftarrow> (if pr = node
          then do { s \<leftarrow> rb_rotate_left s parent; Some (parent, node, s) }
          else Some (node, parent, s));
       s \<leftarrow> set_color s parent RB_BLACK;
       s \<leftarrow> set_color s grand RB_RED;
       s \<leftarrow> rb_rotate_right s grand;
       Some (node, s) } }"

definition insert_fix_right :: "rb \<Rightarrow> addr \<Rightarrow> addr \<Rightarrow> addr \<Rightarrow> (addr \<times> rb) option" where
  "insert_fix_right s node parent grand = do {
     uncle \<leftarrow> left_of s grand;
     red \<leftarrow> is_red s uncle;
     if red
     then do {
       s \<leftarrow> set_color s uncle RB_BLACK;
       s \<leftarrow> set_color s parent RB_BLACK;
       s \<leftarrow> set_color s grand RB_RED;
       Some (grand, s) }
     else do {
       pl \<leftarrow> left_of s parent;
       (node, parent, s) \<leftarrow> (if pl = node
          then do { s \<leftarrow> rb_rotate_right s parent; Some (parent, node, s) }
          else Some (node, parent, s));
       s \<leftarrow> set_color s parent RB_BLACK;
       s \<leftarrow> set_color s grand RB_RED;
       s \<leftarrow> rb_rotate_left s grand;
       Some (node, s) } }"

partial_function (option) rb_insert_color :: "rb \<Rightarrow> addr \<Rightarrow> rb option" where
  "rb_insert_color s node = do {
     parent \<leftarrow> parent_of s node;
     red \<leftarrow> is_red s parent;
     if red
     then do {
       grand \<leftarrow> parent_of s parent;
       gl \<leftarrow> left_of s grand;
       (node, s) \<leftarrow> (if parent = gl then insert_fix_left s node parent grand
                     else insert_fix_right s node parent grand);
       rb_insert_color s node }
     else set_color s (rb_top s) RB_BLACK }"

text \<open>The \<^verbatim>\<open>struct rb_node **link\<close> of \<^verbatim>\<open>rb_insert_node\<close>.\<close>

datatype rb_link = Link_root | Link_left addr | Link_right addr

definition read_link :: "rb \<Rightarrow> rb_link \<Rightarrow> addr option" where
  "read_link s k = (case k of Link_root \<Rightarrow> Some (rb_top s) | Link_left p \<Rightarrow> left_of s p | Link_right p \<Rightarrow> right_of s p)"

definition write_link :: "rb \<Rightarrow> rb_link \<Rightarrow> addr \<Rightarrow> rb option" where
  "write_link s k v = (case k of Link_root \<Rightarrow> Some (s\<lparr>rb_top := v\<rparr>) | Link_left p \<Rightarrow> set_left s p v | Link_right p \<Rightarrow> set_right s p v)"

partial_function (option) find_link :: "rb \<Rightarrow> addr \<Rightarrow> rb_link \<Rightarrow> addr \<Rightarrow> (rb_link \<times> addr) option" where
  "find_link s new k parent = do {
     p \<leftarrow> read_link s k;
     if p = 0 then Some (k, parent)
     else do {
       nv \<leftarrow> value_of s new;
       v \<leftarrow> value_of s p;
       find_link s new (if nv < v then Link_left p else Link_right p) p } }"

definition rb_link_node :: "rb \<Rightarrow> addr \<Rightarrow> addr \<Rightarrow> rb_link \<Rightarrow> rb option" where
  "rb_link_node s node parent k = do {
     s \<leftarrow> set_parent s node parent;
     s \<leftarrow> set_color s node RB_RED;
     s \<leftarrow> set_right s node 0;
     s \<leftarrow> set_left s node 0;
     write_link s k node }"

definition rb_insert_node :: "rb \<Rightarrow> addr \<Rightarrow> rb option" where
  "rb_insert_node s new = do {
     (k, parent) \<leftarrow> find_link s new Link_root 0;
     s \<leftarrow> (if rb_count s \<noteq> 0
          then do {
            nv \<leftarrow> value_of s new;
            lv \<leftarrow> value_of s (last_node s);
            let s = (if nv \<ge> lv then s\<lparr>last_node := new\<rparr> else s);
            fv \<leftarrow> value_of s (first_node s);
            Some (if nv < fv then s\<lparr>first_node := new\<rparr> else s) }
          else Some (s\<lparr>first_node := new, last_node := new\<rparr>));
     s \<leftarrow> rb_link_node s new parent k;
     s \<leftarrow> rb_insert_color s new;
     Some (s\<lparr>rb_count := rb_count s + 1\<rparr>) }"

section \<open>Removal\<close>

text \<open>The children of \<^verbatim>\<open>other\<close> and whether they count as black.\<close>

definition children_black :: "rb \<Rightarrow> addr \<Rightarrow> (addr \<times> bool \<times> addr \<times> bool) option" where
  "children_black s other = do {
     o_left \<leftarrow> left_of s other;
     bl \<leftarrow> is_black s o_left;
     o_right \<leftarrow> right_of s other;
     br \<leftarrow> is_black s o_right;
     Some (o_left, bl, o_right, br) }"

text \<open>The two branches of the loop of \<^verbatim>\<open>rb_erase_color\<close>: the node and parent of the next round, or
  \<open>None\<close> when the branch leaves the loop.\<close>

definition erase_red_left :: "rb \<Rightarrow> addr \<Rightarrow> (addr \<times> rb) option" where
  "erase_red_left s parent = do {
     other \<leftarrow> right_of s parent;
     c \<leftarrow> color_of s other;
     if c = RB_RED
     then do {
       s \<leftarrow> set_color s other RB_BLACK;
       s \<leftarrow> set_color s parent RB_RED;
       s \<leftarrow> rb_rotate_left s parent;
       other \<leftarrow> right_of s parent;
       Some (other, s) }
     else Some (other, s) }"

definition erase_turn_left :: "rb \<Rightarrow> addr \<Rightarrow> addr \<Rightarrow> addr \<Rightarrow> (addr \<times> rb) option" where
  "erase_turn_left s parent other o_left = do {
     s \<leftarrow> (if o_left \<noteq> 0 then set_color s o_left RB_BLACK else Some s);
     s \<leftarrow> set_color s other RB_RED;
     s \<leftarrow> rb_rotate_right s other;
     other \<leftarrow> right_of s parent;
     Some (other, s) }"

definition erase_last_left :: "rb \<Rightarrow> addr \<Rightarrow> addr \<Rightarrow> rb option" where
  "erase_last_left s parent other = do {
     pc \<leftarrow> color_of s parent;
     s \<leftarrow> set_color s other pc;
     s \<leftarrow> set_color s parent RB_BLACK;
     o_right \<leftarrow> right_of s other;
     s \<leftarrow> (if o_right \<noteq> 0 then set_color s o_right RB_BLACK else Some s);
     rb_rotate_left s parent }"

definition erase_fix_left :: "rb \<Rightarrow> addr \<Rightarrow> ((addr \<times> addr) option \<times> rb) option" where
  "erase_fix_left s parent = do {
     (other, s) \<leftarrow> erase_red_left s parent;
     (o_left, bl, o_right, br) \<leftarrow> children_black s other;
     if bl \<and> br
     then do {
       s \<leftarrow> set_color s other RB_RED;
       p \<leftarrow> parent_of s parent;
       Some (Some (parent, p), s) }
     else do {
       (other, s) \<leftarrow> (if br then erase_turn_left s parent other o_left else Some (other, s));
       s \<leftarrow> erase_last_left s parent other;
       Some (None, s) } }"

definition erase_red_right :: "rb \<Rightarrow> addr \<Rightarrow> (addr \<times> rb) option" where
  "erase_red_right s parent = do {
     other \<leftarrow> left_of s parent;
     c \<leftarrow> color_of s other;
     if c = RB_RED
     then do {
       s \<leftarrow> set_color s other RB_BLACK;
       s \<leftarrow> set_color s parent RB_RED;
       s \<leftarrow> rb_rotate_right s parent;
       other \<leftarrow> left_of s parent;
       Some (other, s) }
     else Some (other, s) }"

definition erase_turn_right :: "rb \<Rightarrow> addr \<Rightarrow> addr \<Rightarrow> addr \<Rightarrow> (addr \<times> rb) option" where
  "erase_turn_right s parent other o_right = do {
     s \<leftarrow> (if o_right \<noteq> 0 then set_color s o_right RB_BLACK else Some s);
     s \<leftarrow> set_color s other RB_RED;
     s \<leftarrow> rb_rotate_left s other;
     other \<leftarrow> left_of s parent;
     Some (other, s) }"

definition erase_last_right :: "rb \<Rightarrow> addr \<Rightarrow> addr \<Rightarrow> rb option" where
  "erase_last_right s parent other = do {
     pc \<leftarrow> color_of s parent;
     s \<leftarrow> set_color s other pc;
     s \<leftarrow> set_color s parent RB_BLACK;
     o_left \<leftarrow> left_of s other;
     s \<leftarrow> (if o_left \<noteq> 0 then set_color s o_left RB_BLACK else Some s);
     rb_rotate_right s parent }"

definition erase_fix_right :: "rb \<Rightarrow> addr \<Rightarrow> ((addr \<times> addr) option \<times> rb) option" where
  "erase_fix_right s parent = do {
     (other, s) \<leftarrow> erase_red_right s parent;
     (o_left, bl, o_right, br) \<leftarrow> children_black s other;
     if bl \<and> br
     then do {
       s \<leftarrow> set_color s other RB_RED;
       p \<leftarrow> parent_of s parent;
       Some (Some (parent, p), s) }
     else do {
       (other, s) \<leftarrow> (if bl then erase_turn_right s parent other o_right else Some (other, s));
       s \<leftarrow> erase_last_right s parent other;
       Some (None, s) } }"

definition paint_black :: "rb \<Rightarrow> addr \<Rightarrow> rb option" where
  "paint_black s node = (if node \<noteq> 0 then set_color s node RB_BLACK else Some s)"

partial_function (option) rb_erase_color :: "rb \<Rightarrow> addr \<Rightarrow> addr \<Rightarrow> rb option" where
  "rb_erase_color s node parent = do {
     b \<leftarrow> is_black s node;
     if b \<and> node \<noteq> rb_top s
     then do {
       pl \<leftarrow> left_of s parent;
       (next, s) \<leftarrow> (if pl = node then erase_fix_left s parent else erase_fix_right s parent);
       case next of
         Some (node, parent) \<Rightarrow> rb_erase_color s node parent
       | None \<Rightarrow> paint_black s (rb_top s) }
     else paint_black s node }"

partial_function (option) go_left :: "rb \<Rightarrow> addr \<Rightarrow> addr option" where
  "go_left s node = do { l \<leftarrow> left_of s node; if l \<noteq> 0 then go_left s l else Some node }"

partial_function (option) go_right :: "rb \<Rightarrow> addr \<Rightarrow> addr option" where
  "go_right s node = do { r \<leftarrow> right_of s node; if r \<noteq> 0 then go_right s r else Some node }"

text \<open>\<^verbatim>\<open>if (parent) ... else root->rb_node = child\<close>: the child pointer that led to \<^verbatim>\<open>node\<close>.\<close>

definition replace_child :: "rb \<Rightarrow> addr \<Rightarrow> addr \<Rightarrow> addr \<Rightarrow> rb option" where
  "replace_child s parent node child =
     (if parent \<noteq> 0
      then do { l \<leftarrow> left_of s parent; if l = node then set_left s parent child else set_right s parent child }
      else Some (s\<lparr>rb_top := child\<rparr>))"

text \<open>Unlinking: the child that took the place, its parent, and the colour that was taken out.\<close>

definition erase_outer :: "rb \<Rightarrow> addr \<Rightarrow> addr \<Rightarrow> (addr \<times> addr \<times> u8 \<times> rb) option" where
  "erase_outer s node child = do {
     parent \<leftarrow> parent_of s node;
     color \<leftarrow> color_of s node;
     s \<leftarrow> (if child \<noteq> 0 then set_parent s child parent else Some s);
     s \<leftarrow> replace_child s parent node child;
     Some (child, parent, color, s) }"

definition erase_inner :: "rb \<Rightarrow> addr \<Rightarrow> (addr \<times> addr \<times> u8 \<times> rb) option" where
  "erase_inner s old = do {
     node \<leftarrow> right_of s old;
     node \<leftarrow> go_left s node;
     child \<leftarrow> right_of s node;
     parent \<leftarrow> parent_of s node;
     color \<leftarrow> color_of s node;
     s \<leftarrow> (if child \<noteq> 0 then set_parent s child parent else Some s);
     s \<leftarrow> replace_child s parent node child;
     np \<leftarrow> parent_of s node;
     let parent = (if np = old then node else parent);
     v \<leftarrow> parent_of s old;
     s \<leftarrow> set_parent s node v;
     v \<leftarrow> color_of s old;
     s \<leftarrow> set_color s node v;
     v \<leftarrow> right_of s old;
     s \<leftarrow> set_right s node v;
     v \<leftarrow> left_of s old;
     s \<leftarrow> set_left s node v;
     op \<leftarrow> parent_of s old;
     s \<leftarrow> replace_child s op old node;
     v \<leftarrow> left_of s old;
     s \<leftarrow> set_parent s v node;
     v \<leftarrow> right_of s old;
     s \<leftarrow> (if v \<noteq> 0 then set_parent s v node else Some s);
     Some (child, parent, color, s) }"

definition rb_erase :: "rb \<Rightarrow> addr \<Rightarrow> rb option" where
  "rb_erase s node = do {
     l \<leftarrow> left_of s node;
     r \<leftarrow> right_of s node;
     (child, parent, color, s) \<leftarrow>
       (if l = 0 then erase_outer s node r
        else if r = 0 then erase_outer s node l
        else erase_inner s node);
     if color = RB_BLACK then rb_erase_color s child parent else Some s }"

section \<open>Traversal and the interface\<close>

definition rb_first :: "rb \<Rightarrow> addr option" where
  "rb_first s = (if rb_top s = 0 then Some 0 else go_left s (rb_top s))"

definition rb_last :: "rb \<Rightarrow> addr option" where
  "rb_last s = (if rb_top s = 0 then Some 0 else go_right s (rb_top s))"

partial_function (option) climb_right :: "rb \<Rightarrow> addr \<Rightarrow> addr option" where
  "climb_right s node = do {
     p \<leftarrow> parent_of s node;
     if p = 0 then Some p
     else do { r \<leftarrow> right_of s p; if node = r then climb_right s p else Some p } }"

partial_function (option) climb_left :: "rb \<Rightarrow> addr \<Rightarrow> addr option" where
  "climb_left s node = do {
     p \<leftarrow> parent_of s node;
     if p = 0 then Some p
     else do { l \<leftarrow> left_of s p; if node = l then climb_left s p else Some p } }"

definition rb_next :: "rb \<Rightarrow> addr \<Rightarrow> addr option" where
  "rb_next s node = do { r \<leftarrow> right_of s node; if r \<noteq> 0 then go_left s r else climb_right s node }"

definition rb_prev :: "rb \<Rightarrow> addr \<Rightarrow> addr option" where
  "rb_prev s node = do { l \<leftarrow> left_of s node; if l \<noteq> 0 then go_right s l else climb_left s node }"

definition rb_replace_node :: "rb \<Rightarrow> addr \<Rightarrow> addr \<Rightarrow> rb option" where
  "rb_replace_node s victim new = do {
     parent \<leftarrow> parent_of s victim;
     s \<leftarrow> (if parent \<noteq> 0
          then do { l \<leftarrow> left_of s parent; if victim = l then set_left s parent new else set_right s parent new }
          else Some (s\<lparr>rb_top := new\<rparr>));
     l \<leftarrow> left_of s victim;
     s \<leftarrow> (if l \<noteq> 0 then set_parent s l new else Some s);
     r \<leftarrow> right_of s victim;
     s \<leftarrow> (if r \<noteq> 0 then set_parent s r new else Some s);
     n \<leftarrow> rb_at s victim;
     rb_upd s new (\<lambda>_. n) }"

partial_function (option) first_greater :: "rb \<Rightarrow> nat \<Rightarrow> addr \<Rightarrow> addr \<Rightarrow> addr option" where
  "first_greater s key node candidate =
     (if node = 0 then Some candidate
      else do {
        v \<leftarrow> value_of s node;
        if unat v > key
        then do { l \<leftarrow> left_of s node; first_greater s key l node }
        else do { r \<leftarrow> right_of s node; first_greater s key r candidate } })"

definition rb_first_greater :: "rb \<Rightarrow> nat \<Rightarrow> addr option" where
  "rb_first_greater s key = first_greater s key (rb_top s) 0"

partial_function (option) search_from :: "rb \<Rightarrow> u32 \<Rightarrow> addr \<Rightarrow> addr option" where
  "search_from s key node =
     (if node = 0 then Some 0
      else do {
        v \<leftarrow> value_of s node;
        if key < v then do { l \<leftarrow> left_of s node; search_from s key l }
        else if key > v then do { r \<leftarrow> right_of s node; search_from s key r }
        else Some node })"

definition search_node :: "rb \<Rightarrow> u32 \<Rightarrow> addr option" where
  "search_node s key = search_from s key (rb_top s)"

definition rb_root_init :: "rb \<Rightarrow> rb" where
  "rb_root_init s = s\<lparr>rb_top := 0, first_node := 0, last_node := 0, rb_count := 0\<rparr>"

definition rb_node_init :: "rb \<Rightarrow> addr \<Rightarrow> rb option" where
  "rb_node_init s a = rb_upd s a (\<lambda>_. \<lparr>rb_parent = 0, rb_owner = 0, rb_color = RB_RED, rb_right = 0, rb_left = 0, rb_value = 0\<rparr>)"

definition rb_remove_node :: "rb \<Rightarrow> addr \<Rightarrow> rb option" where
  "rb_remove_node s node = do {
     s \<leftarrow> (if rb_count s > 1
          then do {
            s \<leftarrow> (if node = last_node s then do { p \<leftarrow> rb_prev s node; Some (s\<lparr>last_node := p\<rparr>) } else Some s);
            if node = first_node s then do { n \<leftarrow> rb_next s node; Some (s\<lparr>first_node := n\<rparr>) } else Some s }
          else Some (s\<lparr>last_node := 0, first_node := 0\<rparr>));
     s \<leftarrow> rb_erase s node;
     Some (s\<lparr>rb_count := rb_count s - 1\<rparr>) }"

end
