(* ===== verification/Rbtree_Shape.thy ===== *)
theory Rbtree_Shape
  imports Rbtree
begin

text \<open>
  The shape of a red-black tree in the store: the tree of its addresses. The links of a store
  are a map from addresses to parent, left and right child; \<open>linked\<close> says that they are those
  of a tree. A position in the tree is a list of frames from the position up to the root, and the
  lemmas of this theory say what the rotations and the other link operations do at a position.
\<close>

section \<open>Links\<close>

type_synonym links = "addr \<rightharpoonup> addr \<times> addr \<times> addr"

definition links :: "rb \<Rightarrow> links" where
  "links s a = map_option (\<lambda>n. (rb_parent n, rb_left n, rb_right n)) (rb_mem s a)"

text \<open>What a link operation leaves alone.\<close>

definition colors :: "rb \<Rightarrow> addr \<Rightarrow> u8" where
  "colors s a = (case rb_mem s a of None \<Rightarrow> 0 | Some n \<Rightarrow> rb_color n)"

definition vals :: "rb \<Rightarrow> addr \<Rightarrow> u32" where
  "vals s a = (case rb_mem s a of None \<Rightarrow> 0 | Some n \<Rightarrow> rb_value n)"

definition link_parent :: "links \<Rightarrow> addr \<Rightarrow> addr \<Rightarrow> links" where
  "link_parent L a v = (if a = 0 then L else L(a := map_option (\<lambda>(p, l, r). (v, l, r)) (L a)))"

definition link_left :: "links \<Rightarrow> addr \<Rightarrow> addr \<Rightarrow> links" where
  "link_left L a v = (if a = 0 then L else L(a := map_option (\<lambda>(p, l, r). (p, v, r)) (L a)))"

definition link_right :: "links \<Rightarrow> addr \<Rightarrow> addr \<Rightarrow> links" where
  "link_right L a v = (if a = 0 then L else L(a := map_option (\<lambda>(p, l, r). (p, l, v)) (L a)))"

lemma read_links:
  assumes "links s a = Some (p, l, r)" "a \<noteq> 0"
  shows "parent_of s a = Some p" "left_of s a = Some l" "right_of s a = Some r"
    "color_of s a = Some (colors s a)" "value_of s a = Some (vals s a)"
  using assms by (auto simp: links_def parent_of_def left_of_def right_of_def color_of_def value_of_def colors_def
    vals_def rb_at_def)

text \<open>The frame of a link operation: everything but the links is as before.\<close>

definition keeps :: "rb \<Rightarrow> rb \<Rightarrow> bool" where
  "keeps s s' \<longleftrightarrow> vals s' = vals s \<and> first_node s' = first_node s \<and> last_node s' = last_node s \<and>
     rb_count s' = rb_count s \<and> dom (links s') = dom (links s)"

definition same_data :: "rb \<Rightarrow> rb \<Rightarrow> bool" where
  "same_data s s' \<longleftrightarrow> colors s' = colors s \<and> keeps s s'"

lemma keeps_refl [simp]: "keeps s s"
  by (simp add: keeps_def)

lemma keeps_trans: "keeps s s' \<Longrightarrow> keeps s' s'' \<Longrightarrow> keeps s s''"
  by (simp add: keeps_def)

lemma same_data_refl [simp]: "same_data s s"
  by (simp add: same_data_def keeps_def)

lemma same_data_trans: "same_data s s' \<Longrightarrow> same_data s' s'' \<Longrightarrow> same_data s s''"
  by (simp add: same_data_def keeps_def)

lemma write_links:
  assumes "a \<noteq> 0" "links s a = Some (p, l, r)"
  shows "\<exists>s'. set_parent s a v = Some s' \<and> links s' = (links s)(a \<mapsto> (v, l, r)) \<and> rb_top s' = rb_top s \<and> same_data s s'"
    "\<exists>s'. set_left s a v = Some s' \<and> links s' = (links s)(a \<mapsto> (p, v, r)) \<and> rb_top s' = rb_top s \<and> same_data s s'"
    "\<exists>s'. set_right s a v = Some s' \<and> links s' = (links s)(a \<mapsto> (p, l, v)) \<and> rb_top s' = rb_top s \<and> same_data s s'"
  using assms by (auto simp: links_def set_parent_def set_left_def set_right_def rb_upd_def rb_at_def same_data_def keeps_def
    colors_def vals_def fun_eq_iff split: option.splits if_splits)

lemma write_color:
  assumes "a \<noteq> 0" "links s a = Some n"
  shows "\<exists>s'. set_color s a c = Some s' \<and> links s' = links s \<and> rb_top s' = rb_top s \<and> colors s' = (colors s)(a := c) \<and> keeps s s'"
  using assms by (auto simp: links_def set_color_def rb_upd_def rb_at_def colors_def vals_def keeps_def fun_eq_iff
    split: if_splits)

lemma top_links [simp]:
  "links (s\<lparr>rb_top := v\<rparr>) = links s" "rb_top (s\<lparr>rb_top := v\<rparr>) = v" "same_data s (s\<lparr>rb_top := v\<rparr>)"
  by (auto simp: links_def same_data_def keeps_def colors_def vals_def fun_eq_iff)

section \<open>Trees of addresses\<close>

definition root_of :: "addr tree \<Rightarrow> addr" where
  "root_of t = (case t of Leaf \<Rightarrow> 0 | Node l a r \<Rightarrow> a)"

lemma root_of_simps [simp]: "root_of Leaf = 0" "root_of (Node l a r) = a"
  by (simp_all add: root_of_def)

fun linked :: "links \<Rightarrow> addr \<Rightarrow> addr tree \<Rightarrow> bool" where
  "linked L p Leaf \<longleftrightarrow> True"
| "linked L p (Node l a r) \<longleftrightarrow> a \<noteq> 0 \<and> L a = Some (p, root_of l, root_of r) \<and> linked L a l \<and> linked L a r"

lemma linked_cong: "\<forall>a \<in> set_tree t. L' a = L a \<Longrightarrow> linked L' p t = linked L p t"
  by (induction t arbitrary: p) auto

lemma linked_upd [simp]: "a \<notin> set_tree t \<Longrightarrow> linked (L(a := v)) p t = linked L p t"
  by (rule linked_cong) auto

lemma linked_nonzero: "linked L p t \<Longrightarrow> 0 \<notin> set_tree t"
  by (induction t arbitrary: p) auto

lemma root_of_0: "linked L p t \<Longrightarrow> root_of t = 0 \<longleftrightarrow> t = Leaf"
  by (cases t) auto

lemma linked_reparent:
  assumes "linked L p t" "distinct (inorder t)"
  shows "linked (link_parent L (root_of t) q) q t"
  using assms by (cases t) (auto simp: link_parent_def)

lemma root_of_in: "t \<noteq> Leaf \<Longrightarrow> root_of t \<in> set_tree t"
  by (cases t) auto

section \<open>Positions\<close>

datatype frame = Left_of addr "addr tree" | Right_of "addr tree" addr

fun fill :: "frame \<Rightarrow> addr tree \<Rightarrow> addr tree" where
  "fill (Left_of a r) t = Node t a r"
| "fill (Right_of l a) t = Node l a t"

fun plug :: "frame list \<Rightarrow> addr tree \<Rightarrow> addr tree" where
  "plug [] t = t"
| "plug (f # fs) t = plug fs (fill f t)"

fun hole_addr :: "frame \<Rightarrow> addr" where
  "hole_addr (Left_of a r) = a"
| "hole_addr (Right_of l a) = a"

fun sibling :: "frame \<Rightarrow> addr tree" where
  "sibling (Left_of a r) = r"
| "sibling (Right_of l a) = l"

fun above :: "frame list \<Rightarrow> addr" where
  "above [] = 0"
| "above (f # fs) = hole_addr f"

fun ctx_linked :: "links \<Rightarrow> frame list \<Rightarrow> addr \<Rightarrow> bool" where
  "ctx_linked L [] q \<longleftrightarrow> True"
| "ctx_linked L (Left_of a r # fs) q \<longleftrightarrow> a \<noteq> 0 \<and> L a = Some (above fs, q, root_of r) \<and> linked L a r \<and> ctx_linked L fs a"
| "ctx_linked L (Right_of l a # fs) q \<longleftrightarrow> a \<noteq> 0 \<and> L a = Some (above fs, root_of l, q) \<and> linked L a l \<and> ctx_linked L fs a"

fun ctx_root :: "frame list \<Rightarrow> addr \<Rightarrow> addr" where
  "ctx_root [] q = q"
| "ctx_root (f # fs) q = ctx_root fs (hole_addr f)"

fun before :: "frame list \<Rightarrow> addr list" where
  "before [] = []"
| "before (Left_of a r # fs) = before fs"
| "before (Right_of l a # fs) = before fs @ inorder l @ [a]"

fun behind :: "frame list \<Rightarrow> addr list" where
  "behind [] = []"
| "behind (Left_of a r # fs) = a # inorder r @ behind fs"
| "behind (Right_of l a # fs) = behind fs"

definition ctx_set :: "frame list \<Rightarrow> addr set" where
  "ctx_set fs = set (before fs) \<union> set (behind fs)"

lemma ctx_set_simps [simp]:
  "ctx_set [] = {}" "ctx_set (Left_of a r # fs) = insert a (set_tree r \<union> ctx_set fs)"
  "ctx_set (Right_of l a # fs) = insert a (set_tree l \<union> ctx_set fs)"
  by (auto simp: ctx_set_def)

lemma inorder_plug [simp]: "inorder (plug fs t) = before fs @ inorder t @ behind fs"
proof (induction fs arbitrary: t)
  case (Cons f fs)
  then show ?case by (cases f) auto
qed simp

lemma root_of_plug [simp]: "root_of (plug fs t) = ctx_root fs (root_of t)"
proof (induction fs arbitrary: t)
  case (Cons f fs)
  then show ?case by (cases f) auto
qed simp

lemma plug_append [simp]: "plug (fs @ gs) t = plug gs (plug fs t)"
  by (induction fs arbitrary: t) auto

lemma linked_plug: "linked L 0 (plug fs t) \<longleftrightarrow> ctx_linked L fs (root_of t) \<and> linked L (above fs) t"
proof (induction fs arbitrary: t)
  case (Cons f fs)
  then show ?case by (cases f) auto
qed simp

lemma ctx_linked_cong: "\<forall>a \<in> ctx_set fs. L' a = L a \<Longrightarrow> ctx_linked L' fs q = ctx_linked L fs q"
proof (induction fs arbitrary: q)
  case (Cons f fs)
  then show ?case by (cases f) (auto intro: linked_cong [THEN iffD1] linked_cong [THEN iffD2])
qed simp

lemma ctx_linked_upd [simp]: "a \<notin> ctx_set fs \<Longrightarrow> ctx_linked (L(a := v)) fs q = ctx_linked L fs q"
  by (rule ctx_linked_cong) auto

lemma above_in: "fs \<noteq> [] \<Longrightarrow> above fs \<in> ctx_set fs"
  by (cases fs; cases "hd fs") auto

lemma above_0: "ctx_linked L fs q \<Longrightarrow> above fs = 0 \<longleftrightarrow> fs = []"
  by (cases fs; cases "hd fs") auto

lemma ctx_root_in: "ctx_root fs q \<in> insert q (ctx_set fs)"
proof (induction fs arbitrary: q)
  case (Cons f fs)
  then show ?case by (cases f) auto
qed simp

text \<open>Every node of a tree has a position.\<close>

lemma plug_split:
  assumes "a \<in> set_tree t"
  obtains fs l r where "t = plug fs (Node l a r)"
  using assms
proof (induction t arbitrary: thesis)
  case (Node l b r)
  consider "a = b" | "a \<in> set_tree l" | "a \<in> set_tree r" using Node.prems(2) by auto
  then show ?case
  proof cases
    case 1
    then show ?thesis using Node.prems(1) [of "[]" l r] by simp
  next
    case 2
    then obtain fs l' r' where "l = plug fs (Node l' a r')" using Node.IH(1) by blast
    then show ?thesis using Node.prems(1) [of "fs @ [Left_of b r]" l' r'] by simp
  next
    case 3
    then obtain fs l' r' where "r = plug fs (Node l' a r')" using Node.IH(2) by blast
    then show ?thesis using Node.prems(1) [of "fs @ [Right_of l b]" l' r'] by simp
  qed
qed simp

text \<open>Redirecting the child pointer of a position.\<close>

fun relink :: "links \<Rightarrow> frame list \<Rightarrow> addr \<Rightarrow> links" where
  "relink L [] q = L"
| "relink L (Left_of a r # fs) q = link_left L a q"
| "relink L (Right_of l a # fs) q = link_right L a q"

lemma ctx_linked_relink:
  assumes "ctx_linked L fs p" "distinct (before fs @ behind fs)"
  shows "ctx_linked (relink L fs q) fs q"
  using assms by (cases "(L, fs, q)" rule: relink.cases) (auto simp: link_left_def link_right_def ctx_set_def)

lemma relink_other: "a \<noteq> above fs \<Longrightarrow> relink L fs q a = L a"
  by (cases "(L, fs, q)" rule: relink.cases) (auto simp: link_left_def link_right_def)

section \<open>Trees in the store\<close>

definition rb_shape :: "rb \<Rightarrow> addr tree \<Rightarrow> bool" where
  "rb_shape s t \<longleftrightarrow> linked (links s) 0 t \<and> rb_top s = root_of t \<and> distinct (inorder t)"

lemma rb_shape_plug:
  "rb_shape s (plug fs t) \<longleftrightarrow> ctx_linked (links s) fs (root_of t) \<and> linked (links s) (above fs) t \<and>
     rb_top s = ctx_root fs (root_of t) \<and> distinct (before fs @ inorder t @ behind fs)"
  by (auto simp: rb_shape_def linked_plug)

lemma rb_shape_cong: "links s' = links s \<Longrightarrow> rb_top s' = rb_top s \<Longrightarrow> rb_shape s' t = rb_shape s t"
  by (simp add: rb_shape_def)

lemma rb_shape_unique: "rb_shape s t \<Longrightarrow> rb_shape s t' \<Longrightarrow> set_tree t \<noteq> {} \<Longrightarrow> root_of t = root_of t'"
  by (simp add: rb_shape_def)

lemma shape_node:
  assumes "rb_shape s (plug fs (Node l a r))"
  shows "a \<noteq> 0" "links s a = Some (above fs, root_of l, root_of r)" "parent_of s a = Some (above fs)"
    "left_of s a = Some (root_of l)" "right_of s a = Some (root_of r)" "color_of s a = Some (colors s a)"
    "value_of s a = Some (vals s a)"
proof -
  show *: "a \<noteq> 0" "links s a = Some (above fs, root_of l, root_of r)" using assms by (simp_all add: rb_shape_plug)
  show "parent_of s a = Some (above fs)" "left_of s a = Some (root_of l)" "right_of s a = Some (root_of r)"
    "color_of s a = Some (colors s a)" "value_of s a = Some (vals s a)" using read_links [OF *(2,1)] by simp_all
qed

lemma shape_paint:
  assumes "rb_shape s t" "a \<in> set_tree t"
  shows "\<exists>s'. set_color s a c = Some s' \<and> rb_shape s' t \<and> rb_top s' = rb_top s \<and> colors s' = (colors s)(a := c) \<and> keeps s s'"
proof -
  from plug_split [OF assms(2)] obtain fs l r where t: "t = plug fs (Node l a r)" .
  note n = shape_node [OF assms(1) [unfolded t]]
  from write_color [OF n(1,2), of c] rb_shape_cong assms(1) show ?thesis by metis
qed


section \<open>Writing links\<close>

lemma set_link:
  assumes "a \<noteq> 0" "a \<in> dom (links s)"
  shows "\<exists>s'. set_parent s a v = Some s' \<and> links s' = link_parent (links s) a v \<and> rb_top s' = rb_top s \<and> same_data s s'"
    "\<exists>s'. set_left s a v = Some s' \<and> links s' = link_left (links s) a v \<and> rb_top s' = rb_top s \<and> same_data s s'"
    "\<exists>s'. set_right s a v = Some s' \<and> links s' = link_right (links s) a v \<and> rb_top s' = rb_top s \<and> same_data s s'"
proof -
  from assms(2) obtain p l r where "links s a = Some (p, l, r)" by (metis domD prod_cases3)
  note w = write_links [OF assms(1) this, of v]
  show "\<exists>s'. set_parent s a v = Some s' \<and> links s' = link_parent (links s) a v \<and> rb_top s' = rb_top s \<and> same_data s s'"
    "\<exists>s'. set_left s a v = Some s' \<and> links s' = link_left (links s) a v \<and> rb_top s' = rb_top s \<and> same_data s s'"
    "\<exists>s'. set_right s a v = Some s' \<and> links s' = link_right (links s) a v \<and> rb_top s' = rb_top s \<and> same_data s s'"
    using w \<open>links s a = _\<close> assms(1) by (auto simp: link_parent_def link_left_def link_right_def)
qed

lemma set_parent_opt:
  assumes "a = 0 \<or> a \<in> dom (links s)"
  shows "\<exists>s'. (if a \<noteq> 0 then set_parent s a v else Some s) = Some s' \<and> links s' = link_parent (links s) a v \<and>
    rb_top s' = rb_top s \<and> same_data s s'"
  using set_link(1) [of a s v] assms by (auto simp: link_parent_def)

lemma dom_links [simp]:
  "dom (link_parent L a v) = dom L" "dom (link_left L a v) = dom L" "dom (link_right L a v) = dom L"
  "dom (relink L fs v) = dom L"
proof -
  show *: "dom (link_parent L a v) = dom L" "dom (link_left L a v) = dom L" "dom (link_right L a v) = dom L" for L a v
    by (auto simp: link_parent_def link_left_def link_right_def split: if_splits)
  show "dom (relink L fs v) = dom L" by (cases "(L, fs, v)" rule: relink.cases) (simp_all add: *)
qed

lemma ctx_dom: "ctx_linked L fs q \<Longrightarrow> fs \<noteq> [] \<Longrightarrow> above fs \<noteq> 0 \<and> above fs \<in> dom L"
  by (cases "(L, fs, q)" rule: relink.cases) auto

lemma linked_dom: "linked L p t \<Longrightarrow> set_tree t \<subseteq> dom L"
proof (induction t arbitrary: p)
  case (Node l a r)
  have "set_tree l \<subseteq> dom L" "set_tree r \<subseteq> dom L" using Node.IH [of a] Node.prems by simp_all
  moreover have "a \<in> dom L" using Node.prems by auto
  ultimately show ?case by simp
qed simp

text \<open>The child pointer of a position is found by comparing the left child of the parent, or the right one.\<close>

lemma ctx_left:
  assumes "ctx_linked L fs q" "fs \<noteq> []" "q \<noteq> 0" "q \<notin> ctx_set fs"
  shows "\<exists>p l r. L (above fs) = Some (p, l, r) \<and> (q = l \<longleftrightarrow> (\<exists>a t gs. fs = Left_of a t # gs)) \<and>
    (q = r \<longleftrightarrow> (\<exists>a t gs. fs = Right_of t a # gs))"
proof (cases "hd fs")
  case (Left_of a r)
  then obtain gs where fs: "fs = Left_of a r # gs" using assms(2) by (cases fs) auto
  have "q \<noteq> root_of r" using assms(3,4) root_of_in [of r] by (cases r) (auto simp: fs)
  then show ?thesis using assms(1) by (simp add: fs)
next
  case (Right_of l a)
  then obtain gs where fs: "fs = Right_of l a # gs" using assms(2) by (cases fs) auto
  have "q \<noteq> root_of l" using assms(3,4) root_of_in [of l] by (cases l) (auto simp: fs)
  then show ?thesis using assms(1) by (simp add: fs)
qed

lemma replace_links:
  assumes c: "ctx_linked (links s) fs q" "q \<noteq> 0" "q \<notin> ctx_set fs"
  shows "\<exists>s'. (if above fs \<noteq> 0 then do { l \<leftarrow> left_of s (above fs); if q = l then set_left s (above fs) v else set_right s (above fs) v }
      else Some (s\<lparr>rb_top := v\<rparr>)) = Some s' \<and>
    links s' = relink (links s) fs v \<and> rb_top s' = (if fs = [] then v else rb_top s) \<and> same_data s s'"
    "\<exists>s'. (if above fs \<noteq> 0 then do { r \<leftarrow> right_of s (above fs); if q = r then set_right s (above fs) v else set_left s (above fs) v }
      else Some (s\<lparr>rb_top := v\<rparr>)) = Some s' \<and>
    links s' = relink (links s) fs v \<and> rb_top s' = (if fs = [] then v else rb_top s) \<and> same_data s s'"
proof -
  note d = ctx_dom [OF c(1)] and ll = ctx_left [OF c(1) _ c(2,3)] and w = set_link [of "above fs" s v]
  have "above fs = 0 \<longleftrightarrow> fs = []" by (rule above_0 [OF c(1)])
  show "\<exists>s'. (if above fs \<noteq> 0 then do { l \<leftarrow> left_of s (above fs); if q = l then set_left s (above fs) v else set_right s (above fs) v }
      else Some (s\<lparr>rb_top := v\<rparr>)) = Some s' \<and>
    links s' = relink (links s) fs v \<and> rb_top s' = (if fs = [] then v else rb_top s) \<and> same_data s s'"
  proof (cases fs)
    case (Cons f gs)
    from ll obtain p l r where l: "links s (above fs) = Some (p, l, r)" "q = l \<longleftrightarrow> (\<exists>a t gs. fs = Left_of a t # gs)" using Cons by blast
    note rd = read_links [OF l(1)]
    show ?thesis using w d rd l(2) Cons by (cases f) auto
  qed simp
  show "\<exists>s'. (if above fs \<noteq> 0 then do { r \<leftarrow> right_of s (above fs); if q = r then set_right s (above fs) v else set_left s (above fs) v }
      else Some (s\<lparr>rb_top := v\<rparr>)) = Some s' \<and>
    links s' = relink (links s) fs v \<and> rb_top s' = (if fs = [] then v else rb_top s) \<and> same_data s s'"
  proof (cases fs)
    case (Cons f gs)
    from ll obtain p l r where l: "links s (above fs) = Some (p, l, r)" "q = r \<longleftrightarrow> (\<exists>a t gs. fs = Right_of t a # gs)" using Cons by blast
    note rd = read_links [OF l(1)]
    show ?thesis using w d rd l(2) Cons by (cases f) auto
  qed simp
qed

lemma link_upd_other [simp]:
  "a \<noteq> b \<Longrightarrow> link_parent L a v b = L b" "a \<noteq> b \<Longrightarrow> link_left L a v b = L b" "a \<noteq> b \<Longrightarrow> link_right L a v b = L b"
  by (simp_all add: link_parent_def link_left_def link_right_def)

lemma link_upd_same:
  "a \<noteq> 0 \<Longrightarrow> L a = Some (p, l, r) \<Longrightarrow> link_parent L a v a = Some (v, l, r)"
  "a \<noteq> 0 \<Longrightarrow> L a = Some (p, l, r) \<Longrightarrow> link_left L a v a = Some (p, v, r)"
  "a \<noteq> 0 \<Longrightarrow> L a = Some (p, l, r) \<Longrightarrow> link_right L a v a = Some (p, l, v)"
  by (simp_all add: link_parent_def link_left_def link_right_def)

lemma ctx_root_cong: "ctx_root fs q = (if fs = [] then q else ctx_root fs v)"
  by (cases fs) auto

section \<open>Rotations\<close>

lemma rotate_right_links:
  assumes c: "ctx_linked (links s) fs y" "y \<notin> ctx_set fs" "x \<notin> ctx_set fs" "x \<noteq> y" "x \<noteq> 0" "y \<noteq> 0"
    and y: "links s y = Some (above fs, x, d)" and x: "links s x = Some (y, a, b)"
    and b: "b \<notin> {x, y}" "b = 0 \<or> b \<in> dom (links s) - ctx_set fs"
  shows "\<exists>s'. rb_rotate_right s y = Some s' \<and>
    links s' = link_parent (relink (link_parent (link_right (link_parent (link_left (links s) y b) b y) x y) x (above fs)) fs x) y x \<and>
    rb_top s' = (if fs = [] then x else rb_top s) \<and> same_data s s'"
proof -
  let ?L = "links s"
  have p: "above fs \<noteq> x" "above fs \<noteq> y" using above_in [of fs] c(2,3,5,6) by (cases fs; auto)+
  have r1: "left_of s y = Some x" "right_of s x = Some b" using read_links [OF y c(6)] read_links [OF x c(5)] by simp_all
  from set_link(2) [OF c(6), of s b] y obtain s1 where
    s1: "set_left s y b = Some s1" "links s1 = link_left ?L y b" "rb_top s1 = rb_top s" "same_data s s1" by auto
  from set_parent_opt [of b s1 y] b(2) s1(2) obtain s2 where
    s2: "(if b \<noteq> 0 then set_parent s1 b y else Some s1) = Some s2" "links s2 = link_parent (link_left ?L y b) b y"
      "rb_top s2 = rb_top s" "same_data s s2" using s1(3,4) same_data_trans by (auto simp del: if_split)
  from set_link(3) [OF c(5), of s2 y] s2(2) x obtain s3 where
    s3: "set_right s2 x y = Some s3" "links s3 = link_right (link_parent (link_left ?L y b) b y) x y" "rb_top s3 = rb_top s"
      "same_data s s3" using s2(3,4) same_data_trans by auto
  have y3: "links s3 y = Some (above fs, b, d)" using y b(1) c(4,6) by (simp add: s3(2) link_upd_same)
  from set_link(1) [OF c(5), of s3 "above fs"] s3(2) x obtain s4 where
    s4: "set_parent s3 x (above fs) = Some s4"
      "links s4 = link_parent (link_right (link_parent (link_left ?L y b) b y) x y) x (above fs)" "rb_top s4 = rb_top s"
      "same_data s s4" using s3(3,4) same_data_trans by auto
  have "\<forall>a \<in> ctx_set fs. links s4 a = ?L a" using c(2,3,5,6) b(2) by (auto simp: s4(2) link_parent_def link_left_def link_right_def)
  then have "ctx_linked (links s4) fs y" using c(1) ctx_linked_cong by blast
  from replace_links(2) [OF this c(6,2), of x] obtain s5 where
    s5: "(if above fs \<noteq> 0 then do { r \<leftarrow> right_of s4 (above fs); if y = r then set_right s4 (above fs) x else set_left s4 (above fs) x }
      else Some (s4\<lparr>rb_top := x\<rparr>)) = Some s5" "links s5 = relink (links s4) fs x" "rb_top s5 = (if fs = [] then x else rb_top s4)"
      "same_data s4 s5" by blast
  have "y \<in> dom (links s5)" using y by (auto simp: s5(2) s4(2))
  from set_link(1) [OF c(6) this, of x] obtain s6 where
    s6: "set_parent s5 y x = Some s6" "links s6 = link_parent (links s5) y x" "rb_top s6 = rb_top s5"
      "same_data s5 s6" by blast
  have "rb_rotate_right s y = Some s6"
    unfolding rb_rotate_right_def r1 Option.bind.simps s1(1) s2(1) s3(1) read_links(1) [OF y3 c(6)] s4(1) s5(1) s6(1) ..
  moreover have "same_data s s6" using s4(4) s5(4) s6(4) by (simp add: same_data_def keeps_def)
  moreover have "rb_top s6 = (if fs = [] then x else rb_top s)" using s4(3) s5(3) s6(3) by simp
  ultimately show ?thesis using s6(2) s5(2) s4(2) by simp
qed

lemma rotate_right_shape:
  assumes "rb_shape s (plug fs (Node (Node a x b) y d))"
  shows "\<exists>s'. rb_rotate_right s y = Some s' \<and> rb_shape s' (plug fs (Node a x (Node b y d))) \<and> same_data s s'"
proof -
  let ?L = "links s"
  from assms have c: "ctx_linked ?L fs y" "rb_top s = ctx_root fs y"
    and n: "x \<noteq> 0" "y \<noteq> 0" "?L y = Some (above fs, x, root_of d)" "?L x = Some (y, root_of a, root_of b)"
    and sub: "linked ?L x a" "linked ?L x b" "linked ?L y d"
    and dist: "distinct (before fs @ ((inorder a @ x # inorder b) @ y # inorder d) @ behind fs)"
    by (auto simp: rb_shape_plug)
  from dist have d: "y \<notin> ctx_set fs" "x \<notin> ctx_set fs" "x \<noteq> y" "set_tree a \<inter> {x, y} = {}" "set_tree b \<inter> {x, y} = {}"
    "set_tree d \<inter> {x, y} = {}" "set_tree b \<inter> ctx_set fs = {}" "set_tree a \<inter> ctx_set fs = {}" "set_tree d \<inter> ctx_set fs = {}"
    "set_tree a \<inter> set_tree b = {}" "set_tree d \<inter> set_tree b = {}" "distinct (inorder b)" "distinct (before fs @ behind fs)"
    by (auto simp: ctx_set_def)
  have rb: "root_of b \<notin> {x, y}" "root_of b = 0 \<or> root_of b \<in> dom ?L - ctx_set fs" "root_of b = 0 \<or> root_of b \<in> set_tree b"
    using root_of_in [of b] d(5,7) n(1,2) linked_dom [OF sub(2)] by (cases b; auto)+
  from rotate_right_links [OF c(1) d(1,2,3) n(1-4) rb(1,2)] obtain s' where s': "rb_rotate_right s y = Some s'"
    "links s' = link_parent (relink (link_parent (link_right (link_parent (link_left ?L y (root_of b)) (root_of b) y) x y) x (above fs)) fs x) y x"
    "rb_top s' = (if fs = [] then x else rb_top s)" "same_data s s'" by blast
  have p: "above fs \<noteq> x" "above fs \<noteq> y" "above fs \<notin> set_tree a" "above fs \<notin> set_tree d" "above fs \<notin> set_tree b"
    using above_in [of fs] d n(1,2) linked_nonzero [OF sub(1)] linked_nonzero [OF sub(2)] linked_nonzero [OF sub(3)]
    by (cases fs; auto)+
  define M where "M = link_parent (link_right (link_parent (link_left ?L y (root_of b)) (root_of b) y) x y) x (above fs)"
  have other: "M z = ?L z" if "z \<notin> {x, y}" "z \<notin> set_tree b" for z
    using that rb(3) by (cases "root_of b = 0") (auto simp: M_def link_parent_def link_left_def link_right_def)
  have L': "links s' z = (if z = y then Some (x, root_of b, root_of d) else relink M fs x z)" for z
  proof (cases "z = y")
    case True
    have "M y = Some (above fs, root_of b, root_of d)" using n rb(1) d(3) by (simp add: M_def link_upd_same)
    then show ?thesis using True n(2) p(2) by (simp add: s'(2) M_def [symmetric] relink_other link_upd_same)
  qed (simp add: s'(2) M_def)
  have "\<forall>z \<in> ctx_set fs. M z = ?L z"
  proof
    fix z assume "z \<in> ctx_set fs"
    then show "M z = ?L z" using d(1,2,7) by (intro other) auto
  qed
  with c(1) have "ctx_linked M fs y" using ctx_linked_cong by blast
  from ctx_linked_relink [OF this d(13), of x] have "ctx_linked (links s') fs x"
    using ctx_linked_cong [of fs "links s'" "relink M fs x" x] L' d(1) by metis
  moreover have "links s' x = Some (above fs, root_of a, y)"
    using n rb(1) d(3) p(1) by (simp add: L' relink_other M_def link_upd_same)
  moreover have "linked (links s') x a"
  proof -
    have "links s' z = ?L z" if "z \<in> set_tree a" for z
    proof -
      have "z \<noteq> above fs" "z \<notin> {x, y}" "z \<notin> set_tree b" using that d(4,10) p(3) by blast+
      then show ?thesis using other [of z] by (simp add: L' relink_other)
    qed
    then show ?thesis using sub(1) linked_cong by blast
  qed
  moreover have "linked (links s') y d"
  proof -
    have "links s' z = ?L z" if "z \<in> set_tree d" for z
    proof -
      have "z \<noteq> above fs" "z \<notin> {x, y}" "z \<notin> set_tree b" using that d(6,11) p(4) by blast+
      then show ?thesis using other [of z] by (simp add: L' relink_other)
    qed
    then show ?thesis using sub(3) linked_cong by blast
  qed
  moreover have "linked (links s') y b"
  proof -
    have "links s' z = link_parent ?L (root_of b) y z" if "z \<in> set_tree b" for z
    proof -
      have "z \<noteq> above fs" "z \<noteq> x" "z \<noteq> y" using that d(5) p(5) by blast+
      then show ?thesis using rb(1) by (auto simp: L' relink_other M_def link_parent_def link_left_def)
    qed
    then show ?thesis using linked_reparent [OF sub(2) d(12), of y] linked_cong by metis
  qed
  ultimately have "rb_shape s' (plug fs (Node a x (Node b y d)))"
    using n(1,2) L' [of y] s'(3) c(2) dist ctx_root_cong [of fs x y] by (auto simp: rb_shape_plug)
  then show ?thesis using s'(1,4) by blast
qed


section \<open>Left and right exchanged\<close>

text \<open>The source has every case twice. The mirror image of a store exchanges the two children of
  every node; it turns each operation into its twin.\<close>

definition mirror_node :: "rb_node \<Rightarrow> rb_node" where
  "mirror_node n = n\<lparr>rb_left := rb_right n, rb_right := rb_left n\<rparr>"

definition mirror_rb :: "rb \<Rightarrow> rb" where
  "mirror_rb s = s\<lparr>rb_mem := \<lambda>a. map_option mirror_node (rb_mem s a)\<rparr>"

lemma mirror_node_simps [simp]:
  "rb_left (mirror_node n) = rb_right n" "rb_right (mirror_node n) = rb_left n" "rb_parent (mirror_node n) = rb_parent n"
  "rb_color (mirror_node n) = rb_color n" "rb_value (mirror_node n) = rb_value n" "mirror_node (mirror_node n) = n"
  by (cases n; simp add: mirror_node_def)+

lemma mirror_rb_fields [simp]:
  "rb_top (mirror_rb s) = rb_top s" "first_node (mirror_rb s) = first_node s" "last_node (mirror_rb s) = last_node s"
  "rb_count (mirror_rb s) = rb_count s" "colors (mirror_rb s) = colors s" "vals (mirror_rb s) = vals s"
  "mirror_rb (mirror_rb s) = s" "(mirror_rb s)\<lparr>rb_top := v\<rparr> = mirror_rb (s\<lparr>rb_top := v\<rparr>)"
  by (cases s; auto simp: mirror_rb_def colors_def vals_def fun_eq_iff option.map_comp comp_def option.map_ident split: option.split)+

lemma mirror_at [simp]: "rb_at (mirror_rb s) a = map_option mirror_node (rb_at s a)"
  by (simp add: rb_at_def mirror_rb_def)

lemma mirror_reads [simp]:
  "parent_of (mirror_rb s) a = parent_of s a" "left_of (mirror_rb s) a = right_of s a" "right_of (mirror_rb s) a = left_of s a"
  "color_of (mirror_rb s) a = color_of s a" "value_of (mirror_rb s) a = value_of s a" "is_red (mirror_rb s) a = is_red s a"
  "is_black (mirror_rb s) a = is_black s a"
  by (simp_all add: parent_of_def left_of_def right_of_def color_of_def value_of_def is_red_def is_black_def option.map_comp comp_def)

lemma mirror_upd: "(\<And>n. g (mirror_node n) = mirror_node (f n)) \<Longrightarrow> rb_upd (mirror_rb s) a g = map_option mirror_rb (rb_upd s a f)"
proof (cases "rb_at s a")
  case (Some n)
  assume "\<And>n. g (mirror_node n) = mirror_node (f n)"
  then show ?thesis unfolding rb_upd_def mirror_at Some by (auto simp: mirror_rb_def fun_eq_iff)
qed (simp add: rb_upd_def)

lemma mirror_writes [simp]:
  "set_parent (mirror_rb s) a v = map_option mirror_rb (set_parent s a v)"
  "set_left (mirror_rb s) a v = map_option mirror_rb (set_right s a v)"
  "set_right (mirror_rb s) a v = map_option mirror_rb (set_left s a v)"
  "set_color (mirror_rb s) a c = map_option mirror_rb (set_color s a c)"
  by (auto simp: set_parent_def set_left_def set_right_def set_color_def mirror_node_def intro!: mirror_upd)

lemma map_bind: "map_option f (Option.bind x g) = Option.bind x (\<lambda>y. map_option f (g y))"
  by (cases x) simp_all

lemma bind_map: "Option.bind (map_option f x) g = Option.bind x (\<lambda>y. g (f y))"
  by (cases x) simp_all

lemma map_if: "map_option f (if b then x else y) = (if b then map_option f x else map_option f y)"
  by simp

lemma bind_if: "Option.bind (if b then x else y) g = (if b then Option.bind x g else Option.bind y g)"
  by simp

lemma if_branch_cong: "x = x' \<Longrightarrow> y = y' \<Longrightarrow> (if b then x else y) = (if b then x' else y')"
  by simp

lemmas mirror_simps = map_bind bind_map map_if bind_if split_beta comp_def

lemma mirror_rotate [simp]:
  "rb_rotate_left (mirror_rb s) a = map_option mirror_rb (rb_rotate_right s a)"
  "rb_rotate_right (mirror_rb s) a = map_option mirror_rb (rb_rotate_left s a)"
  unfolding rb_rotate_left_def rb_rotate_right_def by (simp_all add: mirror_simps split del: if_split cong: if_branch_cong)

lemma mirror_insert_fix [simp]:
  "insert_fix_right (mirror_rb s) n p g = map_option (map_prod id mirror_rb) (insert_fix_left s n p g)"
  unfolding insert_fix_left_def insert_fix_right_def by (simp add: mirror_simps split del: if_split cong: if_branch_cong)

lemma mirror_children [simp]:
  "children_black (mirror_rb s) a = map_option (\<lambda>(ol, bl, rr, br). (rr, br, ol, bl)) (children_black s a)"
  by (cases "left_of s a"; cases "right_of s a"; cases "is_black s (the (left_of s a))"; cases "is_black s (the (right_of s a))")
    (simp_all add: children_black_def)

lemma mirror_erase_parts [simp]:
  "erase_red_right (mirror_rb s) p = map_option (map_prod id mirror_rb) (erase_red_left s p)"
  "erase_turn_right (mirror_rb s) p a b = map_option (map_prod id mirror_rb) (erase_turn_left s p a b)"
  "erase_last_right (mirror_rb s) p a = map_option mirror_rb (erase_last_left s p a)"
  unfolding erase_red_left_def erase_red_right_def erase_turn_left_def erase_turn_right_def erase_last_left_def erase_last_right_def
  by (simp_all add: mirror_simps split del: if_split cong: if_branch_cong)

lemma mirror_erase_fix [simp]:
  "erase_fix_right (mirror_rb s) p = map_option (map_prod id mirror_rb) (erase_fix_left s p)"
proof (cases "erase_red_left s p")
  case (Some os)
  obtain other s1 where os: "os = (other, s1)" by fastforce
  show ?thesis
  proof (cases "children_black s1 other")
    case None
    then show ?thesis using Some by (simp add: os erase_fix_left_def erase_fix_right_def)
  next
    case cb: (Some c)
    obtain ol bl rr br where c: "c = (ol, bl, rr, br)" by (cases c)
    show ?thesis unfolding erase_fix_left_def erase_fix_right_def using Some cb
      by (cases bl; cases br) (simp_all add: os c mirror_simps)
  qed
qed (simp add: erase_fix_left_def erase_fix_right_def)

text \<open>Trees and positions.\<close>

fun mirror_frame :: "frame \<Rightarrow> frame" where
  "mirror_frame (Left_of a r) = Right_of (mirror r) a"
| "mirror_frame (Right_of l a) = Left_of a (mirror l)"

lemma mirror_plug [simp]: "mirror (plug fs t) = plug (map mirror_frame fs) (mirror t)"
proof (induction fs arbitrary: t)
  case (Cons f fs)
  then show ?case by (cases f) auto
qed simp

lemma mirror_frame_id [simp]: "mirror_frame (mirror_frame f) = f" "map (mirror_frame \<circ> mirror_frame) fs = fs"
  "map mirror_frame (map mirror_frame fs) = fs"
proof -
  show *: "mirror_frame (mirror_frame f) = f" for f by (cases f) auto
  show "map (mirror_frame \<circ> mirror_frame) fs = fs" "map mirror_frame (map mirror_frame fs) = fs" by (induction fs) (auto simp: *)
qed

lemma root_mirror [simp]: "root_of (mirror t) = root_of t"
  by (cases t) auto

lemma above_mirror [simp]: "above (map mirror_frame fs) = above fs"
proof (cases fs)
  case (Cons f gs)
  then show ?thesis by (cases f) auto
qed simp

lemma links_mirror: "links (mirror_rb s) a = map_option (\<lambda>(p, l, r). (p, r, l)) (links s a)"
  by (simp add: links_def mirror_rb_def option.map_comp comp_def)

lemma linked_mirror: "linked (links (mirror_rb s)) p (mirror t) = linked (links s) p t"
proof (induction t arbitrary: p)
  case (Node l a r)
  show ?case unfolding mirror.simps linked.simps Node.IH links_mirror [of s a] by (cases "links s a") auto
qed simp

lemma rb_shape_mirror: "rb_shape (mirror_rb s) (mirror t) = rb_shape s t"
  by (simp add: rb_shape_def linked_mirror inorder_mirror)

lemma keeps_mirror [simp]: "keeps (mirror_rb s) (mirror_rb s') = keeps s s'"
proof -
  have "dom (links (mirror_rb s)) = dom (links s)" for s by (auto simp: links_mirror dom_def)
  then show ?thesis by (simp add: keeps_def)
qed

lemma same_data_mirror [simp]: "same_data (mirror_rb s) (mirror_rb s') = same_data s s'"
  unfolding same_data_def keeps_mirror by simp

lemma mirror_mirror [simp]: "mirror (mirror t) = t"
  by (induction t) auto

lemma rb_shape_mirror': "rb_shape (mirror_rb s) t = rb_shape s (mirror t)"
  using rb_shape_mirror [of s "mirror t"] by simp

lemma rotate_left_shape:
  assumes "rb_shape s (plug fs (Node a x (Node b y d)))"
  shows "\<exists>s'. rb_rotate_left s x = Some s' \<and> rb_shape s' (plug fs (Node (Node a x b) y d)) \<and> same_data s s'"
proof -
  have "rb_shape (mirror_rb s) (plug (map mirror_frame fs) (Node (Node (mirror d) y (mirror b)) x (mirror a)))"
    using assms by (simp add: rb_shape_mirror')
  from rotate_right_shape [OF this] obtain s' where "rb_rotate_left s x = Some s'"
    "rb_shape (mirror_rb s') (plug (map mirror_frame fs) (Node (mirror d) y (Node (mirror b) x (mirror a))))" "same_data s s'"
    by auto
  then show ?thesis by (intro exI [of _ s']) (simp add: rb_shape_mirror')
qed

end
