(* ===== verification/Rbtree_Insert.thy ===== *)
theory Rbtree_Insert
  imports Rbtree_Shape
begin

text \<open>
  Balance and insertion. \<open>rbt c h t\<close> says that the tree \<open>t\<close> with the colours \<open>c\<close> has no red node with
  a red child and \<open>h\<close> black nodes on every path; \<open>rb_ctx\<close> says the same of the surroundings of a position.
  The loop of \<^verbatim>\<open>rb_insert_color\<close> keeps both except at one edge, which it moves towards the root.
\<close>

section \<open>Balance\<close>

lemma colors_differ [simp]: "RB_BLACK \<noteq> RB_RED" "RB_RED \<noteq> RB_BLACK"
  by (simp_all add: RB_RED_def RB_BLACK_def)

definition blk :: "(addr \<Rightarrow> u8) \<Rightarrow> addr tree \<Rightarrow> bool" where
  "blk c t \<longleftrightarrow> (case t of Leaf \<Rightarrow> True | Node l a r \<Rightarrow> c a = RB_BLACK)"

lemma blk_simps [simp]: "blk c Leaf" "blk c (Node l a r) \<longleftrightarrow> c a = RB_BLACK"
  by (simp_all add: blk_def)

fun rbt :: "(addr \<Rightarrow> u8) \<Rightarrow> nat \<Rightarrow> addr tree \<Rightarrow> bool" where
  "rbt c h Leaf \<longleftrightarrow> h = 0"
| "rbt c h (Node l a r) \<longleftrightarrow>
     (if c a = RB_RED then blk c l \<and> blk c r \<and> rbt c h l \<and> rbt c h r
      else c a = RB_BLACK \<and> (case h of 0 \<Rightarrow> False | Suc k \<Rightarrow> rbt c k l \<and> rbt c k r))"

fun rb_ctx :: "(addr \<Rightarrow> u8) \<Rightarrow> nat \<Rightarrow> frame list \<Rightarrow> bool" where
  "rb_ctx c h [] \<longleftrightarrow> True"
| "rb_ctx c h (f # fs) \<longleftrightarrow> rbt c h (sibling f) \<and>
     (if c (hole_addr f) = RB_RED then blk c (sibling f) \<and> fs \<noteq> [] \<and> c (above fs) = RB_BLACK \<and> rb_ctx c h fs
      else c (hole_addr f) = RB_BLACK \<and> rb_ctx c (Suc h) fs)"

lemma blk_cong: "\<forall>a \<in> set_tree t. c' a = c a \<Longrightarrow> blk c' t = blk c t"
  by (cases t) auto

lemma rbt_cong: "\<forall>a \<in> set_tree t. c' a = c a \<Longrightarrow> rbt c' h t = rbt c h t"
proof (induction t arbitrary: h)
  case (Node l a r)
  then have "blk c' l = blk c l" "blk c' r = blk c r" by (auto intro!: blk_cong)
  then show ?case using Node by (auto split: nat.split)
qed simp

lemma rbt_upd [simp]: "a \<notin> set_tree t \<Longrightarrow> rbt (c(a := v)) h t = rbt c h t"
  by (rule rbt_cong) auto

lemma blk_upd [simp]: "a \<notin> set_tree t \<Longrightarrow> blk (c(a := v)) t = blk c t"
  by (rule blk_cong) auto

lemma rb_ctx_cong: "\<forall>a \<in> ctx_set fs. c' a = c a \<Longrightarrow> rb_ctx c' h fs = rb_ctx c h fs"
proof (induction fs arbitrary: h)
  case (Cons f fs)
  have "set_tree (sibling f) \<subseteq> ctx_set (f # fs)" "hole_addr f \<in> ctx_set (f # fs)" "ctx_set fs \<subseteq> ctx_set (f # fs)"
    "fs \<noteq> [] \<Longrightarrow> above fs \<in> ctx_set (f # fs)"
    using above_in [of fs] by (cases f; auto)+
  then have "rbt c' h (sibling f) = rbt c h (sibling f)" "blk c' (sibling f) = blk c (sibling f)"
    "c' (hole_addr f) = c (hole_addr f)" "fs \<noteq> [] \<Longrightarrow> c' (above fs) = c (above fs)" "rb_ctx c' k fs = rb_ctx c k fs" for k
    using Cons.prems by (auto intro!: rbt_cong blk_cong Cons.IH)
  then show ?case by (cases "fs = []") simp_all
qed simp

lemma rb_ctx_upd [simp]: "a \<notin> ctx_set fs \<Longrightarrow> rb_ctx (c(a := v)) h fs = rb_ctx c h fs"
  by (rule rb_ctx_cong) auto

lemma rbt_plug:
  assumes "rb_ctx c h fs" "rbt c h t" "fs = [] \<or> c (above fs) = RB_BLACK \<or> blk c t"
  shows "\<exists>k. rbt c k (plug fs t)"
  using assms
proof (induction fs arbitrary: h t)
  case (Cons f fs)
  let ?k = "if c (hole_addr f) = RB_RED then h else Suc h"
  have "rbt c ?k (fill f t)" using Cons.prems by (cases f) auto
  moreover have "rb_ctx c ?k fs" using Cons.prems(1) by (simp split: if_splits)
  moreover have "fs = [] \<or> c (above fs) = RB_BLACK \<or> blk c (fill f t)"
    using Cons.prems(1) by (cases f) (auto split: if_splits)
  ultimately show ?case using Cons.IH by simp
qed auto

lemma rbt_unplug:
  assumes "rbt c k (plug fs t)" "blk c (plug fs t)"
  shows "\<exists>h. rb_ctx c h fs \<and> rbt c h t \<and> (fs = [] \<or> c (above fs) = RB_BLACK \<or> blk c t)"
  using assms
proof (induction fs arbitrary: t)
  case (Cons f fs)
  from Cons.IH [of "fill f t"] Cons.prems obtain h where h: "rb_ctx c h fs" "rbt c h (fill f t)"
    "fs = [] \<or> c (above fs) = RB_BLACK \<or> blk c (fill f t)" by auto
  have "blk c (fill f t) \<longleftrightarrow> c (hole_addr f) = RB_BLACK" by (cases f) simp_all
  moreover have "fs = [] \<Longrightarrow> blk c (fill f t)" using Cons.prems(2) by simp
  ultimately have "fs \<noteq> [] \<and> c (above fs) = RB_BLACK" if "c (hole_addr f) = RB_RED" using h(3) that by auto
  then show ?case using h(1,2) by (cases f) (auto split: if_splits nat.splits)
qed auto

lemma ctx_root_black:
  assumes "rb_ctx c h fs" "fs \<noteq> []"
  shows "c (ctx_root fs q) = RB_BLACK"
  using assms
proof (induction fs arbitrary: h q)
  case (Cons f fs)
  then show ?case by (cases fs) (auto split: if_splits)
qed simp


lemma root_fill [simp]: "root_of (fill f t) = hole_addr f"
  by (cases f) simp_all

section \<open>Reading the shape\<close>

lemma color_tests:
  assumes "linked (links s) p t"
  shows "is_red s (root_of t) = Some (\<not> blk (colors s) t \<and> colors s (root_of t) = RB_RED)"
    "is_black s (root_of t) = Some (blk (colors s) t)"
proof -
  have "color_of s a = Some (colors s a)" "a \<noteq> 0" if "t = Node l a r" for l a r
    using assms that read_links(4) [of s a] by auto
  then show "is_red s (root_of t) = Some (\<not> blk (colors s) t \<and> colors s (root_of t) = RB_RED)"
    "is_black s (root_of t) = Some (blk (colors s) t)"
    by (cases t; auto simp: is_red_def is_black_def)+
qed

lemma shape_linked:
  assumes "rb_shape s (plug fs t)"
  shows "linked (links s) (above fs) t" "distinct (inorder t)" "set_tree t \<inter> ctx_set fs = {}"
  using assms by (auto simp: rb_shape_plug ctx_set_def)

lemma shape_root_in:
  assumes "rb_shape s (plug fs t)" "a \<in> set_tree t"
  shows "a \<in> set_tree (plug fs t)" "a \<noteq> 0"
proof -
  show "a \<in> set_tree (plug fs t)" using assms(2) by (simp flip: set_inorder)
  show "a \<noteq> 0" using assms(2) linked_nonzero [OF shape_linked(1) [OF assms(1)]] by metis
qed

lemma shape_kids:
  assumes "rb_shape s (plug fs (Node l a r))"
  shows "root_of l = root_of r \<longleftrightarrow> l = Leaf \<and> r = Leaf" "root_of l \<noteq> a" "root_of r \<noteq> a"
proof -
  have k: "linked (links s) a l" "linked (links s) a r" "a \<noteq> 0" "set_tree l \<inter> set_tree r = {}" "a \<notin> set_tree l" "a \<notin> set_tree r"
    using assms by (auto simp: rb_shape_plug)
  show "root_of l = root_of r \<longleftrightarrow> l = Leaf \<and> r = Leaf" "root_of l \<noteq> a" "root_of r \<noteq> a"
    using k by (cases l; cases r; auto)+
qed

section \<open>Insertion\<close>

lemma insert_fix_left_ok:
  assumes shape: "rb_shape s (plug (f # Left_of g u # fs) (Node l n r))"
    and red: "colors s n = RB_RED" "colors s (hole_addr f) = RB_RED"
    and t: "rbt (colors s) h (Node l n r)" and ctx: "rb_ctx (colors s) h (f # Left_of g u # fs)"
  shows "\<exists>n' s' fs' l' r' h'. insert_fix_left s n (hole_addr f) g = Some (n', s') \<and> rb_shape s' (plug fs' (Node l' n' r')) \<and>
    colors s' n' = RB_RED \<and> rbt (colors s') h' (Node l' n' r') \<and> rb_ctx (colors s') h' fs' \<and> length fs' < length fs + 2 \<and>
    inorder (plug fs' (Node l' n' r')) = inorder (plug (f # Left_of g u # fs) (Node l n r)) \<and> keeps s s'"
proof -
  let ?c = "colors s" and ?t = "Node l n r" and ?p = "hole_addr f" and ?q = "sibling f"
  have q: "rbt ?c h ?q" "blk ?c ?q" and u: "?c g = RB_BLACK" "rbt ?c h u" and up: "rb_ctx ?c (Suc h) fs"
    using ctx red(2) by auto
  have lr: "blk ?c l" "blk ?c r" "rbt ?c h l" "rbt ?c h r" using t red(1) by auto
  have sg: "rb_shape s (plug fs (Node (fill f ?t) g u))" using shape by simp
  have sp: "rb_shape s (plug (Left_of g u # fs) (fill f ?t))" using shape by simp
  have "set_tree (fill f ?t) = {n, ?p} \<union> set_tree l \<union> set_tree r \<union> set_tree ?q" by (cases f) auto
  moreover have "distinct (before fs @ (inorder (fill f ?t) @ g # inorder u) @ behind fs)" using sg by (simp add: rb_shape_plug)
  ultimately have dist: "n \<noteq> ?p" "n \<noteq> g" "?p \<noteq> g" "{n, ?p, g} \<inter> (set_tree l \<union> set_tree r \<union> set_tree ?q \<union> set_tree u \<union> ctx_set fs) = {}"
    "set_tree u \<inter> (set_tree l \<union> set_tree r \<union> set_tree ?q \<union> ctx_set fs) = {}"
    by (cases f; auto simp: ctx_set_def)+
  have notin: "n \<notin> set_tree l" "n \<notin> set_tree r" "n \<notin> set_tree ?q" "n \<notin> set_tree u" "n \<notin> ctx_set fs" "?p \<notin> set_tree l" "?p \<notin> set_tree r" "?p \<notin> set_tree ?q" "?p \<notin> set_tree u" "?p \<notin> ctx_set fs" "g \<notin> set_tree l" "g \<notin> set_tree r" "g \<notin> set_tree ?q" "g \<notin> set_tree u" "g \<notin> ctx_set fs"
    using dist(4) by blast+
  have lu: "linked (links s) g u" using shape_linked(1) [OF sg] by simp
  have rg: "right_of s g = Some (root_of u)" using shape_node(5) [OF sg] .
  have mem: "?p \<in> set_tree (plug fs (Node (fill f ?t) g u))" "g \<in> set_tree (plug fs (Node (fill f ?t) g u))"
    "n \<in> set_tree (plug fs (Node (fill f ?t) g u))"
    by (cases f; auto simp flip: set_inorder)+
  show ?thesis
  proof (cases "blk ?c u")
    case False
    then obtain ul v ur where uv: "u = Node ul v ur" "?c v \<noteq> RB_BLACK" by (cases u) auto
    then have v: "?c v = RB_RED" "rbt ?c h ul" "rbt ?c h ur" using u(2) by (auto split: if_splits)
    have "v \<notin> set_tree l" "v \<notin> set_tree r" "v \<notin> set_tree ?q" "v \<notin> ctx_set fs" "?p \<notin> set_tree ul" "?p \<notin> set_tree ur"
      "g \<notin> set_tree ul" "g \<notin> set_tree ur" using dist(5) notin(9,14) unfolding uv(1) by auto
    note dv' = this
    have dv: "v \<notin> set_tree ul" "v \<notin> set_tree ur" "v \<noteq> ?p" "v \<noteq> g" "v \<noteq> n" "v \<notin> set_tree l \<union> set_tree r \<union> set_tree ?q \<union> ctx_set fs"
      "{?p, g} \<inter> (set_tree ul \<union> set_tree ur) = {}"
      using dist shape_linked(2) [OF sg] uv(1) by auto
    have "v \<in> set_tree (plug fs (Node (fill f ?t) g u))" by (simp add: uv(1) flip: set_inorder)
    from shape_paint [OF sg this, of RB_BLACK] obtain s1 where s1: "set_color s v RB_BLACK = Some s1"
      "rb_shape s1 (plug fs (Node (fill f ?t) g u))" "colors s1 = ?c(v := RB_BLACK)" "keeps s s1" by blast
    from shape_paint [OF s1(2) mem(1), of RB_BLACK] obtain s2 where s2: "set_color s1 ?p RB_BLACK = Some s2"
      "rb_shape s2 (plug fs (Node (fill f ?t) g u))" "colors s2 = (?c(v := RB_BLACK))(?p := RB_BLACK)" "keeps s1 s2"
      unfolding s1(3) by blast
    from shape_paint [OF s2(2) mem(2), of RB_RED] obtain s3 where s3: "set_color s2 g RB_RED = Some s3"
      "rb_shape s3 (plug fs (Node (fill f ?t) g u))" "colors s3 = (?c(v := RB_BLACK))(?p := RB_BLACK, g := RB_RED)" "keeps s2 s3"
      unfolding s2(3) by blast
    have "insert_fix_left s n ?p g = Some (g, s3)"
      using rg color_tests(1) [OF lu] False v(1) s1(1) s2(1) s3(1) by (simp add: insert_fix_left_def uv(1))
    moreover have "rbt (colors s3) (Suc h) (Node (fill f ?t) g u)"
      unfolding s3(3) uv(1) using q lr v red(1) dv(1-5) dv' dist(1-3) notin by (cases f) simp_all
    moreover have "rb_ctx (colors s3) (Suc h) fs" unfolding s3(3) using up dv' notin by simp
    moreover have "keeps s s3" using s1(4) s2(4) s3(4) keeps_trans by blast
    moreover have "colors s3 g = RB_RED" by (simp add: s3(3))
    moreover have "inorder (plug fs (Node (fill f ?t) g u)) = inorder (plug (f # Left_of g u # fs) ?t)" by simp
    ultimately show ?thesis using s3(2) by (intro exI [of _ g] exI [of _ s3] exI [of _ fs] exI [of _ "fill f ?t"] exI [of _ u] exI [of _ "Suc h"]) simp
  next
    case True
    have red0: "is_red s (root_of u) = Some False" using color_tests(1) [OF lu] True by simp
    show ?thesis
    proof (cases f)
      case (Left_of p q)
      have sp': "rb_shape s (plug (Left_of g u # fs) (Node ?t p q))" using sp by (simp only: Left_of fill.simps)
      have pr: "right_of s p = Some (root_of q)" "root_of q \<noteq> n"
        using shape_node(5) [OF sp'] shape_kids(1) [OF sp'] by auto
      from shape_paint [OF sg mem(1), of RB_BLACK] obtain s1 where s1: "set_color s p RB_BLACK = Some s1"
        "rb_shape s1 (plug fs (Node (fill f ?t) g u))" "colors s1 = ?c(p := RB_BLACK)" "keeps s s1" by (auto simp: Left_of)
      from shape_paint [OF s1(2) mem(2), of RB_RED] obtain s2 where s2: "set_color s1 g RB_RED = Some s2"
        "rb_shape s2 (plug fs (Node (Node ?t p q) g u))" "colors s2 = ?c(p := RB_BLACK, g := RB_RED)" "keeps s1 s2"
        unfolding s1(3) by (auto simp: Left_of)
      from rotate_right_shape [OF s2(2)] obtain s3 where s3: "rb_rotate_right s2 g = Some s3"
        "rb_shape s3 (plug fs (Node ?t p (Node q g u)))" "same_data s2 s3" by blast
      have c3: "colors s3 = ?c(p := RB_BLACK, g := RB_RED)" "keeps s s3"
        using s3(3) s2(3,4) s1(4) by (simp_all add: same_data_def keeps_def)
      have "insert_fix_left s n ?p g = Some (n, s3)"
        using rg red0 pr s1(1) s2(1) s3(1) by (simp add: insert_fix_left_def Left_of)
      moreover have "rbt (colors s3) h ?t" "colors s3 n = RB_RED" unfolding c3 using t dist(1,2) notin red(1) by (simp_all add: Left_of)
      moreover have "rb_ctx (colors s3) h (Left_of p (Node q g u) # fs)" unfolding c3 using True q u up dist(1-3) notin by (simp add: Left_of)
      ultimately show ?thesis using s3(2) c3(2)
        by (intro exI [of _ n] exI [of _ s3] exI [of _ "Left_of p (Node q g u) # fs"] exI [of _ l] exI [of _ r] exI [of _ h])
          (simp add: Left_of)
    next
      case (Right_of q p)
      have pr: "right_of s p = Some n" using shape_node(5) [of s "Left_of g u # fs" q p ?t] sp by (simp add: Right_of)
      have "rb_shape s (plug (Left_of g u # fs) (Node q p (Node l n r)))" using sp by (simp add: Right_of)
      from rotate_left_shape [OF this] obtain s0 where s0: "rb_rotate_left s p = Some s0"
        "rb_shape s0 (plug fs (Node (Node (Node q p l) n r) g u))" "same_data s s0" by auto
      have c0: "colors s0 = ?c" "keeps s s0" using s0(3) by (auto simp: same_data_def)
      have "n \<in> set_tree (plug fs (Node (Node (Node q p l) n r) g u))" by (simp flip: set_inorder)
      from shape_paint [OF s0(2) this, of RB_BLACK] obtain s1 where s1: "set_color s0 n RB_BLACK = Some s1"
        "rb_shape s1 (plug fs (Node (Node (Node q p l) n r) g u))" "colors s1 = ?c(n := RB_BLACK)" "keeps s0 s1" unfolding c0(1) by blast
      have "g \<in> set_tree (plug fs (Node (Node (Node q p l) n r) g u))" by (simp flip: set_inorder)
      from shape_paint [OF s1(2) this, of RB_RED] obtain s2 where s2: "set_color s1 g RB_RED = Some s2"
        "rb_shape s2 (plug fs (Node (Node (Node q p l) n r) g u))" "colors s2 = ?c(n := RB_BLACK, g := RB_RED)" "keeps s1 s2"
        unfolding s1(3) by blast
      from rotate_right_shape [OF s2(2)] obtain s3 where s3: "rb_rotate_right s2 g = Some s3"
        "rb_shape s3 (plug fs (Node (Node q p l) n (Node r g u)))" "same_data s2 s3" by blast
      have c3: "colors s3 = ?c(n := RB_BLACK, g := RB_RED)" "keeps s s3"
        using s3(3) s2(3,4) s1(4) c0(2) by (simp_all add: same_data_def keeps_def)
      have "insert_fix_left s n ?p g = Some (p, s3)"
        using rg red0 pr s0(1) s1(1) s2(1) s3(1) by (simp add: insert_fix_left_def Right_of)
      moreover have "rbt (colors s3) h (Node q p l)" "colors s3 p = RB_RED" unfolding c3 using q lr dist(1-3) notin red(2) by (simp_all add: Right_of)
      moreover have "rb_ctx (colors s3) h (Left_of n (Node r g u) # fs)" unfolding c3 using True lr u up dist(1-3) notin by simp
      ultimately show ?thesis using s3(2) c3(2)
        by (intro exI [of _ p] exI [of _ s3] exI [of _ "Left_of n (Node r g u) # fs"] exI [of _ q] exI [of _ l] exI [of _ h])
          (simp add: Right_of)
    qed
  qed
qed


lemma blk_mirror [simp]: "blk c (mirror t) = blk c t"
  by (cases t) auto

lemma rbt_mirror [simp]: "rbt c h (mirror t) = rbt c h t"
  by (induction t arbitrary: h) (auto split: nat.split)

lemma mirror_frame_simps [simp]:
  "hole_addr (mirror_frame f) = hole_addr f" "sibling (mirror_frame f) = mirror (sibling f)"
  by (cases f; simp)+

lemma rb_ctx_mirror [simp]: "rb_ctx c h (map mirror_frame fs) = rb_ctx c h fs"
  by (induction fs arbitrary: h) simp_all

lemma inorder_map_mirror [simp]: "before (map mirror_frame fs) = rev (behind fs)" "behind (map mirror_frame fs) = rev (before fs)"
proof -
  have "before (map mirror_frame fs) = rev (behind fs) \<and> behind (map mirror_frame fs) = rev (before fs)"
  proof (induction fs)
    case (Cons f fs)
    then show ?case by (cases f) (simp_all add: inorder_mirror)
  qed simp
  then show "before (map mirror_frame fs) = rev (behind fs)" "behind (map mirror_frame fs) = rev (before fs)" by blast+
qed

lemma insert_fix_right_ok:
  assumes shape: "rb_shape s (plug (f # Right_of u g # fs) (Node l n r))"
    and red: "colors s n = RB_RED" "colors s (hole_addr f) = RB_RED"
    and t: "rbt (colors s) h (Node l n r)" and ctx: "rb_ctx (colors s) h (f # Right_of u g # fs)"
  shows "\<exists>n' s' fs' l' r' h'. insert_fix_right s n (hole_addr f) g = Some (n', s') \<and> rb_shape s' (plug fs' (Node l' n' r')) \<and>
    colors s' n' = RB_RED \<and> rbt (colors s') h' (Node l' n' r') \<and> rb_ctx (colors s') h' fs' \<and> length fs' < length fs + 2 \<and>
    inorder (plug fs' (Node l' n' r')) = inorder (plug (f # Right_of u g # fs) (Node l n r)) \<and> keeps s s'"
proof -
  let ?m = "map mirror_frame"
  have "rb_shape (mirror_rb s) (plug (mirror_frame f # Left_of g (mirror u) # ?m fs) (Node (mirror r) n (mirror l)))"
    unfolding rb_shape_mirror' using shape by (cases f) simp_all
  moreover have "rb_ctx (colors s) h (?m (f # Right_of u g # fs))" using ctx by (simp only: rb_ctx_mirror)
  then have "rb_ctx (colors (mirror_rb s)) h (mirror_frame f # Left_of g (mirror u) # ?m fs)" by (simp only: list.map mirror_frame.simps mirror_rb_fields)
  moreover have "rbt (colors (mirror_rb s)) h (Node (mirror r) n (mirror l))"
    using t rbt_mirror [of "colors s" h "Node l n r"] by (simp only: mirror.simps mirror_rb_fields)
  ultimately obtain n' s' fs' l' r' h' where
    x: "insert_fix_left (mirror_rb s) n (hole_addr f) g = Some (n', s')" "rb_shape s' (plug fs' (Node l' n' r'))"
    "colors s' n' = RB_RED" "rbt (colors s') h' (Node l' n' r')" "rb_ctx (colors s') h' fs'" "length fs' < length fs + 2"
    "inorder (plug fs' (Node l' n' r')) = inorder (plug (mirror_frame f # Left_of g (mirror u) # ?m fs) (Node (mirror r) n (mirror l)))"
    "keeps (mirror_rb s) s'"
    using insert_fix_left_ok [of "mirror_rb s" "mirror_frame f" g "mirror u" "?m fs" "mirror r" n "mirror l" h] red by auto
  have "insert_fix_right s n (hole_addr f) g = Some (n', mirror_rb s')"
    using mirror_insert_fix [of "mirror_rb s" n "hole_addr f" g] x(1) by simp
  moreover have "rb_shape (mirror_rb s') (plug (?m fs') (Node (mirror r') n' (mirror l')))" unfolding rb_shape_mirror' using x(2) by simp
  moreover have "rbt (colors (mirror_rb s')) h' (Node (mirror r') n' (mirror l'))"
    using x(4) rbt_mirror [of "colors s'" h' "Node l' n' r'"] by (simp only: mirror.simps mirror_rb_fields)
  moreover have "keeps s (mirror_rb s')" using x(8) keeps_mirror [of "mirror_rb s" s'] keeps_mirror [of s "mirror_rb s'"] by simp
  moreover have "inorder (plug (?m fs') (Node (mirror r') n' (mirror l'))) = inorder (plug (f # Right_of u g # fs) (Node l n r))"
  proof -
    have "inorder (plug (?m fs') (Node (mirror r') n' (mirror l'))) = rev (inorder (plug fs' (Node l' n' r')))"
      by (simp add: inorder_mirror)
    also have "\<dots> = inorder (plug (f # Right_of u g # fs) (Node l n r))" unfolding x(7) by (cases f) (simp_all add: inorder_mirror)
    finally show ?thesis .
  qed
  ultimately show ?thesis using x(3,5,6)
    by (intro exI [of _ n'] exI [of _ "mirror_rb s'"] exI [of _ "?m fs'"] exI [of _ "mirror r'"] exI [of _ "mirror l'"] exI [of _ h'])
      (simp only: mirror_rb_fields rb_ctx_mirror length_map simp_thms)
qed

text \<open>What the loop establishes: a balanced tree with a black root and the same nodes in the same order.\<close>

definition balanced :: "rb \<Rightarrow> addr tree \<Rightarrow> bool" where
  "balanced s t \<longleftrightarrow> rb_shape s t \<and> blk (colors s) t \<and> (\<exists>h. rbt (colors s) h t)"

lemma insert_color_ok:
  assumes "rb_shape s (plug fs (Node l n r))" "colors s n = RB_RED" "rbt (colors s) h (Node l n r)" "rb_ctx (colors s) h fs"
  shows "\<exists>s' t'. rb_insert_color s n = Some s' \<and> balanced s' t' \<and> inorder t' = inorder (plug fs (Node l n r)) \<and> keeps s s'"
  using assms
proof (induction "length fs" arbitrary: s fs l n r h rule: less_induct)
  case less
  note shape = less.prems(1) and red = less.prems(2) and t = less.prems(3) and ctx = less.prems(4)
  have par: "parent_of s n = Some (above fs)" using shape_node(3) [OF shape] .
  show ?case
  proof (cases fs)
    case Nil
    have "n \<in> set_tree (plug fs (Node l n r))" by (simp flip: set_inorder)
    from shape_paint [OF shape this, of RB_BLACK] obtain s' where s': "set_color s n RB_BLACK = Some s'"
      "rb_shape s' (plug fs (Node l n r))" "colors s' = (colors s)(n := RB_BLACK)" "keeps s s'" by blast
    have "n \<notin> set_tree l" "n \<notin> set_tree r" using shape_linked(2) [OF shape] by auto
    then have "rbt (colors s') (Suc h) (Node l n r)" using t red by (simp add: s'(3))
    then have "balanced s' (plug fs (Node l n r))" unfolding balanced_def using s'(2) by (auto simp: Nil s'(3) simp del: rbt.simps)
    moreover have "rb_top s = n" using shape by (simp add: rb_shape_def Nil)
    moreover have "rb_insert_color s n = Some s'"
      using par s'(1) \<open>rb_top s = n\<close> by (subst rb_insert_color.simps) (simp add: Nil is_red_def)
    ultimately show ?thesis using s'(4) by blast
  next
    case (Cons f gs)
    have "linked (links s) (above gs) (fill f (Node l n r))" using shape_linked(1) [of s gs "fill f (Node l n r)"] shape by (simp add: Cons)
    from color_tests(1) [OF this] have rd: "is_red s (hole_addr f) = Some (colors s (hole_addr f) = RB_RED)"
      by (cases f) auto
    show ?thesis
    proof (cases "colors s (hole_addr f) = RB_RED")
      case False
      then have b: "colors s (hole_addr f) = RB_BLACK" using ctx by (simp add: Cons)
      have root: "colors s (rb_top s) = RB_BLACK" using ctx_root_black [OF ctx, of n] shape by (simp add: Cons rb_shape_plug)
      obtain k where k: "rbt (colors s) k (plug fs (Node l n r))" using rbt_plug [OF ctx t] b by (auto simp: Cons)
      have "rb_top s \<in> set_tree (plug fs (Node l n r))"
        using root_of_in [of "plug fs (Node l n r)"] shape by (metis rb_shape_def inorder_plug Nil_is_append_conv inorder.simps(1,2) list.distinct(1))
      from shape_paint [OF shape this, of RB_BLACK] obtain s' where s': "set_color s (rb_top s) RB_BLACK = Some s'"
        "rb_shape s' (plug fs (Node l n r))" "colors s' = (colors s)(rb_top s := RB_BLACK)" "keeps s s'" by blast
      have c: "colors s' = colors s" using root by (simp add: s'(3) fun_upd_idem)
      have "blk (colors s) (plug fs (Node l n r))"
        using root shape by (cases "plug fs (Node l n r)") (auto simp: rb_shape_def)
      moreover have "rb_insert_color s n = Some s'" using par s'(1) rd False by (subst rb_insert_color.simps) (simp add: Cons)
      ultimately show ?thesis using s'(2,4) k c by (intro exI [of _ s'] exI [of _ "plug fs (Node l n r)"]) (auto simp: balanced_def)
    next
      case True
      then have "gs \<noteq> []" using ctx by (simp add: Cons)
      then obtain f2 hs where gs: "gs = f2 # hs" by (cases gs) auto
      have pp: "parent_of s (hole_addr f) = Some (hole_addr f2)"
        using shape_node(3) [of s gs "Node l n r" "hole_addr f" "sibling f"] shape_node(3) [of s gs "sibling f" "hole_addr f" "Node l n r"] shape
        by (cases f) (simp_all add: Cons gs)
      have step: "\<exists>n' s1 fs' l' r' h'. (if hole_addr f = gl then insert_fix_left s n (hole_addr f) (hole_addr f2)
            else insert_fix_right s n (hole_addr f) (hole_addr f2)) = Some (n', s1) \<and> rb_shape s1 (plug fs' (Node l' n' r')) \<and>
          colors s1 n' = RB_RED \<and> rbt (colors s1) h' (Node l' n' r') \<and> rb_ctx (colors s1) h' fs' \<and> length fs' < length fs \<and>
          inorder (plug fs' (Node l' n' r')) = inorder (plug fs (Node l n r)) \<and> keeps s s1"
        if gl: "left_of s (hole_addr f2) = Some gl" for gl
      proof (cases f2)
        case (Left_of g u)
        have "rb_shape s (plug hs (Node (fill f (Node l n r)) g u))" using shape by (simp add: Cons gs Left_of)
        then have "gl = hole_addr f" using shape_node(4) gl by (cases f) (auto simp: Left_of)
        then show ?thesis using insert_fix_left_ok [of s f g u hs l n r h] shape red True t ctx by (simp add: Cons gs Left_of)
      next
        case (Right_of u g)
        have sh: "rb_shape s (plug hs (Node u g (fill f (Node l n r))))" using shape by (simp add: Cons gs Right_of)
        then have "gl = root_of u" using shape_node(4) gl by (auto simp: Right_of)
        moreover have "hole_addr f \<noteq> root_of u" using shape_kids(1) [OF sh] by (cases f) auto
        ultimately show ?thesis using insert_fix_right_ok [of s f u g hs l n r h] shape red True t ctx by (simp add: Cons gs Right_of)
      qed
      obtain gl where gl: "left_of s (hole_addr f2) = Some gl"
        using shape_node(4) [of s hs "fill f (Node l n r)" "hole_addr f2" "sibling f2"] shape_node(4) [of s hs "sibling f2" "hole_addr f2" "fill f (Node l n r)"] shape
        by (cases f2) (auto simp: Cons gs)
      from step [OF gl] obtain n' s1 fs' l' r' h' where st:
        "(if hole_addr f = gl then insert_fix_left s n (hole_addr f) (hole_addr f2)
          else insert_fix_right s n (hole_addr f) (hole_addr f2)) = Some (n', s1)" and
        n1: "rb_shape s1 (plug fs' (Node l' n' r'))" "colors s1 n' = RB_RED" "rbt (colors s1) h' (Node l' n' r')" "rb_ctx (colors s1) h' fs'"
        and len: "length fs' < length fs" and ino: "inorder (plug fs' (Node l' n' r')) = inorder (plug fs (Node l n r))" and kp: "keeps s s1" by blast
      from less.hyps [OF len n1] obtain s' t' where s': "rb_insert_color s1 n' = Some s'" "balanced s' t'"
        "inorder t' = inorder (plug fs (Node l n r))" "keeps s1 s'" unfolding ino by blast
      have "rb_insert_color s n = rb_insert_color s1 n'"
        using par rd True pp gl st by (subst rb_insert_color.simps) (simp add: Cons del: if_split)
      then show ?thesis using s' keeps_trans [OF kp] by auto
    qed
  qed
qed

end
