(* ===== verification/Rbtree_Erase.thy ===== *)
theory Rbtree_Erase
  imports Rbtree_Insert
begin

text \<open>
  Removal. Unlinking takes a node with at most one child out of the tree, or puts the next node in
  order into its place; what is left may be one black node short at one position, which the loop of
  \<^verbatim>\<open>rb_erase_color\<close> moves towards the root until it can be repaired.
\<close>

section \<open>Unlinking\<close>

lemma set_tree_of_root: "root_of t \<noteq> 0 \<Longrightarrow> root_of t \<in> set_tree t"
  by (cases t) auto

lemma replace_child_links:
  assumes c: "ctx_linked (links s) fs q" "q \<noteq> 0" "q \<notin> ctx_set fs"
  shows "\<exists>s'. replace_child s (above fs) q v = Some s' \<and> links s' = relink (links s) fs v \<and>
    rb_top s' = (if fs = [] then v else rb_top s) \<and> same_data s s'"
proof -
  have "replace_child s (above fs) q v = (if above fs \<noteq> 0
      then do { l \<leftarrow> left_of s (above fs); if q = l then set_left s (above fs) v else set_right s (above fs) v }
      else Some (s\<lparr>rb_top := v\<rparr>))"
    unfolding replace_child_def by (cases "left_of s (above fs)") auto
  then show ?thesis using replace_links(1) [OF c, of v] by simp
qed

lemma unlink_shape:
  assumes shape: "rb_shape s (plug fs (Node l a r))" and x: "l = Leaf \<and> x = r \<or> r = Leaf \<and> x = l"
  shows "\<exists>s1 s2. (if root_of x \<noteq> 0 then set_parent s (root_of x) (above fs) else Some s) = Some s1 \<and>
    replace_child s1 (above fs) a (root_of x) = Some s2 \<and> rb_shape s2 (plug fs x) \<and> same_data s s2 \<and> links s2 a = links s a"
proof -
  let ?L = "links s" and ?q = "root_of x"
  from shape have c: "ctx_linked ?L fs a" "rb_top s = ctx_root fs a" "a \<noteq> 0" "linked ?L a x"
    and d: "distinct (before fs @ (inorder l @ a # inorder r) @ behind fs)"
    using x by (auto simp: rb_shape_plug)
  have dx: "a \<notin> ctx_set fs" "a \<notin> set_tree x" "set_tree x \<inter> ctx_set fs = {}" "distinct (inorder x)"
    "distinct (before fs @ inorder x @ behind fs)" "distinct (before fs @ behind fs)"
    using d x by (auto simp: ctx_set_def)
  have "?q = 0 \<or> ?q \<in> dom ?L" using linked_dom [OF c(4)] set_tree_of_root [of x] by auto
  from set_parent_opt [OF this, of "above fs"] obtain s1 where
    s1: "(if ?q \<noteq> 0 then set_parent s ?q (above fs) else Some s) = Some s1" "links s1 = link_parent ?L ?q (above fs)"
      "rb_top s1 = rb_top s" "same_data s s1" by blast
  have L1: "links s1 z = ?L z" if "z \<notin> set_tree x" for z
    using that set_tree_of_root [of x] by (cases "?q = 0") (auto simp: s1(2) link_parent_def)
  have "\<forall>z \<in> ctx_set fs. links s1 z = ?L z" using L1 dx(3) by blast
  with c(1) have c1: "ctx_linked (links s1) fs a" using ctx_linked_cong by blast
  from replace_child_links [OF c1 c(3) dx(1), of ?q] obtain s2 where s2: "replace_child s1 (above fs) a ?q = Some s2"
    "links s2 = relink (links s1) fs ?q" "rb_top s2 = (if fs = [] then ?q else rb_top s1)" "same_data s1 s2"
    by blast
  have ab: "above fs \<notin> set_tree x" "above fs \<noteq> a"
    using above_in [of fs] dx(1,3) linked_nonzero [OF c(4)] c(3) by (cases fs; auto)+
  have "links s2 z = links s1 z" if "z \<in> set_tree x" for z using that ab(1) unfolding s2(2) by (intro relink_other) auto
  moreover have "linked (links s1) (above fs) x" unfolding s1(2) by (rule linked_reparent [OF c(4) dx(4)])
  ultimately have "linked (links s2) (above fs) x" using linked_cong by blast
  moreover have "ctx_linked (links s2) fs ?q" unfolding s2(2) by (rule ctx_linked_relink [OF c1 dx(6)])
  moreover have "rb_top s2 = ctx_root fs ?q" using s2(3) s1(3) c(2) ctx_root_cong [of fs ?q a] by auto
  ultimately have "rb_shape s2 (plug fs x)" using dx(5) by (simp add: rb_shape_plug)
  moreover have "same_data s s2" using s1(4) s2(4) same_data_trans by blast
  moreover have "links s2 a = ?L a" using L1 [OF dx(2)] ab(2) by (simp add: s2(2) relink_other)
  ultimately show ?thesis using s1(1) s2(1) by blast
qed

text \<open>Putting the node \<open>m\<close> in the place of \<open>a\<close>.\<close>

definition take_place :: "rb \<Rightarrow> addr \<Rightarrow> addr \<Rightarrow> rb option" where
  "take_place s m a = do {
     v \<leftarrow> parent_of s a;
     s \<leftarrow> set_parent s m v;
     v \<leftarrow> color_of s a;
     s \<leftarrow> set_color s m v;
     v \<leftarrow> right_of s a;
     s \<leftarrow> set_right s m v;
     v \<leftarrow> left_of s a;
     s \<leftarrow> set_left s m v;
     op \<leftarrow> parent_of s a;
     s \<leftarrow> replace_child s op a m;
     v \<leftarrow> left_of s a;
     s \<leftarrow> set_parent s v m;
     v \<leftarrow> right_of s a;
     (if v \<noteq> 0 then set_parent s v m else Some s) }"

lemma set_link_steps:
  assumes "a \<noteq> 0" "a \<in> dom (links s)"
  obtains s' where "set_parent s a v = Some s'" "links s' = link_parent (links s) a v" "rb_top s' = rb_top s" "same_data s s'"
proof -
  from set_link(1) [OF assms, of v] show thesis using that by blast
qed

lemma take_place_shape:
  assumes shape: "rb_shape s (plug fs (Node l a r))" and l: "l \<noteq> Leaf" and m: "m \<noteq> 0" "m \<in> dom (links s)" "m \<notin> set_tree (plug fs (Node l a r))"
  shows "\<exists>s'. take_place s m a = Some s' \<and> rb_shape s' (plug fs (Node l m r)) \<and> colors s' = (colors s)(m := colors s a) \<and> keeps s s'"
proof -
  let ?L = "links s"
  from shape have c: "ctx_linked ?L fs a" "rb_top s = ctx_root fs a" "a \<noteq> 0" "linked ?L a l" "linked ?L a r"
    "?L a = Some (above fs, root_of l, root_of r)"
    and d: "distinct (before fs @ (inorder l @ a # inorder r) @ behind fs)" by (auto simp: rb_shape_plug)
  have mn: "m \<notin> ctx_set fs" "m \<notin> set_tree l" "m \<notin> set_tree r" "m \<noteq> a"
    using m(3) by (auto simp: ctx_set_def simp flip: set_inorder)
  have dx: "a \<notin> ctx_set fs" "a \<notin> set_tree l" "a \<notin> set_tree r" "set_tree l \<inter> ctx_set fs = {}" "set_tree r \<inter> ctx_set fs = {}"
    "set_tree l \<inter> set_tree r = {}" "distinct (inorder l)" "distinct (inorder r)" "distinct (before fs @ behind fs)"
    using d by (auto simp: ctx_set_def)
  have ab: "above fs \<notin> set_tree l" "above fs \<notin> set_tree r" "above fs \<noteq> a" "above fs \<noteq> m"
    using above_in [of fs] mn(1) dx(1,4,5) linked_nonzero [OF c(4)] linked_nonzero [OF c(5)] c(3) m(1) by (cases fs; auto)+
  have rd: "parent_of s1 a = Some (above fs)" "left_of s1 a = Some (root_of l)" "right_of s1 a = Some (root_of r)" "color_of s1 a = Some (colors s1 a)"
    if "links s1 a = ?L a" for s1 using read_links [of s1 a] that c(3,6) by auto
  from set_link(1) [OF m(1,2), of "above fs"] obtain s1 where s1: "set_parent s m (above fs) = Some s1"
    "links s1 = link_parent ?L m (above fs)" "rb_top s1 = rb_top s" "same_data s s1" by blast
  have "m \<in> dom (links s1)" using m(2) by (simp add: s1(2))
  then obtain nm where "links s1 m = Some nm" by blast
  from write_color [OF m(1) this, of "colors s a"] obtain s2 where s2: "set_color s1 m (colors s a) = Some s2" "links s2 = links s1"
    "rb_top s2 = rb_top s1" "colors s2 = (colors s1)(m := colors s a)" "keeps s1 s2" by blast
  have "m \<in> dom (links s2)" using m(2) by (simp add: s1(2) s2(2))
  from set_link(3) [OF m(1) this, of "root_of r"] obtain s3 where s3: "set_right s2 m (root_of r) = Some s3"
    "links s3 = link_right (links s2) m (root_of r)" "rb_top s3 = rb_top s2" "same_data s2 s3" by blast
  have "m \<in> dom (links s3)" using m(2) by (simp add: s1(2) s2(2) s3(2))
  from set_link(2) [OF m(1) this, of "root_of l"] obtain s4 where s4: "set_left s3 m (root_of l) = Some s4"
    "links s4 = link_left (links s3) m (root_of l)" "rb_top s4 = rb_top s3" "same_data s3 s4" by blast
  have L3: "links s3 z = ?L z" "links s4 z = ?L z" "links s2 z = ?L z" if "z \<noteq> m" for z using that by (simp_all add: s1(2) s2(2) s3(2) s4(2))
  obtain p0 l0 r0 where m0: "?L m = Some (p0, l0, r0)" using m(2) by (metis domD prod_cases3)
  have L4m: "links s4 m = Some (above fs, root_of l, root_of r)" using m(1) m0 by (simp add: s1(2) s2(2) s3(2) s4(2) link_upd_same)
  have "\<forall>z \<in> ctx_set fs. links s4 z = ?L z"
  proof
    fix z assume "z \<in> ctx_set fs"
    then have "z \<noteq> m" using mn(1) by blast
    then show "links s4 z = ?L z" by (rule L3(2))
  qed
  with c(1) have c4: "ctx_linked (links s4) fs a" using ctx_linked_cong by blast
  from replace_child_links [OF c4 c(3) dx(1), of m] obtain s5 where s5: "replace_child s4 (above fs) a m = Some s5"
    "links s5 = relink (links s4) fs m" "rb_top s5 = (if fs = [] then m else rb_top s4)" "same_data s4 s5"
    by blast
  have L5: "links s5 z = links s4 z" if "z \<noteq> above fs" for z using that by (simp add: s5(2) relink_other)
  have a5: "links s5 a = ?L a" using L5 [of a] L3(2) [of a] ab(3) mn(4) by simp
  have rl: "root_of l \<noteq> 0" "root_of l \<in> set_tree l" using l root_of_in [OF l] linked_nonzero [OF c(4)] by metis+
  have "root_of l \<in> dom (links s5)"
    using rl linked_dom [OF c(4)] by (auto simp: s5(2) s4(2) s3(2) s2(2) s1(2))
  from set_link(1) [OF rl(1) this, of m] obtain s6 where s6: "set_parent s5 (root_of l) m = Some s6"
    "links s6 = link_parent (links s5) (root_of l) m" "rb_top s6 = rb_top s5" "same_data s5 s6" by blast
  have "root_of l \<noteq> a" using rl(2) dx(2) by blast
  then have a6: "links s6 a = ?L a" using a5 by (simp add: s6(2))
  have "root_of r = 0 \<or> root_of r \<in> dom (links s6)"
    using set_tree_of_root [of r] linked_dom [OF c(5)] by (auto simp: s6(2) s5(2) s4(2) s3(2) s2(2) s1(2))
  from set_parent_opt [OF this, of m] obtain s7 where s7: "(if root_of r \<noteq> 0 then set_parent s6 (root_of r) m else Some s6) = Some s7"
    "links s7 = link_parent (links s6) (root_of r) m" "rb_top s7 = rb_top s6" "same_data s6 s7" by blast
  have ca: "colors s1 a = colors s a" using s1(4) by (simp add: same_data_def)
  have as: "links s1 a = ?L a" "links s2 a = ?L a" "links s3 a = ?L a" "links s4 a = ?L a"
    using mn(4) L3 [of a] by (auto simp: s1(2))
  have "take_place s m a = Some s7"
    unfolding take_place_def rd [OF refl] Option.bind.simps s1(1) rd [OF as(1)] ca s2(1) rd [OF as(2)] s3(1) rd [OF as(3)] s4(1)
      rd [OF as(4)] s5(1) rd [OF a5] s6(1) rd [OF a6] s7(1) ..
  moreover have "colors s7 = (colors s)(m := colors s a)"
    using s1(4) s2(4) s3(4) s4(4) s5(4) s6(4) s7(4) by (simp add: same_data_def)
  moreover have "keeps s s7" using s1(4) s2(5) s3(4) s4(4) s5(4) s6(4) s7(4) by (simp add: same_data_def keeps_def)
  moreover have "rb_shape s7 (plug fs (Node l m r))"
  proof -
    have L7: "links s7 z = links s5 z" if "z \<notin> set_tree l" "z \<notin> set_tree r" for z
      using that rl set_tree_of_root [of r] by (cases "root_of r = 0") (auto simp: s7(2) s6(2) link_parent_def)
    have "links s7 z = link_parent ?L (root_of l) m z" if "z \<in> set_tree l" for z
    proof -
      have z: "z \<notin> set_tree r" "z \<noteq> m" "z \<noteq> above fs" using that dx(6) mn(2) ab(1) by blast+
      then have "links s7 z = link_parent (links s5) (root_of l) m z"
        using set_tree_of_root [of r] by (cases "root_of r = 0") (auto simp: s7(2) s6(2) link_parent_def)
      also have "\<dots> = link_parent ?L (root_of l) m z" using z L5 [of z] L3(2) [of z] by (auto simp: link_parent_def)
      finally show ?thesis .
    qed
    then have "linked (links s7) m l" using linked_cong linked_reparent [OF c(4) dx(7), of m] by blast
    moreover have "links s7 z = link_parent ?L (root_of r) m z" if "z \<in> set_tree r" for z
    proof -
      have z: "z \<notin> set_tree l" "z \<noteq> m" "z \<noteq> above fs" "z \<noteq> root_of l" using that dx(6) mn(3) ab(2) rl(2) by blast+
      then show ?thesis using L5 [of z] L3(2) [of z] by (auto simp: s7(2) s6(2) link_parent_def)
    qed
    then have "linked (links s7) m r" using linked_cong linked_reparent [OF c(5) dx(8), of m] by blast
    moreover have "links s7 m = Some (above fs, root_of l, root_of r)" using L7 [OF mn(2,3)] L5 [of m] ab(4) L4m by simp
    moreover have "ctx_linked (links s7) fs m"
    proof -
      have "\<forall>z \<in> ctx_set fs. links s7 z = links s5 z" using L7 dx(4,5) by (metis disjoint_iff)
      moreover have "ctx_linked (links s5) fs m" unfolding s5(2) by (rule ctx_linked_relink [OF c4 dx(9)])
      ultimately show ?thesis using ctx_linked_cong by blast
    qed
    moreover have "rb_top s7 = ctx_root fs m"
      using s1(3) s2(3) s3(3) s4(3) s5(3) s6(3) s7(3) c(2) ctx_root_cong [of fs m a] by auto
    moreover have "distinct (before fs @ (inorder l @ m # inorder r) @ behind fs)" using d mn by (auto simp: ctx_set_def)
    ultimately show ?thesis using m(1) by (simp add: rb_shape_plug)
  qed
  ultimately show ?thesis by blast
qed


section \<open>Repairing the balance\<close>

text \<open>A tree that is one black node short of the height its place needs, unless its root can be painted.\<close>

definition short :: "(addr \<Rightarrow> u8) \<Rightarrow> nat \<Rightarrow> addr tree \<Rightarrow> bool" where
  "short c h t \<longleftrightarrow> (if blk c t then rbt c h t else rbt (c(root_of t := RB_BLACK)) (Suc h) t)"

lemma shortI:
  assumes "rbt c h t" "distinct (inorder t)"
  shows "short c h t"
proof (cases t)
  case (Node l a r)
  then have "a \<notin> set_tree l" "a \<notin> set_tree r" using assms(2) by auto
  then show ?thesis using assms(1) by (auto simp: short_def Node split: if_splits)
qed (use assms in \<open>simp add: short_def\<close>)

lemma rbt_nonempty: "rbt c (Suc h) t \<Longrightarrow> t \<noteq> Leaf"
  by auto

lemma paint_step:
  assumes "rb_shape s t" "a \<in> set_tree t"
  obtains s' where "set_color s a c = Some s'" "rb_shape s' t" "rb_top s' = rb_top s" "colors s' = (colors s)(a := c)" "keeps s s'"
  using shape_paint [OF assms, of c] by blast

lemma in_plug: "a \<in> set_tree t \<Longrightarrow> a \<in> set_tree (plug fs t)"
  by (simp flip: set_inorder)

text \<open>The red sibling: afterwards the sibling is black.\<close>

lemma erase_red_left_ok:
  assumes shape: "rb_shape s (plug (Left_of p w # fs) x)" and ctx: "rb_ctx (colors s) (Suc h) (Left_of p w # fs)"
  shows "\<exists>w' fs' s'. erase_red_left s p = Some (root_of w', s') \<and> rb_shape s' (plug (Left_of p w' # fs') x) \<and> blk (colors s') w' \<and>
    rb_ctx (colors s') (Suc h) (Left_of p w' # fs') \<and> (fs' = fs \<or> colors s' p = RB_RED) \<and>
    (\<forall>a \<in> set_tree x. colors s' a = colors s a) \<and> inorder (plug (Left_of p w' # fs') x) = inorder (plug (Left_of p w # fs) x) \<and> keeps s s'"
proof -
  let ?c = "colors s"
  have w: "rbt ?c (Suc h) w" using ctx by simp
  then obtain wl a wr where wn: "w = Node wl a wr" by (cases w) auto
  have sp: "rb_shape s (plug fs (Node x p (Node wl a wr)))" using shape by (simp add: wn)
  have sw: "rb_shape s (plug (Right_of x p # fs) (Node wl a wr))" using sp by simp
  have r: "right_of s p = Some a" "color_of s a = Some (?c a)" using shape_node(5) [OF sp] shape_node(6) [OF sw] by simp_all
  show ?thesis
  proof (cases "?c a = RB_RED")
    case False
    then have "erase_red_left s p = Some (a, s)" "blk ?c w" using r w by (auto simp: erase_red_left_def wn)
    then show ?thesis using shape ctx by (intro exI [of _ w] exI [of _ fs] exI [of _ s]) (simp add: wn del: rb_ctx.simps)
  next
    case True
    have k: "blk ?c wl" "blk ?c wr" "rbt ?c (Suc h) wl" "rbt ?c (Suc h) wr" using w True by (auto simp: wn)
    have p: "?c p = RB_BLACK" "rb_ctx ?c (Suc (Suc h)) fs" using ctx True by (auto simp: wn split: if_splits)
    have "distinct (before fs @ (inorder x @ p # inorder wl @ a # inorder wr) @ behind fs)" using sp by (simp add: rb_shape_plug)
    then have d: "a \<noteq> p" "a \<notin> set_tree wl" "a \<notin> set_tree wr" "a \<notin> set_tree x" "a \<notin> ctx_set fs" "p \<notin> set_tree wl" "p \<notin> set_tree wr"
      "p \<notin> set_tree x" "p \<notin> ctx_set fs" by (auto simp: ctx_set_def)
    have m: "a \<in> set_tree (plug fs (Node x p (Node wl a wr)))" "p \<in> set_tree (plug fs (Node x p (Node wl a wr)))" by (intro in_plug; simp)+
    from paint_step [OF sp m(1)] obtain s1 where s1: "set_color s a RB_BLACK = Some s1" "rb_shape s1 (plug fs (Node x p (Node wl a wr)))"
      "colors s1 = ?c(a := RB_BLACK)" "keeps s s1" by blast
    from paint_step [OF s1(2) m(2)] obtain s2 where s2: "set_color s1 p RB_RED = Some s2" "rb_shape s2 (plug fs (Node x p (Node wl a wr)))"
      "colors s2 = (colors s1)(p := RB_RED)" "keeps s1 s2" by blast
    from rotate_left_shape [OF s2(2)] obtain s3 where s3: "rb_rotate_left s2 p = Some s3"
      "rb_shape s3 (plug fs (Node (Node x p wl) a wr))" "same_data s2 s3" by blast
    have c3: "colors s3 = ?c(a := RB_BLACK, p := RB_RED)" "keeps s s3"
      using s3(3) s2(3,4) s1(3,4) by (simp_all add: same_data_def keeps_def)
    have s3': "rb_shape s3 (plug (Left_of a wr # fs) (Node x p wl))" using s3(2) by simp
    have "erase_red_left s p = Some (root_of wl, s3)"
      using r True s1(1) s2(1) s3(1) shape_node(5) [OF s3'] by (simp add: erase_red_left_def)
    moreover have "rb_ctx (colors s3) (Suc h) (Left_of p wl # Left_of a wr # fs)" unfolding c3 using k p d by simp
    moreover have "blk (colors s3) wl" "colors s3 p = RB_RED" unfolding c3 using k d by simp_all
    moreover have "\<forall>b \<in> set_tree x. colors s3 b = ?c b" unfolding c3 using d(4,8) by auto
    ultimately show ?thesis using s3(2) c3(2)
      by (intro exI [of _ wl] exI [of _ "Left_of a wr # fs"] exI [of _ s3]) (simp add: wn)
  qed
qed

text \<open>Turning the sibling, so that its outer child is red.\<close>

lemma erase_turn_left_ok:
  assumes shape: "rb_shape s (plug (Left_of p (Node wl a wr) # fs) x)" and ctx: "rb_ctx (colors s) (Suc h) (Left_of p (Node wl a wr) # fs)"
    and w: "colors s a = RB_BLACK" "blk (colors s) wr" "\<not> blk (colors s) wl"
  shows "\<exists>vl b vr s'. erase_turn_left s p a (root_of wl) = Some (b, s') \<and> rb_shape s' (plug (Left_of p (Node vl b vr) # fs) x) \<and>
    rb_ctx (colors s') (Suc h) (Left_of p (Node vl b vr) # fs) \<and> colors s' b = RB_BLACK \<and> \<not> blk (colors s') vr \<and>
    (\<forall>a \<in> set_tree x. colors s' a = colors s a) \<and>
    inorder (plug (Left_of p (Node vl b vr) # fs) x) = inorder (plug (Left_of p (Node wl a wr) # fs) x) \<and> keeps s s'"
proof -
  let ?c = "colors s"
  obtain vl b bl where wl: "wl = Node vl b bl" using w(3) by (cases wl) auto
  have r: "rbt ?c h wr" "rbt ?c h wl" using ctx w(1) by (auto split: if_splits)
  have b: "?c b = RB_RED" "blk ?c vl" "blk ?c bl" "rbt ?c h vl" "rbt ?c h bl" using r(2) w(3) by (auto simp: wl split: if_splits)
  have up: "if ?c p = RB_RED then fs \<noteq> [] \<and> ?c (above fs) = RB_BLACK \<and> rb_ctx ?c (Suc h) fs else ?c p = RB_BLACK \<and> rb_ctx ?c (Suc (Suc h)) fs"
    using ctx by (auto split: if_splits)
  let ?T = "plug (Right_of x p # fs) (Node (Node vl b bl) a wr)"
  have st: "rb_shape s ?T" using shape by (simp add: wl)
  have "distinct (before fs @ (inorder x @ p # inorder vl @ b # inorder bl @ a # inorder wr) @ behind fs)" using st by (simp add: rb_shape_plug)
  then have d: "a \<noteq> p" "a \<noteq> b" "b \<noteq> p" "a \<notin> set_tree vl" "a \<notin> set_tree bl" "a \<notin> set_tree wr" "a \<notin> set_tree x" "a \<notin> ctx_set fs"
    "b \<notin> set_tree vl" "b \<notin> set_tree bl" "b \<notin> set_tree wr" "b \<notin> set_tree x" "b \<notin> ctx_set fs" by (auto simp: ctx_set_def)
  have m: "b \<in> set_tree ?T" "a \<in> set_tree ?T" by (intro in_plug; simp)+
  have b0: "b \<noteq> 0" using shape_root_in(2) [OF st] by simp
  from paint_step [OF st m(1)] obtain s1 where s1: "set_color s b RB_BLACK = Some s1" "rb_shape s1 ?T"
    "colors s1 = ?c(b := RB_BLACK)" "keeps s s1" by blast
  from paint_step [OF s1(2) m(2)] obtain s2 where s2: "set_color s1 a RB_RED = Some s2" "rb_shape s2 ?T"
    "colors s2 = (colors s1)(a := RB_RED)" "keeps s1 s2" by blast
  from rotate_right_shape [OF s2(2)] obtain s3 where s3: "rb_rotate_right s2 a = Some s3"
    "rb_shape s3 (plug (Right_of x p # fs) (Node vl b (Node bl a wr)))" "same_data s2 s3" by blast
  have c3: "colors s3 = ?c(b := RB_BLACK, a := RB_RED)" "keeps s s3"
    using s3(3) s2(3,4) s1(3,4) by (simp_all add: same_data_def keeps_def)
  have s3': "rb_shape s3 (plug fs (Node x p (Node vl b (Node bl a wr))))" using s3(2) by simp
  have "erase_turn_left s p a (root_of wl) = Some (b, s3)"
    using b0 s1(1) s2(1) s3(1) shape_node(5) [OF s3'] by (simp add: erase_turn_left_def wl)
  moreover have "above fs \<in> ctx_set fs" if "fs \<noteq> []" using above_in [OF that] .
  then have "colors s3 (above fs) = ?c (above fs)" if "fs \<noteq> []" unfolding c3 using d(8,13) that by auto
  then have "rb_ctx (colors s3) (Suc h) (Left_of p (Node vl b (Node bl a wr)) # fs)"
    unfolding c3 using up b w d r by (auto split: if_splits)
  moreover have "\<forall>b \<in> set_tree x. colors s3 b = ?c b" unfolding c3 using d(7,12) by auto
  ultimately show ?thesis using s3(2) c3 d
    by (intro exI [of _ vl] exI [of _ b] exI [of _ "Node bl a wr"] exI [of _ s3]) (simp add: wl del: rb_ctx.simps)
qed

text \<open>The last rotation: the tree is balanced.\<close>

lemma erase_last_left_ok:
  assumes shape: "rb_shape s (plug (Left_of p (Node wl a wr) # fs) x)" and ctx: "rb_ctx (colors s) (Suc h) (Left_of p (Node wl a wr) # fs)"
    and w: "colors s a = RB_BLACK" "\<not> blk (colors s) wr" and x: "rbt (colors s) h x"
  shows "\<exists>s' t'. erase_last_left s p a = Some s' \<and> balanced s' t' \<and>
    inorder t' = inorder (plug (Left_of p (Node wl a wr) # fs) x) \<and> keeps s s'"
proof -
  let ?c = "colors s"
  obtain vl b vr where wr: "wr = Node vl b vr" using w(2) by (cases wr) auto
  have r: "rbt ?c h wr" "rbt ?c h wl" using ctx w(1) by (auto split: if_splits)
  have b: "?c b = RB_RED" "rbt ?c h vl" "rbt ?c h vr" using r(1) w(2) by (auto simp: wr split: if_splits)
  have up: "if ?c p = RB_RED then fs \<noteq> [] \<and> ?c (above fs) = RB_BLACK \<and> rb_ctx ?c (Suc h) fs else ?c p = RB_BLACK \<and> rb_ctx ?c (Suc (Suc h)) fs"
    using ctx by (auto split: if_splits)
  let ?T = "plug fs (Node x p (Node wl a (Node vl b vr)))"
  have st: "rb_shape s ?T" "rb_shape s (plug (Right_of x p # fs) (Node wl a (Node vl b vr)))" using shape by (simp_all add: wr)
  have dd: "distinct (before fs @ (inorder x @ p # inorder wl @ a # inorder vl @ b # inorder vr) @ behind fs)" using st(1) by (simp add: rb_shape_plug)
  then have d: "a \<noteq> p" "a \<noteq> b" "b \<noteq> p" "a \<notin> set_tree vl" "a \<notin> set_tree vr" "a \<notin> set_tree wl" "a \<notin> set_tree x" "a \<notin> ctx_set fs"
    "b \<notin> set_tree vl" "b \<notin> set_tree vr" "b \<notin> set_tree wl" "b \<notin> set_tree x" "b \<notin> ctx_set fs"
    "p \<notin> set_tree vl" "p \<notin> set_tree vr" "p \<notin> set_tree wl" "p \<notin> set_tree x" "p \<notin> ctx_set fs" by (auto simp: ctx_set_def)
  have m: "a \<in> set_tree ?T" "p \<in> set_tree ?T" "b \<in> set_tree ?T" by (intro in_plug; simp)+
  have b0: "b \<noteq> 0" using shape_root_in(2) [of s "[]" ?T] st(1) m(3) by simp
  have pc: "color_of s p = Some (?c p)" using shape_node(6) [OF st(1)] .
  from paint_step [OF st(1) m(1)] obtain s1 where s1: "set_color s a (?c p) = Some s1" "rb_shape s1 ?T"
    "colors s1 = ?c(a := ?c p)" "keeps s s1" by blast
  from paint_step [OF s1(2) m(2)] obtain s2 where s2: "set_color s1 p RB_BLACK = Some s2" "rb_shape s2 ?T"
    "colors s2 = (colors s1)(p := RB_BLACK)" "keeps s1 s2" by blast
  have "rb_shape s2 (plug (Right_of x p # fs) (Node wl a (Node vl b vr)))" using s2(2) by simp
  from shape_node(5) [OF this] have ra: "right_of s2 a = Some b" by simp
  from paint_step [OF s2(2) m(3)] obtain s3 where s3: "set_color s2 b RB_BLACK = Some s3" "rb_shape s3 ?T"
    "colors s3 = (colors s2)(b := RB_BLACK)" "keeps s2 s3" by blast
  from rotate_left_shape [OF s3(2)] obtain s4 where s4: "rb_rotate_left s3 p = Some s4"
    "rb_shape s4 (plug fs (Node (Node x p wl) a (Node vl b vr)))" "same_data s3 s4" by blast
  have c4: "colors s4 = ?c(a := ?c p, p := RB_BLACK, b := RB_BLACK)" "keeps s s4"
    using s4(3) s3(3,4) s2(3,4) s1(3,4) by (simp_all add: same_data_def keeps_def)
  have run: "erase_last_left s p a = Some s4"
    using pc s1(1) s2(1) ra b0 s3(1) s4(1) by (simp add: erase_last_left_def)
  let ?t = "Node (Node x p wl) a (Node vl b vr)" and ?k = "if ?c p = RB_RED then Suc h else Suc (Suc h)"
  have t: "rbt (colors s4) ?k ?t" unfolding c4 using up x r b d by (auto split: if_splits)
  have ab: "fs \<noteq> [] \<Longrightarrow> colors s4 (above fs) = ?c (above fs)" using above_in [of fs] d(8,13,18) unfolding c4 by auto
  have cx: "rb_ctx (colors s4) ?k fs" unfolding c4 using up d by (auto split: if_splits)
  have "fs = [] \<or> colors s4 (above fs) = RB_BLACK \<or> blk (colors s4) ?t" using up ab d unfolding c4 by (auto split: if_splits)
  from rbt_plug [OF cx t this] obtain k where "rbt (colors s4) k (plug fs ?t)" by blast
  moreover have "blk (colors s4) (plug fs ?t)"
  proof (cases "fs = []")
    case True
    then show ?thesis using up d unfolding c4 by (auto split: if_splits)
  next
    case False
    then have "colors s4 (root_of (plug fs ?t)) = RB_BLACK" using ctx_root_black [OF cx] by simp
    then show ?thesis by (cases "plug fs ?t") auto
  qed
  ultimately have "balanced s4 (plug fs ?t)" using s4(2) by (auto simp: balanced_def)
  then show ?thesis using run c4(2) by (intro exI [of _ s4] exI [of _ "plug fs ?t"]) (simp add: wr)
qed

text \<open>The situation at the head of the loop, and what one round makes of it.\<close>

definition erase_pos :: "rb \<Rightarrow> nat \<Rightarrow> frame list \<Rightarrow> addr tree \<Rightarrow> bool" where
  "erase_pos s h fs x \<longleftrightarrow> rb_shape s (plug fs x) \<and> short (colors s) h x \<and> rb_ctx (colors s) (Suc h) fs"

definition erase_round :: "rb \<Rightarrow> addr list \<Rightarrow> nat \<Rightarrow> ((addr \<times> addr) option \<times> rb) option \<Rightarrow> bool" where
  "erase_round s ns k y \<longleftrightarrow> (\<exists>r s'. y = Some (r, s') \<and> keeps s s' \<and>
     (case r of None \<Rightarrow> \<exists>t. balanced s' t \<and> inorder t = ns
      | Some (n, q) \<Rightarrow> \<exists>h fs x. n = root_of x \<and> q = above fs \<and> erase_pos s' h fs x \<and> inorder (plug fs x) = ns \<and>
          (blk (colors s') x \<longrightarrow> length fs = k)))"

lemma erase_roundI:
  assumes "y = Some (Some (root_of x, above fs), s')" "erase_pos s' h fs x" "inorder (plug fs x) = ns"
    "blk (colors s') x \<longrightarrow> length fs = k" "keeps s s'"
  shows "erase_round s ns k y"
  unfolding erase_round_def assms(1)
  by (intro exI [of _ "Some (root_of x, above fs)"] exI [of _ s'] conjI refl assms(5), simp only: option.case prod.case,
    intro exI [of _ h] exI [of _ fs] exI [of _ x] conjI refl assms(2-4))

lemma children_black_ok:
  assumes "rb_shape s (plug fs (Node l a r))"
  shows "children_black s a = Some (root_of l, blk (colors s) l, root_of r, blk (colors s) r)"
proof -
  have "linked (links s) a l" "linked (links s) a r" using shape_linked(1) [OF assms] by simp_all
  then show ?thesis using shape_node(4,5) [OF assms] color_tests(2) by (simp add: children_black_def)
qed

lemma short_above:
  assumes ctx: "rb_ctx c (Suc h) (Left_of p (Node wl a wr) # fs)" and w: "c a = RB_BLACK" "blk c wl" "blk c wr"
    and x: "rbt c h x" "blk c x" and d: "a \<notin> set_tree x" "a \<noteq> p" "a \<notin> ctx_set fs" "p \<notin> set_tree x" "p \<notin> set_tree wl" "p \<notin> set_tree wr"
      "a \<notin> set_tree wl" "a \<notin> set_tree wr"
  shows "\<exists>k. short (c(a := RB_RED)) k (Node x p (Node wl a wr)) \<and> rb_ctx (c(a := RB_RED)) (Suc k) fs"
proof (cases "c p = RB_RED")
  case True
  then have "rb_ctx c (Suc h) fs" "rbt c h wl" "rbt c h wr" using ctx w(1) by (auto split: if_splits)
  then show ?thesis using True x w d by (intro exI [of _ h]) (simp add: short_def)
next
  case False
  then have "c p = RB_BLACK" "rb_ctx c (Suc (Suc h)) fs" "rbt c h wl" "rbt c h wr" using ctx w(1) by (auto split: if_splits)
  then show ?thesis using x w d by (intro exI [of _ "Suc h"]) (simp add: short_def)
qed

lemma erase_fix_left_ok:
  assumes pos: "erase_pos s h (Left_of p w # fs) x" and x: "blk (colors s) x"
  shows "erase_round s (inorder (plug (Left_of p w # fs) x)) (length fs) (erase_fix_left s p)"
proof -
  let ?ns = "inorder (plug (Left_of p w # fs) x)"
  have rx: "rbt (colors s) h x" using pos x by (simp add: erase_pos_def short_def)
  from pos erase_red_left_ok [of s p w fs x h] obtain w' fs' s1 where
    r: "erase_red_left s p = Some (root_of w', s1)" and sh: "rb_shape s1 (plug (Left_of p w' # fs') x)" and bw: "blk (colors s1) w'"
    and ctx: "rb_ctx (colors s1) (Suc h) (Left_of p w' # fs')" and prog: "fs' = fs \<or> colors s1 p = RB_RED"
    and cx: "\<forall>a \<in> set_tree x. colors s1 a = colors s a" and ns: "inorder (plug (Left_of p w' # fs') x) = ?ns" and k1: "keeps s s1"
    unfolding erase_pos_def by blast
  let ?c = "colors s1"
  have x1: "rbt ?c h x" "blk ?c x" using rx x rbt_cong [OF cx] blk_cong [OF cx] by simp_all
  have "rbt ?c (Suc h) w'" using ctx by simp
  then obtain wl a wr where w': "w' = Node wl a wr" by (cases w') auto
  have a: "?c a = RB_BLACK" using bw by (simp add: w')
  have sp: "rb_shape s1 (plug fs' (Node x p (Node wl a wr)))" using sh by (simp add: w')
  have sw: "rb_shape s1 (plug (Right_of x p # fs') (Node wl a wr))" using sp by simp
  note cb = children_black_ok [OF sw]
  have "distinct (before fs' @ (inorder x @ p # inorder wl @ a # inorder wr) @ behind fs')" using sp by (simp add: rb_shape_plug)
  then have d: "a \<notin> set_tree x" "a \<noteq> p" "a \<notin> ctx_set fs'" "p \<notin> set_tree x" "p \<notin> set_tree wl" "p \<notin> set_tree wr"
    "a \<notin> set_tree wl" "a \<notin> set_tree wr" by (auto simp: ctx_set_def)
  show ?thesis
  proof (cases "blk ?c wl \<and> blk ?c wr")
    case True
    have "a \<in> set_tree (plug fs' (Node x p (Node wl a wr)))" by (intro in_plug) simp
    from paint_step [OF sp this] obtain s2 where s2: "set_color s1 a RB_RED = Some s2"
      "rb_shape s2 (plug fs' (Node x p (Node wl a wr)))" "colors s2 = ?c(a := RB_RED)" "keeps s1 s2" by blast
    from short_above [OF ctx [unfolded w'] a _ _ x1 d] True obtain k where
      "short (colors s2) k (Node x p (Node wl a wr))" "rb_ctx (colors s2) (Suc k) fs'" unfolding s2(3) by blast
    then have pos2: "erase_pos s2 k fs' (Node x p (Node wl a wr))" using s2(2) by (simp add: erase_pos_def)
    have "erase_fix_left s p = Some (Some (root_of (Node x p (Node wl a wr)), above fs'), s2)"
      using r cb True s2(1) shape_node(3) [OF s2(2)] by (simp add: erase_fix_left_def w')
    moreover have "inorder (plug fs' (Node x p (Node wl a wr))) = ?ns" using ns by (simp add: w')
    moreover have "blk (colors s2) (Node x p (Node wl a wr)) \<longrightarrow> length fs' = length fs" using prog d(2) by (auto simp: s2(3))
    moreover have "keeps s s2" using k1 s2(4) keeps_trans by blast
    ultimately show ?thesis using erase_roundI [OF _ pos2] by blast
  next
    case False
    have "\<exists>vl b vr s2. (if blk ?c wr then erase_turn_left s1 p a (root_of wl) else Some (a, s1)) = Some (b, s2) \<and>
        rb_shape s2 (plug (Left_of p (Node vl b vr) # fs') x) \<and> rb_ctx (colors s2) (Suc h) (Left_of p (Node vl b vr) # fs') \<and>
        colors s2 b = RB_BLACK \<and> \<not> blk (colors s2) vr \<and> (\<forall>a \<in> set_tree x. colors s2 a = ?c a) \<and>
        inorder (plug (Left_of p (Node vl b vr) # fs') x) = ?ns \<and> keeps s1 s2"
    proof (cases "blk ?c wr")
      case True
      with False have "\<not> blk ?c wl" by simp
      show ?thesis unfolding ns [symmetric] w' if_P [OF True]
        by (rule erase_turn_left_ok [OF sh [unfolded w'] ctx [unfolded w'] a True \<open>\<not> blk ?c wl\<close>])
    next
      case nb: False
      show ?thesis using nb sh ctx a ns
        by (intro exI [of _ wl] exI [of _ a] exI [of _ wr] exI [of _ s1]) (simp add: w' del: rb_ctx.simps)
    qed
    then obtain vl b vr s2 where t: "(if blk ?c wr then erase_turn_left s1 p a (root_of wl) else Some (a, s1)) = Some (b, s2)"
      and sv: "rb_shape s2 (plug (Left_of p (Node vl b vr) # fs') x)" "rb_ctx (colors s2) (Suc h) (Left_of p (Node vl b vr) # fs')"
        "colors s2 b = RB_BLACK" "\<not> blk (colors s2) vr" and cx2: "\<forall>a \<in> set_tree x. colors s2 a = ?c a"
      and ns2: "inorder (plug (Left_of p (Node vl b vr) # fs') x) = ?ns" and k2: "keeps s1 s2" by blast
    have "rbt (colors s2) h x" using x1(1) rbt_cong [OF cx2] by simp
    from erase_last_left_ok [OF sv this] obtain s3 t' where s3: "erase_last_left s2 p b = Some s3" "balanced s3 t'"
      "inorder t' = ?ns" "keeps s2 s3" unfolding ns2 by blast
    have "erase_fix_left s p = Some (None, s3)"
      using r cb t s3(1) by (simp add: erase_fix_left_def w' if_not_P [OF False] del: if_split)
    moreover have "keeps s s3" using keeps_trans [OF keeps_trans [OF k1 k2] s3(4)] .
    ultimately show ?thesis unfolding erase_round_def using s3(2,3) by auto
  qed
qed

lemma mirror_pos: "erase_pos (mirror_rb s) h fs x = erase_pos s h (map mirror_frame fs) (mirror x)"
proof -
  have "short (colors s) h (mirror x) = short (colors s) h x" by (simp add: short_def)
  then show ?thesis by (simp add: erase_pos_def rb_shape_mirror')
qed

lemma balanced_mirror: "balanced (mirror_rb s) t = balanced s (mirror t)"
  by (simp add: balanced_def rb_shape_mirror')

lemma keeps_mirror': "keeps (mirror_rb s) s' = keeps s (mirror_rb s')"
  using keeps_mirror [of s "mirror_rb s'"] by simp

lemma erase_round_mirror:
  assumes "erase_round (mirror_rb s) ns k y"
  shows "erase_round s (rev ns) k (map_option (map_prod id mirror_rb) y)"
proof -
  from assms obtain r s' where y: "y = Some (r, s')" "keeps s (mirror_rb s')" and
    r: "case r of None \<Rightarrow> \<exists>t. balanced s' t \<and> inorder t = ns
      | Some (n, q) \<Rightarrow> \<exists>h fs x. n = root_of x \<and> q = above fs \<and> erase_pos s' h fs x \<and> inorder (plug fs x) = ns \<and>
          (blk (colors s') x \<longrightarrow> length fs = k)" unfolding erase_round_def keeps_mirror' by blast
  show ?thesis
  proof (cases r)
    case None
    with r obtain t where "balanced s' t" "inorder t = ns" by auto
    then have "balanced (mirror_rb s') (mirror t)" "inorder (mirror t) = rev ns" by (simp_all add: balanced_mirror inorder_mirror)
    then show ?thesis unfolding erase_round_def y(1) None using y(2) by auto
  next
    case (Some nq)
    with r obtain h fs x where x: "nq = (root_of x, above fs)" "erase_pos s' h fs x" "inorder (plug fs x) = ns"
      "blk (colors s') x \<longrightarrow> length fs = k" by (auto split: prod.splits)
    show ?thesis
    proof (rule erase_roundI)
      show "map_option (map_prod id mirror_rb) y = Some (Some (root_of (mirror x), above (map mirror_frame fs)), mirror_rb s')"
        by (simp add: y(1) Some x(1))
      show "erase_pos (mirror_rb s') h (map mirror_frame fs) (mirror x)" unfolding mirror_pos using x(2) by simp
      show "inorder (plug (map mirror_frame fs) (mirror x)) = rev ns" using x(3) by (auto simp: inorder_mirror)
      show "blk (colors (mirror_rb s')) (mirror x) \<longrightarrow> length (map mirror_frame fs) = k" using x(4) by simp
    qed (rule y(2))
  qed
qed

lemma erase_fix_right_ok:
  assumes pos: "erase_pos s h (Right_of w p # fs) x" and x: "blk (colors s) x"
  shows "erase_round s (inorder (plug (Right_of w p # fs) x)) (length fs) (erase_fix_right s p)"
proof -
  have "erase_pos (mirror_rb s) h (Left_of p (mirror w) # map mirror_frame fs) (mirror x)" unfolding mirror_pos using pos by simp
  from erase_fix_left_ok [OF this] x have
    "erase_round (mirror_rb s) (inorder (plug (Left_of p (mirror w) # map mirror_frame fs) (mirror x))) (length fs) (erase_fix_left (mirror_rb s) p)"
    by simp
  from erase_round_mirror [OF this] mirror_erase_fix [of "mirror_rb s" p] show ?thesis
    by (simp add: inorder_mirror)
qed

section \<open>The loop\<close>

lemma paint_ok:
  assumes pos: "erase_pos s h fs x" and stop: "fs = [] \<or> \<not> blk (colors s) x"
  shows "\<exists>s' t. paint_black s (root_of x) = Some s' \<and> balanced s' t \<and> inorder t = inorder (plug fs x) \<and> keeps s s'"
proof (cases x)
  case Leaf
  then have "fs = []" "rbt (colors s) h x" using assms by (auto simp: erase_pos_def short_def)
  then show ?thesis using pos Leaf
    by (intro exI [of _ s] exI [of _ Leaf]) (auto simp: paint_black_def balanced_def erase_pos_def)
next
  case (Node l a r)
  have sh: "rb_shape s (plug fs (Node l a r))" and ctx: "rb_ctx (colors s) (Suc h) fs" and st: "short (colors s) h (Node l a r)"
    using pos by (simp_all add: erase_pos_def Node)
  have "a \<in> set_tree (plug fs (Node l a r))" by (intro in_plug) simp
  from paint_step [OF sh this] obtain s' where s': "set_color s a RB_BLACK = Some s'" "rb_shape s' (plug fs (Node l a r))"
    "colors s' = (colors s)(a := RB_BLACK)" "keeps s s'" by blast
  have "a \<notin> ctx_set fs" "a \<notin> set_tree l" "a \<notin> set_tree r" using sh by (auto simp: rb_shape_plug ctx_set_def)
  then have cx: "rb_ctx (colors s') (Suc h) fs" using ctx by (simp add: s'(3))
  have run: "paint_black s (root_of x) = Some s'" using s'(1) shape_node(1) [OF sh] by (simp add: paint_black_def Node)
  have bl: "blk (colors s') (Node l a r)" by (simp add: s'(3))
  have "balanced s' (plug fs (Node l a r))"
  proof (cases "fs = []")
    case True
    have "rbt (colors s') h (Node l a r) \<or> rbt (colors s') (Suc h) (Node l a r)"
      using st by (cases "blk (colors s) (Node l a r)") (auto simp: short_def s'(3) fun_upd_idem)
    then obtain k where "rbt (colors s') k (Node l a r)" by blast
    then show ?thesis using s'(2) bl True unfolding balanced_def by (simp del: rbt.simps) blast
  next
    case False
    then have "rbt (colors s') (Suc h) (Node l a r)" using stop st by (auto simp: short_def s'(3) Node)
    from rbt_plug [OF cx this] bl obtain k where "rbt (colors s') k (plug fs (Node l a r))" by blast
    moreover have "colors s' (root_of (plug fs (Node l a r))) = RB_BLACK" using ctx_root_black [OF cx False] by simp
    then have "blk (colors s') (plug fs (Node l a r))" by (cases "plug fs (Node l a r)") auto
    ultimately show ?thesis using s'(2) by (auto simp: balanced_def)
  qed
  then show ?thesis using run s'(4) by (intro exI [of _ s'] exI [of _ "plug fs (Node l a r)"]) (simp add: Node)
qed

lemma paint_root:
  assumes "balanced s t"
  shows "\<exists>s'. paint_black s (rb_top s) = Some s' \<and> balanced s' t \<and> keeps s s'"
proof -
  have top: "rb_top s = root_of t" using assms by (simp add: balanced_def rb_shape_def)
  show ?thesis
  proof (cases t)
    case (Node l a r)
    have sh: "rb_shape s (plug [] (Node l a r))" "colors s a = RB_BLACK" using assms by (simp_all add: balanced_def Node)
    from paint_step [OF sh(1), of a RB_BLACK] obtain s' where s': "set_color s a RB_BLACK = Some s'" "rb_shape s' (plug [] (Node l a r))"
      "colors s' = (colors s)(a := RB_BLACK)" "keeps s s'" by auto
    have "colors s' = colors s" using sh(2) by (simp add: s'(3) fun_upd_idem)
    then show ?thesis using assms s' shape_node(1) [OF sh(1)]
      by (intro exI [of _ s']) (simp add: balanced_def Node paint_black_def top del: rbt.simps)
  qed (use assms top in \<open>simp add: paint_black_def\<close>)
qed

lemma erase_color_ok:
  assumes "erase_pos s h fs x"
  shows "\<exists>s' t. rb_erase_color s (root_of x) (above fs) = Some s' \<and> balanced s' t \<and> inorder t = inorder (plug fs x) \<and> keeps s s'"
  using assms
proof (induction "if blk (colors s) x then Suc (length fs) else 0" arbitrary: s h fs x rule: less_induct)
  case less
  note pos = less.prems
  have sh: "rb_shape s (plug fs x)" using pos by (simp add: erase_pos_def)
  have bl: "is_black s (root_of x) = Some (blk (colors s) x)" using color_tests(2) [OF shape_linked(1) [OF sh]] .
  have top: "root_of x = rb_top s \<longleftrightarrow> fs = []"
  proof
    assume eq: "root_of x = rb_top s"
    show "fs = []"
    proof (rule ccontr)
      assume ne: "fs \<noteq> []"
      then obtain f gs where f: "fs = f # gs" by (cases fs) auto
      have "rb_top s \<in> ctx_set fs"
        using sh ctx_root_in [of gs "hole_addr f"] above_in [OF ne] by (cases f) (auto simp: rb_shape_plug f)
      moreover have "hole_addr f \<in> set_tree (plug gs (fill f x))" by (rule in_plug) (cases f; simp)
      then have "rb_top s \<noteq> 0" using sh root_of_0 [of "links s" 0 "plug fs x"]
        by (auto simp: rb_shape_def f simp del: root_of_plug)
      ultimately show False using eq set_tree_of_root [of x] shape_linked(3) [OF sh] by auto
    qed
  qed (use sh in \<open>simp add: rb_shape_def\<close>)
  show ?case
  proof (cases "blk (colors s) x \<and> fs \<noteq> []")
    case False
    have "rb_erase_color s (root_of x) (above fs) = paint_black s (root_of x)"
      using bl top False by (subst rb_erase_color.simps) auto
    then show ?thesis using paint_ok [OF pos] False by auto
  next
    case True
    then obtain f gs where fs: "fs = f # gs" by (cases fs) auto
    have "\<exists>pl y. left_of s (hole_addr f) = Some pl \<and>
      (if pl = root_of x then erase_fix_left s (hole_addr f) else erase_fix_right s (hole_addr f)) = y \<and>
      erase_round s (inorder (plug fs x)) (length gs) y"
    proof (cases f)
      case (Left_of p w)
      have "rb_shape s (plug gs (Node x p w))" using sh by (simp add: fs Left_of)
      then show ?thesis using erase_fix_left_ok [of s h p w gs x] pos True shape_node(4) by (simp add: fs Left_of)
    next
      case (Right_of w p)
      have sp: "rb_shape s (plug gs (Node w p x))" using sh by (simp add: fs Right_of)
      have "rbt (colors s) (Suc h) w" using pos by (simp add: erase_pos_def fs Right_of)
      then have "root_of w \<noteq> root_of x" using shape_kids(1) [OF sp] rbt_nonempty by blast
      then show ?thesis using erase_fix_right_ok [of s h w p gs x] pos True shape_node(4) [OF sp] by (simp add: fs Right_of)
    qed
    then obtain pl y where pl: "left_of s (hole_addr f) = Some pl"
      "(if pl = root_of x then erase_fix_left s (hole_addr f) else erase_fix_right s (hole_addr f)) = y"
      and rd: "erase_round s (inorder (plug fs x)) (length gs) y" by blast
    from rd obtain r s1 where y: "y = Some (r, s1)" and k1: "keeps s s1" and
      c: "case r of None \<Rightarrow> \<exists>t. balanced s1 t \<and> inorder t = inorder (plug fs x)
      | Some (n, q) \<Rightarrow> \<exists>h fs' x'. n = root_of x' \<and> q = above fs' \<and> erase_pos s1 h fs' x' \<and> inorder (plug fs' x') = inorder (plug fs x) \<and>
          (blk (colors s1) x' \<longrightarrow> length fs' = length gs)" unfolding erase_round_def by blast
    have go: "rb_erase_color s (root_of x) (above fs) =
        (case r of Some (node, parent) \<Rightarrow> rb_erase_color s1 node parent | None \<Rightarrow> paint_black s1 (rb_top s1))"
      using bl top True pl y by (subst rb_erase_color.simps) (cases "pl = root_of x"; simp add: fs)
    show ?thesis
    proof (cases r)
      case None
      with c obtain t where t: "balanced s1 t" "inorder t = inorder (plug fs x)" by auto
      from paint_root [OF t(1)] obtain s2 where s2: "paint_black s1 (rb_top s1) = Some s2" "balanced s2 t" "keeps s1 s2" by blast
      show ?thesis using go s2 t(2) keeps_trans [OF k1 s2(3)] by (intro exI [of _ s2] exI [of _ t]) (simp add: None)
    next
      case (Some nq)
      with c obtain h' fs' x' where n: "nq = (root_of x', above fs')" "erase_pos s1 h' fs' x'" "inorder (plug fs' x') = inorder (plug fs x)"
        "blk (colors s1) x' \<longrightarrow> length fs' = length gs" by (auto split: prod.splits)
      have "(if blk (colors s1) x' then Suc (length fs') else 0) < (if blk (colors s) x then Suc (length fs) else 0)"
        using n(4) True by (simp add: fs)
      from less.hyps [OF this n(2)] obtain s' t where "rb_erase_color s1 (root_of x') (above fs') = Some s'" "balanced s' t"
        "inorder t = inorder (plug fs x)" "keeps s1 s'" unfolding n(3) by blast
      then show ?thesis using go keeps_trans [OF k1] by (auto simp: Some n(1))
    qed
  qed
qed

section \<open>The whole removal\<close>

lemma before_append: "before (gs @ fs) = before fs @ before gs" "behind (gs @ fs) = behind gs @ behind fs"
proof -
  have "before (gs @ fs) = before fs @ before gs \<and> behind (gs @ fs) = behind gs @ behind fs"
  proof (induction gs)
    case (Cons g gs)
    then show ?case by (cases g) simp_all
  qed simp
  then show "before (gs @ fs) = before fs @ before gs" "behind (gs @ fs) = behind gs @ behind fs" by blast+
qed

text \<open>Walking down the left children.\<close>

lemma go_left_ok:
  assumes "rb_shape s (plug fs (Node l a r))"
  shows "\<exists>gs m x. go_left s a = Some m \<and> Node l a r = plug gs (Node Leaf m x) \<and> before gs = []"
  using assms
proof (induction l arbitrary: a r fs)
  case Leaf
  then show ?case by (intro exI [of _ "[]"] exI [of _ a] exI [of _ r]) (simp add: go_left.simps [of s a] shape_node(4) [OF Leaf])
next
  case (Node ll b lr)
  have "rb_shape s (plug (Left_of a r # fs) (Node ll b lr))" using Node.prems by simp
  from Node.IH(1) [OF this] shape_node(1) [OF this] obtain gs m x where
    "go_left s b = Some m" "Node ll b lr = plug gs (Node Leaf m x)" "before gs = []" "b \<noteq> 0" by blast
  moreover have "left_of s a = Some b" using shape_node(4) [OF Node.prems] by simp
  ultimately have "go_left s a = Some m" by (simp add: go_left.simps [of s a])
  then show ?case using \<open>Node ll b lr = _\<close> \<open>before gs = []\<close>
    by (intro exI [of _ "gs @ [Left_of a r]"] exI [of _ m] exI [of _ x]) (simp add: before_append)
qed

text \<open>A node of colour \<open>col\<close> has been taken out above \<open>x\<close>.\<close>

definition gap :: "(addr \<Rightarrow> u8) \<Rightarrow> u8 \<Rightarrow> nat \<Rightarrow> frame list \<Rightarrow> addr tree \<Rightarrow> bool" where
  "gap c col h fs x \<longleftrightarrow> rbt c h x \<and>
     (if col = RB_BLACK then rb_ctx c (Suc h) fs else fs \<noteq> [] \<and> blk c x \<and> rb_ctx c h fs)"

lemma gap_of:
  assumes "rbt c k (plug fs (Node l a r))" "blk c (plug fs (Node l a r))" "l = Leaf \<and> x = r \<or> r = Leaf \<and> x = l"
  shows "\<exists>h. gap c (c a) h fs x"
proof -
  from rbt_unplug [OF assms(1,2)] obtain h where h: "rb_ctx c h fs" "rbt c h (Node l a r)"
    "fs = [] \<or> c (above fs) = RB_BLACK \<or> blk c (Node l a r)" by blast
  have ne: "c a \<noteq> RB_BLACK \<Longrightarrow> fs \<noteq> []" using assms(2) by auto
  show ?thesis
  proof (cases "c a = RB_BLACK")
    case True
    with h(2) obtain j where "h = Suc j" "rbt c j l" "rbt c j r" by (cases h) auto
    then show ?thesis using h(1) True assms(3) by (intro exI [of _ j]) (auto simp: gap_def)
  next
    case False
    then have "blk c l" "blk c r" "rbt c h l" "rbt c h r" using h(2) by (auto split: if_splits)
    then show ?thesis using h(1) False ne assms(3) by (intro exI [of _ h]) (auto simp: gap_def)
  qed
qed

lemma gap_finish:
  assumes sh: "rb_shape s (plug fs x)" and gap: "gap (colors s) col h fs x"
  shows "\<exists>s' t. (if col = RB_BLACK then rb_erase_color s (root_of x) (above fs) else Some s) = Some s' \<and>
    balanced s' t \<and> inorder t = inorder (plug fs x) \<and> keeps s s'"
proof (cases "col = RB_BLACK")
  case True
  then have "erase_pos s h fs x" using sh gap shortI [OF _ shape_linked(2) [OF sh]] by (simp add: erase_pos_def gap_def)
  then show ?thesis using erase_color_ok True by auto
next
  case False
  then have g: "fs \<noteq> []" "blk (colors s) x" "rb_ctx (colors s) h fs" "rbt (colors s) h x" using gap by (simp_all add: gap_def)
  from rbt_plug [OF g(3,4)] g(2) obtain k where "rbt (colors s) k (plug fs x)" by blast
  moreover have "colors s (root_of (plug fs x)) = RB_BLACK" using ctx_root_black [OF g(3,1)] by simp
  then have "blk (colors s) (plug fs x)" by (cases "plug fs x") auto
  ultimately have "balanced s (plug fs x)" using sh by (auto simp: balanced_def)
  then show ?thesis using False by (intro exI [of _ s] exI [of _ "plug fs x"]) simp
qed

lemma erase_outer_ok:
  assumes shape: "rb_shape s (plug fs (Node l a r))" and x: "l = Leaf \<and> x = r \<or> r = Leaf \<and> x = l"
  shows "\<exists>s'. erase_outer s a (root_of x) = Some (root_of x, above fs, colors s a, s') \<and> rb_shape s' (plug fs x) \<and> same_data s s'"
proof -
  from unlink_shape [OF shape x] obtain s1 s2 where
    "(if root_of x \<noteq> 0 then set_parent s (root_of x) (above fs) else Some s) = Some s1"
    "replace_child s1 (above fs) a (root_of x) = Some s2" "rb_shape s2 (plug fs x)" "same_data s s2" by blast
  then show ?thesis using shape_node(3,6) [OF shape] by (simp add: erase_outer_def del: if_split)
qed

lemma erase_inner_alt:
  "erase_inner s old = do {
     node \<leftarrow> right_of s old;
     node \<leftarrow> go_left s node;
     child \<leftarrow> right_of s node;
     parent \<leftarrow> parent_of s node;
     color \<leftarrow> color_of s node;
     s \<leftarrow> (if child \<noteq> 0 then set_parent s child parent else Some s);
     s \<leftarrow> replace_child s parent node child;
     np \<leftarrow> parent_of s node;
     s \<leftarrow> take_place s node old;
     Some (child, if np = old then node else parent, color, s) }"
  by (simp add: erase_inner_def take_place_def Let_def Option.bind_assoc del: if_split)

lemma ctx_swap:
  assumes d: "d m = c a" "\<And>z. z \<noteq> m \<Longrightarrow> d z = c z"
    and "rb_ctx c h (gs @ Right_of l a # fs)" "m \<notin> ctx_set (gs @ Right_of l a # fs)"
  shows "rb_ctx d h (gs @ Right_of l m # fs)"
  using assms(3,4)
proof (induction gs arbitrary: h)
  case Nil
  then have m: "m \<notin> set_tree l" "m \<notin> ctx_set fs" by simp_all
  have "rbt d i l = rbt c i l" "blk d l = blk c l" "rb_ctx d i fs = rb_ctx c i fs" for i
    using m d(2) by (metis rbt_cong blk_cong rb_ctx_cong)+
  moreover have "fs \<noteq> [] \<Longrightarrow> d (above fs) = c (above fs)" using above_in [of fs] m(2) d(2) by metis
  ultimately show ?case using Nil.prems(1) d(1) by (cases "c a = RB_RED") simp_all
next
  case (Cons g gs)
  have n: "m \<notin> set_tree (sibling g)" "m \<noteq> hole_addr g" "m \<notin> ctx_set (gs @ Right_of l a # fs)" using Cons.prems(2) by (cases g; simp)+
  have ab: "d (above (gs @ Right_of l m # fs)) = c (above (gs @ Right_of l a # fs))"
  proof (cases gs)
    case (Cons g' gs')
    have "m \<notin> ctx_set gs" using n(3) by (simp add: ctx_set_def before_append)
    moreover have "above gs \<in> ctx_set gs" using above_in [of gs] Cons by simp
    ultimately have "above gs \<noteq> m" by blast
    then show ?thesis using d(2) by (simp add: Cons)
  qed (simp add: d(1))
  have "rbt d i (sibling g) = rbt c i (sibling g)" "blk d (sibling g) = blk c (sibling g)" "d (hole_addr g) = c (hole_addr g)" for i
    using n(1,2) d(2) by (metis rbt_cong blk_cong)+
  note e = this
  show ?case using Cons.prems(1) Cons.IH [OF _ n(3)] unfolding append_Cons rb_ctx.simps ab e
    by (cases "c (hole_addr g) = RB_RED") simp_all
qed

lemma erase_inner_ok:
  assumes shape: "rb_shape s (plug fs (Node l a r))" and ne: "l \<noteq> Leaf" "r \<noteq> Leaf"
    and bal: "rbt (colors s) k (plug fs (Node l a r))" "blk (colors s) (plug fs (Node l a r))"
  shows "\<exists>x gs col s' h. erase_inner s a = Some (root_of x, above gs, col, s') \<and> rb_shape s' (plug gs x) \<and>
    gap (colors s') col h gs x \<and> inorder (plug gs x) = before fs @ inorder l @ inorder r @ behind fs \<and> keeps s s'"
proof -
  obtain rl b rr where r: "r = Node rl b rr" using ne(2) by (cases r) auto
  have "rb_shape s (plug (Right_of l a # fs) (Node rl b rr))" using shape by (simp add: r)
  from go_left_ok [OF this] obtain gs m x where gl: "go_left s b = Some m" and rg: "r = plug gs (Node Leaf m x)" and bg: "before gs = []"
    unfolding r by blast
  let ?F = "gs @ Right_of l a # fs" and ?G = "gs @ Right_of l m # fs"
  have eqt: "plug fs (Node l a r) = plug ?F (Node Leaf m x)" by (simp add: rg)
  have sm: "rb_shape s (plug ?F (Node Leaf m x))" using shape unfolding eqt .
  obtain h where gp: "gap (colors s) (colors s m) h ?F x" using gap_of [of "colors s" k ?F Leaf m x x] bal unfolding eqt by blast
  note nm = shape_node [OF sm]
  from unlink_shape [OF sm, of x] obtain s1 s2 where
    u: "(if root_of x \<noteq> 0 then set_parent s (root_of x) (above ?F) else Some s) = Some s1"
      "replace_child s1 (above ?F) m (root_of x) = Some s2" "rb_shape s2 (plug ?F x)" "same_data s s2" "links s2 m = links s m" by blast
  have np: "parent_of s2 m = Some (above ?F)" using read_links(1) [of s2 m] u(5) nm(1,2) by simp
  have d: "distinct (before ?F @ (m # inorder x) @ behind ?F)" using sm [unfolded rb_shape_plug] by simp
  then have dm: "m \<notin> ctx_set ?F" "m \<notin> set_tree x" by (auto simp: ctx_set_def)
  have s2: "rb_shape s2 (plug fs (Node l a (plug gs x)))" using u(3) by simp
  have "m \<notin> set_tree (plug fs (Node l a (plug gs x)))" using dm by (simp add: ctx_set_def before_append flip: set_inorder)
  moreover have "m \<in> dom (links s2)" using u(5) nm(2) by auto
  ultimately obtain s3 where s3: "take_place s2 m a = Some s3" "rb_shape s3 (plug fs (Node l m (plug gs x)))"
    "colors s3 = (colors s2)(m := colors s2 a)" "keeps s2 s3" using take_place_shape [OF s2 ne(1) nm(1)] by blast
  have c2: "colors s2 = colors s" "keeps s s2" using u(4) by (simp_all add: same_data_def)
  have ab: "(if above ?F = a then m else above ?F) = above ?G"
  proof (cases gs)
    case (Cons g gs')
    have "above gs \<in> ctx_set gs" using above_in [of gs] Cons by simp
    moreover have "a \<notin> ctx_set gs" using shape by (auto simp: rb_shape_plug rg ctx_set_def)
    ultimately show ?thesis by (auto simp: Cons)
  qed simp
  have "erase_inner s a = Some (root_of x, above ?G, colors s m, s3)"
    unfolding erase_inner_alt shape_node(5) [OF shape] Option.bind.simps r root_of_simps gl nm(3,5,6) u(1,2) np s3(1) ab ..
  moreover have "rb_shape s3 (plug ?G x)" using s3(2) by simp
  moreover have "gap (colors s3) (colors s m) h ?G x"
    unfolding s3(3) c2(1) using gp dm ctx_swap [of "(colors s)(m := colors s a)" m "colors s" a _ gs l fs, OF _ _ _ dm(1)] by (auto simp: gap_def split: if_splits)
  moreover have "inorder (plug ?G x) = before fs @ inorder l @ inorder r @ behind fs"
    using bg by (simp add: rg before_append)
  moreover have "keeps s s3" using c2(2) s3(4) keeps_trans by blast
  ultimately show ?thesis by blast
qed

lemma rb_erase_pos:
  assumes bal: "balanced s (plug fs (Node l a r))"
  shows "\<exists>s' t. rb_erase s a = Some s' \<and> balanced s' t \<and> inorder t = before fs @ inorder l @ inorder r @ behind fs \<and> keeps s s'"
proof -
  from bal obtain k where sh: "rb_shape s (plug fs (Node l a r))" and b: "rbt (colors s) k (plug fs (Node l a r))" "blk (colors s) (plug fs (Node l a r))"
    by (auto simp: balanced_def)
  note n = shape_node [OF sh]
  have lr: "root_of l = 0 \<longleftrightarrow> l = Leaf" "root_of r = 0 \<longleftrightarrow> r = Leaf"
    using shape_linked(1) [OF sh] root_of_0 [of "links s" a] by simp_all
  have "\<exists>x gs col s1 h. (if root_of l = 0 then erase_outer s a (root_of r)
      else if root_of r = 0 then erase_outer s a (root_of l) else erase_inner s a) = Some (root_of x, above gs, col, s1) \<and>
    rb_shape s1 (plug gs x) \<and> gap (colors s1) col h gs x \<and> inorder (plug gs x) = before fs @ inorder l @ inorder r @ behind fs \<and> keeps s s1"
  proof (cases "l = Leaf \<or> r = Leaf")
    case True
    define x where "x = (if l = Leaf then r else l)"
    have x: "l = Leaf \<and> x = r \<or> r = Leaf \<and> x = l" using True by (auto simp: x_def)
    from erase_outer_ok [OF sh x] obtain s1 where s1: "erase_outer s a (root_of x) = Some (root_of x, above fs, colors s a, s1)"
      "rb_shape s1 (plug fs x)" "same_data s s1" by blast
    obtain h where "gap (colors s) (colors s a) h fs x" using gap_of [OF b x] by blast
    moreover have "(if root_of l = 0 then erase_outer s a (root_of r)
      else if root_of r = 0 then erase_outer s a (root_of l) else erase_inner s a) = erase_outer s a (root_of x)"
      using True lr by (auto simp: x_def)
    moreover have "inorder (plug fs x) = before fs @ inorder l @ inorder r @ behind fs" using x by auto
    ultimately show ?thesis using s1
      by (intro exI [of _ x] exI [of _ fs] exI [of _ "colors s a"] exI [of _ s1] exI [of _ h]) (simp add: same_data_def del: if_split)
  next
    case False
    then show ?thesis using erase_inner_ok [OF sh _ _ b] lr by simp
  qed
  then obtain x gs col s1 h where e: "(if root_of l = 0 then erase_outer s a (root_of r)
      else if root_of r = 0 then erase_outer s a (root_of l) else erase_inner s a) = Some (root_of x, above gs, col, s1)"
    and g: "rb_shape s1 (plug gs x)" "gap (colors s1) col h gs x" and ino: "inorder (plug gs x) = before fs @ inorder l @ inorder r @ behind fs"
    and k1: "keeps s s1" by blast
  from gap_finish [OF g] obtain s' t where f: "(if col = RB_BLACK then rb_erase_color s1 (root_of x) (above gs) else Some s1) = Some s'"
    "balanced s' t" "inorder t = before fs @ inorder l @ inorder r @ behind fs" "keeps s1 s'" unfolding ino by blast
  have "rb_erase s a = Some s'" unfolding rb_erase_def n(4,5) Option.bind.simps e prod.case f(1) ..
  then show ?thesis using f keeps_trans [OF k1] by blast
qed

lemma tree_position:
  assumes "distinct (inorder t)" "inorder t = xs @ a # ys"
  obtains fs l r where "t = plug fs (Node l a r)" "xs = before fs @ inorder l" "ys = inorder r @ behind fs"
proof -
  have "a \<in> set_tree t" using assms(2) by (simp flip: set_inorder)
  from plug_split [OF this] obtain fs l r where t: "t = plug fs (Node l a r)" .
  have ns: "a \<notin> set xs" "a \<notin> set ys" using assms(1) unfolding assms(2) by auto
  from t have e: "(before fs @ inorder l) @ a # (inorder r @ behind fs) = xs @ a # ys" using assms(2) by simp
  moreover have "a \<notin> set (before fs @ inorder l)" "a \<notin> set (inorder r @ behind fs)" using assms(1) t by auto
  ultimately have "before fs @ inorder l = xs \<and> inorder r @ behind fs = ys" using ns append_Cons_eq_iff by metis
  then show thesis using that [OF t] by simp
qed

lemma rb_erase_ok:
  assumes "balanced s t" "inorder t = xs @ a # ys"
  shows "\<exists>s' t'. rb_erase s a = Some s' \<and> balanced s' t' \<and> inorder t' = xs @ ys \<and> keeps s s'"
proof -
  have "distinct (inorder t)" using assms(1) by (simp add: balanced_def rb_shape_def)
  from tree_position [OF this assms(2)] obtain fs l r where t: "t = plug fs (Node l a r)"
    "xs = before fs @ inorder l" "ys = inorder r @ behind fs" .
  from rb_erase_pos [OF assms(1) [unfolded t(1)]] show ?thesis by (simp add: t(2,3))
qed

end
