(* ===== verification/Rbtree_Props.thy ===== *)
theory Rbtree_Props
  imports Rbtree_Erase
begin

text \<open>
  What the red-black tree is for: a store that holds a list of nodes in the order of their values.
  Insertion puts a node behind the nodes that are not greater, removal takes it out, and the
  traversals and searches read the list.
\<close>

section \<open>Descending to the place of a new node\<close>

fun link_at :: "frame list \<Rightarrow> rb_link" where
  "link_at [] = Link_root"
| "link_at (Left_of a r # fs) = Link_left a"
| "link_at (Right_of l a # fs) = Link_right a"

lemma read_link_ok:
  assumes "rb_shape s (plug fs t)"
  shows "read_link s (link_at fs) = Some (root_of t)"
proof (cases fs)
  case Nil
  then show ?thesis using assms by (simp add: read_link_def rb_shape_def)
next
  case (Cons f gs)
  show ?thesis
  proof (cases f)
    case (Left_of a r)
    then have "rb_shape s (plug gs (Node t a r))" using assms by (simp add: Cons)
    then show ?thesis using shape_node(4) by (simp add: Cons Left_of read_link_def)
  next
    case (Right_of l a)
    then have "rb_shape s (plug gs (Node l a t))" using assms by (simp add: Cons)
    then show ?thesis using shape_node(5) by (simp add: Cons Right_of read_link_def)
  qed
qed

lemma find_link_ok:
  assumes "rb_shape s (plug fs t)" "value_of s new = Some v"
    "\<forall>a \<in> set (before fs). vals s a \<le> v" "\<forall>a \<in> set (behind fs). v < vals s a" "sorted (map (vals s) (inorder t))"
  shows "\<exists>gs. find_link s new (link_at fs) (above fs) = Some (link_at gs, above gs) \<and> plug gs Leaf = plug fs t \<and>
    (\<forall>a \<in> set (before gs). vals s a \<le> v) \<and> (\<forall>a \<in> set (behind gs). v < vals s a)"
  using assms
proof (induction t arbitrary: fs)
  case Leaf
  then show ?case using read_link_ok [OF Leaf.prems(1)] by (intro exI [of _ fs]) (simp add: find_link.simps)
next
  case (Node l a r)
  note n = shape_node [OF Node.prems(1)] and rd = read_link_ok [OF Node.prems(1)]
  have so: "sorted (map (vals s) (inorder l))" "sorted (map (vals s) (inorder r))"
    "\<forall>b \<in> set_tree l. vals s b \<le> vals s a" "\<forall>b \<in> set_tree r. vals s a \<le> vals s b"
    using Node.prems(5) by (auto simp: sorted_append)
  show ?case
  proof (cases "v < vals s a")
    case True
    have "rb_shape s (plug (Left_of a r # fs) l)" using Node.prems(1) by simp
    moreover have "\<forall>b \<in> set (behind (Left_of a r # fs)). v < vals s b" using so(4) True Node.prems(4) by auto
    moreover have "find_link s new (link_at fs) (above fs) = find_link s new (Link_left a) a"
      using rd n(1,7) Node.prems(2) True by (simp add: find_link.simps [of s new "link_at fs"])
    ultimately show ?thesis using Node.IH(1) [of "Left_of a r # fs"] Node.prems(2,3) so(1) by simp
  next
    case False
    have "rb_shape s (plug (Right_of l a # fs) r)" using Node.prems(1) by simp
    moreover have "\<forall>b \<in> set (before (Right_of l a # fs)). vals s b \<le> v" using so(3) False Node.prems(3) by auto
    moreover have "find_link s new (link_at fs) (above fs) = find_link s new (Link_right a) a"
      using rd n(1,7) Node.prems(2) False by (simp add: find_link.simps [of s new "link_at fs"])
    ultimately show ?thesis using Node.IH(2) [of "Right_of l a # fs"] Node.prems(2,4) so(2) by simp
  qed
qed

lemma write_link_ok:
  assumes "ctx_linked (links s) fs q"
  shows "\<exists>s'. write_link s (link_at fs) v = Some s' \<and> links s' = relink (links s) fs v \<and>
    rb_top s' = (if fs = [] then v else rb_top s) \<and> same_data s s'"
proof (cases fs)
  case (Cons f gs)
  have "above fs \<noteq> 0" "above fs \<in> dom (links s)" using ctx_dom [OF assms] by (simp_all add: Cons)
  note w = set_link(2,3) [OF this, of v]
  show ?thesis using w by (cases f) (simp_all add: Cons write_link_def)
qed (simp add: write_link_def)

lemma link_node_ok:
  assumes shape: "rb_shape s (plug fs Leaf)" and new: "new \<noteq> 0" "new \<in> dom (links s)" "new \<notin> ctx_set fs"
  shows "\<exists>s'. rb_link_node s new (above fs) (link_at fs) = Some s' \<and> rb_shape s' (plug fs (Node Leaf new Leaf)) \<and>
    colors s' = (colors s)(new := RB_RED) \<and> keeps s s'"
proof -
  from shape have c: "ctx_linked (links s) fs 0" "rb_top s = ctx_root fs 0" "distinct (before fs @ behind fs)" by (auto simp: rb_shape_plug)
  from set_link(1) [OF new(1,2), of "above fs"] obtain s1 where s1: "set_parent s new (above fs) = Some s1"
    "links s1 = link_parent (links s) new (above fs)" "rb_top s1 = rb_top s" "same_data s s1" by blast
  have d1: "new \<in> dom (links s1)" using new(2) by (simp add: s1(2))
  then obtain n1 where "links s1 new = Some n1" by blast
  from write_color [OF new(1) this, of RB_RED] obtain s2 where s2: "set_color s1 new RB_RED = Some s2" "links s2 = links s1"
    "rb_top s2 = rb_top s1" "colors s2 = (colors s1)(new := RB_RED)" "keeps s1 s2" by blast
  have "new \<in> dom (links s2)" using d1 by (simp add: s2(2))
  from set_link(3) [OF new(1) this, of 0] obtain s3 where s3: "set_right s2 new 0 = Some s3"
    "links s3 = link_right (links s2) new 0" "rb_top s3 = rb_top s2" "same_data s2 s3" by blast
  have "new \<in> dom (links s3)" using d1 by (simp add: s2(2) s3(2))
  from set_link(2) [OF new(1) this, of 0] obtain s4 where s4: "set_left s3 new 0 = Some s4"
    "links s4 = link_left (links s3) new 0" "rb_top s4 = rb_top s3" "same_data s3 s4" by blast
  have L4: "links s4 z = links s z" if "z \<noteq> new" for z using that by (simp add: s1(2) s2(2) s3(2) s4(2))
  obtain p0 l0 r0 where "links s new = Some (p0, l0, r0)" using new(2) by (metis domD prod_cases3)
  then have n4: "links s4 new = Some (above fs, 0, 0)" using new(1) by (simp add: s1(2) s2(2) s3(2) s4(2) link_upd_same)
  have "\<forall>z \<in> ctx_set fs. links s4 z = links s z"
  proof
    fix z assume "z \<in> ctx_set fs"
    then have "z \<noteq> new" using new(3) by blast
    then show "links s4 z = links s z" by (rule L4)
  qed
  with c(1) have c4: "ctx_linked (links s4) fs 0" using ctx_linked_cong by blast
  from write_link_ok [OF c4, of new] obtain s5 where s5: "write_link s4 (link_at fs) new = Some s5"
    "links s5 = relink (links s4) fs new" "rb_top s5 = (if fs = [] then new else rb_top s4)" "same_data s4 s5" by blast
  have "new \<noteq> above fs" using above_in [of fs] new(1,3) by (cases fs) auto
  then have "links s5 new = Some (above fs, 0, 0)" using n4 by (simp add: s5(2) relink_other)
  moreover have "ctx_linked (links s5) fs new" unfolding s5(2) by (rule ctx_linked_relink [OF c4 c(3)])
  moreover have "rb_top s5 = ctx_root fs new"
    using s1(3) s2(3) s3(3) s4(3) s5(3) c(2) ctx_root_cong [of fs new 0] by auto
  moreover have "distinct (before fs @ [new] @ behind fs)" using c(3) new(3) by (auto simp: ctx_set_def)
  ultimately have "rb_shape s5 (plug fs (Node Leaf new Leaf))" using new(1) by (simp add: rb_shape_plug)
  moreover have "rb_link_node s new (above fs) (link_at fs) = Some s5"
    using s1(1) s2(1) s3(1) s4(1) s5(1) by (simp add: rb_link_node_def)
  moreover have "colors s5 = (colors s)(new := RB_RED)" "keeps s s5"
    using s1(4) s2(4,5) s3(4) s4(4) s5(4) by (simp_all add: same_data_def keeps_def)
  ultimately show ?thesis by blast
qed

section \<open>The list of nodes\<close>

definition first_of :: "addr list \<Rightarrow> addr" where "first_of ns = (case ns of [] \<Rightarrow> 0 | n # _ \<Rightarrow> n)"
definition last_of :: "addr list \<Rightarrow> addr" where "last_of ns = (if ns = [] then 0 else last ns)"

lemma first_of_simps [simp]: "first_of [] = 0" "first_of (a # ns) = a" "last_of [] = 0" "last_of (ns @ [a]) = a"
  by (simp_all add: first_of_def last_of_def)

lemma first_of_append: "first_of (xs @ ys) = (if xs = [] then first_of ys else first_of xs)"
  by (cases xs) simp_all

lemma last_of_append: "last_of (xs @ ys) = (if ys = [] then last_of xs else last_of ys)"
  by (simp add: last_of_def)

lemma last_of_Cons [simp]: "last_of (a # ns) = (if ns = [] then a else last_of ns)"
  by (simp add: last_of_def)

lemma of_rev [simp]: "first_of (rev ns) = last_of ns" "last_of (rev ns) = first_of ns"
  by (induction ns) (auto simp: first_of_append last_of_append)

lemma first_of_last_of_in: "ns \<noteq> [] \<Longrightarrow> first_of ns \<in> set ns" "ns \<noteq> [] \<Longrightarrow> last_of ns \<in> set ns"
  by (cases ns) (simp_all add: last_of_def)

text \<open>A store that holds the nodes \<open>ns\<close>, in this order; the order is that of the values.\<close>

definition rb_list :: "rb \<Rightarrow> addr list \<Rightarrow> bool" where
  "rb_list s ns \<longleftrightarrow> (\<exists>t. balanced s t \<and> inorder t = ns) \<and>
     first_node s = first_of ns \<and> last_node s = last_of ns \<and> unat (rb_count s) = length ns"

definition rb_holds :: "rb \<Rightarrow> addr list \<Rightarrow> bool" where
  "rb_holds s ns \<longleftrightarrow> rb_list s ns \<and> sorted (map (vals s) ns)"

lemma dom_links_mem: "dom (links s) = dom (rb_mem s)"
  by (auto simp: links_def dom_def)

lemma shape_mem:
  assumes "rb_shape s t" "a \<in> set_tree t"
  shows "a \<noteq> 0" "value_of s a = Some (vals s a)" "a \<in> dom (rb_mem s)"
proof -
  from plug_split [OF assms(2)] obtain fs l r where t: "t = plug fs (Node l a r)" .
  note n = shape_node [OF assms(1) [unfolded t]]
  show "a \<noteq> 0" "value_of s a = Some (vals s a)" using n by simp_all
  show "a \<in> dom (rb_mem s)" using n(2) by (auto simp flip: dom_links_mem)
qed

lemma value_of_mem: "a \<noteq> 0 \<Longrightarrow> a \<in> dom (rb_mem s) \<Longrightarrow> value_of s a = Some (vals s a)"
  by (auto simp: value_of_def vals_def rb_at_def)

lemma rb_list_nodes:
  assumes "rb_list s ns"
  shows "distinct ns" "a \<in> set ns \<Longrightarrow> a \<noteq> 0" "a \<in> set ns \<Longrightarrow> a \<in> dom (rb_mem s)"
    "a \<in> set ns \<Longrightarrow> value_of s a = Some (vals s a)"
proof -
  from assms obtain t where t: "rb_shape s t" "inorder t = ns" by (auto simp: rb_list_def balanced_def)
  show "distinct ns" using t by (auto simp: rb_shape_def)
  show "a \<in> set ns \<Longrightarrow> a \<noteq> 0" "a \<in> set ns \<Longrightarrow> a \<in> dom (rb_mem s)" "a \<in> set ns \<Longrightarrow> value_of s a = Some (vals s a)"
    using shape_mem [OF t(1)] t(2) by (metis set_inorder)+
qed

lemma rb_holds_list: "rb_holds s ns \<Longrightarrow> rb_list s ns" "rb_holds s ns \<Longrightarrow> sorted (map (vals s) ns)"
  by (simp_all add: rb_holds_def)

text \<open>The position of a new node: after the nodes that are not greater.\<close>

lemma split_by_value:
  assumes "xs @ ys = ns" "\<forall>a \<in> set xs. f a \<le> (v :: u32)" "\<forall>a \<in> set ys. v < f a"
  shows "xs = takeWhile (\<lambda>a. f a \<le> v) ns" "ys = dropWhile (\<lambda>a. f a \<le> v) ns"
proof -
  have "takeWhile (\<lambda>a. f a \<le> v) (xs @ ys) = xs @ takeWhile (\<lambda>a. f a \<le> v) ys" using assms(2) by (intro takeWhile_append2) auto
  moreover have "dropWhile (\<lambda>a. f a \<le> v) (xs @ ys) = dropWhile (\<lambda>a. f a \<le> v) ys" using assms(2) by (intro dropWhile_append2) auto
  moreover have "takeWhile (\<lambda>a. f a \<le> v) ys = []" "dropWhile (\<lambda>a. f a \<le> v) ys = ys" using assms(3) by (cases ys; auto)+
  ultimately show "xs = takeWhile (\<lambda>a. f a \<le> v) ns" "ys = dropWhile (\<lambda>a. f a \<le> v) ns" using assms(1) by auto
qed

definition insert_ends :: "rb \<Rightarrow> addr \<Rightarrow> rb option" where
  "insert_ends s new = (if rb_count s \<noteq> 0
     then do {
       nv \<leftarrow> value_of s new;
       lv \<leftarrow> value_of s (last_node s);
       let s = (if nv \<ge> lv then s\<lparr>last_node := new\<rparr> else s);
       fv \<leftarrow> value_of s (first_node s);
       Some (if nv < fv then s\<lparr>first_node := new\<rparr> else s) }
     else Some (s\<lparr>first_node := new, last_node := new\<rparr>))"

lemma ends_fields [simp]:
  "links (s\<lparr>first_node := a\<rparr>) = links s" "links (s\<lparr>last_node := a\<rparr>) = links s" "colors (s\<lparr>first_node := a\<rparr>) = colors s"
  "colors (s\<lparr>last_node := a\<rparr>) = colors s" "vals (s\<lparr>first_node := a\<rparr>) = vals s" "vals (s\<lparr>last_node := a\<rparr>) = vals s"
  "value_of (s\<lparr>last_node := a\<rparr>) b = value_of s b" "links (s\<lparr>rb_count := k\<rparr>) = links s" "colors (s\<lparr>rb_count := k\<rparr>) = colors s"
  "vals (s\<lparr>rb_count := k\<rparr>) = vals s"
  by (simp_all add: links_def colors_def vals_def value_of_def rb_at_def fun_eq_iff)

text \<open>States with the same nodes and the same root.\<close>

definition same_tree :: "rb \<Rightarrow> rb \<Rightarrow> bool" where
  "same_tree s s' \<longleftrightarrow> rb_mem s' = rb_mem s \<and> rb_top s' = rb_top s"

lemma same_tree_eqs:
  assumes "same_tree s s'"
  shows "links s' = links s" "colors s' = colors s" "vals s' = vals s" "rb_shape s' t = rb_shape s t" "balanced s' t = balanced s t"
    "value_of s' a = value_of s a" "dom (rb_mem s') = dom (rb_mem s)"
proof -
  have m: "rb_mem s' = rb_mem s" using assms by (simp add: same_tree_def)
  show *: "links s' = links s" "colors s' = colors s" "vals s' = vals s" "value_of s' a = value_of s a" "dom (rb_mem s') = dom (rb_mem s)"
    by (rule ext, simp add: links_def m, rule ext, simp add: colors_def m, rule ext, simp add: vals_def m)
      (simp_all add: value_of_def rb_at_def m)
  show sh: "rb_shape s' t = rb_shape s t" using assms by (simp add: rb_shape_def * same_tree_def)
  show "balanced s' t = balanced s t" by (simp add: balanced_def sh *)
qed

lemma insert_ends_ok:
  assumes holds: "rb_holds s (xs @ ys)" and v: "\<forall>a \<in> set xs. vals s a \<le> vals s new" "\<forall>a \<in> set ys. vals s new < vals s a"
    and new: "new \<noteq> 0" "new \<in> dom (rb_mem s)"
  shows "\<exists>s'. insert_ends s new = Some s' \<and> same_tree s s' \<and> rb_count s' = rb_count s \<and>
    first_node s' = first_of (xs @ new # ys) \<and> last_node s' = last_of (xs @ new # ys)"
proof (cases "xs @ ys = []")
  case True
  then show ?thesis using holds by (auto simp: insert_ends_def rb_holds_def rb_list_def same_tree_def unat_eq_zero)
next
  case False
  have c: "rb_count s \<noteq> 0" using holds False by (auto simp: rb_holds_def rb_list_def)
  have ends: "first_node s = first_of (xs @ ys)" "last_node s = last_of (xs @ ys)" using holds by (simp_all add: rb_holds_def rb_list_def)
  have "first_node s \<in> set (xs @ ys)" "last_node s \<in> set (xs @ ys)" unfolding ends using first_of_last_of_in [OF False] by simp_all
  then have rd: "value_of s (first_node s) = Some (vals s (first_node s))" "value_of s (last_node s) = Some (vals s (last_node s))"
    using rb_list_nodes(4) [OF rb_holds_list(1) [OF holds]] by simp_all
  have last: "vals s new \<ge> vals s (last_node s) \<longleftrightarrow> ys = []"
  proof (cases "ys = []")
    case True
    then show ?thesis using False first_of_last_of_in(2) [of xs] v(1) by (simp add: ends last_of_append)
  next
    case ne: False
    then have "last_node s \<in> set ys" using first_of_last_of_in(2) [of ys] by (simp add: ends last_of_append)
    then show ?thesis using v(2) ne by (auto simp: not_le)
  qed
  have first: "vals s new < vals s (first_node s) \<longleftrightarrow> xs = []"
  proof (cases "xs = []")
    case True
    then show ?thesis using False first_of_last_of_in(1) [of ys] v(2) by (simp add: ends first_of_append)
  next
    case ne: False
    then have "first_node s \<in> set xs" using first_of_last_of_in(1) [of xs] by (simp add: ends first_of_append)
    then show ?thesis using v(1) ne by (auto simp: not_less)
  qed
  let ?s1 = "if ys = [] then s\<lparr>last_node := new\<rparr> else s"
  have "insert_ends s new = Some (if xs = [] then ?s1\<lparr>first_node := new\<rparr> else ?s1)"
    using c rd value_of_mem [OF new] last first by (simp add: insert_ends_def Let_def)
  then show ?thesis by (auto simp: same_tree_def ends first_of_append last_of_append)
qed

lemma insert_node_alt:
  "rb_insert_node s new = do {
     (k, parent) \<leftarrow> find_link s new Link_root 0;
     s \<leftarrow> insert_ends s new;
     s \<leftarrow> rb_link_node s new parent k;
     s \<leftarrow> rb_insert_color s new;
     Some (s\<lparr>rb_count := rb_count s + 1\<rparr>) }"
  unfolding rb_insert_node_def insert_ends_def ..

lemma insert_node_ok:
  assumes holds: "rb_holds s ns" and new: "new \<noteq> 0" "new \<in> dom (rb_mem s)" "new \<notin> set ns" and room: "Suc (length ns) < 2 ^ 32"
  shows "\<exists>s'. rb_insert_node s new = Some s' \<and> vals s' = vals s \<and> dom (rb_mem s') = dom (rb_mem s) \<and>
    rb_holds s' (takeWhile (\<lambda>a. vals s a \<le> vals s new) ns @ new # dropWhile (\<lambda>a. vals s a \<le> vals s new) ns)"
proof -
  let ?v = "vals s new"
  from holds obtain t k where sh: "rb_shape s t" and bal: "blk (colors s) t" "rbt (colors s) k t" and t: "inorder t = ns"
    by (auto simp: rb_holds_def rb_list_def balanced_def)
  note so = rb_holds_list(2) [OF holds]
  from find_link_ok [of s "[]" t new ?v] sh value_of_mem [OF new(1,2)] so t obtain gs where
    f: "find_link s new Link_root 0 = Some (link_at gs, above gs)" "plug gs Leaf = t"
      "\<forall>a \<in> set (before gs). vals s a \<le> ?v" "\<forall>a \<in> set (behind gs). ?v < vals s a" by auto
  have ns: "before gs @ behind gs = ns" using t f(2) inorder_plug [of gs Leaf] by simp
  note w = split_by_value [OF ns f(3,4)]
  from insert_ends_ok [OF _ f(3,4) new(1,2)] holds obtain s1 where s1: "insert_ends s new = Some s1" "same_tree s s1" "rb_count s1 = rb_count s"
    "first_node s1 = first_of (before gs @ new # behind gs)" "last_node s1 = last_of (before gs @ new # behind gs)" unfolding ns by blast
  note e1 = same_tree_eqs [OF s1(2)]
  have nc: "new \<notin> ctx_set gs" using new(3) ns by (auto simp: ctx_set_def)
  have "rb_shape s1 (plug gs Leaf)" "new \<in> dom (links s1)" using sh f(2) new(2) e1 by (simp_all add: dom_links_mem)
  from link_node_ok [OF this(1) new(1) this(2) nc] obtain s2 where s2: "rb_link_node s1 new (above gs) (link_at gs) = Some s2"
    "rb_shape s2 (plug gs (Node Leaf new Leaf))" "colors s2 = (colors s)(new := RB_RED)" "keeps s1 s2" using e1(2) by auto
  from rbt_unplug [of "colors s" k gs Leaf] bal f(2) have "rb_ctx (colors s) 0 gs" by auto
  then have "rb_ctx (colors s2) 0 gs" using nc by (simp add: s2(3))
  from insert_color_ok [OF s2(2) _ _ this] obtain s3 t' where s3: "rb_insert_color s2 new = Some s3" "balanced s3 t'"
    "inorder t' = before gs @ new # behind gs" "keeps s2 s3" by (auto simp: s2(3))
  define s4 where "s4 = s3\<lparr>rb_count := rb_count s3 + 1\<rparr>"
  have "rb_insert_node s new = Some s4" using f(1) s1(1) s2(1) s3(1) by (simp add: insert_node_alt s4_def)
  moreover have d: "vals s4 = vals s" "dom (rb_mem s4) = dom (rb_mem s)"
    using s2(4) s3(4) e1 by (simp_all add: s4_def keeps_def dom_links_mem)
  moreover have "rb_holds s4 (before gs @ new # behind gs)"
  proof -
    have "same_tree s3 s4" by (simp add: s4_def same_tree_def)
    then have "balanced s4 t'" using s3(2) same_tree_eqs(5) by blast
    moreover have "sorted (map (vals s4) (before gs @ new # behind gs))"
      unfolding d(1) using so f(3,4) by (auto simp: ns [symmetric] sorted_append intro: less_imp_le)
    moreover have "rb_count s4 = rb_count s + 1" using s2(4) s3(4) s1(3) by (simp add: s4_def keeps_def)
    moreover have "unat (rb_count s) = length ns" using holds by (simp add: rb_holds_def rb_list_def)
    ultimately show ?thesis using s3(3) s1(4,5) s2(4) s3(4) room arg_cong [OF ns, of length]
      by (auto simp: rb_holds_def rb_list_def s4_def keeps_def unat_word_ariths)
  qed
  ultimately show ?thesis using w by auto
qed

section \<open>Neighbours\<close>

lemma climb_right_ok:
  assumes "rb_shape s (plug fs t)" "t \<noteq> Leaf"
  shows "climb_right s (root_of t) = Some (first_of (behind fs))"
  using assms
proof (induction fs arbitrary: t)
  case Nil
  obtain l a r where "t = Node l a r" using Nil(2) by (cases t) auto
  then show ?case using shape_node(3) [of s "[]" l a r] Nil(1) by (simp add: climb_right.simps)
next
  case (Cons f fs)
  obtain l a r where t: "t = Node l a r" using Cons.prems(2) by (cases t) auto
  have p: "parent_of s a = Some (hole_addr f)" using shape_node(3) [of s "f # fs" l a r] Cons.prems(1) by (simp add: t)
  show ?case
  proof (cases f)
    case (Left_of b q)
    have sh: "rb_shape s (plug fs (Node t b q))" using Cons.prems(1) by (simp add: Left_of)
    have "root_of t \<noteq> root_of q" using shape_kids(1) [OF sh] Cons.prems(2) by simp
    then show ?thesis using p shape_node(1,5) [OF sh] by (simp add: climb_right.simps t Left_of)
  next
    case (Right_of q b)
    have sh: "rb_shape s (plug fs (Node q b t))" using Cons.prems(1) by (simp add: Right_of)
    then show ?thesis using p shape_node(1,5) [OF sh] Cons.IH [of "Node q b t"] by (simp add: climb_right.simps [of s a] t Right_of)
  qed
qed

lemma next_pos:
  assumes "rb_shape s (plug fs (Node l a r))"
  shows "rb_next s a = Some (first_of (inorder r @ behind fs))"
proof (cases r)
  case Leaf
  then show ?thesis using climb_right_ok [OF assms] shape_node(5) [OF assms] by (simp add: rb_next_def)
next
  case (Node rl b rr)
  have sr: "rb_shape s (plug (Right_of l a # fs) (Node rl b rr))" using assms by (simp add: Node)
  from go_left_ok [OF this] obtain gs m x where g: "go_left s b = Some m" "Node rl b rr = plug gs (Node Leaf m x)" "before gs = []" by blast
  have "inorder r = m # inorder x @ behind gs" using g(3) by (simp add: Node g(2))
  then show ?thesis using g(1) shape_node(1) [OF sr] shape_node(5) [OF assms] by (simp add: rb_next_def Node)
qed

lemma go_mirror:
  assumes "go_left s a = Some m"
  shows "go_right (mirror_rb s) a = Some m"
proof (rule go_left.raw_induct [OF _ assms, where P = "\<lambda>s a m. go_right (mirror_rb s) a = Some m"])
  fix go :: "rb \<Rightarrow> addr \<Rightarrow> addr option" and s a m
  assume ih: "\<And>s a m. go s a = Some m \<Longrightarrow> go_right (mirror_rb s) a = Some m"
    and step: "do { l \<leftarrow> left_of s a; if l \<noteq> 0 then go s l else Some a } = Some m"
  from step obtain l where l: "left_of s a = Some l" "(if l \<noteq> 0 then go s l else Some a) = Some m"
    by (auto simp: bind_eq_Some_conv)
  then show "go_right (mirror_rb s) a = Some m"
    using ih [of s l m] by (subst go_right.simps) (cases "l = 0"; simp)
qed

lemma climb_mirror:
  assumes "climb_right s a = Some m"
  shows "climb_left (mirror_rb s) a = Some m"
proof (rule climb_right.raw_induct [OF _ assms, where P = "\<lambda>s a m. climb_left (mirror_rb s) a = Some m"])
  fix go :: "rb \<Rightarrow> addr \<Rightarrow> addr option" and s a m
  assume ih: "\<And>s a m. go s a = Some m \<Longrightarrow> climb_left (mirror_rb s) a = Some m"
    and step: "do { p \<leftarrow> parent_of s a; if p = 0 then Some p else do { r \<leftarrow> right_of s p; if a = r then go s p else Some p } } = Some m"
  from step obtain p where p: "parent_of s a = Some p"
    "(if p = 0 then Some p else do { r \<leftarrow> right_of s p; if a = r then go s p else Some p }) = Some m"
    by (auto simp: bind_eq_Some_conv)
  show "climb_left (mirror_rb s) a = Some m"
  proof (cases "p = 0")
    case False
    with p(2) obtain r where "right_of s p = Some r" "(if a = r then go s p else Some p) = Some m"
      by (auto simp: bind_eq_Some_conv)
    then show ?thesis using p(1) False ih [of s p m] by (subst climb_left.simps) (cases "a = r"; simp)
  qed (use p in \<open>simp add: climb_left.simps\<close>)
qed

lemma next_mirror: "rb_next (mirror_rb s) a = Some m \<Longrightarrow> rb_prev s a = Some m"
  using go_mirror [of "mirror_rb s"] climb_mirror [of "mirror_rb s"]
  by (auto simp: rb_next_def rb_prev_def bind_eq_Some_conv split: if_splits)

lemma neighbours:
  assumes "rb_shape s t" "inorder t = xs @ a # ys"
  shows "rb_next s a = Some (first_of ys)" "rb_prev s a = Some (last_of xs)"
proof -
  have "distinct (inorder t)" using assms(1) by (simp add: rb_shape_def)
  from tree_position [OF this assms(2)] obtain fs l r where t: "t = plug fs (Node l a r)"
    "xs = before fs @ inorder l" "ys = inorder r @ behind fs" .
  show "rb_next s a = Some (first_of ys)" using next_pos assms(1) by (simp add: t)
  have "rb_shape (mirror_rb s) (plug (map mirror_frame fs) (Node (mirror r) a (mirror l)))"
    using assms(1) by (simp add: rb_shape_mirror' t(1))
  from next_pos [OF this] have "rb_next (mirror_rb s) a = Some (last_of xs)"
    by (simp add: t(2) inorder_mirror flip: rev_append)
  then show "rb_prev s a = Some (last_of xs)" by (rule next_mirror)
qed

section \<open>Removal\<close>

definition remove_ends :: "rb \<Rightarrow> addr \<Rightarrow> rb option" where
  "remove_ends s node = (if rb_count s > 1
     then do {
       s \<leftarrow> (if node = last_node s then do { p \<leftarrow> rb_prev s node; Some (s\<lparr>last_node := p\<rparr>) } else Some s);
       if node = first_node s then do { n \<leftarrow> rb_next s node; Some (s\<lparr>first_node := n\<rparr>) } else Some s }
     else Some (s\<lparr>last_node := 0, first_node := 0\<rparr>))"

lemma remove_node_alt:
  "rb_remove_node s node = do { s \<leftarrow> remove_ends s node; s \<leftarrow> rb_erase s node; Some (s\<lparr>rb_count := rb_count s - 1\<rparr>) }"
  unfolding rb_remove_node_def remove_ends_def ..

lemma remove_ends_ok:
  assumes holds: "rb_list s (xs @ a # ys)"
  shows "\<exists>s'. remove_ends s a = Some s' \<and> same_tree s s' \<and> rb_count s' = rb_count s \<and>
    first_node s' = first_of (xs @ ys) \<and> last_node s' = last_of (xs @ ys)"
proof -
  from holds obtain t where sh: "rb_shape s t" "inorder t = xs @ a # ys" by (auto simp: rb_list_def balanced_def)
  have ends: "first_node s = first_of (xs @ a # ys)" "last_node s = last_of (xs @ a # ys)" and
    c: "unat (rb_count s) = Suc (length (xs @ ys))" using holds by (simp_all add: rb_list_def)
  have n: "a \<notin> set xs" "a \<notin> set ys" using rb_list_nodes(1) [OF holds] by auto
  have big: "rb_count s > 1 \<longleftrightarrow> xs @ ys \<noteq> []" using c by (auto simp: word_less_nat_alt)
  have last: "a = last_node s \<longleftrightarrow> ys = []" using n(2) first_of_last_of_in(2) [of ys] by (auto simp: ends last_of_append)
  have first: "a = first_node s \<longleftrightarrow> xs = []" using n(1) first_of_last_of_in(1) [of xs] by (auto simp: ends first_of_append)
  show ?thesis
  proof (cases "xs @ ys = []")
    case True
    then show ?thesis using big by (auto simp: remove_ends_def same_tree_def)
  next
    case False
    define s1 where "s1 = (if ys = [] then s\<lparr>last_node := last_of xs\<rparr> else s)"
    have s1: "same_tree s s1" "first_node s1 = first_node s" "rb_count s1 = rb_count s" "last_node s1 = last_of (xs @ ys)"
      by (simp_all add: s1_def same_tree_def ends last_of_append)
    have nx: "rb_next s1 a = Some (first_of ys)" using neighbours(1) [of s1 t xs a ys] sh same_tree_eqs(4) [OF s1(1)] by simp
    have one: "(if a = last_node s then do { p \<leftarrow> rb_prev s a; Some (s\<lparr>last_node := p\<rparr>) } else Some s) = Some s1"
      using neighbours(2) [OF sh] last by (simp add: s1_def)
    have f1: "a = first_node s1 \<longleftrightarrow> xs = []" using first s1(2) by simp
    have "remove_ends s a = Some (if xs = [] then s1\<lparr>first_node := first_of ys\<rparr> else s1)"
      unfolding remove_ends_def one Option.bind.simps f1 using big False nx by simp
    then show ?thesis using s1 by (auto simp: same_tree_def ends first_of_append)
  qed
qed

lemma remove_node_ok:
  assumes holds: "rb_list s (xs @ a # ys)"
  shows "\<exists>s'. rb_remove_node s a = Some s' \<and> vals s' = vals s \<and> dom (rb_mem s') = dom (rb_mem s) \<and> rb_list s' (xs @ ys)"
proof -
  from holds obtain t where t: "balanced s t" "inorder t = xs @ a # ys" by (auto simp: rb_list_def)
  from remove_ends_ok [OF holds] obtain s1 where s1: "remove_ends s a = Some s1" "same_tree s s1" "rb_count s1 = rb_count s"
    "first_node s1 = first_of (xs @ ys)" "last_node s1 = last_of (xs @ ys)" by blast
  note e1 = same_tree_eqs [OF s1(2)]
  from rb_erase_ok [of s1 t xs a ys] t e1(5) obtain s2 t' where s2: "rb_erase s1 a = Some s2" "balanced s2 t'"
    "inorder t' = xs @ ys" "keeps s1 s2" by blast
  define s3 where "s3 = s2\<lparr>rb_count := rb_count s2 - 1\<rparr>"
  have run: "rb_remove_node s a = Some s3" using s1(1) s2(1) by (simp add: remove_node_alt s3_def)
  have d: "vals s3 = vals s" "dom (rb_mem s3) = dom (rb_mem s)" "rb_count s3 = rb_count s - 1"
    using s2(4) e1 s1(3) by (simp_all add: s3_def keeps_def dom_links_mem)
  have c: "unat (rb_count s) = Suc (length (xs @ ys))" using holds by (simp_all add: rb_list_def)
  have "rb_count s \<noteq> 0" using c by auto
  then have "unat (rb_count s - 1) = length (xs @ ys)" using c by (simp add: unat_minus_one)
  moreover have "same_tree s2 s3" by (simp add: s3_def same_tree_def)
  then have "balanced s3 t'" using s2(2) same_tree_eqs(5) by blast
  ultimately have "rb_list s3 (xs @ ys)" using s2(3,4) s1(4,5) unfolding rb_list_def d by (auto simp: s3_def keeps_def)
  then show ?thesis using run d(1,2) by blast
qed

section \<open>Searches\<close>

lemma first_dropped:
  "\<not> P a \<Longrightarrow> (case dropWhile P (xs @ a # ys) of [] \<Rightarrow> c | b # _ \<Rightarrow> b) = (case dropWhile P xs of [] \<Rightarrow> a | b # _ \<Rightarrow> b)"
  by (induction xs) auto

lemma first_greater_ok:
  assumes "linked (links s) p t" "sorted (map (vals s) (inorder t))"
  shows "first_greater s key (root_of t) c =
    Some (case dropWhile (\<lambda>a. unat (vals s a) \<le> key) (inorder t) of [] \<Rightarrow> c | b # _ \<Rightarrow> b)"
  using assms
proof (induction t arbitrary: p c)
  case (Node l a r)
  have a: "a \<noteq> 0" "value_of s a = Some (vals s a)" "left_of s a = Some (root_of l)" "right_of s a = Some (root_of r)"
    using Node.prems(1) read_links [of s a p "root_of l" "root_of r"] by auto
  have so: "sorted (map (vals s) (inorder l))" "sorted (map (vals s) (inorder r))" "\<forall>b \<in> set_tree l. vals s b \<le> vals s a"
    using Node.prems(2) by (auto simp: sorted_append)
  show ?case
  proof (cases "key < unat (vals s a)")
    case True
    have "first_greater s key a c = first_greater s key (root_of l) a" using a True by (simp add: first_greater.simps [of s key a])
    moreover have "(case dropWhile (\<lambda>a. unat (vals s a) \<le> key) (inorder l @ a # inorder r) of [] \<Rightarrow> c | b # _ \<Rightarrow> b) =
        (case dropWhile (\<lambda>a. unat (vals s a) \<le> key) (inorder l) of [] \<Rightarrow> a | b # _ \<Rightarrow> b)"
      using True by (intro first_dropped) simp
    ultimately show ?thesis using Node.IH(1) [of a a] Node.prems(1) so(1) by simp
  next
    case False
    have "first_greater s key a c = first_greater s key (root_of r) c" using a False by (simp add: first_greater.simps [of s key a])
    moreover have "\<forall>b \<in> set_tree l. unat (vals s b) \<le> key" using so(3) False by (force simp: word_le_nat_alt)
    then have "dropWhile (\<lambda>a. unat (vals s a) \<le> key) (inorder l @ a # inorder r) = dropWhile (\<lambda>a. unat (vals s a) \<le> key) (inorder r)"
      using False by (subst dropWhile_append2) auto
    ultimately show ?thesis using Node.IH(2) [of a c] Node.prems(1) so(2) by simp
  qed
qed (simp add: first_greater.simps)

lemma search_from_ok:
  assumes "linked (links s) p t" "sorted (map (vals s) (inorder t))"
  shows "\<exists>b. search_from s key (root_of t) = Some b \<and>
    (if b = 0 then \<forall>a \<in> set_tree t. vals s a \<noteq> key else b \<in> set_tree t \<and> vals s b = key)"
  using assms
proof (induction t arbitrary: p)
  case (Node l a r)
  have a: "a \<noteq> 0" "value_of s a = Some (vals s a)" "left_of s a = Some (root_of l)" "right_of s a = Some (root_of r)"
    using Node.prems(1) read_links [of s a p "root_of l" "root_of r"] by auto
  have so: "sorted (map (vals s) (inorder l))" "sorted (map (vals s) (inorder r))" "\<forall>b \<in> set_tree l. vals s b \<le> vals s a"
    "\<forall>b \<in> set_tree r. vals s a \<le> vals s b"
    using Node.prems(2) by (auto simp: sorted_append)
  consider "key < vals s a" | "vals s a < key" | "key = vals s a" by (rule linorder_cases)
  then show ?case
  proof cases
    case 1
    then have "search_from s key a = search_from s key (root_of l)" using a by (simp add: search_from.simps [of s key a])
    moreover have "\<forall>b \<in> set_tree r. vals s b \<noteq> key" using so(4) 1 by auto
    moreover obtain b where "search_from s key (root_of l) = Some b"
      "if b = 0 then \<forall>a \<in> set_tree l. vals s a \<noteq> key else b \<in> set_tree l \<and> vals s b = key"
      using Node.IH(1) [of a] Node.prems(1) so(1) by auto
    ultimately show ?thesis using 1 by (intro exI [of _ b]) (cases "b = 0"; auto)
  next
    case 2
    then have "\<not> key < vals s a" by simp
    then have "search_from s key a = search_from s key (root_of r)" using a 2 by (simp add: search_from.simps [of s key a])
    moreover have "\<forall>b \<in> set_tree l. vals s b \<noteq> key" using so(3) 2 by auto
    moreover obtain b where "search_from s key (root_of r) = Some b"
      "if b = 0 then \<forall>a \<in> set_tree r. vals s a \<noteq> key else b \<in> set_tree r \<and> vals s b = key"
      using Node.IH(2) [of a] Node.prems(1) so(2) by auto
    ultimately show ?thesis using 2 by (intro exI [of _ b]) (cases "b = 0"; auto)
  next
    case 3
    then show ?thesis using a by (simp add: search_from.simps)
  qed
qed (simp add: search_from.simps)

lemma first_node_ok:
  assumes "rb_shape s t"
  shows "rb_first s = Some (first_of (inorder t))" "rb_last s = Some (last_of (inorder t))"
proof -
  have first: "\<exists>n. rb_first s = Some n \<and> n = first_of (inorder t) \<and> (rb_top s \<noteq> 0 \<longrightarrow> go_left s (rb_top s) = Some n)"
    if sh: "rb_shape s t" for s t
  proof (cases t)
    case Leaf
    then show ?thesis using sh by (simp add: rb_first_def rb_shape_def)
  next
    case (Node l a r)
    have sn: "rb_shape s (plug [] (Node l a r))" using sh by (simp add: Node)
    from go_left_ok [OF sn] obtain gs m x where g: "go_left s a = Some m" "Node l a r = plug gs (Node Leaf m x)" "before gs = []" by blast
    have "inorder t = m # inorder x @ behind gs" using g(3) by (simp add: Node g(2))
    moreover have "rb_top s = a" using sh by (simp add: rb_shape_def Node)
    ultimately show ?thesis using g(1) shape_node(1) [OF sn] by (simp add: rb_first_def)
  qed
  show "rb_first s = Some (first_of (inorder t))" using first [OF assms] by auto
  have "rb_shape (mirror_rb s) (mirror t)" using assms by (simp add: rb_shape_mirror)
  from first [OF this] go_mirror [of "mirror_rb s"] show "rb_last s = Some (last_of (inorder t))"
    by (auto simp: rb_last_def rb_first_def inorder_mirror)
qed

section \<open>Height\<close>

lemma rbt_bounds:
  assumes "rbt c h t"
  shows "2 ^ h \<le> size1 t" "height t \<le> 2 * h + (if blk c t then 0 else 1)"
proof -
  have "2 ^ h \<le> size1 t \<and> height t \<le> 2 * h + (if blk c t then 0 else 1)"
    using assms
  proof (induction t arbitrary: h)
    case (Node l a r)
    show ?case
    proof (cases "c a = RB_RED")
      case True
      then have "blk c l" "blk c r" "rbt c h l" "rbt c h r" using Node.prems by auto
      then show ?thesis using Node.IH(1) [of h] Node.IH(2) [of h] True by simp
    next
      case False
      with Node.prems obtain k where k: "h = Suc k" "rbt c k l" "rbt c k r" "c a = RB_BLACK" by (cases h) auto
      then show ?thesis using Node.IH(1) [OF k(2)] Node.IH(2) [OF k(3)] by (auto split: if_splits)
    qed
  qed simp
  then show "2 ^ h \<le> size1 t" "height t \<le> 2 * h + (if blk c t then 0 else 1)" by blast+
qed

lemma balanced_height: "balanced s t \<Longrightarrow> 2 ^ height t \<le> (size1 t)\<^sup>2"
proof -
  assume "balanced s t"
  then obtain h where h: "blk (colors s) t" "rbt (colors s) h t" by (auto simp: balanced_def)
  have "(2::nat) ^ height t \<le> 2 ^ (2 * h)" using rbt_bounds(2) [OF h(2)] h(1) by (intro power_increasing) auto
  also have "\<dots> = (2 ^ h)\<^sup>2" by (simp add: power_mult mult.commute power_even_eq)
  also have "\<dots> \<le> (size1 t)\<^sup>2" using rbt_bounds(1) [OF h(2)] by (intro power_mono) auto
  finally show ?thesis .
qed

section \<open>The index as an interface\<close>

text \<open>Writing the value of a node does not touch the tree.\<close>

lemma rb_list_cong:
  assumes "links s' = links s" "colors s' = colors s" "rb_top s' = rb_top s" "first_node s' = first_node s"
    "last_node s' = last_node s" "rb_count s' = rb_count s"
  shows "rb_list s' ns = rb_list s ns"
  using assms by (simp add: rb_list_def balanced_def rb_shape_def)

lemma set_value_ok:
  assumes "a \<noteq> 0" "a \<in> dom (rb_mem s)"
  shows "\<exists>s'. set_value s a v = Some s' \<and> vals s' = (vals s)(a := v) \<and> dom (rb_mem s') = dom (rb_mem s) \<and>
    (\<forall>ns. rb_list s' ns = rb_list s ns) \<and> last_node s' = last_node s"
proof -
  from assms(2) obtain n where n: "rb_mem s a = Some n" by auto
  let ?s = "s\<lparr>rb_mem := (rb_mem s)(a \<mapsto> n\<lparr>rb_value := v\<rparr>)\<rparr>"
  have "links ?s = links s" "colors ?s = colors s" using n by (auto simp: links_def colors_def fun_eq_iff)
  then have "\<forall>ns. rb_list ?s ns = rb_list s ns" by (intro allI rb_list_cong) simp_all
  moreover have "set_value s a v = Some ?s" using assms(1) n by (simp add: set_value_def rb_upd_def rb_at_def)
  moreover have "vals ?s = (vals s)(a := v)" "dom (rb_mem ?s) = dom (rb_mem s)" using n by (auto simp: vals_def fun_eq_iff)
  ultimately show ?thesis by (intro exI [of _ ?s]) simp
qed

lemma sorted_insertion:
  fixes f :: "addr \<Rightarrow> u32"
  assumes "sorted (map f xs)" "sorted (map f ys)" "\<forall>b \<in> set xs. f b \<le> f a" "\<forall>c \<in> set ys. f a \<le> f c"
  shows "sorted (map f (xs @ a # ys))"
proof -
  have "f b \<le> f c" if "b \<in> set xs" "c \<in> set ys" for b c using that assms(3,4) order_trans [of "f b" "f a" "f c"] by blast
  then show ?thesis using assms by (simp add: sorted_append)
qed

text \<open>What a client relies on: the nodes are held in a list, by their keys. The list is \<open>sorted\<close> as long
  as no key of a held node is rewritten; a node can be removed even then.\<close>

locale ordered_index =
  fixes holds :: "'s \<Rightarrow> addr list \<Rightarrow> bool"
    and key :: "'s \<Rightarrow> addr \<Rightarrow> u32"
    and known :: "'s \<Rightarrow> addr set"
    and put :: "'s \<Rightarrow> addr \<Rightarrow> 's option"
    and remove :: "'s \<Rightarrow> addr \<Rightarrow> 's option"
    and rekey :: "'s \<Rightarrow> addr \<Rightarrow> u32 \<Rightarrow> 's option"
    and greater :: "'s \<Rightarrow> nat \<Rightarrow> addr option"
    and biggest :: "'s \<Rightarrow> addr"
  assumes holds_nodes: "holds s ns \<Longrightarrow> distinct ns \<and> 0 \<notin> set ns \<and> set ns \<subseteq> known s"
    and put_law: "holds s ns \<Longrightarrow> sorted (map (key s) ns) \<Longrightarrow> a \<noteq> 0 \<Longrightarrow> a \<in> known s \<Longrightarrow> a \<notin> set ns \<Longrightarrow> Suc (length ns) < 2 ^ 32 \<Longrightarrow>
      \<exists>s'. put s a = Some s' \<and> key s' = key s \<and> known s' = known s \<and>
        holds s' (takeWhile (\<lambda>b. key s b \<le> key s a) ns @ a # dropWhile (\<lambda>b. key s b \<le> key s a) ns)"
    and remove_law: "holds s (xs @ a # ys) \<Longrightarrow>
      \<exists>s'. remove s a = Some s' \<and> key s' = key s \<and> known s' = known s \<and> holds s' (xs @ ys)"
    and rekey_law: "a \<noteq> 0 \<Longrightarrow> a \<in> known s \<Longrightarrow>
      \<exists>s'. rekey s a v = Some s' \<and> key s' = (key s)(a := v) \<and> known s' = known s \<and> (\<forall>ns. holds s' ns = holds s ns)"
    and greater_law: "holds s ns \<Longrightarrow> sorted (map (key s) ns) \<Longrightarrow>
      greater s k = Some (first_of (dropWhile (\<lambda>b. unat (key s b) \<le> k) ns))"
    and biggest_law: "holds s ns \<Longrightarrow> biggest s = last_of ns"
begin

definition indexed :: "'s \<Rightarrow> addr set \<Rightarrow> bool" where
  "indexed s A \<longleftrightarrow> (\<exists>ns. holds s ns \<and> sorted (map (key s) ns) \<and> set ns = A)"

lemma indexed_nodes: "indexed s A \<Longrightarrow> finite A \<and> 0 \<notin> A \<and> A \<subseteq> known s"
  using holds_nodes by (auto simp: indexed_def)

lemma put_indexed:
  assumes "indexed s A" "a \<noteq> 0" "a \<in> known s" "a \<notin> A" "Suc (card A) < 2 ^ 32"
  shows "\<exists>s'. put s a = Some s' \<and> key s' = key s \<and> known s' = known s \<and> indexed s' (insert a A)"
proof -
  from assms(1) obtain ns where ns: "holds s ns" "sorted (map (key s) ns)" "set ns = A" by (auto simp: indexed_def)
  have "length ns = card A" using holds_nodes [OF ns(1)] ns(3) distinct_card by metis
  with put_law [OF ns(1,2)] assms ns(3) obtain s' where s': "put s a = Some s'" "key s' = key s" "known s' = known s"
    "holds s' (takeWhile (\<lambda>b. key s b \<le> key s a) ns @ a # dropWhile (\<lambda>b. key s b \<le> key s a) ns)" by metis
  let ?xs = "takeWhile (\<lambda>b. key s b \<le> key s a) ns" and ?ys = "dropWhile (\<lambda>b. key s b \<le> key s a) ns"
  have so: "sorted (map (key s) ?xs)" "sorted (map (key s) ?ys)" "\<forall>b \<in> set ?xs. \<forall>c \<in> set ?ys. key s b \<le> key s c"
    using ns(2) sorted_append [of "map (key s) ?xs" "map (key s) ?ys"] by (simp_all flip: map_append)
  have lo: "\<forall>b \<in> set ?xs. key s b \<le> key s a" using set_takeWhileD by fast
  have hi: "\<forall>c \<in> set ?ys. key s a \<le> key s c"
  proof (cases ?ys)
    case (Cons d ds)
    then have "\<not> key s d \<le> key s a" using dropWhile_eq_Cons_conv by metis
    then show ?thesis using so(2) by (auto simp: Cons)
  next
    case Nil
    show ?thesis unfolding Nil by simp
  qed
  have "sorted (map (key s) (?xs @ a # ?ys))" by (rule sorted_insertion [OF so(1,2) lo hi])
  moreover have "set (?xs @ a # ?ys) = insert a A" using ns(3) set_append [of ?xs ?ys] by auto
  ultimately show ?thesis using s' unfolding indexed_def by metis
qed

lemma remove_held:
  assumes "holds s ns" "a \<in> set ns" "\<forall>b \<in> set ns - {a}. key s b = k b" "sorted (map k ns)"
  shows "\<exists>s'. remove s a = Some s' \<and> key s' = key s \<and> known s' = known s \<and> indexed s' (set ns - {a})"
proof -
  from assms(2) obtain xs ys where ns: "ns = xs @ a # ys" by (meson split_list)
  from remove_law assms(1) obtain s' where s': "remove s a = Some s'" "key s' = key s" "known s' = known s" "holds s' (xs @ ys)"
    unfolding ns by blast
  have d: "a \<notin> set xs" "a \<notin> set ys" using holds_nodes [OF assms(1)] by (auto simp: ns)
  have "map (key s) (xs @ ys) = map k (xs @ ys)" using assms(3) d by (auto simp: ns)
  moreover have "sorted (map k (xs @ ys))" using assms(4) by (auto simp: ns sorted_append)
  moreover have "set (xs @ ys) = set ns - {a}" using d by (auto simp: ns)
  ultimately show ?thesis using s' unfolding indexed_def by metis
qed

lemma remove_indexed:
  assumes "indexed s A" "a \<in> A"
  shows "\<exists>s'. remove s a = Some s' \<and> key s' = key s \<and> known s' = known s \<and> indexed s' (A - {a})"
proof -
  from assms(1) obtain ns where ns: "holds s ns" "sorted (map (key s) ns)" "set ns = A" by (auto simp: indexed_def)
  with remove_held [of s ns a "key s"] assms(2) show ?thesis by auto
qed

lemma rekey_remove_indexed:
  assumes "indexed s A" "a \<in> A"
  shows "\<exists>s1 s2. rekey s a v = Some s1 \<and> remove s1 a = Some s2 \<and> key s2 = (key s)(a := v) \<and> known s2 = known s \<and> indexed s2 (A - {a})"
proof -
  from assms(1) obtain ns where ns: "holds s ns" "sorted (map (key s) ns)" "set ns = A" by (auto simp: indexed_def)
  from rekey_law [of a s v] holds_nodes [OF ns(1)] assms(2) ns(3) obtain s1 where
    s1: "rekey s a v = Some s1" "key s1 = (key s)(a := v)" "known s1 = known s" "holds s1 ns" using ns(1) by (metis subset_iff)
  from remove_held [OF s1(4), of a "key s"] assms(2) ns(2,3) s1 show ?thesis by auto
qed

lemma rekey_indexed:
  assumes "indexed s A" "a \<notin> A" "a \<noteq> 0" "a \<in> known s"
  shows "\<exists>s'. rekey s a v = Some s' \<and> key s' = (key s)(a := v) \<and> known s' = known s \<and> indexed s' A"
proof -
  from assms(1) obtain ns where ns: "holds s ns" "sorted (map (key s) ns)" "set ns = A" by (auto simp: indexed_def)
  from rekey_law [OF assms(3,4), of v] obtain s1 where
    s1: "rekey s a v = Some s1" "key s1 = (key s)(a := v)" "known s1 = known s" "holds s1 ns" using ns(1) by blast
  have "map ((key s)(a := v)) ns = map (key s) ns" using ns(3) assms(2) by auto
  then show ?thesis using s1 ns(2,3) unfolding indexed_def by metis
qed

lemma greater_indexed:
  assumes "indexed s A"
  shows "\<exists>b. greater s k = Some b \<and> (if b = 0 then \<forall>a \<in> A. unat (key s a) \<le> k
    else b \<in> A \<and> k < unat (key s b) \<and> (\<forall>a \<in> A. k < unat (key s a) \<longrightarrow> key s b \<le> key s a))"
proof -
  from assms obtain ns where ns: "holds s ns" "sorted (map (key s) ns)" "set ns = A" by (auto simp: indexed_def)
  let ?P = "\<lambda>b. unat (key s b) \<le> k"
  have g: "greater s k = Some (first_of (dropWhile ?P ns))" using greater_law [OF ns(1,2)] .
  show ?thesis
  proof (cases "dropWhile ?P ns")
    case Nil
    then have "\<forall>a \<in> A. unat (key s a) \<le> k" using ns(3) by (simp add: dropWhile_eq_Nil_conv)
    moreover have "greater s k = Some 0" using g unfolding Nil by simp
    ultimately show ?thesis by simp
  next
    case (Cons b bs)
    have all: "ns = takeWhile ?P ns @ b # bs" using takeWhile_dropWhile_id [of ?P ns] by (simp add: Cons)
    have "\<not> ?P b" using Cons dropWhile_eq_Cons_conv by metis
    moreover have "b \<in> A" using all ns(3) by (metis in_set_conv_decomp)
    moreover have "b \<noteq> 0" using holds_nodes [OF ns(1)] ns(3) \<open>b \<in> A\<close> by metis
    moreover have "key s b \<le> key s a" if "a \<in> A" "k < unat (key s a)" for a
    proof -
      have "a \<notin> set (takeWhile ?P ns)" using that(2) set_takeWhileD [of a ?P ns] by auto
      then have "a \<in> insert b (set bs)" using that(1) ns(3) all by (metis Un_iff list.simps(15) set_append)
      moreover have "sorted (map (key s) (b # bs))" using ns(2) by (subst (asm) all) (simp add: sorted_append)
      ultimately show ?thesis by auto
    qed
    ultimately show ?thesis using g Cons by auto
  qed
qed

lemma biggest_indexed:
  assumes "indexed s A"
  shows "if A = {} then biggest s = 0 else biggest s \<in> A \<and> (\<forall>a \<in> A. key s a \<le> key s (biggest s))"
proof -
  from assms obtain ns where ns: "holds s ns" "sorted (map (key s) ns)" "set ns = A" by (auto simp: indexed_def)
  show ?thesis
  proof (cases "ns = []")
    case False
    then obtain xs b where xs: "ns = xs @ [b]" by (cases ns rule: rev_cases) auto
    then show ?thesis using ns biggest_law [OF ns(1)] by (auto simp: sorted_append)
  qed (use ns biggest_law [OF ns(1)] in auto)
qed

end

interpretation ri: ordered_index rb_list vals "\<lambda>s. dom (rb_mem s)" rb_insert_node rb_remove_node set_value rb_first_greater last_node
proof unfold_locales
  show "distinct ns \<and> 0 \<notin> set ns \<and> set ns \<subseteq> dom (rb_mem s)" if "rb_list s ns" for s ns
    using rb_list_nodes [OF that] by blast
  show "\<exists>s'. rb_insert_node s a = Some s' \<and> vals s' = vals s \<and> dom (rb_mem s') = dom (rb_mem s) \<and>
      rb_list s' (takeWhile (\<lambda>b. vals s b \<le> vals s a) ns @ a # dropWhile (\<lambda>b. vals s b \<le> vals s a) ns)"
    if "rb_list s ns" "sorted (map (vals s) ns)" "a \<noteq> 0" "a \<in> dom (rb_mem s)" "a \<notin> set ns" "Suc (length ns) < 2 ^ 32" for s ns a
    using insert_node_ok [of s ns a] that unfolding rb_holds_def by blast
  show "\<exists>s'. rb_remove_node s a = Some s' \<and> vals s' = vals s \<and> dom (rb_mem s') = dom (rb_mem s) \<and> rb_list s' (xs @ ys)"
    if "rb_list s (xs @ a # ys)" for s xs a ys using remove_node_ok [OF that] .
  show "\<exists>s'. set_value s a v = Some s' \<and> vals s' = (vals s)(a := v) \<and> dom (rb_mem s') = dom (rb_mem s) \<and> (\<forall>ns. rb_list s' ns = rb_list s ns)"
    if "a \<noteq> 0" "a \<in> dom (rb_mem s)" for a s v using set_value_ok [OF that] by blast
  show "rb_first_greater s k = Some (first_of (dropWhile (\<lambda>b. unat (vals s b) \<le> k) ns))"
    if "rb_list s ns" "sorted (map (vals s) ns)" for s ns k
  proof -
    from that(1) obtain t where "linked (links s) 0 t" "rb_top s = root_of t" "inorder t = ns" by (auto simp: rb_list_def balanced_def rb_shape_def)
    with first_greater_ok [of s 0 t k 0] that(2) show ?thesis by (simp add: rb_first_greater_def first_of_def)
  qed
  show "last_node s = last_of ns" if "rb_list s ns" for s ns using that by (simp add: rb_list_def)
qed

section \<open>Properties\<close>

text \<open>A store to evaluate on: three nodes in a tree, and one that is free.\<close>

definition example_node :: "addr \<Rightarrow> u8 \<Rightarrow> addr \<Rightarrow> addr \<Rightarrow> u32 \<Rightarrow> rb_node" where
  "example_node p c l r v = \<lparr>rb_parent = p, rb_owner = 0, rb_color = c, rb_right = r, rb_left = l, rb_value = v\<rparr>"

definition example_rb :: rb where
  "example_rb = \<lparr>rb_mem = [8 \<mapsto> example_node 16 RB_RED 0 0 10, 16 \<mapsto> example_node 0 RB_BLACK 8 24 20, 24 \<mapsto> example_node 16 RB_RED 0 0 30,
     32 \<mapsto> example_node 0 RB_RED 0 0 20], rb_top = 16, first_node = 8, last_node = 24, rb_count = 3\<rparr>"

lemma example_holds: "rb_holds example_rb [8, 16, 24]"
proof -
  let ?t = "Node (Node Leaf 8 Leaf) 16 (Node Leaf 24 Leaf) :: addr tree"
  have "rb_shape example_rb ?t" "blk (colors example_rb) ?t" "rbt (colors example_rb) 1 ?t" "inorder ?t = [8, 16, 24]"
    by (simp_all add: rb_shape_def example_rb_def example_node_def links_def colors_def)
  then have "\<exists>t. balanced example_rb t \<and> inorder t = [8, 16, 24]" unfolding balanced_def by blast
  then show ?thesis by (simp add: rb_holds_def rb_list_def) (simp add: example_rb_def example_node_def vals_def)
qed

lemma example_vals: "vals example_rb 8 = 10" "vals example_rb 16 = 20" "vals example_rb 24 = 30" "vals example_rb 32 = 20"
  by (simp_all add: example_rb_def example_node_def vals_def)

text \<open>C28. Inserting a node into a tree in the order of its values ends without a fault, gives a balanced tree in the
  order of its values again, and the new node comes after the nodes that are not greater and before the greater ones.\<close>
theorem rb_insert_places:
  assumes "rb_holds s ns" "new \<noteq> 0" "new \<in> dom (rb_mem s)" "new \<notin> set ns" "Suc (length ns) < 2 ^ 32"
  shows "\<exists>s'. rb_insert_node s new = Some s' \<and> vals s' = vals s \<and> dom (rb_mem s') = dom (rb_mem s) \<and>
    rb_holds s' (takeWhile (\<lambda>a. vals s a \<le> vals s new) ns @ new # dropWhile (\<lambda>a. vals s a \<le> vals s new) ns)"
  using insert_node_ok [OF assms] .

theorem rb_insert_places_witness:
  "\<exists>s'. rb_insert_node example_rb 32 = Some s' \<and> vals s' = vals example_rb \<and> dom (rb_mem s') = dom (rb_mem example_rb) \<and>
    rb_holds s' [8, 16, 32, 24]"
  using rb_insert_places [OF example_holds, of 32] by (simp add: example_rb_def example_node_def vals_def)

text \<open>C29. Removing a node ends without a fault and takes exactly this node out: the others stay in their order, in a
  balanced tree, and the first and the last node are right again.\<close>
theorem rb_remove_exact:
  assumes "rb_holds s (xs @ a # ys)"
  shows "\<exists>s'. rb_remove_node s a = Some s' \<and> vals s' = vals s \<and> dom (rb_mem s') = dom (rb_mem s) \<and> rb_holds s' (xs @ ys)"
proof -
  from remove_node_ok [OF rb_holds_list(1) [OF assms]] obtain s' where s': "rb_remove_node s a = Some s'" "vals s' = vals s"
    "dom (rb_mem s') = dom (rb_mem s)" "rb_list s' (xs @ ys)" by blast
  moreover have "sorted (map (vals s) (xs @ ys))" using rb_holds_list(2) [OF assms] by (auto simp: sorted_append)
  ultimately show ?thesis by (simp add: rb_holds_def)
qed

theorem rb_remove_exact_witness:
  "\<exists>s'. rb_remove_node example_rb 16 = Some s' \<and> vals s' = vals example_rb \<and> dom (rb_mem s') = dom (rb_mem example_rb) \<and>
    rb_holds s' [8, 24]"
  using rb_remove_exact [of example_rb "[8]" 16 "[24]"] example_holds by simp

text \<open>Walking the tree: the successor and the predecessor of a node are its neighbours in the list, with a null pointer
  at the ends, and the first and the last node are found from the root.\<close>
theorem rb_walk_neighbours:
  assumes "rb_holds s (xs @ a # ys)"
  shows "rb_next s a = Some (first_of ys) \<and> rb_prev s a = Some (last_of xs) \<and>
    rb_first s = Some (first_node s) \<and> rb_last s = Some (last_node s)"
proof -
  from assms obtain t where t: "rb_shape s t" "inorder t = xs @ a # ys" and "first_node s = first_of (xs @ a # ys)"
    "last_node s = last_of (xs @ a # ys)" by (auto simp: rb_holds_def rb_list_def balanced_def)
  then show ?thesis using neighbours [OF t] first_node_ok [OF t(1)] by simp
qed

theorem rb_walk_neighbours_witness:
  "rb_next example_rb 16 = Some 24 \<and> rb_prev example_rb 16 = Some 8 \<and>
    rb_first example_rb = Some (first_node example_rb) \<and> rb_last example_rb = Some (last_node example_rb)"
  using rb_walk_neighbours [of example_rb "[8]" 16 "[24]"] example_holds by simp

text \<open>C30. Searching: \<^verbatim>\<open>rb_first_greater\<close> finds the first node, in the order of the values, whose value is greater than the
  key, and \<^verbatim>\<open>search_node\<close> a node with the value of the key; a null pointer means that there is none.\<close>
theorem rb_search_exact:
  assumes "rb_holds s ns"
  shows "rb_first_greater s k = Some (first_of (filter (\<lambda>a. k < unat (vals s a)) ns)) \<and>
    (\<exists>b. search_node s v = Some b \<and> (if b = 0 then v \<notin> vals s ` set ns else b \<in> set ns \<and> vals s b = v))"
proof -
  from assms obtain t where t: "linked (links s) 0 t" "rb_top s = root_of t" "inorder t = ns" "sorted (map (vals s) ns)"
    by (auto simp: rb_holds_def rb_list_def balanced_def rb_shape_def)
  have "dropWhile (\<lambda>a. unat (vals s a) \<le> k) ns = filter (\<lambda>a. k < unat (vals s a)) ns"
    using t(4)
  proof (induction ns)
    case (Cons a ns)
    have "filter (\<lambda>a. k < unat (vals s a)) ns = ns" if "k < unat (vals s a)"
      using Cons.prems that by (intro filter_True) (force simp: word_le_nat_alt)
    then show ?case using Cons by auto
  qed simp
  then have "rb_first_greater s k = Some (first_of (filter (\<lambda>a. k < unat (vals s a)) ns))"
    using ri.greater_law [OF rb_holds_list [OF assms], of k] by simp
  moreover have "\<exists>b. search_node s v = Some b \<and> (if b = 0 then v \<notin> vals s ` set ns else b \<in> set ns \<and> vals s b = v)"
  proof -
    from search_from_ok [OF t(1), of v] t(3,4) obtain b where "search_from s v (root_of t) = Some b"
      "if b = 0 then \<forall>a \<in> set_tree t. vals s a \<noteq> v else b \<in> set_tree t \<and> vals s b = v" by auto
    moreover have "set_tree t = set ns" using t(3) by auto
    ultimately show ?thesis using t(2) by (intro exI [of _ b]) (auto simp: search_node_def split: if_splits)
  qed
  ultimately show ?thesis by blast
qed

theorem rb_search_exact_witness:
  "rb_first_greater example_rb 10 = Some 16 \<and>
    (\<exists>b. search_node example_rb 30 = Some b \<and>
      (if b = 0 then 30 \<notin> vals example_rb ` set [8, 16, 24] else b \<in> set [8, 16, 24] \<and> vals example_rb b = 30))"
proof -
  have "first_of (filter (\<lambda>a. 10 < unat (vals example_rb a)) [8, 16, 24]) = 16" by (simp add: example_vals)
  then show ?thesis using rb_search_exact [OF example_holds, of 10 30] by (simp only:)
qed

text \<open>The depth of the tree: with \<open>n\<close> nodes a search passes at most \<open>2 log\<^sub>2 (n + 1)\<close> of them.\<close>
theorem rb_height_logarithmic:
  assumes "rb_holds s ns"
  shows "\<exists>t. rb_shape s t \<and> inorder t = ns \<and> 2 ^ height t \<le> (length ns + 1)\<^sup>2"
proof -
  from assms obtain t where t: "balanced s t" "inorder t = ns" by (auto simp: rb_holds_def rb_list_def)
  have "length ns = size t" using t(2) by auto
  then show ?thesis using t balanced_height [OF t(1)] by (intro exI [of _ t]) (simp add: balanced_def size1_size)
qed

theorem rb_height_logarithmic_witness:
  "\<exists>t. rb_shape example_rb t \<and> inorder t = [8, 16, 24] \<and> 2 ^ height t \<le> (length [8, 16, 24 :: addr] + 1)\<^sup>2"
  by (rule rb_height_logarithmic [OF example_holds])

end
