(* ===== verification/Memalloc.thy ===== *)
theory Memalloc
  imports Rbtree_Props Link_List
begin

text \<open>
  The best-fit allocator of \<^verbatim>\<open>mg/source/memalloc.c\<close>. A header holds a link of the circular list of all
  blocks in the order of their addresses and a node of the red-black tree of the free blocks, whose
  value is the size of the block. The state keeps the links and the tree nodes in the stores of
  \<^verbatim>\<open>Link_List\<close> and \<^verbatim>\<open>Rbtree\<close>, at the addresses they have inside the header.

  The abstract view is the list of blocks that tile the arena. Allocation takes a smallest free block
  that is strictly greater than the request and splits it; release merges a block with its free
  neighbours.
\<close>

section \<open>State\<close>

definition MEM_CONFIG_HEAP :: nat where "MEM_CONFIG_HEAP = 10 * 1024"

text \<open>\<^verbatim>\<open>sizeof (struct heap_node)\<close>: two links, a tree node of 48 bytes and the flag, rounded up to a multiple of eight.\<close>

definition mem_struct_size :: nat where "mem_struct_size = ((16 + 48 + 1 + 7) div 8 * 8 + 7) div 8 * 8"
definition MEM_MIN_SIZE :: nat where "MEM_MIN_SIZE = mem_struct_size * 2"

text \<open>The offset of \<^verbatim>\<open>iter_node\<close> in a header, and \<^verbatim>\<open>container_of\<close>.\<close>

definition iter_node :: "addr \<Rightarrow> addr" where "iter_node a = a + 16"
definition node_of_iter :: "addr \<Rightarrow> addr" where "node_of_iter a = a - 16"

record mem_heap =
  cache_node :: addr
  all_heap :: addr
  mem_raw :: "addr \<Rightarrow> list_node \<times> rb_node \<times> u8"
  mh_links :: list_mem
  mem_tree :: rb
  mh_used :: "addr \<rightharpoonup> u8"
  all_size :: nat

text \<open>The static initializer.\<close>

definition mem_static :: "addr \<Rightarrow> addr \<Rightarrow> (addr \<Rightarrow> list_node \<times> rb_node \<times> u8) \<Rightarrow> mem_heap" where
  "mem_static cache arena raw = \<lparr>cache_node = cache, all_heap = arena, mem_raw = raw,
     mh_links = [cache \<mapsto> \<lparr>nxt = 0, prv = 0\<rparr>],
     mem_tree = \<lparr>rb_mem = Map.empty, rb_top = 0, first_node = 0, last_node = 0, rb_count = 0\<rparr>,
     mh_used = Map.empty, all_size = MEM_CONFIG_HEAP\<rparr>"

text \<open>A pointer into raw memory becomes a header: its fields hold what the bytes happen to be. Writing a header over
  another one is a fault. The header of a block that has been merged into its neighbour is raw memory again.\<close>

definition header_free :: "mem_heap \<Rightarrow> addr \<Rightarrow> bool" where
  "header_free s a \<longleftrightarrow> (\<forall>d < mem_struct_size. mh_used s (a + d) = None \<and> (d \<le> a \<longrightarrow> mh_used s (a - d) = None)) \<and>
     mh_links s a = None \<and> rb_mem (mem_tree s) (iter_node a) = None"

definition carve :: "mem_heap \<Rightarrow> addr \<Rightarrow> mem_heap option" where
  "carve s a = (if header_free s a
     then let (l, n, u) = mem_raw s a in Some (s\<lparr>mh_links := (mh_links s)(a \<mapsto> l),
       mem_tree := (mem_tree s)\<lparr>rb_mem := (rb_mem (mem_tree s))(iter_node a \<mapsto> n)\<rparr>, mh_used := (mh_used s)(a \<mapsto> u)\<rparr>)
     else None)"

definition absorb :: "mem_heap \<Rightarrow> addr \<Rightarrow> mem_heap" where
  "absorb s a = s\<lparr>mh_links := (mh_links s)(a := None),
     mem_tree := (mem_tree s)\<lparr>rb_mem := (rb_mem (mem_tree s))(iter_node a := None)\<rparr>, mh_used := (mh_used s)(a := None)\<rparr>"

definition set_used :: "mem_heap \<Rightarrow> addr \<Rightarrow> u8 \<Rightarrow> mem_heap option" where
  "set_used s a v = do { u \<leftarrow> mh_used s a; Some (s\<lparr>mh_used := (mh_used s)(a \<mapsto> v)\<rparr>) }"

definition on_tree :: "mem_heap \<Rightarrow> (rb \<Rightarrow> rb option) \<Rightarrow> mem_heap option" where
  "on_tree s f = do { t \<leftarrow> f (mem_tree s); Some (s\<lparr>mem_tree := t\<rparr>) }"

definition on_links :: "mem_heap \<Rightarrow> (list_mem \<Rightarrow> list_mem option) \<Rightarrow> mem_heap option" where
  "on_links s f = do { m \<leftarrow> f (mh_links s); Some (s\<lparr>mh_links := m\<rparr>) }"

definition size_of :: "mem_heap \<Rightarrow> addr \<Rightarrow> u32 option" where
  "size_of s a = value_of (mem_tree s) (iter_node a)"

definition set_size :: "mem_heap \<Rightarrow> addr \<Rightarrow> u32 \<Rightarrow> mem_heap option" where
  "set_size s a v = on_tree s (\<lambda>t. set_value t (iter_node a) v)"

section \<open>Operations\<close>

definition mem_init :: "mem_heap \<Rightarrow> mem_heap option" where
  "mem_init s = do {
     let s = s\<lparr>mem_tree := rb_root_init (mem_tree s)\<rparr>;
     s \<leftarrow> on_links s (\<lambda>m. list_node_init m (cache_node s));
     let start = all_heap s;
     let (start, s) = (if start mod 8 \<noteq> 0
       then let start = (start + 7) div 8 * 8 in (start, s\<lparr>all_size := sz_sub (all_size s) (start - all_heap s)\<rparr>)
       else (start, s));
     s \<leftarrow> carve s start;
     s \<leftarrow> on_links s (\<lambda>m. list_node_init m start);
     s \<leftarrow> on_links s (\<lambda>m. list_add_next m (cache_node s) start);
     s \<leftarrow> on_tree s (\<lambda>t. rb_node_init t (iter_node start));
     s \<leftarrow> set_size s start (of_nat (all_size s));
     s \<leftarrow> set_used s start 0;
     on_tree s (\<lambda>t. rb_insert_node t (iter_node start)) }"

text \<open>Adding the header and rounding up to a multiple of eight.\<close>

definition mem_round :: "nat \<Rightarrow> nat" where
  "mem_round want = (let want = sz_add want mem_struct_size in
     if want mod 8 \<noteq> 0 then sz_add want (8 - want mod 8) else want)"

text \<open>Taking the free block \<^verbatim>\<open>find\<close> out of the tree, and splitting it when the rest is large enough.\<close>

definition mem_split :: "mem_heap \<Rightarrow> addr \<Rightarrow> nat \<Rightarrow> nat \<Rightarrow> mem_heap option" where
  "mem_split s use_node block_size want = (if sz_sub block_size want > MEM_MIN_SIZE
     then do {
       let new_node = use_node + want;
       s \<leftarrow> carve s new_node;
       s \<leftarrow> set_used s new_node 0;
       s \<leftarrow> set_size s use_node (of_nat want);
       s \<leftarrow> on_links s (\<lambda>m. list_add_next m use_node new_node);
       s \<leftarrow> set_size s new_node (of_nat (sz_sub block_size want));
       on_tree s (\<lambda>t. rb_insert_node t (iter_node new_node)) }
     else Some s)"

definition mem_take :: "mem_heap \<Rightarrow> addr \<Rightarrow> nat \<Rightarrow> (addr \<times> mem_heap) option" where
  "mem_take s found want = do {
     v \<leftarrow> value_of (mem_tree s) found;
     s \<leftarrow> on_tree s (\<lambda>t. rb_remove_node t found);
     let use_node = node_of_iter found;
     s \<leftarrow> set_used s use_node 1;
     s \<leftarrow> mem_split s use_node (unat v) want;
     v \<leftarrow> size_of s use_node;
     Some (use_node + mem_struct_size, s\<lparr>all_size := sz_sub (all_size s) (unat v)\<rparr>) }"

definition mem_malloc :: "mem_heap \<Rightarrow> nat \<Rightarrow> (addr \<times> mem_heap) option" where
  "mem_malloc s want = (if want = 0 then Some (0, s) else do {
     let want = mem_round want;
     c \<leftarrow> mh_links s (cache_node s);
     s \<leftarrow> (if prv c = 0 then mem_init s else Some s);
     let found = last_node (mem_tree s);
     enough \<leftarrow> (if found = 0 then Some False else do { v \<leftarrow> value_of (mem_tree s) found; Some (want \<le> unat v) });
     if enough
     then do {
       found \<leftarrow> rb_first_greater (mem_tree s) want;
       if found = 0 then Some (0, s) else mem_take s found want }
     else Some (0, s) })"

definition mem_merge_next :: "mem_heap \<Rightarrow> addr \<Rightarrow> mem_heap option" where
  "mem_merge_next s node = do {
     l \<leftarrow> mh_links s node;
     let adj = nxt l;
     if adj \<noteq> cache_node s
     then do {
       u \<leftarrow> mh_used s adj;
       if u = 0
       then do {
         s \<leftarrow> on_links s (\<lambda>m. list_remove m adj);
         nv \<leftarrow> size_of s node;
         av \<leftarrow> size_of s adj;
         s \<leftarrow> set_size s node (nv + av);
         s \<leftarrow> on_tree s (\<lambda>t. rb_remove_node t (iter_node adj));
         Some (absorb s adj) }
       else Some s }
     else Some s }"

definition mem_merge_prev :: "mem_heap \<Rightarrow> addr \<Rightarrow> (addr \<times> mem_heap) option" where
  "mem_merge_prev s node = do {
     l \<leftarrow> mh_links s node;
     let adj = prv l;
     if adj \<noteq> cache_node s
     then do {
       u \<leftarrow> mh_used s adj;
       if u = 0
       then do {
         s \<leftarrow> on_links s (\<lambda>m. list_remove m node);
         av \<leftarrow> size_of s adj;
         nv \<leftarrow> size_of s node;
         s \<leftarrow> set_size s adj (av + nv);
         s \<leftarrow> on_tree s (\<lambda>t. rb_remove_node t (iter_node adj));
         Some (adj, absorb s node) }
       else Some (node, s) }
     else Some (node, s) }"

definition mem_free :: "mem_heap \<Rightarrow> addr \<Rightarrow> mem_heap option" where
  "mem_free s ptr = (if ptr = 0 then Some s else do {
     let node = sz_sub ptr mem_struct_size;
     s \<leftarrow> set_used s node 0;
     v \<leftarrow> size_of s node;
     let s = s\<lparr>all_size := sz_add (all_size s) (unat v)\<rparr>;
     s \<leftarrow> mem_merge_next s node;
     (ins, s) \<leftarrow> mem_merge_prev s node;
     on_tree s (\<lambda>t. rb_insert_node t (iter_node ins)) })"

end
