(* ===== verification/Memalloc_Props.thy ===== *)
theory Memalloc_Props
  imports Memalloc
begin

text \<open>
  The best-fit allocator against the list of its blocks. \<open>mem_core\<close> ties the links, the flags and the tree to
  a list of blocks and to the set of tree nodes; the tree enters only through the interface
  \<open>ordered_index\<close>. Every part of an operation is a lemma on \<open>mem_core\<close>.
\<close>

section \<open>Blocks\<close>

type_synonym mblock = "addr \<times> nat \<times> bool"

fun mtiles :: "addr \<Rightarrow> mblock list \<Rightarrow> addr \<Rightarrow> bool" where
  "mtiles a [] e \<longleftrightarrow> a = e"
| "mtiles a ((b, n, u) # bs) e \<longleftrightarrow> b = a \<and> 80 \<le> n \<and> 8 dvd b \<and> mtiles (a + n) bs e"

lemma mtiles_append: "mtiles a (xs @ ys) e \<longleftrightarrow> (\<exists>m. mtiles a xs m \<and> mtiles m ys e)"
  by (induction xs arbitrary: a) auto

lemma mtiles_bounds: "mtiles a bs e \<Longrightarrow> (b, n, u) \<in> set bs \<Longrightarrow> a \<le> b \<and> b + n \<le> e \<and> 80 \<le> n \<and> 8 dvd b"
proof (induction bs arbitrary: a)
  case (Cons x xs)
  obtain c m v where x: "x = (c, m, v)" by (cases x)
  have "a + m \<le> e" if "mtiles (a + m) xs e" using that
    by (induction xs arbitrary: a m) (auto, fastforce)
  then show ?case using Cons.IH [of "a + m"] Cons.prems by (auto simp: x)
qed simp

lemma mtiles_mid: "mtiles a (xs @ (b, n, u) # ys) e \<longleftrightarrow> mtiles a xs b \<and> 80 \<le> n \<and> 8 dvd b \<and> mtiles (b + n) ys e"
  by (auto simp: mtiles_append)

lemma mtiles_distinct: "mtiles a bs e \<Longrightarrow> distinct (map fst bs)"
proof (induction bs arbitrary: a)
  case (Cons x xs)
  obtain c m v where x: "x = (c, m, v)" by (cases x)
  have "c \<notin> fst ` set xs"
  proof
    assume "c \<in> fst ` set xs"
    then obtain k w where "(c, k, w) \<in> set xs" by force
    then show False using mtiles_bounds [of "a + m" xs e c k w] Cons.prems by (auto simp: x)
  qed
  then show ?case using Cons by (auto simp: x)
qed simp

definition free_iters :: "mblock list \<Rightarrow> addr set" where
  "free_iters bs = {iter_node a | a n. (a, n, False) \<in> set bs}"

definition free_bytes :: "mblock list \<Rightarrow> nat" where
  "free_bytes bs = (\<Sum>(a, n, u) \<leftarrow> bs. if u then 0 else n)"

lemma iter_node_eq [simp]: "iter_node a = iter_node b \<longleftrightarrow> a = b" "node_of_iter (iter_node a) = a" "iter_node a \<noteq> 0"
  by (simp_all add: iter_node_def node_of_iter_def)

lemma iter_node_mem: "iter_node a \<in> iter_node ` S \<longleftrightarrow> a \<in> S" "iter_node ` S - {iter_node a} = iter_node ` (S - {a})"
  by auto

lemma free_iters_simps [simp]:
  "free_iters [] = {}" "free_iters ((a, n, u) # bs) = (if u then free_iters bs else insert (iter_node a) (free_iters bs))"
  "free_iters (xs @ ys) = free_iters xs \<union> free_iters ys"
  by (auto simp: free_iters_def)

lemma free_bytes_simps [simp]:
  "free_bytes [] = 0" "free_bytes ((a, n, u) # bs) = (if u then 0 else n) + free_bytes bs"
  "free_bytes (xs @ ys) = free_bytes xs + free_bytes ys"
  by (simp_all add: free_bytes_def)

lemma free_iters_sub: "free_iters bs \<subseteq> iter_node ` fst ` set bs"
  by (force simp: free_iters_def)

lemma free_bytes_le: "mtiles a bs e \<Longrightarrow> a + free_bytes bs \<le> e"
proof (induction bs arbitrary: a)
  case (Cons x xs)
  obtain c m v where "x = (c, m, v)" by (cases x)
  then show ?case using Cons.IH [of "a + m"] Cons.prems by auto
qed simp

lemma mtiles_length: "mtiles a bs e \<Longrightarrow> a + 80 * length bs \<le> e"
proof (induction bs arbitrary: a)
  case (Cons x xs)
  obtain c m v where "x = (c, m, v)" by (cases x)
  then show ?case using Cons.IH [of "a + m"] Cons.prems by auto
qed simp

section \<open>Stores\<close>

lemma dlist_links:
  assumes "dlist m h (ys @ a # zs)"
  shows "\<exists>l. m a = Some l \<and> prv l = last (h # ys) \<and> nxt l = hd (zs @ [h])"
proof -
  obtain p q where 1: "p = last (h # ys)" "q = hd ((a # zs) @ [h])" "nx m p = Some q" "pv m q = Some p"
    using dlist_gap [OF assms] by metis
  have "dlist m h ((ys @ [a]) @ zs)" using assms by simp
  then obtain p' q' where 2: "p' = last (h # ys @ [a])" "q' = hd (zs @ [h])" "nx m p' = Some q'" "pv m q' = Some p'"
    using dlist_gap by metis
  have "nx m a = Some (hd (zs @ [h]))" "pv m a = Some (last (h # ys))" using 1 2 by simp_all
  then show ?thesis by (auto simp: nx_def pv_def)
qed

lemma indexed_mem:
  assumes ix: "ri.indexed t A" and m: "\<forall>a \<in> A. rb_mem t' a = rb_mem t a"
    and f: "rb_top t' = rb_top t" "first_node t' = first_node t" "last_node t' = last_node t" "rb_count t' = rb_count t"
  shows "ri.indexed t' A"
proof -
  from ix obtain ns where ns: "rb_list t ns" "sorted (map (vals t) ns)" "set ns = A" by (auto simp: ri.indexed_def)
  from ns(1) obtain r h where r: "linked (links t) 0 r" "rb_top t = root_of r" "distinct (inorder r)" "blk (colors t) r" "rbt (colors t) h r"
    "inorder r = ns" by (auto simp: rb_list_def balanced_def rb_shape_def)
  have s: "set_tree r = A" using r(6) ns(3) by auto
  have "\<forall>a \<in> set_tree r. links t' a = links t a" "\<forall>a \<in> set_tree r. colors t' a = colors t a" "\<forall>a \<in> A. vals t' a = vals t a"
    using m by (simp_all add: s links_def colors_def vals_def)
  then have "linked (links t') 0 r" "blk (colors t') r" "rbt (colors t') h r" "map (vals t') ns = map (vals t) ns"
    using r linked_cong blk_cong rbt_cong ns(3) by (metis, metis, metis, simp)
  note e = this
  have "\<exists>r. balanced t' r \<and> inorder r = ns" using e r f(1) by (auto simp: balanced_def rb_shape_def)
  then have "rb_list t' ns" using ns(1) f by (simp add: rb_list_def)
  moreover have "sorted (map (vals t') ns)" unfolding e(4) by (rule ns(2))
  ultimately show ?thesis using ns(3) by (auto simp: ri.indexed_def)
qed

section \<open>The representation\<close>

fun block_ok :: "mem_heap \<Rightarrow> mblock \<Rightarrow> bool" where
  "block_ok s (a, n, u) \<longleftrightarrow> vals (mem_tree s) (iter_node a) = of_nat n \<and> mh_used s a = Some (if u then 1 else 0)"

definition mem_start :: "mem_heap \<Rightarrow> addr" where
  "mem_start s = (all_heap s + 7) div 8 * 8"

text \<open>Where the allocator lives: the list head is no address of the arena.\<close>

definition placed :: "mem_heap \<Rightarrow> bool" where
  "placed s \<longleftrightarrow> 0 < all_heap s \<and> cache_node s \<noteq> 0 \<and> cache_node s \<notin> {all_heap s ..< all_heap s + MEM_CONFIG_HEAP} \<and>
     all_heap s + MEM_CONFIG_HEAP \<le> 2 ^ 64"

definition same_place :: "mem_heap \<Rightarrow> mem_heap \<Rightarrow> bool" where
  "same_place s s' \<longleftrightarrow> cache_node s' = cache_node s \<and> all_heap s' = all_heap s \<and> mem_raw s' = mem_raw s \<and> all_size s' = all_size s"

definition mem_core :: "mem_heap \<Rightarrow> mblock list \<Rightarrow> addr set \<Rightarrow> bool" where
  "mem_core s bs A \<longleftrightarrow> dlist (mh_links s) (cache_node s) (map fst bs) \<and>
     dom (mh_links s) = insert (cache_node s) (fst ` set bs) \<and> dom (mh_used s) = fst ` set bs \<and>
     dom (rb_mem (mem_tree s)) = iter_node ` fst ` set bs \<and> (\<forall>b \<in> set bs. block_ok s b) \<and>
     ri.indexed (mem_tree s) A \<and> A \<subseteq> iter_node ` fst ` set bs \<and> placed s \<and>
     (\<exists>e. mtiles (mem_start s) bs e \<and> e \<le> all_heap s + MEM_CONFIG_HEAP)"

definition mem_rep :: "mem_heap \<Rightarrow> mblock list \<Rightarrow> bool" where
  "mem_rep s bs \<longleftrightarrow> mem_core s bs (free_iters bs) \<and> all_size s = free_bytes bs"

lemma same_place_refl [simp]: "same_place s s"
  by (simp add: same_place_def)

lemma mem_coreI:
  assumes "dlist (mh_links s) (cache_node s) (map fst bs)" "dom (mh_links s) = insert (cache_node s) (fst ` set bs)"
    "dom (mh_used s) = fst ` set bs" "dom (rb_mem (mem_tree s)) = iter_node ` fst ` set bs" "\<And>b. b \<in> set bs \<Longrightarrow> block_ok s b"
    "ri.indexed (mem_tree s) A" "A \<subseteq> iter_node ` fst ` set bs" "placed s" "mtiles (mem_start s) bs e" "e \<le> all_heap s + MEM_CONFIG_HEAP"
  shows "mem_core s bs A"
  unfolding mem_core_def by (intro conjI ballI exI [of _ e] assms)

lemma core_blocks:
  assumes "mem_core s bs A" "(a, n, u) \<in> set bs"
  shows "80 \<le> n" "n \<le> MEM_CONFIG_HEAP" "8 dvd a" "mem_start s \<le> a" "a + n \<le> all_heap s + MEM_CONFIG_HEAP" "a \<noteq> cache_node s"
    "unat (vals (mem_tree s) (iter_node a)) = n" "size_of s a = Some (of_nat n)" "mh_used s a = Some (if u then 1 else 0)"
    "iter_node a \<in> dom (rb_mem (mem_tree s))" "a \<noteq> 0" "all_heap s \<le> a"
proof -
  from assms(1) obtain e where e: "mtiles (mem_start s) bs e" "e \<le> all_heap s + MEM_CONFIG_HEAP" and p: "placed s"
    and ok: "\<forall>b \<in> set bs. block_ok s b" and d: "dom (rb_mem (mem_tree s)) = iter_node ` fst ` set bs" by (auto simp: mem_core_def)
  have st: "all_heap s \<le> mem_start s" by (simp add: mem_start_def)
  from mtiles_bounds [OF e(1) assms(2)] show b: "80 \<le> n" "8 dvd a" "mem_start s \<le> a" "a + n \<le> all_heap s + MEM_CONFIG_HEAP"
    using e(2) by auto
  show n: "n \<le> MEM_CONFIG_HEAP" "all_heap s \<le> a" using b st by linarith+
  show "a \<noteq> 0" using n(2) p by (auto simp: placed_def)
  show "a \<noteq> cache_node s" using p b(1,4) n(2) by (auto simp: placed_def)
  show v: "unat (vals (mem_tree s) (iter_node a)) = n" and "mh_used s a = Some (if u then 1 else 0)"
    using ok assms(2) n(1) by (auto simp: unat_of_nat MEM_CONFIG_HEAP_def)
  show i: "iter_node a \<in> dom (rb_mem (mem_tree s))" unfolding d using assms(2) by force
  show "size_of s a = Some (of_nat n)" unfolding size_of_def using value_of_mem [OF iter_node_eq(3) i] ok assms(2) by auto
qed

lemma core_distinct: "mem_core s bs A \<Longrightarrow> distinct (map fst bs)"
  using mtiles_distinct by (auto simp: mem_core_def)

section \<open>Steps\<close>

lemma core_tree:
  assumes core: "mem_core s bs A" and t: "vals t = vals (mem_tree s)" "dom (rb_mem t) = dom (rb_mem (mem_tree s))" "ri.indexed t B"
    and B: "B \<subseteq> iter_node ` fst ` set bs"
  shows "mem_core (s\<lparr>mem_tree := t\<rparr>) bs B"
proof -
  have "block_ok (s\<lparr>mem_tree := t\<rparr>) b = block_ok s b" for b by (cases b) (simp add: t(1))
  then show ?thesis using assms by (simp add: mem_core_def placed_def mem_start_def)
qed

lemma core_remove:
  assumes "mem_core s bs A" "f \<in> A"
  shows "\<exists>s'. on_tree s (\<lambda>t. rb_remove_node t f) = Some s' \<and> mem_core s' bs (A - {f}) \<and> same_place s s'"
proof -
  have ix: "ri.indexed (mem_tree s) A" "A \<subseteq> iter_node ` fst ` set bs" using assms(1) by (simp_all add: mem_core_def)
  from ri.remove_indexed [OF ix(1) assms(2)] obtain t where t: "rb_remove_node (mem_tree s) f = Some t" "vals t = vals (mem_tree s)"
    "dom (rb_mem t) = dom (rb_mem (mem_tree s))" "ri.indexed t (A - {f})" by blast
  have "mem_core (s\<lparr>mem_tree := t\<rparr>) bs (A - {f})" by (rule core_tree [OF assms(1) t(2-4)]) (use ix(2) in blast)
  then show ?thesis using t(1) by (simp add: on_tree_def same_place_def)
qed

lemma core_insert:
  assumes "mem_core s bs A" "a \<in> fst ` set bs" "iter_node a \<notin> A"
  shows "\<exists>s'. on_tree s (\<lambda>t. rb_insert_node t (iter_node a)) = Some s' \<and> mem_core s' bs (insert (iter_node a) A) \<and> same_place s s'"
proof -
  have ix: "ri.indexed (mem_tree s) A" "A \<subseteq> iter_node ` fst ` set bs" "dom (rb_mem (mem_tree s)) = iter_node ` fst ` set bs"
    using assms(1) by (simp_all add: mem_core_def)
  from assms(1) obtain e where e: "mtiles (mem_start s) bs e" "e \<le> all_heap s + MEM_CONFIG_HEAP" by (auto simp: mem_core_def)
  have "card A \<le> card (set bs)" using ix(2) by (intro order_trans [OF card_mono [OF _ ix(2)]]) (simp_all add: image_image card_image_le)
  also have "\<dots> \<le> length bs" by (rule card_length)
  also have "80 * length bs \<le> MEM_CONFIG_HEAP" using mtiles_length [OF e(1)] e(2) div_times_less_eq_dividend [of "all_heap s + 7" 8]
    by (simp add: mem_start_def)
  finally have "Suc (card A) < 2 ^ 32" by (simp add: MEM_CONFIG_HEAP_def)
  from ri.put_indexed [OF ix(1) _ _ assms(3) this] assms(2) ix(3) obtain t where t: "rb_insert_node (mem_tree s) (iter_node a) = Some t"
    "vals t = vals (mem_tree s)" "dom (rb_mem t) = dom (rb_mem (mem_tree s))" "ri.indexed t (insert (iter_node a) A)" by auto
  have "mem_core (s\<lparr>mem_tree := t\<rparr>) bs (insert (iter_node a) A)"
    by (rule core_tree [OF assms(1) t(2-4)]) (use ix(2) assms(2) in blast)
  then show ?thesis using t(1) by (simp add: on_tree_def same_place_def)
qed

lemma core_used:
  assumes core: "mem_core s (xs @ (a, n, u) # ys) A"
  shows "\<exists>s'. set_used s a (if v then 1 else 0) = Some s' \<and> mem_core s' (xs @ (a, n, v) # ys) A \<and> same_place s s'"
proof -
  let ?s = "s\<lparr>mh_used := (mh_used s)(a \<mapsto> if v then 1 else 0)\<rparr>"
  have d: "a \<notin> fst ` set xs" "a \<notin> fst ` set ys" using core_distinct [OF core] by auto
  have o: "block_ok ?s b = block_ok s b" if "fst b \<noteq> a" for b using that by (cases b) auto
  have "\<forall>b \<in> set xs \<union> set ys. block_ok ?s b"
  proof
    fix b assume b: "b \<in> set xs \<union> set ys"
    then have "fst b \<noteq> a" using d by force
    then show "block_ok ?s b" using o b core by (auto simp: mem_core_def)
  qed
  moreover have "block_ok ?s (a, n, v)" using core by (simp add: mem_core_def)
  moreover have "mtiles c (xs @ (a, n, v) # ys) e = mtiles c (xs @ (a, n, u) # ys) e" for c e by (simp add: mtiles_mid)
  moreover have "mh_used s a \<noteq> None" using core by (simp add: mem_core_def)
  ultimately show ?thesis using core
    by (intro exI [of _ ?s]) (auto simp: set_used_def mem_core_def placed_def mem_start_def same_place_def)
qed

section \<open>Splitting\<close>

lemma mem_sizes [simp]: "mem_struct_size = 72" "MEM_MIN_SIZE = 144"
  by (simp_all add: mem_struct_size_def MEM_MIN_SIZE_def)

lemma core_gap:
  assumes core: "mem_core s (xs @ (a, n, u) # ys) A" and w: "80 \<le> w" "w + 80 \<le> n"
  shows "header_free s (a + w)" "a + w \<noteq> cache_node s"
proof -
  let ?bs = "xs @ (a, n, u) # ys"
  from core obtain e where e: "mtiles (mem_start s) xs a" "mtiles (a + n) ys e" by (auto simp: mem_core_def mtiles_mid)
  have far: "b + 80 \<le> a + w \<or> a + w + 80 \<le> b" if "b \<in> fst ` set ?bs" for b
  proof -
    from that obtain m v where b: "(b, m, v) \<in> set ?bs" by force
    then consider "(b, m, v) \<in> set xs" | "b = a" | "(b, m, v) \<in> set ys" by auto
    then show ?thesis
    proof cases
      case 1
      with mtiles_bounds [OF e(1)] have "b + m \<le> a" "80 \<le> m" by blast+
      then show ?thesis using w by linarith
    next
      case 3
      with mtiles_bounds [OF e(2)] have "a + n \<le> b" by blast
      then show ?thesis using w by linarith
    qed (use w in linarith)
  qed
  have dom: "dom (mh_used s) = fst ` set ?bs" "dom (mh_links s) = insert (cache_node s) (fst ` set ?bs)"
    "dom (rb_mem (mem_tree s)) = iter_node ` fst ` set ?bs" using core by (simp_all add: mem_core_def)
  have "(a, n, u) \<in> set ?bs" by simp
  note ca = core_blocks [OF core this]
  show c: "a + w \<noteq> cache_node s" using ca(5,12) w core by (auto simp: mem_core_def placed_def)
  have "mh_used s (a + w + d) = None \<and> (d \<le> a + w \<longrightarrow> mh_used s (a + w - d) = None)" if "d < 72" for d
  proof (intro conjI impI)
    have "a + w + d \<notin> fst ` set ?bs" using far [of "a + w + d"] that by force
    then show "mh_used s (a + w + d) = None" using dom(1) by blast
    assume "d \<le> a + w"
    then have "a + w - d \<notin> fst ` set ?bs" using far [of "a + w - d"] that by force
    then show "mh_used s (a + w - d) = None" using dom(1) by blast
  qed
  moreover have n: "a + w \<notin> fst ` set ?bs" using far [of "a + w"] by force
  then have "mh_links s (a + w) = None" using c dom(2) by blast
  moreover have "iter_node (a + w) \<notin> iter_node ` fst ` set ?bs" using n by (simp only: iter_node_mem not_False_eq_True)
  then have "rb_mem (mem_tree s) (iter_node (a + w)) = None" using dom(3) by blast
  ultimately show "header_free s (a + w)" by (simp add: header_free_def)
qed

lemma core_split:
  assumes core: "mem_core s (xs @ (a, n, u) # ys) A" and w: "80 \<le> w" "144 < n - w" "8 dvd w" and a: "iter_node a \<notin> A"
  shows "\<exists>s'. mem_split s a n w = Some s' \<and> same_place s s' \<and>
    mem_core s' (xs @ (a, w, u) # (a + w, n - w, False) # ys) (insert (iter_node (a + w)) A)"
proof -
  let ?bs = "xs @ (a, n, u) # ys" and ?cs = "xs @ (a, w, u) # (a + w, n - w, False) # ys" and ?b = "a + w"
  have w80: "w + 80 \<le> n" using w(2) by simp
  note gap = core_gap [OF core w(1) w80]
  have mem: "(a, n, u) \<in> set ?bs" by simp
  note ca = core_blocks [OF core mem]
  have sub: "sz_sub n w = n - w" using ca(2) w(2) by (intro sz_sub_exact) (auto simp: MEM_CONFIG_HEAP_def)
  obtain l rn uu where raw: "mem_raw s ?b = (l, rn, uu)" by (cases "mem_raw s ?b")
  define t1 where "t1 = (mem_tree s)\<lparr>rb_mem := (rb_mem (mem_tree s))(iter_node ?b \<mapsto> rn)\<rparr>"
  define m1 where "m1 = (mh_links s)(?b \<mapsto> l)"
  define u1 where "u1 = (mh_used s)(?b \<mapsto> (0 :: u8))"
  have dom: "dom (mh_used s) = fst ` set ?bs" "dom (mh_links s) = insert (cache_node s) (fst ` set ?bs)"
    "dom (rb_mem (mem_tree s)) = iter_node ` fst ` set ?bs" and ix: "ri.indexed (mem_tree s) A" and sub_A: "A \<subseteq> iter_node ` fst ` set ?bs"
    and dl: "dlist (mh_links s) (cache_node s) (map fst ?bs)" and ok: "\<forall>b \<in> set ?bs. block_ok s b"
    using core by (simp_all add: mem_core_def)
  note hf = gap(1) [unfolded header_free_def mem_sizes]
  have "mh_links s ?b = None" by (rule conjunct1 [OF conjunct2 [OF hf]])
  moreover have "rb_mem (mem_tree s) (iter_node ?b) = None" by (rule conjunct2 [OF conjunct2 [OF hf]])
  moreover have "mh_used s (?b + 0) = None" by (rule conjunct1 [OF mp [OF spec [OF conjunct1 [OF hf], of 0]]]) simp
  then have "mh_used s ?b = None" unfolding add_0_right .
  ultimately have fr: "mh_links s ?b = None" "mh_used s ?b = None" "rb_mem (mem_tree s) (iter_node ?b) = None" by simp_all
  have new: "?b \<notin> fst ` set ?bs" using fr(2) unfolding dom(1) [symmetric] by (simp only: domIff not_False_eq_True simp_thms)
  have newA: "iter_node ?b \<notin> A"
  proof
    assume "iter_node ?b \<in> A"
    then have "iter_node ?b \<in> dom (rb_mem (mem_tree s))" using sub_A unfolding dom(3) by (rule rev_subsetD)
    then show False using fr(3) by (simp only: domIff simp_thms)
  qed
  have c1: "carve s ?b = Some (s\<lparr>mh_links := m1, mem_tree := t1, mh_used := (mh_used s)(?b \<mapsto> uu)\<rparr>)"
    using gap(1) by (simp add: carve_def raw m1_def t1_def)
  have c2: "set_used (s\<lparr>mh_links := m1, mem_tree := t1, mh_used := (mh_used s)(?b \<mapsto> uu)\<rparr>) ?b 0 =
      Some (s\<lparr>mh_links := m1, mem_tree := t1, mh_used := u1\<rparr>)" by (simp add: set_used_def u1_def)
  have ix1: "ri.indexed t1 A" by (rule indexed_mem [OF ix]) (use newA in \<open>auto simp: t1_def\<close>)
  have v1: "vals t1 z = vals (mem_tree s) z" if "z \<noteq> iter_node ?b" for z using that by (simp add: t1_def vals_def)
  have d1: "dom (rb_mem t1) = insert (iter_node ?b) (iter_node ` fst ` set ?bs)" using dom(3) by (simp add: t1_def)
  have "iter_node a \<in> dom (rb_mem t1)" unfolding d1 by simp
  from ri.rekey_indexed [OF ix1 a iter_node_eq(3) this, of "of_nat w"] obtain t2 where t2: "set_value t1 (iter_node a) (of_nat w) = Some t2"
    "vals t2 = (vals t1)(iter_node a := of_nat w)" "dom (rb_mem t2) = dom (rb_mem t1)" "ri.indexed t2 A" by blast
  have c3: "set_size (s\<lparr>mh_links := m1, mem_tree := t1, mh_used := u1\<rparr>) a (of_nat w) = Some (s\<lparr>mh_links := m1, mem_tree := t2, mh_used := u1\<rparr>)"
    using t2(1) by (simp add: set_size_def on_tree_def)
  have "\<forall>z \<in> set (cache_node s # map fst ?bs). m1 z = mh_links s z"
  proof
    fix z assume "z \<in> set (cache_node s # map fst ?bs)"
    then have "z \<noteq> ?b" using new gap(2) by auto
    then show "m1 z = mh_links s z" by (simp add: m1_def)
  qed
  from dlist_cong [OF this] dl have dl1: "dlist m1 (cache_node s) ((map fst xs @ [a]) @ map fst ys)" by simp
  have "set (cache_node s # (map fst xs @ [a]) @ map fst ys) = insert (cache_node s) (fst ` set ?bs)" by auto
  then have nd: "?b \<in> dom m1" "?b \<notin> set (cache_node s # (map fst xs @ [a]) @ map fst ys)"
    using new gap(2) by (simp add: m1_def, simp only: insert_iff simp_thms)
  from dlist_add_next [OF dl1 nd] obtain m2 where m2: "list_add_next m1 a ?b = Some m2"
    "dlist m2 (cache_node s) ((map fst xs @ [a]) @ ?b # map fst ys)" "dom m2 = dom m1" by (metis last_ConsR last_snoc snoc_eq_iff_butlast)
  have c4: "on_links (s\<lparr>mh_links := m1, mem_tree := t2, mh_used := u1\<rparr>) (\<lambda>m. list_add_next m a ?b) = Some (s\<lparr>mh_links := m2, mem_tree := t2, mh_used := u1\<rparr>)"
    using m2(1) by (simp add: on_links_def)
  have "iter_node ?b \<in> dom (rb_mem t2)" unfolding t2(3) d1 by simp
  from ri.rekey_indexed [OF t2(4) newA iter_node_eq(3) this, of "of_nat (n - w)"] obtain t3 where
    t3: "set_value t2 (iter_node ?b) (of_nat (n - w)) = Some t3" "vals t3 = (vals t2)(iter_node ?b := of_nat (n - w))"
    "dom (rb_mem t3) = dom (rb_mem t2)" "ri.indexed t3 A" by blast
  define s5 where "s5 = s\<lparr>mh_links := m2, mem_tree := t3, mh_used := u1\<rparr>"
  have c5: "set_size (s\<lparr>mh_links := m2, mem_tree := t2, mh_used := u1\<rparr>) ?b (of_nat (n - w)) = Some s5"
    using t3(1) by (simp add: set_size_def on_tree_def s5_def)
  have v3: "vals t3 (iter_node z) = (if z = ?b then of_nat (n - w) else if z = a then of_nat w else vals (mem_tree s) (iter_node z))" for z
    using v1 [of "iter_node z"] by (simp add: t3(2) t2(2))
  have blk: "block_ok s5 b" if b: "b \<in> set ?cs" for b
  proof -
    have da: "a \<notin> fst ` set xs" "a \<notin> fst ` set ys" using core_distinct [OF core] by auto
    consider "b = (a, w, u)" | "b = (?b, n - w, False)" | "b \<in> set xs \<union> set ys" using b by auto
    then show ?thesis
    proof cases
      case 1
      then show ?thesis using ca(9) w(1) v3 [of a] by (simp add: s5_def u1_def)
    next
      case 2
      then show ?thesis using v3 [of ?b] by (simp add: s5_def u1_def)
    next
      case 3
      then have "fst b \<noteq> ?b" "fst b \<noteq> a" using new da by force+
      moreover have "block_ok s b" using ok 3 by auto
      ultimately show ?thesis using v3 [of "fst b"] by (cases b) (simp add: s5_def u1_def)
    qed
  qed
  have tl: "mtiles (mem_start s) ?cs e" if "mtiles (mem_start s) ?bs e" for e
  proof -
    have "8 dvd a" using that by (simp add: mtiles_mid)
    then show ?thesis using that w w80 by (auto simp: mtiles_mid)
  qed
  have dlk: "dlist m2 (cache_node s) (map fst ?cs)" using m2(2) by simp
  have "fst ` set ?cs = insert ?b (fst ` set ?bs)" by auto
  note S = this
  have dm: "dom m2 = insert (cache_node s) (fst ` set ?cs)"
    unfolding S m2(3) m1_def dom_fun_upd dom(2) by (simp only: option.distinct if_False insert_commute)
  have du: "dom u1 = fst ` set ?cs" unfolding S u1_def dom_fun_upd dom(1) by (simp only: option.distinct if_False)
  have dt: "dom (rb_mem t3) = iter_node ` fst ` set ?cs" unfolding S t3(3) t2(3) d1 image_insert ..
  have AA: "A \<subseteq> iter_node ` fst ` set ?cs" unfolding S image_insert using sub_A by (rule subset_insertI2)
  from core obtain e where e: "mtiles (mem_start s) ?bs e" "e \<le> all_heap s + MEM_CONFIG_HEAP" and p: "placed s"
    by (auto simp: mem_core_def)
  have f: "mh_links s5 = m2" "mh_used s5 = u1" "mem_tree s5 = t3" "cache_node s5 = cache_node s" "all_heap s5 = all_heap s"
    "mem_start s5 = mem_start s" "placed s5" using p by (simp_all add: s5_def mem_start_def placed_def)
  have "mem_core s5 ?cs A"
    by (rule mem_coreI [OF _ _ _ _ blk _ _ f(7) _ ]) (use dlk t3(4) dm du dt AA tl [OF e(1)] e(2) in \<open>simp_all only: f\<close>)
  from core_insert [OF this _ newA] obtain s6 where s6: "on_tree s5 (\<lambda>t. rb_insert_node t (iter_node ?b)) = Some s6"
    "mem_core s6 ?cs (insert (iter_node ?b) A)" "same_place s5 s6" by auto
  have "mem_split s a n w = Some s6" using w(2) c1 c2 c3 c4 c5 s6(1) by (simp add: mem_split_def sub)
  then show ?thesis using s6(2,3) by (auto simp: s5_def same_place_def)
qed

section \<open>Merging\<close>

lemma core_merge:
  assumes core: "mem_core s (xs @ (a, n, u) # (b, k, v) # ys) A"
    and t: "vals t = (vals (mem_tree s))(iter_node a := of_nat (n + k))" "dom (rb_mem t) = dom (rb_mem (mem_tree s))"
      "ri.indexed t B" "B \<subseteq> A - {iter_node b}"
  shows "\<exists>m. list_remove (mh_links s) b = Some m \<and> mem_core (absorb (s\<lparr>mh_links := m, mem_tree := t\<rparr>) b) (xs @ (a, n + k, u) # ys) B"
proof -
  let ?bs = "xs @ (a, n, u) # (b, k, v) # ys" and ?cs = "xs @ (a, n + k, u) # ys"
  have dom: "dom (mh_used s) = fst ` set ?bs" "dom (mh_links s) = insert (cache_node s) (fst ` set ?bs)"
    "dom (rb_mem (mem_tree s)) = iter_node ` fst ` set ?bs" and sub_A: "A \<subseteq> iter_node ` fst ` set ?bs"
    and dl: "dlist (mh_links s) (cache_node s) (map fst ?bs)" and ok: "\<forall>b \<in> set ?bs. block_ok s b"
    using core by (simp_all add: mem_core_def)
  have dist: "b \<noteq> a" "b \<notin> fst ` set xs" "b \<notin> fst ` set ys" "a \<notin> fst ` set xs" "a \<notin> fst ` set ys"
    using core_distinct [OF core] by auto
  have bc: "b \<noteq> cache_node s" using core_blocks(6) [OF core, of b k v] by simp
  have "dlist (mh_links s) (cache_node s) ((map fst xs @ [a]) @ b # map fst ys)" using dl by simp
  from dlist_remove [OF this] obtain m where m: "list_remove (mh_links s) b = Some m"
    "dlist m (cache_node s) ((map fst xs @ [a]) @ map fst ys)" "dom m = dom (mh_links s)" by metis
  define s' where "s' = absorb (s\<lparr>mh_links := m, mem_tree := t\<rparr>) b"
  have f: "mh_links s' = m(b := None)" "mh_used s' = (mh_used s)(b := None)" "cache_node s' = cache_node s" "all_heap s' = all_heap s"
    "mem_tree s' = t\<lparr>rb_mem := (rb_mem t)(iter_node b := None)\<rparr>"
    by (simp_all add: s'_def absorb_def)
  have "b \<notin> set (cache_node s # map fst ?cs)" using dist bc by auto
  then have "\<forall>z \<in> set (cache_node s # map fst ?cs). mh_links s' z = m z" by (auto simp: f(1))
  from dlist_cong [OF this] m(2) have 1: "dlist (mh_links s') (cache_node s) (map fst ?cs)" by simp
  have 2: "dom (mh_links s') = insert (cache_node s) (fst ` set ?cs)" using m(3) dom(2) dist bc by (auto simp: f(1))
  have 3: "dom (mh_used s') = fst ` set ?cs" using dom(1) dist by (auto simp: f(2))
  have 4: "dom (rb_mem (mem_tree s')) = iter_node ` fst ` set ?cs"
  proof -
    have "dom (rb_mem (mem_tree s')) = iter_node ` fst ` set ?bs - {iter_node b}" using t(2) dom(3) by (simp add: f(5))
    also have "\<dots> = iter_node ` (fst ` set ?bs - {b})" by (rule iter_node_mem(2))
    also have "fst ` set ?bs - {b} = fst ` set ?cs" using dist by auto
    finally show ?thesis .
  qed
  have vs: "vals (mem_tree s') (iter_node z) = (if z = a then of_nat (n + k) else vals (mem_tree s) (iter_node z))" if "z \<noteq> b" for z
  proof -
    have "vals (mem_tree s') (iter_node z) = vals t (iter_node z)" using that by (simp add: f(5) vals_def)
    then show ?thesis by (simp add: t(1))
  qed
  have 5: "block_ok s' c" if c: "c \<in> set ?cs" for c
  proof (cases "c = (a, n + k, u)")
    case True
    then show ?thesis using vs [of a] ok dist(1) by (simp add: f(2))
  next
    case False
    then have "c \<in> set xs \<union> set ys" using c by auto
    moreover from this have "fst c \<noteq> a" "fst c \<noteq> b" using dist by force+
    moreover have "block_ok s c" using ok calculation(1) by auto
    ultimately show ?thesis using vs [of "fst c"] by (cases c) (simp add: f(2))
  qed
  have 6: "ri.indexed (mem_tree s') B" by (rule indexed_mem [OF t(3)]) (use t(4) in \<open>auto simp: f(5)\<close>)
  have 7: "B \<subseteq> iter_node ` fst ` set ?cs" using t(4) sub_A by auto
  have 8: "mtiles (mem_start s) ?cs e" if "mtiles (mem_start s) ?bs e" for e using that by (auto simp: mtiles_mid add.assoc)
  from core obtain e where e: "mtiles (mem_start s) ?bs e" "e \<le> all_heap s' + MEM_CONFIG_HEAP" and p: "placed s"
    by (auto simp: mem_core_def f(4))
  have st: "mem_start s' = mem_start s" "placed s'" using p by (simp_all add: mem_start_def placed_def f(3,4))
  have "mem_core s' ?cs B"
    by (rule mem_coreI [OF _ _ 3 4 5 6 7 st(2) _ e(2)]) (use 1 2 8 [OF e(1)] in \<open>simp_all only: st(1) f(3)\<close>)
  then show ?thesis using m(1) by (auto simp: s'_def)
qed

section \<open>Allocation\<close>

lemma round_up: "(if (w + 72) mod 8 \<noteq> 0 then w + 72 + (8 - (w + 72) mod 8) else w + 72) = (w + 79) div 8 * (8 :: nat)"
proof -
  define q r where "q = (w + 72) div 8" "r = (w + 72) mod 8"
  have x: "w + 72 = 8 * q + r" "r < 8" by (simp_all add: q_r_def)
  then have "w + 79 = 8 * q + (r + 7)" by linarith
  then have "(w + 79) div 8 = (8 * q + (r + 7)) div 8" by simp
  also have "\<dots> = q + (r + 7) div 8" by simp
  finally have "(w + 79) div 8 * 8 = 8 * q + (r + 7) div 8 * 8" by simp
  moreover have "(r + 7) div 8 * 8 = (if r = 0 then 0 else 8)" using x(2) by auto
  ultimately show ?thesis using x by (auto simp: q_r_def(2) [symmetric])
qed

lemma mem_round_exact:
  assumes "0 < w" "w + 80 < 2 ^ 64"
  shows "mem_round w = (w + 79) div 8 * 8" "80 \<le> mem_round w" "8 dvd mem_round w" "w + 72 \<le> mem_round w"
proof -
  have 1: "sz_add w 72 = w + 72" using assms(2) by (intro sz_add_exact) simp
  have 2: "sz_add (w + 72) (8 - (w + 72) mod 8) = w + 72 + (8 - (w + 72) mod 8)"
  proof (rule sz_add_exact, rule le_less_trans [OF _ assms(2)])
    have "8 - (w + 72) mod 8 \<le> 8" by (rule diff_le_self)
    then show "w + 72 + (8 - (w + 72) mod 8) \<le> w + 80" by linarith
  qed
  show r: "mem_round w = (w + 79) div 8 * 8"
    unfolding mem_round_def Let_def mem_sizes 1 2 by (rule round_up)
  show "80 \<le> mem_round w" "8 dvd mem_round w" "w + 72 \<le> mem_round w" unfolding r using assms(1) by (presburger, simp, presburger)
qed

definition taken :: "addr \<Rightarrow> nat \<Rightarrow> nat \<Rightarrow> mblock list" where
  "taken a n w = (if n - w > 144 then [(a, w, True), (a + w, n - w, False)] else [(a, n, True)])"

lemma free_iters_out:
  assumes "mem_core s (xs @ (a, n, u) # ys) A"
  shows "iter_node a \<notin> free_iters xs" "iter_node a \<notin> free_iters ys"
proof -
  have "a \<notin> fst ` set xs" "a \<notin> fst ` set ys" using core_distinct [OF assms] by auto
  then show "iter_node a \<notin> free_iters xs" "iter_node a \<notin> free_iters ys" by (force simp: free_iters_def)+
qed

lemma core_all_size: "mem_core (s\<lparr>all_size := k\<rparr>) bs A = mem_core s bs A"
proof -
  have "block_ok (s\<lparr>all_size := k\<rparr>) b = block_ok s b" for b by (cases b) simp
  then show ?thesis by (simp add: mem_core_def placed_def mem_start_def)
qed

lemma rep_size: "mem_rep s bs \<Longrightarrow> all_size s < 2 ^ 64"
proof -
  assume r: "mem_rep s bs"
  then obtain e where "mtiles (mem_start s) bs e" "e \<le> all_heap s + MEM_CONFIG_HEAP" "all_heap s + MEM_CONFIG_HEAP \<le> 2 ^ 64" "0 < all_heap s"
    and a: "all_size s = free_bytes bs" by (auto simp: mem_rep_def mem_core_def placed_def)
  moreover have "all_heap s \<le> mem_start s" by (simp add: mem_start_def)
  ultimately show ?thesis using free_bytes_le [of "mem_start s" bs e] by linarith
qed

lemma mem_take_ok:
  assumes rep: "mem_rep s (xs @ (a, n, False) # ys)" and w: "80 \<le> w" "8 dvd w" "w < n"
  shows "\<exists>s'. mem_take s (iter_node a) w = Some (a + 72, s') \<and> mem_rep s' (xs @ taken a n w @ ys)"
proof -
  let ?bs = "xs @ (a, n, False) # ys" and ?A = "free_iters (xs @ ys)"
  have core: "mem_core s ?bs (free_iters ?bs)" and sz: "all_size s = free_bytes ?bs" using rep by (simp_all add: mem_rep_def)
  have mem: "(a, n, False) \<in> set ?bs" by simp
  note ca = core_blocks [OF core mem] and fo = free_iters_out [OF core]
  have v: "value_of (mem_tree s) (iter_node a) = Some (of_nat n)" "unat (of_nat n :: u32) = n"
    using ca(2,8) by (simp_all add: size_of_def unat_of_nat MEM_CONFIG_HEAP_def)
  have A: "free_iters ?bs - {iter_node a} = ?A" using fo by auto
  have "iter_node a \<in> free_iters ?bs" by simp
  from core_remove [OF core this] obtain s1 where s1: "on_tree s (\<lambda>t. rb_remove_node t (iter_node a)) = Some s1" "mem_core s1 ?bs ?A"
    "same_place s s1" unfolding A by blast
  from core_used [OF s1(2), of True] obtain s2 where s2: "set_used s1 a 1 = Some s2" "mem_core s2 (xs @ (a, n, True) # ys) ?A"
    "same_place s1 s2" by auto
  have n: "n < 2 ^ 64" "n \<le> all_size s" using ca(2) sz by (simp_all add: MEM_CONFIG_HEAP_def)
  have sub: "sz_sub n w = n - w" using w(3) n(1) by (intro sz_sub_exact) simp_all
  have "\<exists>s3 k. mem_split s2 a n w = Some s3 \<and> same_place s2 s3 \<and> mem_core s3 (xs @ taken a n w @ ys) (free_iters (xs @ taken a n w @ ys)) \<and>
    (a, k, True) \<in> set (taken a n w) \<and> free_bytes (xs @ taken a n w @ ys) + k = free_bytes ?bs"
  proof (cases "144 < n - w")
    case True
    from core_split [OF s2(2) w(1) True w(2)] fo obtain s3 where "mem_split s2 a n w = Some s3" "same_place s2 s3"
      "mem_core s3 (xs @ (a, w, True) # (a + w, n - w, False) # ys) (insert (iter_node (a + w)) ?A)" by auto
    then show ?thesis using True w(3) by (intro exI [of _ s3] exI [of _ w]) (simp add: taken_def)
  next
    case False
    then have "mem_split s2 a n w = Some s2" by (simp add: mem_split_def sub)
    then show ?thesis using False s2(2) by (intro exI [of _ s2] exI [of _ n]) (simp add: taken_def)
  qed
  then obtain s3 k where s3: "mem_split s2 a n w = Some s3" "same_place s2 s3" "mem_core s3 (xs @ taken a n w @ ys) (free_iters (xs @ taken a n w @ ys))"
    and k: "(a, k, True) \<in> set (taken a n w)" "free_bytes (xs @ taken a n w @ ys) + k = free_bytes ?bs" by blast
  have "(a, k, True) \<in> set (xs @ taken a n w @ ys)" using k(1) by simp
  note ck = core_blocks [OF s3(3) this]
  have uk: "unat (of_nat k :: u32) = k" using ck(2) by (simp add: unat_of_nat MEM_CONFIG_HEAP_def)
  have as: "all_size s3 = all_size s" using s1(3) s2(3) s3(2) by (simp add: same_place_def)
  have "sz_sub (all_size s) k = free_bytes (xs @ taken a n w @ ys)" using k(2) sz rep_size [OF rep] by (subst sz_sub_exact) simp_all
  then have "mem_rep (s3\<lparr>all_size := sz_sub (all_size s3) k\<rparr>) (xs @ taken a n w @ ys)"
    using s3(3) as by (simp add: mem_rep_def core_all_size)
  moreover have "mem_take s (iter_node a) w = Some (a + 72, s3\<lparr>all_size := sz_sub (all_size s3) k\<rparr>)"
    using v s1(1) s2(1) s3(1) ck(8) uk by (simp add: mem_take_def)
  ultimately show ?thesis by blast
qed

lemma mem_malloc_ok:
  assumes rep: "mem_rep s bs" and w: "0 < w" "w + 80 < 2 ^ 64"
  shows "\<exists>p s'. mem_malloc s w = Some (p, s') \<and>
    (if \<forall>(a, n, u) \<in> set bs. u \<or> n \<le> mem_round w then p = 0 \<and> s' = s
     else \<exists>xs a n ys. bs = xs @ (a, n, False) # ys \<and> mem_round w < n \<and> p = a + 72 \<and>
       (\<forall>(b, m, v) \<in> set bs. v \<or> m \<le> mem_round w \<or> n \<le> m) \<and> mem_rep s' (xs @ taken a n (mem_round w) @ ys))"
proof -
  let ?w = "mem_round w" and ?t = "mem_tree s" and ?A = "free_iters bs"
  note rw = mem_round_exact [OF w]
  have core: "mem_core s bs ?A" using rep by (simp add: mem_rep_def)
  then have ix: "ri.indexed ?t ?A" and dl: "dlist (mh_links s) (cache_node s) (map fst bs)" and cn: "cache_node s \<noteq> 0"
    by (simp_all add: mem_core_def placed_def)
  have key: "unat (vals ?t (iter_node a)) = n" "value_of ?t (iter_node a) = Some (vals ?t (iter_node a))" if "(a, n, u) \<in> set bs" for a n u
    using core_blocks(7,10) [OF core that] value_of_mem [of "iter_node a" ?t] by simp_all
  obtain c where c: "mh_links s (cache_node s) = Some c" "prv c \<noteq> 0"
  proof (cases "map fst bs")
    case Nil
    then show ?thesis using that dlist_unfold(1) [of "mh_links s" "cache_node s"] dl cn by auto
  next
    case (Cons x xs)
    have "last (x # xs) \<in> fst ` set bs" using Cons last_in_set [of "x # xs"] by (metis list.distinct(1) set_map)
    then obtain n u where "(last (x # xs), n, u) \<in> set bs" by force
    then have "last (x # xs) \<noteq> 0" using core_blocks(11) [OF core] by blast
    then show ?thesis using that dlist_unfold(2) [of "mh_links s" "cache_node s" x xs] dl unfolding Cons by auto
  qed
  have key': "unat (vals ?t f) = n \<and> value_of ?t f = Some (vals ?t f)" if "(a, n, u) \<in> set bs" "f = iter_node a" for f a n u
    using key [OF that(1)] that(2) by simp
  have free: "\<exists>a n. f = iter_node a \<and> (a, n, False) \<in> set bs" if "f \<in> ?A" for f using that by (auto simp: free_iters_def)
  have none: "(\<forall>(a, n, u) \<in> set bs. u \<or> n \<le> ?w) \<longleftrightarrow> (\<forall>f \<in> ?A. unat (vals ?t f) \<le> ?w)"
    using key by (force simp: free_iters_def)
  define enough where "enough = (if last_node ?t = 0 then Some False
    else do { v \<leftarrow> value_of ?t (last_node ?t); Some (?w \<le> unat v) })"
  have run: "mem_malloc s w = do { e \<leftarrow> enough; if e
      then do { found \<leftarrow> rb_first_greater ?t ?w; if found = 0 then Some (0, s) else mem_take s found ?w } else Some (0, s) }"
    using c w(1) unfolding mem_malloc_def enough_def by (simp add: Let_def)
  have en: "enough = Some (?A \<noteq> {} \<and> ?w \<le> unat (vals ?t (last_node ?t)))" "\<forall>f \<in> ?A. unat (vals ?t f) \<le> unat (vals ?t (last_node ?t))"
  proof -
    have "last_node ?t \<noteq> 0 \<and> value_of ?t (last_node ?t) = Some (vals ?t (last_node ?t))" if "?A \<noteq> {}"
    proof -
      have "last_node ?t \<in> ?A" using ri.biggest_indexed [OF ix] that by simp
      with free obtain a n where "last_node ?t = iter_node a" "(a, n, False) \<in> set bs" by blast
      then show ?thesis using key(2) by simp
    qed
    then show "enough = Some (?A \<noteq> {} \<and> ?w \<le> unat (vals ?t (last_node ?t)))"
      using ri.biggest_indexed [OF ix] unfolding enough_def by (cases "?A = {}") simp_all
    show "\<forall>f \<in> ?A. unat (vals ?t f) \<le> unat (vals ?t (last_node ?t))"
      using ri.biggest_indexed [OF ix] by (auto simp: word_le_nat_alt split: if_splits)
  qed
  from ri.greater_indexed [OF ix, of ?w] obtain g where g: "rb_first_greater ?t ?w = Some g"
    "if g = 0 then \<forall>a \<in> ?A. unat (vals ?t a) \<le> ?w
     else g \<in> ?A \<and> ?w < unat (vals ?t g) \<and> (\<forall>a \<in> ?A. ?w < unat (vals ?t a) \<longrightarrow> vals ?t g \<le> vals ?t a)" by blast
  show ?thesis
  proof (cases "g = 0")
    case True
    then have "mem_malloc s w = Some (0, s)" using run en(1) g(1) by simp
    moreover have "\<forall>(a, n, u) \<in> set bs. u \<or> n \<le> ?w" unfolding none using g(2) True by simp
    ultimately show ?thesis by simp
  next
    case False
    then have gA: "g \<in> ?A" "?w < unat (vals ?t g)" "\<forall>a \<in> ?A. ?w < unat (vals ?t a) \<longrightarrow> vals ?t g \<le> vals ?t a" using g(2) by simp_all
    obtain a n where a: "g = iter_node a" "(a, n, False) \<in> set bs" using free [OF gA(1)] by blast
    then obtain xs ys where bs: "bs = xs @ (a, n, False) # ys" by (meson split_list)
    have vn: "unat (vals ?t g) = n" using key' [OF a(2,1)] by simp
    from mem_take_ok [of s xs a n ys ?w] rep rw(2,3) gA(2) vn bs obtain s' where
      s': "mem_take s g ?w = Some (a + 72, s')" "mem_rep s' (xs @ taken a n ?w @ ys)" by (auto simp: a(1))
    have "?w \<le> unat (vals ?t (last_node ?t))" using en(2) gA(1,2) by fastforce
    then have go: "mem_malloc s w = Some (a + 72, s')" using run en(1) gA(1) g(1) False s'(1) by auto
    have some: "\<not> (\<forall>(a, n, u) \<in> set bs. u \<or> n \<le> ?w)" unfolding none using gA(1,2) by (meson not_le)
    have "v \<or> m \<le> ?w \<or> n \<le> m" if "(b, m, v) \<in> set bs" for b m v
    proof (cases "v \<or> m \<le> ?w")
      case nf: False
      then have "iter_node b \<in> ?A" using that by (auto simp: free_iters_def)
      then have "vals ?t g \<le> vals ?t (iter_node b)" using gA(3) key(1) [OF that] nf by simp
      then show ?thesis using key(1) [OF that] vn by (simp add: word_le_nat_alt)
    qed blast
    then have best: "\<forall>(b, m, v) \<in> set bs. v \<or> m \<le> ?w \<or> n \<le> m" by blast
    show ?thesis unfolding if_not_P [OF some]
      by (intro exI [of _ "a + 72"] exI [of _ s'] conjI go exI [of _ xs] exI [of _ a] exI [of _ n] exI [of _ ys] bs refl best s'(2))
        (use gA(2) vn in simp)
  qed
qed

section \<open>Release\<close>

definition merge_right :: "nat \<Rightarrow> mblock list \<Rightarrow> nat \<times> mblock list" where
  "merge_right n ys = (case ys of (b, m, False) # zs \<Rightarrow> (n + m, zs) | _ \<Rightarrow> (n, ys))"

definition merge_left :: "mblock list \<Rightarrow> addr \<Rightarrow> nat \<Rightarrow> mblock list \<Rightarrow> mblock list" where
  "merge_left xs a n ys = (case rev xs of (b, m, False) # zs \<Rightarrow> rev zs @ (b, m + n, False) # ys | _ \<Rightarrow> xs @ (a, n, False) # ys)"

definition freed :: "mblock list \<Rightarrow> addr \<Rightarrow> nat \<Rightarrow> mblock list \<Rightarrow> mblock list" where
  "freed xs a n ys = (let (n', ys') = merge_right n ys in merge_left xs a n' ys')"

lemma tree_size:
  "on_tree (s\<lparr>mh_links := m\<rparr>) f = map_option (\<lambda>t. s\<lparr>mh_links := m, mem_tree := t\<rparr>) (f (mem_tree s))"
  "on_tree (s\<lparr>mh_links := m, mem_tree := t\<rparr>) f = map_option (\<lambda>t. s\<lparr>mh_links := m, mem_tree := t\<rparr>) (f t)"
  "size_of (s\<lparr>mh_links := m\<rparr>) a = size_of s a"
  by (cases "f (mem_tree s)"; cases "f t"; simp add: on_tree_def size_of_def)+

lemma merge_next_ok:
  assumes core: "mem_core s (xs @ (a, n, False) # ys) (free_iters xs \<union> free_iters ys)"
  shows "\<exists>s' k zs. mem_merge_next s a = Some s' \<and> same_place s s' \<and> merge_right n ys = (k, zs) \<and>
    mem_core s' (xs @ (a, k, False) # zs) (free_iters xs \<union> free_iters zs)"
proof -
  let ?bs = "xs @ (a, n, False) # ys"
  have dl: "dlist (mh_links s) (cache_node s) (map fst xs @ a # map fst ys)" and ix: "ri.indexed (mem_tree s) (free_iters xs \<union> free_iters ys)"
    using core by (simp_all add: mem_core_def)
  from dlist_links [OF dl] obtain l where l: "mh_links s a = Some l" "nxt l = hd (map fst ys @ [cache_node s])" by blast
  have "(a, n, False) \<in> set ?bs" by simp
  note ca = core_blocks [OF core this]
  show ?thesis
  proof (cases ys)
    case Nil
    have "mem_merge_next s a = Some s" using l by (simp add: mem_merge_next_def Nil)
    then show ?thesis using core by (intro exI [of _ s] exI [of _ n] exI [of _ ys]) (simp add: merge_right_def Nil)
  next
    case (Cons y zs)
    obtain b m v where y: "y = (b, m, v)" by (cases y)
    have "(b, m, v) \<in> set ?bs" by (simp add: Cons y)
    note cb = core_blocks [OF core this]
    have nx: "nxt l = b" using l(2) by (simp add: Cons y)
    show ?thesis
    proof (cases v)
      case True
      then have "mem_merge_next s a = Some s" using l(1) nx cb(9) by (simp add: mem_merge_next_def)
      then show ?thesis using core True by (intro exI [of _ s] exI [of _ n] exI [of _ ys]) (simp add: merge_right_def Cons y)
    next
      case False
      let ?A = "free_iters xs \<union> free_iters ys" and ?B = "free_iters xs \<union> free_iters zs"
      have fa: "iter_node a \<notin> ?A" using free_iters_out [OF core] by simp
      from ri.rekey_indexed [OF ix fa iter_node_eq(3) ca(10), of "of_nat n + of_nat m"] obtain t1 where
        t1: "set_value (mem_tree s) (iter_node a) (of_nat n + of_nat m) = Some t1" "vals t1 = (vals (mem_tree s))(iter_node a := of_nat n + of_nat m)"
          "dom (rb_mem t1) = dom (rb_mem (mem_tree s))" "ri.indexed t1 ?A" by blast
      have bA: "iter_node b \<in> ?A" using False by (simp add: Cons y)
      have core': "mem_core s (xs @ (a, n, False) # (b, m, v) # zs) ?A" using core by (simp add: Cons y)
      have nb: "iter_node b \<notin> free_iters xs" "iter_node b \<notin> free_iters zs"
        using free_iters_out [of s "xs @ [(a, n, False)]" b m v zs] core' by simp_all
      have B: "?A - {iter_node b} = ?B" using nb False by (auto simp: Cons y)
      from ri.remove_indexed [OF t1(4) bA] obtain t2 where t2: "rb_remove_node t1 (iter_node b) = Some t2" "vals t2 = vals t1"
        "dom (rb_mem t2) = dom (rb_mem t1)" "ri.indexed t2 ?B" unfolding B by blast
      have "?B \<subseteq> ?A - {iter_node b}" using B by simp
      from core_merge [OF core' _ _ t2(4) this] t1 t2 obtain m' where m': "list_remove (mh_links s) b = Some m'"
        "mem_core (absorb (s\<lparr>mh_links := m', mem_tree := t2\<rparr>) b) (xs @ (a, n + m, False) # zs) ?B" by auto
      have "mem_merge_next s a = Some (absorb (s\<lparr>mh_links := m', mem_tree := t2\<rparr>) b)"
        using l(1) nx cb(6,8,9) ca(8) False m'(1) t1(1) t2(1)
        by (simp add: mem_merge_next_def on_links_def set_size_def tree_size)
      then show ?thesis using m'(2) False
        by (intro exI [of _ "absorb (s\<lparr>mh_links := m', mem_tree := t2\<rparr>) b"] exI [of _ "n + m"] exI [of _ zs])
          (simp add: merge_right_def Cons y same_place_def absorb_def)
    qed
  qed
qed

lemma merge_prev_ok:
  assumes core: "mem_core s (xs @ (a, n, False) # ys) (free_iters xs \<union> free_iters ys)"
  shows "\<exists>c s' us k. mem_merge_prev s a = Some (c, s') \<and> same_place s s' \<and> merge_left xs a n ys = us @ (c, k, False) # ys \<and>
    mem_core s' (us @ (c, k, False) # ys) (free_iters us \<union> free_iters ys)"
proof -
  let ?bs = "xs @ (a, n, False) # ys"
  have dl: "dlist (mh_links s) (cache_node s) (map fst xs @ a # map fst ys)" and ix: "ri.indexed (mem_tree s) (free_iters xs \<union> free_iters ys)"
    using core by (simp_all add: mem_core_def)
  from dlist_links [OF dl] obtain l where l: "mh_links s a = Some l" "prv l = last (cache_node s # map fst xs)" by blast
  have "(a, n, False) \<in> set ?bs" by simp
  note ca = core_blocks [OF core this]
  show ?thesis
  proof (cases xs rule: rev_cases)
    case Nil
    have "mem_merge_prev s a = Some (a, s)" using l by (simp add: mem_merge_prev_def Nil)
    then show ?thesis using core by (intro exI [of _ a] exI [of _ s] exI [of _ xs] exI [of _ n]) (simp add: merge_left_def Nil)
  next
    case (snoc us y)
    obtain b m v where y: "y = (b, m, v)" by (cases y)
    have "(b, m, v) \<in> set ?bs" by (simp add: snoc y)
    note cb = core_blocks [OF core this]
    have pv: "prv l = b" using l(2) by (simp add: snoc y)
    show ?thesis
    proof (cases v)
      case True
      then have "mem_merge_prev s a = Some (a, s)" using l(1) pv cb(9) by (simp add: mem_merge_prev_def)
      then show ?thesis using core True by (intro exI [of _ a] exI [of _ s] exI [of _ xs] exI [of _ n]) (simp add: merge_left_def snoc y)
    next
      case False
      let ?A = "free_iters xs \<union> free_iters ys" and ?B = "free_iters us \<union> free_iters ys"
      have core': "mem_core s (us @ (b, m, v) # (a, n, False) # ys) ?A" using core by (simp add: snoc y)
      have bA: "iter_node b \<in> ?A" using False by (simp add: snoc y)
      have nb: "iter_node b \<notin> free_iters us" "iter_node b \<notin> free_iters ys"
        using free_iters_out [of s us b m v "(a, n, False) # ys"] core' by simp_all
      have B: "?A - {iter_node b} = ?B" using nb False by (auto simp: snoc y)
      from ri.rekey_remove_indexed [OF ix bA, of "of_nat m + of_nat n"] obtain t1 t2 where
        t: "set_value (mem_tree s) (iter_node b) (of_nat m + of_nat n) = Some t1" "rb_remove_node t1 (iter_node b) = Some t2"
          "vals t2 = (vals (mem_tree s))(iter_node b := of_nat m + of_nat n)" "dom (rb_mem t2) = dom (rb_mem (mem_tree s))"
          "ri.indexed t2 ?B" unfolding B by blast
      have "iter_node a \<notin> ?A" using free_iters_out [OF core] by simp
      then have "?B \<subseteq> ?A - {iter_node a}" by (auto simp: snoc y)
      from core_merge [OF core' _ t(4,5) this] t(3) obtain m' where m': "list_remove (mh_links s) a = Some m'"
        "mem_core (absorb (s\<lparr>mh_links := m', mem_tree := t2\<rparr>) a) (us @ (b, m + n, v) # ys) ?B" by auto
      have "mem_merge_prev s a = Some (b, absorb (s\<lparr>mh_links := m', mem_tree := t2\<rparr>) a)"
        using l(1) pv cb(6,8,9) ca(8) False m'(1) t(1,2)
        by (simp add: mem_merge_prev_def on_links_def set_size_def tree_size)
      then show ?thesis using m'(2) False
        by (intro exI [of _ b] exI [of _ "absorb (s\<lparr>mh_links := m', mem_tree := t2\<rparr>) a"] exI [of _ us] exI [of _ "m + n"])
          (simp add: merge_left_def snoc y same_place_def absorb_def)
    qed
  qed
qed

lemma merge_right_bytes: "merge_right n ys = (k, zs) \<Longrightarrow> k + free_bytes zs = n + free_bytes ys"
  by (auto simp: merge_right_def split: list.splits bool.splits)

lemma merge_left_bytes: "free_bytes (merge_left xs a n ys) = free_bytes xs + n + free_bytes ys"
  by (cases xs rule: rev_cases) (auto simp: merge_left_def split: bool.splits prod.splits)

lemma mem_free_ok:
  assumes rep: "mem_rep s (xs @ (a, n, True) # ys)"
  shows "\<exists>s'. mem_free s (a + 72) = Some s' \<and> mem_rep s' (freed xs a n ys)"
proof -
  let ?bs = "xs @ (a, n, True) # ys" and ?A = "free_iters xs \<union> free_iters ys"
  have core: "mem_core s ?bs ?A" and sz: "all_size s = free_bytes xs + free_bytes ys" using rep by (simp_all add: mem_rep_def)
  have "(a, n, True) \<in> set ?bs" by simp
  note ca = core_blocks [OF core this]
  have pl: "all_heap s + MEM_CONFIG_HEAP \<le> 2 ^ 64" using core by (simp add: mem_core_def placed_def)
  have node: "sz_sub (a + 72) 72 = a" using ca(1,5) pl by (subst sz_sub_exact) simp_all
  from core_used [OF core, of False] obtain s1 where s1: "set_used s a 0 = Some s1" "mem_core s1 (xs @ (a, n, False) # ys) ?A" "same_place s s1"
    by auto
  have "(a, n, False) \<in> set (xs @ (a, n, False) # ys)" by simp
  note ca1 = core_blocks [OF s1(2) this]
  have un: "unat (of_nat n :: u32) = n" using ca(2) by (simp add: unat_of_nat MEM_CONFIG_HEAP_def)
  let ?k = "free_bytes xs + n + free_bytes ys"
  from s1(2) obtain e where "mtiles (mem_start s1) (xs @ (a, n, False) # ys) e" "e \<le> all_heap s1 + MEM_CONFIG_HEAP" "0 < all_heap s1"
    "all_heap s1 + MEM_CONFIG_HEAP \<le> 2 ^ 64" by (auto simp: mem_core_def placed_def)
  moreover have "all_heap s1 \<le> mem_start s1" by (simp add: mem_start_def)
  ultimately have "?k < 2 ^ 64" using free_bytes_le [of "mem_start s1" "xs @ (a, n, False) # ys" e] by simp
  then have add: "sz_add (all_size s1) n = ?k" using sz s1(3) by (simp add: sz_add_exact same_place_def)
  let ?s2 = "s1\<lparr>all_size := ?k\<rparr>"
  have c2: "mem_core ?s2 (xs @ (a, n, False) # ys) ?A" using s1(2) by (simp add: core_all_size)
  from merge_next_ok [OF c2] obtain s3 k zs where s3: "mem_merge_next ?s2 a = Some s3" "same_place ?s2 s3" "merge_right n ys = (k, zs)"
    "mem_core s3 (xs @ (a, k, False) # zs) (free_iters xs \<union> free_iters zs)" by blast
  from merge_prev_ok [OF s3(4)] obtain c s4 us j where s4: "mem_merge_prev s3 a = Some (c, s4)" "same_place s3 s4"
    "merge_left xs a k zs = us @ (c, j, False) # zs" "mem_core s4 (us @ (c, j, False) # zs) (free_iters us \<union> free_iters zs)" by blast
  have fc: "iter_node c \<notin> free_iters us \<union> free_iters zs" using free_iters_out [OF s4(4)] by simp
  have "c \<in> fst ` set (us @ (c, j, False) # zs)" by simp
  from core_insert [OF s4(4) this fc] obtain s5 where s5: "on_tree s4 (\<lambda>t. rb_insert_node t (iter_node c)) = Some s5"
    "mem_core s5 (us @ (c, j, False) # zs) (insert (iter_node c) (free_iters us \<union> free_iters zs))" "same_place s4 s5" by blast
  have fr: "freed xs a n ys = us @ (c, j, False) # zs" using s3(3) s4(3) by (simp add: freed_def)
  have "free_bytes (freed xs a n ys) = ?k" unfolding freed_def using merge_left_bytes [of xs a k zs] merge_right_bytes [OF s3(3)] by (simp add: s3(3))
  then have "mem_rep s5 (freed xs a n ys)" using s5(2,3) s4(2) s3(2) unfolding mem_rep_def fr by (simp add: same_place_def)
  moreover have "mem_free s (a + 72) = Some s5"
    using node s1(1) ca1(8) un add s3(1) s4(1) s5(1) by (simp add: mem_free_def Let_def)
  ultimately show ?thesis by blast
qed

section \<open>Initialisation\<close>

lemma mem_init_ok:
  assumes "placed (mem_static c a raw)"
  shows "\<exists>s. mem_init (mem_static c a raw) = Some s \<and>
    mem_rep s [((a + 7) div 8 * 8, MEM_CONFIG_HEAP - ((a + 7) div 8 * 8 - a), False)] \<and> cache_node s = c \<and> all_heap s = a"
proof -
  define b where "b = (a + 7) div 8 * 8"
  define k where "k = MEM_CONFIG_HEAP - (b - a)"
  have b: "a \<le> b" "b \<le> a + 7" "8 dvd b" and ba: "a mod 8 = 0 \<Longrightarrow> b = a" unfolding b_def by presburger+
  have p: "0 < a" "c \<noteq> 0" "c < a \<or> a + MEM_CONFIG_HEAP \<le> c" "a + MEM_CONFIG_HEAP \<le> 2 ^ 64"
    using assms by (auto simp: placed_def mem_static_def)
  have k: "k = MEM_CONFIG_HEAP - (b - a)" "80 \<le> k" "k \<le> MEM_CONFIG_HEAP" "b + k = a + MEM_CONFIG_HEAP"
    using b by (simp_all add: k_def MEM_CONFIG_HEAP_def)
  have bc: "b \<noteq> c" "b \<noteq> 0" using p b by (auto simp: MEM_CONFIG_HEAP_def)
  obtain l rn uu where raw: "raw b = (l, rn, uu)" by (cases "raw b")
  define s0 where "s0 = \<lparr>cache_node = c, all_heap = a, mem_raw = raw, mh_links = [c \<mapsto> \<lparr>nxt = c, prv = c\<rparr>],
     mem_tree = \<lparr>rb_mem = Map.empty, rb_top = 0, first_node = 0, last_node = 0, rb_count = 0\<rparr>,
     mh_used = Map.empty, all_size = k\<rparr>"
  define m1 where "m1 = [c \<mapsto> \<lparr>nxt = b, prv = b\<rparr>, b \<mapsto> \<lparr>nxt = c, prv = c\<rparr>]"
  define nd where "nd = \<lparr>rb_parent = 0, rb_owner = 0, rb_color = RB_RED, rb_right = 0, rb_left = 0, rb_value = of_nat k\<rparr>"
  define t1 where "t1 = \<lparr>rb_mem = [iter_node b \<mapsto> nd], rb_top = 0, first_node = 0, last_node = 0, rb_count = 0\<rparr>"
  define s1 where "s1 = s0\<lparr>mh_links := m1, mem_tree := t1, mh_used := [b \<mapsto> 0]\<rparr>"
  have sub: "sz_sub MEM_CONFIG_HEAP (b - a) = k" unfolding k(1) using b by (intro sz_sub_exact) (simp_all add: MEM_CONFIG_HEAP_def)
  have free: "header_free s0 b" using bc by (simp add: header_free_def s0_def)
  have add: "list_add_next [c \<mapsto> \<lparr>nxt = c, prv = c\<rparr>, b \<mapsto> \<lparr>nxt = b, prv = b\<rparr>] c b = Some m1"
    using bc(1) by (auto simp: list_add_next_def set_nxt_def set_prv_def m1_def fun_eq_iff)
  have run: "mem_init (mem_static c a raw) = on_tree s1 (\<lambda>t. rb_insert_node t (iter_node b))"
  proof -
    have 1: "mem_init (mem_static c a raw) = do {
        s \<leftarrow> carve s0 b;
        s \<leftarrow> on_links s (\<lambda>m. list_node_init m b);
        s \<leftarrow> on_links s (\<lambda>m. list_add_next m (cache_node s) b);
        s \<leftarrow> on_tree s (\<lambda>t. rb_node_init t (iter_node b));
        s \<leftarrow> set_size s b (of_nat (all_size s));
        s \<leftarrow> set_used s b 0;
        on_tree s (\<lambda>t. rb_insert_node t (iter_node b)) }"
      using sub ba k(1) by (simp add: mem_init_def mem_static_def s0_def on_links_def list_node_init_def rb_root_init_def Let_def b_def [symmetric])
    show ?thesis unfolding 1 using free bc add
      by (simp add: carve_def raw s0_def on_links_def list_node_init_def on_tree_def rb_node_init_def rb_upd_def rb_at_def
        set_size_def set_value_def set_used_def s1_def t1_def nd_def)
  qed
  have "mem_core s1 [(b, k, False)] {}"
  proof (rule mem_coreI [where e = "b + k"])
    show "dlist (mh_links s1) (cache_node s1) (map fst [(b, k, False)])" using bc by (simp add: s1_def s0_def m1_def dlist_def nx_def pv_def)
    show "dom (mh_links s1) = insert (cache_node s1) (fst ` set [(b, k, False)])" by (auto simp: s1_def s0_def m1_def)
    show "block_ok s1 x" if "x \<in> set [(b, k, False)]" for x using that by (simp add: s1_def t1_def nd_def vals_def)
    have "balanced t1 Leaf" by (simp add: balanced_def rb_shape_def t1_def)
    then have "rb_list t1 []" by (auto simp: rb_list_def t1_def)
    then show "ri.indexed (mem_tree s1) {}" by (auto simp: ri.indexed_def s1_def)
    show "placed s1" using p by (auto simp: placed_def s1_def s0_def)
    show "mtiles (mem_start s1) [(b, k, False)] (b + k)" using k b(3) by (simp add: mem_start_def s1_def s0_def b_def)
  qed (use k in \<open>simp_all add: s1_def s0_def t1_def\<close>)
  from core_insert [OF this, of b] obtain s2 where s2: "on_tree s1 (\<lambda>t. rb_insert_node t (iter_node b)) = Some s2"
    "mem_core s2 [(b, k, False)] {iter_node b}" "same_place s1 s2" by auto
  then have "mem_rep s2 [(b, k, False)]" "cache_node s2 = c" "all_heap s2 = a"
    by (simp_all add: mem_rep_def same_place_def s1_def s0_def)
  then show ?thesis using run s2(1) by (auto simp: b_def k_def)
qed

lemma mem_malloc_first:
  assumes "placed (mem_static c a raw)" "w \<noteq> 0"
  shows "mem_malloc (mem_static c a raw) w = do { s \<leftarrow> mem_init (mem_static c a raw); mem_malloc s w }"
proof -
  from mem_init_ok [OF assms(1)] obtain s b k where s: "mem_init (mem_static c a raw) = Some s" "mem_rep s [(b, k, False)]" "cache_node s = c" by blast
  then have "dlist (mh_links s) c [b]" "b \<noteq> 0" using core_blocks(11) [of s "[(b, k, False)]" "free_iters [(b, k, False)]" b k False]
    by (auto simp: mem_rep_def mem_core_def)
  then obtain l where "mh_links s c = Some l" "prv l \<noteq> 0" using dlist_unfold(2) [of "mh_links s" c b "[]"] by auto
  then show ?thesis using s(1,3) assms(2) by (simp add: mem_malloc_def Let_def) (simp add: mem_static_def)
qed

section \<open>No two free neighbours\<close>

definition settled :: "mblock list \<Rightarrow> bool" where
  "settled bs \<longleftrightarrow> successively (\<lambda>x y. snd (snd x) \<or> snd (snd y)) bs"

lemma settled_around:
  "settled (xs @ (a, n, u) # ys) \<longleftrightarrow> settled xs \<and> settled ys \<and> (u \<or> (xs = [] \<or> snd (snd (last xs))) \<and> (ys = [] \<or> snd (snd (hd ys))))"
  by (auto simp: settled_def successively_append_iff successively_Cons)

lemma settled_right: "settled ys \<Longrightarrow> merge_right n ys = (k, zs) \<Longrightarrow> settled zs \<and> (zs = [] \<or> snd (snd (hd zs)))"
  by (auto simp: merge_right_def settled_def successively_Cons split: list.splits bool.splits)

lemma settled_left:
  assumes "settled xs" "settled ys" "ys = [] \<or> snd (snd (hd ys))"
  shows "settled (merge_left xs a n ys)"
proof (cases xs rule: rev_cases)
  case Nil
  then show ?thesis using assms settled_around [of "[]" a n False ys] by (simp add: merge_left_def)
next
  case (snoc us y)
  obtain b m v where y: "y = (b, m, v)" by (cases y)
  have us: "settled us" "v \<or> us = [] \<or> snd (snd (last us))" using assms(1) settled_around [of us b m v "[]"] by (auto simp: snoc y)
  show ?thesis
  proof (cases v)
    case True
    then show ?thesis using assms settled_around [of xs a n False ys] by (simp add: merge_left_def snoc y)
  next
    case False
    then show ?thesis using us assms(2,3) settled_around [of us b "m + n" False ys] by (simp add: merge_left_def snoc y)
  qed
qed

lemma settled_freed: "settled (xs @ (a, n, True) # ys) \<Longrightarrow> settled (freed xs a n ys)"
proof -
  assume s: "settled (xs @ (a, n, True) # ys)"
  obtain k zs where m: "merge_right n ys = (k, zs)" by fastforce
  have x: "settled xs" "settled ys" using s by (simp_all add: settled_around)
  from settled_left [OF x(1)] settled_right [OF x(2) m] show ?thesis by (simp add: freed_def m)
qed

lemma settled_taken: "settled (xs @ (a, n, False) # ys) \<Longrightarrow> settled (xs @ taken a n w @ ys)"
  by (auto simp: taken_def settled_def successively_append_iff successively_Cons)

lemma freed_taken:
  assumes "settled (xs @ (a, n, False) # ys)" "w < n"
  shows "\<exists>k zs. taken a n w @ ys = (a, k, True) # zs \<and> freed xs a k zs = xs @ (a, n, False) # ys"
proof -
  have e: "xs = [] \<or> snd (snd (last xs))" "ys = [] \<or> snd (snd (hd ys))" using assms(1) by (auto simp: settled_around)
  have left: "merge_left xs a n ys = xs @ (a, n, False) # ys"
    using e(1) by (cases xs rule: rev_cases) (auto simp: merge_left_def split: prod.splits bool.splits)
  have right: "merge_right n ys = (n, ys)" using e(2) by (cases ys) (auto simp: merge_right_def split: bool.splits prod.splits)
  show ?thesis
  proof (cases "144 < n - w")
    case True
    have "merge_right w ((a + w, n - w, False) # ys) = (n, ys)" using assms(2) by (simp add: merge_right_def)
    then show ?thesis using True left by (intro exI [of _ w] exI [of _ "(a + w, n - w, False) # ys"]) (simp add: taken_def freed_def)
  next
    case False
    then show ?thesis using left right by (intro exI [of _ n] exI [of _ ys]) (simp add: taken_def freed_def)
  qed
qed

section \<open>Properties\<close>

text \<open>The states of a program that takes and gives back blocks of this allocator.\<close>

inductive mem_reach :: "mem_heap \<Rightarrow> mem_heap \<Rightarrow> bool" for s0 where
  start: "mem_init s0 = Some s \<Longrightarrow> mem_reach s0 s"
| malloc: "mem_reach s0 s \<Longrightarrow> w + 80 < 2 ^ 64 \<Longrightarrow> mem_malloc s w = Some (p, s') \<Longrightarrow> mem_reach s0 s'"
| free: "mem_reach s0 s \<Longrightarrow> 72 \<le> p \<Longrightarrow> mh_used s (p - 72) = Some 1 \<Longrightarrow> mem_free s p = Some s' \<Longrightarrow> mem_reach s0 s'"

lemma rep_used:
  assumes "mem_rep s bs" "mh_used s a = Some 1"
  shows "\<exists>xs n ys. bs = xs @ (a, n, True) # ys"
proof -
  have core: "mem_core s bs (free_iters bs)" using assms(1) by (simp add: mem_rep_def)
  then have "a \<in> fst ` set bs" using assms(2) by (auto simp: mem_core_def)
  then obtain n u where b: "(a, n, u) \<in> set bs" by force
  then have u: "u" using core_blocks(9) [OF core b] assms(2) by (auto split: if_splits)
  from b obtain xs ys where "bs = xs @ (a, n, u) # ys" by (meson split_list)
  then show ?thesis using u by auto
qed

definition example_mem :: mem_heap where
  "example_mem = mem_static 64 4096 (\<lambda>a. (\<lparr>nxt = 0, prv = 0\<rparr>,
     \<lparr>rb_parent = 0, rb_owner = 0, rb_color = 0, rb_right = 0, rb_left = 0, rb_value = 0\<rparr>, 0))"

lemma example_init: "\<exists>s. mem_init example_mem = Some s \<and> mem_rep s [(4096, 10240, False)]"
proof -
  have "placed example_mem" by (simp add: placed_def example_mem_def mem_static_def MEM_CONFIG_HEAP_def)
  from mem_init_ok [OF this [unfolded example_mem_def]] show ?thesis
    by (auto simp: example_mem_def [symmetric] MEM_CONFIG_HEAP_def)
qed

text \<open>C31. \<^verbatim>\<open>mem_malloc\<close> returns a null pointer and changes nothing when no free block is strictly greater than the
  request with its header, rounded up: a block of exactly this size is refused. Otherwise it takes a smallest of the
  greater blocks, splits it when more than two headers remain, and returns the address behind the header, at a
  multiple of eight, with the requested bytes inside the block.\<close>
theorem mem_malloc_best_fit:
  assumes "mem_rep s bs" "0 < w" "w + 80 < 2 ^ 64"
  shows "\<exists>p s'. mem_malloc s w = Some (p, s') \<and>
    (if \<forall>(a, n, u) \<in> set bs. u \<or> n \<le> mem_round w then p = 0 \<and> s' = s
     else \<exists>xs a n ys. bs = xs @ (a, n, False) # ys \<and> mem_round w < n \<and> (\<forall>(b, m, v) \<in> set bs. v \<or> m \<le> mem_round w \<or> n \<le> m) \<and>
       mem_rep s' (xs @ taken a n (mem_round w) @ ys) \<and> p = a + 72 \<and> 8 dvd p \<and> p + w \<le> a + mem_round w)"
proof (cases "\<forall>(a, n, u) \<in> set bs. u \<or> n \<le> mem_round w")
  case True
  then show ?thesis using mem_malloc_ok [OF assms] by auto
next
  case False
  from mem_malloc_ok [OF assms, unfolded if_not_P [OF False]] obtain p s' xs a n ys where m: "mem_malloc s w = Some (p, s')"
    "bs = xs @ (a, n, False) # ys" "mem_round w < n" "p = a + 72" "\<forall>(b, m, v) \<in> set bs. v \<or> m \<le> mem_round w \<or> n \<le> m"
    "mem_rep s' (xs @ taken a n (mem_round w) @ ys)" by blast
  have "8 dvd a" using core_blocks(3) [of s bs "free_iters bs" a n False] assms(1) m(2) by (simp add: mem_rep_def)
  then have "8 dvd a + 72" by presburger
  then show ?thesis unfolding if_not_P [OF False] using m mem_round_exact(4) [OF assms(2,3)]
    by (intro exI [of _ p] exI [of _ s'] conjI exI [of _ xs] exI [of _ a] exI [of _ n] exI [of _ ys]) simp_all
qed

theorem mem_malloc_best_fit_witness:
  "\<exists>s p s'. mem_init example_mem = Some s \<and> mem_malloc s 100 = Some (p, s') \<and> p = 4168 \<and>
    mem_rep s' [(4096, 176, True), (4272, 10064, False)]"
proof -
  obtain s where s: "mem_init example_mem = Some s" "mem_rep s [(4096, 10240, False)]" using example_init by blast
  have r: "mem_round 100 = 176" by (simp add: mem_round_def sz_add_def Let_def)
  from mem_malloc_best_fit [OF s(2), of 100] obtain p s' where "mem_malloc s 100 = Some (p, s')" "p = 4168"
    "mem_rep s' [(4096, 176, True), (4272, 10064, False)]" by (auto simp: r taken_def Cons_eq_append_conv)
  then show ?thesis using s(1) by blast
qed

text \<open>\<^verbatim>\<open>mem_free\<close> returns for the pointer of every used block, and makes one free block of it and its free
  neighbours.\<close>
theorem mem_free_merges:
  assumes "mem_rep s (xs @ (a, n, True) # ys)"
  shows "\<exists>s'. mem_free s (a + 72) = Some s' \<and> mem_rep s' (freed xs a n ys)"
  using mem_free_ok [OF assms] .

theorem mem_free_merges_witness:
  "\<exists>s s'. mem_rep s [(4096, 176, True), (4272, 10064, False)] \<and> mem_free s 4168 = Some s' \<and> mem_rep s' [(4096, 10240, False)]"
proof -
  obtain s0 where s0: "mem_rep s0 [(4096, 10240, False)]" using example_init by blast
  have "\<exists>s1. mem_take s0 (iter_node 4096) 176 = Some (4096 + 72, s1) \<and> mem_rep s1 ([] @ taken 4096 10240 176 @ [])"
    by (rule mem_take_ok) (use s0 in simp_all)
  then obtain s where s: "mem_rep s [(4096, 176, True), (4272, 10064, False)]" by (auto simp: taken_def)
  from mem_free_merges [of s "[]" 4096 176 "[(4272, 10064, False)]"] s show ?thesis
    by (auto simp: freed_def merge_right_def merge_left_def)
qed

text \<open>Giving back what \<^verbatim>\<open>mem_malloc\<close> returned restores the blocks of the arena, when no two free blocks were neighbours.\<close>
theorem mem_malloc_free_restores:
  assumes "mem_rep s bs" "settled bs" "0 < w" "w + 80 < 2 ^ 64" "mem_malloc s w = Some (p, s1)" "p \<noteq> 0"
  shows "\<exists>s2. mem_free s1 p = Some s2 \<and> mem_rep s2 bs"
proof -
  have no: "\<not> (\<forall>(a, n, u) \<in> set bs. u \<or> n \<le> mem_round w)"
  proof
    assume all: "\<forall>(a, n, u) \<in> set bs. u \<or> n \<le> mem_round w"
    from mem_malloc_ok [OF assms(1,3,4), unfolded if_P [OF all]] assms(5,6) show False by simp
  qed
  from mem_malloc_ok [OF assms(1,3,4), unfolded if_not_P [OF no]] assms(5) obtain xs a n ys where m: "bs = xs @ (a, n, False) # ys"
    "mem_round w < n" "p = a + 72" "mem_rep s1 (xs @ taken a n (mem_round w) @ ys)" by auto
  from freed_taken [OF assms(2) [unfolded m(1)] m(2)] obtain k zs where k: "taken a n (mem_round w) @ ys = (a, k, True) # zs"
    "freed xs a k zs = bs" unfolding m(1) by blast
  from mem_free_ok [OF m(4) [unfolded k(1)]] show ?thesis by (simp add: k(2) m(3))
qed

theorem mem_malloc_free_restores_witness:
  "\<exists>s s1 s2. mem_init example_mem = Some s \<and> mem_malloc s 100 = Some (4168, s1) \<and> mem_free s1 4168 = Some s2 \<and>
    mem_rep s2 [(4096, 10240, False)]"
proof -
  obtain s where s: "mem_init example_mem = Some s" "mem_rep s [(4096, 10240, False)]" using example_init by blast
  have r: "mem_round 100 = 176" by (simp add: mem_round_def sz_add_def Let_def)
  from mem_malloc_ok [OF s(2), of 100] obtain s1 where s1: "mem_malloc s 100 = Some (4168, s1)"
    by (auto simp: r Cons_eq_append_conv)
  from mem_malloc_free_restores [OF s(2) _ _ _ s1] s(1) s1 show ?thesis by (auto simp: settled_def)
qed

text \<open>C32. In every state that initialisation and any sequence of allocations and releases lead to, the blocks tile the
  arena without overlap, the tree holds exactly the free ones, the byte count is right, and no two free blocks are
  neighbours.\<close>
theorem mem_reach_tiled:
  assumes "mem_reach s0 s" "s0 = mem_static c a raw" "placed s0"
  shows "\<exists>bs. mem_rep s bs \<and> settled bs"
  using assms
proof (induction rule: mem_reach.induct)
  case (start s)
  then show ?case using mem_init_ok [of c a raw] by (auto simp: settled_def)
next
  case (malloc s w p s')
  then obtain bs where bs: "mem_rep s bs" "settled bs" by blast
  show ?case
  proof (cases "w = 0 \<or> (\<forall>(a, n, u) \<in> set bs. u \<or> n \<le> mem_round w)")
    case True
    then have "s' = s" using mem_malloc_ok [OF bs(1), of w] malloc.hyps(2,3) by (cases "w = 0") (auto simp: mem_malloc_def)
    then show ?thesis using bs by blast
  next
    case False
    then have w: "0 < w" by simp
    have no: "\<not> (\<forall>(a, n, u) \<in> set bs. u \<or> n \<le> mem_round w)" using False by blast
    from mem_malloc_ok [OF bs(1) w malloc.hyps(2), unfolded if_not_P [OF no]] malloc.hyps(3) obtain xs a n ys where
      "bs = xs @ (a, n, False) # ys" "mem_rep s' (xs @ taken a n (mem_round w) @ ys)" by auto
    then show ?thesis using settled_taken bs(2) by blast
  qed
next
  case (free s p s')
  then obtain bs where bs: "mem_rep s bs" "settled bs" by blast
  from rep_used [OF bs(1) free.hyps(3)] obtain xs n ys where b: "bs = xs @ (p - 72, n, True) # ys" by blast
  from mem_free_ok [OF bs(1) [unfolded b]] free.hyps(2,4) have "mem_rep s' (freed xs (p - 72) n ys)" by auto
  then show ?case using settled_freed bs(2) unfolding b by blast
qed

theorem mem_reach_tiled_witness:
  "\<exists>s1 s2 bs. mem_reach example_mem s1 \<and> mem_malloc s1 100 = Some (4168, s2) \<and> mem_rep s2 bs \<and> settled bs"
proof -
  obtain s where s: "mem_init example_mem = Some s" "mem_rep s [(4096, 10240, False)]" using example_init by blast
  have r: "mem_round 100 = 176" by (simp add: mem_round_def sz_add_def Let_def)
  from mem_malloc_ok [OF s(2), of 100] obtain s1 where s1: "mem_malloc s 100 = Some (4168, s1)"
    by (auto simp: r Cons_eq_append_conv)
  have "mem_reach example_mem s" using s(1) by (rule mem_reach.start)
  moreover from this have "mem_reach example_mem s1" by (rule mem_reach.malloc [OF _ _ s1]) simp
  from mem_reach_tiled [OF this example_mem_def] have "\<exists>bs. mem_rep s1 bs \<and> settled bs"
    by (simp add: placed_def example_mem_def mem_static_def MEM_CONFIG_HEAP_def)
  ultimately show ?thesis using s1 by blast
qed

text \<open>A request near the end of the number range wraps around to one smaller than a header: on an arena with one free
  block it is not refused, but the header of the rest is written over the header of the block.\<close>
theorem mem_malloc_wraps:
  assumes "mem_rep s [(a, n, False)]" "2 ^ 64 - 72 \<le> w" "w + 8 \<le> 2 ^ 64" "216 < n"
  shows "mem_malloc s w = None"
proof -
  let ?bs = "[(a, n, False)] :: mblock list" and ?t = "mem_tree s"
  have core: "mem_core s ?bs {iter_node a}" using assms(1) by (simp add: mem_rep_def)
  note ca = core_blocks [OF core, of a n False, simplified]
  have ix: "ri.indexed ?t {iter_node a}" using core unfolding mem_core_def by blast
  define k where "k = w + 72 - 2 ^ 64"
  have k: "sz_add w 72 = k" "k \<le> 64" using assms(2,3) by (simp_all add: k_def sz_add_def mod_if)
  have rw: "mem_round w \<le> 64"
  proof -
    have "sz_add k (8 - k mod 8) = k + (8 - k mod 8)" using k(2) by (intro sz_add_exact) simp
    moreover have "k mod 8 \<noteq> 0 \<Longrightarrow> k + (8 - k mod 8) \<le> 64" using k(2) by presburger
    ultimately show ?thesis using k by (simp add: mem_round_def Let_def)
  qed
  have v: "value_of ?t (iter_node a) = Some (of_nat n)" "unat (of_nat n :: u32) = n"
    using ca(2,8) by (simp_all add: size_of_def unat_of_nat MEM_CONFIG_HEAP_def)
  have "block_ok s (a, n, False)" using core unfolding mem_core_def by (meson list.set_intros(1))
  then have "vals ?t (iter_node a) = of_nat n" by simp
  then have vn: "unat (vals ?t (iter_node a)) = n" using v(2) by simp
  have last: "last_node ?t = iter_node a" using ri.biggest_indexed [OF ix] by simp
  from ri.greater_indexed [OF ix, of "mem_round w"] obtain g where "rb_first_greater ?t (mem_round w) = Some g"
    "g = 0 \<Longrightarrow> unat (vals ?t (iter_node a)) \<le> mem_round w" "g \<noteq> 0 \<Longrightarrow> g = iter_node a" by (auto split: if_splits)
  then have g: "rb_first_greater ?t (mem_round w) = Some (iter_node a)" using rw vn assms(4) by (auto split: if_splits)
  have "dlist (mh_links s) (cache_node s) (map fst ?bs)" using core unfolding mem_core_def by blast
  then have "dlist (mh_links s) (cache_node s) [a]" by simp
  from dlist_unfold(2) [OF this] ca(11) obtain c where c: "mh_links s (cache_node s) = Some c" "prv c \<noteq> 0" by auto
  have w0: "w \<noteq> 0" using assms(2) by auto
  have run: "mem_malloc s w = mem_take s (iter_node a) (mem_round w)"
    using c w0 last v g rw assms(4) by (simp add: mem_malloc_def Let_def)
  have "iter_node a \<in> {iter_node a}" by simp
  from core_remove [OF core this] obtain s1 where s1: "on_tree s (\<lambda>t. rb_remove_node t (iter_node a)) = Some s1" "mem_core s1 ?bs {}" by auto
  from core_used [of s1 "[]" a n False "[]" "{}" True] s1(2) obtain s2 where s2: "set_used s1 a 1 = Some s2" "mem_core s2 [(a, n, True)] {}" by auto
  have "dom (mh_used s2) = fst ` set [(a, n, True)]" using s2(2) unfolding mem_core_def by blast
  then have "mh_used s2 a \<noteq> None" by auto
  then have "\<not> header_free s2 (a + mem_round w)" using rw unfolding header_free_def mem_sizes by (auto intro!: exI [of _ "mem_round w"])
  moreover have "sz_sub n (mem_round w) = n - mem_round w" using rw assms(4) ca(2) by (intro sz_sub_exact) (simp_all add: MEM_CONFIG_HEAP_def)
  ultimately have "mem_split s2 a n (mem_round w) = None" using rw assms(4) by (simp add: mem_split_def carve_def)
  then show ?thesis unfolding run using v s1(1) s2(1) by (simp add: mem_take_def)
qed

theorem mem_malloc_wraps_witness: "\<exists>s. mem_init example_mem = Some s \<and> mem_malloc s (2 ^ 64 - 64) = None"
proof -
  obtain s where s: "mem_init example_mem = Some s" "mem_rep s [(4096, 10240, False)]" using example_init by blast
  with mem_malloc_wraps [OF s(2), of "2 ^ 64 - 64"] show ?thesis by auto
qed

end
