(* ===== verification/Radix.thy ===== *)
theory Radix
  imports Allocator Bits
begin

text \<open>
  The radix tree of \<^verbatim>\<open>lib/source/radix.c\<close>: sixteen slots to a node, four bits of the index to a level. Nodes are
  heap blocks that point to their parent; the slots of the nodes of height one hold the items. The first root
  node of a tree has the root struct itself as its parent, cast to a node; \<open>radix_slot\<close> therefore gives the
  sixteen bytes of that struct a meaning when they are read as the first two slots of a node.
\<close>

section \<open>State\<close>

definition BIT_LEVEL :: nat where "BIT_LEVEL = 4"
definition SIZE_LEVEL :: nat where "SIZE_LEVEL = push_bit BIT_LEVEL 1"

record radix_node =
  rn_slots :: "addr list"
  rn_parent :: addr
  rn_offset :: u8
  rn_count :: u32
  rn_height :: u32

text \<open>The root struct with its address, the nodes, and the heap they are taken from.\<close>

record radix =
  rt_at :: addr
  rt_height :: u32
  rt_count :: u32
  rt_rnode :: addr
  rt_nodes :: "addr \<rightharpoonup> radix_node"
  rt_heap :: heap

definition radix_node_size :: nat where "radix_node_size = 152"

text \<open>Reading \<^verbatim>\<open>node->slots[i]\<close>.\<close>

definition radix_slot :: "radix \<Rightarrow> addr \<Rightarrow> nat \<Rightarrow> addr option" where
  "radix_slot s a i = (case rt_nodes s a of
       Some n \<Rightarrow> if i < SIZE_LEVEL then Some (rn_slots n ! i) else None
     | None \<Rightarrow> if a = rt_at s \<and> i = 0 then Some (unat (rt_height s) + 2 ^ 32 * unat (rt_count s))
         else if a = rt_at s \<and> i = 1 then Some (rt_rnode s) else None)"

definition radix_upd :: "radix \<Rightarrow> addr \<Rightarrow> (radix_node \<Rightarrow> radix_node) \<Rightarrow> radix option" where
  "radix_upd s a f = do { n \<leftarrow> rt_nodes s a; Some (s\<lparr>rt_nodes := (rt_nodes s)(a \<mapsto> f n)\<rparr>) }"

definition set_slot :: "radix \<Rightarrow> addr \<Rightarrow> nat \<Rightarrow> addr \<Rightarrow> radix option" where
  "set_slot s a i v = (if i < SIZE_LEVEL then radix_upd s a (\<lambda>n. n\<lparr>rn_slots := (rn_slots n)[i := v]\<rparr>) else None)"

text \<open>\<^verbatim>\<open>(index >> shift) & (SIZE_LEVEL - 1)\<close>; a shift by the width of \<^verbatim>\<open>size_t\<close> or more is undefined.\<close>

definition radix_offset :: "nat \<Rightarrow> nat \<Rightarrow> nat option" where
  "radix_offset index shift = (if shift < 64 then Some (drop_bit shift index AND (SIZE_LEVEL - 1)) else None)"

section \<open>Nodes and heights\<close>

definition radix_tree_height :: "nat \<Rightarrow> u8 option" where
  "radix_tree_height index = (if index = 0 then Some 1 else do {
     msb \<leftarrow> log2_clz64 (of_nat index);
     Some (of_nat (msb div BIT_LEVEL) + 1) })"

definition radix_tree_init :: "radix \<Rightarrow> radix" where
  "radix_tree_init s = s\<lparr>rt_height := 0, rt_count := 0, rt_rnode := 0\<rparr>"

definition radix_tree_node_init :: "u8 \<Rightarrow> radix_node" where
  "radix_tree_node_init height =
     \<lparr>rn_slots = replicate SIZE_LEVEL 0, rn_parent = 0, rn_offset = 0, rn_count = 0, rn_height = ucast height\<rparr>"

definition radix_tree_node_alloc :: "radix \<Rightarrow> u8 \<Rightarrow> (addr \<times> radix) option" where
  "radix_tree_node_alloc s height = do {
     (node, h) \<leftarrow> heap_malloc (rt_heap s) radix_node_size;
     let s = s\<lparr>rt_heap := h\<rparr>;
     if node = 0 then Some (0, s)
     else Some (node, s\<lparr>rt_count := rt_count s + 1, rt_nodes := (rt_nodes s)(node \<mapsto> radix_tree_node_init height)\<rparr>) }"

definition radix_tree_node_free :: "radix \<Rightarrow> addr \<Rightarrow> radix option" where
  "radix_tree_node_free s node = do {
     h \<leftarrow> heap_free (rt_heap s) node;
     Some (s\<lparr>rt_heap := h, rt_nodes := (rt_nodes s)(node := None), rt_count := rt_count s - 1\<rparr>) }"

section \<open>Insertion\<close>

partial_function (option) radix_tree_grow_height :: "radix \<Rightarrow> u8 \<Rightarrow> (int \<times> radix) option" where
  "radix_tree_grow_height s height = (if rt_height s < ucast height then do {
       let s = s\<lparr>rt_height := rt_height s + 1\<rparr>;
       (new_node, s) \<leftarrow> radix_tree_node_alloc s (ucast (rt_height s));
       if new_node = 0 then Some (- 1, s) else do {
         s \<leftarrow> radix_upd s new_node (\<lambda>n. n\<lparr>rn_offset := 0\<rparr>);
         s \<leftarrow> radix_upd s (rt_rnode s) (\<lambda>n. n\<lparr>rn_parent := new_node\<rparr>);
         s \<leftarrow> set_slot s new_node 0 (rt_rnode s);
         s \<leftarrow> radix_upd s new_node (\<lambda>n. n\<lparr>rn_count := rn_count n + 1\<rparr>);
         radix_tree_grow_height (s\<lparr>rt_rnode := new_node\<rparr>) height } }
     else Some (sint (rt_height s), s))"

text \<open>One round of the loop of \<^verbatim>\<open>radix_tree_grow_node\<close>: an empty slot gets a new node of the given height.
  The result says whether there is a node to descend to.\<close>

definition grow_slot :: "radix \<Rightarrow> u8 \<Rightarrow> addr \<Rightarrow> nat \<Rightarrow> (bool \<times> radix) option" where
  "grow_slot s height node off = do {
     v \<leftarrow> radix_slot s node off;
     if v = 0 then do {
       (p, s) \<leftarrow> radix_tree_node_alloc s height;
       s \<leftarrow> set_slot s node off p;
       if p = 0 then Some (False, s) else do {
         s \<leftarrow> radix_upd s node (\<lambda>n. n\<lparr>rn_count := rn_count n + 1\<rparr>);
         s \<leftarrow> radix_upd s p (\<lambda>n. n\<lparr>rn_offset := of_nat off\<rparr>);
         s \<leftarrow> radix_upd s p (\<lambda>n. n\<lparr>rn_parent := node\<rparr>);
         Some (True, s) } }
     else Some (True, s) }"

text \<open>The loop, with the rounds that are left: the leaf, or nothing when memory ran out.\<close>

primrec grow_path :: "nat \<Rightarrow> radix \<Rightarrow> nat \<Rightarrow> u8 \<Rightarrow> addr \<Rightarrow> (addr option \<times> radix) option" where
  "grow_path 0 s index shift node = Some (Some node, s)"
| "grow_path (Suc h) s index shift node = do {
     off \<leftarrow> radix_offset index (unat shift);
     (ok, s) \<leftarrow> grow_slot s (of_nat (Suc h)) node off;
     if ok then do {
       v \<leftarrow> radix_slot s node off;
       grow_path h s index (shift - of_nat BIT_LEVEL) v }
     else Some (None, s) }"

definition radix_tree_grow_node :: "radix \<Rightarrow> nat \<Rightarrow> addr \<Rightarrow> (int \<times> radix) option" where
  "radix_tree_grow_node s index item = do {
     let height = (ucast (rt_height s) :: u8);
     (leaf, s) \<leftarrow> grow_path (unat height - 1) s index ((height - 1) * of_nat BIT_LEVEL) (rt_rnode s);
     case leaf of None \<Rightarrow> Some (- 1, s) | Some leaf \<Rightarrow> do {
       let off = index AND (SIZE_LEVEL - 1);
       v \<leftarrow> radix_slot s leaf off;
       if v \<noteq> 0 then Some (- 1, s) else do {
         s \<leftarrow> set_slot s leaf off item;
         s \<leftarrow> radix_upd s leaf (\<lambda>n. n\<lparr>rn_count := rn_count n + 1\<rparr>);
         Some (0, s) } } }"

definition radix_tree_insert :: "radix \<Rightarrow> nat \<Rightarrow> addr \<Rightarrow> (int \<times> radix) option" where
  "radix_tree_insert s index item = do {
     height \<leftarrow> radix_tree_height index;
     if rt_rnode s = 0 then do {
       (p, s) \<leftarrow> radix_tree_node_alloc s height;
       let s = s\<lparr>rt_rnode := p\<rparr>;
       if p = 0 then Some (- 1, s) else do {
         s \<leftarrow> radix_upd s p (\<lambda>n. n\<lparr>rn_parent := rt_at s\<rparr>);
         radix_tree_grow_node (s\<lparr>rt_height := ucast height\<rparr>) index item } }
     else if rt_height s < ucast height then do {
       (r, s) \<leftarrow> radix_tree_grow_height s height;
       if r < 0 then Some (r, s) else radix_tree_grow_node s index item }
     else radix_tree_grow_node s index item }"

section \<open>Lookup\<close>

primrec lookup_path :: "nat \<Rightarrow> radix \<Rightarrow> nat \<Rightarrow> u32 \<Rightarrow> addr \<Rightarrow> addr option" where
  "lookup_path 0 s index shift node = Some node"
| "lookup_path (Suc h) s index shift node = do {
     off \<leftarrow> radix_offset index (unat shift);
     v \<leftarrow> radix_slot s node off;
     if v = 0 then Some 0 else lookup_path h s index (shift - of_nat BIT_LEVEL) v }"

definition radix_tree_lookup :: "radix \<Rightarrow> nat \<Rightarrow> addr option" where
  "radix_tree_lookup s index = (if rt_rnode s = 0 then Some 0
     else lookup_path (nat (sint (rt_height s))) s index ((rt_height s - 1) * of_nat BIT_LEVEL) (rt_rnode s))"

text \<open>The first slot in use among the \<open>n\<close> from \<open>i\<close> on; \<open>i + n\<close> when there is none.\<close>

primrec scan_slots :: "radix \<Rightarrow> addr \<Rightarrow> nat \<Rightarrow> nat \<Rightarrow> nat option" where
  "scan_slots s node i 0 = Some i"
| "scan_slots s node i (Suc n) = do {
     v \<leftarrow> radix_slot s node i;
     if v = 0 then scan_slots s node (Suc i) n else Some i }"

primrec left_path :: "nat \<Rightarrow> radix \<Rightarrow> addr \<Rightarrow> addr option" where
  "left_path 0 s node = Some node"
| "left_path (Suc h) s node = (if node = 0 then Some 0 else do {
     i \<leftarrow> scan_slots s node 0 SIZE_LEVEL;
     v \<leftarrow> radix_slot s node i;
     left_path h s v })"

definition radix_tree_node_left :: "radix \<Rightarrow> addr \<Rightarrow> addr option" where
  "radix_tree_node_left s node = (if node = 0 then Some 0 else do {
     n \<leftarrow> rt_nodes s node;
     left_path (nat (sint (rn_height n))) s node })"

definition radix_tree_root_left :: "radix \<Rightarrow> addr option" where
  "radix_tree_root_left s = radix_tree_node_left s (rt_rnode s)"

section \<open>Upper bound\<close>

text \<open>The search of the slots behind \<open>i\<close> that the three phases of the function share: the slot found, or \<open>0\<close>.\<close>

definition slot_from :: "radix \<Rightarrow> addr \<Rightarrow> nat \<Rightarrow> addr option" where
  "slot_from s node i = do {
     i \<leftarrow> scan_slots s node i (SIZE_LEVEL - i);
     if i < SIZE_LEVEL then radix_slot s node i else Some 0 }"

text \<open>The first loop: \<open>Inl\<close> is the result of the function, \<open>Inr\<close> the node at which the loop ends.\<close>

partial_function (option) upper_descend :: "radix \<Rightarrow> nat \<Rightarrow> u32 \<Rightarrow> addr \<Rightarrow> (addr + addr) option" where
  "upper_descend s index shift node = (if node = 0 then Some (Inr 0) else do {
     n \<leftarrow> rt_nodes s node;
     if 1 < rn_height n then do {
       off \<leftarrow> radix_offset index (unat shift);
       v \<leftarrow> radix_slot s node off;
       if v \<noteq> 0 then upper_descend s index (shift - of_nat BIT_LEVEL) v
       else do {
         v \<leftarrow> slot_from s node (Suc off);
         if v \<noteq> 0 then do { r \<leftarrow> radix_tree_node_left s v; Some (Inl r) }
         else Some (Inr node) } }
     else Some (Inr node) })"

text \<open>The search in the leaf: \<open>0\<close> when it has to go on.\<close>

definition upper_leaf :: "radix \<Rightarrow> nat \<Rightarrow> addr \<Rightarrow> addr option" where
  "upper_leaf s index node = (if node = 0 then Some 0 else do {
     n \<leftarrow> rt_nodes s node;
     if rn_height n = 1 then do {
       let off = index AND (SIZE_LEVEL - 1);
       v \<leftarrow> radix_slot s node off;
       if v \<noteq> 0 then Some v else slot_from s node (Suc off) }
     else Some 0 })"

partial_function (option) upper_climb :: "radix \<Rightarrow> addr \<Rightarrow> addr option" where
  "upper_climb s node = (if node = 0 then Some 0 else do {
     n \<leftarrow> rt_nodes s node;
     if rn_parent n \<noteq> 0 then do {
       v \<leftarrow> slot_from s (rn_parent n) (unat (rn_offset n + 1));
       if v \<noteq> 0 then radix_tree_node_left s v else upper_climb s (rn_parent n) }
     else Some 0 })"

definition radix_tree_lookup_upper_bound :: "radix \<Rightarrow> nat \<Rightarrow> addr option" where
  "radix_tree_lookup_upper_bound s index = (if rt_rnode s = 0 then Some 0 else do {
     r \<leftarrow> upper_descend s index ((rt_height s - 1) * of_nat BIT_LEVEL) (rt_rnode s);
     case r of Inl v \<Rightarrow> Some v | Inr node \<Rightarrow> do {
       v \<leftarrow> upper_leaf s index node;
       if v \<noteq> 0 then Some v else upper_climb s node } })"

section \<open>Deletion\<close>

primrec delete_path :: "nat \<Rightarrow> radix \<Rightarrow> nat \<Rightarrow> u8 \<Rightarrow> addr \<Rightarrow> addr option" where
  "delete_path 0 s index shift node = Some node"
| "delete_path (Suc h) s index shift node = (if node = 0 then Some 0 else do {
     off \<leftarrow> radix_offset index (unat shift);
     v \<leftarrow> radix_slot s node off;
     delete_path h s index (shift - of_nat BIT_LEVEL) v })"

text \<open>The loop that frees the nodes that became empty.\<close>

partial_function (option) prune :: "radix \<Rightarrow> addr \<Rightarrow> (addr \<times> radix) option" where
  "prune s node = do {
     n \<leftarrow> rt_nodes s node;
     if rn_count n = 0 \<and> node \<noteq> rt_rnode s then do {
       s \<leftarrow> radix_tree_node_free s node;
       s \<leftarrow> set_slot s (rn_parent n) (unat (rn_offset n)) 0;
       s \<leftarrow> radix_upd s (rn_parent n) (\<lambda>n. n\<lparr>rn_count := rn_count n - 1\<rparr>);
       prune s (rn_parent n) }
     else Some (node, s) }"

definition prune_root :: "radix \<Rightarrow> addr \<Rightarrow> radix option" where
  "prune_root s node = (if rt_rnode s \<noteq> 0 then do {
       n \<leftarrow> rt_nodes s (rt_rnode s);
       if rn_count n = 0 then do {
         s \<leftarrow> radix_tree_node_free s node;
         Some (s\<lparr>rt_rnode := 0, rt_height := 0\<rparr>) }
       else Some s }
     else Some s)"

definition radix_tree_delete :: "radix \<Rightarrow> nat \<Rightarrow> (addr \<times> radix) option" where
  "radix_tree_delete s index = do {
     height \<leftarrow> radix_tree_height index;
     if sint (rt_height s) < int (unat height) then Some (0, s) else do {
       node \<leftarrow> delete_path (nat (sint (rt_height s)) - 1) s index (ucast ((rt_height s - 1) * of_nat BIT_LEVEL)) (rt_rnode s);
       if node = 0 then Some (0, s) else do {
         let off = index AND (SIZE_LEVEL - 1);
         item \<leftarrow> radix_slot s node off;
         if item = 0 then Some (0, s) else do {
           s \<leftarrow> set_slot s node off 0;
           s \<leftarrow> radix_upd s node (\<lambda>n. n\<lparr>rn_count := rn_count n - 1\<rparr>);
           (node, s) \<leftarrow> prune s node;
           s \<leftarrow> prune_root s node;
           Some (item, s) } } } }"

end
