(* ===== verification/Radix_Search.thy ===== *)
theory Radix_Search
  imports Radix
begin

text \<open>
  Correctness of the radix tree. A tree is a map from pairs of a level and a prefix to pointers: the entries
  of level \<open>0\<close> are the items by their index, those of level \<open>h\<close> the nodes of height \<open>h\<close> by the bits
  of the index above them. The tree determines each node, so every operation is an update of this map.
\<close>

section \<open>Digits of an index\<close>

lemma radix_levels [simp]: "BIT_LEVEL = 4" "SIZE_LEVEL = 16"
  by (simp_all add: BIT_LEVEL_def SIZE_LEVEL_def)

lemma and_15: "(k :: nat) AND 15 = k mod 16"
  using take_bit_eq_mask [of 4 k] by (simp add: take_bit_eq_mod mask_eq_exp_minus_1)

lemma div_16: "(k :: nat) div 16 ^ h div 16 = k div 16 ^ Suc h"
  by (simp only: power_Suc2 div_mult2_eq)

lemma digit_split: "16 * ((k :: nat) div 16 ^ Suc h) + k div 16 ^ h mod 16 = k div 16 ^ h"
  using mult_div_mod_eq [of 16 "k div 16 ^ h"] by (simp add: div_16)

lemma digit_less: "(k :: nat) < 16 ^ H \<Longrightarrow> h \<le> H \<Longrightarrow> k div 16 ^ h < 16 ^ (H - h)"
  by (simp add: less_mult_imp_div_less power_add [symmetric])

lemma digit_mod: "h < H \<Longrightarrow> (k :: nat) mod 16 ^ H div 16 ^ h mod 16 = k div 16 ^ h mod 16"
proof -
  assume "h < H"
  then obtain d where H: "H = h + Suc d" by (metis add_Suc_right less_imp_Suc_add)
  have "k mod 16 ^ H div 16 ^ h = k div 16 ^ h mod 16 ^ Suc d"
    unfolding H power_add by (simp add: mod_mult2_eq mult.commute)
  moreover have "(16 :: nat) dvd 16 ^ Suc d" by simp
  ultimately show ?thesis by (simp only: mod_mod_cancel)
qed

lemma power_4: "(2 :: nat) ^ (4 * h) = 16 ^ h"
  by (simp add: power_mult)

lemma radix_offset_level: "h < 16 \<Longrightarrow> radix_offset k (4 * h) = Some (k div 16 ^ h mod 16)"
  by (simp add: radix_offset_def and_15 drop_bit_eq_div power_4)

lemma radix_height_eq:
  assumes "k < 2 ^ 64"
  shows "\<exists>w. radix_tree_height k = Some w \<and> 1 \<le> unat w \<and> unat w \<le> 16 \<and> (\<forall>h \<ge> 1. k < 16 ^ h \<longleftrightarrow> unat w \<le> h)"
proof (cases "k = 0")
  case True
  then show ?thesis by (intro exI [of _ 1]) (simp add: radix_tree_height_def)
next
  case False
  have u: "unat (of_nat k :: u64) = k" using assms by (simp add: unat_of_nat)
  then have n: "(of_nat k :: u64) \<noteq> 0" using False by (metis unat_0)
  have b: "bit_width k \<le> 64" "1 \<le> bit_width k" using bit_width_le_iff [of k 64] assms bit_width_pos [of k] False by simp_all
  then have d: "(bit_width k - 1) div 4 \<le> 15" by simp
  let ?w = "of_nat ((bit_width k - 1) div 4) + 1 :: u8"
  have w: "unat ?w = (bit_width k - 1) div 4 + 1"
  proof -
    have "?w = of_nat ((bit_width k - 1) div 4 + 1)" by simp
    moreover have "unat (of_nat ((bit_width k - 1) div 4 + 1) :: u8) = (bit_width k - 1) div 4 + 1"
      using d by (subst unat_of_nat) simp
    ultimately show ?thesis by metis
  qed
  have "k < 16 ^ h \<longleftrightarrow> unat ?w \<le> h" if "1 \<le> h" for h
  proof -
    have "k < 16 ^ h \<longleftrightarrow> bit_width k \<le> 4 * h" using bit_width_le_iff [of k "4 * h"] by (simp add: power_4)
    also have "\<dots> \<longleftrightarrow> (bit_width k - 1) div 4 + 1 \<le> h"
      using div_less_iff_less_mult [of 4 "bit_width k - 1" h] b(2) by linarith
    finally show ?thesis unfolding w .
  qed
  moreover have "radix_tree_height k = Some ?w"
    using False log2_clz64_eq [OF n] by (simp add: radix_tree_height_def u)
  ultimately show ?thesis using w d by (intro exI [of _ ?w]) simp
qed

section \<open>The tree\<close>

type_synonym radix_map = "nat \<times> nat \<rightharpoonup> addr"

definition ptr :: "addr option \<Rightarrow> addr" where
  "ptr x = (case x of None \<Rightarrow> 0 | Some a \<Rightarrow> a)"

lemma ptr_simps [simp]: "ptr None = 0" "ptr (Some a) = a"
  by (simp_all add: ptr_def)

definition children :: "radix_map \<Rightarrow> nat \<Rightarrow> nat \<Rightarrow> nat set" where
  "children T g p = {i. i < 16 \<and> T (g, 16 * p + i) \<noteq> None}"

text \<open>The node of height \<open>Suc g\<close> and prefix \<open>p\<close> in a tree of height \<open>H\<close>, whose root points to \<open>tp\<close>.\<close>

definition node_image :: "radix_map \<Rightarrow> nat \<Rightarrow> addr \<Rightarrow> nat \<Rightarrow> nat \<Rightarrow> radix_node" where
  "node_image T H tp g p = \<lparr>rn_slots = map (\<lambda>i. ptr (T (g, 16 * p + i))) [0..<16],
     rn_parent = (if Suc g = H then tp else ptr (T (Suc (Suc g), p div 16))),
     rn_offset = of_nat (p mod 16), rn_count = of_nat (card (children T g p)), rn_height = of_nat (Suc g)\<rparr>"

definition tree_map :: "nat \<Rightarrow> radix_map \<Rightarrow> bool" where
  "tree_map H T \<longleftrightarrow>
     (\<forall>h p a. T (h, p) = Some a \<longrightarrow> a \<noteq> 0 \<and> 0 < H \<and> h \<le> H \<and> p < 16 ^ (H - h)) \<and>
     (\<forall>h p. T (h, p) \<noteq> None \<longrightarrow> h < H \<longrightarrow> T (Suc h, p div 16) \<noteq> None) \<and>
     (\<forall>g p g' p' a. T (Suc g, p) = Some a \<longrightarrow> T (Suc g', p') = Some a \<longrightarrow> g = g' \<and> p = p')"

definition tree_nodes :: "radix_map \<Rightarrow> addr set" where
  "tree_nodes T = {a. \<exists>g p. T (Suc g, p) = Some a}"

text \<open>The state holds the tree: the heap owns its nodes beside the blocks of \<open>B\<close>.\<close>

definition radix_rep :: "addr set \<Rightarrow> radix \<Rightarrow> nat \<Rightarrow> addr \<Rightarrow> radix_map \<Rightarrow> bool" where
  "radix_rep B s H tp T \<longleftrightarrow> tree_map H T \<and> H \<le> 16 \<and> (tp = 0 \<or> tp = rt_at s) \<and> (0 < H \<longrightarrow> T (H, 0) \<noteq> None) \<and>
     rt_height s = of_nat H \<and> rt_rnode s = (if H = 0 then 0 else ptr (T (H, 0))) \<and>
     dom (rt_nodes s) = tree_nodes T \<and> rt_count s = of_nat (card (tree_nodes T)) \<and>
     (\<forall>g p a. T (Suc g, p) = Some a \<longrightarrow> rt_nodes s a = Some (node_image T H tp g p)) \<and>
     heap_owns (rt_heap s) (B \<union> tree_nodes T) \<and> B \<inter> tree_nodes T = {}"

definition keys :: "radix_map \<Rightarrow> nat set" where
  "keys T = {k. T (0, k) \<noteq> None}"

text \<open>Every node is on the way to an index of \<open>D\<close>.\<close>

definition covered :: "radix_map \<Rightarrow> nat set \<Rightarrow> bool" where
  "covered T D \<longleftrightarrow> (\<forall>g p. T (Suc g, p) \<noteq> None \<longrightarrow> (\<exists>k \<in> D. k div 16 ^ Suc g = p))"

lemma tree_mapD:
  assumes "tree_map H T"
  shows "T (h, p) = Some a \<Longrightarrow> a \<noteq> 0" "T (h, p) = Some a \<Longrightarrow> 0 < H" "T (h, p) = Some a \<Longrightarrow> h \<le> H"
    "T (h, p) = Some a \<Longrightarrow> p < 16 ^ (H - h)"
    "T (h, p) \<noteq> None \<Longrightarrow> h < H \<Longrightarrow> T (Suc h, p div 16) \<noteq> None"
    "T (Suc g, p) = Some a \<Longrightarrow> T (Suc g', p') = Some a \<Longrightarrow> g = g' \<and> p = p'"
  using assms unfolding tree_map_def by blast+

text \<open>The way up from an item.\<close>

lemma tree_up:
  assumes "tree_map H T" "T (g, k div 16 ^ g) \<noteq> None" "g \<le> h" "h \<le> H"
  shows "T (h, k div 16 ^ h) \<noteq> None"
  using assms(3,4)
proof (induction h rule: dec_induct)
  case (step h)
  then have "T (Suc h, k div 16 ^ h div 16) \<noteq> None" using tree_mapD(5) [OF assms(1), of h] by simp
  then show ?case unfolding div_16 .
qed (use assms(2) in simp)

lemma key_up: "tree_map H T \<Longrightarrow> k \<in> keys T \<Longrightarrow> h \<le> H \<Longrightarrow> T (h, k div 16 ^ h) \<noteq> None"
  using tree_up [of H T 0 k h] by (simp add: keys_def)

lemma key_less: "tree_map H T \<Longrightarrow> k \<in> keys T \<Longrightarrow> k < 16 ^ H"
  using tree_mapD(4) [of H T 0 k] by (auto simp: keys_def)

lemma ptr_eq_0: "tree_map H T \<Longrightarrow> ptr (T x) = 0 \<longleftrightarrow> T x = None"
  using tree_mapD(1) [of H T "fst x" "snd x"] by (cases "T x") auto

lemma image_slot [simp]: "i < 16 \<Longrightarrow> rn_slots (node_image T H tp g p) ! i = ptr (T (g, 16 * p + i))"
  by (simp add: node_image_def)

lemma rep_slot:
  assumes "radix_rep B s H tp T" "T (Suc g, p) = Some a" "i < 16"
  shows "radix_slot s a i = Some (ptr (T (g, 16 * p + i)))"
proof -
  have "rt_nodes s a = Some (node_image T H tp g p)" using assms(1,2) unfolding radix_rep_def by blast
  then show ?thesis using assms(3) by (simp add: radix_slot_def)
qed

section \<open>Words\<close>

lemma shift_first:
  assumes "0 < H" "H \<le> 16"
  shows "unat ((of_nat H - 1) * of_nat BIT_LEVEL :: u32) = 4 * (H - 1)" "unat ((of_nat H - 1) * of_nat BIT_LEVEL :: u8) = 4 * (H - 1)"
proof -
  obtain g where H: "H = Suc g" using assms(1) by (cases H) auto
  have w: "(of_nat H - 1) * of_nat BIT_LEVEL = (of_nat (4 * g) :: 'a :: len word)" unfolding H by simp
  show "unat ((of_nat H - 1) * of_nat BIT_LEVEL :: u32) = 4 * (H - 1)" "unat ((of_nat H - 1) * of_nat BIT_LEVEL :: u8) = 4 * (H - 1)"
    unfolding w by (subst unat_of_nat, use assms(2) H in simp)+
qed

lemma shift_next: "unat (w :: 'a :: len word) = 4 * Suc h \<Longrightarrow> 2 < LENGTH('a) \<Longrightarrow> unat (w - of_nat BIT_LEVEL) = 4 * h"
proof -
  assume w: "unat w = 4 * Suc h" and l: "2 < LENGTH('a)"
  have "(2 :: nat) ^ 3 \<le> 2 ^ LENGTH('a)" using l by (intro power_increasing) simp_all
  then have "unat (of_nat BIT_LEVEL :: 'a word) = 4" by (simp add: unat_of_nat del: of_nat_numeral)
  moreover from this have "of_nat BIT_LEVEL \<le> w" using w by (simp add: word_le_nat_alt)
  ultimately show ?thesis using w by (simp add: unat_sub)
qed

lemma small_height:
  assumes "H \<le> 16"
  shows "sint (of_nat H :: u32) = int H" "unat (ucast (of_nat H :: u32) :: u8) = H" "unat (of_nat H :: u32) = H" "unat (of_nat H :: u8) = H"
proof -
  have "H \<in> set [0..<17]" using assms by simp
  then have "sint (of_nat H :: u32) = int H \<and> unat (ucast (of_nat H :: u32) :: u8) = H \<and> unat (of_nat H :: u32) = H \<and> unat (of_nat H :: u8) = H"
    by (simp add: upt_rec [of _ 17]) (elim disjE; simp)
  then show "sint (of_nat H :: u32) = int H" "unat (ucast (of_nat H :: u32) :: u8) = H" "unat (of_nat H :: u32) = H" "unat (of_nat H :: u8) = H" by blast+
qed

section \<open>Lookup\<close>

lemma rep_map: "radix_rep B s H tp T \<Longrightarrow> tree_map H T"
  by (simp add: radix_rep_def)

lemma rep_node: "radix_rep B s H tp T \<Longrightarrow> T (Suc g, p) = Some a \<Longrightarrow> rt_nodes s a = Some (node_image T H tp g p)"
  unfolding radix_rep_def by blast

lemma rep_level: "radix_rep B s H tp T \<Longrightarrow> T (h, p) = Some a \<Longrightarrow> h \<le> 16"
  using tree_mapD(3) [OF rep_map, of B s H tp T h p a] by (simp add: radix_rep_def)

lemma rep_root:
  assumes "radix_rep B s H tp T" "0 < H"
  obtains a where "T (H, 0) = Some a" "rt_rnode s = a" "a \<noteq> 0"
  using assms tree_mapD(1) [OF rep_map [OF assms(1)], of H 0] unfolding radix_rep_def by auto

lemma rep_empty: "radix_rep B s 0 tp T \<Longrightarrow> T = Map.empty \<and> rt_rnode s = 0"
proof -
  assume rep: "radix_rep B s 0 tp T"
  have "T x = None" for x using tree_mapD(2) [OF rep_map [OF rep], of "fst x" "snd x"] by (cases "T x") auto
  then show ?thesis using rep by (auto simp: radix_rep_def)
qed

text \<open>A walk that starts \<open>e\<close> levels too high in the index, and goes on for \<open>n\<close> rounds behind the item.\<close>

lemma lookup_path_ok:
  assumes mp: "tree_map H T" and sl: "\<And>g p a i. T (Suc g, p) = Some a \<Longrightarrow> i < 16 \<Longrightarrow> radix_slot s a i = Some (ptr (T (g, 16 * p + i)))"
  shows "T (h, k div 16 ^ h) = Some a \<Longrightarrow> 0 < h + e \<longrightarrow> unat shift = 4 * (h + e - 1) \<Longrightarrow> h + e \<le> 16 \<Longrightarrow>
    \<forall>g < h. j div 16 ^ (g + e) mod 16 = k div 16 ^ g mod 16 \<Longrightarrow>
    (case T (0, k) of None \<Rightarrow> lookup_path (h + n) s j shift a = Some 0
     | Some x \<Rightarrow> \<exists>w. (0 < e \<longrightarrow> unat w = 4 * (e - 1)) \<and> lookup_path (h + n) s j shift a = lookup_path n s j w x)"
proof (induction h arbitrary: a shift)
  case 0
  then show ?case by auto
next
  case (Suc h)
  have off: "radix_offset j (unat shift) = Some (k div 16 ^ h mod 16)"
    using Suc.prems(2,3) Suc.prems(4) [rule_format, of h] radix_offset_level [of "h + e" j] by simp
  have sl': "radix_slot s a (k div 16 ^ h mod 16) = Some (ptr (T (h, k div 16 ^ h)))"
    using sl [OF Suc.prems(1), of "k div 16 ^ h mod 16"] unfolding digit_split by simp
  have sh: "0 < h + e \<longrightarrow> unat (shift - of_nat BIT_LEVEL) = 4 * (h + e - 1)"
    using Suc.prems(2) shift_next [of shift "h + e - 1"] by auto
  show ?case
  proof (cases "T (h, k div 16 ^ h)")
    case None
    moreover have "h \<le> H" using tree_mapD(3) [OF mp Suc.prems(1)] by simp
    ultimately have "k \<notin> keys T" using key_up [OF mp _ \<open>h \<le> H\<close>, of k] by blast
    then have "T (0, k) = None" by (simp add: keys_def)
    then show ?thesis using off sl' None by simp
  next
    case (Some b)
    have "\<forall>g < h. j div 16 ^ (g + e) mod 16 = k div 16 ^ g mod 16" "h + e \<le> 16" using Suc.prems(3,4) by simp_all
    from Suc.IH [OF Some sh this(2,1)] show ?thesis
      using off sl' Some tree_mapD(1) [OF mp Some] by (simp cong: option.case_cong)
  qed
qed

lemma lookup_ok:
  assumes rep: "radix_rep B s H tp T"
  shows "radix_tree_lookup s j = Some (ptr (T (0, j mod 16 ^ H)))"
proof (cases "H = 0")
  case True
  then show ?thesis using rep_empty [of B s tp T] rep by (simp add: radix_tree_lookup_def)
next
  case False
  with rep obtain a where a: "T (H, 0) = Some a" "rt_rnode s = a" "a \<noteq> 0" by (auto elim: rep_root)
  have H: "H \<le> 16" "rt_height s = of_nat H" using rep by (simp_all add: radix_rep_def)
  have z: "j mod 16 ^ H div 16 ^ H = 0" by simp
  have "T (H, j mod 16 ^ H div 16 ^ H) = Some a" using a(1) unfolding z .
  from lookup_path_ok [OF rep_map [OF rep] rep_slot [OF rep] this, of 0 "(rt_height s - 1) * of_nat BIT_LEVEL" j 0] False shift_first(1) [of H] H
  have "lookup_path H s j ((rt_height s - 1) * of_nat BIT_LEVEL) a = Some (ptr (T (0, j mod 16 ^ H)))"
    by (cases "T (0, j mod 16 ^ H)") (auto simp: digit_mod)
  then show ?thesis using a small_height [OF H(1)] H(2) by (simp add: radix_tree_lookup_def)
qed

section \<open>The leftmost item\<close>

definition under :: "radix_map \<Rightarrow> nat \<Rightarrow> nat \<Rightarrow> nat set" where
  "under T h p = {k \<in> keys T. k div 16 ^ h = p}"

text \<open>The item of the least index of a set, or \<^verbatim>\<open>NULL\<close>.\<close>

definition least_item :: "radix_map \<Rightarrow> nat set \<Rightarrow> addr" where
  "least_item T A = (if A = {} then 0 else ptr (T (0, LEAST k. k \<in> A)))"

lemma least_item_eq: "k \<in> A \<Longrightarrow> (\<And>j. j \<in> A \<Longrightarrow> k \<le> j) \<Longrightarrow> least_item T A = ptr (T (0, k))"
  using Least_equality [of "\<lambda>k. k \<in> A" k] by (auto simp: least_item_def)

lemma scan_ok:
  assumes "\<And>i. i < 16 \<Longrightarrow> radix_slot s a i = Some (f i)"
  shows "i + n = 16 \<Longrightarrow> \<exists>m. scan_slots s a i n = Some m \<and> i \<le> m \<and> m \<le> 16 \<and> (\<forall>j. i \<le> j \<longrightarrow> j < m \<longrightarrow> f j = 0) \<and> (m < 16 \<longrightarrow> f m \<noteq> 0)"
proof (induction n arbitrary: i)
  case (Suc n)
  show ?case
  proof (cases "f i = 0")
    case True
    from Suc.IH [of "Suc i"] Suc.prems obtain m where "scan_slots s a (Suc i) n = Some m" "Suc i \<le> m" "m \<le> 16"
      "\<forall>j. Suc i \<le> j \<longrightarrow> j < m \<longrightarrow> f j = 0" "m < 16 \<longrightarrow> f m \<noteq> 0" by auto
    moreover from this have "\<forall>j. i \<le> j \<longrightarrow> j < m \<longrightarrow> f j = 0" using True by (metis Suc_leI le_neq_implies_less)
    ultimately show ?thesis using True assms [of i] Suc.prems by (intro exI [of _ m]) simp
  next
    case False
    then show ?thesis using assms [of i] Suc.prems by (intro exI [of _ i]) auto
  qed
qed simp

lemma slot_from_ok:
  assumes "radix_rep B s H tp T" "T (Suc g, p) = Some a" "i \<le> 16"
  shows "\<exists>v. slot_from s a i = Some v \<and> (v = 0 \<and> (\<forall>j. i \<le> j \<longrightarrow> j < 16 \<longrightarrow> T (g, 16 * p + j) = None) \<or>
    v \<noteq> 0 \<and> (\<exists>m. i \<le> m \<and> m < 16 \<and> T (g, 16 * p + m) = Some v \<and> (\<forall>j. i \<le> j \<longrightarrow> j < m \<longrightarrow> T (g, 16 * p + j) = None)))"
proof -
  note z = ptr_eq_0 [OF rep_map [OF assms(1)]]
  from scan_ok [of s a "\<lambda>i. ptr (T (g, 16 * p + i))" i "16 - i", OF rep_slot [OF assms(1,2)]] assms(3)
  obtain m where m: "scan_slots s a i (16 - i) = Some m" "i \<le> m" "m \<le> 16" "\<forall>j. i \<le> j \<longrightarrow> j < m \<longrightarrow> T (g, 16 * p + j) = None"
    "m < 16 \<longrightarrow> T (g, 16 * p + m) \<noteq> None" unfolding z by auto
  show ?thesis
  proof (cases "m < 16")
    case True
    then obtain v where v: "T (g, 16 * p + m) = Some v" using m(5) by blast
    then show ?thesis using m True rep_slot [OF assms(1,2) True] tree_mapD(1) [OF rep_map [OF assms(1)] v]
      by (intro exI [of _ v]) (auto simp: slot_from_def)
  next
    case False
    then show ?thesis using m by (simp add: slot_from_def)
  qed
qed

lemma div_less_less: "(a :: nat) div d < b div d \<Longrightarrow> a < b"
  by (meson div_le_mono leD leI)

lemma under_0: "T (0, p) = Some a \<Longrightarrow> under T 0 p = {p}"
  by (auto simp: under_def keys_def)

lemma under_ne:
  assumes "covered T (keys T)" "T (h, p) \<noteq> None"
  shows "under T h p \<noteq> {}"
proof (cases h)
  case 0
  then show ?thesis using assms(2) under_0 by fastforce
next
  case (Suc g)
  then show ?thesis using assms unfolding covered_def under_def by blast
qed

text \<open>The children of a node, in which its indices lie.\<close>

lemma under_child:
  assumes "tree_map H T" "j \<in> keys T" "g \<le> H"
  shows "T (g, j div 16 ^ g) \<noteq> None" "j \<in> under T g (j div 16 ^ g)" "j div 16 ^ g = 16 * (j div 16 ^ Suc g) + j div 16 ^ g mod 16"
  using key_up [OF assms] assms(2) digit_split [of j g] by (simp_all add: under_def)

lemma least_in: "A \<noteq> {} \<Longrightarrow> (LEAST k. k \<in> A) \<in> (A :: nat set)"
  by (metis LeastI ex_in_conv)

lemma left_path_ok:
  assumes rep: "radix_rep B s H tp T" and cov: "covered T (keys T)"
  shows "T (h, p) = Some a \<Longrightarrow> left_path h s a = Some (least_item T (under T h p))"
proof (induction h arbitrary: p a)
  case 0
  then show ?case using under_0 [of T p a] least_item_eq [of p "{p}" T] by simp
next
  case (Suc h)
  note mp = rep_map [OF rep]
  have h: "h \<le> H" using tree_mapD(3) [OF mp Suc.prems] by simp
  from scan_ok [of s a "\<lambda>i. ptr (T (h, 16 * p + i))" 0 16, OF rep_slot [OF rep Suc.prems]]
  obtain m where m: "scan_slots s a 0 16 = Some m" "m \<le> 16" "\<forall>j < m. T (h, 16 * p + j) = None"
    "m < 16 \<longrightarrow> T (h, 16 * p + m) \<noteq> None" unfolding ptr_eq_0 [OF mp] by auto
  have below: "m \<le> j div 16 ^ h mod 16 \<and> j div 16 ^ h = 16 * p + j div 16 ^ h mod 16" if "j \<in> under T (Suc h) p" for j
  proof -
    from that have j: "j \<in> keys T" "j div 16 ^ Suc h = p" by (simp_all add: under_def)
    note c = under_child [OF mp j(1) h]
    have "j div 16 ^ h = 16 * p + j div 16 ^ h mod 16" using c(3) unfolding j(2) .
    moreover from this c(1) m(3) have "\<not> j div 16 ^ h mod 16 < m" by metis
    ultimately show ?thesis by simp
  qed
  from under_ne [OF cov, of "Suc h" p] Suc.prems obtain j0 where "j0 \<in> under T (Suc h) p" by auto
  have "j0 div 16 ^ h mod 16 < 16" by simp
  with below [OF \<open>j0 \<in> under T (Suc h) p\<close>] have m16: "m < 16" by linarith
  then obtain b where b: "T (h, 16 * p + m) = Some b" using m(4) by blast
  define k0 where "k0 = (LEAST k. k \<in> under T h (16 * p + m))"
  have k0: "k0 \<in> under T h (16 * p + m)" unfolding k0_def by (rule least_in) (use under_ne [OF cov] b in auto)
  have le: "k0 \<le> j" if "j \<in> under T h (16 * p + m)" for j unfolding k0_def by (rule Least_le) (rule that)
  have "k0 \<in> under T (Suc h) p" using k0 m16 div_16 [of k0 h] by (simp add: under_def)
  moreover have "k0 \<le> j" if j: "j \<in> under T (Suc h) p" for j
  proof (cases "j div 16 ^ h = 16 * p + m")
    case True
    then show ?thesis using j le by (simp add: under_def)
  next
    case False
    then have "k0 div 16 ^ h < j div 16 ^ h" using below [OF j] k0 by (simp add: under_def)
    then show ?thesis using div_less_less by (meson less_imp_le)
  qed
  ultimately have "least_item T (under T (Suc h) p) = ptr (T (0, k0))" by (rule least_item_eq)
  also have "\<dots> = least_item T (under T h (16 * p + m))" using least_item_eq [OF k0 le] by simp
  finally have "least_item T (under T (Suc h) p) = least_item T (under T h (16 * p + m))" .
  then show ?case using m(1) rep_slot [OF rep Suc.prems m16] b Suc.IH [OF b] tree_mapD(1) [OF mp Suc.prems] by simp
qed

lemma node_left_ok:
  assumes rep: "radix_rep B s H tp T" and cov: "covered T (keys T)" and a: "T (Suc g, p) = Some a"
  shows "radix_tree_node_left s a = Some (least_item T (under T (Suc g) p))"
proof -
  have "sint (of_nat (Suc g) :: u32) = int (Suc g)" using small_height(1) [OF rep_level [OF rep a]] .
  then have "nat (sint (rn_height (node_image T H tp g p))) = Suc g" by (simp only: node_image_def radix_node.simps nat_int)
  then show ?thesis using rep_node [OF rep a] left_path_ok [OF rep cov a] tree_mapD(1) [OF rep_map [OF rep] a]
    by (simp add: radix_tree_node_left_def del: left_path.simps)
qed

section \<open>The upper bound\<close>

definition next_item :: "radix_map \<Rightarrow> nat \<Rightarrow> addr" where
  "next_item T k = least_item T {j \<in> keys T. k \<le> j}"

lemma right_ok:
  assumes rep: "radix_rep B s H tp T" and cov: "covered T (keys T)" and a: "T (Suc g, k div 16 ^ Suc g) = Some a"
    and none: "\<forall>j \<in> under T g (k div 16 ^ g). j < k"
  shows "\<exists>v. slot_from s a (Suc (k div 16 ^ g mod 16)) = Some v \<and>
    (v = 0 \<and> (\<forall>j \<in> under T (Suc g) (k div 16 ^ Suc g). j < k) \<or>
     v \<noteq> 0 \<and> (\<exists>q. T (g, q) = Some v \<and> next_item T k = least_item T (under T g q)))"
proof -
  let ?p = "k div 16 ^ Suc g" and ?c = "k div 16 ^ g"
  note mp = rep_map [OF rep]
  have g: "g \<le> H" using tree_mapD(3) [OF mp a] by simp
  have c: "?c = 16 * ?p + ?c mod 16" using digit_split [of k g] by simp
  have far: "\<exists>i. j div 16 ^ g = 16 * ?p + i \<and> ?c mod 16 < i" if j: "j \<in> keys T" "k \<le> j" for j
  proof -
    have "?c \<le> j div 16 ^ g" using div_le_mono [OF j(2)] .
    moreover have "?c \<noteq> j div 16 ^ g"
    proof
      assume "?c = j div 16 ^ g"
      then have "j \<in> under T g ?c" using j(1) by (simp add: under_def)
      then show False using none j(2) by fastforce
    qed
    ultimately have "?c < j div 16 ^ g" by simp
    then show ?thesis using c by (intro exI [of _ "j div 16 ^ g - 16 * ?p"]) linarith
  qed
  have "Suc (?c mod 16) \<le> 16" by (simp add: Suc_le_eq)
  from slot_from_ok [OF rep a this] obtain v where v: "slot_from s a (Suc (?c mod 16)) = Some v"
    "v = 0 \<and> (\<forall>j. Suc (?c mod 16) \<le> j \<longrightarrow> j < 16 \<longrightarrow> T (g, 16 * ?p + j) = None) \<or>
     v \<noteq> 0 \<and> (\<exists>m. Suc (?c mod 16) \<le> m \<and> m < 16 \<and> T (g, 16 * ?p + m) = Some v \<and> (\<forall>j. Suc (?c mod 16) \<le> j \<longrightarrow> j < m \<longrightarrow> T (g, 16 * ?p + j) = None))"
    by blast
  from v(2) show ?thesis
  proof (elim disjE conjE exE)
    assume z: "v = 0" "\<forall>j. Suc (?c mod 16) \<le> j \<longrightarrow> j < 16 \<longrightarrow> T (g, 16 * ?p + j) = None"
    have "j < k" if "j \<in> under T (Suc g) ?p" for j
    proof (rule ccontr)
      assume "\<not> j < k"
      then have j: "j \<in> keys T" "k \<le> j" "j div 16 ^ Suc g = ?p" using that by (simp_all add: under_def)
      from far [OF j(1,2)] obtain i where i: "j div 16 ^ g = 16 * ?p + i" "?c mod 16 < i" by blast
      have "j div 16 ^ g div 16 = ?p" using div_16 [of j g] j(3) by simp
      then have "i < 16" using i(1) by simp
      then show False using z(2) i under_child(1) [OF mp j(1) g] by (metis Suc_leI)
    qed
    then show ?thesis using v(1) z(1) by blast
  next
    fix m assume m: "v \<noteq> 0" "Suc (?c mod 16) \<le> m" "m < 16" "T (g, 16 * ?p + m) = Some v" "\<forall>j. Suc (?c mod 16) \<le> j \<longrightarrow> j < m \<longrightarrow> T (g, 16 * ?p + j) = None"
    define k0 where "k0 = (LEAST k. k \<in> under T g (16 * ?p + m))"
    have k0: "k0 \<in> under T g (16 * ?p + m)" unfolding k0_def by (rule least_in) (use under_ne [OF cov] m(4) in auto)
    have le: "k0 \<le> j" if "j \<in> under T g (16 * ?p + m)" for j unfolding k0_def by (rule Least_le) (rule that)
    have k0d: "k0 div 16 ^ g = 16 * ?p + m" "k0 \<in> keys T" using k0 by (simp_all add: under_def)
    have "?c < k0 div 16 ^ g" using c m(2) unfolding k0d(1) by linarith
    from div_less_less [OF this] have "k0 \<in> {j \<in> keys T. k \<le> j}" using k0d(2) by simp
    moreover have "k0 \<le> j" if "j \<in> {j \<in> keys T. k \<le> j}" for j
    proof -
      from that have j: "j \<in> keys T" "k \<le> j" by simp_all
      from far [OF j] obtain i where i: "j div 16 ^ g = 16 * ?p + i" "?c mod 16 < i" by blast
      have "\<not> i < m" using m(5) i under_child(1) [OF mp j(1) g] by (metis Suc_leI)
      then consider "i = m" | "m < i" by linarith
      then show ?thesis
      proof cases
        case 1
        then show ?thesis using le [of j] i(1) j(1) by (simp add: under_def)
      next
        case 2
        then have "k0 div 16 ^ g < j div 16 ^ g" using i(1) k0d(1) by simp
        then show ?thesis using div_less_less by (meson less_imp_le)
      qed
    qed
    ultimately have "next_item T k = ptr (T (0, k0))" unfolding next_item_def by (rule least_item_eq)
    then have "next_item T k = least_item T (under T g (16 * ?p + m))" using least_item_eq [OF k0 le] by simp
    then show ?thesis using v(1) m(1,4) by blast
  qed
qed

lemma rep_tall:
  assumes "radix_rep B s H tp T" "T (Suc g, p) = Some a"
  shows "1 < rn_height (node_image T H tp g p) \<longleftrightarrow> 0 < g" "rn_height (node_image T H tp g p) = 1 \<longleftrightarrow> g = 0"
proof -
  have h: "rn_height (node_image T H tp g p) = of_nat (Suc g)" by (simp only: node_image_def radix_node.simps)
  have u: "unat (of_nat (Suc g) :: u32) = Suc g" using small_height(3) [OF rep_level [OF assms]] .
  show "1 < rn_height (node_image T H tp g p) \<longleftrightarrow> 0 < g" unfolding h word_less_nat_alt u by simp
  show "rn_height (node_image T H tp g p) = 1 \<longleftrightarrow> g = 0" unfolding h word_unat_eq_iff u by simp
qed

lemma least_item_ne:
  assumes "tree_map H T" "covered T (keys T)" "T (h, p) = Some a"
  shows "least_item T (under T h p) \<noteq> 0"
proof -
  have ne: "under T h p \<noteq> {}" using under_ne [OF assms(2)] assms(3) by blast
  then have "T (0, LEAST k. k \<in> under T h p) \<noteq> None" using least_in [OF ne] by (simp add: under_def keys_def)
  then show ?thesis using ne ptr_eq_0 [OF assms(1)] by (simp add: least_item_def)
qed

lemma under_item: "T (0, k) = None \<Longrightarrow> \<forall>j \<in> under T 0 k. j < k"
  by (simp add: under_def keys_def)

lemma upper_descend_ok:
  assumes rep: "radix_rep B s H tp T" and cov: "covered T (keys T)"
  shows "T (Suc g, k div 16 ^ Suc g) = Some a \<Longrightarrow> 0 < g \<longrightarrow> unat shift = 4 * g \<Longrightarrow>
    \<forall>i \<le> g. j div 16 ^ i mod 16 = k div 16 ^ i mod 16 \<Longrightarrow>
    upper_descend s j shift a = Some (Inl (next_item T k)) \<and> next_item T k \<noteq> 0 \<or>
    (\<exists>h b. upper_descend s j shift a = Some (Inr b) \<and> T (Suc h, k div 16 ^ Suc h) = Some b \<and>
       (0 < h \<longrightarrow> (\<forall>j \<in> under T (Suc h) (k div 16 ^ Suc h). j < k)))"
proof (induction g arbitrary: a shift)
  case 0
  have "upper_descend s j shift a = Some (Inr a)"
    using rep_node [OF rep 0(1)] rep_tall(1) [OF rep 0(1)] tree_mapD(1) [OF rep_map [OF rep] 0(1)]
    by (simp add: upper_descend.simps [of s j shift a])
  then show ?case using 0(1) by blast
next
  case (Suc g)
  note mp = rep_map [OF rep]
  let ?off = "k div 16 ^ Suc g mod 16"
  have g: "Suc g < 16" using rep_level [OF rep Suc.prems(1)] by simp
  have off: "radix_offset j (unat shift) = Some ?off" using Suc.prems(2) Suc.prems(3) [rule_format, OF order_refl] radix_offset_level [OF g, of j] by simp
  have sl: "radix_slot s a ?off = Some (ptr (T (Suc g, k div 16 ^ Suc g)))"
    using rep_slot [OF rep Suc.prems(1), of ?off] unfolding digit_split by simp
  have st: "upper_descend s j shift a = do {
      v \<leftarrow> radix_slot s a ?off;
      if v \<noteq> 0 then upper_descend s j (shift - of_nat BIT_LEVEL) v
      else do { v \<leftarrow> slot_from s a (Suc ?off); if v \<noteq> 0 then do { r \<leftarrow> radix_tree_node_left s v; Some (Inl r) } else Some (Inr a) } }"
    using rep_node [OF rep Suc.prems(1)] rep_tall(1) [OF rep Suc.prems(1)] tree_mapD(1) [OF mp Suc.prems(1)] off
    by (simp add: upper_descend.simps [of s j shift a] del: power_Suc)
  show ?case
  proof (cases "T (Suc g, k div 16 ^ Suc g)")
    case (Some b)
    have "0 < g \<longrightarrow> unat (shift - of_nat BIT_LEVEL) = 4 * g" using Suc.prems(2) shift_next [of shift g] by simp
    from Suc.IH [OF Some this] Suc.prems(3) st sl Some tree_mapD(1) [OF mp Some] show ?thesis by simp
  next
    case None
    have "\<forall>j \<in> under T (Suc g) (k div 16 ^ Suc g). j < k"
    proof
      fix i assume "i \<in> under T (Suc g) (k div 16 ^ Suc g)"
      then have "T (Suc g, k div 16 ^ Suc g) \<noteq> None"
        using under_child(1) [OF mp, of i "Suc g"] tree_mapD(3) [OF mp Suc.prems(1)] by (simp add: under_def)
      then show "i < k" using None by simp
    qed
    from right_ok [OF rep cov Suc.prems(1) this] obtain v where v: "slot_from s a (Suc ?off) = Some v"
      "v = 0 \<and> (\<forall>j \<in> under T (Suc (Suc g)) (k div 16 ^ Suc (Suc g)). j < k) \<or>
       v \<noteq> 0 \<and> (\<exists>q. T (Suc g, q) = Some v \<and> next_item T k = least_item T (under T (Suc g) q))" by blast
    from v(2) show ?thesis
    proof (elim disjE conjE exE)
      assume z: "v = 0" "\<forall>j \<in> under T (Suc (Suc g)) (k div 16 ^ Suc (Suc g)). j < k"
      then have "upper_descend s j shift a = Some (Inr a)" using st sl None v(1) by simp
      then show ?thesis using Suc.prems(1) z(2) by blast
    next
      fix q assume q: "v \<noteq> 0" "T (Suc g, q) = Some v" "next_item T k = least_item T (under T (Suc g) q)"
      then have "upper_descend s j shift a = Some (Inl (next_item T k))"
        using st sl None v(1) node_left_ok [OF rep cov q(2)] by simp
      moreover have "next_item T k \<noteq> 0" unfolding q(3) by (rule least_item_ne [OF mp cov q(2)])
      ultimately show ?thesis by blast
    qed
  qed
qed

lemma next_item_self: "T (0, k) = Some x \<Longrightarrow> next_item T k = x"
  unfolding next_item_def by (subst least_item_eq [of k]) (auto simp: keys_def)

lemma upper_leaf_ok:
  assumes rep: "radix_rep B s H tp T" and cov: "covered T (keys T)" and b: "T (Suc h, k div 16 ^ Suc h) = Some b"
    and lt: "0 < h \<longrightarrow> (\<forall>j \<in> under T (Suc h) (k div 16 ^ Suc h). j < k)" and j: "j mod 16 = k mod 16"
  shows "upper_leaf s j b = Some (next_item T k) \<and> next_item T k \<noteq> 0 \<or>
    upper_leaf s j b = Some 0 \<and> (\<forall>j \<in> under T (Suc h) (k div 16 ^ Suc h). j < k)"
proof (cases "h = 0")
  case False
  then show ?thesis using lt rep_node [OF rep b] rep_tall(2) [OF rep b] by (simp add: upper_leaf_def)
next
  case True
  note mp = rep_map [OF rep]
  have b0: "T (Suc 0, k div 16 ^ Suc 0) = Some b" using b True by simp
  have sl: "radix_slot s b (k mod 16) = Some (ptr (T (0, k)))"
    using rep_slot [OF rep b0, of "k mod 16"] mult_div_mod_eq [of 16 k] by simp
  have st: "upper_leaf s j b = do { v \<leftarrow> radix_slot s b (k mod 16); if v \<noteq> 0 then Some v else slot_from s b (Suc (k mod 16)) }"
    using rep_node [OF rep b0] rep_tall(2) [OF rep b0] tree_mapD(1) [OF mp b0] j
    by (simp add: upper_leaf_def and_15 Let_def)
  show ?thesis
  proof (cases "T (0, k)")
    case (Some x)
    then show ?thesis using st sl next_item_self [of T k x] tree_mapD(1) [OF mp Some] by simp
  next
    case None
    from right_ok [OF rep cov b0, of] under_item [of T k] None obtain v where v: "slot_from s b (Suc (k mod 16)) = Some v"
      "v = 0 \<and> (\<forall>j \<in> under T (Suc 0) (k div 16 ^ Suc 0). j < k) \<or>
       v \<noteq> 0 \<and> (\<exists>q. T (0, q) = Some v \<and> next_item T k = least_item T (under T 0 q))" by auto
    moreover have "least_item T (under T 0 q) = w" if "T (0, q) = Some w" for q w
      using that under_0 [of T q w] least_item_eq [of q "{q}" T] by simp
    ultimately show ?thesis using st sl None True by auto
  qed
qed

text \<open>Past the largest index the climb ends at the root, whose parent is null or the root struct.\<close>

definition past_end :: "radix_map \<Rightarrow> addr \<Rightarrow> addr" where
  "past_end T tp = (if tp = 0 then 0 else least_item T (keys T))"

lemma upper_climb_ok:
  assumes rep: "radix_rep B s H tp T" and cov: "covered T (keys T)" and top: "tp \<notin> dom (rt_nodes s)" and k: "k < 16 ^ H"
  shows "T (Suc g, k div 16 ^ Suc g) = Some a \<Longrightarrow> \<forall>j \<in> under T (Suc g) (k div 16 ^ Suc g). j < k \<Longrightarrow>
    upper_climb s a = Some (if \<exists>j \<in> keys T. k \<le> j then next_item T k else past_end T tp)"
proof (induction "H - Suc g" arbitrary: g a)
  case 0
  note mp = rep_map [OF rep]
  have H: "Suc g = H" using 0(1) tree_mapD(3) [OF mp 0(2)] by simp
  have z: "j div 16 ^ H = 0" if "j \<in> keys T" for j using key_less [OF mp that] by simp
  have kH: "k div 16 ^ H = 0" using k by simp
  have un: "under T H 0 = keys T" using z by (auto simp: under_def)
  have no: "\<not> (\<exists>j \<in> keys T. k \<le> j)" using 0(3) unfolding H kH un by (meson leD)
  have a: "T (Suc g, 0) = Some a" using 0(2) unfolding H kH .
  have nd: "rt_nodes s a = Some (node_image T H tp g 0)" by (rule rep_node [OF rep a])
  have a0: "a \<noteq> 0" using tree_mapD(1) [OF mp a] .
  show ?case
  proof (cases "tp = 0")
    case True
    then show ?thesis using nd a0 no H by (simp add: upper_climb.simps [of s a] node_image_def past_end_def)
  next
    case False
    have tp: "tp = rt_at s" "rt_rnode s = a" using rep False a H unfolding radix_rep_def by auto
    have "radix_slot s tp 1 = Some a" using top tp by (simp add: radix_slot_def domIff)
    then have "slot_from s tp 1 = Some a" using a0 by (simp add: slot_from_def numeral_eq_Suc)
    moreover have "radix_tree_node_left s a = Some (least_item T (keys T))"
      using node_left_ok [OF rep cov a] unfolding H un .
    ultimately show ?thesis using nd a0 no H False
      by (simp add: upper_climb.simps [of s a] node_image_def past_end_def)
  qed
next
  case (Suc n)
  note mp = rep_map [OF rep]
  let ?p = "k div 16 ^ Suc g"
  have H: "Suc g < H" using Suc.hyps(2) by simp
  from tree_mapD(5) [OF mp _ H, of ?p] Suc.prems(1) obtain b where "T (Suc (Suc g), ?p div 16) = Some b" by auto
  then have b: "T (Suc (Suc g), k div 16 ^ Suc (Suc g)) = Some b" unfolding div_16 .
  from right_ok [OF rep cov b Suc.prems(2)] obtain v where v: "slot_from s b (Suc (?p mod 16)) = Some v"
    "v = 0 \<and> (\<forall>j \<in> under T (Suc (Suc g)) (k div 16 ^ Suc (Suc g)). j < k) \<or>
     v \<noteq> 0 \<and> (\<exists>q. T (Suc g, q) = Some v \<and> next_item T k = least_item T (under T (Suc g) q))" by blast
  have nd: "rt_nodes s a = Some (node_image T H tp g ?p)" by (rule rep_node [OF rep Suc.prems(1)])
  have par: "rn_parent (node_image T H tp g ?p) = b" using H b unfolding node_image_def div_16 by simp
  have off: "unat (rn_offset (node_image T H tp g ?p) + 1) = Suc (?p mod 16)"
  proof -
    have "rn_offset (node_image T H tp g ?p) + 1 = of_nat (Suc (?p mod 16))" by (simp add: node_image_def)
    moreover have "?p mod 16 < 16" by simp
    ultimately show ?thesis by (simp only:) (subst unat_of_nat, simp)
  qed
  have st: "upper_climb s a = (if v \<noteq> 0 then radix_tree_node_left s v else upper_climb s b)"
    using nd par off v(1) tree_mapD(1) [OF mp b] tree_mapD(1) [OF mp Suc.prems(1)] by (simp add: upper_climb.simps [of s a])
  from v(2) show ?case
  proof (elim disjE conjE exE)
    assume z: "v = 0" "\<forall>j \<in> under T (Suc (Suc g)) (k div 16 ^ Suc (Suc g)). j < k"
    from Suc.hyps(1) [OF _ b z(2)] Suc.hyps(2) z(1) st show ?thesis by simp
  next
    fix q assume q: "v \<noteq> 0" "T (Suc g, q) = Some v" "next_item T k = least_item T (under T (Suc g) q)"
    have "\<exists>j \<in> keys T. k \<le> j"
    proof (rule ccontr)
      assume "\<not> ?thesis"
      then have "next_item T k = 0" by (simp add: next_item_def least_item_def)
      then show False using q(3) least_item_ne [OF mp cov q(2)] by simp
    qed
    then show ?thesis using st q node_left_ok [OF rep cov q(2)] by simp
  qed
qed

lemma upper_bound_ok:
  assumes rep: "radix_rep B s H tp T" and cov: "covered T (keys T)" and top: "rt_at s \<notin> dom (rt_nodes s)"
  shows "radix_tree_lookup_upper_bound s j =
    Some (if \<exists>i \<in> keys T. j mod 16 ^ H \<le> i then next_item T (j mod 16 ^ H) else past_end T tp)"
proof (cases "H = 0")
  case True
  then have "T = Map.empty" "rt_rnode s = 0" using rep_empty [of B s tp T] rep by simp_all
  then show ?thesis by (simp add: radix_tree_lookup_upper_bound_def keys_def past_end_def least_item_def)
next
  case False
  then obtain g where g: "H = Suc g" by (cases H) auto
  note mp = rep_map [OF rep]
  let ?k = "j mod 16 ^ H"
  from rep False obtain a where a: "T (H, 0) = Some a" "rt_rnode s = a" "a \<noteq> 0" by (auto elim: rep_root)
  have H: "H \<le> 16" "rt_height s = of_nat H" using rep by (simp_all add: radix_rep_def)
  have k: "?k < 16 ^ H" by simp
  then have z: "?k div 16 ^ H = 0" by (rule div_less)
  have tp: "tp \<notin> dom (rt_nodes s)"
  proof -
    have d: "dom (rt_nodes s) = tree_nodes T" "tp = 0 \<or> tp = rt_at s" using rep unfolding radix_rep_def by blast+
    have "0 \<notin> tree_nodes T" using tree_mapD(1) [OF mp] by (auto simp: tree_nodes_def)
    then show ?thesis using d top by auto
  qed
  have dig: "\<forall>i \<le> g. j div 16 ^ i mod 16 = ?k div 16 ^ i mod 16" using digit_mod [of _ H j] g by simp
  then have j: "j mod 16 = ?k mod 16" by (metis power_0 div_by_1 le0)
  have aS: "T (Suc g, ?k div 16 ^ Suc g) = Some a" using a(1) z unfolding g by metis
  have sh: "0 < g \<longrightarrow> unat ((rt_height s - 1) * of_nat BIT_LEVEL) = 4 * g"
    using shift_first(1) [of H] H(1) False unfolding H(2) g by simp
  have st: "radix_tree_lookup_upper_bound s j = do {
     r \<leftarrow> upper_descend s j ((rt_height s - 1) * of_nat BIT_LEVEL) a;
     case r of Inl v \<Rightarrow> Some v | Inr node \<Rightarrow> do { v \<leftarrow> upper_leaf s j node; if v \<noteq> 0 then Some v else upper_climb s node } }"
    using a by (simp only: radix_tree_lookup_upper_bound_def if_False)
  have ex: "\<exists>i \<in> keys T. ?k \<le> i" if "next_item T ?k \<noteq> 0"
    using that by (auto simp: next_item_def least_item_def split: if_splits)
  from upper_descend_ok [OF rep cov aS sh dig] show ?thesis
  proof (elim disjE exE conjE)
    assume d: "upper_descend s j ((rt_height s - 1) * of_nat BIT_LEVEL) a = Some (Inl (next_item T ?k))" "next_item T ?k \<noteq> 0"
    then show ?thesis using st ex by simp
  next
    fix h b
    assume d: "upper_descend s j ((rt_height s - 1) * of_nat BIT_LEVEL) a = Some (Inr b)" and b: "T (Suc h, ?k div 16 ^ Suc h) = Some b"
      and lt: "0 < h \<longrightarrow> (\<forall>j \<in> under T (Suc h) (?k div 16 ^ Suc h). j < ?k)"
    from upper_leaf_ok [OF rep cov b lt j] show ?thesis
    proof (elim disjE conjE)
      assume "upper_leaf s j b = Some (next_item T ?k)" "next_item T ?k \<noteq> 0"
      then show ?thesis using st d ex by simp
    next
      assume "upper_leaf s j b = Some 0" "\<forall>j \<in> under T (Suc h) (?k div 16 ^ Suc h). j < ?k"
      then show ?thesis using st d upper_climb_ok [OF rep cov tp k b] by simp
    qed
  qed
qed

end
