(* ===== verification/Radix_Update.thy ===== *)
theory Radix_Update
  imports Radix_Search
begin

text \<open>
  Insertion into the radix tree and deletion from it, as updates of the map of the tree: each round of the
  loops of the code adds or removes one entry.
\<close>

section \<open>One entry\<close>

lemma slot_eq_iff: "i < 16 \<Longrightarrow> 16 * p + i = q \<longleftrightarrow> p = q div 16 \<and> i = q mod (16 :: nat)"
  by auto

lemma children_upd:
  "children (T((h, q) := v)) g p = (if g = h \<and> p = q div 16
     then (if v = None then children T g p - {q mod 16} else insert (q mod 16) (children T g p)) else children T g p)"
  using slot_eq_iff [of _ p q] by (auto simp: children_def split: if_splits)

lemma children_finite [simp]: "finite (children T g p)"
  by (simp add: children_def)

lemma children_mem: "q mod 16 \<in> children T h (q div 16) \<longleftrightarrow> T (h, q) \<noteq> None"
  by (simp add: children_def)

lemma image_upd:
  assumes "Suc g = H \<or> (Suc (Suc g), p div 16) \<noteq> (h, q)"
  shows "node_image (T((h, q) := v)) H tp g p = (if g = h \<and> p = q div 16
     then (node_image T H tp g p)\<lparr>rn_slots := (rn_slots (node_image T H tp g p))[q mod 16 := ptr v],
       rn_count := of_nat (card (children (T((h, q) := v)) g p))\<rparr>
     else node_image T H tp g p)"
proof (cases "g = h \<and> p = q div 16")
  case True
  have "map (\<lambda>i. ptr ((T((h, q) := v)) (g, 16 * p + i))) [0..<16] = (map (\<lambda>i. ptr (T (g, 16 * p + i))) [0..<16])[q mod 16 := ptr v]"
    using True slot_eq_iff [of _ p q] by (intro nth_equalityI) (auto simp: nth_list_update)
  then show ?thesis using True assms by (auto simp: node_image_def)
next
  case False
  then have "(g, 16 * p + i) \<noteq> (h, q)" if "i < 16" for i using slot_eq_iff [OF that, of p q] by auto
  then have "map (\<lambda>i. ptr ((T((h, q) := v)) (g, 16 * p + i))) [0..<16] = map (\<lambda>i. ptr (T (g, 16 * p + i))) [0..<16]"
    by (intro map_cong) (auto simp del: Pair_inject)
  moreover have "children (T((h, q) := v)) g p = children T g p" using False by (auto simp: children_upd)
  ultimately show ?thesis using False assms by (auto simp: node_image_def)
qed

text \<open>The node that a new or a removed entry belongs to.\<close>

lemma image_add:
  assumes "Suc g = H \<or> (Suc (Suc g), p div 16) \<noteq> (h, q)" "T (h, q) = None"
  shows "node_image (T((h, q) \<mapsto> x)) H tp g p = (if g = h \<and> p = q div 16
     then (node_image T H tp g p)\<lparr>rn_slots := (rn_slots (node_image T H tp g p))[q mod 16 := x],
       rn_count := rn_count (node_image T H tp g p) + 1\<rparr>
     else node_image T H tp g p)"
proof -
  have "card (children (T((h, q) \<mapsto> x)) h (q div 16)) = Suc (card (children T h (q div 16)))"
    using children_mem [of q T h] assms(2) by (simp add: children_upd)
  then show ?thesis unfolding image_upd [OF assms(1)] by (simp add: node_image_def)
qed

lemma image_del:
  assumes "Suc g = H \<or> (Suc (Suc g), p div 16) \<noteq> (h, q)" "T (h, q) \<noteq> None"
  shows "node_image (T((h, q) := None)) H tp g p = (if g = h \<and> p = q div 16
     then (node_image T H tp g p)\<lparr>rn_slots := (rn_slots (node_image T H tp g p))[q mod 16 := 0],
       rn_count := rn_count (node_image T H tp g p) - 1\<rparr>
     else node_image T H tp g p)"
proof -
  have "card (children T h (q div 16)) = Suc (card (children (T((h, q) := None)) h (q div 16)))"
    using children_mem [of q T h] assms(2) card_Suc_Diff1 [OF children_finite, of "q mod 16" T h "q div 16"] by (simp add: children_upd)
  then show ?thesis unfolding image_upd [OF assms(1)] by (simp add: node_image_def)
qed

lemma parent_prefix: "T (Suc h, q div 16) \<noteq> None \<Longrightarrow> tree_map H T \<Longrightarrow> h < H \<Longrightarrow> q < 16 ^ (H - h)"
proof -
  assume a: "T (Suc h, q div 16) \<noteq> None" "tree_map H T" "h < H"
  then have "q div 16 < 16 ^ (H - Suc h)" using tree_mapD(4) [OF a(2), of "Suc h" "q div 16"] by auto
  then have "q < 16 * 16 ^ (H - Suc h)" by (simp add: div_less_iff_less_mult mult.commute)
  also have "\<dots> = 16 ^ (H - h)" using a(3) by (simp add: Suc_diff_Suc flip: power_Suc)
  finally show ?thesis .
qed

lemma tree_map_add:
  assumes "tree_map H T" "T (Suc h, q div 16) \<noteq> None" "h < H" "x \<noteq> 0" "0 < h \<longrightarrow> x \<notin> tree_nodes T"
  shows "tree_map H (T((h, q) \<mapsto> x))"
proof -
  note d = tree_mapD [OF assms(1)]
  have new: "T (Suc g, p) = Some x \<Longrightarrow> h = 0" for g p using assms(5) by (auto simp: tree_nodes_def)
  have "q < 16 ^ (H - h)" by (rule parent_prefix [OF assms(2,1,3)])
  then have "\<forall>h' p a. (T((h, q) \<mapsto> x)) (h', p) = Some a \<longrightarrow> a \<noteq> 0 \<and> 0 < H \<and> h' \<le> H \<and> p < 16 ^ (H - h')"
    using d(1-4) assms(3,4) by (auto simp: fun_upd_apply split: if_splits)
  moreover have "\<forall>h' p. (T((h, q) \<mapsto> x)) (h', p) \<noteq> None \<longrightarrow> h' < H \<longrightarrow> (T((h, q) \<mapsto> x)) (Suc h', p div 16) \<noteq> None"
    using d(5) assms(2) by (auto simp: fun_upd_apply split: if_splits)
  moreover have "\<forall>g p g' p' a. (T((h, q) \<mapsto> x)) (Suc g, p) = Some a \<longrightarrow> (T((h, q) \<mapsto> x)) (Suc g', p') = Some a \<longrightarrow> g = g' \<and> p = p'"
  proof (intro allI impI)
    fix g p g' p' a
    assume "(T((h, q) \<mapsto> x)) (Suc g, p) = Some a" "(T((h, q) \<mapsto> x)) (Suc g', p') = Some a"
    then show "g = g' \<and> p = p'" using d(6) [of g p a g' p'] new by (auto simp: fun_upd_apply split: if_splits)
  qed
  ultimately show ?thesis unfolding tree_map_def by blast
qed

lemma tree_map_del:
  assumes "tree_map H T" "\<And>g. h = Suc g \<Longrightarrow> children T g q = {}"
  shows "tree_map H (T((h, q) := None))"
proof -
  note d = tree_mapD [OF assms(1)]
  have leaf: "T (g, p) = None" if "h = Suc g" "p div 16 = q" for g p
  proof -
    have "p = 16 * q + p mod 16" unfolding that(2) [symmetric] by simp
    moreover have "p mod 16 < 16" by simp
    ultimately show ?thesis using assms(2) [OF that(1)] unfolding children_def by (metis (mono_tags, lifting) empty_iff mem_Collect_eq)
  qed
  have "\<forall>h' p a. (T((h, q) := None)) (h', p) = Some a \<longrightarrow> a \<noteq> 0 \<and> 0 < H \<and> h' \<le> H \<and> p < 16 ^ (H - h')"
    using d(1-4) by (auto simp: fun_upd_apply split: if_splits)
  moreover have "\<forall>h' p. (T((h, q) := None)) (h', p) \<noteq> None \<longrightarrow> h' < H \<longrightarrow> (T((h, q) := None)) (Suc h', p div 16) \<noteq> None"
    using d(5) leaf by (auto simp: fun_upd_apply split: if_splits)
  moreover have "\<forall>g p g' p' a. (T((h, q) := None)) (Suc g, p) = Some a \<longrightarrow> (T((h, q) := None)) (Suc g', p') = Some a \<longrightarrow> g = g' \<and> p = p'"
    using d(6) by (auto simp: fun_upd_apply split: if_splits)
  ultimately show ?thesis unfolding tree_map_def by blast
qed

section \<open>One node of the state\<close>

definition add_child :: "radix_node \<Rightarrow> nat \<Rightarrow> addr \<Rightarrow> radix_node" where
  "add_child n i x = n\<lparr>rn_slots := (rn_slots n)[i := x], rn_count := rn_count n + 1\<rparr>"

definition del_child :: "radix_node \<Rightarrow> nat \<Rightarrow> radix_node" where
  "del_child n i = n\<lparr>rn_slots := (rn_slots n)[i := 0], rn_count := rn_count n - 1\<rparr>"

lemma images_add:
  assumes rep: "radix_rep B s H tp T" and e: "T (h, q) = None" "T (Suc h, q div 16) = Some a" and b: "T (Suc g, p) = Some b"
  shows "((rt_nodes s)(a \<mapsto> add_child (node_image T H tp h (q div 16)) (q mod 16) x)) b = Some (node_image (T((h, q) \<mapsto> x)) H tp g p)"
proof -
  note mp = rep_map [OF rep]
  have c: "Suc g = H \<or> (Suc (Suc g), p div 16) \<noteq> (h, q)"
  proof (cases "Suc g = H")
    case False
    then have "T (Suc (Suc g), p div 16) \<noteq> None" using tree_mapD(5) [OF mp, of "Suc g" p] tree_mapD(3) [OF mp b] b by auto
    then show ?thesis using e(1) by auto
  qed simp
  show ?thesis unfolding image_add [of g H p h q T, OF c e(1)]
    using rep_node [OF rep b] b e(2) tree_mapD(6) [OF mp b, of h "q div 16"] by (auto simp: add_child_def)
qed

lemma images_del:
  assumes rep: "radix_rep B s H tp T" and e: "T (h, q) \<noteq> None" "T (Suc h, q div 16) = Some a" and b: "T (Suc g, p) = Some b"
    and leaf: "\<And>g. h = Suc g \<Longrightarrow> children T g q = {}"
  shows "((rt_nodes s)(a \<mapsto> del_child (node_image T H tp h (q div 16)) (q mod 16))) b = Some (node_image (T((h, q) := None)) H tp g p)"
proof -
  note mp = rep_map [OF rep]
  have c: "Suc g = H \<or> (Suc (Suc g), p div 16) \<noteq> (h, q)"
  proof (rule disjI2, rule notI)
    assume "(Suc (Suc g), p div 16) = (h, q)"
    then have "h = Suc (Suc g)" "p div 16 = q" by simp_all
    then have "children T (Suc g) (p div 16) = {}" using leaf by blast
    then show False using children_mem [of p T "Suc g"] b by simp
  qed
  show ?thesis unfolding image_del [of g H p h q T, OF c e(1)]
    using rep_node [OF rep b] b e(2) tree_mapD(6) [OF mp b, of h "q div 16"] by (auto simp: del_child_def)
qed

lemma tree_nodes_item: "tree_nodes (T((0, k) := v)) = tree_nodes T"
  by (simp add: tree_nodes_def)

lemma in_tree_nodes: "T (Suc g, p) = Some a \<Longrightarrow> a \<in> tree_nodes T"
  by (auto simp: tree_nodes_def)

lemma tree_nodes_add:
  assumes "T (Suc h, q) = None"
  shows "tree_nodes (T((Suc h, q) \<mapsto> x)) = insert x (tree_nodes T)"
proof (intro equalityI subsetI)
  show "a \<in> insert x (tree_nodes T)" if "a \<in> tree_nodes (T((Suc h, q) \<mapsto> x))" for a
    using that by (auto simp: tree_nodes_def split: if_splits)
  show "a \<in> tree_nodes (T((Suc h, q) \<mapsto> x))" if "a \<in> insert x (tree_nodes T)" for a
  proof (cases "a = x")
    case False
    with that obtain g p where "T (Suc g, p) = Some a" by (auto simp: tree_nodes_def)
    moreover from this assms have "(Suc g, p) \<noteq> (Suc h, q)" by auto
    ultimately have "(T((Suc h, q) \<mapsto> x)) (Suc g, p) = Some a" by (simp only: fun_upd_other not_False_eq_True)
    then show ?thesis by (rule in_tree_nodes)
  qed (rule in_tree_nodes [of _ h q], simp)
qed

lemma tree_nodes_del:
  assumes "tree_map H T" "T (Suc h, q) = Some x"
  shows "tree_nodes (T((Suc h, q) := None)) = tree_nodes T - {x}"
proof (intro equalityI subsetI)
  show "a \<in> tree_nodes T - {x}" if a: "a \<in> tree_nodes (T((Suc h, q) := None))" for a
  proof -
    from a obtain g p where g: "T (Suc g, p) = Some a" "(Suc g, p) \<noteq> (Suc h, q)" by (auto simp: tree_nodes_def split: if_splits)
    then have "a \<noteq> x" using tree_mapD(6) [OF assms(1,2), of g p] by auto
    then show ?thesis using in_tree_nodes [of T g p a] g(1) by simp
  qed
  show "a \<in> tree_nodes (T((Suc h, q) := None))" if a: "a \<in> tree_nodes T - {x}" for a
  proof -
    from a obtain g p where g: "T (Suc g, p) = Some a" "a \<noteq> x" by (auto simp: tree_nodes_def)
    then have "(Suc g, p) \<noteq> (Suc h, q)" using assms(2) by auto
    then show ?thesis using g(1) by (intro in_tree_nodes [of _ g p]) (simp only: fun_upd_other not_False_eq_True)
  qed
qed

lemma rep_finite: "radix_rep B s H tp T \<Longrightarrow> finite (tree_nodes T)"
  using heap_owns_card(1) unfolding radix_rep_def by (metis finite_Un)

text \<open>An item comes and goes.\<close>

lemma rep_add_item:
  assumes rep: "radix_rep B s H tp T" and e: "T (0, k) = None" "T (Suc 0, k div 16) = Some a" and x: "x \<noteq> 0"
  shows "radix_rep B (s\<lparr>rt_nodes := (rt_nodes s)(a \<mapsto> add_child (node_image T H tp 0 (k div 16)) (k mod 16) x)\<rparr>) H tp (T((0, k) \<mapsto> x))"
proof -
  have H: "0 < H" using tree_mapD(2) [OF rep_map [OF rep] e(2)] .
  have "tree_map H (T((0, k) \<mapsto> x))" by (rule tree_map_add [OF rep_map [OF rep]]) (use e x H in simp_all)
  then show ?thesis using rep H images_add [OF rep e] in_tree_nodes [of T 0 "k div 16" a] e(2) unfolding radix_rep_def tree_nodes_item
    by (simp add: insert_absorb)
qed

lemma rep_del_item:
  assumes rep: "radix_rep B s H tp T" and e: "T (0, k) \<noteq> None" "T (Suc 0, k div 16) = Some a"
  shows "radix_rep B (s\<lparr>rt_nodes := (rt_nodes s)(a \<mapsto> del_child (node_image T H tp 0 (k div 16)) (k mod 16))\<rparr>) H tp (T((0, k) := None))"
proof -
  have H: "0 < H" using tree_mapD(2) [OF rep_map [OF rep] e(2)] .
  have "tree_map H (T((0, k) := None))" by (rule tree_map_del [OF rep_map [OF rep]]) simp
  then show ?thesis using rep H images_del [OF rep e] in_tree_nodes [of T 0 "k div 16" a] e(2) unfolding radix_rep_def tree_nodes_item
    by (simp add: insert_absorb)
qed

text \<open>A node comes and goes.\<close>

lemma rep_add_node:
  assumes rep: "radix_rep B s H tp T" and e: "T (Suc h, q) = None" "T (Suc (Suc h), q div 16) = Some a" and H: "Suc h < H"
    and x: "x \<noteq> 0" "x \<notin> B \<union> tree_nodes T" "heap_owns hp (insert x (B \<union> tree_nodes T))"
  shows "radix_rep B (s\<lparr>rt_heap := hp, rt_count := rt_count s + 1, rt_nodes := (rt_nodes s)(a \<mapsto> add_child (node_image T H tp (Suc h) (q div 16)) (q mod 16) x,
      x \<mapsto> \<lparr>rn_slots = replicate 16 0, rn_parent = a, rn_offset = of_nat (q mod 16), rn_count = 0, rn_height = of_nat (Suc h)\<rparr>)\<rparr>) H tp (T((Suc h, q) \<mapsto> x))"
proof -
  note mp = rep_map [OF rep]
  let ?T = "T((Suc h, q) \<mapsto> x)"
  have tm: "tree_map H ?T" by (rule tree_map_add [OF mp]) (use e x H in simp_all)
  have none: "T (h, 16 * q + i) = None" if "i < 16" for i
    using tree_mapD(5) [OF mp, of h "16 * q + i"] e(1) H that by (cases "T (h, 16 * q + i)") auto
  then have "children ?T h q = {}" by (auto simp: children_def)
  moreover have "map (\<lambda>i. ptr (?T (h, 16 * q + i))) [0..<16] = replicate 16 0" using none by (intro nth_equalityI) simp_all
  ultimately have img: "node_image ?T H tp h q = \<lparr>rn_slots = replicate 16 0, rn_parent = a, rn_offset = of_nat (q mod 16), rn_count = 0, rn_height = of_nat (Suc h)\<rparr>"
    using H e(2) by (simp add: node_image_def)
  have nodes: "((rt_nodes s)(a \<mapsto> add_child (node_image T H tp (Suc h) (q div 16)) (q mod 16) x, x \<mapsto> node_image ?T H tp h q)) b = Some (node_image ?T H tp g p)"
    if b: "?T (Suc g, p) = Some b" for g p b
  proof (cases "(Suc g, p) = (Suc h, q)")
    case True
    then show ?thesis using b by simp
  next
    case False
    then have b': "T (Suc g, p) = Some b" using b by (simp only: fun_upd_other not_False_eq_True)
    then have "b \<noteq> x" using x(2) in_tree_nodes by auto
    then show ?thesis using images_add [OF rep e b', of x] by simp
  qed
  have "x \<notin> tree_nodes T" "a \<in> tree_nodes T" using x(2) in_tree_nodes [of T "Suc h" "q div 16" a] e(2) by simp_all
  then show ?thesis using rep H tm x nodes rep_finite [OF rep] unfolding img [symmetric] radix_rep_def tree_nodes_add [of T h q, OF e(1)]
    by (auto simp: insert_absorb)
qed

lemma rep_del_node:
  assumes rep: "radix_rep B s H tp T" and e: "T (Suc h, q) = Some x" "T (Suc (Suc h), q div 16) = Some a" and leaf: "children T h q = {}"
    and hp: "heap_owns hp (B \<union> tree_nodes T - {x})"
  shows "radix_rep B (s\<lparr>rt_heap := hp, rt_count := rt_count s - 1,
      rt_nodes := (rt_nodes s)(x := None, a \<mapsto> del_child (node_image T H tp (Suc h) (q div 16)) (q mod 16))\<rparr>) H tp (T((Suc h, q) := None))"
proof -
  note mp = rep_map [OF rep]
  let ?T = "T((Suc h, q) := None)"
  have H: "Suc h < H" using tree_mapD(3) [OF mp e(2)] by simp
  have e': "T (Suc h, q) \<noteq> None" using e(1) by simp
  have tm: "tree_map H ?T" by (rule tree_map_del [OF mp]) (use leaf in simp)
  have ax: "a \<noteq> x" using tree_mapD(6) [OF mp e(1), of "Suc h" "q div 16"] e(2) by auto
  have nodes: "((rt_nodes s)(x := None, a \<mapsto> del_child (node_image T H tp (Suc h) (q div 16)) (q mod 16))) b = Some (node_image ?T H tp g p)"
    if b: "?T (Suc g, p) = Some b" for g p b
  proof -
    from b have b': "T (Suc g, p) = Some b" "(Suc g, p) \<noteq> (Suc h, q)" by (auto split: if_splits)
    then have "b \<noteq> x" using tree_mapD(6) [OF mp e(1), of g p] by auto
    then show ?thesis using images_del [OF rep e' e(2) b'(1)] leaf by (auto split: if_splits)
  qed
  have tn: "x \<in> tree_nodes T" "a \<in> tree_nodes T" using in_tree_nodes e by auto
  have B: "B \<inter> tree_nodes T = {}" using rep by (simp add: radix_rep_def)
  then have "B \<union> tree_nodes T - {x} = B \<union> (tree_nodes T - {x})" "B \<inter> (tree_nodes T - {x}) = {}" using tn(1) by auto
  moreover have "dom (rt_nodes s) = tree_nodes T" using rep by (simp add: radix_rep_def)
  moreover have "rt_count s - 1 = of_nat (card (tree_nodes T - {x}))"
  proof -
    have "card (tree_nodes T) = Suc (card (tree_nodes T - {x}))" using card_Suc_Diff1 [OF rep_finite [OF rep] tn(1)] by simp
    then show ?thesis using rep by (simp add: radix_rep_def)
  qed
  ultimately show ?thesis using rep H tm nodes hp tn ax unfolding radix_rep_def tree_nodes_del [OF mp e(1)]
    by (auto simp: insert_absorb)
qed

section \<open>Insertion\<close>

text \<open>Room for \<open>n\<close> more nodes.\<close>

definition room_for :: "heap \<Rightarrow> nat \<Rightarrow> bool" where
  "room_for h n \<longleftrightarrow> heap_room h (40 + 176 * n)"

lemma room_for_mono: "room_for h n \<Longrightarrow> m \<le> n \<Longrightarrow> room_for h m"
  unfolding room_for_def by (erule heap_room_mono) simp

lemma radix_alloc:
  assumes "heap_owns (rt_heap s) A"
  obtains (full) h' where "radix_tree_node_alloc s ht = Some (0, s\<lparr>rt_heap := h'\<rparr>)" "heap_owns h' A" "\<And>n. 0 < n \<Longrightarrow> \<not> room_for (rt_heap s) n"
  | (node) x h' where "radix_tree_node_alloc s ht = Some (x, s\<lparr>rt_heap := h', rt_count := rt_count s + 1, rt_nodes := (rt_nodes s)(x \<mapsto> radix_tree_node_init ht)\<rparr>)"
      "x \<noteq> 0" "x \<notin> A" "heap_owns h' (insert x A)" "\<And>m. room_for (rt_heap s) (Suc m) \<Longrightarrow> room_for h' m"
proof -
  from hp.alloc_owns [OF assms, of 152] obtain x h' where m: "heap_malloc (rt_heap s) 152 = Some (x, h')"
    "x = 0 \<and> heap_owns h' A \<or> x \<noteq> 0 \<and> x \<notin> A \<and> heap_owns h' (insert x A)" by auto
  have room: "x \<noteq> 0 \<and> room_for h' n" if "room_for (rt_heap s) (Suc n)" for n
    using malloc_room [of "rt_heap s" "40 + 176 * Suc n" 152] that m(1) by (auto simp: room_for_def)
  show ?thesis
  proof (cases "x = 0")
    case True
    then have "\<not> room_for (rt_heap s) n" if "0 < n" for n using room [of "n - 1"] that by auto
    then show ?thesis using True m by (intro full [of h']) (simp_all add: radix_tree_node_alloc_def radix_node_size_def)
  next
    case False
    then show ?thesis using m room by (intro node [of x h']) (simp_all add: radix_tree_node_alloc_def radix_node_size_def)
  qed
qed

lemma node_height: "n \<le> 16 \<Longrightarrow> ucast (of_nat n :: u8) = (of_nat n :: u32)"
proof -
  assume "n \<le> 16"
  then have "take_bit 8 n = n" by (intro take_bit_nat_eq_self) simp
  then show ?thesis by (subst unsigned_of_nat) simp
qed

lemma rep_owns: "radix_rep B s H tp T \<Longrightarrow> heap_owns (rt_heap s) (B \<union> tree_nodes T)"
  by (simp add: radix_rep_def)

lemma rep_heap:
  assumes "radix_rep B s H tp T" "heap_owns h' (B \<union> tree_nodes T)"
  shows "radix_rep B (s\<lparr>rt_heap := h'\<rparr>) H tp T"
  using assms by (simp add: radix_rep_def)

lemma grow_slot_ok:
  assumes rep: "radix_rep B s H tp T" and a: "T (Suc (Suc h), q div 16) = Some a"
  shows "\<exists>r s'. grow_slot s (of_nat (Suc h)) a (q mod 16) = Some (r, s') \<and> rt_at s' = rt_at s \<and>
    (if T (Suc h, q) \<noteq> None then r \<and> s' = s
     else if r then (\<exists>x. radix_rep B s' H tp (T((Suc h, q) \<mapsto> x))) \<and> (\<forall>m. room_for (rt_heap s) (Suc m) \<longrightarrow> room_for (rt_heap s') m)
     else radix_rep B s' H tp T \<and> (\<forall>n > 0. \<not> room_for (rt_heap s) n))"
proof -
  note mp = rep_map [OF rep]
  have H: "Suc h < H" "Suc h \<le> 16" using tree_mapD(3) [OF mp a] rep_level [OF rep a] by simp_all
  have q: "16 * (q div 16) + q mod 16 = q" by simp
  have sl: "radix_slot s a (q mod 16) = Some (ptr (T (Suc h, q)))" using rep_slot [OF rep a, of "q mod 16"] unfolding q by simp
  have nd: "rt_nodes s a = Some (node_image T H tp (Suc h) (q div 16))" by (rule rep_node [OF rep a])
  show ?thesis
  proof (cases "T (Suc h, q)")
    case (Some b)
    then show ?thesis using sl tree_mapD(1) [OF mp Some] by (intro exI [of _ True]) (simp add: grow_slot_def)
  next
    case None
    show ?thesis
    proof (cases rule: radix_alloc [OF rep_owns [OF rep], where ht = "of_nat (Suc h)", case_names full node])
      case (full h')
      let ?n = "node_image T H tp (Suc h) (q div 16)"
      have "(rn_slots ?n)[q mod 16 := 0] = rn_slots ?n"
        using image_slot [of "q mod 16" T H tp "Suc h" "q div 16"] None unfolding q by (simp add: list_update_same_conv node_image_def)
      then have "?n\<lparr>rn_slots := (rn_slots ?n)[q mod 16 := 0]\<rparr> = ?n" by simp
      then have "set_slot (s\<lparr>rt_heap := h'\<rparr>) a (q mod 16) 0 = Some (s\<lparr>rt_heap := h'\<rparr>)"
        using nd by (simp add: set_slot_def radix_upd_def fun_upd_idem)
      then have "grow_slot s (of_nat (Suc h)) a (q mod 16) = Some (False, s\<lparr>rt_heap := h'\<rparr>)"
        using sl None full(1) by (simp add: grow_slot_def)
      then show ?thesis using rep_heap [OF rep full(2)] full(3) None by (intro exI [of _ False]) simp
    next
      case (node x h')
      have ax: "a \<noteq> x" using node(3) in_tree_nodes [of T "Suc h" "q div 16" a] a by auto
      have "ucast (of_nat (Suc h) :: u8) = (of_nat (Suc h) :: u32)"
        by (rule node_height) (use H(2) in simp)
      define s' where "s' = s\<lparr>rt_heap := h', rt_count := rt_count s + 1, rt_nodes := (rt_nodes s)(a \<mapsto> add_child (node_image T H tp (Suc h) (q div 16)) (q mod 16) x,
        x \<mapsto> \<lparr>rn_slots = replicate 16 0, rn_parent = a, rn_offset = of_nat (q mod 16), rn_count = 0, rn_height = of_nat (Suc h)\<rparr>)\<rparr>"
      have "radix_rep B s' H tp (T((Suc h, q) \<mapsto> x))"
        unfolding s'_def by (rule rep_add_node [OF rep None a H(1) node(2,3,4)])
      moreover have "grow_slot s (of_nat (Suc h)) a (q mod 16) = Some (True, s')"
        using sl None node(1,2) nd ax \<open>ucast (of_nat (Suc h) :: u8) = _\<close>
        by (simp add: grow_slot_def set_slot_def radix_upd_def radix_tree_node_init_def add_child_def s'_def fun_upd_twist del: of_nat_Suc)
      ultimately show ?thesis using None node(5) by (intro exI [of _ True]) (auto simp: s'_def)
    qed
  qed
qed

lemma grow_path_ok:
  "radix_rep B s H tp T \<Longrightarrow> T (Suc h, k div 16 ^ Suc h) = Some a \<Longrightarrow> 0 < h \<longrightarrow> unat shift = 4 * h \<Longrightarrow>
   \<exists>r s' T'. grow_path h s k shift a = Some (r, s') \<and> radix_rep B s' H tp T' \<and> rt_at s' = rt_at s \<and> (\<forall>j. T' (0, j) = T (0, j)) \<and>
     (\<forall>D. covered T D \<longrightarrow> k \<in> D \<longrightarrow> covered T' D) \<and> (T (0, k) \<noteq> None \<longrightarrow> r \<noteq> None \<and> s' = s) \<and>
     (case r of None \<Rightarrow> \<forall>n \<ge> h. \<not> room_for (rt_heap s) n | Some b \<Rightarrow> T' (Suc 0, k div 16) = Some b)"
proof (induction h arbitrary: s T a shift)
  case 0
  then show ?case by auto
next
  case (Suc h)
  note rep = Suc.prems(1) and mp = rep_map [OF Suc.prems(1)]
  let ?q = "k div 16 ^ Suc h"
  have a: "T (Suc (Suc h), ?q div 16) = Some a" using Suc.prems(2) unfolding div_16 .
  have H: "Suc h < H" "Suc h < 16" using tree_mapD(3) [OF mp a] rep_level [OF rep a] by simp_all
  have off: "radix_offset k (unat shift) = Some (?q mod 16)" using Suc.prems(3) radix_offset_level [OF H(2), of k] by simp
  have sh: "0 < h \<longrightarrow> unat (shift - of_nat BIT_LEVEL) = 4 * h" using Suc.prems(3) shift_next [of shift h] by simp
  have qq: "16 * (?q div 16) + ?q mod 16 = ?q" by simp
  from grow_slot_ok [OF rep a] obtain r s1 where g: "grow_slot s (of_nat (Suc h)) a (?q mod 16) = Some (r, s1)" "rt_at s1 = rt_at s"
    "if T (Suc h, ?q) \<noteq> None then r \<and> s1 = s
     else if r then (\<exists>x. radix_rep B s1 H tp (T((Suc h, ?q) \<mapsto> x))) \<and> (\<forall>m. room_for (rt_heap s) (Suc m) \<longrightarrow> room_for (rt_heap s1) m)
     else radix_rep B s1 H tp T \<and> (\<forall>n > 0. \<not> room_for (rt_heap s) n)" by blast
  show ?case
  proof (cases r)
    case False
    then have none: "T (Suc h, ?q) = None" and g': "radix_rep B s1 H tp T" "\<forall>n > 0. \<not> room_for (rt_heap s) n" using g(3) by (auto split: if_splits)
    have "T (0, k) = None"
    proof (rule ccontr)
      assume "T (0, k) \<noteq> None"
      then show False using key_up [OF mp, of k "Suc h"] none H(1) by (simp add: keys_def)
    qed
    moreover have "grow_path (Suc h) s k shift a = Some (None, s1)" using off g(1) False by simp
    ultimately show ?thesis using g' g(2) by (intro exI [of _ None] exI [of _ s1] exI [of _ T]) simp
  next
    case True
    have "\<exists>T1 b. radix_rep B s1 H tp T1 \<and> T1 (Suc h, ?q) = Some b \<and> (\<forall>j. T1 (0, j) = T (0, j)) \<and> (\<forall>D. covered T D \<longrightarrow> k \<in> D \<longrightarrow> covered T1 D) \<and>
      T1 (Suc (Suc h), ?q div 16) = Some a \<and> (T (Suc h, ?q) \<noteq> None \<longrightarrow> s1 = s) \<and> (\<forall>m. room_for (rt_heap s) (Suc m) \<longrightarrow> room_for (rt_heap s1) m)"
    proof (cases "T (Suc h, ?q)")
      case (Some b)
      then have "s1 = s" using g(3) by simp
      then show ?thesis using rep Some a room_for_mono by (intro exI [of _ T] exI [of _ b]) auto
    next
      case None
      with g(3) True obtain x where x: "radix_rep B s1 H tp (T((Suc h, ?q) \<mapsto> x))" "\<forall>m. room_for (rt_heap s) (Suc m) \<longrightarrow> room_for (rt_heap s1) m" by auto
      have "covered (T((Suc h, ?q) \<mapsto> x)) D" if "covered T D" "k \<in> D" for D
        using that unfolding covered_def by auto
      then show ?thesis using x None a by (intro exI [of _ "T((Suc h, ?q) \<mapsto> x)"] exI [of _ x]) simp
    qed
    then obtain T1 b where T1: "radix_rep B s1 H tp T1" "T1 (Suc h, ?q) = Some b" "\<forall>j. T1 (0, j) = T (0, j)" "\<forall>D. covered T D \<longrightarrow> k \<in> D \<longrightarrow> covered T1 D"
      "T1 (Suc (Suc h), ?q div 16) = Some a" "T (Suc h, ?q) \<noteq> None \<longrightarrow> s1 = s" "\<forall>m. room_for (rt_heap s) (Suc m) \<longrightarrow> room_for (rt_heap s1) m" by blast
    have sl: "radix_slot s1 a (?q mod 16) = Some b" using rep_slot [OF T1(1,5), of "?q mod 16"] T1(2) unfolding qq by simp
    from Suc.IH [OF T1(1,2) sh] obtain r' s' T' where i: "grow_path h s1 k (shift - of_nat BIT_LEVEL) b = Some (r', s')" "radix_rep B s' H tp T'"
      "rt_at s' = rt_at s1" "\<forall>j. T' (0, j) = T1 (0, j)" "\<forall>D. covered T1 D \<longrightarrow> k \<in> D \<longrightarrow> covered T' D" "T1 (0, k) \<noteq> None \<longrightarrow> r' \<noteq> None \<and> s' = s1"
      "case r' of None \<Rightarrow> \<forall>n \<ge> h. \<not> room_for (rt_heap s1) n | Some b \<Rightarrow> T' (Suc 0, k div 16) = Some b" by blast
    have "grow_path (Suc h) s k shift a = Some (r', s')" using off g(1) True sl i(1) by simp
    moreover have "T (0, k) \<noteq> None \<longrightarrow> r' \<noteq> None \<and> s' = s"
    proof
      assume n: "T (0, k) \<noteq> None"
      then have "T (Suc h, ?q) \<noteq> None" using key_up [OF mp, of k "Suc h"] H(1) by (simp add: keys_def)
      then show "r' \<noteq> None \<and> s' = s" using n i(6) T1(3,6) by simp
    qed
    moreover have "case r' of None \<Rightarrow> \<forall>n \<ge> Suc h. \<not> room_for (rt_heap s) n | Some b \<Rightarrow> T' (Suc 0, k div 16) = Some b"
    proof (cases r')
      case None
      have "\<not> room_for (rt_heap s) n" if "Suc h \<le> n" for n
        using i(7) None T1(7) [rule_format, of "n - 1"] that by auto
      then show ?thesis using None by simp
    qed (use i(7) in simp)
    ultimately show ?thesis using i(2-5) T1(3,4) g(2) by (intro exI [of _ r'] exI [of _ s'] exI [of _ T']) simp
  qed
qed

lemma grow_node_ok:
  assumes rep: "radix_rep B s H tp T" and H: "0 < H" and k: "k < 16 ^ H" and x: "x \<noteq> 0"
  shows "\<exists>r s' T'. radix_tree_grow_node s k x = Some (r, s') \<and> radix_rep B s' H tp T' \<and> rt_at s' = rt_at s \<and>
    (\<forall>D. covered T D \<longrightarrow> k \<in> D \<longrightarrow> covered T' D) \<and>
    (if T (0, k) \<noteq> None then r = - 1 \<and> s' = s \<and> T' = T
     else r = 0 \<and> (\<forall>j. T' (0, j) = (if j = k then Some x else T (0, j))) \<or>
       r = - 1 \<and> (\<forall>j. T' (0, j) = T (0, j)) \<and> (\<forall>n \<ge> H - 1. \<not> room_for (rt_heap s) n))"
proof -
  note mp = rep_map [OF rep]
  obtain h where h: "H = Suc h" using H by (cases H) auto
  have H16: "H \<le> 16" "rt_height s = of_nat H" using rep by (simp_all add: radix_rep_def)
  obtain a where a: "T (H, 0) = Some a" "rt_rnode s = a" using rep H by (auto elim: rep_root)
  have aS: "T (Suc h, k div 16 ^ Suc h) = Some a" using a(1) k unfolding h by simp
  have u: "(ucast (rt_height s) :: u8) = of_nat H" using small_height(2,4) [OF H16(1)] unfolding H16(2) by (metis unsigned_word_eqI)
  have sh: "0 < h \<longrightarrow> unat ((of_nat H - 1) * of_nat BIT_LEVEL :: u8) = 4 * h" using shift_first(2) [OF H H16(1)] h by simp
  from grow_path_ok [OF rep aS sh] obtain r s1 T1 where g: "grow_path h s k ((of_nat H - 1) * of_nat BIT_LEVEL) a = Some (r, s1)"
    "radix_rep B s1 H tp T1" "rt_at s1 = rt_at s" "\<forall>j. T1 (0, j) = T (0, j)" "\<forall>D. covered T D \<longrightarrow> k \<in> D \<longrightarrow> covered T1 D"
    "T (0, k) \<noteq> None \<longrightarrow> r \<noteq> None \<and> s1 = s" "case r of None \<Rightarrow> \<forall>n \<ge> h. \<not> room_for (rt_heap s) n | Some b \<Rightarrow> T1 (Suc 0, k div 16) = Some b" by blast
  have st: "radix_tree_grow_node s k x = (case r of None \<Rightarrow> Some (- 1, s1) | Some leaf \<Rightarrow> do {
       v \<leftarrow> radix_slot s1 leaf (k mod 16);
       if v \<noteq> 0 then Some (- 1, s1) else do {
         s \<leftarrow> set_slot s1 leaf (k mod 16) x;
         s \<leftarrow> radix_upd s leaf (\<lambda>n. n\<lparr>rn_count := rn_count n + 1\<rparr>);
         Some (0, s) } })"
    using g(1) a(2) small_height(4) [OF H16(1)] h unfolding radix_tree_grow_node_def u by (simp add: and_15 Let_def split: option.split)
  show ?thesis
  proof (cases r)
    case None
    then have "T (0, k) = None" using g(6) by blast
    then show ?thesis using None st g(2-5,7) h by (intro exI [of _ "- 1"] exI [of _ s1] exI [of _ T1]) simp
  next
    case (Some b)
    then have b: "T1 (Suc 0, k div 16) = Some b" using g(7) by simp
    have sl: "radix_slot s1 b (k mod 16) = Some (ptr (T (0, k)))"
      using rep_slot [OF g(2) b, of "k mod 16"] g(4) by simp
    show ?thesis
    proof (cases "T (0, k)")
      case (Some y)
      then have "s1 = s" using g(6) by simp
      then have "radix_tree_grow_node s k x = Some (- 1, s)"
        using st \<open>r = Some b\<close> sl Some tree_mapD(1) [OF mp Some] by simp
      then show ?thesis using Some rep by (intro exI [of _ "- 1"] exI [of _ s] exI [of _ T]) simp
    next
      case None
      then have n1: "T1 (0, k) = None" using g(4) by simp
      let ?s = "s1\<lparr>rt_nodes := (rt_nodes s1)(b \<mapsto> add_child (node_image T1 H tp 0 (k div 16)) (k mod 16) x)\<rparr>"
      have "radix_tree_grow_node s k x = Some (0, ?s)"
        using st Some sl None rep_node [OF g(2) b] by (simp add: set_slot_def radix_upd_def add_child_def)
      moreover have "radix_rep B ?s H tp (T1((0, k) \<mapsto> x))" by (rule rep_add_item [OF g(2) n1 b x])
      moreover have "covered (T1((0, k) \<mapsto> x)) D" if "covered T D" "k \<in> D" for D
        using g(5) that by (simp add: covered_def)
      ultimately show ?thesis using None g(3,4) by (intro exI [of _ 0] exI [of _ ?s] exI [of _ "T1((0, k) \<mapsto> x)"]) simp
    qed
  qed
qed

text \<open>One more level on top.\<close>

lemma rep_grow:
  assumes rep: "radix_rep B s H tp T" and H: "0 < H" "H < 16" and a: "T (H, 0) = Some a"
    and x: "x \<noteq> 0" "x \<notin> B \<union> tree_nodes T" "heap_owns hp (insert x (B \<union> tree_nodes T))"
  shows "radix_rep B (s\<lparr>rt_height := rt_height s + 1, rt_heap := hp, rt_count := rt_count s + 1,
      rt_nodes := (rt_nodes s)(a \<mapsto> (node_image T H tp (H - 1) 0)\<lparr>rn_parent := x\<rparr>,
      x \<mapsto> \<lparr>rn_slots = (replicate 16 0)[0 := a], rn_parent = 0, rn_offset = 0, rn_count = 1, rn_height = of_nat (Suc H)\<rparr>), rt_rnode := x\<rparr>) (Suc H) 0 (T((Suc H, 0) \<mapsto> x))"
proof -
  note mp = rep_map [OF rep]
  note d = tree_mapD [OF mp]
  let ?T = "T((Suc H, 0) \<mapsto> x)"
  have lev: "h \<le> H" if "T (h, p) \<noteq> None" for h p using d(3) that by auto
  have new: "T (Suc H, p) = None" for p using lev [of "Suc H" p] by (cases "T (Suc H, p)") auto
  have root: "p = 0" if "T (H, p) \<noteq> None" for p using d(4) [of H p] that by auto
  have fresh: "T (Suc g, p) \<noteq> Some x" for g p using x(2) in_tree_nodes [of T g p x] by auto
  have old: "?T (h, p) = Some b \<Longrightarrow> h \<noteq> Suc H \<Longrightarrow> T (h, p) = Some b" for h p b by (simp split: if_splits)
  have tm: "tree_map (Suc H) ?T"
  proof -
    have "b \<noteq> 0 \<and> 0 < Suc H \<and> h \<le> Suc H \<and> p < 16 ^ (Suc H - h)" if "?T (h, p) = Some b" for h p b
    proof (cases "(h, p) = (Suc H, 0)")
      case False
      then have t: "T (h, p) = Some b" using that by (simp only: fun_upd_other not_False_eq_True)
      have "(16 :: nat) ^ (H - h) \<le> 16 ^ (Suc H - h)" by (rule power_increasing) simp_all
      then show ?thesis using d(1,3,4) [OF t] by (meson le_SucI less_le_trans zero_less_Suc)
    qed (use that x in simp)
    moreover have "?T (Suc h, p div 16) \<noteq> None" if "?T (h, p) \<noteq> None" "h < Suc H" for h p
    proof -
      have t: "T (h, p) \<noteq> None" using that by (auto split: if_splits)
      show ?thesis
      proof (cases "h = H")
        case True
        then show ?thesis using root [of p] t by simp
      next
        case False
        then show ?thesis using d(5) [OF t] that(2) by simp
      qed
    qed
    moreover have "g = g' \<and> p = p'" if "?T (Suc g, p) = Some b" "?T (Suc g', p') = Some b" for g p g' p' b
      using that d(6) [of g p b g' p'] fresh by (auto split: if_splits)
    ultimately show ?thesis unfolding tree_map_def by blast
  qed
  have img_new: "node_image ?T (Suc H) 0 H 0 = \<lparr>rn_slots = (replicate 16 0)[0 := a], rn_parent = 0, rn_offset = 0, rn_count = 1, rn_height = of_nat (Suc H)\<rparr>"
  proof -
    have r0: "T (H, i) = None" if "0 < i" for i using root [of i] that by (cases "T (H, i)") auto
    have "map (\<lambda>i. ptr (?T (H, 16 * 0 + i))) [0..<16] = (replicate 16 0)[0 := a]"
      using r0 a by (intro nth_equalityI) (auto simp: nth_list_update)
    moreover have "children ?T H 0 = {0}" using r0 a by (auto simp: children_def intro: ccontr)
    ultimately show ?thesis by (simp add: node_image_def)
  qed
  have img_old: "node_image ?T (Suc H) 0 g p = (if Suc g = H then (node_image T H tp g p)\<lparr>rn_parent := x\<rparr> else node_image T H tp g p)"
    if "T (Suc g, p) = Some b" for g p b
  proof -
    have g: "g < H" using d(3) [OF that] by simp
    have "p = 0" if "Suc g = H" using root [of p] \<open>T (Suc g, p) = Some b\<close> that by auto
    moreover have "children ?T g p = children T g p" using g by (simp add: children_def)
    ultimately show ?thesis using g by (auto simp: node_image_def)
  qed
  let ?n = "\<lparr>rn_slots = (replicate 16 0)[0 := a], rn_parent = 0, rn_offset = 0, rn_count = 1, rn_height = of_nat (Suc H)\<rparr>"
  let ?m = "(rt_nodes s)(a \<mapsto> (node_image T H tp (H - 1) 0)\<lparr>rn_parent := x\<rparr>, x \<mapsto> ?n)"
  obtain h where h: "H = Suc h" using H by (cases H) auto
  have aS: "T (Suc h, 0) = Some a" using a unfolding h .
  have ax: "a \<noteq> x" using fresh [of h 0] aS by auto
  have nodes: "?m b = Some (node_image ?T (Suc H) 0 g p)" if b: "?T (Suc g, p) = Some b" for g p b
  proof (cases "(Suc g, p) = (Suc H, 0)")
    case True
    then show ?thesis using b img_new by simp
  next
    case False
    then have b': "T (Suc g, p) = Some b" using b by (simp only: fun_upd_other not_False_eq_True)
    then have bx: "b \<noteq> x" using fresh [of g p] by auto
    show ?thesis
    proof (cases "b = a")
      case True
      then have "g = h \<and> p = 0" using d(6) [OF b', of h 0] aS by simp
      then show ?thesis using True ax img_old [OF b'] h by simp
    next
      case False
      have "Suc g \<noteq> H" using False root [of p] b' a by auto
      then show ?thesis using False bx img_old [OF b'] rep_node [OF rep b'] by simp
    qed
  qed
  have tn: "tree_nodes ?T = insert x (tree_nodes T)" by (rule tree_nodes_add) (rule new)
  have "x \<notin> tree_nodes T" "a \<in> tree_nodes T" using x(2) in_tree_nodes [of T h 0 a] aS by simp_all
  moreover have "?T (Suc H, 0) = Some x" by simp
  ultimately show ?thesis using rep H tm x nodes rep_finite [OF rep] unfolding radix_rep_def tn
    by (auto simp: insert_absorb simp del: fun_upd_apply)
qed

lemma up_u8: "unat (ucast (w :: u8) :: u32) = unat w"
  using u8_less [of w] by (simp add: unsigned_ucast_eq take_bit_nat_eq_self)

lemma grow_height_ok:
  "radix_rep B s H tp T \<Longrightarrow> 0 < H \<Longrightarrow> H \<le> unat w \<Longrightarrow> unat w \<le> 16 \<Longrightarrow> covered T D \<Longrightarrow> \<exists>k \<in> D. k < 16 ^ H \<Longrightarrow>
   \<exists>r s'. radix_tree_grow_height s w = Some (r, s') \<and> rt_at s' = rt_at s \<and>
     (r = - 1 \<and> (\<forall>n \<ge> unat w - H. \<not> room_for (rt_heap s) n) \<or>
      r = int (unat w) \<and> (\<exists>tp' T'. radix_rep B s' (unat w) tp' T' \<and> (\<forall>j. T' (0, j) = T (0, j)) \<and> covered T' D) \<and>
        (\<forall>m. room_for (rt_heap s) (unat w - H + m) \<longrightarrow> room_for (rt_heap s') m))"
proof (induction "unat w - H" arbitrary: s H tp T)
  case 0
  then have H: "H = unat w" by simp
  have ht: "rt_height s = of_nat H" "H \<le> 16" using 0(2) by (simp_all add: radix_rep_def)
  have "\<not> rt_height s < ucast w" unfolding ht(1) word_less_nat_alt using small_height(3) [OF ht(2)] H by (simp add: unsigned_ucast_eq)
  then have "radix_tree_grow_height s w = Some (int (unat w), s)"
    using small_height(1) [OF ht(2)] ht(1) H by (simp add: radix_tree_grow_height.simps [of s w])
  then show ?case using 0 H by auto
next
  case (Suc n)
  note rep = Suc.prems(1) and mp = rep_map [OF Suc.prems(1)]
  have H: "0 < H" "H < unat w" "H < 16" using Suc.hyps(2) Suc.prems by simp_all
  have ht: "rt_height s = of_nat H" using rep by (simp add: radix_rep_def)
  have lt: "rt_height s < ucast w" unfolding ht word_less_nat_alt using small_height(3) [of H] H by (simp add: up_u8)
  have hs: "rt_height s + 1 = of_nat (Suc H)" unfolding ht by simp
  have u8: "(ucast (of_nat (Suc H) :: u32) :: u8) = of_nat (Suc H)" using small_height(2,4) [of "Suc H"] H by (metis Suc_leI unsigned_word_eqI)
  obtain a where a: "T (H, 0) = Some a" "rt_rnode s = a" using rep H by (auto elim: rep_root)
  obtain h where h: "H = Suc h" using H(1) by (cases H) auto
  have nd: "rt_nodes s a = Some (node_image T H tp h 0)" using rep_node [OF rep, of h 0 a] a(1) h by simp
  let ?s = "s\<lparr>rt_height := of_nat (Suc H)\<rparr>"
  have own: "heap_owns (rt_heap ?s) (B \<union> tree_nodes T)" using rep_owns [OF rep] by simp
  show ?case
  proof (cases rule: radix_alloc [OF own, where ht = "of_nat (Suc H)", case_names full node])
    case (full h')
    have "radix_tree_grow_height s w = Some (- 1, ?s\<lparr>rt_heap := h'\<rparr>)"
      using lt hs u8 full(1) by (simp add: radix_tree_grow_height.simps [of s w] Let_def del: of_nat_Suc)
    then show ?thesis using full(3) H(2) by auto
  next
    case (node x h')
    have xa: "x \<noteq> a" using node(3) in_tree_nodes [of T h 0 a] a(1) h by auto
    define s1 where "s1 = s\<lparr>rt_height := rt_height s + 1, rt_heap := h', rt_count := rt_count s + 1,
      rt_nodes := (rt_nodes s)(a \<mapsto> (node_image T H tp (H - 1) 0)\<lparr>rn_parent := x\<rparr>,
      x \<mapsto> \<lparr>rn_slots = (replicate 16 0)[0 := a], rn_parent = 0, rn_offset = 0, rn_count = 1, rn_height = of_nat (Suc H)\<rparr>), rt_rnode := x\<rparr>"
    have rep1: "radix_rep B s1 (Suc H) 0 (T((Suc H, 0) \<mapsto> x))"
      unfolding s1_def by (rule rep_grow [OF rep H(1,3) a(1) node(2,3,4)])
    have uc: "ucast (of_nat (Suc H) :: u8) = (of_nat (Suc H) :: u32)" by (rule node_height) (use H in simp)
    have st: "radix_tree_grow_height s w = radix_tree_grow_height s1 w"
      using lt hs u8 node(1,2) xa nd a(2) uc
      by (simp add: radix_tree_grow_height.simps [of s w] Let_def radix_upd_def set_slot_def radix_tree_node_init_def s1_def h fun_upd_twist del: of_nat_Suc)
    from Suc.prems(6) obtain k where k: "k \<in> D" "k < 16 ^ H" by blast
    have kS: "k < 16 ^ Suc H" using k(2) by simp
    have cov: "covered (T((Suc H, 0) \<mapsto> x)) D" using Suc.prems(5) k(1) div_less [OF kS] unfolding covered_def
      by (auto simp del: power_Suc split: if_splits)
    have keys0: "\<forall>j. (T((Suc H, 0) \<mapsto> x)) (0, j) = T (0, j)" by simp
    have "n = unat w - Suc H" "Suc H \<le> unat w" using Suc.hyps(2) H(2) by simp_all
    from Suc.hyps(1) [OF this(1) rep1 _ this(2) Suc.prems(4) cov] k(1) kS
    obtain r s' where r: "radix_tree_grow_height s1 w = Some (r, s')" "rt_at s' = rt_at s1"
     "r = - 1 \<and> (\<forall>n \<ge> unat w - Suc H. \<not> room_for (rt_heap s1) n) \<or>
      r = int (unat w) \<and> (\<exists>tp' T'. radix_rep B s' (unat w) tp' T' \<and> (\<forall>j. T' (0, j) = (T((Suc H, 0) \<mapsto> x)) (0, j)) \<and> covered T' D) \<and>
        (\<forall>m. room_for (rt_heap s1) (unat w - Suc H + m) \<longrightarrow> room_for (rt_heap s') m)" by blast
    have room: "room_for (rt_heap s1) m" if "room_for (rt_heap s) (Suc m)" for m using node(5) that by (simp add: s1_def)
    from r(3) show ?thesis
    proof (elim disjE conjE)
      assume f: "r = - 1" "\<forall>n \<ge> unat w - Suc H. \<not> room_for (rt_heap s1) n"
      have "\<not> room_for (rt_heap s) m" if "unat w - H \<le> m" for m using f(2) room [of "m - 1"] that H(2) by auto
      then show ?thesis using st r(1,2) f(1) by (simp add: s1_def)
    next
      assume f: "r = int (unat w)" "\<exists>tp' T'. radix_rep B s' (unat w) tp' T' \<and> (\<forall>j. T' (0, j) = (T((Suc H, 0) \<mapsto> x)) (0, j)) \<and> covered T' D"
        "\<forall>m. room_for (rt_heap s1) (unat w - Suc H + m) \<longrightarrow> room_for (rt_heap s') m"
      have "room_for (rt_heap s') m" if "room_for (rt_heap s) (unat w - H + m)" for m
        using f(3) room [of "unat w - Suc H + m"] that H(2) by (simp add: Suc_diff_Suc)
      then show ?thesis using st r(1,2) f(1,2) unfolding keys0 [rule_format] by (simp add: s1_def)
    qed
  qed
qed

lemma rep_first:
  assumes rep: "radix_rep B s 0 tp T" and w: "0 < w" "w \<le> 16" and x: "x \<noteq> 0" "x \<notin> B" "heap_owns hp (insert x B)"
  shows "radix_rep B (s\<lparr>rt_heap := hp, rt_count := rt_count s + 1, rt_rnode := x,
      rt_nodes := (rt_nodes s)(x \<mapsto> \<lparr>rn_slots = replicate 16 0, rn_parent = rt_at s, rn_offset = 0, rn_count = 0, rn_height = of_nat w\<rparr>), rt_height := of_nat w\<rparr>) w (rt_at s) [(w, 0) \<mapsto> x]"
proof -
  have T: "T = Map.empty" using rep_empty [OF rep] by simp
  obtain g where g: "w = Suc g" using w(1) by (cases w) auto
  have tn: "tree_nodes [(w, 0) \<mapsto> x] = {x}" by (auto simp: tree_nodes_def g)
  have "tree_nodes T = {}" by (simp add: T tree_nodes_def)
  moreover have "tree_map w [(w, 0) \<mapsto> x]" using x(1) w(1) by (auto simp: tree_map_def split: if_splits)
  moreover have "node_image [(w, 0) \<mapsto> x] w (rt_at s) g 0 = \<lparr>rn_slots = replicate 16 0, rn_parent = rt_at s, rn_offset = 0, rn_count = 0, rn_height = of_nat w\<rparr>"
    by (auto simp: node_image_def g children_def intro!: nth_equalityI)
  ultimately show ?thesis using rep w x unfolding radix_rep_def tn by (auto simp: g split: if_splits)
qed

lemma covered_mono: "covered T D \<Longrightarrow> D \<subseteq> E \<Longrightarrow> covered T E"
  unfolding covered_def by blast

lemma insert_ok:
  assumes rep: "radix_rep B s H tp T" and cov: "covered T (keys T)" and k: "k < 2 ^ 64" and x: "x \<noteq> 0"
  shows "\<exists>r s'. radix_tree_insert s k x = Some (r, s') \<and> rt_at s' = rt_at s \<and>
    (if T (0, k) \<noteq> None then r = - 1 \<and> s' = s
     else r = - 1 \<and> \<not> room_for (rt_heap s) 31 \<or>
       r = 0 \<and> (\<exists>H' tp' T'. radix_rep B s' H' tp' T' \<and> covered T' (keys T') \<and> H \<le> H' \<and> k < 16 ^ H' \<and>
         (\<forall>j. T' (0, j) = (if j = k then Some x else T (0, j)))))"
proof -
  note mp = rep_map [OF rep]
  from radix_height_eq [OF k] obtain w where w: "radix_tree_height k = Some w" "1 \<le> unat w" "unat w \<le> 16" "\<forall>h \<ge> 1. k < 16 ^ h \<longleftrightarrow> unat w \<le> h" by blast
  have ht: "rt_height s = of_nat H" "H \<le> 16" "rt_rnode s = (if H = 0 then 0 else ptr (T (H, 0)))" using rep by (simp_all add: radix_rep_def)
  have last: "?thesis" if st: "radix_tree_insert s k x = radix_tree_grow_node s1 k x" "rt_at s1 = rt_at s" and rep1: "radix_rep B s1 H1 tp1 T1"
    and H1: "0 < H1" "k < 16 ^ H1" "H \<le> H1" "H1 \<le> 16" and T1: "\<forall>j. T1 (0, j) = T (0, j)" "covered T1 (insert k (keys T))"
    and room: "T (0, k) = None \<Longrightarrow> room_for (rt_heap s) 31 \<Longrightarrow> room_for (rt_heap s1) 15" and same: "T (0, k) \<noteq> None \<Longrightarrow> s1 = s" for s1 H1 tp1 T1
  proof -
    from grow_node_ok [OF rep1 H1(1,2) x] obtain r s' T' where g: "radix_tree_grow_node s1 k x = Some (r, s')" "radix_rep B s' H1 tp1 T'" "rt_at s' = rt_at s1"
      "\<forall>D. covered T1 D \<longrightarrow> k \<in> D \<longrightarrow> covered T' D"
      "if T1 (0, k) \<noteq> None then r = - 1 \<and> s' = s1 \<and> T' = T1
       else r = 0 \<and> (\<forall>j. T' (0, j) = (if j = k then Some x else T1 (0, j))) \<or>
         r = - 1 \<and> (\<forall>j. T' (0, j) = T1 (0, j)) \<and> (\<forall>n \<ge> H1 - 1. \<not> room_for (rt_heap s1) n)" by blast
    show ?thesis
    proof (cases "T (0, k) = None")
      case False
      then show ?thesis using g(1,3,5) st same T1(1) by auto
    next
      case True
      with g(5) T1(1) have "r = 0 \<and> (\<forall>j. T' (0, j) = (if j = k then Some x else T (0, j))) \<or> r = - 1 \<and> \<not> room_for (rt_heap s1) 15"
        using H1(4) by auto
      then show ?thesis
      proof (elim disjE conjE)
        assume r: "r = 0" "\<forall>j. T' (0, j) = (if j = k then Some x else T (0, j))"
        have "keys T' = insert k (keys T)" using r(2) by (auto simp: keys_def)
        then have "covered T' (keys T')" using g(4) T1(2) by simp
        then have "\<exists>H' tp' T'. radix_rep B s' H' tp' T' \<and> covered T' (keys T') \<and> H \<le> H' \<and> k < 16 ^ H' \<and>
            (\<forall>j. T' (0, j) = (if j = k then Some x else T (0, j)))" using g(2) H1(2,3) r(2) by blast
        then show ?thesis using True g(1,3) st(1,2) r(1) by simp
      next
        assume "r = - 1" "\<not> room_for (rt_heap s1) 15"
        then show ?thesis using True g(1,3) st(1,2) room by auto
      qed
    qed
  qed
  show ?thesis
  proof (cases "H = 0")
    case True
    then have rep0: "radix_rep B s 0 tp T" and r0: "rt_rnode s = 0" using rep ht(3) by simp_all
    have T: "T = Map.empty" using rep_empty [OF rep0] by simp
    then have own: "heap_owns (rt_heap s) B" using rep_owns [OF rep0] by (simp add: tree_nodes_def)
    show ?thesis
    proof (cases rule: radix_alloc [OF own, where ht = w, case_names full node])
      case (full h')
      then have "radix_tree_insert s k x = Some (- 1, s\<lparr>rt_heap := h', rt_rnode := 0\<rparr>)" using w(1) r0 by (simp add: radix_tree_insert_def Let_def)
      then show ?thesis using full(3) T by auto
    next
      case (node y h')
      define s1 where "s1 = s\<lparr>rt_heap := h', rt_count := rt_count s + 1, rt_rnode := y,
        rt_nodes := (rt_nodes s)(y \<mapsto> \<lparr>rn_slots = replicate 16 0, rn_parent = rt_at s, rn_offset = 0, rn_count = 0, rn_height = of_nat (unat w)\<rparr>), rt_height := of_nat (unat w)\<rparr>"
      have "radix_rep B s1 (unat w) (rt_at s) [(unat w, 0) \<mapsto> y]" unfolding s1_def
        by (rule rep_first [OF rep0 _ w(3) node(2,3,4)]) (use w(2) in simp)
      moreover have "radix_tree_insert s k x = radix_tree_grow_node s1 k x"
        using w(1) r0 node(1,2) by (simp add: radix_tree_insert_def Let_def radix_upd_def radix_tree_node_init_def s1_def)
      moreover have kw: "k < 16 ^ unat w" using w(4) [rule_format, OF w(2)] by simp
      moreover have "covered [(unat w, 0) \<mapsto> y] (insert k (keys T))"
      proof (unfold covered_def, intro allI impI)
        fix g p assume "([(unat w, 0) \<mapsto> y] :: radix_map) (Suc g, p) \<noteq> None"
        then have "Suc g = unat w" "p = 0" by (simp_all split: if_splits)
        then have "k div 16 ^ Suc g = p" using kw by simp
        then show "\<exists>k \<in> insert k (keys T). k div 16 ^ Suc g = p" by blast
      qed
      moreover have "room_for (rt_heap s1) 15" if "room_for (rt_heap s) 31"
        using node(5) [of 30] that room_for_mono [of h' 30 15] by (simp add: s1_def)
      ultimately show ?thesis using w(2,3) True T by (intro last [of s1 "unat w" "rt_at s" "[(unat w, 0) \<mapsto> y]"]) (auto simp: s1_def)
    qed
  next
    case False
    obtain a where a: "rt_rnode s = a" "a \<noteq> 0" "T (H, 0) = Some a" using rep False by (auto elim: rep_root)
    have less: "rt_height s < ucast w \<longleftrightarrow> H < unat w" unfolding ht(1) word_less_nat_alt using small_height(3) [OF ht(2)] by (simp add: up_u8)
    have key: "k \<notin> keys T" if "H < unat w" using key_less [OF mp, of k] w(4) [rule_format, of H] False that by auto
    show ?thesis
    proof (cases "H < unat w")
      case fits: False
      then have kH: "k < 16 ^ H" using w(4) [rule_format, of H] False by simp
      have "radix_tree_insert s k x = radix_tree_grow_node s k x" using w(1) a less fits by (simp add: radix_tree_insert_def)
      then show ?thesis using False rep kH ht(2) covered_mono [OF cov] room_for_mono [of _ 31 15] by (intro last [of s H tp T]) auto
    next
      case True
      have cov1: "covered T (insert k (keys T))" by (rule covered_mono [OF cov]) blast
      have "under T H 0 \<noteq> {}" using under_ne [OF cov, of H 0] a(3) by simp
      then have "\<exists>k \<in> insert k (keys T). k < 16 ^ H" using key_less [OF mp] by (auto simp: under_def)
      from grow_height_ok [OF rep _ _ w(3) cov1 this] False True obtain r s1 where g: "radix_tree_grow_height s w = Some (r, s1)" "rt_at s1 = rt_at s"
        "r = - 1 \<and> (\<forall>n \<ge> unat w - H. \<not> room_for (rt_heap s) n) \<or>
         r = int (unat w) \<and> (\<exists>tp' T'. radix_rep B s1 (unat w) tp' T' \<and> (\<forall>j. T' (0, j) = T (0, j)) \<and> covered T' (insert k (keys T))) \<and>
           (\<forall>m. room_for (rt_heap s) (unat w - H + m) \<longrightarrow> room_for (rt_heap s1) m)" by auto
      have st: "radix_tree_insert s k x = (if r < 0 then Some (r, s1) else radix_tree_grow_node s1 k x)"
        using w(1) a less True g(1) by (simp add: radix_tree_insert_def)
      have none: "T (0, k) = None" using key [OF True] by (simp add: keys_def)
      from g(3) show ?thesis
      proof (elim disjE conjE exE)
        assume "r = - 1" "\<forall>n \<ge> unat w - H. \<not> room_for (rt_heap s) n"
        then show ?thesis using st none g(2) w(3) by auto
      next
        fix tp' T' assume r: "r = int (unat w)" "\<forall>m. room_for (rt_heap s) (unat w - H + m) \<longrightarrow> room_for (rt_heap s1) m"
          and T': "radix_rep B s1 (unat w) tp' T'" "\<forall>j. T' (0, j) = T (0, j)" "covered T' (insert k (keys T))"
        have "room_for (rt_heap s1) 15" if "room_for (rt_heap s) 31"
          using r(2) room_for_mono [OF that, of "unat w - H + 15"] w(3) False by simp
        moreover have "k < 16 ^ unat w" using w(4) [rule_format, OF w(2)] by simp
        ultimately show ?thesis using T' w(2,3) st r(1) g(2) none True by (intro last [of s1 "unat w" tp' T']) auto
      qed
    qed
  qed
qed

section \<open>Deletion\<close>

lemma delete_path_ok:
  assumes rep: "radix_rep B s H tp T"
  shows "T (Suc h, k div 16 ^ Suc h) = Some a \<Longrightarrow> 0 < h \<longrightarrow> unat shift = 4 * h \<Longrightarrow>
    delete_path h s k shift a = Some (if T (Suc 0, k div 16) = None then 0 else ptr (T (Suc 0, k div 16)))"
proof (induction h arbitrary: a shift)
  case 0
  then show ?case by simp
next
  case (Suc h)
  note mp = rep_map [OF rep]
  let ?q = "k div 16 ^ Suc h"
  have a: "T (Suc (Suc h), ?q div 16) = Some a" using Suc.prems(1) unfolding div_16 .
  have H: "Suc h \<le> H" "Suc h < 16" using tree_mapD(3) [OF mp a] rep_level [OF rep a] by simp_all
  have off: "radix_offset k (unat shift) = Some (?q mod 16)" using Suc.prems(2) radix_offset_level [OF H(2), of k] by simp
  have sl: "radix_slot s a (?q mod 16) = Some (ptr (T (Suc h, ?q)))" using rep_slot [OF rep a, of "?q mod 16"] by simp
  have st: "delete_path (Suc h) s k shift a = delete_path h s k (shift - of_nat BIT_LEVEL) (ptr (T (Suc h, ?q)))"
    using off sl tree_mapD(1) [OF mp a] by simp
  show ?case
  proof (cases "T (Suc h, ?q)")
    case None
    have "T (Suc 0, k div 16 ^ Suc 0) = None"
      using tree_up [OF mp, of "Suc 0" k "Suc h"] None H(1) by (cases "T (Suc 0, k div 16 ^ Suc 0)") auto
    moreover have "delete_path h s k w 0 = Some 0" for w by (cases h) simp_all
    ultimately show ?thesis using st None by simp
  next
    case (Some b)
    have "0 < h \<longrightarrow> unat (shift - of_nat BIT_LEVEL) = 4 * h" using Suc.prems(2) shift_next [of shift h] by simp
    from Suc.IH [OF Some this] st Some show ?thesis by simp
  qed
qed

lemma of_nat_zero:
  assumes "n \<le> 16"
  shows "(of_nat n :: u32) = 0 \<longleftrightarrow> n = 0"
proof
  assume "(of_nat n :: u32) = 0"
  then have "unat (of_nat n :: u32) = unat (0 :: u32)" by (rule arg_cong)
  then show "n = 0" unfolding small_height(3) [OF assms] by simp
qed simp

lemma count_zero: "(of_nat (card (children T g p)) :: u32) = 0 \<longleftrightarrow> children T g p = {}"
proof -
  have "children T g p \<subseteq> {..<16}" by (auto simp: children_def)
  then have "card (children T g p) \<le> 16" using card_mono [of "{..<16 :: nat}"] by fastforce
  from of_nat_zero [OF this] show ?thesis by (simp add: card_eq_0_iff)
qed

lemma rep_is_root:
  assumes "radix_rep B s H tp T" "T (Suc g, q) = Some a"
  shows "a = rt_rnode s \<longleftrightarrow> Suc g = H"
proof -
  note mp = rep_map [OF assms(1)]
  have H: "0 < H" using tree_mapD(2) [OF mp assms(2)] .
  obtain b where b: "T (H, 0) = Some b" "rt_rnode s = b" using assms(1) H by (auto elim: rep_root)
  obtain h where h: "H = Suc h" using H by (cases H) auto
  show ?thesis
  proof
    assume "a = rt_rnode s"
    then have "T (Suc h, 0) = Some a" using b h by simp
    from tree_mapD(6) [OF mp assms(2) this] show "Suc g = H" using h by simp
  next
    assume g: "Suc g = H"
    then have "q = 0" using tree_mapD(4) [OF mp assms(2)] by simp
    then show "a = rt_rnode s" using b assms(2) g by simp
  qed
qed

lemma prune_ok:
  "radix_rep B s H tp T \<Longrightarrow> T (Suc g, k div 16 ^ Suc g) = Some a \<Longrightarrow> \<forall>h \<le> g. T (h, k div 16 ^ h) = None \<Longrightarrow>
   \<exists>g' b s' T'. prune s a = Some (b, s') \<and> radix_rep B s' H tp T' \<and> rt_at s' = rt_at s \<and> T' (Suc g', k div 16 ^ Suc g') = Some b \<and>
     (\<forall>h \<le> g'. T' (h, k div 16 ^ h) = None) \<and> (\<forall>j. T' (0, j) = T (0, j)) \<and> (\<forall>D. covered T D \<longrightarrow> covered T' D) \<and>
     (children T' g' (k div 16 ^ Suc g') \<noteq> {} \<or> Suc g' = H)"
proof (induction "H - g" arbitrary: s T g a)
  case 0
  then show ?case using tree_mapD(3) [OF rep_map [OF 0(2)] 0(3)] by simp
next
  case (Suc n)
  note rep = Suc.prems(1) and a = Suc.prems(2) and mp = rep_map [OF Suc.prems(1)]
  let ?q = "k div 16 ^ Suc g"
  have nd: "rt_nodes s a = Some (node_image T H tp g ?q)" by (rule rep_node [OF rep a])
  have z: "rn_count (node_image T H tp g ?q) = 0 \<longleftrightarrow> children T g ?q = {}" using count_zero [of T g ?q] by (simp add: node_image_def)
  note root = rep_is_root [OF rep a]
  show ?case
  proof (cases "children T g ?q = {} \<and> Suc g \<noteq> H")
    case False
    then have "prune s a = Some (a, s)" using nd z root by (subst prune.simps) auto
    then show ?thesis using False rep a Suc.prems(3) by (intro exI [of _ g] exI [of _ a] exI [of _ s] exI [of _ T]) auto
  next
    case True
    have H: "Suc g < H" using True tree_mapD(3) [OF mp a] by simp
    from tree_mapD(5) [OF mp _ H, of ?q] a obtain b where b: "T (Suc (Suc g), ?q div 16) = Some b" by auto
    have par: "rn_parent (node_image T H tp g ?q) = b" using H b by (simp add: node_image_def)
    have off: "unat (rn_offset (node_image T H tp g ?q)) = ?q mod 16" by (simp add: node_image_def unat_of_nat take_bit_nat_eq_self)
    have B: "a \<in> B \<union> tree_nodes T" using in_tree_nodes [of T g ?q a] a by simp
    from hp.release_owns [OF rep_owns [OF rep] B] obtain h' where h': "heap_free (rt_heap s) a = Some h'" "heap_owns h' (B \<union> tree_nodes T - {a})" by blast
    have ba: "b \<noteq> a" using tree_mapD(6) [OF mp a, of "Suc g" "?q div 16"] b by auto
    have bn: "rt_nodes s b = Some (node_image T H tp (Suc g) (?q div 16))" by (rule rep_node [OF rep b])
    let ?T = "T((Suc g, ?q) := None)"
    define s1 where "s1 = s\<lparr>rt_heap := h', rt_count := rt_count s - 1,
      rt_nodes := (rt_nodes s)(a := None, b \<mapsto> del_child (node_image T H tp (Suc g) (?q div 16)) (?q mod 16))\<rparr>"
    have rep1: "radix_rep B s1 H tp ?T" unfolding s1_def
      by (rule rep_del_node [OF rep a b _ h'(2)]) (use True in simp)
    have st: "prune s a = prune s1 b"
      using nd z root True par off h'(1) ba bn
      by (subst prune.simps) (simp add: radix_tree_node_free_def set_slot_def radix_upd_def del_child_def s1_def)
    have b1: "?T (Suc (Suc g), k div 16 ^ Suc (Suc g)) = Some b" using b unfolding div_16 by simp
    have none: "\<forall>h \<le> Suc g. ?T (h, k div 16 ^ h) = None" using Suc.prems(3) by (auto simp: le_Suc_eq)
    have "n = H - Suc g" using Suc.hyps(2) by simp
    from Suc.hyps(1) [OF this rep1 b1 none] obtain g' c s' T' where i: "prune s1 b = Some (c, s')" "radix_rep B s' H tp T'" "rt_at s' = rt_at s1"
      "T' (Suc g', k div 16 ^ Suc g') = Some c" "\<forall>h \<le> g'. T' (h, k div 16 ^ h) = None" "\<forall>j. T' (0, j) = ?T (0, j)"
      "\<forall>D. covered ?T D \<longrightarrow> covered T' D" "children T' g' (k div 16 ^ Suc g') \<noteq> {} \<or> Suc g' = H" by blast
    have cov: "covered ?T D" if "covered T D" for D using that by (auto simp: covered_def)
    show ?thesis using st i cov by (intro exI [of _ g'] exI [of _ c] exI [of _ s'] exI [of _ T']) (simp add: s1_def)
  qed
qed

lemma prefix_up: "j div 16 ^ Suc g = (k :: nat) div 16 ^ Suc g \<Longrightarrow> g \<le> h \<Longrightarrow> j div 16 ^ Suc h = k div 16 ^ Suc h"
proof (induction h)
  case (Suc h)
  show ?case
  proof (cases "g = Suc h")
    case False
    then have "j div 16 ^ Suc h = k div 16 ^ Suc h" using Suc by simp
    then show ?thesis unfolding div_16 [of _ "Suc h", symmetric] by simp
  qed (use Suc in simp)
qed simp

lemma pruned_covered:
  assumes cov: "covered T (insert k (keys T))" and c: "children T g (k div 16 ^ Suc g) \<noteq> {}"
    and none: "\<forall>h \<le> g. T (h, k div 16 ^ h) = None"
  shows "covered T (keys T)"
proof -
  from c obtain i where i: "i < 16" "T (g, 16 * (k div 16 ^ Suc g) + i) \<noteq> None" by (auto simp: children_def)
  let ?c = "16 * (k div 16 ^ Suc g) + i"
  have "\<exists>j \<in> keys T. j div 16 ^ g = ?c"
  proof (cases g)
    case 0
    then show ?thesis using i(2) by (intro bexI [of _ ?c]) (simp_all add: keys_def)
  next
    case (Suc f)
    then obtain j where j: "j \<in> insert k (keys T)" "j div 16 ^ g = ?c" using cov i(2) unfolding covered_def by metis
    have "j \<noteq> k" using j(2) i(2) none by auto
    then show ?thesis using j by blast
  qed
  then obtain j where j: "j \<in> keys T" "j div 16 ^ g = ?c" by blast
  then have jk: "j div 16 ^ Suc g = k div 16 ^ Suc g" using i(1) div_16 [of j g] by simp
  show ?thesis unfolding covered_def
  proof (intro allI impI)
    fix h p assume t: "T (Suc h, p) \<noteq> None"
    then obtain l where l: "l \<in> insert k (keys T)" "l div 16 ^ Suc h = p" using cov unfolding covered_def by blast
    show "\<exists>k \<in> keys T. k div 16 ^ Suc h = p"
    proof (cases "l = k")
      case True
      have "g \<le> h" using none t l(2) True by (metis Suc_leI not_less)
      from prefix_up [OF jk this] l(2) True j(1) show ?thesis by auto
    qed (use l in auto)
  qed
qed

text \<open>The last node goes with the last item.\<close>

lemma rep_last:
  assumes rep: "radix_rep B s H tp T" and H: "0 < H" and c: "children T (H - 1) 0 = {}"
  shows "T (h, p) \<noteq> None \<Longrightarrow> (h, p) = (H, 0)" "tree_nodes T = {rt_rnode s}"
proof -
  note mp = rep_map [OF rep]
  obtain g where g: "H = Suc g" using H by (cases H) auto
  show all: "(h, p) = (H, 0)" if "T (h, p) \<noteq> None" for h p
  proof (rule ccontr)
    assume ne: "(h, p) \<noteq> (H, 0)"
    have l: "h \<le> H" "p < 16 ^ (H - h)" using that tree_mapD(3,4) [OF mp] by auto
    then have "h \<noteq> H" using ne by auto
    then have hg: "h \<le> g" using l(1) g by simp
    let ?k = "p * 16 ^ h"
    have p: "?k div 16 ^ h = p" by simp
    have "T (h, ?k div 16 ^ h) \<noteq> None" unfolding p by (rule that)
    from tree_up [OF mp this hg] have t: "T (g, ?k div 16 ^ g) \<noteq> None" using g by simp
    then have "?k div 16 ^ g < 16" using tree_mapD(4) [OF mp, of g "?k div 16 ^ g"] g by auto
    then have "?k div 16 ^ g \<in> children T g 0" using t by (simp add: children_def)
    then show False using c g by simp
  qed
  obtain a where a: "T (H, 0) = Some a" "rt_rnode s = a" using rep H by (auto elim: rep_root)
  have "b = a" if "T (Suc f, p) = Some b" for f p b using all [of "Suc f" p] that a(1) g by simp
  moreover have "T (Suc g, 0) = Some a" using a(1) g by simp
  ultimately show "tree_nodes T = {rt_rnode s}" unfolding a(2) tree_nodes_def by blast
qed

lemma delete_ok:
  assumes rep: "radix_rep B s H tp T" and cov: "covered T (keys T)" and k: "k < 2 ^ 64"
  shows "\<exists>s' H' tp' T'. radix_tree_delete s k = Some (ptr (T (0, k)), s') \<and> rt_at s' = rt_at s \<and> radix_rep B s' H' tp' T' \<and> covered T' (keys T') \<and>
    (\<forall>j. T' (0, j) = (if j = k then None else T (0, j))) \<and> (T (0, k) = None \<longrightarrow> s' = s) \<and> (H' = H \<or> keys T' = {})"
proof -
  note mp = rep_map [OF rep]
  from radix_height_eq [OF k] obtain w where w: "radix_tree_height k = Some w" "1 \<le> unat w" "unat w \<le> 16" "\<forall>h \<ge> 1. k < 16 ^ h \<longleftrightarrow> unat w \<le> h" by blast
  have ht: "rt_height s = of_nat H" "H \<le> 16" using rep by (simp_all add: radix_rep_def)
  have si: "sint (rt_height s) = int H" using small_height(1) [OF ht(2)] ht(1) by simp
  have absent: "?thesis" if "radix_tree_delete s k = Some (0, s)" "T (0, k) = None"
    using that rep cov by (intro exI [of _ s] exI [of _ H] exI [of _ tp] exI [of _ T]) simp
  show ?thesis
  proof (cases "H < unat w")
    case True
    have "k \<notin> keys T"
    proof
      assume "k \<in> keys T"
      then have "k < 16 ^ H" "0 < H" using key_less [OF mp] tree_mapD(2) [OF mp, of 0 k] by (auto simp: keys_def)
      then show False using w(4) True by (metis Suc_leI One_nat_def leD)
    qed
    moreover have "sint (rt_height s) < int (unat w)" using True by (simp only: si of_nat_less_iff)
    then have "radix_tree_delete s k = Some (0, s)" using w(1) unfolding radix_tree_delete_def by simp
    ultimately show ?thesis by (intro absent) (simp_all add: keys_def)
  next
    case False
    then have H: "0 < H" "k < 16 ^ H" using w(2) w(4) [rule_format, of H] by simp_all
    obtain h where h: "H = Suc h" using H(1) by (cases H) auto
    obtain a where a: "T (H, 0) = Some a" "rt_rnode s = a" using rep H by (auto elim: rep_root)
    have aS: "T (Suc h, k div 16 ^ Suc h) = Some a" using a(1) H(2) h by simp
    let ?sh = "ucast ((rt_height s - 1) * of_nat BIT_LEVEL) :: u8"
    have "unat ?sh = 4 * h"
    proof -
      have "unat ((rt_height s - 1) * of_nat BIT_LEVEL) = 4 * h" using shift_first(1) [OF H(1) ht(2)] ht(1) h by simp
      moreover have "h \<le> 15" using ht(2) h by simp
      ultimately show ?thesis by (simp add: unsigned_ucast_eq take_bit_nat_eq_self)
    qed
    from delete_path_ok [OF rep aS, of ?sh] this have dp: "delete_path h s k ?sh (rt_rnode s) = Some (if T (Suc 0, k div 16) = None then 0 else ptr (T (Suc 0, k div 16)))"
      using a(2) by simp
    have nlt: "\<not> sint (rt_height s) < int (unat w)" using False by (simp only: si of_nat_less_iff not_less)
    have hn: "nat (sint (rt_height s)) - 1 = h" using si h by simp
    show ?thesis
    proof (cases "T (Suc 0, k div 16)")
      case None
      have "k \<notin> keys T" using key_up [OF mp, of k "Suc 0"] None H(1) by auto
      moreover have "radix_tree_delete s k = Some (0, s)" using w(1) nlt dp None unfolding radix_tree_delete_def hn by simp
      ultimately show ?thesis by (intro absent) (simp_all add: keys_def)
    next
      case (Some b)
      note b = Some
      have b0: "b \<noteq> 0" by (rule tree_mapD(1) [OF mp b])
      have sl: "radix_slot s b (k mod 16) = Some (ptr (T (0, k)))" using rep_slot [OF rep b, of "k mod 16"] by simp
      show ?thesis
      proof (cases "T (0, k)")
        case None
        then have "radix_tree_delete s k = Some (0, s)" using w(1) nlt dp b b0 sl unfolding radix_tree_delete_def hn by (simp add: Let_def and_15)
        then show ?thesis using None by (rule absent)
      next
        case (Some x)
        have x0: "x \<noteq> 0" by (rule tree_mapD(1) [OF mp Some])
        have kn: "T (0, k) \<noteq> None" using Some by simp
        define s1 where "s1 = s\<lparr>rt_nodes := (rt_nodes s)(b \<mapsto> del_child (node_image T H tp 0 (k div 16)) (k mod 16))\<rparr>"
        let ?T = "T((0, k) := None)"
        have rep1: "radix_rep B s1 H tp ?T" unfolding s1_def by (rule rep_del_item [OF rep kn b])
        have b1: "?T (Suc 0, k div 16 ^ Suc 0) = Some b" "\<forall>h \<le> 0. ?T (h, k div 16 ^ h) = None" using b by simp_all
        from prune_ok [OF rep1 b1] obtain g c s2 T2 where p: "prune s1 b = Some (c, s2)" "radix_rep B s2 H tp T2" "rt_at s2 = rt_at s1"
          "T2 (Suc g, k div 16 ^ Suc g) = Some c" "\<forall>h \<le> g. T2 (h, k div 16 ^ h) = None" "\<forall>j. T2 (0, j) = ?T (0, j)"
          "\<forall>D. covered ?T D \<longrightarrow> covered T2 D" "children T2 g (k div 16 ^ Suc g) \<noteq> {} \<or> Suc g = H" by blast
        have st: "radix_tree_delete s k = do { s \<leftarrow> prune_root s2 c; Some (x, s) }"
          using w(1) nlt dp b b0 sl Some x0 rep_node [OF rep b] p(1) unfolding radix_tree_delete_def hn
          by (simp add: Let_def and_15 set_slot_def radix_upd_def del_child_def s1_def)
        have at2: "rt_at s2 = rt_at s" using p(3) by (simp add: s1_def)
        have k2: "keys T2 = keys T - {k}" using p(6) by (auto simp: keys_def)
        then have ik: "insert k (keys T2) = keys T" using kn by (auto simp: keys_def)
        have "covered ?T (keys T)" using cov by (auto simp: covered_def)
        then have cov2: "covered T2 (insert k (keys T2))" using p(7) unfolding ik by blast
        have T2: "\<forall>j. T2 (0, j) = (if j = k then None else T (0, j))" using p(6) by simp
        obtain r where r: "T2 (H, 0) = Some r" "rt_rnode s2 = r" "r \<noteq> 0" using p(2) H(1) by (auto elim: rep_root)
        have rn: "rt_nodes s2 r = Some (node_image T2 H tp h 0)" using rep_node [OF p(2), of h 0 r] r(1) h by simp
        have cz: "rn_count (node_image T2 H tp h 0) = 0 \<longleftrightarrow> children T2 h 0 = {}" using count_zero [of T2 h 0] by (simp add: node_image_def)
        show ?thesis
        proof (cases "children T2 h 0 = {}")
          case False
          then have "prune_root s2 c = Some s2" using r rn cz by (simp add: prune_root_def)
          moreover have "children T2 g (k div 16 ^ Suc g) \<noteq> {}" using p(8) False h H(2) by auto
          then have "covered T2 (keys T2)" by (rule pruned_covered [OF cov2 _ p(5)])
          ultimately show ?thesis using st Some p(2) T2 at2
            by (intro exI [of _ s2] exI [of _ H] exI [of _ tp] exI [of _ T2]) simp
        next
          case True
          then have ce: "children T2 (H - 1) 0 = {}" using h by simp
          note last = rep_last [OF p(2) H(1) ce]
          have "(Suc g, k div 16 ^ Suc g) = (H, 0)" using last(1) p(4) by blast
          then have cr: "c = r" using p(4) r(1) by (simp only: option.inject)
          have own: "r \<in> B \<union> tree_nodes T2" "B \<inter> tree_nodes T2 = {}" using last(2) r(2) p(2) by (auto simp: radix_rep_def)
          from hp.release_owns [OF rep_owns [OF p(2)] own(1)] obtain h' where h': "heap_free (rt_heap s2) r = Some h'" "heap_owns h' (B \<union> tree_nodes T2 - {r})" by blast
          have "B \<union> tree_nodes T2 - {r} = B" using own(2) last(2) r(2) by auto
          then have hB: "heap_owns h' B" using h'(2) by simp
          define s3 where "s3 = s2\<lparr>rt_heap := h', rt_nodes := (rt_nodes s2)(r := None), rt_count := rt_count s2 - 1, rt_rnode := 0, rt_height := 0\<rparr>"
          have "prune_root s2 c = Some s3" using r rn cz True cr h'(1) by (simp add: prune_root_def radix_tree_node_free_def s3_def)
          moreover have "radix_rep B s3 0 0 Map.empty"
          proof -
            have "dom (rt_nodes s2) = {r}" "rt_count s2 = 1" using p(2) last(2) r(2) by (simp_all add: radix_rep_def)
            then show ?thesis using hB by (auto simp: radix_rep_def s3_def tree_map_def tree_nodes_def)
          qed
          moreover have none: "T2 (0, j) = None" for j using last(1) [of 0 j] H(1) by (cases "T2 (0, j)") auto
          ultimately show ?thesis using st Some at2 T2
            by (intro exI [of _ s3] exI [of _ 0] exI [of _ 0] exI [of _ Map.empty]) (auto simp: s3_def keys_def covered_def)
        qed
      qed
    qed
  qed
qed

end
