(* ===== verification/Radix_Props.thy ===== *)
theory Radix_Props
  imports Radix_Update
begin

text \<open>
  The radix tree as a finite map from indices to items, its interface as a locale, interpreted on the code's
  model, and its properties.
\<close>

section \<open>The map\<close>

text \<open>The tree holds the map \<open>M\<close>, and the heap holds its nodes beside the blocks of \<open>B\<close>.\<close>

definition radix_holds :: "addr set \<Rightarrow> radix \<Rightarrow> (nat \<rightharpoonup> addr) \<Rightarrow> bool" where
  "radix_holds B s M \<longleftrightarrow> (\<exists>H tp T. radix_rep B s H tp T \<and> covered T (keys T) \<and> M = (\<lambda>k. T (0, k)))"

definition radix_capacity :: "radix \<Rightarrow> nat" where
  "radix_capacity s = 16 ^ unat (rt_height s)"

lemma rep_capacity: "radix_rep B s H tp T \<Longrightarrow> radix_capacity s = 16 ^ H"
  using small_height(3) [of H] by (simp add: radix_capacity_def radix_rep_def)

lemma same_contents: "covered T (keys T) \<Longrightarrow> \<forall>j. T (0, j) = M j \<Longrightarrow> radix_rep B s H tp T \<Longrightarrow> radix_holds B s M"
  unfolding radix_holds_def by (intro exI [of _ H] exI [of _ tp] exI [of _ T]) auto

lemma holds_in_range:
  assumes "radix_holds B s M" "M k = Some x"
  shows "k < radix_capacity s \<and> x \<noteq> 0"
proof -
  from assms obtain H tp T where rep: "radix_rep B s H tp T" and t: "T (0, k) = Some x" by (auto simp: radix_holds_def)
  have "k \<in> keys T" using t by (simp add: keys_def)
  then show ?thesis using key_less [OF rep_map [OF rep], of k] tree_mapD(1) [OF rep_map [OF rep] t] rep_capacity [OF rep] by simp
qed

lemma holds_lookup: "radix_holds B s M \<Longrightarrow> radix_tree_lookup s k = Some (ptr (M (k mod radix_capacity s)))"
  using lookup_ok rep_capacity unfolding radix_holds_def by fastforce

lemma holds_insert:
  assumes "radix_holds B s M" "k < 2 ^ 64" "x \<noteq> 0"
  shows "\<exists>r s'. radix_tree_insert s k x = Some (r, s') \<and>
    (if M k \<noteq> None then r = - 1 \<and> s' = s
     else r = - 1 \<and> \<not> room_for (rt_heap s) 31 \<or>
       r = 0 \<and> radix_holds B s' (M(k \<mapsto> x)) \<and> k < radix_capacity s' \<and> radix_capacity s \<le> radix_capacity s')"
proof -
  from assms(1) obtain H tp T where rep: "radix_rep B s H tp T" and cov: "covered T (keys T)" and M: "M = (\<lambda>k. T (0, k))"
    by (auto simp: radix_holds_def)
  from insert_ok [OF rep cov assms(2,3)] obtain r s' where i: "radix_tree_insert s k x = Some (r, s')"
    "if T (0, k) \<noteq> None then r = - 1 \<and> s' = s
     else r = - 1 \<and> \<not> room_for (rt_heap s) 31 \<or>
       r = 0 \<and> (\<exists>H' tp' T'. radix_rep B s' H' tp' T' \<and> covered T' (keys T') \<and> H \<le> H' \<and> k < 16 ^ H' \<and>
         (\<forall>j. T' (0, j) = (if j = k then Some x else T (0, j))))" by blast
  have "radix_holds B s' (M(k \<mapsto> x)) \<and> k < radix_capacity s' \<and> radix_capacity s \<le> radix_capacity s'"
    if rep': "radix_rep B s' H' tp' T'" and "covered T' (keys T')" "H \<le> H'" "k < 16 ^ H'" "\<forall>j. T' (0, j) = (if j = k then Some x else T (0, j))" for H' tp' T'
    using that same_contents [OF that(2) _ rep', of "M(k \<mapsto> x)"] rep_capacity [OF rep] rep_capacity [OF rep']
    by (simp add: M power_increasing)
  then have step: "\<exists>H' tp' T'. radix_rep B s' H' tp' T' \<and> covered T' (keys T') \<and> H \<le> H' \<and> k < 16 ^ H' \<and> (\<forall>j. T' (0, j) = (if j = k then Some x else T (0, j))) \<Longrightarrow>
      radix_holds B s' (M(k \<mapsto> x)) \<and> k < radix_capacity s' \<and> radix_capacity s \<le> radix_capacity s'" by blast
  show ?thesis
  proof (cases "T (0, k) = None")
    case True
    then have nn: "\<not> T (0, k) \<noteq> None" by simp
    from i(2) [unfolded if_not_P [OF nn]] have "r = - 1 \<and> \<not> room_for (rt_heap s) 31 \<or>
       r = 0 \<and> radix_holds B s' (M(k \<mapsto> x)) \<and> k < radix_capacity s' \<and> radix_capacity s \<le> radix_capacity s'" using step by blast
    then show ?thesis using i(1) True unfolding M by simp
  next
    case False
    then show ?thesis using i by (simp add: M)
  qed
qed

lemma holds_delete:
  assumes "radix_holds B s M" "k < 2 ^ 64"
  shows "\<exists>s'. radix_tree_delete s k = Some (ptr (M k), s') \<and> radix_holds B s' (M(k := None)) \<and> (M k = None \<longrightarrow> s' = s)"
proof -
  from assms(1) obtain H tp T where rep: "radix_rep B s H tp T" and cov: "covered T (keys T)" and M: "M = (\<lambda>k. T (0, k))"
    by (auto simp: radix_holds_def)
  from delete_ok [OF rep cov assms(2)] show ?thesis
  proof (elim exE conjE)
    fix s' H' tp' T'
    assume d: "radix_tree_delete s k = Some (ptr (T (0, k)), s')" "radix_rep B s' H' tp' T'"
      "covered T' (keys T')" "\<forall>j. T' (0, j) = (if j = k then None else T (0, j))" "T (0, k) = None \<longrightarrow> s' = s"
    then show ?thesis using same_contents [OF d(3) _ d(2), of "M(k := None)"] by (simp add: M)
  qed
qed

lemma holds_empty:
  assumes "radix_holds B s Map.empty"
  shows "heap_owns (rt_heap s) B \<and> rt_nodes s = Map.empty \<and> rt_rnode s = 0 \<and> rt_height s = 0 \<and> rt_count s = 0"
proof -
  from assms obtain H tp T where rep: "radix_rep B s H tp T" and cov: "covered T (keys T)" and M: "\<forall>k. T (0, k) = None"
    unfolding radix_holds_def fun_eq_iff by auto
  have "keys T = {}" using M by (simp add: keys_def)
  then have none: "T (Suc g, p) = None" for g p using cov unfolding covered_def by (cases "T (Suc g, p)") auto
  then have "tree_nodes T = {}" by (auto simp: tree_nodes_def)
  moreover have "H = 0" using rep none by (cases H) (auto simp: radix_rep_def)
  ultimately show ?thesis using rep by (auto simp: radix_rep_def)
qed

lemma holds_init: "heap_owns (rt_heap s) B \<Longrightarrow> rt_nodes s = Map.empty \<Longrightarrow> radix_holds B (radix_tree_init s) Map.empty"
  unfolding radix_holds_def radix_tree_init_def
  by (intro exI [of _ 0] exI [of _ Map.empty]) (auto simp: radix_rep_def tree_map_def tree_nodes_def covered_def)

section \<open>The interface: a sparse array\<close>

text \<open>\<open>cap\<close> is the number of indices that the array tells apart at the moment, \<open>room\<close> says that memory is left.\<close>

locale sparse_array =
  fixes holds :: "'s \<Rightarrow> (nat \<rightharpoonup> addr) \<Rightarrow> bool"
    and cap :: "'s \<Rightarrow> nat"
    and room :: "'s \<Rightarrow> bool"
    and put :: "'s \<Rightarrow> nat \<Rightarrow> addr \<Rightarrow> (int \<times> 's) option"
    and get :: "'s \<Rightarrow> nat \<Rightarrow> addr option"
    and drop :: "'s \<Rightarrow> nat \<Rightarrow> (addr \<times> 's) option"
  assumes range_law: "holds s M \<Longrightarrow> M k = Some x \<Longrightarrow> k < cap s \<and> x \<noteq> 0"
    and get_law: "holds s M \<Longrightarrow> get s k = Some (ptr (M (k mod cap s)))"
    and put_law: "holds s M \<Longrightarrow> k < 2 ^ 64 \<Longrightarrow> x \<noteq> 0 \<Longrightarrow> \<exists>r s'. put s k x = Some (r, s') \<and>
      (if M k \<noteq> None then r = - 1 \<and> s' = s
       else r = - 1 \<and> \<not> room s \<or> r = 0 \<and> holds s' (M(k \<mapsto> x)) \<and> k < cap s' \<and> cap s \<le> cap s')"
    and drop_law: "holds s M \<Longrightarrow> k < 2 ^ 64 \<Longrightarrow>
      \<exists>s'. drop s k = Some (ptr (M k), s') \<and> holds s' (M(k := None)) \<and> (M k = None \<longrightarrow> s' = s)"
begin

lemma put_done:
  assumes "holds s M" "k < 2 ^ 64" "x \<noteq> 0" "put s k x = Some (0, s')"
  shows "M k = None \<and> holds s' (M(k \<mapsto> x)) \<and> k < cap s' \<and> cap s \<le> cap s'"
  using put_law [OF assms(1-3)] assms(4) by (auto split: if_splits)

lemma get_put:
  assumes "holds s M" "k < 2 ^ 64" "x \<noteq> 0" "put s k x = Some (0, s')" "j < cap s \<or> j = k"
  shows "get s' j = (if j = k then Some x else get s j)"
  using put_done [OF assms(1-4)] get_law [of s' "M(k \<mapsto> x)" j] get_law [OF assms(1), of j] assms(5) by auto

lemma put_drop:
  assumes "holds s M" "k < 2 ^ 64" "x \<noteq> 0" "put s k x = Some (0, s')"
  shows "\<exists>s''. drop s' k = Some (x, s'') \<and> holds s'' M"
proof -
  note p = put_done [OF assms]
  from p drop_law [of s' "M(k \<mapsto> x)" k] assms(2) obtain s'' where "drop s' k = Some (x, s'')" "holds s'' ((M(k \<mapsto> x))(k := None))" by auto
  moreover have "(M(k \<mapsto> x))(k := None) = M" using p by (simp add: fun_eq_iff)
  ultimately show ?thesis by simp
qed

lemma put_room:
  assumes "holds s M" "k < 2 ^ 64" "x \<noteq> 0" "M k = None" "room s"
  shows "\<exists>s'. put s k x = Some (0, s')"
  using put_law [OF assms(1-3)] assms(4,5) by auto

end

interpretation rx: sparse_array "radix_holds B" radix_capacity "\<lambda>s. room_for (rt_heap s) 31" radix_tree_insert radix_tree_lookup radix_tree_delete
proof
  fix s M k x
  show "radix_holds B s M \<Longrightarrow> M k = Some x \<Longrightarrow> k < radix_capacity s \<and> x \<noteq> 0" by (rule holds_in_range)
  show "radix_holds B s M \<Longrightarrow> radix_tree_lookup s k = Some (ptr (M (k mod radix_capacity s)))" by (rule holds_lookup)
  show "radix_holds B s M \<Longrightarrow> k < 2 ^ 64 \<Longrightarrow> x \<noteq> 0 \<Longrightarrow> \<exists>r s'. radix_tree_insert s k x = Some (r, s') \<and>
      (if M k \<noteq> None then r = - 1 \<and> s' = s
       else r = - 1 \<and> \<not> room_for (rt_heap s) 31 \<or> r = 0 \<and> radix_holds B s' (M(k \<mapsto> x)) \<and> k < radix_capacity s' \<and> radix_capacity s \<le> radix_capacity s')"
    by (rule holds_insert)
  show "radix_holds B s M \<Longrightarrow> k < 2 ^ 64 \<Longrightarrow> \<exists>s'. radix_tree_delete s k = Some (ptr (M k), s') \<and> radix_holds B s' (M(k := None)) \<and> (M k = None \<longrightarrow> s' = s)"
    by (rule holds_delete)
qed

section \<open>Growth without memory\<close>

lemma grow_failure:
  assumes rep: "radix_rep B s H tp T" and H: "0 < H" and k: "k < 2 ^ 64" "16 ^ H \<le> k" and full: "heap_malloc (rt_heap s) 152 = Some (0, h')"
    and items: "\<forall>j x. T (0, j) = Some x \<longrightarrow> x \<notin> insert (rt_at s) (tree_nodes T)" and j: "j < 16 ^ Suc H"
  shows "\<exists>s'. radix_tree_insert s k x = Some (- 1, s') \<and> radix_tree_lookup s' j = (if T (0, j div 16) = None then Some 0 else None)"
proof -
  note mp = rep_map [OF rep]
  from radix_height_eq [OF k(1)] obtain w where w: "radix_tree_height k = Some w" "unat w \<le> 16" "\<forall>h \<ge> 1. k < 16 ^ h \<longleftrightarrow> unat w \<le> h" by blast
  have Hw: "H < unat w" using w(3) [rule_format, of H] H k(2) by simp
  then have H16: "H < 16" using w(2) by simp
  have ht: "rt_height s = of_nat H" using rep by (simp add: radix_rep_def)
  obtain a where a: "T (H, 0) = Some a" "rt_rnode s = a" "a \<noteq> 0" using rep H by (auto elim: rep_root)
  have lt: "rt_height s < ucast w" unfolding ht word_less_nat_alt using small_height(3) [of H] H16 Hw by (simp add: up_u8)
  define s' where "s' = s\<lparr>rt_height := of_nat (Suc H), rt_heap := h'\<rparr>"
  have "rt_height s + 1 = of_nat (Suc H)" unfolding ht by simp
  then have "radix_tree_grow_height s w = Some (- 1, s')"
    using lt full by (simp add: radix_tree_grow_height.simps [of s w] radix_tree_node_alloc_def radix_node_size_def Let_def s'_def del: of_nat_Suc)
  then have ins: "radix_tree_insert s k x = Some (- 1, s')" using w(1) a lt by (simp add: radix_tree_insert_def)
  have reads: "radix_slot s' b i = Some (ptr (T (g, 16 * p + i)))" if "T (Suc g, p) = Some b" "i < 16" for g p b i
    using rep_slot [OF rep that] rep_node [OF rep that(1)] by (simp add: radix_slot_def s'_def)
  let ?k = "j div 16"
  have kH: "?k div 16 ^ H = 0" using j by (simp add: div_less_iff_less_mult flip: div_mult2_eq)
  have aH: "T (H, ?k div 16 ^ H) = Some a" using a(1) unfolding kH .
  have hs: "rt_height s' = of_nat (Suc H)" by (simp add: s'_def)
  have sh: "0 < H + 1 \<longrightarrow> unat ((rt_height s' - 1) * of_nat BIT_LEVEL) = 4 * (H + 1 - 1)"
    using shift_first(1) [of "Suc H"] H16 unfolding hs by simp
  have dig: "\<forall>g < H. j div 16 ^ (g + 1) mod 16 = ?k div 16 ^ g mod 16" by (simp add: div_mult2_eq)
  have si: "nat (sint (rt_height s')) = H + 1" using small_height(1) [of "Suc H"] H16 unfolding hs by simp
  have le: "H + 1 \<le> 16" using H16 by simp
  have rn: "rt_rnode s' = a" using a(2) by (simp add: s'_def)
  have lk: "radix_tree_lookup s' j = lookup_path (H + 1) s' j ((rt_height s' - 1) * of_nat BIT_LEVEL) a"
    using a(3) unfolding radix_tree_lookup_def si rn by simp
  have path: "case T (0, ?k) of None \<Rightarrow> radix_tree_lookup s' j = Some 0
     | Some x \<Rightarrow> \<exists>w. (0 < (1 :: nat) \<longrightarrow> unat w = 4 * (1 - 1)) \<and> radix_tree_lookup s' j = lookup_path 1 s' j w x"
    unfolding lk by (rule lookup_path_ok [OF mp reads aH sh le dig])
  show ?thesis
  proof (cases "T (0, ?k)")
    case None
    then show ?thesis using path ins by simp
  next
    case (Some y)
    then obtain v where v: "unat v = 0" "radix_tree_lookup s' j = lookup_path 1 s' j v y" using path by auto
    have "y \<notin> insert (rt_at s) (tree_nodes T)" using items Some by blast
    then have "y \<noteq> rt_at s" "rt_nodes s y = None" using rep unfolding radix_rep_def by auto
    then have "radix_slot s' y i = None" for i by (simp add: radix_slot_def s'_def)
    then have "lookup_path 1 s' j v y = None" by (simp add: radix_offset_def)
    then show ?thesis using ins v(2) Some by simp
  qed
qed

section \<open>Queries by order\<close>

definition radix_grown :: "radix \<Rightarrow> bool" where
  "radix_grown s \<longleftrightarrow> (case rt_nodes s (rt_rnode s) of None \<Rightarrow> False | Some n \<Rightarrow> rn_parent n = 0)"

text \<open>The item of the least bound index from \<open>k\<close> on, or \<^verbatim>\<open>NULL\<close>.\<close>

definition first_from :: "(nat \<rightharpoonup> addr) \<Rightarrow> nat \<Rightarrow> addr" where
  "first_from M k = (if \<exists>i \<ge> k. M i \<noteq> None then ptr (M (LEAST i. k \<le> i \<and> M i \<noteq> None)) else 0)"

lemma next_item_first: "next_item T k = first_from (\<lambda>k. T (0, k)) k"
proof -
  have "{j \<in> keys T. k \<le> j} = {} \<longleftrightarrow> \<not> (\<exists>i \<ge> k. T (0, i) \<noteq> None)" by (auto simp: keys_def)
  moreover have "(j \<in> {j \<in> keys T. k \<le> j}) = (k \<le> j \<and> T (0, j) \<noteq> None)" for j by (auto simp: keys_def)
  ultimately show ?thesis unfolding next_item_def least_item_def first_from_def by auto
qed

lemma least_item_first: "least_item T (keys T) = first_from (\<lambda>k. T (0, k)) 0"
  unfolding next_item_first [symmetric] next_item_def by simp

lemma first_from_empty: "first_from M 0 = 0" if "M = Map.empty"
  using that by (simp add: first_from_def)

lemma holds_upper_bound:
  assumes "radix_holds B s M" "rt_at s \<notin> dom (rt_nodes s)"
  shows "radix_tree_lookup_upper_bound s j = Some (
    if \<exists>i \<ge> j mod radix_capacity s. M i \<noteq> None then first_from M (j mod radix_capacity s)
    else if radix_grown s then 0 else first_from M 0)"
    "radix_tree_root_left s = Some (first_from M 0)"
proof -
  from assms(1) obtain H tp T where rep: "radix_rep B s H tp T" and cov: "covered T (keys T)" and M: "M = (\<lambda>k. T (0, k))"
    by (auto simp: radix_holds_def)
  note mp = rep_map [OF rep]
  have ex: "(\<exists>i \<in> keys T. k \<le> i) = (\<exists>i \<ge> k. M i \<noteq> None)" for k by (auto simp: M keys_def)
  have "radix_tree_lookup_upper_bound s j = Some (
      if \<exists>i \<ge> j mod radix_capacity s. M i \<noteq> None then first_from M (j mod radix_capacity s)
      else if radix_grown s then 0 else first_from M 0) \<and> radix_tree_root_left s = Some (first_from M 0)"
  proof (cases "H = 0")
    case True
    then have T: "T = Map.empty" "rt_rnode s = 0" using rep_empty [of B s tp T] rep by simp_all
    then have "M = Map.empty" by (simp add: M)
    then show ?thesis using T(2) first_from_empty [of M]
      by (simp add: radix_tree_lookup_upper_bound_def radix_tree_root_left_def radix_tree_node_left_def)
  next
    case False
    then obtain g where g: "H = Suc g" by (cases H) auto
    obtain a where a: "T (H, 0) = Some a" "rt_rnode s = a" using rep False by (auto elim: rep_root)
    have aS: "T (Suc g, 0) = Some a" using a(1) unfolding g .
    have "rt_nodes s (rt_rnode s) = Some (node_image T H tp g 0)" using rep_node [OF rep aS] a(2) by simp
    then have gr: "radix_grown s \<longleftrightarrow> tp = 0" using g by (simp add: radix_grown_def node_image_def)
    have "under T (Suc g) 0 = keys T" using key_less [OF mp] unfolding g under_def by auto
    then have "radix_tree_root_left s = Some (first_from M 0)"
      using node_left_ok [OF rep cov aS] a(2) by (simp add: radix_tree_root_left_def least_item_first M)
    then show ?thesis
      using upper_bound_ok [OF rep cov assms(2), of j] unfolding ex rep_capacity [OF rep] gr past_end_def next_item_first least_item_first M by simp
  qed
  then show "radix_tree_lookup_upper_bound s j = Some (
      if \<exists>i \<ge> j mod radix_capacity s. M i \<noteq> None then first_from M (j mod radix_capacity s)
      else if radix_grown s then 0 else first_from M 0)" "radix_tree_root_left s = Some (first_from M 0)" by blast+
qed

section \<open>Properties\<close>

text \<open>An empty tree in the heap of the examples, and the tree after its first insertion.\<close>

definition demo_radix :: radix where
  "demo_radix = radix_tree_init \<lparr>rt_at = 8, rt_height = 7, rt_count = 7, rt_rnode = 7, rt_nodes = Map.empty, rt_heap = demo_heap\<rparr>"

lemma demo_radix_holds: "radix_holds {} demo_radix Map.empty"
  unfolding demo_radix_def by (rule holds_init) (simp_all add: demo_heap_owns)

lemma demo_radix_room: "room_for (rt_heap demo_radix) 31"
  using heap_room_mono [OF demo_heap_room] by (simp add: room_for_def demo_radix_def radix_tree_init_def)

lemma demo_radix_put: "\<exists>s. radix_tree_insert demo_radix 5 40 = Some (0, s) \<and> radix_holds {} s [5 \<mapsto> 40]"
  using rx.put_room [OF demo_radix_holds, of 5 40] demo_radix_room rx.put_done [OF demo_radix_holds, of 5 40] by auto

definition one_item :: "radix \<Rightarrow> addr \<Rightarrow> heap \<Rightarrow> radix" where
  "one_item s p h = s\<lparr>rt_heap := h, rt_count := rt_count s + 1, rt_rnode := p, rt_height := 1,
     rt_nodes := (rt_nodes s)(p \<mapsto> \<lparr>rn_slots = (replicate 16 0)[5 := 40], rn_parent = rt_at s, rn_offset = 0, rn_count = 1, rn_height = 1\<rparr>)\<rparr>"

lemma insert_first_eval:
  assumes "rt_rnode s = 0" "heap_malloc (rt_heap s) 152 = Some (p, h)" "p \<noteq> 0"
  shows "radix_tree_insert s 5 40 = Some (0, one_item s p h)"
proof -
  have w: "radix_tree_height 5 = Some 1" by code_simp
  show ?thesis using assms
    by (simp add: radix_tree_insert_def w radix_tree_node_alloc_def radix_node_size_def radix_upd_def radix_tree_node_init_def
      radix_tree_grow_node_def and_15 radix_slot_def set_slot_def one_item_def Let_def)
qed

text \<open>C34. Insertion of an item that is not a null pointer into the tree refines the update of a finite map: it refuses a bound index and changes nothing,
  or binds the index and nothing else, growing the tree where needed. Every lookup in the new tree is that of the updated
  map at the index modulo the capacity of the new tree, sixteen to its height, so that the indices below the old capacity
  are looked up as before. Otherwise memory ran out, which cannot happen while the heap has room for 31 nodes.\<close>
theorem radix_insert_exact:
  assumes "radix_holds B s M" "k < 2 ^ 64" "x \<noteq> 0"
  shows "\<exists>r s'. radix_tree_insert s k x = Some (r, s') \<and>
    (if M k \<noteq> None then r = - 1 \<and> s' = s
     else r = - 1 \<and> \<not> room_for (rt_heap s) 31 \<or>
       r = 0 \<and> radix_holds B s' (M(k \<mapsto> x)) \<and> radix_tree_lookup s' k = Some x \<and>
         (\<forall>j. radix_tree_lookup s' j = Some (ptr ((M(k \<mapsto> x)) (j mod radix_capacity s')))) \<and>
         (\<forall>j < radix_capacity s. j \<noteq> k \<longrightarrow> radix_tree_lookup s' j = radix_tree_lookup s j))"
  using rx.put_law [OF assms] rx.get_put [OF assms] rx.get_law by (fastforce split: if_splits)

theorem radix_insert_exact_witness:
  "\<exists>s. radix_tree_insert demo_radix 5 40 = Some (0, s) \<and> radix_tree_lookup s 5 = Some 40"
  using radix_insert_exact [OF demo_radix_holds, of 5 40] demo_radix_room by auto

text \<open>C35. Deletion returns the item of the index, or a null pointer, and unbinds it and nothing else. The nodes that
  became empty are given back: when the last item is gone the tree is empty again and the heap holds exactly
  what it held beside the tree.\<close>
theorem radix_delete_exact:
  assumes "radix_holds B s M" "k < 2 ^ 64"
  shows "\<exists>s'. radix_tree_delete s k = Some (ptr (M k), s') \<and> radix_holds B s' (M(k := None)) \<and> (M k = None \<longrightarrow> s' = s) \<and>
    (M(k := None) = Map.empty \<longrightarrow> heap_owns (rt_heap s') B \<and> rt_rnode s' = 0 \<and> rt_height s' = 0 \<and> rt_count s' = 0)"
  using rx.drop_law [OF assms] holds_empty by metis

theorem radix_delete_exact_witness:
  "\<exists>s s'. radix_tree_insert demo_radix 5 40 = Some (0, s) \<and> radix_tree_delete s 5 = Some (40, s') \<and> heap_owns (rt_heap s') {} \<and> rt_rnode s' = 0"
proof -
  from demo_radix_put obtain s where s: "radix_tree_insert demo_radix 5 40 = Some (0, s)" "radix_holds {} s [5 \<mapsto> 40]" by blast
  have "([5 \<mapsto> 40])(5 := None) = (Map.empty :: nat \<rightharpoonup> addr)" by (simp add: fun_eq_iff)
  then show ?thesis using s(1) radix_delete_exact [OF s(2), of 5] by auto
qed

text \<open>\<^verbatim>\<open>radix_tree_lookup\<close> does not compare the index with the height of the tree: it returns the item of the index
  modulo sixteen to the height, so every item is also found under indices it was never stored at.\<close>
theorem radix_lookup_aliases:
  assumes "radix_holds B s M"
  shows "radix_tree_lookup s k = Some (ptr (M (k mod 16 ^ unat (rt_height s))))"
  using rx.get_law [OF assms] unfolding radix_capacity_def .

theorem radix_lookup_aliases_witness:
  "\<exists>s. radix_tree_insert demo_radix 5 40 = Some (0, s) \<and> radix_tree_lookup s (5 + 16 ^ unat (rt_height s)) = Some 40"
proof -
  from demo_radix_put obtain s where s: "radix_tree_insert demo_radix 5 40 = Some (0, s)" "radix_holds {} s [5 \<mapsto> 40]" by blast
  have "5 < (16 :: nat) ^ unat (rt_height s)" using rx.range_law [OF s(2), of 5 40] by (simp add: radix_capacity_def)
  then show ?thesis using s(1) radix_lookup_aliases [OF s(2), of "5 + 16 ^ unat (rt_height s)"] by simp
qed

text \<open>C36. The upper bound search does not compare the index with the height of the tree: it starts at the index modulo the
  capacity, sixteen to the height, and returns the item of the least bound index from there on; for an index below the
  capacity this is the least bound index not below it, and an index past the end wraps around. The search for the
  leftmost item returns that of the least bound index. When no index is bound from the start on, the upper bound search
  returns a null pointer only after the tree has grown at its root; before that the parent of the root node is the root
  struct, whose pointer to the root node is taken for a slot, and the item of the least index is returned.\<close>
theorem radix_upper_bound_exact:
  assumes "radix_holds B s M" "rt_at s \<notin> dom (rt_nodes s)"
  shows "radix_tree_root_left s = Some (first_from M 0) \<and> radix_tree_lookup_upper_bound s j = Some (
    if \<exists>i \<ge> j mod radix_capacity s. M i \<noteq> None then first_from M (j mod radix_capacity s)
    else if radix_grown s then 0 else first_from M 0)"
  using holds_upper_bound [OF assms] by blast

theorem radix_upper_bound_exact_witness:
  "\<exists>s. radix_tree_insert demo_radix 5 40 = Some (0, s) \<and> radix_tree_lookup_upper_bound s 3 = Some 40 \<and>
     radix_tree_lookup_upper_bound s 9 = Some 40"
proof -
  have "malloc_round 152 = 168" by (simp add: malloc_round_def heap_struct_size_def sz_add_def)
  then obtain h where h: "heap_malloc demo_heap 152 = Some (80, h)"
    using malloc_refines(2) [OF demo_heap_inv, of 152 64 "[Blk 64 168 False, Blk 232 1048408 True]"]
    by (auto simp: carve_def MIN_SIZE_def heap_struct_size_def heap_malloc_def)
  let ?s = "one_item demo_radix 80 h"
  have i: "radix_tree_insert demo_radix 5 40 = Some (0, ?s)"
    by (rule insert_first_eval) (use h in \<open>simp_all add: demo_radix_def radix_tree_init_def\<close>)
  have hs: "radix_holds {} ?s [5 \<mapsto> 40]" using rx.put_done [OF demo_radix_holds _ _ i] by simp
  have c: "radix_capacity ?s = 16" "\<not> radix_grown ?s" "rt_at ?s \<notin> dom (rt_nodes ?s)"
    by (simp_all add: one_item_def radix_capacity_def radix_grown_def demo_radix_def radix_tree_init_def)
  have five: "(LEAST i :: nat. i = 5) = 5" "(LEAST i :: nat. 3 \<le> i \<and> i = 5) = 5" by (auto intro: Least_equality)
  have "radix_tree_lookup_upper_bound ?s 3 = Some 40" "radix_tree_lookup_upper_bound ?s 9 = Some 40"
    using radix_upper_bound_exact [OF hs c(3), of 3] radix_upper_bound_exact [OF hs c(3), of 9] c(1,2) five
    by (auto simp: first_from_def)
  with i show ?thesis by blast
qed

text \<open>What was inserted can be deleted, with the tree holding the same map as before.\<close>
theorem radix_insert_delete:
  assumes "radix_holds B s M" "k < 2 ^ 64" "x \<noteq> 0" "radix_tree_insert s k x = Some (0, s')"
  shows "\<exists>s''. radix_tree_delete s' k = Some (x, s'') \<and> radix_holds B s'' M"
  by (rule rx.put_drop [OF assms])

theorem radix_insert_delete_witness:
  "\<exists>s s'. radix_tree_insert demo_radix 5 40 = Some (0, s) \<and> radix_tree_delete s 5 = Some (40, s') \<and> radix_holds {} s' Map.empty"
  using demo_radix_put radix_insert_delete [OF demo_radix_holds, of 5 40] by fastforce

text \<open>C37. When memory runs out while the tree grows, the height in the root is already incremented and no node stands for
  it: the insertion returns \<open>-1\<close>, and from then on every walk ends one level too deep. A lookup returns a null
  pointer or follows the item of another index as if it were a node.\<close>
theorem radix_grow_failure:
  assumes "radix_holds B s M" "M \<noteq> Map.empty" "k < 2 ^ 64" "radix_capacity s \<le> k" "heap_malloc (rt_heap s) 152 = Some (0, h')"
    and "\<forall>y \<in> ran M. y \<noteq> rt_at s \<and> y \<notin> dom (rt_nodes s)" "j < 16 * radix_capacity s"
  shows "\<exists>s'. radix_tree_insert s k x = Some (- 1, s') \<and> radix_tree_lookup s' j = (if M (j div 16) = None then Some 0 else None)"
proof -
  from assms(1) obtain H tp T where rep: "radix_rep B s H tp T" and M: "M = (\<lambda>k. T (0, k))" by (auto simp: radix_holds_def)
  have "H \<noteq> 0" using rep_empty [of B s tp T] rep assms(2) by (auto simp: M)
  moreover have "\<forall>j x. T (0, j) = Some x \<longrightarrow> x \<notin> insert (rt_at s) (tree_nodes T)"
    using assms(6) rep unfolding M ran_def radix_rep_def by auto
  ultimately show ?thesis
    using grow_failure [OF rep _ assms(3) _ assms(5), of j x] assms(4,7) rep_capacity [OF rep] by (simp add: M)
qed

text \<open>A tree of one item whose heap has no byte left.\<close>

lemma full_radix:
  "\<exists>s h'. radix_holds {80} s [5 \<mapsto> 40] \<and> radix_capacity s = 16 \<and> heap_malloc (rt_heap s) 152 = Some (0, h') \<and> rt_at s = 8 \<and> 40 \<notin> dom (rt_nodes s)"
proof -
  have r: "malloc_round 1048392 = 1048408" "malloc_round 152 = 168" by (simp_all add: malloc_round_def heap_struct_size_def sz_add_def)
  then obtain h where h: "heap_malloc demo_heap 1048392 = Some (80, h)" "heap_inv h [Blk 64 1048408 False, Blk 1048472 168 True]"
    using malloc_refines(2) [OF demo_heap_inv, of 1048392 64 "[Blk 64 1048408 False, Blk 1048472 168 True]"]
    by (auto simp: carve_def MIN_SIZE_def heap_struct_size_def heap_malloc_def)
  from malloc_refines(2) [OF h(2), of 152 1048472 "[Blk 64 1048408 False, Blk 1048472 168 False]"] r(2) obtain h' where
    h': "heap_malloc h 152 = Some (1048488, h')" "heap_inv h' [Blk 64 1048408 False, Blk 1048472 168 False]"
    by (auto simp: carve_def MIN_SIZE_def heap_struct_size_def heap_malloc_def)
  have full: "heap_malloc h' 152 = Some (0, h')"
    using malloc_refines(1) [OF h'(2), of 152] r(2) by (simp add: heap_malloc_def)
  have "heap_owns h {80}" using heap_inv_live [OF h(2)] by (force simp: heap_owns_def used_regions_def)
  then have s0: "radix_holds {80} (demo_radix\<lparr>rt_heap := h\<rparr>) Map.empty"
    using holds_init [of "demo_radix\<lparr>rt_heap := h\<rparr>" "{80}"] by (simp add: demo_radix_def radix_tree_init_def)
  have "radix_tree_insert (demo_radix\<lparr>rt_heap := h\<rparr>) 5 40 = Some (0, one_item (demo_radix\<lparr>rt_heap := h\<rparr>) 1048488 h')"
    by (rule insert_first_eval) (use h'(1) in \<open>simp_all add: demo_radix_def radix_tree_init_def\<close>)
  from rx.put_done [OF s0 _ _ this] have "radix_holds {80} (one_item (demo_radix\<lparr>rt_heap := h\<rparr>) 1048488 h') [5 \<mapsto> 40]" by simp
  then show ?thesis using full
    by (intro exI [of _ "one_item (demo_radix\<lparr>rt_heap := h\<rparr>) 1048488 h'"] exI [of _ h'])
      (simp add: one_item_def radix_capacity_def demo_radix_def radix_tree_init_def)
qed

theorem radix_grow_failure_witness:
  "\<exists>s s'. radix_tree_lookup s 5 = Some 40 \<and> radix_tree_insert s 16 48 = Some (- 1, s') \<and> radix_tree_lookup s' 5 = Some 0"
proof -
  from full_radix obtain s h' where s: "radix_holds {80} s [5 \<mapsto> 40]" "radix_capacity s = 16" "heap_malloc (rt_heap s) 152 = Some (0, h')"
    "rt_at s = 8" "40 \<notin> dom (rt_nodes s)" by blast
  have "radix_tree_lookup s 5 = Some 40" using rx.get_law [OF s(1), of 5] s(2) by simp
  moreover have "\<exists>s'. radix_tree_insert s 16 48 = Some (- 1, s') \<and> radix_tree_lookup s' 5 = Some 0"
    using radix_grow_failure [OF s(1) _ _ _ s(3), of 16 5 48] s(2,4,5) by simp
  ultimately show ?thesis by blast
qed

end
