(* ===== verification/Spec2Isabelle.thy ===== *)
theory Spec2Isabelle
  imports Link_List Remote Mg_Alloc Mempool Memalloc_Props Radix_Props
begin

text \<open>
  ccRPC: a remote procedure call library in C, with the containers and allocators it is built on.

  \<^bold>\<open>The program.\<close> Two nodes exchange messages over a byte stream. A client stub, generated from a list of
  fields by the macros of \<^verbatim>\<open>ccrpc/source/rpc_gen.c\<close>, encodes its parameters as TLV records
  (\<^verbatim>\<open>rpc_tlv.c\<close>), takes a sequence number, enters a pending call in a hash map and sends a request
  (\<^verbatim>\<open>rpc.c\<close>). It then waits (\<^verbatim>\<open>rpc_port.c\<close>). The other node collects the bytes of the stream in a queue
  of buffers, cuts complete messages off its front, finds the method by its name, runs the generated
  parser, the handler and the generated encoder, and sends the response. The receiver of the response
  finds the pending call by its number, copies the payload and wakes the caller. All memory is taken
  from the first-fit heap of \<^verbatim>\<open>mg/source/heap.c\<close>; \<^verbatim>\<open>mg\<close> has further allocators on top of it, and \<^verbatim>\<open>lib\<close> further
  containers. The node programs set up a TCP connection, start the core, and then run a thread that polls the
  connection and one that calls the other node and compares checksums.

  \<^bold>\<open>The theories\<close>, in the order of their dependencies.

  \<^item> \<^verbatim>\<open>Prelude\<close>: machine integers, byte buffers with bounds, little-endian encodings, the
  collections of simplification rules.
  \<^item> \<^verbatim>\<open>Bits\<close>: \<^verbatim>\<open>ccrpc/include/common.h\<close> (byte order, checksum), \<^verbatim>\<open>lib/include/compare.h\<close>,
  \<^verbatim>\<open>lib/include/math.h\<close>.
  \<^item> \<^verbatim>\<open>Link_List\<close>: \<^verbatim>\<open>lib/source/link_list.c\<close>, \<^verbatim>\<open>queue.c\<close>, \<^verbatim>\<open>stack.c\<close> on a store of nodes; the circular list as
  a sequence; the locales \<open>node_container\<close>, \<open>fifo\<close> and \<open>lifo\<close>, interpreted on queue and stack.
  \<^item> \<^verbatim>\<open>Heap_Alloc\<close>, \<^verbatim>\<open>Allocator\<close>: \<^verbatim>\<open>mg/source/heap.c\<close> at the level of its block headers. The
  abstract view is the list of blocks that tile the arena; \<open>spec_malloc\<close> and \<open>spec_free\<close> are first
  fit with splitting and release with coalescing. The locales \<open>allocator\<close> (live regions) and \<open>address_space\<close>
  (owned addresses) are the interface of every other component, interpreted on the heap.
  \<^item> \<^verbatim>\<open>Membit\<close>, \<^verbatim>\<open>Mg_Alloc\<close>: \<^verbatim>\<open>mg/source/membit.c\<close> and \<^verbatim>\<open>mg_alloc.c\<close>. A pool is a set of free slots; a region
  is a set of used blocks which never overlap and which lie in heap blocks of the region's own.
  \<^item> \<^verbatim>\<open>Hashmap\<close>: \<^verbatim>\<open>lib/source/hashmap.c\<close>, refining a finite map for integer and string keys.
  \<^item> \<^verbatim>\<open>Tlv\<close>, \<^verbatim>\<open>Gen\<close>: \<^verbatim>\<open>rpc_tlv.c\<close> and the generated functions as functions of the list of fields.
  \<^item> \<^verbatim>\<open>Reasm\<close>: the queue of received buffers of \<^verbatim>\<open>rpc.c\<close>.
  \<^item> \<^verbatim>\<open>Port\<close>: the waiter of \<^verbatim>\<open>rpc_port.c\<close>.
  \<^item> \<^verbatim>\<open>Rpc\<close>: all functions of \<^verbatim>\<open>rpc.c\<close>. \<^verbatim>\<open>Rpc_Wire\<close> has the message format, \<^verbatim>\<open>Rpc_Inv\<close> the invariant and the
  ownership of every heap block, \<^verbatim>\<open>Rpc_Ops\<close> and \<^verbatim>\<open>Rpc_Calls\<close> what each operation does to them and the
  reachability relation \<open>rpc_reach\<close>, \<^verbatim>\<open>Rpc_Room\<close> that the operations succeed when the heap has
  room, \<^verbatim>\<open>Rpc_Props\<close> the properties.
  \<^item> \<^verbatim>\<open>Services\<close>: the handlers of \<^verbatim>\<open>nodeA/src/services_fs.c\<close> and \<^verbatim>\<open>nodeB/src/services_shell.c\<close>, the generated
  registration functions and client stubs. What a handler promises is a function on the environment and the parameter
  values (\<open>fs_read_service\<close>, \<open>shell_exec_service\<close>), and \<open>implements\<close> says that the handler keeps it. \<^verbatim>\<open>Stubs\<close> has the stub calls from the arguments to the result struct.
  \<^item> \<^verbatim>\<open>Tcp\<close>: \<^verbatim>\<open>port/src/rpc_cal_tcp.c\<close>; the socket interface is the record \<open>socket_api\<close>, a parameter, and
  \<open>posix_sockets\<close> and, for \<^verbatim>\<open>recv\<close>, \<open>recv_fills\<close> state what is relied on of it. \<^verbatim>\<open>Crc\<close>: the checksum of the node programs. \<^verbatim>\<open>Nodes\<close>:
  \<^verbatim>\<open>nodeA/src/main.c\<close> and \<^verbatim>\<open>nodeB/src/main.c\<close>, the start and the bodies of the two loops. \<^verbatim>\<open>Remote\<close>: two nodes
  together, the request of one dispatched by the core of the other and its response coming back.
  \<^item> \<^verbatim>\<open>Rbtree\<close>: \<^verbatim>\<open>lib/source/rbtree.c\<close> on a store of nodes with parent pointers; \<^verbatim>\<open>Rbtree_Shape\<close> relates it to
  binary trees, \<^verbatim>\<open>Rbtree_Insert\<close> and \<^verbatim>\<open>Rbtree_Erase\<close> follow the two repair loops, \<^verbatim>\<open>Rbtree_Props\<close> has the
  properties and the locale \<open>ordered_index\<close> with its interpretation.
  \<^item> \<^verbatim>\<open>Memalloc\<close>, \<^verbatim>\<open>Memalloc_Props\<close>: \<^verbatim>\<open>mg/source/memalloc.c\<close>, best fit over a red-black tree of the free blocks.
  \<^item> \<^verbatim>\<open>Mempool\<close>: \<^verbatim>\<open>mg/source/mempool.c\<close>, a list of equal blocks ordered by address.
  \<^item> \<^verbatim>\<open>Radix\<close>: \<^verbatim>\<open>lib/source/radix.c\<close> on a store of nodes. \<^verbatim>\<open>Radix_Search\<close> and \<^verbatim>\<open>Radix_Update\<close> relate it to finite
  maps; \<^verbatim>\<open>Radix_Props\<close> has the properties and the locale \<open>sparse_array\<close> with its interpretation.

  \<^bold>\<open>How code becomes definitions.\<close> A C function is a function of the state it reads and returns the state it
  changes; the names are those of the source. \<open>None\<close> is the absence of a defined result: a null
  dereference, an access out of bounds, an undefined shift, a taken lock, or a loop that does not end.
  Addresses and sizes are natural numbers, with the wrap-around of \<^verbatim>\<open>size_t\<close> written out by \<open>sz_add\<close>
  and \<open>sz_sub\<close> where it matters; shorter integers are words. The objects of the RPC core live at heap
  addresses which the heap model hands out, so use after free, double free and leaks are visible.
  A call of \<^verbatim>\<open>rpc_call_with_tlv\<close> is split where it waits with the lock free: \<open>rpc_call_begin\<close> and
  \<open>rpc_call_finish\<close> are steps between which any other operations may run. Transports, handlers and the
  operating system are functions on the state \<open>world\<close> of the environment, which may change between any two steps.
  A whole call takes what happens while it waits as a function; \<open>answers\<close> says that the response arrives, and
  \<open>exchange\<close> of \<^verbatim>\<open>Remote\<close> is the other node.

  \<^bold>\<open>What the lemmas show.\<close> For the core: every state reached without polling a transport that has no data is
  well-formed, owns exactly its heap blocks and has the lock free, and that poll keeps the lock; with room in the heap a
  stream of bytes is cut into exactly its messages, in order (up to the first request, whose handler may use up the
  memory); a request for a generated method is answered exactly once, as the service that its handler implements says;
  a response reaches exactly its call; starting a call is atomic and finishing it releases everything;
  sequence numbers are fresh. For the whole program: a stub call comes back when the heap has room, a remote read
  returns the bytes of the file, the start brings a node up, and a round of the test passes against a node that has
  the same file, or on which the command gives the same output. For the heap: refinement of first fit, disjointness, coalescing.
  For the codecs: round trips, exact bounds and absence of leaks. For containers and allocators: refinement
  of sequences, finite maps, slot sets and block sets. Error properties show where the code does
  not do what it means to.

  \<^bold>\<open>Loops.\<close> No fuel is used. Loops over lists are recursive; \<^verbatim>\<open>rpc_next_seq\<close>, the walks of the heap's free list,
  the message loop and the loops of the red-black tree, the radix tree and the pools are \<open>partial_function\<close>s on
  \<open>option\<close> or recursions over a height, and the properties show that they return. Of the endless loop of the polling
  thread \<open>poll_thread\<close> gives the first \<open>k\<close> rounds, for every \<open>k\<close>; of the calling threads the body is modelled.

  \<^bold>\<open>Not modelled.\<close> In the two \<^verbatim>\<open>main.c\<close> the creation of the threads, the opening of the test file, the pauses and the
  messages printed; random numbers, the local file and the local commands are arguments.
  \<^verbatim>\<open>mg_region_print_pools\<close> and the debug dumps of \<^verbatim>\<open>rpc.c\<close> (output only), the allocation tracking of \<^verbatim>\<open>heap.c\<close>
  (compiled out).
\<close>

end
